(* ===== verification/Prelude.thy ===== *)
theory Prelude
  imports Main "HOL-Library.Word"
begin

text \<open>
  What every component of the kernel model shares: the machine integers of
  \<^verbatim>\<open>include/onix/types.h\<close>, the way the kernel fails (\<open>fault\<close>), the result type of an
  operation that can fail, and the lemmas and collections by which \<open>simp\<close> and \<open>auto\<close> carry
  the proofs of the components.

  A C function of the kernel is a function from its arguments and the state it touches to
  \<open>'a res\<close>, the new state (and the returned value, if there is one) or the fault that stopped
  it. \<^verbatim>\<open>assert(e)\<close> and \<^verbatim>\<open>panic(...)\<close> print a message and spin for ever
  (\<^verbatim>\<open>kernel/assert.c\<close>), so a fault ends the computation: nothing after it runs.
\<close>

unbundle bit_operations_syntax

section \<open>Machine integers\<close>

type_synonym u8 = "8 word"
type_synonym u16 = "16 word"
type_synonym u32 = "32 word"

section \<open>Faults and results\<close>

text \<open>
  The ways an execution of the kernel stops: a failed \<^verbatim>\<open>assert\<close>, a \<^verbatim>\<open>panic\<close> with its
  message, a read or write through \<^verbatim>\<open>NULL\<close> (page 0 is never mapped, so it traps), an
  access outside of the object a pointer points into (undefined in C), an arithmetic trap
  (division by zero), the use of a value the C code leaves undefined (the result of a function that
  falls off its end) and a loop that never ends.
\<close>

datatype fault =
    Assertion
  | Panic string
  | NullDeref
  | OutOfBounds
  | DivideError
  | Undefined
  | NoReturn

type_synonym 'a res = "fault + 'a"

text \<open>Sequencing: the rest of the function runs on the result, unless a fault stopped it.\<close>

definition bindE :: "'a res \<Rightarrow> ('a \<Rightarrow> 'b res) \<Rightarrow> 'b res" where
  "bindE m f = (case m of Inl e \<Rightarrow> Inl e | Inr x \<Rightarrow> f x)"

text \<open>\<^verbatim>\<open>assert(b); rest\<close> and \<^verbatim>\<open>if (!b) panic(msg); rest\<close>.\<close>

definition kassert :: "bool \<Rightarrow> 'a res \<Rightarrow> 'a res" where
  "kassert b rest = (if b then rest else Inl Assertion)"

text \<open>The value of a loop that may not end: no value is the fault \<open>NoReturn\<close>.\<close>

definition returns :: "'a res option \<Rightarrow> 'a res" where
  "returns r = (case r of None \<Rightarrow> Inl NoReturn | Some x \<Rightarrow> x)"

text \<open>A step of such a loop: the loop goes on from its result, unless a fault stops it.\<close>

definition bindO :: "'a res \<Rightarrow> ('a \<Rightarrow> 'b res option) \<Rightarrow> 'b res option" where
  "bindO m f = (case m of Inl e \<Rightarrow> Some (Inl e) | Inr x \<Rightarrow> f x)"

text \<open>Reading an array (or a C string, given as the bytes from the pointer on).\<close>

definition rd :: "'a list \<Rightarrow> nat \<Rightarrow> 'a res" where
  "rd xs i = (if i < length xs then Inr (xs ! i) else Inl OutOfBounds)"

text \<open>Writing an array.\<close>

definition wr :: "'a list \<Rightarrow> nat \<Rightarrow> 'a \<Rightarrow> 'a list res" where
  "wr xs i v = (if i < length xs then Inr (xs[i := v]) else Inl OutOfBounds)"

text \<open>A \<^verbatim>\<open>for\<close> loop over given values, each step on the state the last one left.\<close>

fun foldE :: "('a \<Rightarrow> 's \<Rightarrow> 's res) \<Rightarrow> 'a list \<Rightarrow> 's \<Rightarrow> 's res" where
  "foldE f [] s = Inr s"
| "foldE f (x # xs) s = bindE (f x s) (foldE f xs)"

named_theorems res_simps \<open>what a successful or failing computation is made of\<close>

lemma bindE_Inr [simp]: "bindE (Inr x) f = f x"
  by (simp add: bindE_def)

lemma bindE_Inl [simp]: "bindE (Inl e) f = Inl e"
  by (simp add: bindE_def)

lemma bindE_eq_Inr [res_simps]: "bindE m f = Inr y \<longleftrightarrow> (\<exists>x. m = Inr x \<and> f x = Inr y)"
  by (cases m) auto

lemma bindE_eq_Inl [res_simps]:
  "bindE m f = Inl e \<longleftrightarrow> m = Inl e \<or> (\<exists>x. m = Inr x \<and> f x = Inl e)"
  by (cases m) auto

text \<open>A recursive call in the rest of a sequence sees the value it continues from.\<close>

lemma bindE_cong [fundef_cong]:
  "m = m' \<Longrightarrow> (\<And>x. m' = Inr x \<Longrightarrow> f x = g x) \<Longrightarrow> bindE m f = bindE m' g"
  by (cases m') auto

lemma kassert_True [simp]: "kassert True m = m"
  by (simp add: kassert_def)

lemma kassert_False [simp]: "kassert False m = Inl Assertion"
  by (simp add: kassert_def)

lemma kassert_eq_Inr [res_simps]: "kassert b m = Inr y \<longleftrightarrow> b \<and> m = Inr y"
  by (simp add: kassert_def)

lemma kassert_eq_Inl [res_simps]:
  "kassert b m = Inl e \<longleftrightarrow> (\<not> b \<and> e = Assertion) \<or> (b \<and> m = Inl e)"
  by (auto simp: kassert_def)

lemma returns_Some [simp]: "returns (Some r) = r"
  by (simp add: returns_def)

lemma returns_None [simp]: "returns None = Inl NoReturn"
  by (simp add: returns_def)

lemma bindO_Inr [simp]: "bindO (Inr x) f = f x"
  by (simp add: bindO_def)

lemma bindO_Inl [simp]: "bindO (Inl e) f = Some (Inl e)"
  by (simp add: bindO_def)

lemma bindO_mono [partial_function_mono]:
  "(\<And>x. mono_option (\<lambda>F. f x F)) \<Longrightarrow> mono_option (\<lambda>F. bindO m (\<lambda>x. f x F))"
  by (cases m) (simp_all add: bindO_def partial_function_mono)

lemma rd_in [simp]: "i < length xs \<Longrightarrow> rd xs i = Inr (xs ! i)"
  by (simp add: rd_def)

lemma rd_eq_Inr [res_simps]: "rd xs i = Inr v \<longleftrightarrow> i < length xs \<and> v = xs ! i"
  by (auto simp: rd_def)

lemma wr_in [simp]: "i < length xs \<Longrightarrow> wr xs i v = Inr (xs[i := v])"
  by (simp add: wr_def)

lemma wr_eq_Inr [res_simps]: "wr xs i v = Inr ys \<longleftrightarrow> i < length xs \<and> ys = xs[i := v]"
  by (auto simp: wr_def)

lemma foldE_append: "foldE f (xs @ ys) s = bindE (foldE f xs s) (foldE f ys)"
proof (induction xs arbitrary: s)
  case Nil
  then show ?case by simp
next
  case (Cons x xs)
  then show ?case by (cases "f x s") auto
qed

text \<open>What every step of a loop keeps, the loop keeps.\<close>

lemma foldE_keeps:
  assumes "foldE f xs s = Inr t" and "P s" and "\<And>x s t. x \<in> set xs \<Longrightarrow> P s \<Longrightarrow> f x s = Inr t \<Longrightarrow> P t"
  shows "P t"
  using assms
proof (induction xs arbitrary: s)
  case Nil
  then show ?case by simp
next
  case (Cons x xs)
  from Cons.prems(1) obtain u where u: "f x s = Inr u" "foldE f xs u = Inr t" by (auto simp: bindE_eq_Inr)
  have "P u" using Cons.prems(2,3) u(1) by auto
  then show ?case using Cons.IH [OF u(2)] Cons.prems(3) by auto
qed

text \<open>Every value a computation returns satisfies \<open>P\<close> (a fault returns none).\<close>

definition all_res :: "('a \<Rightarrow> bool) \<Rightarrow> 'a res \<Rightarrow> bool" where
  "all_res P m \<longleftrightarrow> (\<forall>x. m = Inr x \<longrightarrow> P x)"

lemma all_resD: "all_res P m \<Longrightarrow> m = Inr x \<Longrightarrow> P x"
  by (simp add: all_res_def)

lemma all_res_simps [simp]:
  "all_res P (Inr x) \<longleftrightarrow> P x" "all_res P (Inl e)"
  by (auto simp: all_res_def)

lemma all_res_bindI: "(\<And>x. m = Inr x \<Longrightarrow> all_res P (f x)) \<Longrightarrow> all_res P (bindE m f)"
  by (cases m) auto

lemma all_res_ifI:
  "(b \<Longrightarrow> all_res P m) \<Longrightarrow> (\<not> b \<Longrightarrow> all_res P m') \<Longrightarrow> all_res P (if b then m else m')"
  by simp

lemma all_res_kassertI: "(b \<Longrightarrow> all_res P m) \<Longrightarrow> all_res P (kassert b m)"
  by (simp add: kassert_def)

lemma all_res_prodI: "(\<And>a b. x = (a, b) \<Longrightarrow> all_res P (f a b)) \<Longrightarrow> all_res P (case x of (a, b) \<Rightarrow> f a b)"
  by (cases x) simp

lemmas all_resI = all_res_bindI all_res_ifI all_res_kassertI all_res_prodI

text \<open>A check of the first \<open>n\<close> numbers, by evaluation.\<close>

lemma all_below: "list_all P [0..<n] \<Longrightarrow> i < n \<Longrightarrow> P i"
  by (simp add: list_all_iff)

section \<open>Words as numbers\<close>

text \<open>Sums and successors of words that do not wrap are sums of their numbers.\<close>

lemma unat_add_small:
  fixes a b :: "'a::len word"
  assumes "unat a + unat b < 2 ^ LENGTH('a)"
  shows "unat (a + b) = unat a + unat b"
  using assms by (simp add: unat_word_ariths)

lemma unat_Suc_small:
  fixes a :: "'a::len word"
  assumes "Suc (unat a) < 2 ^ LENGTH('a)"
  shows "unat (a + 1) = Suc (unat a)"
proof -
  have "unat (1 :: 'a word) = 1" by simp
  with assms show ?thesis by (simp add: unat_word_ariths)
qed

lemma unat_sub_le:
  fixes a b :: "'a::len word"
  assumes "b \<le> a"
  shows "unat (a - b) = unat a - unat b"
  using assms by (rule unat_sub)

lemma unat_of_nat_small: "n < 2 ^ LENGTH('a) \<Longrightarrow> unat (of_nat n :: 'a::len word) = n"
  by (simp add: unat_of_nat)

lemma u32_bound: "unat (v :: u32) < 4294967296"
proof -
  have "unat v < 2 ^ LENGTH(32)" by (rule unsigned_less)
  then show ?thesis by simp
qed

end
