(* ===== verification/Lists.thy ===== *)
theory Lists
  imports Prelude
begin

text \<open>
  The intrusive doubly linked list of \<^verbatim>\<open>lib/list.c\<close>, on which the task queues, the
  request queues, the free lists and the hash chains of the kernel are built.

  The heap gives each list node its two pointers. An address is the head or the tail node that
  lies inside a \<^verbatim>\<open>list_t\<close> (named \<open>'l\<close>) or the node embedded in an element (named
  \<open>'n\<close>, so that \<^verbatim>\<open>element_entry\<close> is the inverse of \<open>Node\<close>); \<^verbatim>\<open>NULL\<close> is
  \<open>None\<close>. The operations follow the pointer assignments of the C code one by one. The relation
  \<open>store_rel h c\<close> says that the heap \<open>h\<close> holds exactly the lists \<open>c\<close>; each operation refines
  an update of \<open>c\<close>, which is the locale \<open>intrusive_list\<close> that the users of the lists rely on.
\<close>

section \<open>The data of list.h\<close>

datatype ('l, 'n) addr = Head 'l | Tail 'l | Node 'n

record ('l, 'n) list_node_t =
  node_prev :: "('l, 'n) addr option"
  node_next :: "('l, 'n) addr option"

type_synonym ('l, 'n) heap = "('l, 'n) addr \<Rightarrow> ('l, 'n) list_node_t"

definition deref :: "('l, 'n) addr option \<Rightarrow> ('l, 'n) addr res" where
  "deref p = (case p of None \<Rightarrow> Inl NullDeref | Some a \<Rightarrow> Inr a)"

definition set_prev ::
  "('l, 'n) addr \<Rightarrow> ('l, 'n) addr option \<Rightarrow> ('l, 'n) heap \<Rightarrow> ('l, 'n) heap" where
  "set_prev a p h = h(a := (h a)\<lparr>node_prev := p\<rparr>)"

definition set_next ::
  "('l, 'n) addr \<Rightarrow> ('l, 'n) addr option \<Rightarrow> ('l, 'n) heap \<Rightarrow> ('l, 'n) heap" where
  "set_next a p h = h(a := (h a)\<lparr>node_next := p\<rparr>)"

section \<open>The operations of list.c\<close>

definition list_init :: "'l \<Rightarrow> ('l, 'n) heap \<Rightarrow> ('l, 'n) heap" where
  "list_init l h =
     (let h1 = set_prev (Head l) None h;
          h2 = set_next (Tail l) None h1;
          h3 = set_next (Head l) (Some (Tail l)) h2
      in set_prev (Tail l) (Some (Head l)) h3)"

definition list_insert_before ::
  "('l, 'n) addr \<Rightarrow> ('l, 'n) addr \<Rightarrow> ('l, 'n) heap \<Rightarrow> ('l, 'n) heap res" where
  "list_insert_before anchor node h =
     (let h1 = set_prev node (node_prev (h anchor)) h;
          h2 = set_next node (Some anchor) h1
      in bindE (deref (node_prev (h2 anchor))) (\<lambda>p.
         let h3 = set_next p (Some node) h2
         in Inr (set_prev anchor (Some node) h3)))"

definition list_insert_after ::
  "('l, 'n) addr \<Rightarrow> ('l, 'n) addr \<Rightarrow> ('l, 'n) heap \<Rightarrow> ('l, 'n) heap res" where
  "list_insert_after anchor node h =
     (let h1 = set_prev node (Some anchor) h;
          h2 = set_next node (node_next (h1 anchor)) h1
      in bindE (deref (node_next (h2 anchor))) (\<lambda>q.
         let h3 = set_prev q (Some node) h2
         in Inr (set_next anchor (Some node) h3)))"

definition list_remove :: "('l, 'n) addr \<Rightarrow> ('l, 'n) heap \<Rightarrow> ('l, 'n) heap res" where
  "list_remove node h =
     kassert (node_prev (h node) \<noteq> None) (
     kassert (node_next (h node) \<noteq> None) (
     bindE (deref (node_prev (h node))) (\<lambda>p.
     let h1 = set_next p (node_next (h node)) h in
     bindE (deref (node_next (h1 node))) (\<lambda>q.
     let h2 = set_prev q (node_prev (h1 node)) h1;
         h3 = set_next node None h2
     in Inr (set_prev node None h3)))))"

definition list_empty :: "'l \<Rightarrow> ('l, 'n) heap \<Rightarrow> bool" where
  "list_empty l h = (node_next (h (Head l)) = Some (Tail l))"

text \<open>The walks follow \<open>next\<close> until the tail; on a damaged list they may never meet it.\<close>

partial_function (option) search_loop ::
  "('l, 'n) heap \<Rightarrow> 'l \<Rightarrow> ('l, 'n) addr \<Rightarrow> ('l, 'n) addr option \<Rightarrow> bool res option" where
  "search_loop h l node nxt =
     (if nxt = Some (Tail l) then Some (Inr False)
      else if nxt = Some node then Some (Inr True)
      else (case nxt of
              None \<Rightarrow> Some (Inl NullDeref)
            | Some a \<Rightarrow> search_loop h l node (node_next (h a))))"

declare search_loop.simps [code]

definition list_search :: "'l \<Rightarrow> ('l, 'n) addr \<Rightarrow> ('l, 'n) heap \<Rightarrow> bool res" where
  "list_search l node h = returns (search_loop h l node (node_next (h (Head l))))"

partial_function (option) size_loop ::
  "('l, 'n) heap \<Rightarrow> 'l \<Rightarrow> ('l, 'n) addr option \<Rightarrow> u32 \<Rightarrow> u32 res option" where
  "size_loop h l nxt sz =
     (if nxt = Some (Tail l) then Some (Inr sz)
      else (case nxt of
              None \<Rightarrow> Some (Inl NullDeref)
            | Some a \<Rightarrow> size_loop h l (node_next (h a)) (sz + 1)))"

declare size_loop.simps [code]

definition list_size :: "'l \<Rightarrow> ('l, 'n) heap \<Rightarrow> u32 res" where
  "list_size l h = returns (size_loop h l (node_next (h (Head l))) 0)"

definition list_push :: "'l \<Rightarrow> ('l, 'n) addr \<Rightarrow> ('l, 'n) heap \<Rightarrow> ('l, 'n) heap res" where
  "list_push l node h =
     bindE (list_search l node h) (\<lambda>found.
     kassert (\<not> found) (list_insert_after (Head l) node h))"

definition list_pushback :: "'l \<Rightarrow> ('l, 'n) addr \<Rightarrow> ('l, 'n) heap \<Rightarrow> ('l, 'n) heap res" where
  "list_pushback l node h =
     bindE (list_search l node h) (\<lambda>found.
     kassert (\<not> found) (list_insert_before (Tail l) node h))"

definition list_pop :: "'l \<Rightarrow> ('l, 'n) heap \<Rightarrow> (('l, 'n) addr \<times> ('l, 'n) heap) res" where
  "list_pop l h =
     kassert (\<not> list_empty l h) (
     bindE (deref (node_next (h (Head l)))) (\<lambda>node.
     bindE (list_remove node h) (\<lambda>h'. Inr (node, h'))))"

text \<open>
  \<^verbatim>\<open>list_popback\<close> removes the last node but falls off its end: there is no \<^verbatim>\<open>return\<close>
  statement, so the value the callers read is undefined in C. The model returns the heap and, as
  its value, whatever \<open>ret\<close> the compiled function leaves behind given the node it worked on
  (gcc leaves the node in the result register, \<open>ret node = node\<close>).
\<close>

definition list_popback ::
  "(('l, 'n) addr \<Rightarrow> 'v) \<Rightarrow> 'l \<Rightarrow> ('l, 'n) heap \<Rightarrow> ('v \<times> ('l, 'n) heap) res" where
  "list_popback ret l h =
     kassert (\<not> list_empty l h) (
     bindE (deref (node_prev (h (Tail l)))) (\<lambda>node.
     bindE (list_remove node h) (\<lambda>h'. Inr (ret node, h'))))"

text \<open>
  \<^verbatim>\<open>element_node_key\<close> reads the integer that lies at a fixed distance from the node; the model
  takes it as a function of the element. At the head or tail of a list there is no element.
\<close>

definition element_node_key :: "('n \<Rightarrow> int) \<Rightarrow> ('l, 'n) addr \<Rightarrow> int res" where
  "element_node_key key a = (case a of Node n \<Rightarrow> Inr (key n) | _ \<Rightarrow> Inl OutOfBounds)"

partial_function (option) anchor_loop ::
  "('l, 'n) heap \<Rightarrow> 'l \<Rightarrow> ('n \<Rightarrow> int) \<Rightarrow> int \<Rightarrow> ('l, 'n) addr option
     \<Rightarrow> ('l, 'n) addr res option" where
  "anchor_loop h l key k ptr =
     (if ptr = Some (Tail l) then Some (Inr (Tail l))
      else (case ptr of
              None \<Rightarrow> Some (Inl NullDeref)
            | Some a \<Rightarrow> (case element_node_key key a of
                Inl e \<Rightarrow> Some (Inl e)
              | Inr cmp \<Rightarrow> (if cmp > k then Some (Inr a)
                            else anchor_loop h l key k (node_next (h a))))))"

declare anchor_loop.simps [code]

definition list_insert_sort ::
  "'l \<Rightarrow> ('l, 'n) addr \<Rightarrow> ('n \<Rightarrow> int) \<Rightarrow> ('l, 'n) heap \<Rightarrow> ('l, 'n) heap res" where
  "list_insert_sort l node key h =
     bindE (element_node_key key node) (\<lambda>k.
     bindE (returns (anchor_loop h l key k (node_next (h (Head l))))) (\<lambda>anchor.
     kassert (node_next (h node) = None) (
     kassert (node_prev (h node) = None) (
     list_insert_before anchor node h))))"

section \<open>Well-formed lists\<close>

fun linked :: "('l, 'n) heap \<Rightarrow> ('l, 'n) addr list \<Rightarrow> bool" where
  "linked h (a # b # as) \<longleftrightarrow>
     node_next (h a) = Some b \<and> node_prev (h b) = Some a \<and> linked h (b # as)"
| "linked h as \<longleftrightarrow> True"

definition cells :: "'l \<Rightarrow> 'n list \<Rightarrow> ('l, 'n) addr list" where
  "cells l xs = Head l # map Node xs @ [Tail l]"

definition is_list :: "('l, 'n) heap \<Rightarrow> 'l \<Rightarrow> 'n list \<Rightarrow> bool" where
  "is_list h l xs \<longleftrightarrow> distinct xs \<and> linked h (cells l xs)
     \<and> node_prev (h (Head l)) = None \<and> node_next (h (Tail l)) = None"

definition detached :: "('l, 'n) heap \<Rightarrow> 'n \<Rightarrow> bool" where
  "detached h n \<longleftrightarrow> node_prev (h (Node n)) = None \<and> node_next (h (Node n)) = None"

definition disjoint_lists :: "('l \<Rightarrow> 'n list option) \<Rightarrow> bool" where
  "disjoint_lists c \<longleftrightarrow>
     (\<forall>l l' xs ys. c l = Some xs \<longrightarrow> c l' = Some ys \<longrightarrow> l \<noteq> l' \<longrightarrow> set xs \<inter> set ys = {})"

text \<open>A node that lies in no list of \<open>c\<close>.\<close>

definition unlinked :: "('l \<Rightarrow> 'n list option) \<Rightarrow> 'n \<Rightarrow> bool" where
  "unlinked c n \<longleftrightarrow> (\<forall>l xs. c l = Some xs \<longrightarrow> n \<notin> set xs)"

definition store_rel :: "('l, 'n) heap \<Rightarrow> ('l \<Rightarrow> 'n list option) \<Rightarrow> bool" where
  "store_rel h c \<longleftrightarrow> disjoint_lists c \<and> (\<forall>l xs. c l = Some xs \<longrightarrow> is_list h l xs)
     \<and> (\<forall>n. unlinked c n \<longrightarrow> detached h n)"

text \<open>Where an element with key \<open>key n\<close> goes: behind every element whose key is not larger.\<close>

definition insert_key :: "('n \<Rightarrow> int) \<Rightarrow> 'n \<Rightarrow> 'n list \<Rightarrow> 'n list" where
  "insert_key key n xs =
     takeWhile (\<lambda>m. key m \<le> key n) xs @ n # dropWhile (\<lambda>m. key m \<le> key n) xs"

subsection \<open>Pointers after an assignment\<close>

lemma node_prev_set_prev [simp]:
  "node_prev (set_prev a p h b) = (if b = a then p else node_prev (h b))"
  by (simp add: set_prev_def)

lemma node_next_set_prev [simp]: "node_next (set_prev a p h b) = node_next (h b)"
  by (simp add: set_prev_def)

lemma node_prev_set_next [simp]: "node_prev (set_next a p h b) = node_prev (h b)"
  by (simp add: set_next_def)

lemma node_next_set_next [simp]:
  "node_next (set_next a p h b) = (if b = a then p else node_next (h b))"
  by (simp add: set_next_def)

lemma set_prev_other: "b \<noteq> a \<Longrightarrow> set_prev a p h b = h b"
  by (simp add: set_prev_def)

lemma set_next_other: "b \<noteq> a \<Longrightarrow> set_next a p h b = h b"
  by (simp add: set_next_def)

lemma deref_Some [simp]: "deref (Some a) = Inr a"
  by (simp add: deref_def)

lemma deref_None [simp]: "deref None = Inl NullDeref"
  by (simp add: deref_def)

lemma deref_eq_Inr [res_simps]: "deref p = Inr a \<longleftrightarrow> p = Some a"
  by (cases p) auto

subsection \<open>Chains of cells\<close>

lemma linked_append:
  "linked h (xs @ y # ys) \<longleftrightarrow> linked h (xs @ [y]) \<and> linked h (y # ys)"
proof (induction xs)
  case Nil
  then show ?case by simp
next
  case (Cons x xs)
  then show ?case by (cases xs) auto
qed

lemma linked_cong:
  assumes "\<forall>a \<in> set as. h' a = h a"
  shows "linked h' as = linked h as"
  using assms by (induction h as rule: linked.induct) auto

lemma linked_set_prev [simp]:
  "a \<notin> set xs \<Longrightarrow> linked (set_prev a p h) (b # xs) = linked h (b # xs)"
  by (induction xs arbitrary: b) auto

lemma linked_set_next [simp]:
  "a \<notin> set xs \<Longrightarrow> linked (set_next a p h) (xs @ [b]) = linked h (xs @ [b])"
proof (induction xs)
  case Nil
  then show ?case by simp
next
  case (Cons x xs)
  then show ?case by (cases xs) auto
qed

lemma linked_set_next' [simp]:
  "a \<notin> set (b # xs) \<Longrightarrow> linked (set_next a p h) (b # xs) = linked h (b # xs)"
  by (rule linked_cong) (auto simp: set_next_def)

lemma linked_set_prev' [simp]:
  "a \<notin> set (xs @ [b]) \<Longrightarrow> linked (set_prev a p h) (xs @ [b]) = linked h (xs @ [b])"
  by (rule linked_cong) (auto simp: set_prev_def)

lemma linked_split: "linked h (us @ a # b # vs) \<longleftrightarrow>
    linked h (us @ [a]) \<and> node_next (h a) = Some b \<and> node_prev (h b) = Some a \<and> linked h (b # vs)"
  by (subst linked_append) simp

lemma set_cells: "set (cells l xs) = {Head l, Tail l} \<union> Node ` set xs"
  by (auto simp: cells_def)

lemma distinct_cells: "distinct (cells l xs) = distinct xs"
  by (auto simp: cells_def distinct_map inj_on_def)

subsection \<open>One node in, one node out\<close>

text \<open>Between two neighbours, inserting before the right one is inserting after the left one.\<close>

lemma insert_before_linked:
  assumes "linked h (us @ a # b # vs)" and "distinct (us @ a # b # vs)"
    and "n \<notin> set (us @ a # b # vs)"
  shows "\<exists>h'. list_insert_before b n h = Inr h' \<and> linked h' (us @ a # n # b # vs)
      \<and> node_prev (h' (hd (us @ [a]))) = node_prev (h (hd (us @ [a])))
      \<and> node_next (h' (last (b # vs))) = node_next (h (last (b # vs)))
      \<and> (\<forall>x. x \<notin> {a, b, n} \<longrightarrow> h' x = h x)"
proof -
  have prev: "node_prev (h b) = Some a" and l1: "linked h (us @ [a])" and l2: "linked h (b # vs)"
    using assms(1) by (auto simp: linked_split)
  define h1 where "h1 = set_next n (Some b) (set_prev n (node_prev (h b)) h)"
  define h' where "h' = set_prev b (Some n) (set_next a (Some n) h1)"
  have "list_insert_before b n h = Inr h'"
    using assms(3) prev by (auto simp: list_insert_before_def h'_def h1_def Let_def)
  moreover have "linked h' (us @ a # n # b # vs)"
    using assms(2,3) prev l1 l2
    by (auto simp: linked_split [of _ _ a n] h'_def h1_def)
  moreover have "node_prev (h' (hd (us @ [a]))) = node_prev (h (hd (us @ [a])))"
    using assms(2,3) by (cases us) (auto simp: h'_def h1_def)
  moreover have "node_next (h' (last (b # vs))) = node_next (h (last (b # vs)))"
  proof -
    have "last (b # vs) \<in> set (b # vs)" by (rule last_in_set) simp
    then have "last (b # vs) \<noteq> a" "last (b # vs) \<noteq> n" using assms(2,3) by auto
    then show ?thesis by (auto simp: h'_def h1_def)
  qed
  moreover have "\<forall>x. x \<notin> {a, b, n} \<longrightarrow> h' x = h x"
    by (auto simp: h'_def h1_def set_prev_def set_next_def)
  ultimately show ?thesis by blast
qed

lemma insert_after_linked:
  assumes "linked h (us @ a # b # vs)" and "distinct (us @ a # b # vs)"
    and "n \<notin> set (us @ a # b # vs)"
  shows "\<exists>h'. list_insert_after a n h = Inr h' \<and> linked h' (us @ a # n # b # vs)
      \<and> node_prev (h' (hd (us @ [a]))) = node_prev (h (hd (us @ [a])))
      \<and> node_next (h' (last (b # vs))) = node_next (h (last (b # vs)))
      \<and> (\<forall>x. x \<notin> {a, b, n} \<longrightarrow> h' x = h x)"
proof -
  have nxt: "node_next (h a) = Some b" and l1: "linked h (us @ [a])" and l2: "linked h (b # vs)"
    using assms(1) by (auto simp: linked_split)
  define h1 where "h1 = set_next n (node_next (h a)) (set_prev n (Some a) h)"
  define h' where "h' = set_next a (Some n) (set_prev b (Some n) h1)"
  have "list_insert_after a n h = Inr h'"
    using assms(3) nxt by (auto simp: list_insert_after_def h'_def h1_def Let_def)
  moreover have "linked h' (us @ a # n # b # vs)"
    using assms(2,3) nxt l1 l2
    by (auto simp: linked_split [of _ _ a n] h'_def h1_def)
  moreover have "node_prev (h' (hd (us @ [a]))) = node_prev (h (hd (us @ [a])))"
    using assms(2,3) by (cases us) (auto simp: h'_def h1_def)
  moreover have "node_next (h' (last (b # vs))) = node_next (h (last (b # vs)))"
  proof -
    have "last (b # vs) \<in> set (b # vs)" by (rule last_in_set) simp
    then have "last (b # vs) \<noteq> a" "last (b # vs) \<noteq> n" using assms(2,3) by auto
    then show ?thesis by (auto simp: h'_def h1_def)
  qed
  moreover have "\<forall>x. x \<notin> {a, b, n} \<longrightarrow> h' x = h x"
    by (auto simp: h'_def h1_def set_prev_def set_next_def)
  ultimately show ?thesis by blast
qed

lemma remove_linked:
  assumes "linked h (us @ a # n # b # vs)" and "distinct (us @ a # n # b # vs)"
  shows "\<exists>h'. list_remove n h = Inr h' \<and> linked h' (us @ a # b # vs)
      \<and> node_prev (h' (hd (us @ [a]))) = node_prev (h (hd (us @ [a])))
      \<and> node_next (h' (last (b # vs))) = node_next (h (last (b # vs)))
      \<and> node_prev (h' n) = None \<and> node_next (h' n) = None
      \<and> (\<forall>x. x \<notin> {a, b, n} \<longrightarrow> h' x = h x)"
proof -
  have ptrs: "node_prev (h n) = Some a" "node_next (h n) = Some b"
    and l1: "linked h (us @ [a])" and l2: "linked h (b # vs)"
    using assms(1) by (auto simp: linked_split [of _ _ a n])
  define h1 where "h1 = set_prev b (Some a) (set_next a (Some b) h)"
  define h' where "h' = set_prev n None (set_next n None h1)"
  have "list_remove n h = Inr h'"
    using assms(2) ptrs by (auto simp: list_remove_def h'_def h1_def Let_def)
  moreover have "linked h' (us @ a # b # vs)"
    using assms(2) ptrs l1 l2
    by (auto simp: linked_split [of _ _ a b] h'_def h1_def)
  moreover have "node_prev (h' (hd (us @ [a]))) = node_prev (h (hd (us @ [a])))"
    using assms(2) by (cases us) (auto simp: h'_def h1_def)
  moreover have "node_next (h' (last (b # vs))) = node_next (h (last (b # vs)))"
  proof -
    have "last (b # vs) \<in> set (b # vs)" by (rule last_in_set) simp
    then have "last (b # vs) \<noteq> a" "last (b # vs) \<noteq> n" using assms(2) by auto
    then show ?thesis by (auto simp: h'_def h1_def)
  qed
  moreover have "node_prev (h' n) = None" "node_next (h' n) = None"
    by (simp_all add: h'_def)
  moreover have "\<forall>x. x \<notin> {a, b, n} \<longrightarrow> h' x = h x"
    by (auto simp: h'_def h1_def set_prev_def set_next_def)
  ultimately show ?thesis by blast
qed

subsection \<open>The walks over a well-formed list\<close>

lemma search_loop_linked:
  "linked h (a # map Node xs @ [Tail l]) \<Longrightarrow>
   search_loop h l (Node n) (node_next (h a)) = Some (Inr (n \<in> set xs))"
proof (induction xs arbitrary: a)
  case Nil
  then show ?case by (simp add: search_loop.simps)
next
  case (Cons x xs)
  then show ?case by (subst search_loop.simps) auto
qed

lemma list_search_is_list:
  "is_list h l xs \<Longrightarrow> list_search l (Node n) h = Inr (n \<in> set xs)"
  by (simp add: list_search_def is_list_def cells_def search_loop_linked [of h "Head l" xs l])

lemma size_loop_linked:
  "linked h (a # map Node xs @ [Tail l]) \<Longrightarrow>
   size_loop h l (node_next (h a)) sz = Some (Inr (sz + of_nat (length xs)))"
proof (induction xs arbitrary: a sz)
  case Nil
  then show ?case by (simp add: size_loop.simps)
next
  case (Cons x xs)
  then show ?case by (subst size_loop.simps) (auto simp: algebra_simps)
qed

lemma list_size_is_list: "is_list h l xs \<Longrightarrow> list_size l h = Inr (of_nat (length xs))"
  by (simp add: list_size_def is_list_def cells_def size_loop_linked [of h "Head l" xs l])

lemma list_empty_is_list: "is_list h l xs \<Longrightarrow> list_empty l h \<longleftrightarrow> xs = []"
  by (cases xs) (auto simp: list_empty_def is_list_def cells_def)

text \<open>The anchor is the first cell behind the elements whose keys are not larger.\<close>

lemma anchor_loop_linked:
  "linked h (a # map Node xs @ [Tail l]) \<Longrightarrow>
   anchor_loop h l key k (node_next (h a)) =
     Some (Inr (hd (map Node (dropWhile (\<lambda>m. key m \<le> k) xs) @ [Tail l])))"
proof (induction xs arbitrary: a)
  case Nil
  then show ?case by (simp add: anchor_loop.simps)
next
  case (Cons x xs)
  then show ?case by (subst anchor_loop.simps) (auto simp: element_node_key_def)
qed

subsection \<open>The operations on one list\<close>

text \<open>What an operation may touch: the cells of its list, before and after.\<close>

definition only_changed :: "('l, 'n) addr set \<Rightarrow> ('l, 'n) heap \<Rightarrow> ('l, 'n) heap \<Rightarrow> bool" where
  "only_changed A h h' \<longleftrightarrow> (\<forall>x. x \<notin> A \<longrightarrow> h' x = h x)"

text \<open>Every gap of a list is a pair of neighbouring cells.\<close>

lemma cells_gap:
  "\<exists>us vs. cells l (xs @ ys) = us @ last (Head l # map Node xs) # hd (map Node ys @ [Tail l]) # vs
     \<and> us @ [last (Head l # map Node xs)] = Head l # map Node xs
     \<and> hd (map Node ys @ [Tail l]) # vs = map Node ys @ [Tail l]"
proof -
  obtain us a where a: "Head l # map Node xs = us @ [a]"
    by (metis list.distinct(1) rev_exhaust)
  obtain b vs where b: "map Node ys @ [Tail l] = b # vs"
    by (metis append_is_Nil_conv list.distinct(1) neq_Nil_conv)
  have last: "last (Head l # map Node xs) = a" by (simp only: a last_snoc)
  have hd: "hd (map Node ys @ [Tail l]) = b" by (simp only: b list.sel(1))
  have "cells l (xs @ ys) = (Head l # map Node xs) @ (map Node ys @ [Tail l])"
    by (simp add: cells_def)
  then show ?thesis using a b last hd by auto
qed

lemma hd_last_ends:
  assumes "us @ [a] = Head l # map Node xs" and "b # vs = map Node ys @ [Tail l]"
  shows "hd (us @ [a]) = Head l" and "last (b # vs) = Tail l"
  by (simp_all only: assms list.sel(1) last_snoc)

lemma insert_before_is_list:
  assumes "is_list h l (xs @ ys)" and "n \<notin> set (xs @ ys)"
  shows "\<exists>h'. list_insert_before (hd (map Node ys @ [Tail l])) (Node n) h = Inr h'
      \<and> is_list h' l (xs @ n # ys) \<and> only_changed (set (cells l (xs @ n # ys))) h h'"
proof -
  obtain us a b vs where g: "cells l (xs @ ys) = us @ a # b # vs"
      "us @ [a] = Head l # map Node xs" "b # vs = map Node ys @ [Tail l]"
      "b = hd (map Node ys @ [Tail l])"
    using cells_gap [of l xs ys] by auto
  have new: "cells l (xs @ n # ys) = us @ a # Node n # b # vs"
    using g(2,3) by (simp add: cells_def)
  have "linked h (us @ a # b # vs)" "distinct (us @ a # b # vs)" "Node n \<notin> set (us @ a # b # vs)"
    using assms by (auto simp flip: g(1) simp: is_list_def distinct_cells set_cells)
  from insert_before_linked [OF this] obtain h' where h':
      "list_insert_before b (Node n) h = Inr h'" "linked h' (us @ a # Node n # b # vs)"
      "node_prev (h' (Head l)) = node_prev (h (Head l))"
      "node_next (h' (Tail l)) = node_next (h (Tail l))"
      "\<forall>x. x \<notin> {a, b, Node n} \<longrightarrow> h' x = h x"
    unfolding hd_last_ends [OF g(2,3)] by blast
  have "is_list h' l (xs @ n # ys)"
    using assms h' by (auto simp: is_list_def new)
  moreover have "only_changed (set (cells l (xs @ n # ys))) h h'"
    using h'(5) by (auto simp: only_changed_def new)
  ultimately show ?thesis using h'(1) g(4) by auto
qed

lemma insert_after_head_is_list:
  assumes "is_list h l xs" and "n \<notin> set xs"
  shows "\<exists>h'. list_insert_after (Head l) (Node n) h = Inr h'
      \<and> is_list h' l (n # xs) \<and> only_changed (set (cells l (n # xs))) h h'"
proof -
  obtain b vs where g: "b # vs = map Node xs @ [Tail l]"
    by (metis append_is_Nil_conv list.distinct(1) neq_Nil_conv)
  have old: "cells l xs = [] @ Head l # b # vs" and new: "cells l (n # xs) = [] @ Head l # Node n # b # vs"
    using g by (simp_all add: cells_def)
  have "linked h ([] @ Head l # b # vs)" "distinct ([] @ Head l # b # vs)"
      "Node n \<notin> set ([] @ Head l # b # vs)"
    using assms by (auto simp only: is_list_def distinct_cells set_cells simp flip: old)
  moreover have lst: "last (b # vs) = Tail l" by (simp only: g last_snoc)
  ultimately obtain h' where h':
      "list_insert_after (Head l) (Node n) h = Inr h'" "linked h' ([] @ Head l # Node n # b # vs)"
      "node_prev (h' (Head l)) = node_prev (h (Head l))"
      "node_next (h' (Tail l)) = node_next (h (Tail l))"
      "\<forall>x. x \<notin> {Head l, b, Node n} \<longrightarrow> h' x = h x"
    using insert_after_linked [of h "[]" "Head l" b vs "Node n"] by (auto simp only: append_Nil lst list.sel)
  have "is_list h' l (n # xs)" using assms h' by (simp add: is_list_def new)
  moreover have "only_changed (set (cells l (n # xs))) h h'"
    using h'(5) by (auto simp: only_changed_def new)
  ultimately show ?thesis using h'(1) by blast
qed

lemma remove_is_list:
  assumes "is_list h l (xs @ n # ys)"
  shows "\<exists>h'. list_remove (Node n) h = Inr h' \<and> is_list h' l (xs @ ys) \<and> detached h' n
      \<and> only_changed (set (cells l (xs @ n # ys))) h h'"
proof -
  obtain us a b vs where g: "cells l (xs @ ys) = us @ a # b # vs"
      "us @ [a] = Head l # map Node xs" "b # vs = map Node ys @ [Tail l]"
    using cells_gap [of l xs ys] by auto
  have new: "cells l (xs @ n # ys) = us @ a # Node n # b # vs"
    using g(2,3) by (simp add: cells_def)
  have "linked h (us @ a # Node n # b # vs)" "distinct (us @ a # Node n # b # vs)"
    using assms by (auto simp flip: new simp: is_list_def distinct_cells)
  from remove_linked [OF this] obtain h' where h':
      "list_remove (Node n) h = Inr h'" "linked h' (us @ a # b # vs)"
      "node_prev (h' (Head l)) = node_prev (h (Head l))"
      "node_next (h' (Tail l)) = node_next (h (Tail l))"
      "node_prev (h' (Node n)) = None" "node_next (h' (Node n)) = None"
      "\<forall>x. x \<notin> {a, b, Node n} \<longrightarrow> h' x = h x"
    unfolding hd_last_ends [OF g(2,3)] by blast
  have "is_list h' l (xs @ ys)" using assms h' by (auto simp: is_list_def g(1))
  moreover have "only_changed (set (cells l (xs @ n # ys))) h h'"
    using h'(7) by (auto simp: only_changed_def new)
  ultimately show ?thesis using h' by (auto simp: detached_def)
qed

section \<open>The heap as a store of lists\<close>

lemma is_list_frame:
  assumes "only_changed A h h'" and "A \<inter> set (cells l xs) = {}"
  shows "is_list h' l xs = is_list h l xs"
proof -
  have same: "\<forall>a \<in> set (cells l xs). h' a = h a"
    using assms by (auto simp: only_changed_def)
  then have "linked h' (cells l xs) = linked h (cells l xs)" by (rule linked_cong)
  with same show ?thesis by (simp add: is_list_def set_cells)
qed

lemma unlinked_upd: "unlinked (c(l \<mapsto> ys)) n \<longleftrightarrow>
    n \<notin> set ys \<and> (\<forall>l' zs. l' \<noteq> l \<longrightarrow> c l' = Some zs \<longrightarrow> n \<notin> set zs)"
  by (auto simp: unlinked_def)

lemma unlinked_at: "unlinked c n \<longleftrightarrow>
    (\<forall>xs. c l = Some xs \<longrightarrow> n \<notin> set xs) \<and> (\<forall>l' zs. l' \<noteq> l \<longrightarrow> c l' = Some zs \<longrightarrow> n \<notin> set zs)"
  unfolding unlinked_def by (cases "\<exists>xs. c l = Some xs") (metis, metis)

lemma store_rel_is_list: "store_rel h c \<Longrightarrow> c l = Some xs \<Longrightarrow> is_list h l xs"
  by (simp add: store_rel_def)

lemma store_rel_detached: "store_rel h c \<Longrightarrow> unlinked c n \<Longrightarrow> detached h n"
  by (simp add: store_rel_def)

lemma store_rel_distinct: "store_rel h c \<Longrightarrow> c l = Some xs \<Longrightarrow> distinct xs"
  by (auto dest: store_rel_is_list simp: is_list_def)

text \<open>
  The one frame lemma: an operation that turns the list at \<open>l\<close> into another, touches no cell
  outside of it, takes only nodes that lay in no list and detaches those it drops, updates the
  store at \<open>l\<close> and nowhere else.
\<close>

lemma store_rel_update:
  assumes rel: "store_rel h c" and l: "c l = Some xs"
    and new: "is_list h' l ys" and frame: "only_changed (set (cells l xs) \<union> set (cells l ys)) h h'"
    and taken: "\<And>n. n \<in> set ys \<Longrightarrow> n \<notin> set xs \<Longrightarrow> unlinked c n"
    and dropped: "\<And>n. n \<in> set xs \<Longrightarrow> n \<notin> set ys \<Longrightarrow> detached h' n"
  shows "store_rel h' (c(l \<mapsto> ys))"
proof -
  have disj: "set (cells l xs) \<inter> set (cells l' zs) = {}" "set (cells l ys) \<inter> set (cells l' zs) = {}"
    if "c l' = Some zs" and "l' \<noteq> l" for l' zs
  proof -
    have "set xs \<inter> set zs = {}" using rel l that by (auto simp: store_rel_def disjoint_lists_def)
    moreover have "set ys \<inter> set zs = {}"
      using taken that calculation by (fastforce simp: unlinked_def)
    ultimately show "set (cells l xs) \<inter> set (cells l' zs) = {}"
      "set (cells l ys) \<inter> set (cells l' zs) = {}" using that by (auto simp: set_cells)
  qed
  have "disjoint_lists (c(l \<mapsto> ys))"
    unfolding disjoint_lists_def
  proof (intro allI impI)
    fix l1 l2 as bs
    assume c: "(c(l \<mapsto> ys)) l1 = Some as" "(c(l \<mapsto> ys)) l2 = Some bs" "l1 \<noteq> l2"
    have old: "set as' \<inter> set bs' = {}" if "c l1 = Some as'" "c l2 = Some bs'" for as' bs'
      using rel that c(3) by (auto simp: store_rel_def disjoint_lists_def)
    show "set as \<inter> set bs = {}"
    proof (cases "l1 = l \<or> l2 = l")
      case True
      then show ?thesis using c disj(2) by (fastforce simp: set_cells)
    next
      case False
      then show ?thesis using c old by simp
    qed
  qed
  moreover have "is_list h' l' zs" if "(c(l \<mapsto> ys)) l' = Some zs" for l' zs
  proof (cases "l' = l")
    case True
    then show ?thesis using that new by simp
  next
    case False
    with that have "c l' = Some zs" by simp
    then show ?thesis
      using is_list_frame [OF frame, of l' zs] disj [OF _ False] store_rel_is_list [OF rel, of l' zs]
      by auto
  qed
  moreover have "detached h' n" if n: "unlinked (c(l \<mapsto> ys)) n" for n
  proof (cases "n \<in> set xs")
    case True
    then show ?thesis using dropped n by (simp add: unlinked_upd)
  next
    case False
    have "n \<notin> set ys" using n by (simp add: unlinked_upd)
    moreover have "unlinked c n"
      using n False l by (simp add: unlinked_upd unlinked_at [of c n l])
    ultimately have "detached h n" and "h' (Node n) = h (Node n)"
      using store_rel_detached [OF rel] frame False by (auto simp: only_changed_def set_cells)
    then show ?thesis by (simp add: detached_def)
  qed
  ultimately show ?thesis by (auto simp: store_rel_def)
qed

lemma only_changed_mono: "only_changed A h h' \<Longrightarrow> A \<subseteq> B \<Longrightarrow> only_changed B h h'"
  by (auto simp: only_changed_def)

lemma unlinked_notin: "unlinked c n \<Longrightarrow> c l = Some xs \<Longrightarrow> n \<notin> set xs"
  by (simp add: unlinked_def)

lemma store_rel_init:
  assumes "store_rel h c" and "c l = None \<or> c l = Some []"
  shows "store_rel (list_init l h) (c(l \<mapsto> []))"
proof -
  have h': "node_next (list_init l h (Head l)) = Some (Tail l)" "node_prev (list_init l h (Tail l)) = Some (Head l)"
    "node_prev (list_init l h (Head l)) = None" "node_next (list_init l h (Tail l)) = None"
    by (simp_all add: list_init_def Let_def)
  have frame: "only_changed {Head l, Tail l} h (list_init l h)"
    by (auto simp: only_changed_def list_init_def Let_def set_prev_def set_next_def)
  have un: "unlinked (c(l \<mapsto> [])) n = unlinked c n" for n
    using assms(2) by (auto simp: unlinked_upd unlinked_at [of c n l])
  have "is_list (list_init l h) l' zs" if "(c(l \<mapsto> [])) l' = Some zs" for l' zs
  proof (cases "l' = l")
    case True
    then show ?thesis using that h' by (auto simp: is_list_def cells_def)
  next
    case False
    then show ?thesis
      using that is_list_frame [OF frame, of l' zs] store_rel_is_list [OF assms(1), of l' zs]
      by (auto simp: set_cells)
  qed
  moreover have "disjoint_lists (c(l \<mapsto> []))"
    using assms(1) by (auto simp: store_rel_def disjoint_lists_def split: if_splits)
  moreover have "detached (list_init l h) n" if "unlinked c n" for n
    using store_rel_detached [OF assms(1) that] frame by (auto simp: detached_def only_changed_def)
  ultimately show ?thesis by (auto simp: store_rel_def un)
qed

lemma store_rel_push:
  assumes "store_rel h c" and "c l = Some xs" and "unlinked c n"
  shows "\<exists>h'. list_push l (Node n) h = Inr h' \<and> store_rel h' (c(l \<mapsto> n # xs))"
proof -
  have n: "n \<notin> set xs" using assms by (auto dest: unlinked_notin)
  have il: "is_list h l xs" using assms by (auto dest: store_rel_is_list)
  from insert_after_head_is_list [OF il n] obtain h' where h':
      "list_insert_after (Head l) (Node n) h = Inr h'" "is_list h' l (n # xs)"
      "only_changed (set (cells l (n # xs))) h h'" by blast
  have "store_rel h' (c(l \<mapsto> n # xs))"
    by (rule store_rel_update [OF assms(1,2) h'(2)])
       (use assms(3) in \<open>auto intro: only_changed_mono [OF h'(3)]\<close>)
  then show ?thesis using h'(1) n list_search_is_list [OF il, of n] by (simp add: list_push_def)
qed

lemma store_rel_insert_before:
  assumes "store_rel h c" and "c l = Some (xs @ ys)" and "unlinked c n"
  shows "\<exists>h'. list_insert_before (hd (map Node ys @ [Tail l])) (Node n) h = Inr h'
     \<and> store_rel h' (c(l \<mapsto> xs @ n # ys))"
proof -
  have n: "n \<notin> set (xs @ ys)" using assms by (auto dest: unlinked_notin)
  have il: "is_list h l (xs @ ys)" using assms by (auto dest: store_rel_is_list)
  from insert_before_is_list [OF il n] obtain h' where h':
      "list_insert_before (hd (map Node ys @ [Tail l])) (Node n) h = Inr h'"
      "is_list h' l (xs @ n # ys)" "only_changed (set (cells l (xs @ n # ys))) h h'" by blast
  have "store_rel h' (c(l \<mapsto> xs @ n # ys))"
    by (rule store_rel_update [OF assms(1,2) h'(2)])
       (use assms(3) in \<open>auto intro: only_changed_mono [OF h'(3)]\<close>)
  then show ?thesis using h'(1) by blast
qed

lemma store_rel_remove:
  assumes "store_rel h c" and "c l = Some (xs @ n # ys)"
  shows "\<exists>h'. list_remove (Node n) h = Inr h' \<and> store_rel h' (c(l \<mapsto> xs @ ys))"
proof -
  have il: "is_list h l (xs @ n # ys)" using assms by (auto dest: store_rel_is_list)
  from remove_is_list [OF il] obtain h' where h':
      "list_remove (Node n) h = Inr h'" "is_list h' l (xs @ ys)" "detached h' n"
      "only_changed (set (cells l (xs @ n # ys))) h h'" by blast
  have "store_rel h' (c(l \<mapsto> xs @ ys))"
    by (rule store_rel_update [OF assms h'(2)])
       (use h'(3) in \<open>auto intro: only_changed_mono [OF h'(4)]\<close>)
  then show ?thesis using h'(1) by blast
qed

lemma store_rel_pushback:
  assumes "store_rel h c" and "c l = Some xs" and "unlinked c n"
  shows "\<exists>h'. list_pushback l (Node n) h = Inr h' \<and> store_rel h' (c(l \<mapsto> xs @ [n]))"
  using store_rel_insert_before [of h c l xs "[]" n] assms
    list_search_is_list [OF store_rel_is_list [OF assms(1,2)], of n]
  by (auto simp: list_pushback_def dest: unlinked_notin)

lemma store_rel_empty: "store_rel h c \<Longrightarrow> c l = Some xs \<Longrightarrow> list_empty l h \<longleftrightarrow> xs = []"
  by (auto dest: store_rel_is_list simp: list_empty_is_list)

lemma store_rel_search:
  "store_rel h c \<Longrightarrow> c l = Some xs \<Longrightarrow> list_search l (Node n) h = Inr (n \<in> set xs)"
  by (auto dest: store_rel_is_list simp: list_search_is_list)

lemma store_rel_size:
  "store_rel h c \<Longrightarrow> c l = Some xs \<Longrightarrow> list_size l h = Inr (of_nat (length xs))"
  by (auto dest: store_rel_is_list simp: list_size_is_list)

lemma store_rel_pop:
  assumes "store_rel h c" and "c l = Some (n # xs)"
  shows "\<exists>h'. list_pop l h = Inr (Node n, h') \<and> store_rel h' (c(l \<mapsto> xs))"
proof -
  have "node_next (h (Head l)) = Some (Node n)"
    using store_rel_is_list [OF assms] by (simp add: is_list_def cells_def)
  moreover have "\<not> list_empty l h" using store_rel_empty [OF assms] by simp
  moreover from store_rel_remove [of h c l "[]" n xs] assms
  obtain h' where "list_remove (Node n) h = Inr h'" "store_rel h' (c(l \<mapsto> xs))" by auto
  ultimately show ?thesis by (simp add: list_pop_def)
qed

lemma store_rel_popback:
  assumes "store_rel h c" and "c l = Some (xs @ [n])"
  shows "\<exists>h'. list_popback ret l h = Inr (ret (Node n), h') \<and> store_rel h' (c(l \<mapsto> xs))"
proof -
  have "linked h ((Head l # map Node xs) @ Node n # Tail l # [])"
    using store_rel_is_list [OF assms] by (simp add: is_list_def cells_def)
  then have "node_prev (h (Tail l)) = Some (Node n)" by (simp only: linked_split)
  moreover have "\<not> list_empty l h" using store_rel_empty [OF assms] by simp
  moreover from store_rel_remove [of h c l xs n "[]"] assms
  obtain h' where "list_remove (Node n) h = Inr h'" "store_rel h' (c(l \<mapsto> xs))" by auto
  ultimately show ?thesis by (simp add: list_popback_def)
qed

lemma store_rel_remove_unlinked:
  assumes "store_rel h c" and "unlinked c n"
  shows "list_remove (Node n) h = Inl Assertion"
  using store_rel_detached [OF assms] by (simp add: list_remove_def detached_def)

lemma store_rel_insert_sort:
  assumes "store_rel h c" and "c l = Some xs" and "unlinked c n"
  shows "\<exists>h'. list_insert_sort l (Node n) key h = Inr h' \<and> store_rel h' (c(l \<mapsto> insert_key key n xs))"
proof -
  define as bs where ab: "as = takeWhile (\<lambda>m. key m \<le> key n) xs"
    "bs = dropWhile (\<lambda>m. key m \<le> key n) xs"
  have xs: "xs = as @ bs" by (simp add: ab)
  have "linked h (Head l # map Node xs @ [Tail l])"
    using store_rel_is_list [OF assms(1,2)] by (simp add: is_list_def cells_def)
  from anchor_loop_linked [OF this, of key "key n"]
  have "anchor_loop h l key (key n) (node_next (h (Head l))) = Some (Inr (hd (map Node bs @ [Tail l])))"
    by (simp only: ab)
  moreover have "detached h n" using assms by (auto dest: store_rel_detached)
  moreover obtain h' where "list_insert_before (hd (map Node bs @ [Tail l])) (Node n) h = Inr h'"
      "store_rel h' (c(l \<mapsto> as @ n # bs))"
    using store_rel_insert_before [of h c l as bs n] assms xs by auto
  moreover have "as @ n # bs = insert_key key n xs" by (simp add: insert_key_def ab)
  ultimately show ?thesis
    by (simp add: list_insert_sort_def element_node_key_def detached_def)
qed

lemma set_insert_key [simp]: "set (insert_key key n xs) = insert n (set xs)"
proof -
  have "set xs = set (takeWhile (\<lambda>m. key m \<le> key n) xs) \<union> set (dropWhile (\<lambda>m. key m \<le> key n) xs)"
    by (metis set_append takeWhile_dropWhile_id)
  then show ?thesis by (auto simp: insert_key_def)
qed

lemma distinct_insert_key: "distinct (insert_key key n xs) \<longleftrightarrow> n \<notin> set xs \<and> distinct xs"
proof -
  define as bs where ab: "as = takeWhile (\<lambda>m. key m \<le> key n) xs"
    "bs = dropWhile (\<lambda>m. key m \<le> key n) xs"
  have "xs = as @ bs" and "insert_key key n xs = as @ n # bs"
    by (simp_all add: ab insert_key_def)
  then show ?thesis by auto
qed

lemma sorted_insert_key:
  assumes "sorted (map key xs)"
  shows "sorted (map key (insert_key key n xs))"
proof -
  define as bs where ab: "as = takeWhile (\<lambda>m. key m \<le> key n) xs"
    "bs = dropWhile (\<lambda>m. key m \<le> key n) xs"
  have s: "sorted (map key (as @ bs))" using assms by (simp add: ab)
  have "\<forall>m \<in> set as. key m \<le> key n" by (auto simp: ab dest: set_takeWhileD)
  moreover have "\<forall>m \<in> set bs. key n \<le> key m"
  proof (cases bs)
    case (Cons b bs')
    then have "\<not> key b \<le> key n" unfolding ab by (metis dropWhile_eq_Cons_conv)
    then show ?thesis using s Cons by (auto simp: sorted_append)
  qed simp
  ultimately show ?thesis using s by (auto simp: insert_key_def sorted_append simp flip: ab)
qed

section \<open>The interface its users rely on\<close>

text \<open>
  \<open>rel h c\<close>: the heap \<open>h\<close> holds exactly the lists of \<open>c\<close>, pairwise disjoint, and every other
  node is detached. Each operation succeeds under the condition its caller has to meet, with the
  obvious effect on the one list it is called on, and fails its assertion when the condition is
  broken.
\<close>

locale intrusive_list =
  fixes rel :: "'h \<Rightarrow> ('l \<Rightarrow> 'n list option) \<Rightarrow> bool"
    and init :: "'l \<Rightarrow> 'h \<Rightarrow> 'h"
    and push :: "'l \<Rightarrow> 'n \<Rightarrow> 'h \<Rightarrow> 'h res"
    and pushback :: "'l \<Rightarrow> 'n \<Rightarrow> 'h \<Rightarrow> 'h res"
    and remove :: "'n \<Rightarrow> 'h \<Rightarrow> 'h res"
    and search :: "'l \<Rightarrow> 'n \<Rightarrow> 'h \<Rightarrow> bool res"
    and insert_sort :: "'l \<Rightarrow> 'n \<Rightarrow> ('n \<Rightarrow> int) \<Rightarrow> 'h \<Rightarrow> 'h res"
  assumes rel_disjoint: "rel h c \<Longrightarrow> disjoint_lists c"
    and rel_distinct: "rel h c \<Longrightarrow> c l = Some xs \<Longrightarrow> distinct xs"
    and rel_init: "rel h c \<Longrightarrow> c l = None \<or> c l = Some [] \<Longrightarrow> rel (init l h) (c(l \<mapsto> []))"
    and rel_push: "rel h c \<Longrightarrow> c l = Some xs \<Longrightarrow> unlinked c n \<Longrightarrow>
       \<exists>h'. push l n h = Inr h' \<and> rel h' (c(l \<mapsto> n # xs))"
    and rel_push_again: "rel h c \<Longrightarrow> c l = Some xs \<Longrightarrow> n \<in> set xs \<Longrightarrow> push l n h = Inl Assertion"
    and rel_pushback: "rel h c \<Longrightarrow> c l = Some xs \<Longrightarrow> unlinked c n \<Longrightarrow>
       \<exists>h'. pushback l n h = Inr h' \<and> rel h' (c(l \<mapsto> xs @ [n]))"
    and rel_remove: "rel h c \<Longrightarrow> c l = Some (xs @ n # ys) \<Longrightarrow>
       \<exists>h'. remove n h = Inr h' \<and> rel h' (c(l \<mapsto> xs @ ys))"
    and rel_remove_unlinked: "rel h c \<Longrightarrow> unlinked c n \<Longrightarrow> remove n h = Inl Assertion"
    and rel_search: "rel h c \<Longrightarrow> c l = Some xs \<Longrightarrow> search l n h = Inr (n \<in> set xs)"
    and rel_insert_sort: "rel h c \<Longrightarrow> c l = Some xs \<Longrightarrow> unlinked c n \<Longrightarrow>
       \<exists>h'. insert_sort l n key h = Inr h' \<and> rel h' (c(l \<mapsto> insert_key key n xs))"
begin

text \<open>A node taken from one list can be put on any list: the step of every queue change.\<close>

lemma remove_unlinks:
  assumes "rel h c" and "c l = Some (xs @ n # ys)"
  shows "unlinked (c(l \<mapsto> xs @ ys)) n"
proof -
  have "n \<notin> set zs" if "c l' = Some zs" "l' \<noteq> l" for l' zs
    using rel_disjoint [OF assms(1)] assms(2) that by (fastforce simp: disjoint_lists_def)
  moreover have "n \<notin> set (xs @ ys)" using rel_distinct [OF assms] by auto
  ultimately show ?thesis by (auto simp: unlinked_upd)
qed

lemma requeue:
  assumes "rel h c" and "c l = Some (xs @ n # ys)" and "(c(l \<mapsto> xs @ ys)) l' = Some zs"
  shows "\<exists>h'. bindE (remove n h) (push l' n) = Inr h'
     \<and> rel h' (c(l \<mapsto> xs @ ys, l' \<mapsto> n # zs))"
proof -
  obtain h1 where h1: "remove n h = Inr h1" "rel h1 (c(l \<mapsto> xs @ ys))"
    using rel_remove [OF assms(1,2)] by blast
  from rel_push [OF h1(2) assms(3) remove_unlinks [OF assms(1,2)]] h1(1)
  show ?thesis by auto
qed

text \<open>Pushing a batch of new nodes reverses it; removing a batch leaves the others in order.\<close>

lemma push_all:
  assumes "rel h c" and "c l = Some xs" and "\<forall>n \<in> set ns. unlinked c n" and "distinct ns"
  shows "\<exists>h'. foldE (push l) ns h = Inr h' \<and> rel h' (c(l \<mapsto> rev ns @ xs))"
  using assms
proof (induction ns arbitrary: h c xs)
  case Nil
  then show ?case by (simp add: fun_upd_idem)
next
  case (Cons n ns)
  then obtain h1 where h1: "push l n h = Inr h1" "rel h1 (c(l \<mapsto> n # xs))"
    using rel_push [of h c l xs n] by auto
  have un: "\<forall>m \<in> set ns. unlinked (c(l \<mapsto> n # xs)) m"
    using Cons.prems by (auto simp: unlinked_upd unlinked_def)
  have "\<exists>h'. foldE (push l) ns h1 = Inr h' \<and> rel h' ((c(l \<mapsto> n # xs))(l \<mapsto> rev ns @ n # xs))"
    by (rule Cons.IH [OF h1(2)]) (use un Cons.prems in \<open>auto simp: fun_upd_def\<close>)
  then show ?case using h1(1) by (simp add: fun_upd_def cong: if_cong)
qed

lemma remove_all:
  assumes "rel h c" and "c l = Some xs" and "set ns \<subseteq> set xs" and "distinct ns"
  shows "\<exists>h'. foldE remove ns h = Inr h' \<and> rel h' (c(l \<mapsto> filter (\<lambda>m. m \<notin> set ns) xs))"
  using assms
proof (induction ns arbitrary: h c xs)
  case Nil
  then show ?case by (simp add: fun_upd_idem)
next
  case (Cons n ns)
  then obtain as bs where xs: "xs = as @ n # bs" by (auto dest: split_list)
  have dist: "distinct (as @ n # bs)" using rel_distinct [OF Cons.prems(1,2)] xs by simp
  obtain h1 where h1: "remove n h = Inr h1" "rel h1 (c(l \<mapsto> as @ bs))"
    using rel_remove [of h c l as n bs] Cons.prems xs by auto
  have sub: "set ns \<subseteq> set (as @ bs)" using Cons.prems xs by auto
  have "\<exists>h2. foldE remove ns h1 = Inr h2
      \<and> rel h2 ((c(l \<mapsto> as @ bs))(l \<mapsto> filter (\<lambda>m. m \<notin> set ns) (as @ bs)))"
    by (rule Cons.IH [OF h1(2)]) (use sub Cons.prems in auto)
  moreover have "filter (\<lambda>m. m \<notin> set (n # ns)) xs = filter (\<lambda>m. m \<notin> set ns) (as @ bs)"
    using dist xs by (auto intro!: arg_cong2 [of _ _ _ _ "(@)"] filter_cong)
  ultimately show ?case using h1(1) by (simp add: fun_upd_def cong: if_cong)
qed

end

interpretation il: intrusive_list store_rel list_init "\<lambda>l n. list_push l (Node n)"
  "\<lambda>l n. list_pushback l (Node n)" "\<lambda>n. list_remove (Node n)" "\<lambda>l n. list_search l (Node n)"
  "\<lambda>l n. list_insert_sort l (Node n)"
proof unfold_locales
  fix h and c :: "'a \<Rightarrow> 'b list option" and l xs and n :: 'b
  assume "store_rel h c" and "c l = Some xs" and "n \<in> set xs"
  then show "list_push l (Node n) h = Inl Assertion"
    using store_rel_search [of h c l xs n] by (simp add: list_push_def)
qed (simp_all add: store_rel_def [THEN iffD1, THEN conjunct1] store_rel_distinct store_rel_init
      store_rel_push store_rel_pushback store_rel_remove store_rel_remove_unlinked
      store_rel_search store_rel_insert_sort)

section \<open>Properties\<close>

lemma store_rel_remove1:
  assumes "store_rel h c" and "c l = Some xs" and "n \<in> set xs"
  shows "\<exists>h'. list_remove (Node n) h = Inr h' \<and> store_rel h' (c(l \<mapsto> remove1 n xs))"
proof -
  obtain as bs where xs: "xs = as @ n # bs" and n: "n \<notin> set as"
    using split_list_first [OF assms(3)] by blast
  have "remove1 n xs = as @ bs" using xs n by (simp add: remove1_append)
  then show ?thesis using il.rel_remove [of h c l as n bs] assms xs by simp
qed

lemma store_rel_empty_store: "store_rel (\<lambda>_. \<lparr>node_prev = None, node_next = None\<rparr>) Map.empty"
  by (simp add: store_rel_def disjoint_lists_def detached_def)

text \<open>
  C1. The doubly linked list is a deque. In a heap that holds the lists \<open>c\<close>, \<^verbatim>\<open>list_push\<close> and
  \<^verbatim>\<open>list_pushback\<close> of a node that is on no list put it at the front and at the back,
  \<^verbatim>\<open>list_pop\<close> takes the front node off and returns it, \<^verbatim>\<open>list_popback\<close> takes the back node
  off, \<^verbatim>\<open>list_remove\<close> takes any node of the list out, and \<^verbatim>\<open>list_search\<close>,
  \<^verbatim>\<open>list_size\<close> and \<^verbatim>\<open>list_empty\<close> end and report membership, length and emptiness. Every
  other list is untouched, all lists stay well linked in both directions, and a node taken off is
  detached.
\<close>

theorem list_deque_refinement:
  fixes h :: "('l, 'n) heap"
  assumes "store_rel h c" and "c l = Some xs"
  shows "(unlinked c n \<longrightarrow>
           (\<exists>h'. list_push l (Node n) h = Inr h' \<and> store_rel h' (c(l \<mapsto> n # xs)))
         \<and> (\<exists>h'. list_pushback l (Node n) h = Inr h' \<and> store_rel h' (c(l \<mapsto> xs @ [n]))))
    \<and> (xs \<noteq> [] \<longrightarrow>
           (\<exists>h'. list_pop l h = Inr (Node (hd xs), h') \<and> store_rel h' (c(l \<mapsto> tl xs)))
         \<and> (\<exists>h'. list_popback ret l h = Inr (ret (Node (last xs)), h') \<and> store_rel h' (c(l \<mapsto> butlast xs))))
    \<and> (n \<in> set xs \<longrightarrow>
           (\<exists>h'. list_remove (Node n) h = Inr h' \<and> store_rel h' (c(l \<mapsto> remove1 n xs))))
    \<and> list_search l (Node n) h = Inr (n \<in> set xs)
    \<and> list_size l h = Inr (of_nat (length xs))
    \<and> list_empty l h = (xs = [])"
proof (intro conjI impI)
  assume "xs \<noteq> []"
  then have "xs = hd xs # tl xs" and "xs = butlast xs @ [last xs]" by simp_all
  then show "\<exists>h'. list_pop l h = Inr (Node (hd xs), h') \<and> store_rel h' (c(l \<mapsto> tl xs))"
    and "\<exists>h'. list_popback ret l h = Inr (ret (Node (last xs)), h') \<and> store_rel h' (c(l \<mapsto> butlast xs))"
    using store_rel_pop [OF assms(1)] store_rel_popback [OF assms(1)] assms(2) by metis+
next
  assume "n \<in> set xs"
  then show "\<exists>h'. list_remove (Node n) h = Inr h' \<and> store_rel h' (c(l \<mapsto> remove1 n xs))"
    by (rule store_rel_remove1 [OF assms])
qed (use assms in \<open>simp_all add: il.rel_push il.rel_pushback il.rel_search
      store_rel_size store_rel_empty\<close>)

text \<open>For the witnesses: a store with two lists, 0 that holds \<open>xs\<close> and 1 that is empty.\<close>

definition store2 :: "nat list \<Rightarrow> nat \<Rightarrow> nat list option" where
  "store2 xs = [1 \<mapsto> [], 0 \<mapsto> xs]"

lemma store2_at [simp]: "store2 xs 0 = Some xs" "store2 xs 1 = Some []"
    "store2 xs (Suc 0) = Some []"
  by (simp_all add: store2_def)

lemma store2_upd [simp]: "(store2 xs)(0 \<mapsto> ys) = store2 ys"
  by (simp add: store2_def)

lemma unlinked_store2 [simp]: "unlinked (store2 xs) n \<longleftrightarrow> n \<notin> set xs"
  by (auto simp: store2_def unlinked_def)

lemma store2_exists:
  assumes "distinct xs"
  shows "\<exists>h. store_rel h (store2 xs)"
proof -
  have "store_rel (list_init 0 (list_init 1 (\<lambda>_. \<lparr>node_prev = None, node_next = None\<rparr>))) (store2 [])"
    unfolding store2_def by (intro il.rel_init store_rel_empty_store) simp_all
  from il.push_all [OF this, of 0 "[]" "rev xs"] assms show ?thesis by auto
qed

theorem list_deque_refinement_witness:
  "\<exists>h h' h''. store_rel h (store2 [5, 6])
     \<and> list_push 0 (Node 7) h = Inr h' \<and> store_rel h' (store2 [7, 5, 6])
     \<and> list_pop 0 h = Inr (Node 5, h'') \<and> store_rel h'' (store2 [6])"
proof -
  obtain h where h: "store_rel h (store2 [5, 6])" using store2_exists [of "[5, 6]"] by auto
  show ?thesis
    using list_deque_refinement [OF h store2_at(1), where n = 7 and ret = "\<lambda>_. ()"] h by auto
qed

text \<open>
  C2. \<^verbatim>\<open>list_insert_sort\<close> keeps a list sorted: on a list sorted by the key it returns (the walk
  ends), the new element is on the list exactly once, the list is sorted again, and among elements
  of equal keys the new one comes last, so that equal keys are served in the order of arrival.
\<close>

theorem list_insert_sort_sorted:
  assumes "store_rel h c" and "c l = Some xs" and "unlinked c n" and "sorted (map key xs)"
  shows "\<exists>h' ys. list_insert_sort l (Node n) key h = Inr h' \<and> store_rel h' (c(l \<mapsto> ys))
     \<and> sorted (map key ys) \<and> set ys = insert n (set xs) \<and> distinct ys
     \<and> filter (\<lambda>m. key m = key n) ys = filter (\<lambda>m. key m = key n) xs @ [n]
     \<and> filter (\<lambda>m. m \<noteq> n) ys = xs"
proof -
  have n: "n \<notin> set xs" and dist: "distinct xs"
    using assms by (auto dest: unlinked_notin il.rel_distinct)
  define as bs where ab: "as = takeWhile (\<lambda>m. key m \<le> key n) xs"
    "bs = dropWhile (\<lambda>m. key m \<le> key n) xs"
  have xs: "xs = as @ bs" and ys: "insert_key key n xs = as @ n # bs"
    by (simp_all add: ab insert_key_def)
  have "\<forall>m \<in> set bs. key m \<noteq> key n"
  proof (cases bs)
    case (Cons b bs')
    then have "key n < key b" unfolding ab by (metis dropWhile_eq_Cons_conv not_le)
    then show ?thesis using assms(4) Cons xs by (fastforce simp: sorted_append)
  qed simp
  then have "filter (\<lambda>m. key m = key n) bs = []" by (simp add: filter_empty_conv)
  moreover have "filter (\<lambda>m. m \<noteq> n) as = as" "filter (\<lambda>m. m \<noteq> n) bs = bs"
    using n xs by (auto simp: filter_id_conv)
  ultimately have "filter (\<lambda>m. key m = key n) (insert_key key n xs) = filter (\<lambda>m. key m = key n) xs @ [n]"
    and "filter (\<lambda>m. m \<noteq> n) (insert_key key n xs) = xs"
    using n by (simp_all add: ys) (simp_all add: xs)
  moreover have "sorted (map key (insert_key key n xs))" by (rule sorted_insert_key [OF assms(4)])
  moreover have "distinct (insert_key key n xs)" using n dist by (simp add: distinct_insert_key)
  moreover obtain h' where "list_insert_sort l (Node n) key h = Inr h'"
      "store_rel h' (c(l \<mapsto> insert_key key n xs))"
    using il.rel_insert_sort [OF assms(1-3)] by blast
  ultimately show ?thesis
    by (intro exI [of _ h'] exI [of _ "insert_key key n xs"]) simp
qed

theorem list_insert_sort_sorted_witness:
  "\<exists>h h' ys. store_rel h (store2 [5, 6]) \<and> list_insert_sort 0 (Node 2) int h = Inr h'
     \<and> store_rel h' (store2 ys) \<and> sorted (map int ys) \<and> set ys = {2, 5, 6}"
proof -
  obtain h where h: "store_rel h (store2 [5, 6])" using store2_exists [of "[5, 6]"] by auto
  obtain h' ys where "list_insert_sort 0 (Node 2) int h = Inr h'" "store_rel h' (store2 ys)"
      "sorted (map int ys)" "set ys = insert 2 (set [5, 6])"
    using list_insert_sort_sorted [OF h store2_at(1), of 2 int] by auto
  with h show ?thesis by auto
qed



end
