(* ===== verification/Fifo.thy ===== *)
theory Fifo
  imports Prelude
begin

text \<open>
  The ring buffer of \<^verbatim>\<open>lib/fifo.c\<close>, which holds the characters typed on the keyboard.
  The record is \<^verbatim>\<open>fifo_t\<close>; positions are \<^verbatim>\<open>u32\<close> and advance modulo the length. The
  abstraction \<open>fifo_contents\<close> is the list of bytes between tail and head, oldest first; putting
  into a full buffer drops the oldest byte. The locale \<open>bounded_queue\<close> is what the keyboard
  driver relies on.
\<close>

section \<open>The operations of fifo.c\<close>

record fifo_t =
  fifo_buf :: "u8 list"
  fifo_length :: u32
  fifo_head :: u32
  fifo_tail :: u32

definition fifo_next :: "fifo_t \<Rightarrow> u32 \<Rightarrow> u32 res" where
  "fifo_next f pos =
     (if fifo_length f = 0 then Inl DivideError else Inr ((pos + 1) mod fifo_length f))"

definition fifo_init :: "u8 list \<Rightarrow> u32 \<Rightarrow> fifo_t" where
  "fifo_init buf len = \<lparr>fifo_buf = buf, fifo_length = len, fifo_head = 0, fifo_tail = 0\<rparr>"

definition fifo_full :: "fifo_t \<Rightarrow> bool res" where
  "fifo_full f = bindE (fifo_next f (fifo_head f)) (\<lambda>p. Inr (p = fifo_tail f))"

definition fifo_empty :: "fifo_t \<Rightarrow> bool" where
  "fifo_empty f = (fifo_head f = fifo_tail f)"

definition fifo_get :: "fifo_t \<Rightarrow> (u8 \<times> fifo_t) res" where
  "fifo_get f =
     kassert (\<not> fifo_empty f) (
     bindE (rd (fifo_buf f) (unat (fifo_tail f))) (\<lambda>byte.
     bindE (fifo_next f (fifo_tail f)) (\<lambda>t.
     Inr (byte, f\<lparr>fifo_tail := t\<rparr>))))"

text \<open>\<^verbatim>\<open>while (fifo_full(fifo)) fifo_get(fifo);\<close>\<close>

partial_function (option) make_room :: "fifo_t \<Rightarrow> fifo_t res option" where
  "make_room f =
     (case fifo_full f of
        Inl e \<Rightarrow> Some (Inl e)
      | Inr full \<Rightarrow>
          (if full then (case fifo_get f of
                           Inl e \<Rightarrow> Some (Inl e)
                         | Inr bf \<Rightarrow> make_room (snd bf))
           else Some (Inr f)))"

declare make_room.simps [code]

definition fifo_put :: "fifo_t \<Rightarrow> u8 \<Rightarrow> fifo_t res" where
  "fifo_put f byte =
     bindE (returns (make_room f)) (\<lambda>f1.
     bindE (wr (fifo_buf f1) (unat (fifo_head f1)) byte) (\<lambda>buf.
     let f2 = f1\<lparr>fifo_buf := buf\<rparr> in
     bindE (fifo_next f2 (fifo_head f2)) (\<lambda>h.
     Inr (f2\<lparr>fifo_head := h\<rparr>))))"

section \<open>The queue it implements\<close>

definition fifo_inv :: "fifo_t \<Rightarrow> bool" where
  "fifo_inv f \<longleftrightarrow> 2 \<le> unat (fifo_length f) \<and> length (fifo_buf f) = unat (fifo_length f)
     \<and> unat (fifo_head f) < unat (fifo_length f) \<and> unat (fifo_tail f) < unat (fifo_length f)"

text \<open>One cell of the ring always stays free, to tell full from empty.\<close>

definition fifo_cap :: "fifo_t \<Rightarrow> nat" where
  "fifo_cap f = unat (fifo_length f) - 1"

definition ring_count :: "nat \<Rightarrow> nat \<Rightarrow> nat \<Rightarrow> nat" where
  "ring_count n t h = (if t \<le> h then h - t else h + n - t)"

definition fifo_contents :: "fifo_t \<Rightarrow> u8 list" where
  "fifo_contents f =
     (let n = unat (fifo_length f); t = unat (fifo_tail f)
      in map (\<lambda>i. fifo_buf f ! ((t + i) mod n)) [0..<ring_count n t (unat (fifo_head f))])"

subsection \<open>Arithmetic of the ring\<close>

lemma unat_fifo_next:
  assumes "fifo_inv f" and "unat p < unat (fifo_length f)"
  shows "fifo_next f p = Inr ((p + 1) mod fifo_length f)"
    and "unat ((p + 1) mod fifo_length f) = (unat p + 1) mod unat (fifo_length f)"
proof -
  have "unat (fifo_length f) < 2 ^ 32" using unsigned_less [of "fifo_length f"] by simp
  then have "unat (p + 1) = unat p + 1" using assms(2) by (subst unat_Suc_small) auto
  then show "unat ((p + 1) mod fifo_length f) = (unat p + 1) mod unat (fifo_length f)"
    by (simp add: unat_mod)
  have "fifo_length f \<noteq> 0" using assms(1) by (auto simp: fifo_inv_def)
  then show "fifo_next f p = Inr ((p + 1) mod fifo_length f)" by (simp add: fifo_next_def)
qed

lemma ring_count_less: "t < n \<Longrightarrow> h < n \<Longrightarrow> ring_count n t h < n"
  by (auto simp: ring_count_def)

lemma ring_count_zero: "t < n \<Longrightarrow> h < n \<Longrightarrow> ring_count n t h = 0 \<longleftrightarrow> h = t"
  by (auto simp: ring_count_def)

lemma Suc_mod_ring: "p < n \<Longrightarrow> Suc p mod n = (if Suc p = n then 0 else Suc p)"
  by auto

lemma ring_full: "t < n \<Longrightarrow> h < n \<Longrightarrow> (h + 1) mod n = t \<longleftrightarrow> ring_count n t h = n - 1"
  by (auto simp: ring_count_def Suc_mod_ring)

lemma ring_count_head:
  "t < n \<Longrightarrow> h < n \<Longrightarrow> (h + 1) mod n \<noteq> t \<Longrightarrow> ring_count n t ((h + 1) mod n) = ring_count n t h + 1"
  by (auto simp: ring_count_def Suc_mod_ring split: if_splits)

lemma ring_count_tail:
  "t < n \<Longrightarrow> h < n \<Longrightarrow> h \<noteq> t \<Longrightarrow> ring_count n ((t + 1) mod n) h = ring_count n t h - 1"
  by (auto simp: ring_count_def Suc_mod_ring split: if_splits)

lemma ring_slot: "t < n \<Longrightarrow> h < n \<Longrightarrow> (t + ring_count n t h) mod n = h"
  by (auto simp: ring_count_def)

lemma ring_slot_other:
  assumes "t < n" and "h < n" and "i < ring_count n t h"
  shows "(t + i) mod n \<noteq> h"
proof -
  have "(t + i) mod n = (if t + i < n then t + i else t + i - n)"
    using assms ring_count_less [OF assms(1,2)] by (auto simp: mod_if)
  then show ?thesis using assms by (auto simp: ring_count_def split: if_splits)
qed

lemma length_fifo_contents:
  "length (fifo_contents f) = ring_count (unat (fifo_length f)) (unat (fifo_tail f)) (unat (fifo_head f))"
  by (simp add: fifo_contents_def Let_def)

subsection \<open>Each operation on the list of contents\<close>

lemma fifo_empty_contents: "fifo_inv f \<Longrightarrow> fifo_empty f \<longleftrightarrow> fifo_contents f = []"
  using ring_count_zero [of "unat (fifo_tail f)" "unat (fifo_length f)" "unat (fifo_head f)"]
    length_fifo_contents [of f]
  by (auto simp: fifo_inv_def fifo_empty_def word_unat_eq_iff)

lemma fifo_contents_bounded: "fifo_inv f \<Longrightarrow> length (fifo_contents f) \<le> fifo_cap f"
  using ring_count_less [of "unat (fifo_tail f)" "unat (fifo_length f)" "unat (fifo_head f)"]
  by (simp add: fifo_inv_def length_fifo_contents fifo_cap_def)

lemma fifo_full_contents:
  assumes "fifo_inv f"
  shows "fifo_full f = Inr (length (fifo_contents f) = fifo_cap f)"
proof -
  have b: "unat (fifo_head f) < unat (fifo_length f)" "unat (fifo_tail f) < unat (fifo_length f)"
    using assms by (auto simp: fifo_inv_def)
  show ?thesis
    using unat_fifo_next [OF assms b(1)] ring_full [OF b(2,1)]
    by (simp add: fifo_full_def word_unat_eq_iff length_fifo_contents fifo_cap_def)
qed

lemma fifo_get_contents:
  assumes "fifo_inv f" and "fifo_contents f \<noteq> []"
  shows "\<exists>f'. fifo_get f = Inr (hd (fifo_contents f), f') \<and> fifo_inv f'
     \<and> fifo_contents f' = tl (fifo_contents f) \<and> fifo_cap f' = fifo_cap f"
proof -
  let ?n = "unat (fifo_length f)" and ?t = "unat (fifo_tail f)" and ?h = "unat (fifo_head f)"
  have b: "?h < ?n" "?t < ?n" using assms(1) by (auto simp: fifo_inv_def)
  define f' where "f' = f\<lparr>fifo_tail := (fifo_tail f + 1) mod fifo_length f\<rparr>"
  have ne: "?h \<noteq> ?t" using assms fifo_empty_contents [OF assms(1)]
    by (simp add: fifo_empty_def word_unat_eq_iff)
  then have pos: "0 < ring_count ?n ?t ?h" using ring_count_zero [OF b(2,1)] by simp
  have split: "[0..<ring_count ?n ?t ?h] = 0 # map Suc [0..<ring_count ?n ?t ?h - 1]"
    using pos map_Suc_upt [of 0 "ring_count ?n ?t ?h - 1"] by (simp add: upt_conv_Cons)
  have "fifo_contents f = fifo_buf f ! ?t # map (\<lambda>i. fifo_buf f ! ((?t + Suc i) mod ?n)) [0..<ring_count ?n ?t ?h - 1]"
    using b by (simp add: fifo_contents_def Let_def split o_def)
  moreover have "fifo_contents f' = map (\<lambda>i. fifo_buf f ! ((?t + Suc i) mod ?n)) [0..<ring_count ?n ?t ?h - 1]"
    using unat_fifo_next(2) [OF assms(1) b(2)] ring_count_tail [OF b(2,1) ne]
    by (simp add: fifo_contents_def f'_def Let_def mod_simps)
  moreover have "fifo_get f = Inr (fifo_buf f ! ?t, f')"
    using assms fifo_empty_contents [OF assms(1)] b unat_fifo_next(1) [OF assms(1) b(2)]
    by (simp add: fifo_get_def f'_def fifo_inv_def)
  moreover have "fifo_inv f'"
    using assms(1) unat_fifo_next(2) [OF assms(1) b(2)] by (auto simp: fifo_inv_def f'_def)
  ultimately show ?thesis by (auto simp: fifo_cap_def f'_def)
qed

lemma make_room_contents:
  assumes "fifo_inv f"
  shows "\<exists>f'. make_room f = Some (Inr f') \<and> fifo_inv f' \<and> length (fifo_contents f') < fifo_cap f
     \<and> fifo_contents f' = (if length (fifo_contents f) = fifo_cap f then tl (fifo_contents f) else fifo_contents f)
     \<and> fifo_cap f' = fifo_cap f"
proof (cases "length (fifo_contents f) = fifo_cap f")
  case True
  have cap: "0 < fifo_cap f" using assms by (simp add: fifo_inv_def fifo_cap_def)
  then have "fifo_contents f \<noteq> []" using True by auto
  from fifo_get_contents [OF assms this] obtain f' where f':
      "fifo_get f = Inr (hd (fifo_contents f), f')" "fifo_inv f'"
      "fifo_contents f' = tl (fifo_contents f)" "fifo_cap f' = fifo_cap f" by blast
  have "fifo_cap f - Suc 0 \<noteq> fifo_cap f" using cap by simp
  then have "make_room f' = Some (Inr f')"
    using fifo_full_contents [OF f'(2)] f'(3,4) True by (subst make_room.simps) simp
  then have "make_room f = Some (Inr f')"
    using fifo_full_contents [OF assms] True f'(1) by (subst make_room.simps) simp
  then show ?thesis using f' True cap by simp
next
  case False
  then have "make_room f = Some (Inr f)"
    using fifo_full_contents [OF assms] by (subst make_room.simps) simp
  then show ?thesis using False assms fifo_contents_bounded [OF assms] by simp
qed

lemma fifo_put_room:
  assumes "fifo_inv f" and "length (fifo_contents f) < fifo_cap f"
    and f'_def: "f' = f\<lparr>fifo_buf := (fifo_buf f)[unat (fifo_head f) := byte],
                  fifo_head := (fifo_head f + 1) mod fifo_length f\<rparr>"
  shows "fifo_inv f' \<and> fifo_contents f' = fifo_contents f @ [byte]"
proof -
  let ?n = "unat (fifo_length f)" and ?t = "unat (fifo_tail f)" and ?h = "unat (fifo_head f)"
  have b: "?h < ?n" "?t < ?n" and len: "length (fifo_buf f) = ?n"
    using assms(1) by (auto simp: fifo_inv_def)
  have "(?h + 1) mod ?n \<noteq> ?t"
    using assms(2) ring_full [OF b(2,1)] by (simp add: length_fifo_contents fifo_cap_def)
  then have cnt: "ring_count ?n ?t ((?h + 1) mod ?n) = ring_count ?n ?t ?h + 1"
    by (rule ring_count_head [OF b(2,1)])
  have head: "unat (fifo_head f') = (?h + 1) mod ?n"
    using unat_fifo_next(2) [OF assms(1) b(1)] by (simp add: f'_def)
  have "fifo_contents f' = map (\<lambda>i. (fifo_buf f)[?h := byte] ! ((?t + i) mod ?n)) [0..<ring_count ?n ?t ?h]
      @ [(fifo_buf f)[?h := byte] ! ((?t + ring_count ?n ?t ?h) mod ?n)]"
    using head cnt by (simp add: fifo_contents_def Let_def f'_def)
  also have "\<dots> = fifo_contents f @ [byte]"
    using ring_slot [OF b(2,1)] b len ring_slot_other [OF b(2,1), THEN not_sym]
    by (simp add: fifo_contents_def Let_def)
  finally show ?thesis
    using assms(1) head by (auto simp: fifo_inv_def f'_def)
qed

lemma fifo_put_contents:
  assumes "fifo_inv f"
  shows "\<exists>f'. fifo_put f byte = Inr f' \<and> fifo_inv f' \<and> fifo_cap f' = fifo_cap f
     \<and> fifo_contents f' =
         (if length (fifo_contents f) = fifo_cap f then tl (fifo_contents f) else fifo_contents f) @ [byte]"
proof -
  from make_room_contents [OF assms] obtain f1 where f1: "make_room f = Some (Inr f1)" "fifo_inv f1"
      "length (fifo_contents f1) < fifo_cap f1" "fifo_cap f1 = fifo_cap f"
      "fifo_contents f1 = (if length (fifo_contents f) = fifo_cap f then tl (fifo_contents f) else fifo_contents f)"
    by auto
  define f2 where "f2 = f1\<lparr>fifo_buf := (fifo_buf f1)[unat (fifo_head f1) := byte]\<rparr>"
  have b: "unat (fifo_head f1) < unat (fifo_length f1)" using f1(2) by (simp add: fifo_inv_def)
  have inv2: "fifo_inv f2" using f1(2) by (simp add: fifo_inv_def f2_def)
  have "fifo_put f byte = Inr (f2\<lparr>fifo_head := (fifo_head f1 + 1) mod fifo_length f1\<rparr>)"
    using f1(1,2) b unat_fifo_next(1) [OF inv2, of "fifo_head f1"]
    by (simp add: fifo_put_def Let_def f2_def fifo_inv_def)
  then show ?thesis
    using fifo_put_room [OF f1(2) _ refl, of byte] f1(3,4,5) by (simp add: f2_def fifo_cap_def)
qed

lemma fifo_init_contents:
  assumes "2 \<le> unat len" and "length buf = unat len"
  shows "fifo_inv (fifo_init buf len) \<and> fifo_contents (fifo_init buf len) = []
    \<and> fifo_cap (fifo_init buf len) = unat len - 1"
  using assms
  by (simp add: fifo_inv_def fifo_init_def fifo_contents_def fifo_cap_def ring_count_def)

section \<open>The contract of a bounded queue\<close>

text \<open>
  What a producer and a consumer of characters rely on: a put never fails, and only ever loses
  the oldest element; a get of a non-empty queue returns the oldest element.
\<close>

locale bounded_queue =
  fixes inv :: "'q \<Rightarrow> bool" and abs :: "'q \<Rightarrow> 'a list" and cap :: "'q \<Rightarrow> nat"
    and put :: "'q \<Rightarrow> 'a \<Rightarrow> 'q res" and get :: "'q \<Rightarrow> ('a \<times> 'q) res" and is_empty :: "'q \<Rightarrow> bool"
  assumes cap_pos: "inv q \<Longrightarrow> 0 < cap q"
    and bounded: "inv q \<Longrightarrow> length (abs q) \<le> cap q"
    and empty_abs: "inv q \<Longrightarrow> is_empty q \<longleftrightarrow> abs q = []"
    and put_abs: "inv q \<Longrightarrow> \<exists>q'. put q x = Inr q' \<and> inv q' \<and> cap q' = cap q
        \<and> abs q' = (if length (abs q) = cap q then tl (abs q) else abs q) @ [x]"
    and get_abs: "inv q \<Longrightarrow> abs q \<noteq> [] \<Longrightarrow> \<exists>q'. get q = Inr (hd (abs q), q') \<and> inv q'
        \<and> cap q' = cap q \<and> abs q' = tl (abs q)"
begin

text \<open>The last \<open>n\<close> elements of a list.\<close>

definition last_of :: "nat \<Rightarrow> 'b list \<Rightarrow> 'b list" where
  "last_of n xs = drop (length xs - n) xs"

lemma last_of_short: "length xs \<le> n \<Longrightarrow> last_of n xs = xs"
  by (simp add: last_of_def)

lemma put_all:
  assumes "inv q"
  shows "\<exists>q'. foldE (\<lambda>x q. put q x) xs q = Inr q' \<and> inv q' \<and> cap q' = cap q
    \<and> abs q' = last_of (cap q) (abs q @ xs)"
  using assms
proof (induction xs arbitrary: q)
  case Nil
  then show ?case using bounded [of q] by (simp add: last_of_short)
next
  case (Cons x xs)
  from put_abs [OF Cons.prems, of x] obtain q1 where q1: "put q x = Inr q1" "inv q1" "cap q1 = cap q"
      "abs q1 = (if length (abs q) = cap q then tl (abs q) else abs q) @ [x]" by blast
  from Cons.IH [OF q1(2)] obtain q2 where q2: "foldE (\<lambda>x q. put q x) xs q1 = Inr q2" "inv q2"
      "cap q2 = cap q1" "abs q2 = last_of (cap q1) (abs q1 @ xs)" by blast
  have "last_of (cap q) (abs q1 @ xs) = last_of (cap q) (abs q @ x # xs)"
  proof (cases "length (abs q) = cap q")
    case True
    then show ?thesis
      using q1(4) cap_pos [OF Cons.prems] by (cases "abs q") (auto simp: last_of_def True [symmetric])
  next
    case False
    then show ?thesis using q1(4) by simp
  qed
  then show ?case using q1 q2 by simp
qed

lemma get_all:
  assumes "inv q" and "n \<le> length (abs q)"
  shows "\<exists>q'. foldE (\<lambda>_ (ys, q). bindE (get q) (\<lambda>(y, q'). Inr (ys @ [y], q'))) (replicate n ()) (ys, q)
    = Inr (ys @ take n (abs q), q') \<and> inv q' \<and> cap q' = cap q \<and> abs q' = drop n (abs q)"
  using assms
proof (induction n arbitrary: q ys)
  case 0
  then show ?case by simp
next
  case (Suc n)
  then have ne: "abs q \<noteq> []" by auto
  from get_abs [OF Suc.prems(1) ne] obtain q1 where q1: "get q = Inr (hd (abs q), q1)" "inv q1"
      "cap q1 = cap q" "abs q1 = tl (abs q)" by blast
  have "n \<le> length (abs q1)" using Suc.prems(2) q1(4) by simp
  from Suc.IH [OF q1(2) this, of "ys @ [hd (abs q)]"] obtain q2 where
      "foldE (\<lambda>_ (ys, q). bindE (get q) (\<lambda>(y, q'). Inr (ys @ [y], q'))) (replicate n ()) (ys @ [hd (abs q)], q1)
        = Inr ((ys @ [hd (abs q)]) @ take n (abs q1), q2)" "inv q2" "cap q2 = cap q1"
      "abs q2 = drop n (abs q1)" by blast
  then show ?case using q1 ne by (cases "abs q") auto
qed

end

interpretation bq: bounded_queue fifo_inv fifo_contents fifo_cap fifo_put fifo_get fifo_empty
proof (unfold_locales, goal_cases)
  case (1 q)
  then show ?case by (simp add: fifo_inv_def fifo_cap_def)
next
  case (2 q)
  then show ?case by (rule fifo_contents_bounded)
next
  case (3 q)
  then show ?case by (rule fifo_empty_contents)
next
  case (4 q x)
  then show ?case by (rule fifo_put_contents)
next
  case (5 q)
  then show ?case using fifo_get_contents [of q] by blast
qed

section \<open>Property\<close>

text \<open>C4. The ring buffer of lib/fifo.c is a bounded queue that never refuses a character: from
  \<open>fifo_init\<close> on a buffer of its length, any sequence of puts succeeds and leaves exactly
  the last \<open>length - 1\<close> characters in order, and gets then return them oldest first, up to the
  first get of an empty buffer, which fails the assertion.\<close>

theorem fifo_keeps_last:
  assumes "2 \<le> unat len" and "length buf = unat len"
  shows "\<exists>f. foldE (\<lambda>c f. fifo_put f c) cs (fifo_init buf len) = Inr f
    \<and> fifo_contents f = drop (length cs - (unat len - 1)) cs
    \<and> (\<exists>f'. foldE (\<lambda>_ (ys, f). bindE (fifo_get f) (\<lambda>(y, f'). Inr (ys @ [y], f')))
            (replicate (length (fifo_contents f)) ()) ([], f) = Inr (fifo_contents f, f')
          \<and> fifo_empty f' \<and> fifo_get f' = Inl Assertion)"
proof -
  note i = fifo_init_contents [OF assms]
  from bq.put_all [of "fifo_init buf len" cs] i obtain f where f:
      "foldE (\<lambda>c f. fifo_put f c) cs (fifo_init buf len) = Inr f" "fifo_inv f"
      "fifo_contents f = drop (length cs - (unat len - 1)) cs"
    by (auto simp: bq.last_of_def)
  from bq.get_all [OF f(2) order.refl, of "[]"] obtain f' where f':
      "foldE (\<lambda>_ (ys, f). bindE (fifo_get f) (\<lambda>(y, f'). Inr (ys @ [y], f')))
            (replicate (length (fifo_contents f)) ()) ([], f) = Inr (fifo_contents f, f')"
      "fifo_inv f'" "fifo_contents f' = []" by auto
  have "fifo_empty f'" using f'(2,3) fifo_empty_contents by blast
  then have "fifo_get f' = Inl Assertion" by (simp add: fifo_get_def)
  with f f' \<open>fifo_empty f'\<close> show ?thesis by blast
qed

theorem fifo_keeps_last_witness:
  "\<exists>f. foldE (\<lambda>c f. fifo_put f c) [10, 20, 30, 40] (fifo_init [0, 0, 0] 3) = Inr f
    \<and> fifo_contents f = [30, 40]"
  using fifo_keeps_last [of 3 "[0, 0, 0]" "[10, 20, 30, 40]"] by auto

end
