(* ===== verification/Bitmap.thy ===== *)
theory Bitmap
  imports Prelude
begin

text \<open>
  The bitmaps of \<^verbatim>\<open>kernel/bitmap.c\<close>, which allocate kernel pages, inodes and blocks. The
  record is \<^verbatim>\<open>bitmap_t\<close>, the buffer a list of bytes. The abstraction is the set of indices
  (from the offset on) whose bit is one, and the contract of the locale \<open>run_allocator\<close> is what
  the page allocator of \<^verbatim>\<open>kernel/memory.c\<close> needs: a scan returns the first free run and
  takes it, a reset gives one index back.
\<close>

section \<open>The operations of bitmap.c\<close>

record bitmap_t =
  bm_bits :: "u8 list"
  bm_length :: u32
  bm_offset :: u32

definition EOF :: u32 where "EOF = - 1"

definition bitmap_make :: "u8 list \<Rightarrow> u32 \<Rightarrow> u32 \<Rightarrow> bitmap_t" where
  "bitmap_make bits len offset = \<lparr>bm_bits = bits, bm_length = len, bm_offset = offset\<rparr>"

text \<open>\<^verbatim>\<open>memset(bits, 0, length)\<close>, on a buffer that may be longer than the map.\<close>

definition bitmap_init :: "u8 list \<Rightarrow> u32 \<Rightarrow> u32 \<Rightarrow> bitmap_t res" where
  "bitmap_init bits len start =
     (if unat len \<le> length bits
      then Inr (bitmap_make (replicate (unat len) 0 @ drop (unat len) bits) len start)
      else Inl OutOfBounds)"

definition bitmap_test :: "bitmap_t \<Rightarrow> u32 \<Rightarrow> bool res" where
  "bitmap_test bm index =
     kassert (index \<ge> bm_offset bm) (
     let idx = index - bm_offset bm; bytes = idx div 8; bits = idx mod 8 in
     kassert (bytes < bm_length bm) (
     bindE (rd (bm_bits bm) (unat bytes)) (\<lambda>byte.
     Inr (byte AND push_bit (unat bits) 1 \<noteq> 0))))"

definition bitmap_set :: "bitmap_t \<Rightarrow> u32 \<Rightarrow> bool \<Rightarrow> bitmap_t res" where
  "bitmap_set bm index value =
     kassert (index \<ge> bm_offset bm) (
     let idx = index - bm_offset bm; bytes = idx div 8; bits = idx mod 8 in
     bindE (rd (bm_bits bm) (unat bytes)) (\<lambda>byte.
     bindE (wr (bm_bits bm) (unat bytes)
              (if value then byte OR push_bit (unat bits) 1
               else byte AND NOT (push_bit (unat bits) 1))) (\<lambda>bs.
     Inr (bm\<lparr>bm_bits := bs\<rparr>))))"

text \<open>The search loop: \<open>bits_left\<close> counts down; the result is \<open>start\<close> (\<open>EOF\<close> when the loop
  ran out) with \<open>counter\<close>.\<close>

fun scan_loop :: "bitmap_t \<Rightarrow> u32 \<Rightarrow> nat \<Rightarrow> u32 \<Rightarrow> u32 \<Rightarrow> (u32 \<times> u32) res" where
  "scan_loop bm count 0 next_bit counter = Inr (EOF, counter)"
| "scan_loop bm count (Suc bits_left) next_bit counter =
     bindE (bitmap_test bm (bm_offset bm + next_bit)) (\<lambda>used.
     let counter = (if used then 0 else counter + 1); next_bit = next_bit + 1 in
     if counter = count then Inr (next_bit - count, counter)
     else scan_loop bm count bits_left next_bit counter)"

fun mark_loop :: "nat \<Rightarrow> u32 \<Rightarrow> bitmap_t \<Rightarrow> bitmap_t res" where
  "mark_loop 0 next_bit bm = Inr bm"
| "mark_loop (Suc bits_left) next_bit bm =
     bindE (bitmap_set bm (bm_offset bm + next_bit) True) (mark_loop bits_left (next_bit + 1))"

definition bitmap_scan :: "bitmap_t \<Rightarrow> u32 \<Rightarrow> (u32 \<times> bitmap_t) res" where
  "bitmap_scan bm count =
     bindE (scan_loop bm count (unat (bm_length bm * 8)) 0 0) (\<lambda>(start, counter).
     if start = EOF then Inr (EOF, bm)
     else bindE (mark_loop (unat counter) start bm) (\<lambda>bm.
          Inr (start + bm_offset bm, bm)))"

section \<open>The set of used indices\<close>

definition bm_inv :: "bitmap_t \<Rightarrow> bool" where
  "bm_inv m \<longleftrightarrow> unat (bm_length m) \<le> length (bm_bits m)
     \<and> unat (bm_offset m) + 8 * unat (bm_length m) < 2 ^ 32"

definition bm_first :: "bitmap_t \<Rightarrow> nat" where
  "bm_first m = unat (bm_offset m)"

definition bm_size :: "bitmap_t \<Rightarrow> nat" where
  "bm_size m = 8 * unat (bm_length m)"

text \<open>The \<open>i\<close>-th bit of the buffer, and the indices that are in use.\<close>

definition bm_bit :: "bitmap_t \<Rightarrow> nat \<Rightarrow> bool" where
  "bm_bit m i = bit (bm_bits m ! (i div 8)) (i mod 8)"

definition bm_used :: "bitmap_t \<Rightarrow> nat set" where
  "bm_used m = {bm_first m + i |i. i < bm_size m \<and> bm_bit m i}"

lemma mem_bm_used:
  "j \<in> bm_used m \<longleftrightarrow> bm_first m \<le> j \<and> j < bm_first m + bm_size m \<and> bm_bit m (j - bm_first m)"
  by (auto simp: bm_used_def intro: exI [of _ "j - bm_first m"])

lemma and_one_bit: "(b :: u8) AND 2 ^ n \<noteq> 0 \<longleftrightarrow> bit b n"
  by (simp add: and_exp_eq_0_iff_not_bit)

lemma bm_index:
  assumes "bm_inv m" and "i < bm_size m"
  shows "unat (bm_offset m + of_nat i) = bm_first m + i"
    and "unat (of_nat i :: u32) = i"
    and "unat ((of_nat i :: u32) div 8) = i div 8"
    and "unat ((of_nat i :: u32) mod 8) = i mod 8"
    and "(of_nat i :: u32) div 8 < bm_length m"
    and "i div 8 < length (bm_bits m)"
    and "bm_offset m \<le> bm_offset m + of_nat i"
proof -
  have lt: "bm_first m + i < 2 ^ 32" using assms by (simp add: bm_inv_def bm_size_def bm_first_def)
  then show i: "unat (of_nat i :: u32) = i" by (simp add: unat_of_nat)
  then show s: "unat (bm_offset m + of_nat i) = bm_first m + i"
    using lt by (subst unat_add_small) (simp_all add: bm_first_def)
  show d: "unat ((of_nat i :: u32) div 8) = i div 8" using i by (simp add: unat_div)
  show "unat ((of_nat i :: u32) mod 8) = i mod 8" using i by (simp add: unat_mod)
  show "(of_nat i :: u32) div 8 < bm_length m"
    using assms(2) d by (simp add: word_less_nat_alt bm_size_def)
  show "i div 8 < length (bm_bits m)" using assms by (auto simp: bm_inv_def bm_size_def)
  show "bm_offset m \<le> bm_offset m + of_nat i"
    using s by (simp add: word_le_nat_alt bm_first_def)
qed

lemma bitmap_test_bit:
  assumes "bm_inv m" and "i < bm_size m"
  shows "bitmap_test m (bm_offset m + of_nat i) = Inr (bm_bit m i)"
  using bm_index [OF assms] by (simp add: bitmap_test_def Let_def and_one_bit bm_bit_def)

definition flip_bit_of :: "bitmap_t \<Rightarrow> nat \<Rightarrow> bool \<Rightarrow> bitmap_t" where
  "flip_bit_of m i v =
     m\<lparr>bm_bits := (bm_bits m)[i div 8 :=
        (if v then bm_bits m ! (i div 8) OR push_bit (i mod 8) 1
         else bm_bits m ! (i div 8) AND NOT (push_bit (i mod 8) 1))]\<rparr>"

lemma bitmap_set_bit:
  assumes "bm_inv m" and "i < bm_size m"
  shows "bitmap_set m (bm_offset m + of_nat i) v = Inr (flip_bit_of m i v)"
  using bm_index [OF assms] by (simp add: bitmap_set_def Let_def flip_bit_of_def)

lemma div_mod_eq: "(i :: nat) div 8 = j div 8 \<Longrightarrow> i mod 8 = j mod 8 \<Longrightarrow> i = j"
  by (metis div_mult_mod_eq)

lemma byte_flip:
  "k < 8 \<Longrightarrow> bit (if v then b OR push_bit n 1 else b AND NOT (push_bit n (1 :: u8))) k
     = (if k = n then v else bit b k)"
  by (auto simp: bit_or_iff bit_and_iff bit_not_iff bit_exp_iff)

lemma bm_bit_update:
  assumes "d < length (bm_bits m)"
  shows "bm_bit (m\<lparr>bm_bits := (bm_bits m)[d := x]\<rparr>) j
     = (if j div 8 = d then bit x (j mod 8) else bm_bit m j)"
  using assms by (simp add: bm_bit_def nth_list_update)

lemma flip_bit_of_bit:
  assumes "bm_inv m" and "i < bm_size m" and "j < bm_size m"
  shows "bm_bit (flip_bit_of m i v) j = (if j = i then v else bm_bit m j)"
  using div_mod_eq [of j i]
  unfolding flip_bit_of_def bm_bit_update [OF bm_index(6) [OF assms(1,2)]]
    byte_flip [OF mod_less_divisor [OF zero_less_numeral]]
  by (auto simp: bm_bit_def)

lemma flip_bit_of_frame [simp]:
  "bm_offset (flip_bit_of m i v) = bm_offset m" "bm_first (flip_bit_of m i v) = bm_first m"
  "bm_size (flip_bit_of m i v) = bm_size m" "bm_inv (flip_bit_of m i v) = bm_inv m"
  by (simp_all add: flip_bit_of_def bm_first_def bm_size_def bm_inv_def)

lemma bm_used_flip:
  assumes "bm_inv m" and "i < bm_size m"
  shows "bm_used (flip_bit_of m i v)
     = (if v then insert (bm_first m + i) (bm_used m) else bm_used m - {bm_first m + i})"
  using flip_bit_of_bit [OF assms] assms(2) by (auto simp: mem_bm_used split: if_splits)

section \<open>The scan\<close>

text \<open>The search as a function on numbers, and what it finds.\<close>

fun find_run :: "(nat \<Rightarrow> bool) \<Rightarrow> nat \<Rightarrow> nat \<Rightarrow> nat \<Rightarrow> nat \<Rightarrow> nat option" where
  "find_run b count 0 k c = None"
| "find_run b count (Suc n) k c =
     (let c' = (if b k then 0 else c + 1) in
      if c' = count then Some (k + 1 - count) else find_run b count n (k + 1) c')"

definition free_run :: "(nat \<Rightarrow> bool) \<Rightarrow> nat \<Rightarrow> nat \<Rightarrow> bool" where
  "free_run b s count \<longleftrightarrow> (\<forall>i. s \<le> i \<and> i < s + count \<longrightarrow> \<not> b i)"

lemma free_run_0 [simp]: "free_run b s 0"
  by (auto simp: free_run_def)

lemma find_run_spec:
  assumes "c < count" and "c \<le> k" and "free_run b (k - c) c" and "c = k \<or> b (k - c - 1)"
    and "\<And>s. s + count \<le> k \<Longrightarrow> \<not> free_run b s count"
  shows "case find_run b count n k c of
      None \<Rightarrow> (\<forall>s. s + count \<le> k + n \<longrightarrow> \<not> free_run b s count)
    | Some s \<Rightarrow> s + count \<le> k + n \<and> free_run b s count \<and> (\<forall>s'. s' < s \<longrightarrow> \<not> free_run b s' count)"
  using assms
proof (induction n arbitrary: k c)
  case 0
  then show ?case by simp
next
  case (Suc n)
  show ?case
  proof (cases "b k")
    case True
    have none: "\<not> free_run b s count" if "s + count \<le> k + 1" for s
    proof (cases "s + count \<le> k")
      case True
      then show ?thesis by (rule Suc.prems(5))
    next
      case False
      then have "s \<le> k \<and> k < s + count" using that Suc.prems(1) by auto
      then show ?thesis using \<open>b k\<close> by (auto simp: free_run_def)
    qed
    have "0 < count" using Suc.prems(1) by simp
    then show ?thesis
      using Suc.IH [of 0 "k + 1"] none True by (simp split: option.splits)
  next
    case False
    have ext: "free_run b (k + 1 - (c + 1)) (c + 1)"
      using Suc.prems(2,3) False by (auto simp: free_run_def less_Suc_eq)
    show ?thesis
    proof (cases "c + 1 = count")
      case True
      have first: "\<not> free_run b s' count" if "s' < k - c" for s'
      proof (cases "s' + count \<le> k")
        case True
        then show ?thesis by (rule Suc.prems(5))
      next
        case False
        then have "s' \<le> k - c - 1 \<and> k - c - 1 < s' + count" "b (k - c - 1)"
          using that \<open>c + 1 = count\<close> Suc.prems(4) by auto
        then show ?thesis by (auto simp: free_run_def)
      qed
      then show ?thesis using True ext \<open>\<not> b k\<close> Suc.prems(2) by (auto simp: Let_def)
    next
      case False
      have none: "\<not> free_run b s count" if "s + count \<le> k + 1" for s
      proof (cases "s + count \<le> k")
        case True
        then show ?thesis by (rule Suc.prems(5))
      next
        case False
        then have "s \<le> k - c - 1 \<and> k - c - 1 < s + count \<and> b (k - c - 1)"
          using that \<open>c + 1 \<noteq> count\<close> Suc.prems(1,4) by auto
        then show ?thesis by (auto simp: free_run_def)
      qed
      have "c + 1 < count" using False Suc.prems(1) by simp
      then show ?thesis
        using Suc.IH [of "c + 1" "k + 1"] none ext \<open>\<not> b k\<close> Suc.prems(2,4) False
        by (simp add: Let_def split: option.splits)
    qed
  qed
qed

lemma scan_loop_find_run:
  assumes "bm_inv m" and "k + n = bm_size m" and "c \<le> k"
  shows "\<exists>c'. scan_loop m count n (of_nat k) (of_nat c) =
    Inr (case find_run (bm_bit m) (unat count) n k c of
           None \<Rightarrow> (EOF, c') | Some s \<Rightarrow> (of_nat s, count))"
  using assms
proof (induction n arbitrary: k c)
  case 0
  then show ?case by auto
next
  case (Suc n)
  define c' where "c' = (if bm_bit m k then 0 else c + 1)"
  have k: "k < bm_size m" using Suc.prems by simp
  have size: "bm_size m < 2 ^ 32" using assms(1) by (simp add: bm_inv_def bm_size_def)
  have c': "c' \<le> k + 1" "c' < 2 ^ 32" using Suc.prems size by (auto simp: c'_def)
  have word: "(if bm_bit m k then 0 else of_nat c + 1) = (of_nat c' :: u32)"
    by (simp add: c'_def algebra_simps)
  have eq: "of_nat c' = count \<longleftrightarrow> c' = unat count"
    using c'(2) by (auto simp: unat_of_nat word_unat_eq_iff)
  have step: "scan_loop m count (Suc n) (of_nat k) (of_nat c) =
      (if c' = unat count then Inr (of_nat (k + 1) - count, count)
       else scan_loop m count n (of_nat (k + 1)) (of_nat c'))"
    using bitmap_test_bit [OF Suc.prems(1) k] word eq by (auto simp: Let_def algebra_simps)
  show ?case
  proof (cases "c' = unat count")
    case True
    have "(of_nat (k + 1 - unat count) :: u32) = of_nat (k + 1) - of_nat (unat count)"
      using c'(1) True by (intro of_nat_diff) simp
    then show ?thesis using step True by (simp add: Let_def c'_def [symmetric])
  next
    case False
    obtain d where "scan_loop m count n (of_nat (k + 1)) (of_nat c') =
        Inr (case find_run (bm_bit m) (unat count) n (k + 1) c' of
           None \<Rightarrow> (EOF, d) | Some s \<Rightarrow> (of_nat s, count))"
      using Suc.IH [of "k + 1" c'] Suc.prems c'(1) by auto
    then show ?thesis using step False by (auto simp: Let_def c'_def [symmetric])
  qed
qed

lemma atLeastLessThan_Suc_left: "{a ..< Suc (a + n)} = insert a {Suc a ..< Suc (a + n)}"
  by auto

lemma mark_loop_used:
  assumes "bm_inv m" and "k + n \<le> bm_size m"
  shows "\<exists>m'. mark_loop n (of_nat k) m = Inr m' \<and> bm_inv m' \<and> bm_offset m' = bm_offset m
    \<and> bm_size m' = bm_size m \<and> bm_used m' = bm_used m \<union> {bm_first m + k ..< bm_first m + k + n}"
  using assms
proof (induction n arbitrary: k m)
  case 0
  then show ?case by simp
next
  case (Suc n)
  have k: "k < bm_size m" using Suc.prems by simp
  let ?m = "flip_bit_of m k True"
  obtain m' where m': "mark_loop n (of_nat (k + 1)) ?m = Inr m'" "bm_inv m'" "bm_offset m' = bm_offset m"
      "bm_size m' = bm_size m" "bm_used m' = bm_used ?m \<union> {bm_first m + k + 1 ..< bm_first m + k + 1 + n}"
    using Suc.IH [of ?m "k + 1"] Suc.prems by auto
  have "mark_loop (Suc n) (of_nat k) m = Inr m'"
    using bitmap_set_bit [OF Suc.prems(1) k] m'(1) by (simp add: algebra_simps)
  moreover have "bm_used m' = bm_used m \<union> {bm_first m + k ..< bm_first m + k + Suc n}"
    using m'(5) bm_used_flip [OF Suc.prems(1) k, of True]
    by (simp add: atLeastLessThan_Suc_left)
  ultimately show ?case using m' by blast
qed

text \<open>A run of \<open>n\<close> free indices from \<open>a\<close>, inside the map.\<close>

definition bm_run :: "bitmap_t \<Rightarrow> nat \<Rightarrow> nat \<Rightarrow> bool" where
  "bm_run m a n \<longleftrightarrow> bm_first m \<le> a \<and> a + n \<le> bm_first m + bm_size m
     \<and> {a ..< a + n} \<inter> bm_used m = {}"

lemma bm_run_free_run:
  assumes "s + n \<le> bm_size m"
  shows "bm_run m (bm_first m + s) n \<longleftrightarrow> free_run (bm_bit m) s n"
proof
  assume *: "bm_run m (bm_first m + s) n"
  show "free_run (bm_bit m) s n"
    unfolding free_run_def
  proof (intro allI impI)
    fix i assume i: "s \<le> i \<and> i < s + n"
    then have "bm_first m + i \<in> {bm_first m + s ..< bm_first m + s + n}" by simp
    then have "bm_first m + i \<notin> bm_used m" using * unfolding bm_run_def by blast
    then show "\<not> bm_bit m i" using i assms by (simp add: mem_bm_used)
  qed
next
  assume *: "free_run (bm_bit m) s n"
  have "j \<notin> bm_used m" if "j \<in> {bm_first m + s ..< bm_first m + s + n}" for j
  proof -
    have "s \<le> j - bm_first m \<and> j - bm_first m < s + n" using that by auto
    then show ?thesis using * by (simp add: free_run_def mem_bm_used)
  qed
  then show "bm_run m (bm_first m + s) n" using assms by (auto simp: bm_run_def)
qed

lemma bitmap_scan_cases:
  assumes "bm_inv m" and "0 < count"
  shows "(\<exists>a m'. bitmap_scan m count = Inr (of_nat a, m') \<and> bm_run m a (unat count)
            \<and> (\<forall>b. b < a \<longrightarrow> \<not> bm_run m b (unat count)) \<and> bm_inv m'
            \<and> bm_used m' = bm_used m \<union> {a ..< a + unat count}
            \<and> bm_first m' = bm_first m \<and> bm_size m' = bm_size m)
       \<or> (bitmap_scan m count = Inr (EOF, m) \<and> (\<forall>b. \<not> bm_run m b (unat count)))"
proof -
  have pos: "0 < unat count" using assms(2) by (simp add: word_less_nat_alt)
  have size: "bm_first m + bm_size m < 2 ^ 32" using assms(1) by (simp add: bm_inv_def bm_size_def bm_first_def)
  have left: "unat (bm_length m * 8) = bm_size m"
    using size by (simp add: unat_word_ariths bm_size_def bm_first_def mult.commute)
  have bound: "b - bm_first m + unat count \<le> bm_size m \<and> b = bm_first m + (b - bm_first m)"
    if "bm_run m b (unat count)" for b
    using that by (auto simp: bm_run_def)
  have spec: "case find_run (bm_bit m) (unat count) (bm_size m) 0 0 of
      None \<Rightarrow> (\<forall>s. s + unat count \<le> bm_size m \<longrightarrow> \<not> free_run (bm_bit m) s (unat count))
    | Some s \<Rightarrow> s + unat count \<le> bm_size m \<and> free_run (bm_bit m) s (unat count)
        \<and> (\<forall>s'. s' < s \<longrightarrow> \<not> free_run (bm_bit m) s' (unat count))"
    using find_run_spec [of 0 "unat count" 0 "bm_bit m" "bm_size m"] pos
    by (simp add: free_run_def split: option.splits)
  obtain c' where loop: "scan_loop m count (bm_size m) 0 0 =
      Inr (case find_run (bm_bit m) (unat count) (bm_size m) 0 0 of
             None \<Rightarrow> (EOF, c') | Some s \<Rightarrow> (of_nat s, count))"
    using scan_loop_find_run [OF assms(1), of 0 "bm_size m" 0 count] by auto
  show ?thesis
  proof (cases "find_run (bm_bit m) (unat count) (bm_size m) 0 0")
    case None
    then have "\<not> bm_run m b (unat count)" for b
      using spec bound [of b] bm_run_free_run [of "b - bm_first m" "unat count" m] by auto
    then show ?thesis using loop None left by (simp add: bitmap_scan_def)
  next
    case (Some s)
    then have s: "s + unat count \<le> bm_size m" "free_run (bm_bit m) s (unat count)"
        "\<forall>s'. s' < s \<longrightarrow> \<not> free_run (bm_bit m) s' (unat count)" using spec by auto
    have "unat (of_nat s :: u32) = s" using s(1) size by (simp add: unat_of_nat)
    moreover have "unat EOF = 2 ^ 32 - 1" by (simp add: EOF_def unsigned_minus_1_eq_mask mask_eq_exp_minus_1)
    ultimately have "(of_nat s :: u32) \<noteq> EOF" using s(1) pos size by auto
    moreover obtain m' where m': "mark_loop (unat count) (of_nat s) m = Inr m'" "bm_inv m'"
        "bm_offset m' = bm_offset m" "bm_size m' = bm_size m"
        "bm_used m' = bm_used m \<union> {bm_first m + s ..< bm_first m + s + unat count}"
      using mark_loop_used [OF assms(1) s(1)] by blast
    ultimately have "bitmap_scan m count = Inr (of_nat (bm_first m + s), m')"
      using loop Some left by (simp add: bitmap_scan_def bm_first_def add.commute)
    moreover have "\<not> bm_run m b (unat count)" if "b < bm_first m + s" for b
      using that s(3) bound [of b] bm_run_free_run [of "b - bm_first m" "unat count" m] by fastforce
    ultimately show ?thesis
      using bm_run_free_run [OF s(1)] s(2) m'
      by (intro disjI1 exI [of _ "bm_first m + s"] exI [of _ m']) (simp add: bm_first_def)
  qed
qed

section \<open>The contract of an allocator of runs\<close>

text \<open>
  What the page allocator relies on: a scan takes the first free run and fails only when there is
  none, a reset gives an index back. Then an allocation undone index by index leaves the map as
  it was, and two allocations never overlap.
\<close>

locale run_allocator =
  fixes inv :: "'m \<Rightarrow> bool" and univ :: "'m \<Rightarrow> nat set" and used :: "'m \<Rightarrow> nat set"
    and scan :: "'m \<Rightarrow> u32 \<Rightarrow> (u32 \<times> 'm) res" and clear :: "'m \<Rightarrow> u32 \<Rightarrow> 'm res"
  assumes univ_small: "inv m \<Longrightarrow> i \<in> univ m \<Longrightarrow> i < 2 ^ 32 - 1"
    and scan_ok: "inv m \<Longrightarrow> 0 < c \<Longrightarrow> {b ..< b + unat c} \<subseteq> univ m - used m \<Longrightarrow>
      \<exists>a m'. scan m c = Inr (of_nat a, m') \<and> a \<le> b \<and> {a ..< a + unat c} \<subseteq> univ m - used m
        \<and> inv m' \<and> univ m' = univ m \<and> used m' = used m \<union> {a ..< a + unat c}"
    and scan_none: "inv m \<Longrightarrow> 0 < c \<Longrightarrow> \<forall>b. \<not> {b ..< b + unat c} \<subseteq> univ m - used m \<Longrightarrow>
      scan m c = Inr (EOF, m)"
    and clear_ok: "inv m \<Longrightarrow> i \<in> univ m \<Longrightarrow>
      \<exists>m'. clear m (of_nat i) = Inr m' \<and> inv m' \<and> univ m' = univ m \<and> used m' = used m - {i}"
begin

lemma clear_run:
  assumes "inv m" and "{a ..< a + n} \<subseteq> univ m"
  shows "\<exists>m'. foldE (\<lambda>i m. clear m (of_nat i)) [a ..< a + n] m = Inr m' \<and> inv m'
    \<and> univ m' = univ m \<and> used m' = used m - {a ..< a + n}"
  using assms
proof (induction n arbitrary: a m)
  case 0
  then show ?case by simp
next
  case (Suc n)
  have "a \<in> univ m" using Suc.prems by auto
  from clear_ok [OF Suc.prems(1) this] obtain m1 where m1: "clear m (of_nat a) = Inr m1" "inv m1"
      "univ m1 = univ m" "used m1 = used m - {a}" by blast
  have "{Suc a ..< Suc a + n} \<subseteq> univ m1" using Suc.prems(2) m1(3) by auto
  from Suc.IH [OF m1(2) this] obtain m2 where
      "foldE (\<lambda>i m. clear m (of_nat i)) [Suc a ..< Suc a + n] m1 = Inr m2" "inv m2"
      "univ m2 = univ m" "used m2 = used m1 - {Suc a ..< Suc a + n}" using m1(3) by auto
  moreover have "used m - {a} - {Suc a ..< Suc a + n} = used m - {a ..< a + Suc n}"
    by (auto simp: less_Suc_eq_le Suc_le_eq order.order_iff_strict)
  moreover have "[a ..< a + Suc n] = a # [Suc a ..< Suc a + n]" by (simp add: upt_conv_Cons)
  ultimately show ?case
    using m1(1,4) by (intro exI [of _ m2]) (simp del: upt_Suc)
qed

lemma scan_success:
  assumes "inv m" and "0 < c" and "scan m c = Inr (r, m')" and "r \<noteq> EOF"
  shows "{unat r ..< unat r + unat c} \<subseteq> univ m - used m \<and> inv m' \<and> univ m' = univ m
    \<and> used m' = used m \<union> {unat r ..< unat r + unat c}"
proof (cases "\<exists>b. {b ..< b + unat c} \<subseteq> univ m - used m")
  case True
  then obtain b where "{b ..< b + unat c} \<subseteq> univ m - used m" by blast
  from scan_ok [OF assms(1,2) this] obtain a m1 where a: "scan m c = Inr (of_nat a, m1)"
      "{a ..< a + unat c} \<subseteq> univ m - used m" "inv m1" "univ m1 = univ m"
      "used m1 = used m \<union> {a ..< a + unat c}" by blast
  have "0 < unat c" using assms(2) by (simp add: word_less_nat_alt)
  then have "a \<in> {a ..< a + unat c}" by simp
  then have "a \<in> univ m" using a(2) by blast
  then have "a < 2 ^ 32" using univ_small [OF assms(1)] by fastforce
  then have "unat r = a" "m1 = m'" using a(1) assms(3) by (auto simp: unat_of_nat)
  then show ?thesis using a by simp
next
  case False
  then show ?thesis using scan_none [OF assms(1,2)] assms(3,4) by simp
qed

lemma scan_then_clear:
  assumes "inv m" and "0 < c" and "scan m c = Inr (r, m')" and "r \<noteq> EOF"
  shows "\<exists>m''. foldE (\<lambda>i m. clear m (of_nat i)) [unat r ..< unat r + unat c] m' = Inr m''
    \<and> inv m'' \<and> univ m'' = univ m \<and> used m'' = used m"
proof -
  from scan_success [OF assms] have s: "{unat r ..< unat r + unat c} \<subseteq> univ m - used m" "inv m'"
    "univ m' = univ m" "used m' = used m \<union> {unat r ..< unat r + unat c}" by auto
  have "{unat r ..< unat r + unat c} \<subseteq> univ m'" using s(1,3) by auto
  moreover have "used m' - {unat r ..< unat r + unat c} = used m" using s(1,4) by auto
  ultimately show ?thesis using clear_run [OF s(2)] s(3) by metis
qed

lemma scans_disjoint:
  assumes "inv m" and "0 < c" and "scan m c = Inr (r, m')" and "r \<noteq> EOF"
    and "0 < d" and "scan m' d = Inr (s, m'')" and "s \<noteq> EOF"
  shows "{unat r ..< unat r + unat c} \<inter> {unat s ..< unat s + unat d} = {}"
proof -
  from scan_success [OF assms(1-4)] have i: "inv m'"
    and u: "used m' = used m \<union> {unat r ..< unat r + unat c}" by auto
  from scan_success [OF i assms(5-7)] u show ?thesis by blast
qed

end

definition bm_univ :: "bitmap_t \<Rightarrow> nat set" where
  "bm_univ m = {bm_first m ..< bm_first m + bm_size m}"

lemma bm_run_univ: "0 < n \<Longrightarrow> bm_run m a n \<longleftrightarrow> {a ..< a + n} \<subseteq> bm_univ m - bm_used m"
proof
  assume *: "{a ..< a + n} \<subseteq> bm_univ m - bm_used m" and "0 < n"
  then have "a \<in> {a ..< a + n}" "a + n - 1 \<in> {a ..< a + n}" by auto
  then have "a \<in> bm_univ m" "a + n - 1 \<in> bm_univ m" using * by blast+
  then show "bm_run m a n" using * by (auto simp: bm_run_def bm_univ_def)
qed (auto simp: bm_run_def bm_univ_def)

lemma bitmap_set_ok:
  assumes "bm_inv m" and "i \<in> bm_univ m"
  shows "\<exists>m'. bitmap_set m (of_nat i) v = Inr m' \<and> bm_inv m' \<and> bm_univ m' = bm_univ m
    \<and> bm_used m' = (if v then insert i (bm_used m) else bm_used m - {i})"
proof -
  have i: "i - bm_first m < bm_size m" "bm_first m \<le> i" using assms(2) by (auto simp: bm_univ_def)
  then have "bm_offset m + of_nat (i - bm_first m) = of_nat i"
    by (simp add: bm_first_def)
  then show ?thesis
    using bitmap_set_bit [OF assms(1) i(1), of v] bm_used_flip [OF assms(1) i(1), of v]
      assms(1) i(2)
    by (simp add: bm_univ_def)
qed

lemmas bitmap_clear_ok = bitmap_set_ok [where v = False, simplified]

interpretation ra: run_allocator bm_inv bm_univ bm_used bitmap_scan
  "\<lambda>m i. bitmap_set m i False"
proof (unfold_locales, goal_cases)
  case (1 m i)
  then show ?case by (auto simp: bm_inv_def bm_univ_def bm_first_def bm_size_def)
next
  case (2 m c b)
  then have pos: "0 < unat c" by (simp add: word_less_nat_alt)
  have b: "bm_run m b (unat c)" using 2 bm_run_univ [OF pos] by simp
  from bitmap_scan_cases [OF 2(1,2)] b obtain a m' where
      a: "bitmap_scan m c = Inr (of_nat a, m')" "bm_run m a (unat c)"
      "\<forall>b. b < a \<longrightarrow> \<not> bm_run m b (unat c)" "bm_inv m'"
      "bm_used m' = bm_used m \<union> {a ..< a + unat c}" "bm_first m' = bm_first m" "bm_size m' = bm_size m"
    by blast
  have "a \<le> b" using a(3) b by (meson not_le_imp_less)
  then show ?case using a bm_run_univ [OF pos, of m a]
    by (intro exI [of _ a] exI [of _ m']) (simp add: bm_univ_def)
next
  case (3 m c)
  then have pos: "0 < unat c" by (simp add: word_less_nat_alt)
  then show ?case using bitmap_scan_cases [OF 3(1,2)] 3(3) bm_run_univ [OF pos] by blast
next
  case (4 m i)
  then show ?case by (rule bitmap_clear_ok)
qed

section \<open>Property\<close>

text \<open>C5. \<open>bitmap_scan\<close> is a correct first-fit allocator: with a map whose buffer covers it, a
  scan for \<open>count\<close> indices never faults; it answers \<open>EOF\<close> and leaves the map alone exactly
  when no run of \<open>count\<close> free indices exists, and otherwise returns the least such run, marks
  those indices and no others, and clearing them one by one restores the set of used indices.\<close>

theorem bitmap_scan_first_fit:
  assumes "bm_inv m" and "0 < count"
  shows "case bitmap_scan m count of
      Inl e \<Rightarrow> False
    | Inr (r, m') \<Rightarrow>
        if r = EOF then m' = m \<and> (\<forall>a. \<not> bm_run m a (unat count))
        else bm_run m (unat r) (unat count) \<and> (\<forall>b < unat r. \<not> bm_run m b (unat count))
          \<and> bm_inv m' \<and> bm_used m' = bm_used m \<union> {unat r ..< unat r + unat count}
          \<and> (\<exists>m''. foldE (\<lambda>i m. bitmap_set m (of_nat i) False) [unat r ..< unat r + unat count] m' = Inr m''
               \<and> bm_used m'' = bm_used m)"
  using bitmap_scan_cases [OF assms]
proof (elim disjE exE conjE, goal_cases)
  case (1 a m')
  have "0 < unat count" using assms(2) by (simp add: word_less_nat_alt)
  then have "a < 2 ^ 32 - 1"
    using 1(2) assms(1) by (auto simp: bm_run_def bm_inv_def bm_first_def bm_size_def)
  then have a: "unat (of_nat a :: u32) = a" "(of_nat a :: u32) \<noteq> EOF"
    by (auto simp: unat_of_nat EOF_def word_unat_eq_iff unsigned_minus_1_eq_mask mask_eq_exp_minus_1)
  obtain m'' where "foldE (\<lambda>i m. bitmap_set m (of_nat i) False) [a ..< a + unat count] m' = Inr m''"
      "bm_used m'' = bm_used m"
    using ra.scan_then_clear [OF assms 1(1) a(2)] a(1) by auto
  then show ?case using 1 a by auto
qed simp

text \<open>A map of 16 indices from 256 on, of which 256, 257 and 259 are used: four free indices
  start at 260.\<close>

theorem bitmap_scan_first_fit_witness:
  "\<exists>m'. bitmap_scan (bitmap_make [11, 0] 2 256) 4 = Inr (260, m')
     \<and> bm_used m' = bm_used (bitmap_make [11, 0] 2 256) \<union> {260 ..< 264}"
proof -
  have "bitmap_scan (bitmap_make [11, 0] 2 256) 4 = Inr (260, bitmap_make [251, 0] 2 256)"
    by code_simp
  moreover have "bm_inv (bitmap_make [11, 0] 2 256)" by (simp add: bm_inv_def bitmap_make_def)
  ultimately show ?thesis
    using bitmap_scan_first_fit [of "bitmap_make [11, 0] 2 256" 4] by (simp add: EOF_def)
qed

end
