(* ===== verification/Cstring.thy ===== *)
theory Cstring
  imports Prelude
begin

text \<open>
  The string and memory functions of \<^verbatim>\<open>lib/string.c\<close> and the conversions of
  \<^verbatim>\<open>lib/stdlib.c\<close>. A pointer argument is the list of the bytes from the pointer to the end
  of the object it points into; walking the pointer is recursion on the list, and running off its
  end is \<open>OutOfBounds\<close>. The destination of a copy is returned with its new bytes. A pointer
  result is an offset from the argument, \<open>None\<close> for \<open>NULL\<close>. \<^verbatim>\<open>char\<close> is signed, as
  gcc has it on i386, which shows in comparisons only.
\<close>

section \<open>string.c\<close>

fun strcpy :: "u8 list \<Rightarrow> u8 list \<Rightarrow> u8 list res" where
  "strcpy (d # ds) (c # cs) =
     (if c = 0 then Inr (c # ds) else bindE (strcpy ds cs) (\<lambda>ds'. Inr (c # ds')))"
| "strcpy _ _ = Inl OutOfBounds"

text \<open>The loop of \<open>strncpy\<close>; the flag says that it returned on the end of the source.\<close>

fun strncpy_loop :: "nat \<Rightarrow> u8 list \<Rightarrow> u8 list \<Rightarrow> (bool \<times> u8 list) res" where
  "strncpy_loop 0 ds cs = Inr (False, ds)"
| "strncpy_loop (Suc n) (d # ds) (c # cs) =
     (if c = 0 then Inr (True, c # ds)
      else bindE (strncpy_loop n ds cs) (\<lambda>(b, ds'). Inr (b, c # ds')))"
| "strncpy_loop (Suc n) _ _ = Inl OutOfBounds"

definition strncpy :: "u8 list \<Rightarrow> u8 list \<Rightarrow> u32 \<Rightarrow> u8 list res" where
  "strncpy dest src count =
     bindE (strncpy_loop (unat count) dest src) (\<lambda>(returned, dest).
       if returned then Inr dest
       else wr dest (unat (count - 1)) 0)"

fun strcat :: "u8 list \<Rightarrow> u8 list \<Rightarrow> u8 list res" where
  "strcat [] cs = Inl OutOfBounds"
| "strcat (d # ds) cs =
     (if d \<noteq> 0 then bindE (strcat ds cs) (\<lambda>ds'. Inr (d # ds')) else strcpy (d # ds) cs)"

fun strlen :: "u8 list \<Rightarrow> nat res" where
  "strlen [] = Inl OutOfBounds"
| "strlen (c # cs) = (if c \<noteq> 0 then bindE (strlen cs) (\<lambda>n. Inr (Suc n)) else Inr 0)"

text \<open>\<^verbatim>\<open>*lhs < *rhs ? -1 : *lhs > *rhs\<close> on signed characters.\<close>

definition char_cmp :: "u8 \<Rightarrow> u8 \<Rightarrow> int" where
  "char_cmp l r = (if sint l < sint r then - 1 else if sint r < sint l then 1 else 0)"

fun strcmp :: "u8 list \<Rightarrow> u8 list \<Rightarrow> int res" where
  "strcmp (l # ls) (r # rs) =
     (if l = r \<and> l \<noteq> 0 \<and> r \<noteq> 0 then strcmp ls rs else Inr (char_cmp l r))"
| "strcmp _ _ = Inl OutOfBounds"

fun strchr :: "u8 list \<Rightarrow> u32 \<Rightarrow> nat option res" where
  "strchr [] ch = Inl OutOfBounds"
| "strchr (c # cs) ch =
     (if scast c = ch then Inr (Some 0)
      else if c = 0 then Inr None
      else bindE (strchr cs ch) (\<lambda>p. Inr (map_option Suc p)))"

fun strrchr_loop :: "u8 list \<Rightarrow> u32 \<Rightarrow> nat \<Rightarrow> nat option \<Rightarrow> nat option res" where
  "strrchr_loop [] ch i latest = Inl OutOfBounds"
| "strrchr_loop (c # cs) ch i latest =
     (let latest = (if scast c = ch then Some i else latest) in
      if c = 0 then Inr latest else strrchr_loop cs ch (Suc i) latest)"

definition strrchr :: "u8 list \<Rightarrow> u32 \<Rightarrow> nat option res" where
  "strrchr str ch = strrchr_loop str ch 0 None"

text \<open>
  \<^verbatim>\<open>while ((count-- > 0) && *lptr == *rptr)\<close>: when the count was zero the loop leaves it at
  \<open>2 ^ 32 - 1\<close>, and the code then compares the characters the pointers have reached.
\<close>

fun memcmp_loop :: "u8 list \<Rightarrow> u8 list \<Rightarrow> nat \<Rightarrow> int res" where
  "memcmp_loop ls rs 0 = bindE (rd ls 0) (\<lambda>l. bindE (rd rs 0) (\<lambda>r. Inr (char_cmp l r)))"
| "memcmp_loop ls rs (Suc count) =
     bindE (rd ls 0) (\<lambda>l. bindE (rd rs 0) (\<lambda>r.
       if l = r then memcmp_loop (tl ls) (tl rs) count
       else if count = 0 then Inr 0
       else Inr (char_cmp l r)))"

definition memcmp :: "u8 list \<Rightarrow> u8 list \<Rightarrow> u32 \<Rightarrow> int res" where
  "memcmp lhs rhs count = memcmp_loop lhs rhs (unat count)"

fun memset_loop :: "u8 list \<Rightarrow> u8 \<Rightarrow> nat \<Rightarrow> u8 list res" where
  "memset_loop ds ch 0 = Inr ds"
| "memset_loop [] ch (Suc count) = Inl OutOfBounds"
| "memset_loop (d # ds) ch (Suc count) = bindE (memset_loop ds ch count) (\<lambda>ds'. Inr (ch # ds'))"

definition memset :: "u8 list \<Rightarrow> u32 \<Rightarrow> u32 \<Rightarrow> u8 list res" where
  "memset dest ch count = memset_loop dest (ucast ch) (unat count)"

fun memcpy_loop :: "u8 list \<Rightarrow> u8 list \<Rightarrow> nat \<Rightarrow> u8 list res" where
  "memcpy_loop ds cs 0 = Inr ds"
| "memcpy_loop (d # ds) (c # cs) (Suc count) = bindE (memcpy_loop ds cs count) (\<lambda>ds'. Inr (c # ds'))"
| "memcpy_loop _ _ (Suc count) = Inl OutOfBounds"

definition memcpy :: "u8 list \<Rightarrow> u8 list \<Rightarrow> u32 \<Rightarrow> u8 list res" where
  "memcpy dest src count = memcpy_loop dest src (unat count)"

text \<open>\<open>memchr\<close> falls off its end when the character is not found: its value is undefined.\<close>

fun memchr_loop :: "u8 list \<Rightarrow> u32 \<Rightarrow> nat \<Rightarrow> nat res" where
  "memchr_loop cs ch 0 = Inl Undefined"
| "memchr_loop [] ch (Suc count) = Inl OutOfBounds"
| "memchr_loop (c # cs) ch (Suc count) =
     (if scast c = ch then Inr 0 else bindE (memchr_loop cs ch count) (\<lambda>n. Inr (Suc n)))"

definition memchr :: "u8 list \<Rightarrow> u32 \<Rightarrow> u32 \<Rightarrow> nat res" where
  "memchr str ch count = memchr_loop str ch (unat count)"

section \<open>stdlib.c\<close>

definition bcd_to_bin :: "u8 \<Rightarrow> u8" where
  "bcd_to_bin v = (v AND 15) + drop_bit 4 v * 10"

definition bin_to_bcd :: "u8 \<Rightarrow> u8" where
  "bin_to_bcd v = (v div 10) * 16 + (v mod 10)"

definition div_round_up :: "u32 \<Rightarrow> u32 \<Rightarrow> u32 res" where
  "div_round_up num sz =
     (if sz = 0 then Inl DivideError else Inr ((num + sz - 1) div sz))"

text \<open>The loop of \<open>atoi\<close>; an \<^verbatim>\<open>int\<close> that overflows is undefined in C.\<close>

definition int_ok :: "int \<Rightarrow> bool" where
  "int_ok i \<longleftrightarrow> - (2 ^ 31) \<le> i \<and> i < 2 ^ 31"

text \<open>The value of a signed expression, if the type can hold it.\<close>

definition cint :: "int \<Rightarrow> int res" where
  "cint i = (if int_ok i then Inr i else Inl Undefined)"

fun atoi_loop :: "u8 list \<Rightarrow> int \<Rightarrow> int res" where
  "atoi_loop [] result = Inl OutOfBounds"
| "atoi_loop (c # cs) result =
     (if c = 0 then Inr result
      else let result' = result * 10 + (sint c - 48) in
           if int_ok (result * 10) \<and> int_ok result' then atoi_loop cs result' else Inl Undefined)"

text \<open>\<open>NULL\<close> is \<open>None\<close>. The \<^verbatim>\<open>bool sign\<close> the code sets on a leading \<^verbatim>\<open>-\<close> is never read.\<close>

definition atoi :: "u8 list option \<Rightarrow> int res" where
  "atoi str =
     (case str of None \<Rightarrow> Inr 0
      | Some s \<Rightarrow> bindE (rd s 0) (\<lambda>c. atoi_loop (if c = 45 then tl s else s) 0))"

section \<open>What they compute\<close>

text \<open>The bytes of a C string, and the object that holds it.\<close>

definition cstr :: "u8 list \<Rightarrow> u8 list \<Rightarrow> bool" where
  "cstr s xs \<longleftrightarrow> 0 \<notin> set xs \<and> (\<exists>rest. s = xs @ 0 # rest)"

lemma strlen_cstr: "0 \<notin> set xs \<Longrightarrow> strlen (xs @ 0 # rest) = Inr (length xs)"
  by (induction xs) auto

lemma strcpy_cstr:
  "0 \<notin> set xs \<Longrightarrow> length xs < length ds \<Longrightarrow>
   strcpy ds (xs @ 0 # rest) = Inr (xs @ 0 # drop (Suc (length xs)) ds)"
proof (induction xs arbitrary: ds)
  case Nil
  then show ?case by (cases ds) auto
next
  case (Cons x xs)
  then show ?case by (cases ds) auto
qed

lemma strcpy_short:
  "0 \<notin> set xs \<Longrightarrow> length ds \<le> length xs \<Longrightarrow> strcpy ds (xs @ 0 # rest) = Inl OutOfBounds"
proof (induction xs arbitrary: ds)
  case Nil
  then show ?case by simp
next
  case (Cons x xs)
  then show ?case by (cases ds) auto
qed

lemma strcat_cases:
  assumes "0 \<notin> set xs" and "0 \<notin> set ys"
  shows "strcat (xs @ 0 # ds) (ys @ 0 # rest) =
    (if length ys \<le> length ds then Inr (xs @ ys @ 0 # drop (length ys) ds) else Inl OutOfBounds)"
  using assms strcpy_cstr [of ys "0 # ds" rest] strcpy_short [of ys "0 # ds" rest]
  by (induction xs) auto

lemma sint_eq_iff: "sint (l :: u8) = sint r \<longleftrightarrow> l = r"
  by (metis signed_word_eqI)

lemma char_cmp_eq_0: "char_cmp l r = 0 \<longleftrightarrow> l = r"
proof -
  have "char_cmp l r = 0 \<longleftrightarrow> \<not> sint l < sint r \<and> \<not> sint r < sint l"
    by (simp add: char_cmp_def)
  also have "\<dots> \<longleftrightarrow> sint l = sint r" by linarith
  also have "\<dots> \<longleftrightarrow> l = r" by (rule sint_eq_iff)
  finally show ?thesis .
qed

lemma strcmp_eq_0:
  "0 \<notin> set xs \<Longrightarrow> 0 \<notin> set ys \<Longrightarrow>
   \<exists>v. strcmp (xs @ 0 # r) (ys @ 0 # s) = Inr v \<and> (v = 0 \<longleftrightarrow> xs = ys) \<and> v \<in> {- 1, 0, 1}"
proof (induction xs arbitrary: ys)
  case Nil
  then show ?case
    using char_cmp_eq_0 [of 0 "hd (ys @ 0 # s)"] by (cases ys) (auto simp: char_cmp_def)
next
  case (Cons x xs)
  then show ?case
  proof (cases ys)
    case Nil
    then show ?thesis using Cons.prems char_cmp_eq_0 [of x 0] by (auto simp: char_cmp_def)
  next
    case (Cons y ys')
    then show ?thesis
      using Cons.IH [of ys'] Cons.prems char_cmp_eq_0 [of x y] by (auto simp: char_cmp_def)
  qed
qed

lemma strncpy_loop_cstr:
  "0 \<notin> set xs \<Longrightarrow> n \<le> length ds \<Longrightarrow>
   strncpy_loop n ds (xs @ 0 # rest) =
     Inr (if length xs < n then (True, xs @ 0 # drop (Suc (length xs)) ds)
          else (False, take n xs @ drop n ds))"
proof (induction xs arbitrary: n ds)
  case Nil
  then show ?case by (cases n; cases ds) auto
next
  case (Cons x xs)
  then show ?case by (cases n; cases ds) auto
qed

text \<open>A bounded copy truncates to \<open>count - 1\<close> characters and always ends the string.\<close>

lemma strncpy_cstr:
  assumes "0 \<notin> set xs" and "0 < count" and "unat count \<le> length ds"
  shows "\<exists>rest'. strncpy ds (xs @ 0 # rest) count = Inr (take (unat count - 1) xs @ 0 # rest')
    \<and> length (take (unat count - 1) xs @ 0 # rest') = length ds"
proof -
  have c: "unat (count - 1) = unat count - 1" "0 < unat count"
    using assms(2) unat_minus_one [of count] unat_gt_0 [of count] by (auto simp: word_gt_0)
  show ?thesis
  proof (cases "length xs < unat count")
    case True
    then show ?thesis
      using strncpy_loop_cstr [OF assms(1,3)] c assms(3) by (simp add: strncpy_def)
  next
    case False
    let ?n = "unat count"
    have "(take ?n xs @ drop ?n ds)[?n - 1 := 0] = take (?n - 1) xs @ 0 # drop ?n ds"
      using False c(2) by (auto simp: list_eq_iff_nth_eq nth_append nth_list_update nth_Cons')
    then show ?thesis
      using strncpy_loop_cstr [OF assms(1,3)] c assms(3) False by (simp add: strncpy_def)
  qed
qed

lemma strncpy_zero: "strncpy ds cs 0 = wr ds (2 ^ 32 - 1) 0"
  by (simp add: strncpy_def unsigned_minus_1_eq_mask mask_eq_exp_minus_1)

text \<open>The exact value of \<open>memcmp\<close>: the first difference decides, unless it is at the last byte
  compared, which counts as equal; arrays that agree are decided by the byte after them.\<close>

lemma memcmp_loop_differ:
  assumes "i < n" and "take i ls = take i rs" and "ls ! i \<noteq> rs ! i"
    and "i < length ls" and "i < length rs"
  shows "memcmp_loop ls rs n = Inr (if i = n - 1 then 0 else char_cmp (ls ! i) (rs ! i))"
  using assms
proof (induction i arbitrary: n ls rs)
  case 0
  then show ?case by (cases n) auto
next
  case (Suc i)
  then obtain l ls' r rs' m where c: "ls = l # ls'" "rs = r # rs'" "n = Suc m"
    by (cases ls; cases rs; cases n) auto
  then show ?case using Suc.IH [of m ls' rs'] Suc.prems by auto
qed

lemma memcmp_loop_agree:
  assumes "n < length ls" and "n < length rs" and "take n ls = take n rs"
  shows "memcmp_loop ls rs n = Inr (char_cmp (ls ! n) (rs ! n))"
  using assms
proof (induction n arbitrary: ls rs)
  case 0
  then show ?case by simp
next
  case (Suc n)
  then obtain l ls' r rs' where c: "ls = l # ls'" "rs = r # rs'" by (cases ls; cases rs) auto
  then show ?case using Suc.IH [of ls' rs'] Suc.prems by auto
qed

lemma memcmp_loop_end:
  "length ls = n \<Longrightarrow> memcmp_loop ls ls n = Inl OutOfBounds"
proof (induction n arbitrary: ls)
  case 0
  then show ?case by (simp add: rd_def)
next
  case (Suc n)
  then show ?case by (cases ls) auto
qed

lemma memset_bytes:
  "n \<le> length ds \<Longrightarrow> memset_loop ds c n = Inr (replicate n c @ drop n ds)"
proof (induction n arbitrary: ds)
  case 0
  then show ?case by simp
next
  case (Suc n)
  then show ?case by (cases ds) auto
qed

lemma memcpy_bytes:
  "n \<le> length ds \<Longrightarrow> n \<le> length cs \<Longrightarrow> memcpy_loop ds cs n = Inr (take n cs @ drop n ds)"
proof (induction n arbitrary: ds cs)
  case 0
  then show ?case by simp
next
  case (Suc n)
  then show ?case by (cases ds; cases cs) auto
qed

lemma sint_scast_char: "sint (scast (c :: u8) :: u32) = sint c"
  by (rule sint_up_scast) (simp add: is_up)

lemma scast_char_inj: "(scast (c :: u8) :: u32) = scast d \<longleftrightarrow> c = d"
  by (metis sint_scast_char word_eq_iff_signed)

lemma strchr_cstr:
  "0 \<notin> set xs \<Longrightarrow> strchr (xs @ 0 # rest) (scast c) =
     Inr (if c \<in> set xs \<or> c = 0 then Some (length (takeWhile (\<lambda>d. d \<noteq> c) xs)) else None)"
  using scast_char_inj [of 0 c] by (induction xs) (auto simp: scast_char_inj)

subsection \<open>Numbers\<close>

text \<open>The characters of a number in decimal, most significant first.\<close>

definition is_digit :: "u8 \<Rightarrow> bool" where
  "is_digit c \<longleftrightarrow> 48 \<le> sint c \<and> sint c \<le> 57"

fun digits_value :: "nat \<Rightarrow> u8 list \<Rightarrow> nat" where
  "digits_value v [] = v"
| "digits_value v (c # cs) = digits_value (v * 10 + (unat c - 48)) cs"

lemma digit_sint: "is_digit c \<Longrightarrow> sint c = int (unat c)"
  by (simp add: is_digit_def uint_sint [of c] take_bit_int_eq_self flip: uint_nat)

lemma digits_value_mono: "v \<le> digits_value v cs"
proof (induction cs arbitrary: v)
  case Nil
  then show ?case by simp
next
  case (Cons c cs)
  have "v \<le> v * 10 + (unat c - 48)" by simp
  also have "\<dots> \<le> digits_value (v * 10 + (unat c - 48)) cs" by (rule Cons.IH)
  finally show ?case by simp
qed

lemma atoi_loop_digits:
  assumes "\<forall>c \<in> set cs. is_digit c" and "digits_value v cs < 2 ^ 31"
  shows "atoi_loop (cs @ 0 # rest) (int v) = Inr (int (digits_value v cs))"
  using assms
proof (induction cs arbitrary: v)
  case Nil
  then show ?case by simp
next
  case (Cons c cs)
  let ?v = "v * 10 + (unat c - 48)"
  have c: "is_digit c" "c \<noteq> 0" using Cons.prems(1) by (auto simp: is_digit_def)
  have r: "int v * 10 + (sint c - 48) = int ?v"
  proof -
    have "48 \<le> unat c" using c(1) digit_sint [OF c(1)] unfolding is_digit_def by linarith
    then show ?thesis using digit_sint [OF c(1)] by (simp add: of_nat_diff)
  qed
  have "?v < 2 ^ 31" using Cons.prems(2) digits_value_mono [of ?v cs] by simp
  then have "int_ok (int v * 10)" "int_ok (int ?v)" by (auto simp: int_ok_def)
  then show ?case using Cons.IH [of ?v] Cons.prems c(2) r by (simp add: Let_def)
qed

lemma atoi_digits:
  assumes "\<forall>c \<in> set cs. is_digit c" and "digits_value 0 cs < 2 ^ 31"
  shows "atoi (Some (cs @ 0 # rest)) = Inr (int (digits_value 0 cs))"
    and "atoi (Some (45 # cs @ 0 # rest)) = Inr (int (digits_value 0 cs))"
proof -
  have "cs \<noteq> [] \<Longrightarrow> hd cs \<noteq> 45" using assms(1) by (cases cs) (auto simp: is_digit_def)
  then show "atoi (Some (cs @ 0 # rest)) = Inr (int (digits_value 0 cs))"
    using atoi_loop_digits [OF assms, of rest] by (cases cs) (auto simp: atoi_def)
  show "atoi (Some (45 # cs @ 0 # rest)) = Inr (int (digits_value 0 cs))"
    using atoi_loop_digits [OF assms, of rest] by (simp add: atoi_def)
qed

lemma cint_in: "- 2147483648 \<le> i \<Longrightarrow> i < 2147483648 \<Longrightarrow> cint i = Inr i"
  by (simp add: cint_def int_ok_def)

lemma below_100:
  assumes "list_all (\<lambda>n. P (of_nat n :: u8)) [0..<100]" and "v < 100"
  shows "P v"
proof -
  have "unat v < 100" using assms(2) by (simp add: word_less_nat_alt)
  then have "unat v \<in> set [0..<100]" by (simp only: set_upt atLeastLessThan_iff) simp
  then have "P (of_nat (unat v))" using assms(1) unfolding list_all_iff by (rule bspec [rotated])
  then show ?thesis by simp
qed

lemma bcd_round_trip: "v < 100 \<Longrightarrow> bcd_to_bin (bin_to_bcd v) = v"
proof (rule below_100)
  show "list_all (\<lambda>n. bcd_to_bin (bin_to_bcd (of_nat n)) = of_nat n) [0..<100]" by code_simp
qed

lemma unat_bin_to_bcd: "v < 100 \<Longrightarrow> unat (bin_to_bcd v) = unat v div 10 * 16 + unat v mod 10"
proof (rule below_100)
  show "list_all (\<lambda>n. unat (bin_to_bcd (of_nat n)) = unat (of_nat n :: u8) div 10 * 16 + unat (of_nat n :: u8) mod 10) [0..<100]"
    by code_simp
qed

text \<open>\<open>div_round_up\<close> is the least number of units of \<open>sz\<close> that hold \<open>num\<close>, as long as the
  sum does not wrap.\<close>

lemma div_round_up_ceil:
  assumes "sz \<noteq> 0" and "unat num + unat sz \<le> 2 ^ 32"
  shows "\<exists>q. div_round_up num sz = Inr q \<and> unat q = (unat num + unat sz - 1) div unat sz"
proof -
  have pos: "0 < unat sz" using assms(1) by (simp add: unat_gt_0)
  have "unat (num + (sz - 1)) = unat num + (unat sz - 1)"
    using assms pos unat_minus_one [OF assms(1)] by (subst unat_add_small) auto
  then have "unat (num + sz - 1) = unat num + unat sz - 1" using pos by (simp add: add_diff_eq)
  then show ?thesis using assms(1) by (simp add: div_round_up_def unat_div)
qed

section \<open>Properties\<close>



text \<open>C7. \<open>memcmp\<close> does not compare the arrays it is given: arrays that differ in their last
  byte only compare as equal, and arrays that are equal are decided by the byte that follows them
  (an access outside of both when there is none). Only a difference before the last byte is
  reported as it should be.\<close>

theorem memcmp_last_byte:
  assumes "length xs < 2 ^ 32 - 1" and "a \<noteq> b"
  shows "memcmp (xs @ a # ls) (xs @ b # rs) (of_nat (length xs + 1)) = Inr 0
    \<and> memcmp (xs @ a # ls) (xs @ b # rs) (of_nat (length xs)) = Inr (char_cmp a b)
    \<and> char_cmp a b \<noteq> 0
    \<and> memcmp xs xs (of_nat (length xs)) = Inl OutOfBounds
    \<and> (ls \<noteq> [] \<and> rs \<noteq> [] \<and> length xs + 2 < 2 ^ 32 \<longrightarrow>
        memcmp (xs @ a # ls) (xs @ b # rs) (of_nat (length xs + 2)) = Inr (char_cmp a b))"
proof -
  have n: "unat (of_nat (length xs) :: u32) = length xs"
    and n1: "unat (of_nat (length xs + 1) :: u32) = length xs + 1"
    using assms(1) by (rule_tac [!] unat_of_nat_small) simp_all
  have n2: "length xs + 2 < 2 ^ 32 \<Longrightarrow> unat (of_nat (length xs + 2) :: u32) = length xs + 2"
    by (rule unat_of_nat_small) simp
  show ?thesis
    unfolding memcmp_def n n1
    using memcmp_loop_differ [of "length xs" _ "xs @ a # ls" "xs @ b # rs"] assms(2) n2
      memcmp_loop_agree [of "length xs" "xs @ a # ls" "xs @ b # rs"]
      memcmp_loop_end [of xs "length xs"] char_cmp_eq_0 [of a b]
    by (simp del: memcmp_loop.simps)
qed

theorem memcmp_last_byte_witness:
  "memcmp [46, 47, 97] [46, 46, 97] 2 = Inr 0 \<and> memcmp [46, 47] [46, 47] 2 = Inl OutOfBounds"
  using memcmp_last_byte [of "[46]" 47 46 "[97]" "[97]"] memcmp_last_byte [of "[46, 47]" 0 1]
  by simp

end
