(* ===== verification/Format.thy ===== *)
theory Format
  imports Cstring
begin

text \<open>
  The formatted output of \<^verbatim>\<open>lib/vsprintf.c\<close>. The output pointer is the list of the bytes
  written so far, the format string a C string whose tail is what is left to scan, and the
  variable arguments a list: a 32-bit number (an integer, a character or an address) or a C
  string. The flags are the code's bit mask; field widths and precisions are unbounded integers
  (a C \<^verbatim>\<open>int\<close> whose overflow is undefined).
\<close>

section \<open>number\<close>

definition ZEROPAD :: u32 where "ZEROPAD = 1"
definition SIGN :: u32 where "SIGN = 2"
definition PLUS :: u32 where "PLUS = 4"
definition SPACE :: u32 where "SPACE = 8"
definition LEFT :: u32 where "LEFT = 16"
definition SPECIAL :: u32 where "SPECIAL = 32"
definition SMALL :: u32 where "SMALL = 64"

definition flag :: "u32 \<Rightarrow> u32 \<Rightarrow> bool" where
  "flag flags m \<longleftrightarrow> flags AND m \<noteq> 0"

text \<open>\<^verbatim>\<open>"0123456789ABC..."\<close> or its lower-case variant, with the terminator.\<close>

definition digits :: "bool \<Rightarrow> u8 list" where
  "digits small = map of_nat ([48..<58] @ (if small then [97..<123] else [65..<91])) @ [0]"

text \<open>The conversion loop: \<open>tmp\<close> collects the digits, least significant first. The bases below 2
  have been refused before it is entered.\<close>

function tmp_loop :: "u8 list \<Rightarrow> u32 \<Rightarrow> u32 \<Rightarrow> u8 list \<Rightarrow> u8 list res" where
  "tmp_loop ds base num tmp =
     (if num = 0 \<or> base < 2 then Inr tmp
      else bindE (rd ds (unat (num mod base))) (\<lambda>c.
           if length tmp < 36 then tmp_loop ds base (num div base) (tmp @ [c])
           else Inl OutOfBounds))"
  by pat_completeness auto
termination
proof (relation "measure (\<lambda>(ds, base, num, tmp). unat num)", goal_cases)
  case 1
  then show ?case by simp
next
  case (2 ds base num tmp x)
  then have "0 < unat num" "1 < unat base" by (auto simp: unat_gt_0 word_less_nat_alt)
  then show ?case by (simp add: unat_div)
qed

text \<open>\<^verbatim>\<open>while (size-- > 0) *str++ = c;\<close> with what it leaves in \<open>size\<close>.\<close>

definition pad :: "int \<Rightarrow> u8 \<Rightarrow> u8 list" where
  "pad sz c = replicate (nat sz) c"

definition padded :: "int \<Rightarrow> int" where
  "padded sz = min sz 0 - 1"

text \<open>From the comment "the conversion result is formed from here on": blanks, the sign, the
  prefix, the fill character, the zeros of the precision, the digits, and blanks again.\<close>

definition number_out :: "int \<Rightarrow> int \<Rightarrow> u32 \<Rightarrow> u8 \<Rightarrow> u8 \<Rightarrow> u8 list \<Rightarrow> u8 list \<Rightarrow> u8 list" where
  "number_out sz precision flags c sign prefix tmp =
     (let i = int (length tmp);
          precision = (if i > precision then i else precision);
          sz = sz - precision;
          blanks = \<not> flag flags (ZEROPAD + LEFT);
          lead = (if blanks then pad sz 32 else []);
          sz = (if blanks then padded sz else sz);
          fill = (if \<not> flag flags LEFT then pad sz c else []);
          sz = (if \<not> flag flags LEFT then padded sz else sz) in
      lead @ (if sign \<noteq> 0 then [sign] else []) @ prefix @ fill
        @ pad (precision - i) 48 @ rev tmp @ pad sz 32)"

text \<open>The bytes \<open>number\<close> writes; \<open>None\<close> is the null pointer it returns for a bad base. The
  number is \<^verbatim>\<open>unsigned long\<close>, as the test of the sign sees it.\<close>

definition number :: "u32 \<Rightarrow> int \<Rightarrow> int \<Rightarrow> int \<Rightarrow> u32 \<Rightarrow> u8 list option res" where
  "number num base sz precision flags =
     (let ds = digits (flag flags SMALL);
          flags = (if flag flags LEFT then flags AND NOT ZEROPAD else flags) in
      if base < 2 \<or> base > 36 then Inr None
      else
        let c = (if flag flags ZEROPAD then 48 else 32);
            negative = flag flags SIGN \<and> num < 0;
            sign = (if negative then 45 else if flag flags PLUS then 43
                    else if flag flags SPACE then 32 else 0);
            num = (if negative then - num else num);
            sz = (if sign \<noteq> 0 then sz - 1 else sz);
            sz = (if flag flags SPECIAL then (if base = 16 then sz - 2 else if base = 8 then sz - 1 else sz)
                  else sz) in
        bindE (if num = 0 then Inr [48] else tmp_loop ds (word_of_int base) num []) (\<lambda>tmp.
        bindE (if flag flags SPECIAL
               then (if base = 8 then Inr [48]
                     else if base = 16 then bindE (rd ds 33) (\<lambda>x. Inr [48, x]) else Inr [])
               else Inr []) (\<lambda>prefix.
        Inr (Some (number_out sz precision flags c sign prefix tmp)))))"

section \<open>vsprintf\<close>

datatype fmt_arg = ANum u32 | AStr "u8 list"

text \<open>The output so far, the arguments left, and the stores made for \<^verbatim>\<open>%n\<close> (address and
  number of characters).\<close>

record fmt_state =
  f_out :: "u8 list"
  f_args :: "fmt_arg list"
  f_stores :: "(u32 \<times> nat) list"

definition emit :: "u8 list \<Rightarrow> fmt_state \<Rightarrow> fmt_state" where
  "emit cs st = st\<lparr>f_out := f_out st @ cs\<rparr>"

definition arg_num :: "fmt_state \<Rightarrow> (u32 \<times> fmt_state) res" where
  "arg_num st = (case f_args st of ANum v # as \<Rightarrow> Inr (v, st\<lparr>f_args := as\<rparr>) | _ \<Rightarrow> Inl Undefined)"

definition arg_str :: "fmt_state \<Rightarrow> (u8 list \<times> fmt_state) res" where
  "arg_str st = (case f_args st of AStr s # as \<Rightarrow> Inr (s, st\<lparr>f_args := as\<rparr>) | _ \<Rightarrow> Inl Undefined)"

fun skip_atoi :: "u8 list \<Rightarrow> int \<Rightarrow> (int \<times> u8 list) res" where
  "skip_atoi [] i = Inl OutOfBounds"
| "skip_atoi (c # cs) i =
     (if is_digit c then skip_atoi cs (i * 10 + sint c - 48) else Inr (i, c # cs))"

text \<open>The flags after a \<^verbatim>\<open>%\<close>.\<close>

fun parse_flags :: "u8 list \<Rightarrow> u32 \<Rightarrow> (u32 \<times> u8 list) res" where
  "parse_flags [] flags = Inl OutOfBounds"
| "parse_flags (c # cs) flags =
     (if c = 45 then parse_flags cs (flags OR LEFT)
      else if c = 43 then parse_flags cs (flags OR PLUS)
      else if c = 32 then parse_flags cs (flags OR SPACE)
      else if c = 35 then parse_flags cs (flags OR SPECIAL)
      else if c = 48 then parse_flags cs (flags OR ZEROPAD)
      else Inr (flags, c # cs))"

definition parse_width :: "u8 list \<Rightarrow> u32 \<Rightarrow> fmt_state \<Rightarrow> (int \<times> u32 \<times> u8 list \<times> fmt_state) res" where
  "parse_width fmt flags st =
     bindE (rd fmt 0) (\<lambda>c.
       if is_digit c then bindE (skip_atoi fmt 0) (\<lambda>(w, fmt). Inr (w, flags, fmt, st))
       else if c = 42 then
         bindE (arg_num st) (\<lambda>(v, st).
           if sint v < 0 then Inr (- sint v, flags OR LEFT, tl fmt, st)
           else Inr (sint v, flags, tl fmt, st))
       else Inr (- 1, flags, fmt, st))"

text \<open>A precision \<^verbatim>\<open>*\<close> takes an argument, and the scan stays at the \<^verbatim>\<open>*\<close>.\<close>

definition parse_precision :: "u8 list \<Rightarrow> fmt_state \<Rightarrow> (int \<times> u8 list \<times> fmt_state) res" where
  "parse_precision fmt st =
     bindE (rd fmt 0) (\<lambda>c.
       if c \<noteq> 46 then Inr (- 1, fmt, st)
       else bindE (rd (tl fmt) 0) (\<lambda>d.
         bindE (if is_digit d then bindE (skip_atoi (tl fmt) 0) (\<lambda>(p, fmt). Inr (p, fmt, st))
                else if d = 42 then bindE (arg_num st) (\<lambda>(v, st). Inr (sint v, tl fmt, st))
                else Inr (- 1, tl fmt, st)) (\<lambda>(p, fmt, st).
         Inr (if p < 0 then 0 else p, fmt, st))))"

definition skip_qualifier :: "u8 list \<Rightarrow> u8 list res" where
  "skip_qualifier fmt = bindE (rd fmt 0) (\<lambda>c. Inr (if c \<in> {104, 108, 76} then tl fmt else fmt))"

definition put_number :: "u32 \<Rightarrow> int \<Rightarrow> int \<Rightarrow> int \<Rightarrow> u32 \<Rightarrow> fmt_state \<Rightarrow> fmt_state res" where
  "put_number num base w p flags st =
     bindE (number num base w p flags) (\<lambda>r. case r of None \<Rightarrow> Inl NullDeref | Some cs \<Rightarrow> Inr (emit cs st))"

text \<open>\<^verbatim>\<open>while (--field_width > 0)\<close> leaves \<open>min (w - 1) 0\<close>; \<^verbatim>\<open>while (len < field_width--)\<close>
  leaves \<open>min w len - 1\<close>.\<close>

definition conv_char :: "int \<Rightarrow> u32 \<Rightarrow> fmt_state \<Rightarrow> fmt_state res" where
  "conv_char w flags st =
     (let lead = (if flag flags LEFT then [] else pad (w - 1) 32);
          w = (if flag flags LEFT then w else min (w - 1) 0) in
      bindE (arg_num st) (\<lambda>(v, st).
      Inr (emit (lead @ [ucast v] @ pad (w - 1) 32) st)))"

definition conv_str :: "int \<Rightarrow> int \<Rightarrow> u32 \<Rightarrow> fmt_state \<Rightarrow> fmt_state res" where
  "conv_str w p flags st =
     bindE (arg_str st) (\<lambda>(s, st).
     bindE (strlen s) (\<lambda>l.
     let len = (if p < 0 then int l else if int l > p then p else int l);
         lead = (if flag flags LEFT then [] else pad (w - len) 32);
         w = (if flag flags LEFT then w else min w len - 1) in
     Inr (emit (lead @ take (nat len) s @ pad (w - len) 32) st)))"

text \<open>The conversion character and what is left of the format after it.\<close>

definition convert :: "u8 list \<Rightarrow> int \<Rightarrow> int \<Rightarrow> u32 \<Rightarrow> fmt_state \<Rightarrow> (u8 list \<times> fmt_state) res" where
  "convert fmt w p flags st =
     bindE (rd fmt 0) (\<lambda>c.
       if c = 99 then bindE (conv_char w flags st) (\<lambda>st. Inr (tl fmt, st))
       else if c = 115 then bindE (conv_str w p flags st) (\<lambda>st. Inr (tl fmt, st))
       else if c = 111 then
         bindE (arg_num st) (\<lambda>(v, st). bindE (put_number v 8 w p flags st) (\<lambda>st. Inr (tl fmt, st)))
       else if c = 112 then
         let (w, flags) = (if w = - 1 then (8, flags OR ZEROPAD) else (w, flags)) in
         bindE (arg_num st) (\<lambda>(v, st). bindE (put_number v 16 w p flags st) (\<lambda>st. Inr (tl fmt, st)))
       else if c = 120 \<or> c = 88 then
         let flags = (if c = 120 then flags OR SMALL else flags) in
         bindE (arg_num st) (\<lambda>(v, st). bindE (put_number v 16 w p flags st) (\<lambda>st. Inr (tl fmt, st)))
       else if c = 100 \<or> c = 105 \<or> c = 117 then
         let flags = (if c = 117 then flags else flags OR SIGN) in
         bindE (arg_num st) (\<lambda>(v, st). bindE (put_number v 10 w p flags st) (\<lambda>st. Inr (tl fmt, st)))
       else if c = 110 then
         bindE (arg_num st) (\<lambda>(ip, st).
           Inr (tl fmt, st\<lparr>f_stores := f_stores st @ [(ip, length (f_out st))]\<rparr>))
       else
         let st = (if c \<noteq> 37 then emit [37] st else st) in
         if c \<noteq> 0 then Inr (tl fmt, emit [c] st) else Inr (fmt, st))"

text \<open>One conversion, from the character after its \<^verbatim>\<open>%\<close> on.\<close>

definition directive :: "u8 list \<Rightarrow> fmt_state \<Rightarrow> (u8 list \<times> fmt_state) res" where
  "directive fmt st =
     bindE (parse_flags fmt 0) (\<lambda>(flags, fmt).
     bindE (parse_width fmt flags st) (\<lambda>(w, flags, fmt, st).
     bindE (parse_precision fmt st) (\<lambda>(p, fmt, st).
     bindE (skip_qualifier fmt) (\<lambda>fmt.
     convert fmt w p flags st))))"

lemma skip_atoi_length: "skip_atoi cs i = Inr (v, cs') \<Longrightarrow> length cs' \<le> length cs"
  by (induction cs i rule: skip_atoi.induct) (fastforce split: if_splits)+

lemma parse_flags_length: "parse_flags cs f = Inr (v, cs') \<Longrightarrow> length cs' \<le> length cs"
proof (induction cs arbitrary: f)
  case Nil
  then show ?case by simp
next
  case (Cons c cs)
  have "parse_flags cs g = Inr (v, cs') \<Longrightarrow> length cs' \<le> length (c # cs)" for g
    using Cons.IH by fastforce
  then show ?case using Cons.prems by (simp only: parse_flags.simps split: if_splits) auto
qed

lemma parse_width_length: "parse_width cs f st = Inr (w, f', cs', st') \<Longrightarrow> length cs' \<le> length cs"
  by (auto simp: parse_width_def res_simps split: if_splits dest: skip_atoi_length)

lemma parse_precision_length: "parse_precision cs st = Inr (w, cs', st') \<Longrightarrow> length cs' \<le> length cs"
  by (fastforce simp: parse_precision_def res_simps split: if_splits dest: skip_atoi_length)

lemma convert_length: "convert cs w p f st = Inr (cs', st') \<Longrightarrow> length cs' \<le> length cs"
proof -
  have "all_res (\<lambda>(cs', st'). length cs' \<le> length cs) (convert cs w p f st)"
    unfolding convert_def Let_def by (intro all_resI) simp_all
  then show "convert cs w p f st = Inr (cs', st') \<Longrightarrow> length cs' \<le> length cs"
    by (auto dest: all_resD)
qed

lemma directive_length:
  assumes "directive cs st = Inr (cs', st')"
  shows "length cs' \<le> length cs"
proof -
  from assms obtain f cs1 w f' cs2 st2 p cs3 st3 cs4 where
    "parse_flags cs 0 = Inr (f, cs1)" "parse_width cs1 f st = Inr (w, f', cs2, st2)"
    "parse_precision cs2 st2 = Inr (p, cs3, st3)" "skip_qualifier cs3 = Inr cs4"
    "convert cs4 w p f' st3 = Inr (cs', st')"
    by (auto simp: directive_def res_simps)
  moreover have "length cs4 \<le> length cs3"
    using calculation(4) by (auto simp: skip_qualifier_def res_simps)
  ultimately show ?thesis
    by (fastforce dest: parse_flags_length parse_width_length parse_precision_length convert_length)
qed

function vsprintf_loop :: "u8 list \<Rightarrow> fmt_state \<Rightarrow> fmt_state res" where
  "vsprintf_loop [] st = Inl OutOfBounds"
| "vsprintf_loop (c # fmt) st =
     (if c = 0 then Inr st
      else if c \<noteq> 37 then vsprintf_loop fmt (emit [c] st)
      else bindE (directive fmt st) (\<lambda>(fmt, st). vsprintf_loop fmt st))"
  by pat_completeness auto
termination
proof (relation "measure (\<lambda>(fmt, st). length fmt)", goal_cases)
  case (3 c fmt st x fmt' st')
  then have "directive fmt st = Inr (fmt', st')" by simp
  then show ?case using directive_length [of fmt st fmt' st'] 3 by auto
qed simp_all

text \<open>\<open>buf\<close> is the caller's buffer: the writes go from its start on, so one that leaves it happens
  exactly when the output with its terminator is longer than it. The length is asserted after the
  fact.\<close>

definition vsprintf :: "u8 list \<Rightarrow> u8 list \<Rightarrow> fmt_arg list \<Rightarrow> (nat \<times> u8 list \<times> (u32 \<times> nat) list) res" where
  "vsprintf buf fmt args =
     bindE (vsprintf_loop fmt \<lparr>f_out = [], f_args = args, f_stores = []\<rparr>) (\<lambda>st.
     let i = length (f_out st) in
     if length buf < Suc i then Inl OutOfBounds
     else kassert (i < 1024) (Inr (i, f_out st @ 0 # drop (Suc i) buf, f_stores st)))"

definition sprintf :: "u8 list \<Rightarrow> u8 list \<Rightarrow> fmt_arg list \<Rightarrow> (nat \<times> u8 list \<times> (u32 \<times> nat) list) res" where
  "sprintf buf fmt args = vsprintf buf fmt args"

section \<open>What number writes\<close>

subsection \<open>Flags as bits\<close>

lemma flag_bits [simp]:
  "flag f ZEROPAD \<longleftrightarrow> bit f 0" "flag f SIGN \<longleftrightarrow> bit f 1" "flag f PLUS \<longleftrightarrow> bit f 2"
  "flag f SPACE \<longleftrightarrow> bit f 3" "flag f LEFT \<longleftrightarrow> bit f 4" "flag f SPECIAL \<longleftrightarrow> bit f 5"
  "flag f SMALL \<longleftrightarrow> bit f 6"
  using and_exp_eq_0_iff_not_bit [of f 0] and_exp_eq_0_iff_not_bit [of f 1]
    and_exp_eq_0_iff_not_bit [of f 2] and_exp_eq_0_iff_not_bit [of f 3]
    and_exp_eq_0_iff_not_bit [of f 4] and_exp_eq_0_iff_not_bit [of f 5]
    and_exp_eq_0_iff_not_bit [of f 6]
  by (simp_all add: flag_def ZEROPAD_def SIGN_def PLUS_def SPACE_def LEFT_def SPECIAL_def SMALL_def)

lemma flag_pad_left: "flag f (ZEROPAD + LEFT) \<longleftrightarrow> bit f 0 \<or> bit f 4"
proof -
  have "f AND (ZEROPAD + LEFT) = (f AND ZEROPAD) OR (f AND LEFT)"
    by (simp add: ZEROPAD_def LEFT_def flip: bit.conj_disj_distrib)
  then have "flag f (ZEROPAD + LEFT) \<longleftrightarrow> flag f ZEROPAD \<or> flag f LEFT"
    by (simp add: flag_def or_eq_0_iff)
  then show ?thesis by simp
qed

lemma bit_clear_zeropad:
  assumes "n < 32"
  shows "bit (f AND NOT ZEROPAD) n \<longleftrightarrow> bit f n \<and> n \<noteq> 0"
proof -
  have "bit (f AND NOT ZEROPAD) n \<longleftrightarrow> bit f n \<and> bit (NOT ZEROPAD) n" by (rule bit_and_iff)
  also have "bit (NOT ZEROPAD) n \<longleftrightarrow> n \<noteq> 0"
    using assms unfolding ZEROPAD_def bit_not_iff bit_1_iff by simp
  finally show ?thesis .
qed

subsection \<open>Digits\<close>

fun lsd :: "nat \<Rightarrow> nat \<Rightarrow> nat list" where
  "lsd b n = (if n = 0 \<or> b < 2 then [] else n mod b # lsd b (n div b))"

declare lsd.simps [simp del]

lemma lsd_0 [simp]: "lsd b 0 = []"
  by (simp add: lsd.simps)

lemma lsd_step: "0 < n \<Longrightarrow> 2 \<le> b \<Longrightarrow> lsd b n = n mod b # lsd b (n div b)"
  by (simp add: lsd.simps [of b n])

text \<open>\<open>ds\<close> is \<open>n\<close> written in base \<open>b\<close>, most significant digit first and without leading zeros.\<close>

definition written :: "nat \<Rightarrow> nat \<Rightarrow> nat list \<Rightarrow> bool" where
  "written b n ds \<longleftrightarrow> (\<forall>d \<in> set ds. d < b) \<and> foldl (\<lambda>v d. v * b + d) 0 ds = n
     \<and> (if n = 0 then ds = [0] else ds \<noteq> [] \<and> hd ds \<noteq> 0)"

lemma lsd_digits: "2 \<le> b \<Longrightarrow> d \<in> set (lsd b n) \<Longrightarrow> d < b"
proof (induction n rule: less_induct)
  case (less n)
  show ?case
  proof (cases "n = 0")
    case False
    then have "d = n mod b \<or> d \<in> set (lsd b (n div b))" and "n div b < n"
      using less.prems by (auto simp: lsd_step)
    then show ?thesis using less.IH [of "n div b"] less.prems(1) by auto
  qed (use less.prems in simp)
qed

lemma lsd_value: "2 \<le> b \<Longrightarrow> foldr (\<lambda>d v. v * b + d) (lsd b n) 0 = n"
proof (induction n rule: less_induct)
  case (less n)
  then show ?case by (cases "n = 0") (simp_all add: lsd_step div_mult_mod_eq)
qed

lemma lsd_last: "2 \<le> b \<Longrightarrow> 0 < n \<Longrightarrow> lsd b n \<noteq> [] \<and> last (lsd b n) \<noteq> 0"
proof (induction n rule: less_induct)
  case (less n)
  show ?case
  proof (cases "n < b")
    case True
    then show ?thesis using less.prems by (simp add: lsd_step)
  next
    case False
    then have "0 < n div b" "n div b < n" using less.prems by (auto simp: div_greater_zero_iff)
    then show ?thesis using less.IH [of "n div b"] less.prems by (simp add: lsd_step)
  qed
qed

lemma lsd_length: "2 \<le> b \<Longrightarrow> n < 2 ^ k \<Longrightarrow> length (lsd b n) \<le> k"
proof (induction k arbitrary: n)
  case 0
  then show ?case by simp
next
  case (Suc k)
  have "n div b \<le> n div 2" using Suc.prems(1) by (simp add: div_le_mono2)
  then have "n div b < 2 ^ k" using Suc.prems(2) by simp
  then show ?case using Suc.IH [of "n div b"] Suc.prems(1) by (cases "n = 0") (simp_all add: lsd_step)
qed

lemma written_lsd:
  assumes "2 \<le> b"
  shows "written b n (if n = 0 then [0] else rev (lsd b n))"
  using lsd_digits [OF assms] lsd_value [OF assms, of n] lsd_last [OF assms, of n] assms
  by (auto simp: written_def foldl_conv_foldr hd_rev)

lemma length_digits [simp]: "length (digits small) = 37"
  by (simp add: digits_def)

lemma tmp_loop_lsd:
  assumes "2 \<le> b" and "b \<le> 36" and "length tmp + length (lsd b (unat num)) \<le> 36"
  shows "tmp_loop (digits small) (of_nat b) num tmp
    = Inr (tmp @ map ((!) (digits small)) (lsd b (unat num)))"
  using assms(3)
proof (induction "unat num" arbitrary: num tmp rule: less_induct)
  case less
  have b: "unat (of_nat b :: u32) = b" using assms(2) by (simp add: unat_of_nat)
  then have b2: "\<not> (of_nat b :: u32) < 2" using assms(1) by (simp add: word_less_nat_alt)
  show ?case
  proof (cases "num = 0")
    case True
    then show ?thesis by simp
  next
    case False
    then have pos: "0 < unat num" by (simp add: unat_gt_0)
    have m: "unat (num mod of_nat b) = unat num mod b" "unat (num div of_nat b) = unat num div b"
      using b by (simp_all add: unat_mod unat_div)
    have l: "lsd b (unat num) = unat num mod b # lsd b (unat num div b)"
      using pos assms(1) by (simp add: lsd_step)
    have "unat num mod b < b" using assms(1) by simp
    then have d: "rd (digits small) (unat num mod b) = Inr (digits small ! (unat num mod b))"
      using assms(2) by simp
    let ?tmp = "tmp @ [digits small ! (unat num mod b)]"
    have len: "length tmp < 36" and len': "length ?tmp + length (lsd b (unat num div b)) \<le> 36"
      using less.prems l by auto
    have "unat (num div of_nat b) < unat num" using m(2) pos assms(1) by simp
    then have "tmp_loop (digits small) (of_nat b) (num div of_nat b) ?tmp
        = Inr (?tmp @ map ((!) (digits small)) (lsd b (unat num div b)))"
      using less.hyps [of "num div of_nat b" ?tmp] len' m(2) by simp
    then have "tmp_loop (digits small) (of_nat b) num tmp
        = Inr (?tmp @ map ((!) (digits small)) (lsd b (unat num div b)))"
      by (subst tmp_loop.simps) (simp add: False b2 m d len del: tmp_loop.simps)
    then show ?thesis by (simp add: l del: tmp_loop.simps)
  qed
qed

subsection \<open>The layout\<close>

definition number_sign :: "u32 \<Rightarrow> u8 list" where
  "number_sign flags = (if flag flags PLUS then [43] else if flag flags SPACE then [32] else [])"

definition number_prefix :: "int \<Rightarrow> u32 \<Rightarrow> u8 list" where
  "number_prefix base flags =
     (if \<not> flag flags SPECIAL then []
      else if base = 8 then [48]
      else if base = 16 then [48, if flag flags SMALL then 120 else 88] else [])"

lemma padded_pad [simp]: "pad (padded sz) c = []"
  by (simp add: pad_def padded_def)

lemma digits_33: "digits small ! 33 = (if small then 120 else 88)"
proof -
  have "digits True ! 33 = 120" "digits False ! 33 = 88" by code_simp+
  then show ?thesis by simp
qed

lemma digits_0: "digits small ! 0 = 48"
proof -
  have "digits True ! 0 = 48" "digits False ! 0 = 48" by code_simp+
  then show ?thesis by (cases small) simp_all
qed

definition number_text :: "int \<Rightarrow> int \<Rightarrow> int \<Rightarrow> u32 \<Rightarrow> nat list \<Rightarrow> u8 list" where
  "number_text base sz p flags ds =
     (let head = number_sign flags @ number_prefix base flags;
          body = replicate (nat p - length ds) 48 @ map ((!) (digits (flag flags SMALL))) ds;
          fill = nat sz - (length head + length body) in
      if flag flags LEFT then head @ body @ replicate fill 32
      else if flag flags ZEROPAD then head @ replicate fill 48 @ body
      else replicate fill 32 @ head @ body)"

lemma number_tmp:
  assumes "2 \<le> base" and "base \<le> 36"
  shows "(if num = 0 then Inr [48]
      else tmp_loop (digits small) (word_of_int base) num [])
    = Inr (rev (map ((!) (digits small)) (if num = 0 then [0] else rev (lsd (nat base) (unat num)))))"
proof -
  have "unat num < 2 ^ 32" using unsigned_less [of num] by simp
  then have "length (lsd (nat base) (unat num)) \<le> 32" using assms by (intro lsd_length) auto
  moreover have "(word_of_int base :: u32) = of_nat (nat base)" using assms(1) by simp
  ultimately show ?thesis
    using tmp_loop_lsd [of "nat base" "[]" num small] assms
    by (simp add: rev_map digits_0 del: tmp_loop.simps)
qed

lemma number_out_text:
  assumes "length prefix + (if sign \<noteq> 0 then 1 else 0) = k" and "bit flags 4 \<longrightarrow> \<not> bit flags 0"
  shows "number_out (sz - int k) p flags (if bit flags 0 then 48 else 32) sign prefix (rev dg)
    = (let head = (if sign \<noteq> 0 then [sign] else []) @ prefix;
           body = replicate (nat p - length dg) 48 @ dg;
           fill = nat sz - (length head + length body) in
       if bit flags 4 then head @ body @ replicate fill 32
       else if bit flags 0 then head @ replicate fill 48 @ body
       else replicate fill 32 @ head @ body)"
proof -
  let ?n = "int (length dg)"
  have zeros: "nat ((if ?n > p then ?n else p) - ?n) = nat p - length dg" by auto
  have fill: "nat (sz - int k - (if ?n > p then ?n else p)) = nat sz - (k + (nat p - length dg + length dg))"
    by auto
  have "length ((if sign \<noteq> 0 then [sign] else []) @ prefix) = k" using assms(1) by auto
  then show ?thesis
    using assms(2) zeros fill
    by (cases "bit flags 4"; cases "bit flags 0")
       (simp_all add: number_out_def Let_def flag_pad_left pad_def padded_def del: nat_diff_distrib')
qed

lemma number_eq_text:
  assumes "2 \<le> base" and "base \<le> 36"
    and "ds = (if num = 0 then [0] else rev (lsd (nat base) (unat num)))"
  shows "number num base sz p flags = Inr (Some (number_text base sz p flags ds))"
proof -
  define small where "small \<longleftrightarrow> bit flags 6"
  define flags' where "flags' = (if bit flags 4 then flags AND NOT ZEROPAD else flags)"
  define sign :: u8 where "sign = (if bit flags 2 then 43 else if bit flags 3 then 32 else 0)"
  define dg where "dg = map ((!) (digits small)) ds"
  have keep: "bit flags' n \<longleftrightarrow> bit flags n" if "0 < n" "n < 32" for n
    using that bit_clear_zeropad by (simp add: flags'_def)
  have zero: "bit flags' 0 \<longleftrightarrow> bit flags 0 \<and> \<not> bit flags 4"
    using bit_clear_zeropad [of 0 flags] by (simp add: flags'_def)
  define k where "k = length (number_prefix base flags) + (if sign \<noteq> 0 then 1 else 0)"
  have sgn: "number_sign flags = (if sign \<noteq> 0 then [sign] else [])"
    by (simp add: number_sign_def sign_def)
  have tmp: "(if num = 0 then Inr [48] else tmp_loop (digits small) (word_of_int base) num []) = Inr (rev dg)"
    using number_tmp [OF assms(1,2)] assms(3) by (simp add: dg_def)
  have pre: "(if bit flags 5 then (if base = 8 then Inr [48]
      else if base = 16 then bindE (rd (digits small) 33) (\<lambda>x. Inr [48, x]) else Inr []) else Inr [])
     = (Inr (number_prefix base flags) :: u8 list res)"
    by (simp add: number_prefix_def digits_33 small_def)
  have sz: "(if bit flags 5 then (if base = 16 then s - 2 else if base = 8 then s - 1 else s) else s)
     = s - int (length (number_prefix base flags))" for s
    by (simp add: number_prefix_def)
  have neg: "(if bit flags' 1 \<and> num < 0 then - num else num) = num" by simp
  have sgn': "(if bit flags' 1 \<and> num < 0 then 45 else if bit flags' 2 then 43
      else if bit flags' 3 then 32 else 0) = sign"
    using keep [of 2] keep [of 3] by (simp add: sign_def)
  have size: "(if sign \<noteq> 0 then sz - 1 else sz) - int (length (number_prefix base flags)) = sz - int k"
    by (simp add: k_def)
  have "number num base sz p flags = Inr (Some (number_out (sz - int k) p flags'
      (if bit flags' 0 then 48 else 32) sign (number_prefix base flags) (rev dg)))"
    using assms(1,2) keep [of 5]
    unfolding number_def Let_def flag_bits flags'_def [symmetric] small_def [symmetric]
    by (simp only: neg sgn' sz pre tmp size) (simp add: pre sz size tmp split del: if_split del: tmp_loop.simps)
  also have "\<dots> = Inr (Some (number_text base sz p flags ds))"
    using keep [of 4] zero
      number_out_text [of "number_prefix base flags" sign k flags' sz p dg]
    by (simp add: number_text_def Let_def sgn k_def dg_def small_def)
  finally show ?thesis .
qed

section \<open>Decimal output\<close>

text \<open>The characters of \<open>n\<close> in decimal.\<close>

definition decimal :: "nat \<Rightarrow> u8 list" where
  "decimal n = map (\<lambda>d. of_nat (48 + d)) (if n = 0 then [0] else rev (lsd 10 n))"

lemma digits_decimal: "d < 10 \<Longrightarrow> digits small ! d = of_nat (48 + d)"
  unfolding digits_def by (simp add: nth_append del: upt_rec_numeral)

lemma decimal_digits:
  "map ((!) (digits small)) (if n = 0 then [0] else rev (lsd 10 n)) = decimal n"
  using digits_decimal [of _ small] lsd_digits [of 10 _ n] by (simp add: decimal_def)

lemma digit_of_nat:
  assumes "d < 10"
  shows "is_digit (of_nat (48 + d))" and "unat (of_nat (48 + d) :: u8) = 48 + d"
proof -
  show u: "unat (of_nat (48 + d) :: u8) = 48 + d" using assms by (intro unat_of_nat_small) simp
  have "list_all (\<lambda>d. sint (of_nat (48 + d) :: u8) = int (48 + d)) [0..<10]" by code_simp
  then have "sint (of_nat (48 + d) :: u8) = int (48 + d)"
    using assms by (rule all_below)
  then show "is_digit (of_nat (48 + d))" using assms by (simp add: is_digit_def)
qed

lemma digits_value_foldl:
  "\<forall>d \<in> set ds. d < 10 \<Longrightarrow>
   digits_value v (map (\<lambda>d. of_nat (48 + d)) ds) = foldl (\<lambda>v d. v * 10 + d) v ds"
proof (induction ds arbitrary: v)
  case Nil
  then show ?case by simp
next
  case (Cons d ds)
  then show ?case using digit_of_nat(2) [of d] by (simp del: of_nat_add)
qed

lemma decimal_value: "digits_value 0 (decimal n) = n" "\<forall>c \<in> set (decimal n). is_digit c"
proof -
  have w: "written 10 n (if n = 0 then [0] else rev (lsd 10 n))" by (rule written_lsd) simp
  then show "digits_value 0 (decimal n) = n"
    unfolding decimal_def by (subst digits_value_foldl) (auto simp: written_def)
  show "\<forall>c \<in> set (decimal n). is_digit c"
    using w digit_of_nat(1) unfolding decimal_def written_def by (auto simp del: of_nat_add)
qed

lemma decimal_length: "n < 2 ^ 32 \<Longrightarrow> length (decimal n) \<le> 10"
proof -
  have *: "n < 10 ^ k \<Longrightarrow> length (lsd 10 n) \<le> k" for k n
  proof (induction k arbitrary: n)
    case 0
    then show ?case by simp
  next
    case (Suc k)
    then have "n div 10 < 10 ^ k" by (simp add: less_mult_imp_div_less mult.commute)
    then show ?case using Suc.IH [of "n div 10"] by (cases "n = 0") (simp_all add: lsd_step)
  qed
  assume "n < 2 ^ 32"
  then show ?thesis using * [of n 10] by (simp add: decimal_def)
qed

lemma number_plain:
  assumes "\<not> bit flags 2" and "\<not> bit flags 3" and "\<not> bit flags 5"
  shows "number n 10 (- 1) (- 1) flags = Inr (Some (decimal (unat n)))"
proof -
  define ds where "ds = (if n = 0 then [0] else rev (lsd (nat 10) (unat n)))"
  have "map ((!) (digits (bit flags 6))) ds = decimal (unat n)"
  proof -
    have "ds = (if unat n = 0 then [0] else rev (lsd 10 (unat n)))" by (simp add: ds_def unat_gt_0)
    then show ?thesis by (simp only: decimal_digits)
  qed
  then show ?thesis
    using number_eq_text [of 10 ds n "- 1" "- 1" flags, OF _ _ ds_def] assms
    by (simp add: number_text_def number_sign_def number_prefix_def Let_def)
qed

text \<open>A directive that is one of the conversions \<^verbatim>\<open>%d\<close>, \<^verbatim>\<open>%i\<close>, \<^verbatim>\<open>%u\<close> without flags,
  width or precision.\<close>

lemma directive_decimal:
  assumes "c = 100 \<or> c = 105 \<or> c = 117" and "f_args st = ANum n # as"
  shows "directive (c # rest) st = Inr (rest, emit (decimal (unat n)) (st\<lparr>f_args := as\<rparr>))"
proof -
  have flags: "parse_flags (c # rest) 0 = Inr (0, c # rest)" using assms(1) by auto
  have digit: "\<not> is_digit c" using assms(1) by (auto simp: is_digit_def)
  have width: "parse_width (c # rest) 0 st = Inr (- 1, 0, c # rest, st)"
    using assms(1) digit by (auto simp: parse_width_def)
  have prec: "parse_precision (c # rest) st = Inr (- 1, c # rest, st)"
    using assms(1) by (auto simp: parse_precision_def)
  have qual: "skip_qualifier (c # rest) = Inr (c # rest)"
    using assms(1) by (auto simp: skip_qualifier_def)
  have sign: "\<not> bit SIGN 2" "\<not> bit SIGN 3" "\<not> bit SIGN 5" by code_simp+
  have "convert (c # rest) (- 1) (- 1) 0 st = Inr (rest, emit (decimal (unat n)) (st\<lparr>f_args := as\<rparr>))"
    using assms(1)
    by (elim disjE)
       (simp_all add: convert_def arg_num_def assms(2) put_number_def number_plain sign)
  then show ?thesis by (simp add: directive_def flags width prec qual del: parse_flags.simps)
qed

section \<open>Properties\<close>



text \<open>C9. \<open>sprintf\<close> of \<^verbatim>\<open>%d\<close> writes the decimal digits of the argument read as unsigned (a
  negative number never gets its sign), terminates the string, and \<open>atoi\<close> reads the number back
  when it is below \<open>2 ^ 31\<close>; with a leading \<^verbatim>\<open>-\<close> it reads the same positive number.\<close>

theorem sprintf_decimal:
  assumes "11 \<le> length buf"
  shows "sprintf buf [37, 100, 0] [ANum n]
      = Inr (length (decimal (unat n)),
             decimal (unat n) @ 0 # drop (Suc (length (decimal (unat n)))) buf, [])
    \<and> (unat n < 2 ^ 31 \<longrightarrow>
        atoi (Some (decimal (unat n) @ 0 # rest)) = Inr (int (unat n))
        \<and> atoi (Some (45 # decimal (unat n) @ 0 # rest)) = Inr (int (unat n)))"
proof -
  have "unat n < 2 ^ 32" using unsigned_less [of n] by simp
  then have len: "length (decimal (unat n)) \<le> 10" by (rule decimal_length)
  have "vsprintf_loop [37, 100, 0] \<lparr>f_out = [], f_args = [ANum n], f_stores = []\<rparr>
      = Inr \<lparr>f_out = decimal (unat n), f_args = [], f_stores = []\<rparr>"
    by (simp add: directive_decimal emit_def)
  then have "sprintf buf [37, 100, 0] [ANum n]
      = Inr (length (decimal (unat n)),
             decimal (unat n) @ 0 # drop (Suc (length (decimal (unat n)))) buf, [])"
    using assms len by (simp add: sprintf_def vsprintf_def Let_def del: vsprintf_loop.simps)
  then show ?thesis using atoi_digits [of "decimal (unat n)" rest] decimal_value [of "unat n"] by simp
qed

theorem sprintf_decimal_witness:
  "sprintf (replicate 16 7) [37, 100, 0] [ANum (- 1)]
     = Inr (length (decimal 4294967295), decimal 4294967295 @ 0 # drop (Suc (length (decimal 4294967295))) (replicate 16 7), [])"
proof -
  have "unat (- 1 :: u32) = 4294967295" by (simp add: unsigned_minus_1_eq_mask mask_eq_exp_minus_1)
  then show ?thesis using sprintf_decimal [of "replicate 16 7" "- 1"] by simp
qed

end
