(* ===== verification/Memory.thy ===== *)
theory Memory
  imports Bitmap Cstring
begin

text \<open>
  Physical memory and the kernel's own pages, from \<^verbatim>\<open>kernel/memory.c\<close>: finding the
  memory at boot, the array of reference counts (one byte per physical page), getting and putting
  a page, and the runs of identity-mapped kernel pages. The record \<open>mem_t\<close> holds the file's
  static variables. The set of free pages and their reference counts are the abstraction; the
  locale \<open>page_allocator\<close> is what the page tables rely on.
\<close>

section \<open>Addresses and pages\<close>

definition PAGE_SIZE :: u32 where "PAGE_SIZE = 4096"
definition MEMORY_BASE :: u32 where "MEMORY_BASE = 0x100000"
definition KERNEL_MEMORY_SIZE :: u32 where "KERNEL_MEMORY_SIZE = 0x1000000"
definition ZONE_VALID :: u32 where "ZONE_VALID = 1"
definition ONIX_MAGIC :: u32 where "ONIX_MAGIC = 0x20220205"
definition MULTIBOOT2_MAGIC :: u32 where "MULTIBOOT2_MAGIC = 0x36d76289"
definition TAG_TYPE_END :: u32 where "TAG_TYPE_END = 0"
definition TAG_TYPE_MMAP :: u32 where "TAG_TYPE_MMAP = 6"

definition IDX :: "u32 \<Rightarrow> u32" where "IDX addr = drop_bit 12 addr"
definition DIDX :: "u32 \<Rightarrow> u32" where "DIDX addr = drop_bit 22 addr AND 0x3ff"
definition TIDX :: "u32 \<Rightarrow> u32" where "TIDX addr = drop_bit 12 addr AND 0x3ff"
definition PAGE :: "u32 \<Rightarrow> u32" where "PAGE idx = push_bit 12 idx"

definition page_aligned :: "u32 \<Rightarrow> bool" where
  "page_aligned addr \<longleftrightarrow> addr AND 0xfff = 0"

record mem_t =
  memory_base :: u32
  memory_size :: u32
  total_pages :: u32
  free_pages :: u32
  start_page :: u32
  memory_map :: "u8 list"
  memory_map_pages :: u32
  kernel_map :: bitmap_t

section \<open>Finding the memory\<close>

text \<open>Memory as the boot loader left it: \<open>peek\<close> reads the 32-bit word at an address.\<close>

definition peek64 :: "(u32 \<Rightarrow> u32) \<Rightarrow> u32 \<Rightarrow> 64 word" where
  "peek64 peek a = ucast (peek a) OR push_bit 32 (ucast (peek (a + 4)))"

text \<open>\<^verbatim>\<open>if (type == ZONE_VALID && size > memory_size)\<close> and the two assignments.\<close>

definition take_zone :: "64 word \<Rightarrow> 64 word \<Rightarrow> u32 \<Rightarrow> mem_t \<Rightarrow> mem_t" where
  "take_zone base sz typ m =
     (if typ = ZONE_VALID \<and> sz > ucast (memory_size m)
      then m\<lparr>memory_base := ucast base, memory_size := ucast sz\<rparr> else m)"

text \<open>An \<open>ards_t\<close> is packed: base at 0, size at 8, type at 16, 20 bytes in all.\<close>

fun scan_ards :: "(u32 \<Rightarrow> u32) \<Rightarrow> u32 \<Rightarrow> nat \<Rightarrow> mem_t \<Rightarrow> mem_t" where
  "scan_ards peek ptr 0 m = m"
| "scan_ards peek ptr (Suc count) m =
     scan_ards peek (ptr + 20) count
       (take_zone (peek64 peek ptr) (peek64 peek (ptr + 8)) (peek (ptr + 16)) m)"

partial_function (option) find_mmap_tag :: "(u32 \<Rightarrow> u32) \<Rightarrow> u32 \<Rightarrow> u32 res option" where
  "find_mmap_tag peek tag =
     (if peek tag = TAG_TYPE_END \<or> peek tag = TAG_TYPE_MMAP then Some (Inr tag)
      else find_mmap_tag peek (tag + ((peek (tag + 4) + 7) AND NOT 7)))"

declare find_mmap_tag.simps [code]

text \<open>The entries of the tag (address at 0, length at 8, type at 16), as far as the tag's size goes;
  the step is the tag's own \<open>entry_size\<close>.\<close>

partial_function (option) scan_entries :: "(u32 \<Rightarrow> u32) \<Rightarrow> u32 \<Rightarrow> u32 \<Rightarrow> mem_t \<Rightarrow> mem_t res option" where
  "scan_entries peek tag entry m =
     (if entry < tag + peek (tag + 4)
      then scan_entries peek tag (entry + peek (tag + 8))
             (take_zone (peek64 peek entry) (peek64 peek (entry + 8)) (peek (entry + 16)) m)
      else Some (Inr m))"

declare scan_entries.simps [code]

definition memory_init :: "(u32 \<Rightarrow> u32) \<Rightarrow> u32 \<Rightarrow> u32 \<Rightarrow> mem_t \<Rightarrow> mem_t res" where
  "memory_init peek magic addr m =
     bindE (if magic = ONIX_MAGIC then Inr (scan_ards peek (addr + 4) (unat (peek addr)) m)
            else if magic = MULTIBOOT2_MAGIC then
              bindE (returns (find_mmap_tag peek (addr + 8))) (\<lambda>tag.
              returns (scan_entries peek tag (tag + 16) m))
            else Inl (Panic ''memory init magic unknown'')) (\<lambda>m.
     kassert (memory_base m = MEMORY_BASE) (
     kassert (memory_size m AND 0xfff = 0) (
     let m = m\<lparr>total_pages := IDX (memory_size m) + IDX MEMORY_BASE,
               free_pages := IDX (memory_size m)\<rparr> in
     if memory_size m < KERNEL_MEMORY_SIZE then Inl (Panic ''system memory is too small'')
     else Inr m)))"

text \<open>\<open>bits\<close> is the page at \<^verbatim>\<open>KERNEL_MAP_BITS\<close>. The array of counts is the pages the loop
  sets to zero and then marks up to \<open>start_page\<close>.\<close>

definition memory_map_init :: "u8 list \<Rightarrow> mem_t \<Rightarrow> mem_t res" where
  "memory_map_init bits m =
     bindE (div_round_up (total_pages m) PAGE_SIZE) (\<lambda>n.
     let map_bytes = replicate (unat (n * PAGE_SIZE)) 0;
         start = IDX MEMORY_BASE + n in
     bindE (foldE (\<lambda>i bs. wr bs i 1) [0 ..< unat start] map_bytes) (\<lambda>bs.
     bindE (bitmap_init bits ((IDX KERNEL_MEMORY_SIZE - IDX MEMORY_BASE) div 8) (IDX MEMORY_BASE)) (\<lambda>km.
     bindE (bitmap_scan km n) (\<lambda>(_, km).
     Inr (m\<lparr>memory_map_pages := n, free_pages := free_pages m - n, start_page := start,
            memory_map := bs, kernel_map := km\<rparr>)))))"

section \<open>Physical pages\<close>

function get_page_from :: "u32 \<Rightarrow> mem_t \<Rightarrow> (u32 \<times> mem_t) res" where
  "get_page_from i m =
     (if i < total_pages m then
        bindE (rd (memory_map m) (unat i)) (\<lambda>b.
          if b = 0 then
            bindE (wr (memory_map m) (unat i) 1) (\<lambda>mm.
            let m = m\<lparr>memory_map := mm, free_pages := free_pages m - 1\<rparr> in
            kassert (free_pages m \<ge> 0) (Inr (PAGE i, m)))
          else get_page_from (i + 1) m)
      else Inl (Panic ''Out of memory!''))"
  by pat_completeness auto
termination
proof (relation "measure (\<lambda>(i, m). unat (total_pages m) - unat i)", goal_cases)
  case 1
  then show ?case by simp
next
  case (2 i m b)
  have "unat (total_pages m) < 2 ^ 32" using unsigned_less [of "total_pages m"] by simp
  then have "unat (i + 1) = Suc (unat i)" using 2(1)
    by (intro unat_Suc_small) (auto simp: word_less_nat_alt)
  then show ?case using 2(1) by (simp add: word_less_nat_alt)
qed

definition get_one_page :: "mem_t \<Rightarrow> (u32 \<times> mem_t) res" where
  "get_one_page m = get_page_from (start_page m) m"

definition put_page :: "u32 \<Rightarrow> mem_t \<Rightarrow> mem_t res" where
  "put_page addr m =
     kassert (page_aligned addr) (
     let idx = IDX addr in
     kassert (idx \<ge> start_page m \<and> idx < total_pages m) (
     bindE (rd (memory_map m) (unat idx)) (\<lambda>b.
     kassert (b \<ge> 1) (
     bindE (wr (memory_map m) (unat idx) (b - 1)) (\<lambda>mm.
     let m = m\<lparr>memory_map := mm, free_pages := (if b - 1 = 0 then free_pages m + 1 else free_pages m)\<rparr> in
     kassert (free_pages m > 0 \<and> free_pages m < total_pages m) (Inr m))))))"

section \<open>Kernel pages\<close>

definition scan_page :: "bitmap_t \<Rightarrow> u32 \<Rightarrow> (u32 \<times> bitmap_t) res" where
  "scan_page mp count =
     kassert (count > 0) (
     bindE (bitmap_scan mp count) (\<lambda>(index, mp).
     if index = EOF then Inl (Panic ''scan page fail!!!'')
     else Inr (PAGE index, mp)))"

definition reset_page :: "bitmap_t \<Rightarrow> u32 \<Rightarrow> u32 \<Rightarrow> bitmap_t res" where
  "reset_page mp addr count =
     kassert (page_aligned addr) (
     kassert (count > 0) (
     let index = IDX addr in
     foldE (\<lambda>i mp. bindE (bitmap_test mp (index + of_nat i)) (\<lambda>b.
                   kassert b (bitmap_set mp (index + of_nat i) False)))
       [0 ..< unat count] mp))"

definition alloc_kpage :: "u32 \<Rightarrow> mem_t \<Rightarrow> (u32 \<times> mem_t) res" where
  "alloc_kpage count m =
     kassert (count > 0) (
     bindE (scan_page (kernel_map m) count) (\<lambda>(vaddr, km).
     Inr (vaddr, m\<lparr>kernel_map := km\<rparr>)))"

definition free_kpage :: "u32 \<Rightarrow> u32 \<Rightarrow> mem_t \<Rightarrow> mem_t res" where
  "free_kpage vaddr count m =
     kassert (page_aligned vaddr) (
     kassert (count > 0) (
     bindE (reset_page (kernel_map m) vaddr count) (\<lambda>km.
     Inr (m\<lparr>kernel_map := km\<rparr>))))"

section \<open>Reference counts and free pages\<close>

text \<open>Words and page numbers.\<close>

lemma unat_IDX: "unat (IDX a) = unat a div 4096"
  by (simp add: IDX_def drop_bit_eq_div unat_div)

lemma unat_PAGE: "unat i < 2 ^ 20 \<Longrightarrow> unat (PAGE i) = 4096 * unat i"
  by (simp add: PAGE_def push_bit_eq_mult unat_word_ariths)

lemma page_aligned_iff: "page_aligned a \<longleftrightarrow> 4096 dvd unat a"
proof -
  have "(0xfff :: u32) = mask 12" by (simp add: mask_eq_exp_minus_1)
  then have "a AND 0xfff = take_bit 12 a" by (simp add: take_bit_eq_mask)
  then have "page_aligned a \<longleftrightarrow> take_bit 12 (unat a) = 0"
    by (simp add: page_aligned_def unat_eq_zero flip: unsigned_take_bit_eq)
  then show ?thesis by (simp add: take_bit_eq_mod mod_eq_0_iff_dvd)
qed

text \<open>The pages of the pool (everything above the 16 MB of the kernel), and the free ones.\<close>

definition pool :: "mem_t \<Rightarrow> nat set" where
  "pool m = {4096 ..< unat (total_pages m)}"

definition refs :: "mem_t \<Rightarrow> nat \<Rightarrow> nat" where
  "refs m i = unat (memory_map m ! i)"

definition free_set :: "mem_t \<Rightarrow> nat set" where
  "free_set m = {i \<in> pool m. refs m i = 0}"

text \<open>
  The invariant from boot on: the counts cover the memory, the kernel's pages above
  \<open>start_page\<close> are taken, and \<open>free_pages\<close> is the number of free pages and of those pages of
  the kernel, which the code never subtracts.
\<close>

definition mem_inv :: "mem_t \<Rightarrow> bool" where
  "mem_inv m \<longleftrightarrow> 0 < unat (start_page m) \<and> unat (start_page m) < 4096
     \<and> 4096 \<le> unat (total_pages m) \<and> unat (total_pages m) \<le> 2 ^ 20
     \<and> unat (total_pages m) \<le> length (memory_map m)
     \<and> (\<forall>i \<in> {unat (start_page m) ..< 4096}. refs m i \<noteq> 0)
     \<and> unat (free_pages m) = card (free_set m) + (4096 - unat (start_page m))"

lemma finite_free_set [simp]: "finite (free_set m)"
  by (simp add: free_set_def pool_def)

lemma card_free_set: "card (free_set m) \<le> unat (total_pages m) - 4096"
proof -
  have "free_set m \<subseteq> pool m" by (auto simp: free_set_def)
  then have "card (free_set m) \<le> card (pool m)" by (rule card_mono [rotated]) (simp add: pool_def)
  then show ?thesis by (simp add: pool_def)
qed

lemma get_page_from_free:
  assumes "unat i \<le> p" and "p < unat (total_pages m)" and "unat (total_pages m) \<le> length (memory_map m)"
    and "refs m p = 0" and "\<forall>j. unat i \<le> j \<and> j < p \<longrightarrow> refs m j \<noteq> 0"
  shows "get_page_from i m = Inr (PAGE (of_nat p),
     m\<lparr>memory_map := (memory_map m)[p := 1], free_pages := free_pages m - 1\<rparr>)"
  using assms
proof (induction i m rule: get_page_from.induct)
  case (1 i m)
  have lt: "i < total_pages m" and small: "unat i < length (memory_map m)"
    using "1.prems" by (auto simp: word_less_nat_alt)
  show ?case
  proof (cases "unat i = p")
    case True
    then have "i = of_nat p" by auto
    then show ?thesis using lt small "1.prems"(4) True
      by (subst get_page_from.simps) (simp add: refs_def unat_eq_zero Let_def del: get_page_from.simps)
  next
    case False
    then have "refs m (unat i) \<noteq> 0" using "1.prems"(1,5) by simp
    then have nz: "memory_map m ! unat i \<noteq> 0" by (auto simp: refs_def)
    have "unat (total_pages m) < 2 ^ 32" using unsigned_less [of "total_pages m"] by simp
    then have "unat (i + 1) = Suc (unat i)" using lt
      by (intro unat_Suc_small) (auto simp: word_less_nat_alt)
    then have "get_page_from (i + 1) m = Inr (PAGE (of_nat p),
       m\<lparr>memory_map := (memory_map m)[p := 1], free_pages := free_pages m - 1\<rparr>)"
      using "1.IH" [of "memory_map m ! unat i"] lt small nz "1.prems" False by simp
    then show ?thesis using lt small nz
      by (subst get_page_from.simps) (simp del: get_page_from.simps)
  qed
qed

lemma get_page_from_none:
  assumes "unat (total_pages m) \<le> length (memory_map m)"
    and "\<forall>j. unat i \<le> j \<and> j < unat (total_pages m) \<longrightarrow> refs m j \<noteq> 0"
  shows "get_page_from i m = Inl (Panic ''Out of memory!'')"
  using assms
proof (induction i m rule: get_page_from.induct)
  case (1 i m)
  show ?case
  proof (cases "i < total_pages m")
    case True
    then have lt: "unat i < unat (total_pages m)" by (simp add: word_less_nat_alt)
    then have nz: "memory_map m ! unat i \<noteq> 0" using "1.prems"(2) by (auto simp: refs_def)
    have "unat (total_pages m) < 2 ^ 32" using unsigned_less [of "total_pages m"] by simp
    then have "unat (i + 1) = Suc (unat i)" using lt by (intro unat_Suc_small) auto
    then have "get_page_from (i + 1) m = Inl (Panic ''Out of memory!'')"
      using "1.IH" [of "memory_map m ! unat i"] True nz "1.prems" lt by simp
    then show ?thesis using True nz lt "1.prems"(1)
      by (subst get_page_from.simps) (simp del: get_page_from.simps)
  next
    case False
    then show ?thesis by (subst get_page_from.simps) simp
  qed
qed

text \<open>What changing one count does to the free pages.\<close>

lemma refs_update:
  "p < length (memory_map m) \<Longrightarrow>
   refs (m\<lparr>memory_map := (memory_map m)[p := v], free_pages := f\<rparr>) = (refs m)(p := unat v)"
  by (rule ext) (simp add: refs_def nth_list_update)

lemma get_one_page_ok:
  assumes "mem_inv m" and "free_set m \<noteq> {}"
  defines "p \<equiv> Min (free_set m)"
  shows "\<exists>m'. get_one_page m = Inr (PAGE (of_nat p), m') \<and> p \<in> free_set m \<and> mem_inv m'
    \<and> total_pages m' = total_pages m \<and> start_page m' = start_page m \<and> kernel_map m' = kernel_map m
    \<and> refs m' = (refs m)(p := 1)"
proof -
  define m' where "m' = m\<lparr>memory_map := (memory_map m)[p := 1], free_pages := free_pages m - 1\<rparr>"
  have p: "p \<in> free_set m" unfolding p_def using assms(2) by simp
  have le: "q \<in> free_set m \<Longrightarrow> p \<le> q" for q unfolding p_def by simp
  have pt: "4096 \<le> p" "p < unat (total_pages m)" "refs m p = 0" using p by (auto simp: free_set_def pool_def)
  have inv: "unat (start_page m) < 4096" "unat (total_pages m) \<le> length (memory_map m)"
      "\<forall>i \<in> {unat (start_page m) ..< 4096}. refs m i \<noteq> 0"
      "unat (free_pages m) = card (free_set m) + (4096 - unat (start_page m))"
    using assms(1) by (auto simp: mem_inv_def)
  have "refs m j \<noteq> 0" if "unat (start_page m) \<le> j" "j < p" for j
    using that inv(3) le [of j] pt(2) by (cases "j < 4096") (auto simp: free_set_def pool_def)
  then have get: "get_one_page m = Inr (PAGE (of_nat p), m')"
    unfolding get_one_page_def m'_def using pt inv by (intro get_page_from_free) auto
  have refs': "refs m' = (refs m)(p := 1)"
    unfolding m'_def using refs_update [of p m "free_pages m - 1" 1] pt inv(2) by simp
  have free': "free_set m' = free_set m - {p}"
    unfolding free_set_def refs' using pt by (auto simp: pool_def m'_def)
  have pos: "0 < card (free_set m)" using p by (auto simp: card_gt_0_iff)
  then have "free_pages m \<noteq> 0" using inv(4) by (auto simp: unat_eq_0)
  then have "unat (free_pages m') = unat (free_pages m) - 1"
    using unat_minus_one by (simp add: m'_def)
  then have "unat (free_pages m') = card (free_set m') + (4096 - unat (start_page m'))"
    using inv(4) free' p pos by (simp add: m'_def)
  then have "mem_inv m'" using assms(1) refs' pt(1) by (auto simp: mem_inv_def m'_def)
  then show ?thesis using get p refs' by (auto simp: m'_def)
qed

lemma get_one_page_none:
  assumes "mem_inv m" and "free_set m = {}"
  shows "get_one_page m = Inl (Panic ''Out of memory!'')"
  unfolding get_one_page_def
proof (rule get_page_from_none)
  show "\<forall>j. unat (start_page m) \<le> j \<and> j < unat (total_pages m) \<longrightarrow> refs m j \<noteq> 0"
  proof (intro allI impI)
    fix j assume "unat (start_page m) \<le> j \<and> j < unat (total_pages m)"
    then show "refs m j \<noteq> 0"
      using assms by (cases "j < 4096") (auto simp: mem_inv_def free_set_def pool_def)
  qed
qed (use assms(1) in \<open>simp add: mem_inv_def\<close>)

lemma page_number:
  assumes "p < 2 ^ 20"
  shows "unat (PAGE (of_nat p)) = 4096 * p" and "page_aligned (PAGE (of_nat p))"
    and "IDX (PAGE (of_nat p)) = of_nat p" and "unat (of_nat p :: u32) = p"
proof -
  show u: "unat (of_nat p :: u32) = p" using assms by (intro unat_of_nat_small) simp
  then show a: "unat (PAGE (of_nat p)) = 4096 * p" using unat_PAGE [of "of_nat p"] assms by simp
  show "page_aligned (PAGE (of_nat p))" by (simp add: page_aligned_iff a)
  have "unat (IDX (PAGE (of_nat p))) = unat (of_nat p :: u32)" by (simp add: unat_IDX a u)
  then show "IDX (PAGE (of_nat p)) = of_nat p" by (rule unsigned_word_eqI)
qed

lemma pool_small: "mem_inv m \<Longrightarrow> p \<in> pool m \<Longrightarrow> p < 2 ^ 20"
  by (auto simp: mem_inv_def pool_def)

lemma put_page_ok:
  assumes "mem_inv m" and "p \<in> pool m" and "0 < refs m p"
  shows "\<exists>m'. put_page (PAGE (of_nat p)) m = Inr m' \<and> mem_inv m'
    \<and> total_pages m' = total_pages m \<and> start_page m' = start_page m \<and> kernel_map m' = kernel_map m
    \<and> refs m' = (refs m)(p := refs m p - 1)"
proof -
  let ?b = "memory_map m ! p"
  define f where "f = (if ?b - 1 = 0 then free_pages m + 1 else free_pages m)"
  define m' where "m' = m\<lparr>memory_map := (memory_map m)[p := ?b - 1], free_pages := f\<rparr>"
  have inv: "0 < unat (start_page m)" "unat (start_page m) < 4096" "unat (total_pages m) \<le> length (memory_map m)"
      "4096 \<le> unat (total_pages m)" "unat (total_pages m) \<le> 2 ^ 20"
      "unat (free_pages m) = card (free_set m) + (4096 - unat (start_page m))"
    using assms(1) by (auto simp: mem_inv_def)
  have pt: "4096 \<le> p" "p < unat (total_pages m)" using assms(2) by (auto simp: pool_def)
  have pn: "p < 2 ^ 20" by (rule pool_small [OF assms(1,2)])
  have b: "?b \<noteq> 0" using assms(3) by (auto simp: refs_def)
  then have b1: "unat (?b - 1) = unat ?b - 1" by (rule unat_minus_one)
  have refs': "refs m' = (refs m)(p := refs m p - 1)"
    unfolding m'_def using refs_update [of p m f "?b - 1"] pt inv(3) b1 by (simp add: refs_def)
  have free': "free_set m' = (if refs m p = 1 then insert p (free_set m) else free_set m)"
    unfolding free_set_def refs' using assms(2,3) by (auto simp: pool_def m'_def)
  have p0: "p \<notin> free_set m" using assms(3) by (simp add: free_set_def)
  have cm: "card (free_set m) \<le> unat (total_pages m) - 4096" by (rule card_free_set)
  have "?b - 1 = 0 \<longleftrightarrow> refs m p = 1" using b1 b by (auto simp: refs_def unat_eq_0)
  then have f: "unat f = card (free_set m') + (4096 - unat (start_page m))"
    using inv cm free' p0 unat_Suc_small [of "free_pages m"] by (simp add: f_def) arith
  have cm': "card (free_set m') \<le> unat (total_pages m) - 4096"
    using card_free_set [of m'] by (simp add: m'_def)
  have fb: "0 < f" "f < total_pages m" using f cm' inv by (auto simp: word_less_nat_alt)
  have "put_page (PAGE (of_nat p)) m = Inr m'"
    using page_number [OF pn] pt inv(2,3) b fb unat_gt_0 [of ?b]
    by (simp add: put_page_def Suc_le_eq Let_def word_le_nat_alt word_less_nat_alt m'_def f_def unat_gt_0)
  moreover have "mem_inv m'"
    using assms(1) refs' f pt(1) by (auto simp: mem_inv_def m'_def)
  ultimately show ?thesis using refs' by (auto simp: m'_def)
qed

section \<open>The contract of the page allocator\<close>

text \<open>
  What the page tables rely on: \<open>get\<close> returns a page nobody refers to and makes its count one,
  \<open>put\<close> drops one reference, and a page is free again exactly when its count is back to zero.
\<close>

locale page_allocator =
  fixes inv :: "'s \<Rightarrow> bool" and pages :: "'s \<Rightarrow> nat set" and refcount :: "'s \<Rightarrow> nat \<Rightarrow> nat"
    and get :: "'s \<Rightarrow> (u32 \<times> 's) res" and put :: "u32 \<Rightarrow> 's \<Rightarrow> 's res"
  assumes page_small: "inv s \<Longrightarrow> p \<in> pages s \<Longrightarrow> p < 2 ^ 20"
    and get_ok: "inv s \<Longrightarrow> \<exists>p \<in> pages s. refcount s p = 0 \<Longrightarrow>
      \<exists>p s'. get s = Inr (PAGE (of_nat p), s') \<and> p \<in> pages s \<and> refcount s p = 0 \<and> inv s'
        \<and> pages s' = pages s \<and> refcount s' = (refcount s)(p := 1)"
    and get_none: "inv s \<Longrightarrow> \<forall>p \<in> pages s. refcount s p \<noteq> 0 \<Longrightarrow> get s = Inl (Panic ''Out of memory!'')"
    and put_ok: "inv s \<Longrightarrow> p \<in> pages s \<Longrightarrow> 0 < refcount s p \<Longrightarrow>
      \<exists>s'. put (PAGE (of_nat p)) s = Inr s' \<and> inv s' \<and> pages s' = pages s
        \<and> refcount s' = (refcount s)(p := refcount s p - 1)"
begin

text \<open>The page returned is the one whose count changed.\<close>

lemma get_success:
  assumes "inv s" and "get s = Inr (addr, s')"
  shows "\<exists>p. addr = PAGE (of_nat p) \<and> p \<in> pages s \<and> refcount s p = 0 \<and> inv s'
    \<and> pages s' = pages s \<and> refcount s' = (refcount s)(p := 1)"
proof (cases "\<exists>p \<in> pages s. refcount s p = 0")
  case True
  then show ?thesis using get_ok [OF assms(1)] assms(2) by auto
next
  case False
  then show ?thesis using get_none [OF assms(1)] assms(2) by auto
qed

text \<open>Putting back the page just got restores every count.\<close>

lemma get_put:
  assumes "inv s" and "get s = Inr (addr, s')"
  shows "\<exists>s''. put addr s' = Inr s'' \<and> inv s'' \<and> pages s'' = pages s \<and> refcount s'' = refcount s"
proof -
  from get_success [OF assms] obtain p where p: "addr = PAGE (of_nat p)" "p \<in> pages s" "refcount s p = 0"
      "inv s'" "pages s' = pages s" "refcount s' = (refcount s)(p := 1)" by blast
  from put_ok [OF p(4), of p] p(2,5,6) obtain s'' where
      s'': "put (PAGE (of_nat p)) s' = Inr s''" "inv s''" "pages s'' = pages s'"
      "refcount s'' = (refcount s')(p := refcount s' p - 1)" by auto
  then have "refcount s'' = refcount s" using p(3,6) by auto
  then show ?thesis using s'' p(1,5) by auto
qed

text \<open>Two pages got in a row are different, and neither was in use.\<close>

lemma get_twice:
  assumes "inv s" and "get s = Inr (a, s')" and "get s' = Inr (b, s'')"
  shows "a \<noteq> b"
proof -
  from get_success [OF assms(1,2)] obtain p where p: "a = PAGE (of_nat p)" "p \<in> pages s" "inv s'"
      "refcount s' = (refcount s)(p := 1)" by blast
  from get_success [OF p(3) assms(3)] obtain q where q: "b = PAGE (of_nat q)" "q \<in> pages s'" "refcount s' q = 0"
    by blast
  have "p \<noteq> q" using p(4) q(3) by auto
  then show ?thesis
    using page_number(1) [OF page_small [OF assms(1) p(2)]] page_number(1) [OF page_small [OF p(3) q(2)]]
      p(1) q(1) by auto
qed

end

interpretation pa: page_allocator mem_inv pool refs get_one_page put_page
proof (unfold_locales, goal_cases)
  case (1 s p)
  then show ?case by (rule pool_small)
next
  case (2 s)
  then have "free_set s \<noteq> {}" by (auto simp: free_set_def)
  from get_one_page_ok [OF 2(1) this] show ?case
    by (auto simp: free_set_def pool_def)
next
  case (3 s)
  then show ?case by (intro get_one_page_none) (auto simp: free_set_def)
next
  case (4 s p)
  from put_page_ok [OF this] show ?case by (auto simp: pool_def)
qed

section \<open>Runs of kernel pages\<close>

text \<open>The map of the identity-mapped pages from 1 MB to 16 MB.\<close>

definition kernel_inv :: "mem_t \<Rightarrow> bool" where
  "kernel_inv m \<longleftrightarrow> bm_inv (kernel_map m) \<and> bm_univ (kernel_map m) = {256 ..< 4096}"

lemma bitmap_test_used:
  assumes "bm_inv mp" and "i \<in> bm_univ mp"
  shows "bitmap_test mp (of_nat i) = Inr (i \<in> bm_used mp)"
proof -
  have i: "i - bm_first mp < bm_size mp" "bm_first mp \<le> i" using assms(2) by (auto simp: bm_univ_def)
  then have "bm_offset mp + of_nat (i - bm_first mp) = of_nat i" by (simp add: bm_first_def)
  then show ?thesis
    using bitmap_test_bit [OF assms(1) i(1)] i by (simp add: mem_bm_used less_diff_conv2)
qed

lemma reset_run:
  assumes "bm_inv mp" and "{a + k ..< a + n} \<subseteq> bm_univ mp \<inter> bm_used mp"
  shows "\<exists>mp'. foldE (\<lambda>i mp. bindE (bitmap_test mp (of_nat a + of_nat i)) (\<lambda>b.
      kassert b (bitmap_set mp (of_nat a + of_nat i) False))) [k ..< n] mp = Inr mp' \<and> bm_inv mp'
    \<and> bm_univ mp' = bm_univ mp \<and> bm_used mp' = bm_used mp - {a + k ..< a + n}"
  using assms
proof (induction "n - k" arbitrary: k mp)
  case 0
  then show ?case by simp
next
  case (Suc d)
  then have kn: "k < n" by simp
  then have "a + k \<in> {a + k ..< a + n}" by simp
  then have ak: "a + k \<in> bm_univ mp" "a + k \<in> bm_used mp" using Suc.prems(2) by blast+
  from bitmap_clear_ok [OF Suc.prems(1) ak(1)] obtain mp1 where mp1:
      "bitmap_set mp (of_nat (a + k)) False = Inr mp1" "bm_inv mp1" "bm_univ mp1 = bm_univ mp"
      "bm_used mp1 = bm_used mp - {a + k}" by blast
  have this': "{a + Suc k ..< a + n} \<subseteq> bm_univ mp1 \<inter> bm_used mp1" using Suc.prems(2) mp1(3,4) by auto
  have d: "d = n - Suc k" using Suc.hyps(2) by simp
  from Suc.hyps(1) [OF d mp1(2) this'] obtain mp2 where mp2:
      "foldE (\<lambda>i mp. bindE (bitmap_test mp (of_nat a + of_nat i)) (\<lambda>b.
        kassert b (bitmap_set mp (of_nat a + of_nat i) False))) [Suc k ..< n] mp1 = Inr mp2 \<and> bm_inv mp2
      \<and> bm_univ mp2 = bm_univ mp1 \<and> bm_used mp2 = bm_used mp1 - {a + Suc k ..< a + n}"
    by (rule exE)
  have "bm_used mp2 = bm_used mp - {a + k ..< a + n}" using mp2 mp1(4) kn by auto
  moreover have "bindE (bitmap_test mp (of_nat a + of_nat k)) (\<lambda>b.
      kassert b (bitmap_set mp (of_nat a + of_nat k) False)) = Inr mp1"
    using mp1(1) bitmap_test_used [OF Suc.prems(1) ak(1)] ak(2) by simp
  moreover have "[k ..< n] = k # [Suc k ..< n]" using kn by (rule upt_conv_Cons)
  ultimately show ?case using mp2 mp1(3) by (intro exI [of _ mp2]) (simp only: foldE.simps bindE_Inr simp_thms)
qed

lemma reset_run_free:
  assumes "bm_inv mp" and "a \<in> bm_univ mp" and "a \<notin> bm_used mp" and "0 < n"
  shows "foldE (\<lambda>i mp. bindE (bitmap_test mp (of_nat a + of_nat i)) (\<lambda>b.
      kassert b (bitmap_set mp (of_nat a + of_nat i) False))) [0 ..< n] mp = Inl Assertion"
  using bitmap_test_used [OF assms(1,2)] assms(3,4) by (simp add: upt_conv_Cons)

lemma free_kpage_run:
  assumes "kernel_inv m" and "256 \<le> a" and "a + unat count \<le> 4096" and "0 < count"
  shows "{a ..< a + unat count} \<subseteq> bm_used (kernel_map m) \<Longrightarrow>
      \<exists>km. free_kpage (PAGE (of_nat a)) count m = Inr (m\<lparr>kernel_map := km\<rparr>) \<and> kernel_inv (m\<lparr>kernel_map := km\<rparr>)
        \<and> bm_used km = bm_used (kernel_map m) - {a ..< a + unat count}"
    and "a \<notin> bm_used (kernel_map m) \<Longrightarrow> free_kpage (PAGE (of_nat a)) count m = Inl Assertion"
proof -
  have k: "bm_inv (kernel_map m)" "bm_univ (kernel_map m) = {256 ..< 4096}"
    using assms(1) by (simp_all add: kernel_inv_def)
  have n: "0 < unat count" using assms(4) by (simp add: word_less_nat_alt)
  have a: "a < 2 ^ 20" "a \<in> bm_univ (kernel_map m)" using assms(2,3) n k by auto
  have free: "free_kpage (PAGE (of_nat a)) count m =
      bindE (foldE (\<lambda>i mp. bindE (bitmap_test mp (of_nat a + of_nat i)) (\<lambda>b.
        kassert b (bitmap_set mp (of_nat a + of_nat i) False))) [0 ..< unat count] (kernel_map m))
        (\<lambda>km. Inr (m\<lparr>kernel_map := km\<rparr>))"
    using page_number [OF a(1)] assms(4) by (simp add: free_kpage_def reset_page_def Let_def)
  {
    assume "{a ..< a + unat count} \<subseteq> bm_used (kernel_map m)"
    then have "{a + 0 ..< a + unat count} \<subseteq> bm_univ (kernel_map m) \<inter> bm_used (kernel_map m)"
      using assms(2,3) k(2) by auto
    from reset_run [OF k(1) this] obtain km where "foldE (\<lambda>i mp. bindE (bitmap_test mp (of_nat a + of_nat i)) (\<lambda>b.
        kassert b (bitmap_set mp (of_nat a + of_nat i) False))) [0 ..< unat count] (kernel_map m) = Inr km"
      "bm_inv km" "bm_univ km = bm_univ (kernel_map m)"
      "bm_used km = bm_used (kernel_map m) - {a ..< a + unat count}" by auto
    then show "\<exists>km. free_kpage (PAGE (of_nat a)) count m = Inr (m\<lparr>kernel_map := km\<rparr>)
        \<and> kernel_inv (m\<lparr>kernel_map := km\<rparr>)
        \<and> bm_used km = bm_used (kernel_map m) - {a ..< a + unat count}"
      using free k(2) by (intro exI [of _ km]) (simp add: kernel_inv_def)
  next
    assume "a \<notin> bm_used (kernel_map m)"
    then show "free_kpage (PAGE (of_nat a)) count m = Inl Assertion"
      using free reset_run_free [OF k(1) a(2) _ n] by simp
  }
qed

lemma alloc_kpage_cases:
  assumes "kernel_inv m" and "0 < count"
  shows "(\<exists>a km. alloc_kpage count m = Inr (PAGE (of_nat a), m\<lparr>kernel_map := km\<rparr>)
            \<and> bm_run (kernel_map m) a (unat count) \<and> kernel_inv (m\<lparr>kernel_map := km\<rparr>)
            \<and> bm_used km = bm_used (kernel_map m) \<union> {a ..< a + unat count})
       \<or> (alloc_kpage count m = Inl (Panic ''scan page fail!!!'')
            \<and> (\<forall>a. \<not> bm_run (kernel_map m) a (unat count)))"
proof -
  have k: "bm_inv (kernel_map m)" "bm_univ (kernel_map m) = {256 ..< 4096}"
    using assms(1) by (simp_all add: kernel_inv_def)
  have n: "0 < unat count" using assms(2) by (simp add: word_less_nat_alt)
  from bitmap_scan_cases [OF k(1) assms(2)] show ?thesis
  proof (elim disjE exE conjE, goal_cases)
    case (1 a km)
    have sub: "{a ..< a + unat count} \<subseteq> {256 ..< 4096}"
      using 1(2) bm_run_univ [OF n, of "kernel_map m" a] k(2) by blast
    have "a \<in> {a ..< a + unat count}" using n by simp
    then have "a < 4096" using sub by auto
    then have "unat (of_nat a :: u32) \<noteq> unat EOF"
      by (simp add: unat_of_nat EOF_def unsigned_minus_1_eq_mask mask_eq_exp_minus_1)
    then have "(of_nat a :: u32) \<noteq> EOF" by auto
    then have "alloc_kpage count m = Inr (PAGE (of_nat a), m\<lparr>kernel_map := km\<rparr>)"
      using 1(1) assms(2) by (simp add: alloc_kpage_def scan_page_def)
    then show ?case
      using 1 k(2) by (intro disjI1 exI [of _ a] exI [of _ km]) (simp add: kernel_inv_def bm_univ_def)
  next
    case 2
    then show ?case using assms(2) by (simp add: alloc_kpage_def scan_page_def)
  qed
qed

section \<open>Properties\<close>

text \<open>C10. Physical pages: while the invariant holds, \<open>get_one_page\<close> takes the lowest page whose
  count is zero and makes it one, and panics only when there is none; \<open>put_page\<close> of any page of the
  pool drops exactly one reference, and its assertions fail only for a page nobody refers to. Both
  keep the invariant (so \<open>free_pages\<close> keeps counting the free pages), and putting back a page just
  got restores every count.\<close>

theorem physical_pages:
  assumes "mem_inv m" and "p \<in> pool m"
  shows "(case get_one_page m of
            Inl e \<Rightarrow> e = Panic ''Out of memory!'' \<and> free_set m = {}
          | Inr (a, m') \<Rightarrow> free_set m \<noteq> {} \<and> a = PAGE (of_nat (Min (free_set m)))
              \<and> refs m' = (refs m)(Min (free_set m) := 1) \<and> mem_inv m'
              \<and> (\<exists>m''. put_page a m' = Inr m'' \<and> mem_inv m'' \<and> refs m'' = refs m))
       \<and> (case put_page (PAGE (of_nat p)) m of
            Inl e \<Rightarrow> e = Assertion \<and> refs m p = 0
          | Inr m' \<Rightarrow> 0 < refs m p \<and> refs m' = (refs m)(p := refs m p - 1) \<and> mem_inv m')"
proof (intro conjI)
  show "case get_one_page m of
            Inl e \<Rightarrow> e = Panic ''Out of memory!'' \<and> free_set m = {}
          | Inr (a, m') \<Rightarrow> free_set m \<noteq> {} \<and> a = PAGE (of_nat (Min (free_set m)))
              \<and> refs m' = (refs m)(Min (free_set m) := 1) \<and> mem_inv m'
              \<and> (\<exists>m''. put_page a m' = Inr m'' \<and> mem_inv m'' \<and> refs m'' = refs m)"
  proof (cases "free_set m = {}")
    case True
    then show ?thesis using get_one_page_none [OF assms(1)] by simp
  next
    case False
    from get_one_page_ok [OF assms(1) this] obtain m' where
        m': "get_one_page m = Inr (PAGE (of_nat (Min (free_set m))), m')" "mem_inv m'"
        "refs m' = (refs m)(Min (free_set m) := 1)" by blast
    from pa.get_put [OF assms(1) m'(1)] m' False show ?thesis by auto
  qed
  show "case put_page (PAGE (of_nat p)) m of
            Inl e \<Rightarrow> e = Assertion \<and> refs m p = 0
          | Inr m' \<Rightarrow> 0 < refs m p \<and> refs m' = (refs m)(p := refs m p - 1) \<and> mem_inv m'"
  proof (cases "refs m p = 0")
    case True
    have "p < 2 ^ 20" by (rule pool_small [OF assms])
    then have "put_page (PAGE (of_nat p)) m = Inl Assertion"
      using True assms page_number [of p]
      by (simp add: put_page_def Let_def mem_inv_def pool_def word_le_nat_alt word_less_nat_alt refs_def)
    then show ?thesis using True by simp
  next
    case False
    then show ?thesis using put_page_ok [OF assms] by auto
  qed
qed

text \<open>A memory of 4352 pages (17 MB), of which page 4096 is taken.\<close>

definition example_mem :: mem_t where
  "example_mem = \<lparr>memory_base = MEMORY_BASE, memory_size = 0x1000000, total_pages = 4352,
     free_pages = 4093, start_page = 258, memory_map = replicate 4097 1 @ replicate 4095 0,
     memory_map_pages = 2, kernel_map = bitmap_make (replicate 480 0) 480 256\<rparr>"

lemma example_mem_refs: "i < 8192 \<Longrightarrow> refs example_mem i = (if i \<le> 4096 then 1 else 0)"
  by (simp add: refs_def example_mem_def nth_append)

lemma example_mem_free: "free_set example_mem = {4097 ..< 4352}"
proof -
  have "pool example_mem = {4096 ..< 4352}" by (simp add: pool_def example_mem_def)
  then show ?thesis using example_mem_refs by (auto simp: free_set_def split: if_splits)
qed

lemma example_mem_inv: "mem_inv example_mem"
proof -
  have "\<forall>i \<in> {258 ..< 4096}. refs example_mem i \<noteq> 0" using example_mem_refs by simp
  then show ?thesis unfolding mem_inv_def example_mem_free by (simp add: example_mem_def)
qed

theorem physical_pages_witness:
  "\<exists>m' m''. get_one_page example_mem = Inr (PAGE 4097, m') \<and> refs m' 4097 = 1
     \<and> put_page (PAGE 4096) example_mem = Inr m'' \<and> refs m'' 4096 = 0"
proof -
  have "Min {4097 ..< 4352 :: nat} = 4097" by (intro Min_eqI) auto
  moreover have "4096 \<in> pool example_mem" by (simp add: pool_def example_mem_def)
  ultimately show ?thesis
    using physical_pages [OF example_mem_inv, of 4096] example_mem_refs [of 4096]
    by (auto simp: example_mem_free split: sum.splits)
qed

text \<open>C11. Kernel pages: \<open>alloc_kpage\<close> returns the address of a run of pages between 1 MB and
  16 MB none of which was allocated, and panics only when there is no such run; freeing the run
  restores the set of allocated pages, and freeing it again fails the assertion.\<close>

theorem kernel_pages:
  assumes "kernel_inv m" and "0 < count"
  shows "case alloc_kpage count m of
      Inl e \<Rightarrow> e = Panic ''scan page fail!!!'' \<and> (\<forall>a. \<not> bm_run (kernel_map m) a (unat count))
    | Inr (addr, m') \<Rightarrow> kernel_inv m' \<and>
        (\<exists>a. unat addr = 4096 * a \<and> 256 \<le> a \<and> a + unat count \<le> 4096
          \<and> {a ..< a + unat count} \<inter> bm_used (kernel_map m) = {}
          \<and> bm_used (kernel_map m') = bm_used (kernel_map m) \<union> {a ..< a + unat count}
          \<and> (\<exists>m''. free_kpage addr count m' = Inr m'' \<and> kernel_inv m''
               \<and> bm_used (kernel_map m'') = bm_used (kernel_map m)
               \<and> free_kpage addr count m'' = Inl Assertion))"
  using alloc_kpage_cases [OF assms]
proof (elim disjE exE conjE, goal_cases)
  case (1 a km)
  let ?m' = "m\<lparr>kernel_map := km\<rparr>"
  have n: "0 < unat count" using assms(2) by (simp add: word_less_nat_alt)
  have sub: "{a ..< a + unat count} \<subseteq> {256 ..< 4096}"
    using 1(2) bm_run_univ [OF n, of "kernel_map m" a] assms(1) unfolding kernel_inv_def by blast
  have "a \<in> {a ..< a + unat count}" "a + unat count - 1 \<in> {a ..< a + unat count}" using n by auto
  then have b: "256 \<le> a" "a + unat count \<le> 4096" using sub by fastforce+
  have new: "{a ..< a + unat count} \<inter> bm_used (kernel_map m) = {}" using 1(2) by (simp add: bm_run_def)
  have "{a ..< a + unat count} \<subseteq> bm_used (kernel_map ?m')" using 1(4) by simp
  from free_kpage_run(1) [OF 1(3) b assms(2) this] obtain km' where km':
      "free_kpage (PAGE (of_nat a)) count ?m' = Inr (?m'\<lparr>kernel_map := km'\<rparr>)"
      "kernel_inv (?m'\<lparr>kernel_map := km'\<rparr>)"
      "bm_used km' = bm_used (kernel_map ?m') - {a ..< a + unat count}" by blast
  have same: "bm_used km' = bm_used (kernel_map m)" using km'(3) 1(4) new by auto
  have "a \<notin> bm_used (kernel_map (?m'\<lparr>kernel_map := km'\<rparr>))" using km'(3) n by auto
  from free_kpage_run(2) [OF km'(2) b assms(2) this]
  have again: "free_kpage (PAGE (of_nat a)) count (?m'\<lparr>kernel_map := km'\<rparr>) = Inl Assertion" .
  have "unat (PAGE (of_nat a)) = 4096 * a" using b n by (intro page_number(1)) simp
  then show ?case
    unfolding 1(1) sum.case prod.case
    by (intro conjI 1(3) exI [of _ a] b new exI [of _ "?m'\<lparr>kernel_map := km'\<rparr>"] km'(1,2) again)
      (simp_all add: 1(4) same)
next
  case 2
  then show ?case by simp
qed

theorem kernel_pages_witness:
  "\<exists>a m'. alloc_kpage 3 example_mem = Inr (a, m') \<and> (\<exists>m''. free_kpage a 3 m' = Inr m'')"
proof -
  have "bm_inv (kernel_map example_mem)" "bm_univ (kernel_map example_mem) = {256 ..< 4096}"
    by (simp_all add: example_mem_def bitmap_make_def bm_inv_def bm_univ_def bm_first_def bm_size_def)
  then have "kernel_inv example_mem" by (simp add: kernel_inv_def)
  moreover have "bm_bit (kernel_map example_mem) i = False" if "i < 3840" for i
    using that by (simp add: example_mem_def bitmap_make_def bm_bit_def)
  then have "bm_used (kernel_map example_mem) = {}"
    by (auto simp: bm_used_def bm_size_def example_mem_def bitmap_make_def)
  then have "bm_run (kernel_map example_mem) 256 3"
    by (simp add: bm_run_def bm_first_def bm_size_def example_mem_def bitmap_make_def)
  ultimately show ?thesis
    using kernel_pages [of example_mem 3] by (auto split: sum.splits)
qed

end
