(* ===== verification/Paging.thy ===== *)
theory Paging
  imports Memory
begin

text \<open>
  Virtual memory, from \<^verbatim>\<open>kernel/memory.c\<close>: page entries, the kernel's identity mapping,
  linking and unlinking a page, copy on write, and the system call \<open>brk\<close>. Physical memory is a
  map from frame numbers to the 1024 words of a frame, a page entry one of these words; the
  page tables are reached as the code reaches them, through the last entry of the directory, which
  points to the directory itself. The translation look-aside buffer is not modelled: an access
  translates with the tables as they are. An access whose translation fails above the user's
  addresses stops the kernel in an assertion of \<open>page_fault\<close>.
\<close>

section \<open>Page entries\<close>

type_synonym page_entry_t = u32

definition pe_present :: "page_entry_t \<Rightarrow> bool" where "pe_present e \<longleftrightarrow> bit e 0"
definition pe_write :: "page_entry_t \<Rightarrow> bool" where "pe_write e \<longleftrightarrow> bit e 1"
definition pe_index :: "page_entry_t \<Rightarrow> u32" where "pe_index e = drop_bit 12 e"

definition pe_set_present :: "bool \<Rightarrow> page_entry_t \<Rightarrow> page_entry_t" where
  "pe_set_present b e = (if b then e OR 1 else e AND NOT 1)"

definition pe_set_write :: "bool \<Rightarrow> page_entry_t \<Rightarrow> page_entry_t" where
  "pe_set_write b e = (if b then e OR 2 else e AND NOT 2)"

definition pe_set_index :: "u32 \<Rightarrow> page_entry_t \<Rightarrow> page_entry_t" where
  "pe_set_index i e = (e AND 0xfff) OR push_bit 12 i"

text \<open>All fields zero, then present, write and user, and the index.\<close>

definition entry_init :: "u32 \<Rightarrow> page_entry_t" where
  "entry_init index = 7 OR push_bit 12 index"

section \<open>The machine and the running task\<close>

definition USER_STACK_TOP :: u32 where "USER_STACK_TOP = 0x8000000"
definition USER_STACK_SIZE :: u32 where "USER_STACK_SIZE = 0x200000"
definition USER_STACK_BOTTOM :: u32 where "USER_STACK_BOTTOM = USER_STACK_TOP - USER_STACK_SIZE"
definition KERNEL_PAGE_DIR :: u32 where "KERNEL_PAGE_DIR = 0x1000"
definition KERNEL_PAGE_TABLE :: "u32 list" where "KERNEL_PAGE_TABLE = [0x2000, 0x3000, 0x4000, 0x5000]"
definition KERNEL_USER :: u32 where "KERNEL_USER = 0"
definition PDE_MASK :: u32 where "PDE_MASK = 0xFFC00000"

record vm_t =
  vm_mem :: mem_t
  vm_frames :: "u32 \<Rightarrow> u32 list"
  vm_cr3 :: u32
  vm_uid :: u32
  vm_pde :: u32
  vm_brk :: u32
  vm_vmap :: bitmap_t

text \<open>The frame a virtual address is in.\<close>

definition walk :: "vm_t \<Rightarrow> u32 \<Rightarrow> u32 res" where
  "walk s vaddr =
     bindE (rd (vm_frames s (IDX (vm_cr3 s))) (unat (DIDX vaddr))) (\<lambda>d.
     kassert (pe_present d) (
     bindE (rd (vm_frames s (pe_index d)) (unat (TIDX vaddr))) (\<lambda>t.
     kassert (pe_present t) (Inr (pe_index t)))))"

text \<open>Entry \<open>i\<close> of the table whose virtual address is given.\<close>

definition load_entry :: "vm_t \<Rightarrow> u32 \<Rightarrow> u32 \<Rightarrow> page_entry_t res" where
  "load_entry s table i = bindE (walk s table) (\<lambda>f. rd (vm_frames s f) (unat i))"

definition store_entry :: "u32 \<Rightarrow> u32 \<Rightarrow> page_entry_t \<Rightarrow> vm_t \<Rightarrow> vm_t res" where
  "store_entry table i e s =
     bindE (walk s table) (\<lambda>f.
     bindE (wr (vm_frames s f) (unat i) e) (\<lambda>ws.
     Inr (s\<lparr>vm_frames := (vm_frames s)(f := ws)\<rparr>)))"

text \<open>\<^verbatim>\<open>memset(table, 0, PAGE_SIZE)\<close> and \<^verbatim>\<open>memcpy(dest, src, PAGE_SIZE)\<close> on whole pages.\<close>

definition clear_page :: "u32 \<Rightarrow> vm_t \<Rightarrow> vm_t res" where
  "clear_page vaddr s =
     bindE (walk s vaddr) (\<lambda>f. Inr (s\<lparr>vm_frames := (vm_frames s)(f := replicate 1024 0)\<rparr>))"

definition copy_words :: "u32 \<Rightarrow> u32 \<Rightarrow> vm_t \<Rightarrow> vm_t res" where
  "copy_words dest src s =
     bindE (walk s dest) (\<lambda>d. bindE (walk s src) (\<lambda>f.
     Inr (s\<lparr>vm_frames := (vm_frames s)(d := vm_frames s f)\<rparr>)))"

definition vm_get_page :: "vm_t \<Rightarrow> (u32 \<times> vm_t) res" where
  "vm_get_page s = bindE (get_one_page (vm_mem s)) (\<lambda>(p, m). Inr (p, s\<lparr>vm_mem := m\<rparr>))"

definition vm_put_page :: "u32 \<Rightarrow> vm_t \<Rightarrow> vm_t res" where
  "vm_put_page addr s = bindE (put_page addr (vm_mem s)) (\<lambda>m. Inr (s\<lparr>vm_mem := m\<rparr>))"

definition set_cr3 :: "u32 \<Rightarrow> vm_t \<Rightarrow> vm_t res" where
  "set_cr3 pde s = kassert (page_aligned pde) (Inr (s\<lparr>vm_cr3 := pde\<rparr>))"

section \<open>The kernel's mapping\<close>

text \<open>One table: every entry but number 0 of the whole mapping, and the count of its frame.\<close>

definition map_table :: "nat \<Rightarrow> u8 list \<Rightarrow> (u32 list \<times> u8 list) res" where
  "map_table didx mm =
     foldE (\<lambda>tidx (ws, mm).
         let index = didx * 1024 + tidx in
         if index = 0 then Inr (ws, mm)
         else bindE (wr ws tidx (entry_init (of_nat index))) (\<lambda>ws.
              bindE (wr mm index 1) (\<lambda>mm. Inr (ws, mm))))
       [0 ..< 1024] (replicate 1024 0, mm)"

text \<open>Paging is off: the tables are written at their physical addresses.\<close>

definition mapping_init :: "vm_t \<Rightarrow> vm_t res" where
  "mapping_init s =
     bindE (foldE (\<lambda>didx (pd, fr, mm).
              let pte = KERNEL_PAGE_TABLE ! didx in
              bindE (wr pd didx (entry_init (IDX pte))) (\<lambda>pd.
              bindE (map_table didx mm) (\<lambda>(ws, mm).
              Inr (pd, fr(IDX pte := ws), mm))))
            [0 ..< length KERNEL_PAGE_TABLE]
            (replicate 1024 0, vm_frames s, memory_map (vm_mem s))) (\<lambda>(pd, fr, mm).
     bindE (wr pd 1023 (entry_init (IDX KERNEL_PAGE_DIR))) (\<lambda>pd.
     set_cr3 KERNEL_PAGE_DIR
       (s\<lparr>vm_frames := fr(IDX KERNEL_PAGE_DIR := pd),
          vm_mem := (vm_mem s)\<lparr>memory_map := mm\<rparr>\<rparr>)))"

section \<open>Page tables\<close>

definition get_pde :: u32 where "get_pde = 0xfffff000"

definition table_addr :: "u32 \<Rightarrow> u32" where
  "table_addr didx = PDE_MASK OR push_bit 12 didx"

text \<open>The virtual address of the table of \<open>vaddr\<close>, created when it is missing.\<close>

definition get_pte :: "u32 \<Rightarrow> bool \<Rightarrow> vm_t \<Rightarrow> (u32 \<times> vm_t) res" where
  "get_pte vaddr create s =
     (let idx = DIDX vaddr; table = table_addr idx in
      bindE (load_entry s get_pde idx) (\<lambda>entry.
      kassert (create \<or> pe_present entry) (
      if pe_present entry then Inr (table, s)
      else
        bindE (vm_get_page s) (\<lambda>(page, s).
        bindE (store_entry get_pde idx (entry_init (IDX page)) s) (\<lambda>s.
        bindE (clear_page table s) (\<lambda>s.
        Inr (table, s)))))))"

definition link_page :: "u32 \<Rightarrow> vm_t \<Rightarrow> vm_t res" where
  "link_page vaddr s =
     kassert (page_aligned vaddr) (
     bindE (get_pte vaddr True s) (\<lambda>(pte, s).
     bindE (load_entry s pte (TIDX vaddr)) (\<lambda>entry.
     bindE (bitmap_test (vm_vmap s) (IDX vaddr)) (\<lambda>used.
     if pe_present entry then kassert used (Inr s)
     else
       kassert (\<not> used) (
       bindE (bitmap_set (vm_vmap s) (IDX vaddr) True) (\<lambda>mp.
       let s = s\<lparr>vm_vmap := mp\<rparr> in
       bindE (vm_get_page s) (\<lambda>(paddr, s).
       store_entry pte (TIDX vaddr) (entry_init (IDX paddr)) s)))))))"

definition unlink_page :: "u32 \<Rightarrow> vm_t \<Rightarrow> vm_t res" where
  "unlink_page vaddr s =
     kassert (page_aligned vaddr) (
     bindE (get_pte vaddr True s) (\<lambda>(pte, s).
     bindE (load_entry s pte (TIDX vaddr)) (\<lambda>entry.
     bindE (bitmap_test (vm_vmap s) (IDX vaddr)) (\<lambda>used.
     if \<not> pe_present entry then kassert (\<not> used) (Inr s)
     else
       kassert used (
       bindE (store_entry pte (TIDX vaddr) (pe_set_present False entry) s) (\<lambda>s.
       bindE (bitmap_set (vm_vmap s) (IDX vaddr) False) (\<lambda>mp.
       vm_put_page (PAGE (pe_index entry)) (s\<lparr>vm_vmap := mp\<rparr>))))))))"

section \<open>Copying\<close>

text \<open>The new frame is mapped at address 0 for the copy.\<close>

definition copy_page :: "u32 \<Rightarrow> vm_t \<Rightarrow> (u32 \<times> vm_t) res" where
  "copy_page page s =
     bindE (vm_get_page s) (\<lambda>(paddr, s).
     bindE (get_pte 0 False s) (\<lambda>(pte, s).
     bindE (store_entry pte 0 (entry_init (IDX paddr)) s) (\<lambda>s.
     bindE (copy_words 0 page s) (\<lambda>s.
     bindE (load_entry s pte 0) (\<lambda>entry.
     bindE (store_entry pte 0 (pe_set_present False entry) s) (\<lambda>s.
     Inr (paddr, s)))))))"

text \<open>\<^verbatim>\<open>memory_map[index]\<close> with its test, and a store to it.\<close>

definition frame_count :: "vm_t \<Rightarrow> u32 \<Rightarrow> u8 res" where
  "frame_count s index = rd (memory_map (vm_mem s)) (unat index)"

definition set_frame_count :: "u32 \<Rightarrow> u8 \<Rightarrow> vm_t \<Rightarrow> vm_t res" where
  "set_frame_count index v s =
     bindE (wr (memory_map (vm_mem s)) (unat index) v) (\<lambda>mm.
     Inr (s\<lparr>vm_mem := (vm_mem s)\<lparr>memory_map := mm\<rparr>\<rparr>))"

text \<open>One entry of a table that two tasks are going to share: read-only, one more reference.\<close>

definition share_entry :: "u32 \<Rightarrow> nat \<Rightarrow> vm_t \<Rightarrow> vm_t res" where
  "share_entry pte tidx s =
     bindE (load_entry s pte (of_nat tidx)) (\<lambda>entry.
     if \<not> pe_present entry then Inr s
     else
       bindE (frame_count s (pe_index entry)) (\<lambda>n.
       kassert (n > 0) (
       bindE (store_entry pte (of_nat tidx) (pe_set_write False entry) s) (\<lambda>s.
       bindE (set_frame_count (pe_index entry) (n + 1) s) (\<lambda>s.
       kassert (n + 1 < 255) (Inr s))))))"

definition share_table :: "u32 \<Rightarrow> nat \<Rightarrow> vm_t \<Rightarrow> vm_t res" where
  "share_table pde didx s =
     bindE (load_entry s pde (of_nat didx)) (\<lambda>dentry.
     if \<not> pe_present dentry then Inr s
     else
       let pte = table_addr (of_nat didx) in
       bindE (foldE (share_entry pte) [0 ..< 1024] s) (\<lambda>s.
       bindE (copy_page pte s) (\<lambda>(paddr, s).
       bindE (load_entry s pde (of_nat didx)) (\<lambda>dentry.
       store_entry pde (of_nat didx) (pe_set_index (IDX paddr) dentry) s))))"

definition copy_pde :: "vm_t \<Rightarrow> (u32 \<times> vm_t) res" where
  "copy_pde s =
     bindE (alloc_kpage 1 (vm_mem s)) (\<lambda>(pde, m).
     let s = s\<lparr>vm_mem := m\<rparr> in
     bindE (copy_words pde (vm_pde s) s) (\<lambda>s.
     bindE (store_entry pde 1023 (entry_init (IDX pde)) s) (\<lambda>s.
     bindE (foldE (share_table pde) [length KERNEL_PAGE_TABLE ..< 1023] s) (\<lambda>s.
     bindE (set_cr3 (vm_pde s) s) (\<lambda>s.
     Inr (pde, s))))))"

definition free_table :: "nat \<Rightarrow> vm_t \<Rightarrow> vm_t res" where
  "free_table didx s =
     bindE (load_entry s get_pde (of_nat didx)) (\<lambda>dentry.
     if \<not> pe_present dentry then Inr s
     else
       bindE (foldE (\<lambda>tidx s.
           bindE (load_entry s (table_addr (of_nat didx)) (of_nat tidx)) (\<lambda>entry.
           if \<not> pe_present entry then Inr s
           else bindE (frame_count s (pe_index entry)) (\<lambda>n.
                kassert (n > 0) (vm_put_page (PAGE (pe_index entry)) s)))) [0 ..< 1024] s) (\<lambda>s.
       vm_put_page (PAGE (pe_index dentry)) s))"

definition free_pde :: "vm_t \<Rightarrow> vm_t res" where
  "free_pde s =
     kassert (vm_uid s \<noteq> KERNEL_USER) (
     bindE (foldE free_table [2 ..< length KERNEL_PAGE_TABLE] s) (\<lambda>s.
     bindE (free_kpage (vm_pde s) 1 (vm_mem s)) (\<lambda>m.
     Inr (s\<lparr>vm_mem := m\<rparr>))))"

section \<open>The page fault handler and brk\<close>

text \<open>\<open>cr2\<close> holds the faulting address; of the error code the handler reads the present bit (0) and the
  write bit (1).\<close>

definition page_fault :: "u32 \<Rightarrow> u32 \<Rightarrow> u32 \<Rightarrow> vm_t \<Rightarrow> vm_t res" where
  "page_fault vector cr2 error s =
     kassert (vector = 0xe) (
     kassert (KERNEL_MEMORY_SIZE \<le> cr2 \<and> cr2 < USER_STACK_TOP) (
     if bit error 0 then
       kassert (bit error 1) (
       bindE (get_pte cr2 False s) (\<lambda>(pte, s).
       bindE (load_entry s pte (TIDX cr2)) (\<lambda>entry.
       kassert (pe_present entry) (
       bindE (frame_count s (pe_index entry)) (\<lambda>n.
       kassert (n > 0) (
       if n = 1 then store_entry pte (TIDX cr2) (pe_set_write True entry) s
       else
         bindE (copy_page (PAGE (IDX cr2)) s) (\<lambda>(paddr, s).
         bindE (load_entry s pte (TIDX cr2)) (\<lambda>entry.
         bindE (frame_count s (pe_index entry)) (\<lambda>n.
         bindE (set_frame_count (pe_index entry) (n - 1) s) (\<lambda>s.
         store_entry pte (TIDX cr2) (entry_init (IDX paddr)) s))))))))))
     else if cr2 < vm_brk s \<or> cr2 \<ge> USER_STACK_BOTTOM then link_page (PAGE (IDX cr2)) s
     else Inl (Panic ''page fault!!!'')))"

text \<open>The loop of a shrinking \<open>brk\<close>; its third expression is a comparison and leaves \<open>page\<close> as it is.\<close>

partial_function (option) brk_loop :: "u32 \<Rightarrow> u32 \<Rightarrow> vm_t \<Rightarrow> vm_t res option" where
  "brk_loop page old_brk s =
     (if page < old_brk then
        (case unlink_page page s of Inl e \<Rightarrow> Some (Inl e) | Inr s \<Rightarrow> brk_loop page old_brk s)
      else Some (Inr s))"

declare brk_loop.simps [code]

definition sys_brk :: "u32 \<Rightarrow> vm_t \<Rightarrow> (int \<times> vm_t) res" where
  "sys_brk addr s =
     (let brk = addr in
      kassert (page_aligned brk) (
      kassert (vm_uid s \<noteq> KERNEL_USER) (
      kassert (KERNEL_MEMORY_SIZE \<le> brk \<and> brk < USER_STACK_BOTTOM) (
      let old_brk = vm_brk s in
      if old_brk > brk then
        bindE (returns (brk_loop brk old_brk s)) (\<lambda>s. Inr (0, s\<lparr>vm_brk := brk\<rparr>))
      else if IDX (brk - old_brk) > free_pages (vm_mem s) then Inr (- 1, s)
      else Inr (0, s\<lparr>vm_brk := brk\<rparr>)))))"

section \<open>Entries and addresses\<close>

lemma drop_push:
  assumes "unat (i::u32) < 2^20"
  shows "drop_bit 12 (push_bit 12 i) = i"
  using page_number(3) [OF assms] by (simp add: IDX_def PAGE_def)

lemma pe_set_present_simps [simp]: "\<not> pe_present (pe_set_present False e)" 
  "pe_index (pe_set_present False e) = pe_index e"
proof -
  show "\<not> pe_present (pe_set_present False e)"  
    unfolding pe_present_def pe_set_present_def if_False bit_and_iff bit_not_iff bit_1_iff by simp
  show "pe_index (pe_set_present False e) = pe_index e"
    unfolding pe_index_def pe_set_present_def if_False
    by (rule bit_word_eqI) (simp only: bit_drop_bit_eq bit_and_iff bit_not_iff bit_1_iff o_def, auto dest: bit_imp_le_length)
qed

lemma pe_set_write_simps [simp]: "pe_write (pe_set_write b e) = b" "pe_present (pe_set_write b e) = pe_present e" 
  "pe_index (pe_set_write b e) = pe_index e"
proof -
  have b: "bit (pe_set_write b e) n \<longleftrightarrow> (if n = 1 then b else bit e n)" if "n < 32" for n
  proof -
    have two: "bit (2 :: u32) n \<longleftrightarrow> n = 1" using bit_exp_iff [of 1 n, where ?'a = u32] that by auto
    show ?thesis
      using that
      by (cases b; simp only: pe_set_write_def if_True if_False bit_or_iff bit_and_iff bit_not_iff two) auto
  qed
  show "pe_write (pe_set_write b e) = b" "pe_present (pe_set_write b e) = pe_present e" 
    using b by (simp_all add: pe_write_def pe_present_def)
  show "pe_index (pe_set_write b e) = pe_index e"
    unfolding pe_index_def
  proof (rule bit_word_eqI)
    fix n
    show "bit (drop_bit 12 (pe_set_write b e)) n = bit (drop_bit 12 e) n"
      using b [of "12 + n"] bit_imp_le_length [of e "12 + n"]
        bit_imp_le_length [of "pe_set_write b e" "12 + n"]
      by (cases "12 + n < 32") (auto simp: bit_drop_bit_eq)
  qed
qed

lemma and_3ff: "(a :: u32) AND 0x3ff = take_bit 10 a"
proof -
  have "(0x3ff :: u32) = mask 10" by (simp add: mask_eq_exp_minus_1)
  then show ?thesis by (simp only: take_bit_eq_mask)
qed

lemma unat_TIDX: "unat (TIDX v) = unat v div 4096 mod 1024"
  by (simp add: TIDX_def and_3ff drop_bit_eq_div take_bit_eq_mod unat_div unat_mod)

lemma unat_DIDX: "unat (DIDX v) = unat v div 4194304"
proof -
  have "unat v < 2 ^ 32" using unsigned_less [of v] by simp
  then have "unat v div 4194304 < 1024" by simp
  then show ?thesis
  by (simp add: DIDX_def and_3ff drop_bit_eq_div take_bit_eq_mod unat_div unat_mod)
qed

lemma unat_table_addr:
  assumes "unat i < 1024"
  shows "unat (table_addr i) = 0xFFC00000 + 4096 * unat i"
proof -
  have m: "PDE_MASK = push_bit 22 (mask 10)" by (simp add: PDE_MASK_def mask_eq_exp_minus_1 push_bit_eq_mult)
  have hi: "\<not> bit (push_bit 12 i) n" if "22 \<le> n" for n
  proof
    assume "bit (push_bit 12 i) n"
    then have "bit i (n - 12)" by (simp add: bit_push_bit_iff)
    then have "bit (unat i) (n - 12)" by (simp add: bit_unsigned_iff)
    moreover have "(1024 :: nat) \<le> 2 ^ (n - 12)" using that power_increasing [of 10 "n - 12" "2::nat"] by simp
    then have "unat i < 2 ^ (n - 12)" using assms by linarith
    ultimately show False by (metis bit_nat_iff bit_take_bit_iff take_bit_nat_eq_self less_irrefl)
  qed
  then have "PDE_MASK OR push_bit 12 i = PDE_MASK + push_bit 12 i"
    unfolding m
  proof (intro disjunctive_add_eq_or [symmetric] bit_word_eqI)
    fix n
    show "bit (push_bit 22 (mask 10) AND push_bit 12 i) n = bit (0 :: u32) n"
      using hi [of n] by (cases "22 \<le> n") (simp_all add: bit_and_iff bit_push_bit_iff)
  qed
  moreover have "unat (PDE_MASK + push_bit 12 i) = unat PDE_MASK + unat (push_bit 12 i)"
    using assms by (intro unat_add_small) (simp add: PDE_MASK_def push_bit_eq_mult unat_word_ariths)
  moreover have "unat (push_bit 12 i) = 4096 * unat i"
    using assms by (simp add: push_bit_eq_mult unat_word_ariths)
  ultimately show ?thesis by (simp add: table_addr_def PDE_MASK_def)
qed

lemma pe_init [simp]: "pe_present (entry_init i)" "pe_write (entry_init i)"
  by (auto simp: pe_present_def pe_write_def entry_init_def bit_or_iff bit_push_bit_iff)

lemma pe_index_init: "unat i < 2 ^ 20 \<Longrightarrow> pe_index (entry_init i) = i"
  by (simp add: pe_index_def entry_init_def drop_push)

lemma pe_present_0 [simp]: "\<not> pe_present 0"
  by (simp add: pe_present_def)

lemma table_addr_parts:
  assumes "unat i < 1024"
  shows "unat (DIDX (table_addr i)) = 1023" and "TIDX (table_addr i) = i"
proof -
  note u = unat_table_addr [OF assms]
  show "unat (DIDX (table_addr i)) = 1023" using assms by (simp add: unat_DIDX u)
  have "(0xFFC00000 + 4096 * unat i) div 4096 mod 1024 = unat i" proof -
    have "(0xFFC00000 + 4096 * unat i) div 4096 = unat i + 1023 * 1024" by simp
    then show ?thesis using assms by (simp only: mod_mult_self1) simp
  qed
  then have "unat (TIDX (table_addr i)) = unat i" by (simp only: unat_TIDX u)
  then show "TIDX (table_addr i) = i" by (rule unsigned_word_eqI)
qed

lemma DIDX_less: "unat (DIDX v) < 1024"
  using u32_bound [of v] by (simp add: unat_DIDX)

lemma TIDX_less: "unat (TIDX v) < 1024"
  by (simp add: unat_TIDX)

lemma IDX_eq_iff: "IDX w = IDX v \<longleftrightarrow> DIDX w = DIDX v \<and> TIDX w = TIDX v"
proof -
  have "IDX w = IDX v \<longleftrightarrow> unat w div 4096 = unat v div 4096"
    by (metis unat_IDX unsigned_word_eqI)
  also have "\<dots> \<longleftrightarrow> unat (DIDX w) = unat (DIDX v) \<and> unat (TIDX w) = unat (TIDX v)"
  proof -
    have split: "a = b \<longleftrightarrow> a div 1024 = b div 1024 \<and> a mod 1024 = b mod 1024" for a b :: nat
      by (metis div_mult_mod_eq)
    have "unat x div 4096 div 1024 = unat x div 4194304" for x :: u32
      by (simp flip: div_mult2_eq)
    then show ?thesis
      unfolding unat_DIDX unat_TIDX using split [of "unat w div 4096" "unat v div 4096"] by simp
  qed
  also have "\<dots> \<longleftrightarrow> DIDX w = DIDX v \<and> TIDX w = TIDX v" by (metis unsigned_word_eqI)
  finally show ?thesis .
qed

section \<open>The mapping\<close>

text \<open>The directory, the table of an entry of it, and the page entry of an address (0 when there is no
  table).\<close>

definition dir :: "vm_t \<Rightarrow> u32 list" where
  "dir s = vm_frames s (IDX (vm_cr3 s))"

definition table_of :: "vm_t \<Rightarrow> nat \<Rightarrow> u32" where
  "table_of s i = pe_index (dir s ! i)"

definition has_table :: "vm_t \<Rightarrow> nat \<Rightarrow> bool" where
  "has_table s i \<longleftrightarrow> pe_present (dir s ! i)"

definition entry_of :: "vm_t \<Rightarrow> u32 \<Rightarrow> page_entry_t" where
  "entry_of s v = (if has_table s (unat (DIDX v))
     then vm_frames s (table_of s (unat (DIDX v))) ! unat (TIDX v) else 0)"

text \<open>A frame that is not free: the kernel's, or one somebody refers to.\<close>

definition taken :: "mem_t \<Rightarrow> u32 \<Rightarrow> bool" where
  "taken m f \<longleftrightarrow> unat f < 4096 \<or> (unat f \<in> pool m \<and> 0 < refs m (unat f))"

definition vm_inv :: "vm_t \<Rightarrow> bool" where
  "vm_inv s \<longleftrightarrow> mem_inv (vm_mem s) \<and> length (dir s) = 1024 \<and> unat (IDX (vm_cr3 s)) < 4096
     \<and> has_table s 1023 \<and> table_of s 1023 = IDX (vm_cr3 s)
     \<and> (\<forall>i < 1023. has_table s i \<longrightarrow> length (vm_frames s (table_of s i)) = 1024
          \<and> table_of s i \<noteq> IDX (vm_cr3 s) \<and> taken (vm_mem s) (table_of s i))
     \<and> (\<forall>i < 1023. \<forall>j < 1023. has_table s i \<and> has_table s j \<and> table_of s i = table_of s j \<longrightarrow> i = j)"

lemma walk_split:
  assumes "vm_inv s" and "unat (DIDX v) < 1023"
  shows "walk s v = (if pe_present (entry_of s v) then Inr (pe_index (entry_of s v)) else Inl Assertion)"
  using assms TIDX_less [of v] DIDX_less [of v]
  by (auto simp: walk_def dir_def [symmetric] vm_inv_def entry_of_def has_table_def table_of_def)

lemma walk_pde:
  assumes "vm_inv s"
  shows "walk s get_pde = Inr (IDX (vm_cr3 s))"
proof -
  have p: "unat (DIDX get_pde) = 1023" "unat (TIDX get_pde) = 1023"
    by (simp_all add: unat_DIDX unat_TIDX get_pde_def)
  have d: "rd (dir s) 1023 = Inr (dir s ! 1023)" "pe_present (dir s ! 1023)"
      "pe_index (dir s ! 1023) = IDX (vm_cr3 s)"
    using assms by (auto simp: vm_inv_def has_table_def table_of_def)
  show ?thesis unfolding walk_def p using d by (simp add: dir_def)
qed

lemma walk_table:
  assumes "vm_inv s" and "unat i < 1024" and "has_table s (unat i)"
  shows "walk s (table_addr i) = Inr (table_of s (unat i))"
proof -
  have d: "rd (dir s) 1023 = Inr (dir s ! 1023)" "pe_present (dir s ! 1023)"
      "pe_index (dir s ! 1023) = IDX (vm_cr3 s)" "rd (dir s) (unat i) = Inr (dir s ! unat i)"
    using assms by (auto simp: vm_inv_def has_table_def table_of_def)
  show ?thesis unfolding walk_def table_addr_parts [OF assms(2)] using d assms(3)
    by (simp add: dir_def has_table_def table_of_def)
qed

text \<open>The invariant and the mapping depend on the frames of the tables, the register and the counts.\<close>

lemma vm_inv_mem:
  assumes "vm_inv s" and "mem_inv m" and "\<And>f. taken (vm_mem s) f \<Longrightarrow> taken m f"
  shows "vm_inv (s\<lparr>vm_mem := m\<rparr>)"
  using assms by (auto simp: vm_inv_def has_table_def table_of_def dir_def)

lemma entry_of_mem [simp]: "entry_of (s\<lparr>vm_mem := m\<rparr>) v = entry_of s v"
  "entry_of (s\<lparr>vm_vmap := mp\<rparr>) v = entry_of s v"
  by (simp_all add: entry_of_def has_table_def table_of_def dir_def)

lemma has_table_mem [simp]:
  "has_table (s\<lparr>vm_mem := m\<rparr>) i = has_table s i" "table_of (s\<lparr>vm_mem := m\<rparr>) i = table_of s i"
  "has_table (s\<lparr>vm_vmap := mp\<rparr>) i = has_table s i" "table_of (s\<lparr>vm_vmap := mp\<rparr>) i = table_of s i"
  by (simp_all add: has_table_def table_of_def dir_def)

lemma dir_mem [simp]: "dir (s\<lparr>vm_mem := m\<rparr>) = dir s" "dir (s\<lparr>vm_vmap := mp\<rparr>) = dir s"
  by (simp_all add: dir_def)

lemma vm_inv_vmap [simp]: "vm_inv (s\<lparr>vm_vmap := mp\<rparr>) = vm_inv s"
  by (simp add: vm_inv_def has_table_def table_of_def dir_def)

lemma load_dir:
  assumes "vm_inv s" and "unat i < 1024"
  shows "load_entry s get_pde i = Inr (dir s ! unat i)"
  using assms walk_pde [OF assms(1)] by (simp add: load_entry_def vm_inv_def dir_def)

lemma load_table:
  assumes "vm_inv s" and "unat (DIDX v) < 1023" and "has_table s (unat (DIDX v))"
  shows "load_entry s (table_addr (DIDX v)) (TIDX v) = Inr (entry_of s v)"
proof -
  have "length (vm_frames s (table_of s (unat (DIDX v)))) = 1024" using assms by (simp add: vm_inv_def)
  then show ?thesis
    using walk_table [OF assms(1) DIDX_less [of v] assms(3)] assms(3) TIDX_less [of v]
    by (simp add: load_entry_def entry_of_def)
qed

text \<open>Changing one entry of a table.\<close>

definition set_entry :: "u32 \<Rightarrow> page_entry_t \<Rightarrow> vm_t \<Rightarrow> vm_t" where
  "set_entry v e s =
     (let t = table_of s (unat (DIDX v)) in
      s\<lparr>vm_frames := (vm_frames s)(t := (vm_frames s t)[unat (TIDX v) := e])\<rparr>)"

lemma set_entry_frame [simp]:
  "vm_mem (set_entry v e s) = vm_mem s" "vm_cr3 (set_entry v e s) = vm_cr3 s"
  "vm_vmap (set_entry v e s) = vm_vmap s" "vm_brk (set_entry v e s) = vm_brk s"
  "vm_uid (set_entry v e s) = vm_uid s" "vm_pde (set_entry v e s) = vm_pde s"
  by (simp_all add: set_entry_def Let_def)

lemma set_entry_dir:
  assumes "vm_inv s" and "unat (DIDX v) < 1023" and "has_table s (unat (DIDX v))"
  shows "dir (set_entry v e s) = dir s"
  using assms by (auto simp: set_entry_def Let_def dir_def vm_inv_def)

lemma set_entry_inv:
  assumes "vm_inv s" and "unat (DIDX v) < 1023" and "has_table s (unat (DIDX v))"
  shows "vm_inv (set_entry v e s)"
proof -
  note d = set_entry_dir [OF assms]
  have "length (vm_frames (set_entry v e s) f) = length (vm_frames s f)" for f
    by (simp add: set_entry_def Let_def)
  then show ?thesis
    using assms(1) unfolding vm_inv_def has_table_def table_of_def d by simp
qed

lemma set_entry_entry_of:
  assumes "vm_inv s" and "unat (DIDX v) < 1023" and "has_table s (unat (DIDX v))"
    and "unat (DIDX w) < 1023"
  shows "entry_of (set_entry v e s) w = (if IDX w = IDX v then e else entry_of s w)"
proof -
  note d = set_entry_dir [OF assms(1-3)]
  have len: "length (vm_frames s (table_of s (unat (DIDX v)))) = 1024" using assms by (simp add: vm_inv_def)
  have inj: "has_table s (unat (DIDX w)) \<Longrightarrow> table_of s (unat (DIDX w)) = table_of s (unat (DIDX v)) \<Longrightarrow> DIDX w = DIDX v"
    using assms unfolding vm_inv_def by (metis unsigned_word_eqI)
  have "unat (TIDX w) = unat (TIDX v) \<longleftrightarrow> TIDX w = TIDX v" by (metis unsigned_word_eqI)
  then show ?thesis
    using len inj assms(3) TIDX_less [of w] TIDX_less [of v]
    unfolding entry_of_def has_table_def table_of_def d IDX_eq_iff
    by (auto simp: set_entry_def Let_def table_of_def has_table_def nth_list_update)
qed

lemma store_table:
  assumes "vm_inv s" and "unat (DIDX v) < 1023" and "has_table s (unat (DIDX v))"
  shows "store_entry (table_addr (DIDX v)) (TIDX v) e s = Inr (set_entry v e s)"
proof -
  have "length (vm_frames s (table_of s (unat (DIDX v)))) = 1024" using assms by (simp add: vm_inv_def)
  then show ?thesis
    using walk_table [OF assms(1) DIDX_less [of v] assms(3)] TIDX_less [of v]
    by (simp add: store_entry_def set_entry_def Let_def)
qed

text \<open>Getting a page from the pool.\<close>

lemma vm_get_page_cases:
  assumes "vm_inv s"
  shows "(\<exists>p m. vm_get_page s = Inr (PAGE (of_nat p), s\<lparr>vm_mem := m\<rparr>) \<and> vm_inv (s\<lparr>vm_mem := m\<rparr>)
            \<and> mem_inv m \<and> p \<in> pool m \<and> p < 2 ^ 20 \<and> pool m = pool (vm_mem s) \<and> refs (vm_mem s) p = 0
            \<and> refs m = (refs (vm_mem s))(p := 1))
       \<or> vm_get_page s = Inl (Panic ''Out of memory!'')"
proof -
  have i: "mem_inv (vm_mem s)" using assms by (simp add: vm_inv_def)
  show ?thesis
  proof (cases "free_set (vm_mem s) = {}")
    case True
    then show ?thesis using get_one_page_none [OF i] by (simp add: vm_get_page_def)
  next
    case False
    then obtain q where "q \<in> pool (vm_mem s)" "refs (vm_mem s) q = 0" by (auto simp: free_set_def)
    then have "\<exists>p \<in> pool (vm_mem s). refs (vm_mem s) p = 0" by blast
    from pa.get_ok [OF i this] obtain p m where g: "get_one_page (vm_mem s) = Inr (PAGE (of_nat p), m)"
      and p: "p \<in> pool (vm_mem s)" "refs (vm_mem s) p = 0" and m: "mem_inv m" "pool m = pool (vm_mem s)"
      and r: "refs m = (refs (vm_mem s))(p := 1)" by blast
    have "taken (vm_mem s) f \<Longrightarrow> taken m f" for f using m(2) r by (auto simp: taken_def)
    then have "vm_inv (s\<lparr>vm_mem := m\<rparr>)" using vm_inv_mem [OF assms m(1)] by blast
    then show ?thesis
      using g p m r pool_small [OF i p(1)] by (auto simp: vm_get_page_def)
  qed
qed

text \<open>A frame from the pool that nobody refers to is no table and not the directory.\<close>

lemma fresh_frame:
  assumes "vm_inv s" and "p \<in> pool (vm_mem s)" and "p < 2 ^ 20" and "refs (vm_mem s) p = 0"
  shows "(of_nat p :: u32) \<noteq> IDX (vm_cr3 s)" and "i < 1023 \<Longrightarrow> has_table s i \<Longrightarrow> of_nat p \<noteq> table_of s i"
proof -
  have u: "unat (of_nat p :: u32) = p" using page_number(4) [OF assms(3)] .
  have "4096 \<le> p" using assms(2) by (simp add: pool_def)
  then show "(of_nat p :: u32) \<noteq> IDX (vm_cr3 s)" using assms(1) u by (auto simp: vm_inv_def)
  show "i < 1023 \<Longrightarrow> has_table s i \<Longrightarrow> of_nat p \<noteq> table_of s i"
    using assms(1,2,4) u \<open>4096 \<le> p\<close> unfolding vm_inv_def taken_def by fastforce
qed

text \<open>What every operation below keeps: the invariant, and the fields and references of others.\<close>

definition same_refs :: "vm_t \<Rightarrow> vm_t \<Rightarrow> bool" where
  "same_refs s s' \<longleftrightarrow> pool (vm_mem s') = pool (vm_mem s)
     \<and> (\<forall>q. 0 < refs (vm_mem s) q \<longrightarrow> refs (vm_mem s') q = refs (vm_mem s) q)
     \<and> (\<forall>i < 1023. has_table s' i \<longrightarrow> has_table s i \<and> table_of s' i = table_of s i
          \<or> refs (vm_mem s) (unat (table_of s' i)) = 0)
     \<and> vm_brk s' = vm_brk s \<and> vm_uid s' = vm_uid s \<and> vm_pde s' = vm_pde s \<and> vm_cr3 s' = vm_cr3 s"

definition new_table :: "nat \<Rightarrow> nat \<Rightarrow> vm_t \<Rightarrow> vm_t" where
  "new_table i p s = s\<lparr>vm_frames := (vm_frames s)
     (IDX (vm_cr3 s) := (dir s)[i := entry_init (of_nat p)], of_nat p := replicate 1024 0)\<rparr>"

lemma new_table_tables:
  assumes "vm_inv s" and "i < 1023" and "(of_nat p :: u32) \<noteq> IDX (vm_cr3 s)" and "p < 2 ^ 20"
  shows "dir (new_table i p s) = (dir s)[i := entry_init (of_nat p)]"
    and "j < 1024 \<Longrightarrow> has_table (new_table i p s) j = (j = i \<or> has_table s j)"
    and "j < 1024 \<Longrightarrow> table_of (new_table i p s) j = (if j = i then of_nat p else table_of s j)"
proof -
  show d: "dir (new_table i p s) = (dir s)[i := entry_init (of_nat p)]"
    using assms(3) by (simp add: new_table_def dir_def)
  have len: "length (dir s) = 1024" using assms(1) by (simp add: vm_inv_def)
  have "unat (of_nat p :: u32) < 2 ^ 20" using page_number(4) [OF assms(4)] assms(4) by simp
  then have pi: "pe_index (entry_init (of_nat p)) = of_nat p" by (rule pe_index_init)
  show "j < 1024 \<Longrightarrow> has_table (new_table i p s) j = (j = i \<or> has_table s j)"
    using assms(2) len by (auto simp: has_table_def d nth_list_update)
  show "j < 1024 \<Longrightarrow> table_of (new_table i p s) j = (if j = i then of_nat p else table_of s j)"
    using assms(2) len pi by (simp add: table_of_def d nth_list_update)
qed

lemma new_table_inv:
  assumes "vm_inv s" and "i < 1023" and "\<not> has_table s i" and "p < 2 ^ 20"
    and "(of_nat p :: u32) \<noteq> IDX (vm_cr3 s)" and "\<And>j. j < 1023 \<Longrightarrow> has_table s j \<Longrightarrow> of_nat p \<noteq> table_of s j"
    and "taken (vm_mem s) (of_nat p)"
  shows "vm_inv (new_table i p s)"
    and "unat (DIDX w) < 1023 \<Longrightarrow> entry_of (new_table i p s) w = entry_of s w"
proof -
  note t = new_table_tables [OF assms(1,2,5,4)]
  have cr3: "vm_cr3 (new_table i p s) = vm_cr3 s" "vm_mem (new_table i p s) = vm_mem s"
    by (simp_all add: new_table_def)
  have frames: "vm_frames (new_table i p s) f
      = (if f = of_nat p then replicate 1024 0 else if f = IDX (vm_cr3 s) then (dir s)[i := entry_init (of_nat p)]
         else vm_frames s f)" for f
    by (simp add: new_table_def)
  have inj: "\<forall>j < 1023. \<forall>k < 1023. has_table s j \<and> has_table s k \<and> table_of s j = table_of s k \<longrightarrow> j = k"
    using assms(1) by (simp add: vm_inv_def)
  show "vm_inv (new_table i p s)"
    unfolding vm_inv_def cr3
  proof (intro conjI allI impI)
    show "mem_inv (vm_mem s)" "unat (IDX (vm_cr3 s)) < 4096" using assms(1) by (auto simp: vm_inv_def)
    show "length (dir (new_table i p s)) = 1024" using assms(1) t(1) by (simp add: vm_inv_def)
    show "has_table (new_table i p s) 1023" "table_of (new_table i p s) 1023 = IDX (vm_cr3 s)"
      using assms(1,2) t(2,3) by (auto simp: vm_inv_def)
  next
    fix j assume j: "j < 1023" "has_table (new_table i p s) j"
    then have j': "j < 1024" by simp
    show "length (vm_frames (new_table i p s) (table_of (new_table i p s) j)) = 1024"
      using j assms(1,6) t(2,3) [OF j'] by (auto simp: frames vm_inv_def)
    show "table_of (new_table i p s) j \<noteq> IDX (vm_cr3 s)"
      using j assms(1,5) t(2,3) [OF j'] by (auto simp: vm_inv_def)
    show "taken (vm_mem s) (table_of (new_table i p s) j)"
      using j assms(1,7) t(2,3) [OF j'] by (auto simp: vm_inv_def)
  next
    fix j k assume j: "j < 1023" and k: "k < 1023"
      and *: "has_table (new_table i p s) j \<and> has_table (new_table i p s) k
        \<and> table_of (new_table i p s) j = table_of (new_table i p s) k"
    have j': "j < 1024" and k': "k < 1024" using j k by auto
    show "j = k"
    proof (cases "j = i \<or> k = i")
      case True
      then show ?thesis using * assms(6) [OF j] assms(6) [OF k] t(2,3) [OF j'] t(2,3) [OF k']
        by (auto split: if_splits)
    next
      case False
      then show ?thesis using * inj j k t(2,3) [OF j'] t(2,3) [OF k'] by auto
    qed
  qed
  assume w: "unat (DIDX w) < 1023"
  then have w': "unat (DIDX w) < 1024" by simp
  have "table_of s (unat (DIDX w)) \<noteq> IDX (vm_cr3 s)" if "has_table s (unat (DIDX w))"
    using assms(1) w that by (simp add: vm_inv_def)
  then show "entry_of (new_table i p s) w = entry_of s w"
    using assms(3) assms(6) [OF w] t(2,3) [OF w'] TIDX_less [of w]
    by (auto simp: entry_of_def frames)
qed

lemma get_pte_present:
  assumes "vm_inv s" and "has_table s (unat (DIDX v))"
  shows "get_pte v create s = Inr (table_addr (DIDX v), s)"
  using load_dir [OF assms(1) DIDX_less [of v]] assms(2)
  by (simp add: get_pte_def Let_def has_table_def kassert_def)

lemma get_pte_missing:
  assumes "vm_inv s" and "unat (DIDX v) < 1023" and "\<not> has_table s (unat (DIDX v))"
    and "vm_get_page s = Inr (PAGE (of_nat p), s\<lparr>vm_mem := m\<rparr>)" and "vm_inv (s\<lparr>vm_mem := m\<rparr>)"
    and "p < 2 ^ 20" and "(of_nat p :: u32) \<noteq> IDX (vm_cr3 s)"
  shows "get_pte v True s = Inr (table_addr (DIDX v), new_table (unat (DIDX v)) p (s\<lparr>vm_mem := m\<rparr>))"
proof -
  let ?i = "unat (DIDX v)" and ?s1 = "s\<lparr>vm_mem := m\<rparr>" and ?e = "entry_init (of_nat p)"
  have load: "load_entry s get_pde (DIDX v) = Inr (dir s ! ?i)"
    by (rule load_dir [OF assms(1) DIDX_less])
  have len: "length (dir s) = 1024" and d1023: "pe_present (dir s ! 1023)" "pe_index (dir s ! 1023) = IDX (vm_cr3 s)"
    using assms(1) by (auto simp: vm_inv_def has_table_def table_of_def)
  define s2 where "s2 = ?s1\<lparr>vm_frames := (vm_frames s)(IDX (vm_cr3 s) := (dir s)[?i := ?e])\<rparr>"
  have store: "store_entry get_pde (DIDX v) ?e ?s1 = Inr s2"
    using walk_pde [OF assms(5)] len DIDX_less [of v]
    by (simp add: store_entry_def s2_def dir_def)
  have "unat (of_nat p :: u32) < 2 ^ 20" using page_number(4) [OF assms(6)] assms(6) by simp
  then have pi: "pe_index ?e = of_nat p" by (rule pe_index_init)
  have d2: "vm_frames s2 (IDX (vm_cr3 s2)) = (dir s)[?i := ?e]" and c2: "vm_cr3 s2 = vm_cr3 s"
    by (simp_all add: s2_def)
  have "walk s2 (table_addr (DIDX v)) = Inr (of_nat p)"
    unfolding walk_def table_addr_parts [OF DIDX_less] d2
    using len d1023 assms(2) pi by (simp add: d2 [unfolded c2])
  then have clear: "clear_page (table_addr (DIDX v)) s2 = Inr (new_table ?i p ?s1)"
    using assms(7) by (simp add: clear_page_def new_table_def s2_def dir_def)
  show ?thesis
    using load assms(3,4) store clear page_number(3) [OF assms(6)]
    by (simp add: get_pte_def Let_def has_table_def)
qed

lemma get_pte_create:
  assumes "vm_inv s" and "unat (DIDX v) < 1023"
  shows "(\<exists>s'. get_pte v True s = Inr (table_addr (DIDX v), s') \<and> vm_inv s' \<and> has_table s' (unat (DIDX v))
            \<and> (\<forall>w. unat (DIDX w) < 1023 \<longrightarrow> entry_of s' w = entry_of s w)
            \<and> vm_vmap s' = vm_vmap s \<and> same_refs s s')
       \<or> get_pte v True s = Inl (Panic ''Out of memory!'')"
proof (cases "has_table s (unat (DIDX v))")
  case True
  then show ?thesis using get_pte_present [OF assms(1) True] assms(1)
    by (intro disjI1 exI [of _ s]) (simp add: same_refs_def)
next
  case False
  from vm_get_page_cases [OF assms(1)] show ?thesis
  proof (elim disjE exE conjE, goal_cases)
    case (1 p m)
    let ?s1 = "s\<lparr>vm_mem := m\<rparr>" and ?i = "unat (DIDX v)"
    have pp: "p \<in> pool (vm_mem s)" using 1(4,6) by simp
    have c: "(of_nat p :: u32) \<noteq> IDX (vm_cr3 s)" by (rule fresh_frame(1) [OF assms(1) pp 1(5,7)])
    have t: "of_nat p \<noteq> table_of ?s1 j" if "j < 1023" "has_table ?s1 j" for j
      using fresh_frame(2) [OF assms(1) pp 1(5,7)] that by simp
    have tk: "taken (vm_mem ?s1) (of_nat p)"
      using 1(4,8) page_number(4) [OF 1(5)] by (simp add: taken_def)
    have c1: "(of_nat p :: u32) \<noteq> IDX (vm_cr3 ?s1)" using c by simp
    have f1: "\<not> has_table ?s1 ?i" using False by simp
    note n = new_table_inv [OF 1(2) assms(2) f1 1(5) c1 t tk]
    have "has_table (new_table ?i p ?s1) j \<Longrightarrow> j < 1023 \<Longrightarrow>
        has_table s j \<and> table_of (new_table ?i p ?s1) j = table_of s j
        \<or> refs (vm_mem s) (unat (table_of (new_table ?i p ?s1) j)) = 0" for j
      using new_table_tables(2,3) [OF 1(2) assms(2) c1 1(5), of j] 1(7) page_number(4) [OF 1(5)] by auto
    then have "same_refs s (new_table ?i p ?s1)"
      using 1(6,7,8) by (auto simp: same_refs_def new_table_def)
    moreover have "has_table (new_table ?i p ?s1) ?i"
      using new_table_tables(2) [OF 1(2) assms(2) c1 1(5), of ?i] assms(2) by simp
    moreover have "vm_vmap (new_table ?i p ?s1) = vm_vmap s" by (simp add: new_table_def)
    ultimately show ?case
      using get_pte_missing [OF assms False 1(1,2,5) c] n by simp
  next
    case 2
    then show ?case using load_dir [OF assms(1) DIDX_less [of v]] False
      by (simp add: get_pte_def Let_def has_table_def)
  qed
qed

end
