(* ===== verification/AddressSpace.thy ===== *)
theory AddressSpace
  imports Paging
begin

text \<open>
  What the page tables of \<^verbatim>\<open>kernel/memory.c\<close> achieve: the invariant of a task's address space
  and that linking, unlinking and copy on write keep it, the kernel's identity mapping at boot,
  and the two operations that never come back, a shrinking \<open>sys_brk\<close> and \<open>free_pde\<close>.
\<close>

section \<open>Linking and unlinking\<close>

text \<open>
  The addresses of the task's own tables, and the invariant of its address space: the bitmap of
  the task says which pages are mapped, a mapped frame is one the task refers to, no table is
  mapped, and no frame is mapped twice.
\<close>

definition user_addr :: "u32 \<Rightarrow> bool" where
  "user_addr v \<longleftrightarrow> 4 \<le> unat (DIDX v) \<and> unat (DIDX v) < 1023"

definition user_page :: "vm_t \<Rightarrow> u32 \<Rightarrow> bool" where
  "user_page s v \<longleftrightarrow> user_addr v \<and> pe_present (entry_of s v)"

definition vmap_agrees :: "vm_t \<Rightarrow> bool" where
  "vmap_agrees s \<longleftrightarrow> bm_inv (vm_vmap s) \<and> (\<forall>v. unat (IDX v) \<in> bm_univ (vm_vmap s) \<longrightarrow>
     user_addr v \<and> (unat (IDX v) \<in> bm_used (vm_vmap s) \<longleftrightarrow> pe_present (entry_of s v)))"

definition frames_owned :: "vm_t \<Rightarrow> bool" where
  "frames_owned s \<longleftrightarrow> (\<forall>v. user_page s v \<longrightarrow>
     unat (pe_index (entry_of s v)) \<in> pool (vm_mem s)
     \<and> 0 < refs (vm_mem s) (unat (pe_index (entry_of s v))))"

definition no_table_mapped :: "vm_t \<Rightarrow> bool" where
  "no_table_mapped s \<longleftrightarrow> (\<forall>v. user_page s v \<longrightarrow>
     (\<forall>i < 1023. has_table s i \<longrightarrow> table_of s i \<noteq> pe_index (entry_of s v)))"

definition mapped_once :: "vm_t \<Rightarrow> bool" where
  "mapped_once s \<longleftrightarrow> (\<forall>v w. user_page s v \<longrightarrow> user_page s w \<longrightarrow>
     pe_index (entry_of s v) = pe_index (entry_of s w) \<longrightarrow> IDX v = IDX w)"

definition map_inv :: "vm_t \<Rightarrow> bool" where
  "map_inv s \<longleftrightarrow> vm_inv s \<and> vmap_agrees s \<and> frames_owned s \<and> no_table_mapped s \<and> mapped_once s"

lemma entry_of_page:
  assumes "IDX w = IDX v"
  shows "entry_of s w = entry_of s v"
  using assms unfolding IDX_eq_iff by (simp add: entry_of_def)

lemma vmap_test:
  assumes "map_inv s" and "unat (IDX v) \<in> bm_univ (vm_vmap s)"
  shows "bitmap_test (vm_vmap s) (IDX v) = Inr (pe_present (entry_of s v))"
  using bitmap_test_used [of "vm_vmap s" "unat (IDX v)"] assms by (simp add: map_inv_def vmap_agrees_def)

text \<open>The parts of the invariant, one by one.\<close>

lemma map_inv_vm: "map_inv s \<Longrightarrow> vm_inv s"
  by (simp add: map_inv_def)

lemma map_inv_vmap: "map_inv s \<Longrightarrow> bm_inv (vm_vmap s)"
  by (simp add: map_inv_def vmap_agrees_def)

lemma map_inv_user: "map_inv s \<Longrightarrow> unat (IDX v) \<in> bm_univ (vm_vmap s) \<Longrightarrow> user_addr v"
  by (simp add: map_inv_def vmap_agrees_def)

lemma map_inv_used: "map_inv s \<Longrightarrow> unat (IDX v) \<in> bm_univ (vm_vmap s) \<Longrightarrow>
    unat (IDX v) \<in> bm_used (vm_vmap s) \<longleftrightarrow> pe_present (entry_of s v)"
  by (simp add: map_inv_def vmap_agrees_def)

lemma map_inv_pool: "map_inv s \<Longrightarrow> user_page s v \<Longrightarrow> unat (pe_index (entry_of s v)) \<in> pool (vm_mem s)"
  by (simp add: map_inv_def frames_owned_def)

lemma map_inv_refs: "map_inv s \<Longrightarrow> user_page s v \<Longrightarrow> 0 < refs (vm_mem s) (unat (pe_index (entry_of s v)))"
  by (simp add: map_inv_def frames_owned_def)

lemma map_inv_table: "map_inv s \<Longrightarrow> user_page s v \<Longrightarrow> i < 1023 \<Longrightarrow> has_table s i \<Longrightarrow>
    table_of s i \<noteq> pe_index (entry_of s v)"
  by (simp add: map_inv_def no_table_mapped_def)

lemma map_inv_once: "map_inv s \<Longrightarrow> user_page s v \<Longrightarrow> user_page s w \<Longrightarrow>
    pe_index (entry_of s v) = pe_index (entry_of s w) \<Longrightarrow> IDX v = IDX w"
  unfolding map_inv_def mapped_once_def by blast

lemmas map_invD = map_inv_vm map_inv_vmap map_inv_user map_inv_used map_inv_pool map_inv_refs
  map_inv_table map_inv_once

lemma user_page_cong:
  assumes "\<And>w. user_addr w \<Longrightarrow> entry_of s' w = entry_of s w"
  shows "user_page s' v = user_page s v"
  using assms [of v] by (auto simp: user_page_def)

lemma user_page_addr: "user_page s v \<Longrightarrow> unat (DIDX v) < 1023"
  by (simp add: user_page_def user_addr_def)

lemma map_inv_same:
  assumes "map_inv s" and "vm_inv s'" and "\<And>w. user_addr w \<Longrightarrow> entry_of s' w = entry_of s w"
    and "vm_vmap s' = vm_vmap s" and "same_refs s s'"
  shows "map_inv s'"
proof -
  have up: "user_page s' v = user_page s v" for v by (rule user_page_cong) (rule assms(3))
  have e: "user_page s w \<Longrightarrow> entry_of s' w = entry_of s w" for w using assms(3) by (simp add: user_page_def)
  note e' = assms(3)
  have "vmap_agrees s'"
    unfolding vmap_agrees_def assms(4)
  proof (intro conjI allI impI)
    show "bm_inv (vm_vmap s)" by (rule map_invD(2) [OF assms(1)])
    fix v assume "unat (IDX v) \<in> bm_univ (vm_vmap s)"
    note v = map_invD(3,4) [OF assms(1) this]
    then show "user_addr v" "unat (IDX v) \<in> bm_used (vm_vmap s) \<longleftrightarrow> pe_present (entry_of s' v)"
      by (simp_all add: e')
  qed
  moreover have "frames_owned s'"
    unfolding frames_owned_def up
    using map_invD(5,6) [OF assms(1)] e assms(5) by (simp add: same_refs_def)
  moreover have "no_table_mapped s'"
    unfolding no_table_mapped_def up
  proof (intro allI impI notI)
    fix w i assume w: "user_page s w" "i < 1023" "has_table s' i" and eq: "table_of s' i = pe_index (entry_of s' w)"
    have "has_table s i \<and> table_of s' i = table_of s i \<or> refs (vm_mem s) (unat (table_of s' i)) = 0"
      using assms(5) w(2,3) by (simp add: same_refs_def)
    then show False using map_invD(6,7) [OF assms(1) w(1)] w(2) eq e [OF w(1)] by auto
  qed
  moreover have "mapped_once s'"
    unfolding mapped_once_def up
  proof (intro allI impI)
    fix v w assume v: "user_page s v" and w: "user_page s w"
      and "pe_index (entry_of s' v) = pe_index (entry_of s' w)"
    then have "pe_index (entry_of s v) = pe_index (entry_of s w)" by (simp only: e)
    then show "IDX v = IDX w" by (rule map_invD(8) [OF assms(1) v w])
  qed
  ultimately show ?thesis using assms(2) by (simp add: map_inv_def)
qed

text \<open>Changing the entry of one page together with its bit.\<close>

lemma map_set_entry:
  assumes "vm_inv (s\<lparr>vm_mem := m\<rparr>)" and "unat (DIDX v) < 1023" and "has_table s (unat (DIDX v))"
    and "unat (DIDX w) < 1023"
  shows "entry_of (set_entry v e (s\<lparr>vm_mem := m, vm_vmap := mp\<rparr>)) w
          = (if IDX w = IDX v then e else entry_of s w)"
  using set_entry_entry_of [of "s\<lparr>vm_mem := m, vm_vmap := mp\<rparr>" v w e] assms by simp

text \<open>The conditions under which the new entry keeps the invariant: a mapped frame was free.\<close>

definition entry_fits :: "vm_t \<Rightarrow> mem_t \<Rightarrow> page_entry_t \<Rightarrow> bool" where
  "entry_fits s m e \<longleftrightarrow> unat (pe_index e) \<in> pool m \<and> 0 < refs m (unat (pe_index e))
     \<and> refs (vm_mem s) (unat (pe_index e)) = 0
     \<and> (\<forall>i < 1023. has_table s i \<longrightarrow> table_of s i \<noteq> pe_index e)"

lemma map_inv_set:
  assumes "map_inv s" and "unat (IDX v) \<in> bm_univ (vm_vmap s)" and "has_table s (unat (DIDX v))"
    and "vm_inv (s\<lparr>vm_mem := m\<rparr>)" and "pool m = pool (vm_mem s)"
    and "\<And>w. user_page s w \<Longrightarrow> IDX w \<noteq> IDX v \<Longrightarrow> 0 < refs m (unat (pe_index (entry_of s w)))"
    and "pe_present e \<Longrightarrow> entry_fits s m e"
    and "bm_inv mp" and "bm_univ mp = bm_univ (vm_vmap s)"
    and "bm_used mp = (if pe_present e then insert (unat (IDX v)) (bm_used (vm_vmap s))
           else bm_used (vm_vmap s) - {unat (IDX v)})"
  shows "map_inv (set_entry v e (s\<lparr>vm_mem := m, vm_vmap := mp\<rparr>))"
proof -
  let ?s = "s\<lparr>vm_mem := m, vm_vmap := mp\<rparr>"
  let ?t = "set_entry v e ?s"
  have i: "vm_inv ?s" using assms(4) by simp
  have dv: "unat (DIDX v) < 1023" using map_invD(3) [OF assms(1,2)] by (simp add: user_addr_def)
  have ht: "has_table ?s (unat (DIDX v))" using assms(3) by simp
  have e: "entry_of ?t w = (if IDX w = IDX v then e else entry_of s w)" if "user_addr w" for w
    using map_set_entry [OF assms(4) dv assms(3)] that by (simp add: user_addr_def)
  have tab: "has_table ?t i = has_table s i" "table_of ?t i = table_of s i" for i
    by (simp_all add: has_table_def table_of_def set_entry_dir [OF i dv ht])
  have cases: "(IDX w = IDX v \<and> entry_of ?t w = e \<and> entry_fits s m e)
      \<or> (IDX w \<noteq> IDX v \<and> entry_of ?t w = entry_of s w \<and> user_page s w)" if "user_page ?t w" for w
  proof (cases "IDX w = IDX v")
    case True
    then show ?thesis using that e [of w] assms(7) by (simp add: user_page_def)
  next
    case False
    then show ?thesis using that e [of w] by (simp add: user_page_def)
  qed
  have "vmap_agrees ?t"
    unfolding vmap_agrees_def
  proof (intro conjI allI impI)
    show "bm_inv (vm_vmap ?t)" using assms(8) by simp
    fix w assume "unat (IDX w) \<in> bm_univ (vm_vmap ?t)"
    then have u: "unat (IDX w) \<in> bm_univ (vm_vmap s)" using assms(9) by simp
    show uw: "user_addr w" by (rule map_invD(3) [OF assms(1) u])
    show "unat (IDX w) \<in> bm_used (vm_vmap ?t) \<longleftrightarrow> pe_present (entry_of ?t w)"
    proof (cases "IDX w = IDX v")
      case True
      then show ?thesis using e [OF uw] assms(10) by simp
    next
      case False
      then have "unat (IDX w) \<noteq> unat (IDX v)" by (metis unsigned_word_eqI)
      then show ?thesis using e [OF uw] False assms(10) map_invD(4) [OF assms(1) u] by simp
    qed
  qed
  moreover have "frames_owned ?t"
    unfolding frames_owned_def
  proof (intro allI impI)
    fix w assume "user_page ?t w"
    then show "unat (pe_index (entry_of ?t w)) \<in> pool (vm_mem ?t)
        \<and> 0 < refs (vm_mem ?t) (unat (pe_index (entry_of ?t w)))"
      using cases [of w] assms(5,6) map_invD(5) [OF assms(1), of w] by (auto simp: entry_fits_def)
  qed
  moreover have "no_table_mapped ?t"
    unfolding no_table_mapped_def
  proof (intro allI impI)
    fix w i assume "user_page ?t w" "i < 1023" "has_table ?t i"
    then show "table_of ?t i \<noteq> pe_index (entry_of ?t w)"
      using cases [of w] map_invD(7) [OF assms(1), of w i] unfolding tab by (auto simp: entry_fits_def)
  qed
  moreover have "mapped_once ?t"
    unfolding mapped_once_def
  proof (intro allI impI)
    fix w x assume w: "user_page ?t w" and x: "user_page ?t x" and eq: "pe_index (entry_of ?t w) = pe_index (entry_of ?t x)"
    have new: "entry_fits s m e \<Longrightarrow> user_page s y \<Longrightarrow> pe_index (entry_of s y) \<noteq> pe_index e" for y
      using map_invD(6) [OF assms(1), of y] by (auto simp: entry_fits_def)
    show "IDX w = IDX x"
      using cases [OF w] cases [OF x] eq new [of w] new [of x] map_invD(8) [OF assms(1), of w x]
      by (elim disjE conjE) simp_all
  qed
  ultimately show ?thesis using set_entry_inv [OF i dv ht, of e] by (simp add: map_inv_def)
qed

text \<open>Mapping a page of a task whose table is there: a frame of the pool becomes its frame.\<close>

lemma map_new_page:
  assumes "map_inv s" and "unat (IDX v) \<in> bm_univ (vm_vmap s)" and "has_table s (unat (DIDX v))"
    and "bm_inv mp" and "bm_univ mp = bm_univ (vm_vmap s)"
    and "bm_used mp = insert (unat (IDX v)) (bm_used (vm_vmap s))"
  defines "alloc \<equiv> bindE (vm_get_page (s\<lparr>vm_vmap := mp\<rparr>)) (\<lambda>(paddr, s).
     store_entry (table_addr (DIDX v)) (TIDX v) (entry_init (IDX paddr)) s)"
  shows "(\<exists>p m. alloc = Inr (set_entry v (entry_init (of_nat p)) (s\<lparr>vm_mem := m, vm_vmap := mp\<rparr>))
            \<and> map_inv (set_entry v (entry_init (of_nat p)) (s\<lparr>vm_mem := m, vm_vmap := mp\<rparr>))
            \<and> vm_inv (s\<lparr>vm_mem := m\<rparr>)
            \<and> p \<in> pool (vm_mem s) \<and> refs (vm_mem s) p = 0 \<and> refs m = (refs (vm_mem s))(p := 1))
       \<or> alloc = Inl (Panic ''Out of memory!'')"
proof -
  have dv: "unat (DIDX v) < 1023" using map_invD(3) [OF assms(1,2)] by (simp add: user_addr_def)
  have i1: "vm_inv (s\<lparr>vm_vmap := mp\<rparr>)" using map_invD(1) [OF assms(1)] by simp
  from vm_get_page_cases [OF i1] show ?thesis
  proof (elim disjE exE conjE, goal_cases)
    case (1 p m)
    let ?s2 = "s\<lparr>vm_mem := m, vm_vmap := mp\<rparr>" and ?e = "entry_init (of_nat p)"
    have s2: "s\<lparr>vm_vmap := mp, vm_mem := m\<rparr> = ?s2" by simp
    have i2: "vm_inv ?s2" using 1(2) unfolding s2 .
    then have im: "vm_inv (s\<lparr>vm_mem := m\<rparr>)" by simp
    have ht2: "has_table ?s2 (unat (DIDX v))" using assms(3) by simp
    have "alloc = Inr (set_entry v ?e ?s2)"
      unfolding alloc_def using 1(1) page_number(3) [OF 1(5)] store_table [OF i2 dv ht2] by (simp add: s2)
    moreover have pi: "pe_index ?e = of_nat p"
      using page_number(4) [OF 1(5)] 1(5) by (intro pe_index_init) simp
    moreover have "map_inv (set_entry v ?e ?s2)"
    proof (rule map_inv_set [OF assms(1-3) im])
      fix w assume "user_page s w"
      then have "0 < refs (vm_mem s) (unat (pe_index (entry_of s w)))" by (rule map_invD(6) [OF assms(1)])
      then show "0 < refs m (unat (pe_index (entry_of s w)))" using 1(8) by simp
    next
      have "p \<in> pool (vm_mem s)" using 1(4,6) by simp
      then have "\<forall>i < 1023. has_table s i \<longrightarrow> table_of s i \<noteq> of_nat p"
        using fresh_frame(2) [OF map_invD(1) [OF assms(1)] _ 1(5)] 1(7) by force
      then show "entry_fits s m ?e"
        using 1(4,7,8) pi page_number(4) [OF 1(5)] by (simp add: entry_fits_def)
    qed (use assms(4-6) 1(6) in simp_all)
    ultimately show ?case using 1(4,6,7,8) im by auto
  next
    case 2
    then show ?case by (simp add: alloc_def)
  qed
qed

lemma link_page_cases:
  assumes "map_inv s" and "page_aligned v" and "unat (IDX v) \<in> bm_univ (vm_vmap s)"
  shows "(\<exists>s'. link_page v s = Inr s' \<and> map_inv s' \<and> pe_present (entry_of s' v)
            \<and> (\<forall>w. unat (DIDX w) < 1023 \<and> IDX w \<noteq> IDX v \<longrightarrow> entry_of s' w = entry_of s w)
            \<and> bm_univ (vm_vmap s') = bm_univ (vm_vmap s)
            \<and> (if pe_present (entry_of s v) then s' = s
               else \<exists>p. entry_of s' v = entry_init (of_nat p) \<and> p \<in> pool (vm_mem s)
                 \<and> refs (vm_mem s) p = 0 \<and> refs (vm_mem s') p = 1
                 \<and> bm_used (vm_vmap s') = insert (unat (IDX v)) (bm_used (vm_vmap s))))
       \<or> link_page v s = Inl (Panic ''Out of memory!'')"
proof -
  have i: "vm_inv s" by (rule map_invD(1) [OF assms(1)])
  have dv: "unat (DIDX v) < 1023" using map_invD(3) [OF assms(1,3)] by (simp add: user_addr_def)
  show ?thesis
  proof (cases "pe_present (entry_of s v)")
    case True
    then have ht: "has_table s (unat (DIDX v))" by (auto simp: entry_of_def split: if_splits)
    have "link_page v s = Inr s"
      using get_pte_present [OF i ht] load_table [OF i dv ht] vmap_test [OF assms(1,3)] True assms(2)
      by (simp add: link_page_def)
    then show ?thesis using True assms(1) by auto
  next
    case False
    from get_pte_create [OF i dv] show ?thesis
    proof (elim disjE exE conjE, goal_cases)
      case (1 s1)
      note same = 1(4) and ht1 = 1(3)
      have m1: "map_inv s1" by (rule map_inv_same [OF assms(1) 1(2) _ 1(5,6)]) (use same in \<open>simp add: user_addr_def\<close>)
      have e1: "entry_of s1 v = entry_of s v" using same dv by blast
      have u1: "unat (IDX v) \<in> bm_univ (vm_vmap s1)" using assms(3) 1(5) by simp
      from bitmap_set_ok [of "vm_vmap s1", OF map_invD(2) [OF m1] u1, of True] obtain mp where
          mp: "bitmap_set (vm_vmap s1) (IDX v) True = Inr mp" "bm_inv mp" "bm_univ mp = bm_univ (vm_vmap s1)"
          "bm_used mp = insert (unat (IDX v)) (bm_used (vm_vmap s1))" by auto
      have link: "link_page v s = bindE (vm_get_page (s1\<lparr>vm_vmap := mp\<rparr>)) (\<lambda>(paddr, s).
          store_entry (table_addr (DIDX v)) (TIDX v) (entry_init (IDX paddr)) s)"
        using 1(1) load_table [OF 1(2) dv 1(3)] vmap_test [OF m1 u1] e1 False mp(1) assms(2)
        by (simp add: link_page_def Let_def)
      have refs0: "refs (vm_mem s) p = 0" if "refs (vm_mem s1) p = 0" for p
        using 1(6) that unfolding same_refs_def by (metis not_gr_zero)
      from map_new_page [OF m1 u1 ht1 mp(2-4), folded link] show ?case
      proof (elim disjE exE conjE, goal_cases)
        case (1 p m)
        have "entry_of (set_entry v (entry_init (of_nat p)) (s1\<lparr>vm_mem := m, vm_vmap := mp\<rparr>)) w
            = (if IDX w = IDX v then entry_init (of_nat p) else entry_of s w)" if "unat (DIDX w) < 1023" for w
          using map_set_entry [OF 1(3) dv ht1 that] same that by simp
        then show ?case
          using 1 False refs0 dv mp(3,4) \<open>vm_vmap s1 = vm_vmap s\<close> \<open>same_refs s s1\<close>
          by (intro disjI1 exI [of _ "set_entry v (entry_init (of_nat p)) (s1\<lparr>vm_mem := m, vm_vmap := mp\<rparr>)"])
             (auto simp: same_refs_def)
      qed simp
    next
      case 2
      then show ?case using assms(2) by (simp add: link_page_def)
    qed
  qed
qed

text \<open>Unlinking: the page is unmapped, its bit cleared and one reference dropped; a page that is not
  mapped stays so.\<close>

lemma unlink_page_mapped:
  assumes "map_inv s" and "page_aligned v" and "unat (IDX v) \<in> bm_univ (vm_vmap s)"
    and "pe_present (entry_of s v)"
  defines "f \<equiv> unat (pe_index (entry_of s v))"
  shows "\<exists>s'. unlink_page v s = Inr s' \<and> map_inv s' \<and> \<not> pe_present (entry_of s' v) \<and> has_table s' (unat (DIDX v))
     \<and> (\<forall>w. unat (DIDX w) < 1023 \<and> IDX w \<noteq> IDX v \<longrightarrow> entry_of s' w = entry_of s w)
     \<and> bm_univ (vm_vmap s') = bm_univ (vm_vmap s)
     \<and> bm_used (vm_vmap s') = bm_used (vm_vmap s) - {unat (IDX v)}
     \<and> refs (vm_mem s') = (refs (vm_mem s))(f := refs (vm_mem s) f - 1)"
proof -
  let ?e = "entry_of s v" and ?e' = "pe_set_present False (entry_of s v)"
  have i: "vm_inv s" by (rule map_invD(1) [OF assms(1)])
  then have mi: "mem_inv (vm_mem s)" by (simp add: vm_inv_def)
  have v: "user_addr v" by (rule map_invD(3) [OF assms(1,3)])
  then have up: "user_page s v" using assms(4) by (simp add: user_page_def)
  from v have dv: "unat (DIDX v) < 1023" by (simp add: user_addr_def)
  have ht: "has_table s (unat (DIDX v))" using assms(4) by (auto simp: entry_of_def split: if_splits)
  have f: "f \<in> pool (vm_mem s)" "0 < refs (vm_mem s) f"
    using map_invD(5,6) [OF assms(1) up] by (simp_all add: f_def)
  from pa.put_ok [OF mi f] obtain m where m: "put_page (PAGE (of_nat f)) (vm_mem s) = Inr m" "mem_inv m"
      "pool m = pool (vm_mem s)" "refs m = (refs (vm_mem s))(f := refs (vm_mem s) f - 1)" by blast
  from bitmap_set_ok [of "vm_vmap s", OF map_invD(2) [OF assms(1)] assms(3), of False] obtain mp where
      mp: "bitmap_set (vm_vmap s) (IDX v) False = Inr mp" "bm_inv mp" "bm_univ mp = bm_univ (vm_vmap s)"
      "bm_used mp = bm_used (vm_vmap s) - {unat (IDX v)}" by auto
  let ?s' = "set_entry v ?e' (s\<lparr>vm_mem := m, vm_vmap := mp\<rparr>)"
  have fw: "of_nat f = pe_index ?e" by (simp add: f_def)
  have "(set_entry v ?e' s)\<lparr>vm_vmap := mp, vm_mem := m\<rparr> = ?s'"
    by (simp add: set_entry_def Let_def table_of_def dir_def)
  then have unlink: "unlink_page v s = Inr ?s'"
    using get_pte_present [OF i ht] load_table [OF i dv ht] vmap_test [OF assms(1,3)] assms(2,4)
      store_table [OF i dv ht] mp(1) m(1) fw
    by (simp add: unlink_page_def vm_put_page_def)
  have tk: "taken m (table_of s j)" if "j < 1023" "has_table s j" for j
  proof -
    have "taken (vm_mem s) (table_of s j)" using i that by (simp add: vm_inv_def)
    moreover have "unat (table_of s j) \<noteq> f" using map_invD(7) [OF assms(1) up that]
      by (auto simp: f_def dest: unsigned_word_eqI)
    ultimately show ?thesis using m(3,4) by (simp add: taken_def)
  qed
  have im: "vm_inv (s\<lparr>vm_mem := m\<rparr>)"
    using i tk m(2) by (simp add: vm_inv_def)
  have "map_inv ?s'"
  proof (rule map_inv_set [OF assms(1,3) ht im m(3)])
    fix w assume w: "user_page s w" "IDX w \<noteq> IDX v"
    then have "0 < refs (vm_mem s) (unat (pe_index (entry_of s w)))" using map_invD(6) [OF assms(1)] by blast
    moreover have "unat (pe_index (entry_of s w)) \<noteq> f"
      using map_invD(8) [OF assms(1) w(1) up] w(2) by (auto simp: f_def dest: unsigned_word_eqI)
    ultimately show "0 < refs m (unat (pe_index (entry_of s w)))" using m(4) by auto
  qed (use mp in simp_all)
  then show ?thesis
    using unlink map_set_entry [OF im dv ht, where e = ?e' and mp = mp] dv mp m(4)
      set_entry_dir [of "s\<lparr>vm_mem := m, vm_vmap := mp\<rparr>" v ?e'] im ht
    by (intro exI [of _ ?s']) (simp add: has_table_def)
qed

lemma unlink_page_unmapped:
  assumes "map_inv s" and "page_aligned v" and "unat (IDX v) \<in> bm_univ (vm_vmap s)"
    and "\<not> pe_present (entry_of s v)" and "has_table s (unat (DIDX v))"
  shows "unlink_page v s = Inr s"
proof -
  have i: "vm_inv s" by (rule map_invD(1) [OF assms(1)])
  have dv: "unat (DIDX v) < 1023" using map_invD(3) [OF assms(1,3)] by (simp add: user_addr_def)
  show ?thesis
    using get_pte_present [OF i assms(5)] load_table [OF i dv assms(5)] vmap_test [OF assms(1,3)] assms(2,4)
    by (simp add: unlink_page_def)
qed

section \<open>Copy on write\<close>

text \<open>Writing a frame that is no table and not the directory.\<close>

definition is_data :: "vm_t \<Rightarrow> u32 \<Rightarrow> bool" where
  "is_data s f \<longleftrightarrow> f \<noteq> IDX (vm_cr3 s) \<and> (\<forall>i < 1023. has_table s i \<longrightarrow> f \<noteq> table_of s i)"

definition data_write :: "u32 \<Rightarrow> u32 list \<Rightarrow> vm_t \<Rightarrow> vm_t" where
  "data_write f ws s = s\<lparr>vm_frames := (vm_frames s)(f := ws)\<rparr>"

lemma data_write_frame [simp]:
  "vm_mem (data_write f ws s) = vm_mem s" "vm_cr3 (data_write f ws s) = vm_cr3 s"
  "vm_vmap (data_write f ws s) = vm_vmap s" "vm_brk (data_write f ws s) = vm_brk s"
  "vm_uid (data_write f ws s) = vm_uid s" "vm_pde (data_write f ws s) = vm_pde s"
  "vm_frames (data_write f ws s) f = ws"
  by (simp_all add: data_write_def)

lemma data_write_inv:
  assumes "vm_inv s" and "is_data s f"
  shows "vm_inv (data_write f ws s)"
    and "has_table (data_write f ws s) i = has_table s i" and "table_of (data_write f ws s) i = table_of s i"
    and "unat (DIDX w) < 1023 \<Longrightarrow> entry_of (data_write f ws s) w = entry_of s w"
proof -
  have d: "dir (data_write f ws s) = dir s" using assms(2) by (auto simp: data_write_def dir_def is_data_def)
  show t: "has_table (data_write f ws s) i = has_table s i" "table_of (data_write f ws s) i = table_of s i" for i
    by (simp_all add: has_table_def table_of_def d)
  have fr: "vm_frames (data_write f ws s) (table_of s i) = vm_frames s (table_of s i)"
    if "i < 1023" "has_table s i" for i
    using assms(2) that by (auto simp: data_write_def is_data_def)
  show "vm_inv (data_write f ws s)" using assms(1) fr by (simp add: vm_inv_def t d)
  show "unat (DIDX w) < 1023 \<Longrightarrow> entry_of (data_write f ws s) w = entry_of s w"
    using fr by (simp add: entry_of_def t)
qed

lemma zero_addr: "unat (DIDX 0) = 0" "TIDX 0 = 0" "IDX 0 = 0" "\<not> user_addr 0"
  by (simp_all add: DIDX_def TIDX_def IDX_def user_addr_def)

lemma user_addr_nonzero: "user_addr v \<Longrightarrow> IDX v \<noteq> 0"
  using IDX_eq_iff [of v 0] zero_addr by (auto simp: user_addr_def)

text \<open>
  The state after \<open>copy_page\<close> took frame \<open>p\<close> for the contents of \<open>f\<close>, with the counts \<open>m\<close>: the
  entry of address 0 has been used and is not present again.
\<close>

definition copied :: "nat \<Rightarrow> u32 \<Rightarrow> vm_t \<Rightarrow> vm_t" where
  "copied p f s = set_entry 0 (pe_set_present False (entry_init (of_nat p)))
     (data_write (of_nat p) (vm_frames s f) (set_entry 0 (entry_init (of_nat p)) s))"

lemma copied_frame [simp]:
  "vm_mem (copied p f s) = vm_mem s" "vm_cr3 (copied p f s) = vm_cr3 s" "vm_vmap (copied p f s) = vm_vmap s"
  "vm_brk (copied p f s) = vm_brk s" "vm_uid (copied p f s) = vm_uid s" "vm_pde (copied p f s) = vm_pde s"
  by (simp_all add: copied_def)

lemma set_entry_tables:
  assumes "vm_inv s" and "unat (DIDX v) < 1023" and "has_table s (unat (DIDX v))"
  shows "has_table (set_entry v e s) i = has_table s i" and "table_of (set_entry v e s) i = table_of s i"
  by (simp_all add: has_table_def table_of_def set_entry_dir [OF assms])

lemma copied_props:
  assumes "vm_inv s" and "has_table s 0" and "is_data s (of_nat p)"
  shows "vm_inv (copied p f s)" and "has_table (copied p f s) i = has_table s i"
    and "table_of (copied p f s) i = table_of s i"
    and "unat (DIDX w) < 1023 \<Longrightarrow> IDX w \<noteq> 0 \<Longrightarrow> entry_of (copied p f s) w = entry_of s w"
    and "\<not> pe_present (entry_of (copied p f s) 0)"
    and "vm_frames (copied p f s) (of_nat p) = vm_frames s f"
proof -
  let ?e = "entry_init (of_nat p)"
  let ?s1 = "set_entry 0 ?e s"
  let ?s2 = "data_write (of_nat p) (vm_frames s f) ?s1"
  have z: "unat (DIDX 0) < 1023" and h0: "has_table s (unat (DIDX 0))" using assms(2) by (simp_all add: zero_addr)
  note t1 = set_entry_tables [OF assms(1) z h0]
  have i1: "vm_inv ?s1" by (rule set_entry_inv [OF assms(1) z h0])
  have "is_data ?s1 (of_nat p)" using assms(3) by (simp add: is_data_def t1)
  note d = data_write_inv [OF i1 this]
  have h2: "has_table ?s2 (unat (DIDX 0))" using h0 by (simp add: d(2) t1)
  note t2 = set_entry_tables [OF d(1) z h2]
  show "vm_inv (copied p f s)" unfolding copied_def by (rule set_entry_inv [OF d(1) z h2])
  show "has_table (copied p f s) i = has_table s i" "table_of (copied p f s) i = table_of s i"
    unfolding copied_def by (simp_all add: t2 d(2,3) t1)
  show "unat (DIDX w) < 1023 \<Longrightarrow> IDX w \<noteq> 0 \<Longrightarrow> entry_of (copied p f s) w = entry_of s w"
    unfolding copied_def
    using set_entry_entry_of [OF d(1) z h2, of w] d(4) [of w] set_entry_entry_of [OF assms(1) z h0, of w]
    by (simp add: zero_addr)
  show "\<not> pe_present (entry_of (copied p f s) 0)"
    unfolding copied_def using set_entry_entry_of [OF d(1) z h2 z] by simp
  have "of_nat p \<noteq> table_of ?s2 0" using assms(2,3) by (simp add: d(3) t1 is_data_def)
  then show "vm_frames (copied p f s) (of_nat p) = vm_frames s f"
    by (simp add: copied_def set_entry_def Let_def zero_addr)
qed

lemma copy_page_ok:
  assumes "vm_inv s" and "has_table s 0" and "unat (DIDX page) < 1023" and "IDX page \<noteq> 0"
    and "pe_present (entry_of s page)" and "pe_index (entry_of s page) \<noteq> table_of s 0"
    and "vm_get_page s = Inr (PAGE (of_nat p), s\<lparr>vm_mem := m\<rparr>)" and "vm_inv (s\<lparr>vm_mem := m\<rparr>)"
    and "p < 2 ^ 20" and "is_data s (of_nat p)"
  shows "copy_page page s
    = Inr (PAGE (of_nat p), copied p (pe_index (entry_of s page)) (s\<lparr>vm_mem := m\<rparr>))"
proof -
  let ?s = "s\<lparr>vm_mem := m\<rparr>" and ?e = "entry_init (of_nat p)" and ?f = "pe_index (entry_of s page)"
  let ?s1 = "set_entry 0 ?e ?s"
  let ?s2 = "data_write (of_nat p) (vm_frames s ?f) ?s1"
  have z: "unat (DIDX 0) < 1023" and h0: "has_table ?s (unat (DIDX 0))" using assms(2) by (simp_all add: zero_addr)
  note t1 = set_entry_tables [OF assms(8) z h0]
  have i1: "vm_inv ?s1" by (rule set_entry_inv [OF assms(8) z h0])
  have h1: "has_table ?s1 (unat (DIDX 0))" using h0 by (simp add: t1)
  have "is_data ?s1 (of_nat p)" using assms(10) by (simp add: is_data_def t1)
  note d = data_write_inv [OF i1 this]
  have h2: "has_table ?s2 (unat (DIDX 0))" using h1 by (simp add: d(2))
  have pi: "pe_index ?e = of_nat p" using page_number(4) [OF assms(9)] assms(9) by (intro pe_index_init) simp
  have "walk ?s1 0 = Inr (of_nat p)" "walk ?s1 page = Inr ?f"
    using walk_split [OF i1 z] walk_split [OF i1 assms(3)] set_entry_entry_of [OF assms(8) z h0 z, of ?e]
      set_entry_entry_of [OF assms(8) z h0 assms(3), of ?e] assms(4,5) pi by (simp_all add: zero_addr)
  moreover have "vm_frames ?s1 ?f = vm_frames s ?f"
    using assms(6) by (simp add: set_entry_def Let_def zero_addr)
  ultimately have copy: "copy_words 0 page ?s1 = Inr ?s2" by (simp add: copy_words_def data_write_def)
  have "entry_of ?s2 0 = ?e" using d(4) [OF z] set_entry_entry_of [OF assms(8) z h0 z, of ?e] by simp
  then have load: "load_entry ?s2 (table_addr (DIDX 0)) (TIDX 0) = Inr ?e"
    using load_table [OF d(1) z h2] by simp
  show ?thesis
    using assms(7) get_pte_present [OF assms(8) h0] store_table [OF assms(8) z h0, of ?e] copy load
      store_table [OF d(1) z h2, of "pe_set_present False ?e"] page_number(3) [OF assms(9)]
    by (simp add: copy_page_def copied_def zero_addr)
qed

lemma copied_mem: "copied p f (s\<lparr>vm_mem := m\<rparr>) = (copied p f s)\<lparr>vm_mem := m\<rparr>"
  by (simp add: copied_def set_entry_def data_write_def Let_def table_of_def dir_def)

lemma mem_inv_drop_ref:
  assumes "mem_inv m" and "f \<in> pool m" and "1 < refs m f"
  defines "m' \<equiv> m\<lparr>memory_map := (memory_map m)[f := memory_map m ! f - 1]\<rparr>"
  shows "f < length (memory_map m)" and "mem_inv m'" and "pool m' = pool m"
    and "refs m' = (refs m)(f := refs m f - 1)"
proof -
  show f: "f < length (memory_map m)" using assms(1,2) by (auto simp: mem_inv_def pool_def)
  have "memory_map m ! f \<noteq> 0" using assms(3) by (auto simp: refs_def)
  then have "unat (memory_map m ! f - 1) = unat (memory_map m ! f) - 1" by (rule unat_minus_one)
  then show r: "refs m' = (refs m)(f := refs m f - 1)"
    using refs_update [OF f, of "free_pages m" "memory_map m ! f - 1"] by (simp add: m'_def refs_def)
  show p: "pool m' = pool m" by (simp add: m'_def pool_def)
  have "free_set m' = free_set m" using assms(3) unfolding free_set_def p r by auto
  then show "mem_inv m'" using assms(1,3) r by (auto simp: mem_inv_def m'_def)
qed

lemma fault_addr:
  assumes "KERNEL_MEMORY_SIZE \<le> v" and "v < USER_STACK_TOP"
  shows "user_addr v"
proof -
  have "0x1000000 \<le> unat v" "unat v < 0x8000000"
    using assms by (simp_all add: word_le_nat_alt word_less_nat_alt KERNEL_MEMORY_SIZE_def USER_STACK_TOP_def)
  then have "4 \<le> unat v div 4194304 \<and> unat v div 4194304 < 1023" by auto
  then show ?thesis by (simp add: user_addr_def unat_DIDX)
qed

lemma PAGE_IDX:
  shows "IDX (PAGE (IDX v)) = IDX v" and "page_aligned (PAGE (IDX v))"
proof -
  have "unat (IDX v) < 2 ^ 20" using u32_bound [of v] by (simp add: unat_IDX)
  from page_number(2,3) [OF this] show "IDX (PAGE (IDX v)) = IDX v" "page_aligned (PAGE (IDX v))" by simp_all
qed

text \<open>The state after a copy on write of the page of \<open>v\<close>, from frame \<open>f\<close> to frame \<open>p\<close>.\<close>

definition cow_mem :: "u32 \<Rightarrow> mem_t \<Rightarrow> mem_t" where
  "cow_mem f m = m\<lparr>memory_map := (memory_map m)[unat f := memory_map m ! unat f - 1]\<rparr>"

definition cow_state :: "u32 \<Rightarrow> nat \<Rightarrow> u32 \<Rightarrow> mem_t \<Rightarrow> vm_t \<Rightarrow> vm_t" where
  "cow_state v p f m s = set_entry v (entry_init (of_nat p)) ((copied p f s)\<lparr>vm_mem := cow_mem f m\<rparr>)"

lemma vmap_self: "vm_vmap r = mp \<Longrightarrow> r\<lparr>vm_vmap := mp\<rparr> = r"
  by (cases r) simp

lemma page_fault_cow_step:
  assumes "map_inv s" and "has_table s 0" and "KERNEL_MEMORY_SIZE \<le> v" and "v < USER_STACK_TOP"
    and "bit error 0" and "bit error 1" and "pe_present (entry_of s v)"
  defines "f \<equiv> pe_index (entry_of s v)"
  assumes "1 < refs (vm_mem s) (unat f)"
    and "vm_get_page s = Inr (PAGE (of_nat p), s\<lparr>vm_mem := m\<rparr>)" and "vm_inv (s\<lparr>vm_mem := m\<rparr>)"
    and "p < 2 ^ 20" and "is_data s (of_nat p)" and "pool m = pool (vm_mem s)"
    and "refs m (unat f) = refs (vm_mem s) (unat f)"
  shows "page_fault 0xe v error s = Inr (cow_state v p f m s)"
proof -
  let ?pte = "table_addr (DIDX v)" and ?s1 = "(copied p f s)\<lparr>vm_mem := m\<rparr>"
  have i: "vm_inv s" by (rule map_invD(1) [OF assms(1)])
  have ua: "user_addr v" by (rule fault_addr [OF assms(3,4)])
  then have dv: "unat (DIDX v) < 1023" and up: "user_page s v" using assms(7) by (simp_all add: user_addr_def user_page_def)
  have nz: "IDX v \<noteq> 0" by (rule user_addr_nonzero [OF ua])
  have ht: "has_table s (unat (DIDX v))" using assms(7) by (auto simp: entry_of_def split: if_splits)
  have ft: "f \<noteq> table_of s 0" using map_invD(7) [OF assms(1) up, of 0] assms(2) by (auto simp: f_def)
  have page: "entry_of s (PAGE (IDX v)) = entry_of s v" "IDX (PAGE (IDX v)) = IDX v"
    using entry_of_page [OF PAGE_IDX(1)] PAGE_IDX(1) by auto
  then have dp: "unat (DIDX (PAGE (IDX v))) < 1023" using dv IDX_eq_iff [of "PAGE (IDX v)" v] by simp
  have copy: "copy_page (PAGE (IDX v)) s = Inr (PAGE (of_nat p), ?s1)"
    using copy_page_ok [OF i assms(2) dp _ _ _ assms(10-13)] page nz assms(7) ft
    by (simp add: f_def copied_mem)
  have dm: "is_data (s\<lparr>vm_mem := m\<rparr>) (of_nat p)" using assms(13) by (simp add: is_data_def)
  have i1: "vm_inv ?s1" and ht1: "has_table ?s1 (unat (DIDX v))" and e1: "entry_of ?s1 v = entry_of s v"
    using copied_props(1,2,4) [OF assms(11) _ dm, where f = f] assms(2) ht dv nz by (simp_all add: copied_mem)
  have fp: "unat f \<in> pool m" using map_invD(5) [OF assms(1) up] assms(14) by (simp add: f_def)
  have mi: "mem_inv m" using assms(11) by (simp add: vm_inv_def)
  have r2: "1 < refs m (unat f)" using assms(9,15) by simp
  note drop = mem_inv_drop_ref [OF mi fp r2]
  have fs: "unat f < length (memory_map (vm_mem s))" and n: "memory_map (vm_mem s) ! unat f \<noteq> 1"
      "0 < memory_map (vm_mem s) ! unat f"
    using i map_invD(5) [OF assms(1) up] assms(9)
    by (auto simp: vm_inv_def mem_inv_def pool_def f_def refs_def word_less_nat_alt)
  have "taken m g \<Longrightarrow> taken (cow_mem f m) g" for g
    using drop(3,4) r2 by (auto simp: taken_def cow_mem_def)
  then have i2: "vm_inv ((copied p f s)\<lparr>vm_mem := cow_mem f m\<rparr>)"
    using vm_inv_mem [OF i1, of "cow_mem f m"] drop(2) by (simp add: cow_mem_def)
  have ht2: "has_table ((copied p f s)\<lparr>vm_mem := cow_mem f m\<rparr>) (unat (DIDX v))" using ht1 by simp
  show ?thesis
    using get_pte_present [OF i ht] load_table [OF i dv ht] load_table [OF i1 dv ht1] e1 copy fs n drop(1)
      store_table [OF i2 dv ht2, of "entry_init (of_nat p)"] assms(3-7) page_number(3) [OF assms(12)]
    by (simp add: page_fault_def frame_count_def set_frame_count_def f_def [symmetric] cow_state_def cow_mem_def)
qed

lemma cow_state_inv:
  assumes "map_inv s" and "has_table s 0" and "user_page s v" and "unat (IDX v) \<in> bm_univ (vm_vmap s)"
  defines "f \<equiv> pe_index (entry_of s v)"
  assumes "1 < refs (vm_mem s) (unat f)"
    and "vm_inv (s\<lparr>vm_mem := m\<rparr>)" and "p < 2 ^ 20" and "is_data s (of_nat p)"
    and "pool m = pool (vm_mem s)" and "p \<in> pool m" and "refs (vm_mem s) p = 0"
    and "refs m = (refs (vm_mem s))(p := 1)"
  shows "map_inv (cow_state v p f m s)"
    and "user_addr w \<Longrightarrow> entry_of (cow_state v p f m s) w = (if IDX w = IDX v then entry_init (of_nat p) else entry_of s w)"
    and "vm_frames (cow_state v p f m s) (of_nat p) = vm_frames s f"
    and "refs (vm_mem (cow_state v p f m s)) = (refs (vm_mem s))(p := 1, unat f := refs (vm_mem s) (unat f) - 1)"
proof -
  let ?b = "copied p f s" and ?e = "entry_init (of_nat p)"
  have i: "vm_inv s" by (rule map_invD(1) [OF assms(1)])
  have ua: "user_addr v" using assms(3) by (simp add: user_page_def)
  then have dv: "unat (DIDX v) < 1023" by (simp add: user_addr_def)
  have ht: "has_table s (unat (DIDX v))" using assms(3) by (auto simp: user_page_def entry_of_def split: if_splits)
  note c = copied_props [OF i assms(2,9), where f = f]
  have eb: "entry_of ?b w = entry_of s w" if "user_addr w" for w
    using c(4) [of w] that user_addr_nonzero [OF that] by (simp add: user_addr_def)
  have mb: "map_inv ?b"
    by (rule map_inv_same [OF assms(1) c(1) eb]) (simp_all add: same_refs_def c(2,3))
  have pi: "pe_index ?e = of_nat p" and pn: "unat (of_nat p :: u32) = p"
    using page_number(4) [OF assms(8)] assms(8) by (auto intro!: pe_index_init)
  have pf: "p \<noteq> unat f" using assms(6,12) by auto
  have fp: "unat f \<in> pool m" using map_invD(5) [OF assms(1,3)] assms(10) by (simp add: f_def)
  have mi: "mem_inv m" using assms(7) by (simp add: vm_inv_def)
  have r2: "1 < refs m (unat f)" using assms(6,13) pf by simp
  note drop = mem_inv_drop_ref [OF mi fp r2, folded cow_mem_def]
  have i2: "vm_inv (?b\<lparr>vm_mem := cow_mem f m\<rparr>)"
    by (rule vm_inv_mem [OF c(1) drop(2)])
       (use drop(3,4) r2 assms(10,13) in \<open>auto simp: taken_def split: if_splits\<close>)
  have hb: "has_table ?b (unat (DIDX v))" using ht by (simp add: c(2))
  have s': "cow_state v p f m s = set_entry v ?e (?b\<lparr>vm_mem := cow_mem f m, vm_vmap := vm_vmap s\<rparr>)"
    unfolding cow_state_def by (simp add: vmap_self)
  have ub: "unat (IDX v) \<in> bm_univ (vm_vmap ?b)" using assms(4) by simp
  show "map_inv (cow_state v p f m s)"
    unfolding s'
  proof (rule map_inv_set [OF mb ub hb i2])
    fix w assume w: "user_page ?b w"
    then have "0 < refs (vm_mem s) (unat (pe_index (entry_of ?b w)))" using map_invD(6) [OF mb w] by simp
    then show "0 < refs (cow_mem f m) (unat (pe_index (entry_of ?b w)))"
      using drop(4) r2 assms(13) by (auto split: if_splits)
  next
    have "\<forall>i < 1023. has_table ?b i \<longrightarrow> table_of ?b i \<noteq> of_nat p"
      using assms(9) by (auto simp: is_data_def c(2,3))
    then show "entry_fits ?b (cow_mem f m) ?e"
      using assms(11,12,13) drop(3,4) pi pn pf by (simp add: entry_fits_def)
  next
    show "bm_used (vm_vmap s) = (if pe_present ?e then insert (unat (IDX v)) (bm_used (vm_vmap ?b))
        else bm_used (vm_vmap ?b) - {unat (IDX v)})"
      using map_invD(4) [OF assms(1,4)] assms(3) by (auto simp: user_page_def)
  qed (use drop(3) assms(10) map_invD(2) [OF assms(1)] in simp_all)
  show "user_addr w \<Longrightarrow> entry_of (cow_state v p f m s) w = (if IDX w = IDX v then ?e else entry_of s w)"
    unfolding s' using map_set_entry [OF i2 dv hb, of w] eb [of w] by (simp add: user_addr_def)
  have "of_nat p \<noteq> table_of s (unat (DIDX v))" using assms(9) dv ht by (auto simp: is_data_def)
  then show "vm_frames (cow_state v p f m s) (of_nat p) = vm_frames s f"
    by (simp add: cow_state_def set_entry_def Let_def c(3,6))
  show "refs (vm_mem (cow_state v p f m s)) = (refs (vm_mem s))(p := 1, unat f := refs (vm_mem s) (unat f) - 1)"
    using drop(4) assms(13) pf by (simp add: cow_state_def)
qed

section \<open>Operations that never come back\<close>

lemma unlink_page_cases:
  assumes "map_inv s" and "page_aligned v" and "unat (IDX v) \<in> bm_univ (vm_vmap s)"
  shows "(\<exists>s'. unlink_page v s = Inr s' \<and> map_inv s' \<and> \<not> pe_present (entry_of s' v)
            \<and> has_table s' (unat (DIDX v)) \<and> bm_univ (vm_vmap s') = bm_univ (vm_vmap s))
       \<or> unlink_page v s = Inl (Panic ''Out of memory!'')"
proof (cases "pe_present (entry_of s v)")
  case True
  then show ?thesis using unlink_page_mapped [OF assms True] by blast
next
  case False
  have i: "vm_inv s" by (rule map_invD(1) [OF assms(1)])
  have dv: "unat (DIDX v) < 1023" using map_invD(3) [OF assms(1,3)] by (simp add: user_addr_def)
  from get_pte_create [OF i dv] show ?thesis
  proof (elim disjE exE conjE, goal_cases)
    case (1 s1)
    have m1: "map_inv s1"
      by (rule map_inv_same [OF assms(1) 1(2) _ 1(5,6)]) (use 1(4) in \<open>simp add: user_addr_def\<close>)
    have u1: "unat (IDX v) \<in> bm_univ (vm_vmap s1)" using assms(3) 1(5) by simp
    have e1: "\<not> pe_present (entry_of s1 v)" using False 1(4) dv by simp
    have "unlink_page v s = unlink_page v s1"
      using 1(1) get_pte_present [OF 1(2,3)] by (simp add: unlink_page_def)
    then have "unlink_page v s = Inr s1" using unlink_page_unmapped [OF m1 assms(2) u1 e1 1(3)] by simp
    then show ?case using m1 e1 1(3,5) by (intro disjI1 exI [of _ s1]) simp
  next
    case 2
    then show ?case using assms(2) by (simp add: unlink_page_def)
  qed
qed

text \<open>Where unlinking changes nothing the loop has no end.\<close>

lemma brk_loop_stuck:
  assumes "page < old_brk" and "unlink_page page s = Inr s"
  shows "brk_loop page old_brk s = None"
proof (cases "brk_loop page old_brk s")
  case (Some r)
  have "\<not> (page < old_brk \<and> unlink_page page s = Inr s)"
    by (rule brk_loop.raw_induct [where P = "\<lambda>page old_brk s r. \<not> (page < old_brk \<and> unlink_page page s = Inr s)",
          OF _ Some])
       (auto split: if_splits sum.splits)
  then show ?thesis using assms by simp
qed simp

lemma sys_brk_shrink:
  assumes "map_inv s" and "page_aligned brk" and "unat (IDX brk) \<in> bm_univ (vm_vmap s)"
    and "brk < vm_brk s"
  shows "returns (brk_loop brk (vm_brk s) s) \<in> {Inl NoReturn, Inl (Panic ''Out of memory!'')}"
  using unlink_page_cases [OF assms(1-3)]
proof (elim disjE exE conjE, goal_cases)
  case (1 s')
  have "unat (IDX brk) \<in> bm_univ (vm_vmap s')" using assms(3) 1(5) by simp
  from brk_loop_stuck [OF assms(4) unlink_page_unmapped [OF 1(2) assms(2) this 1(3,4)]]
  have "brk_loop brk (vm_brk s) s' = None" .
  then have "brk_loop brk (vm_brk s) s = None"
    using assms(4) 1(1) by (subst brk_loop.simps) simp
  then show ?case by simp
next
  case 2
  then show ?case using assms(4) by (subst brk_loop.simps) simp
qed

text \<open>\<open>free_pde\<close> gives back the kernel's tables 2 and 3, below the first page of the pool.\<close>

definition put_state :: "vm_t \<Rightarrow> vm_t \<Rightarrow> bool" where
  "put_state s t \<longleftrightarrow> vm_frames t = vm_frames s \<and> vm_cr3 t = vm_cr3 s
     \<and> start_page (vm_mem t) = start_page (vm_mem s)"

lemma put_state_walk: "put_state s t \<Longrightarrow> walk t v = walk s v"
  by (simp add: put_state_def walk_def)

lemma vm_put_page_state: "vm_put_page a s = Inr t \<Longrightarrow> put_state s t"
  by (auto simp: vm_put_page_def put_page_def put_state_def res_simps Let_def)

lemma free_table_stops:
  assumes "load_entry s get_pde 2 = Inr (entry_init 4)" and "4 < start_page (vm_mem s)"
  shows "\<exists>e. free_table 2 s = Inl e"
proof (cases "free_table 2 s")
  case (Inr t)
  let ?step = "\<lambda>tidx s. bindE (load_entry s (table_addr (of_nat 2)) (of_nat tidx)) (\<lambda>entry.
           if \<not> pe_present entry then Inr s
           else bindE (frame_count s (pe_index entry)) (\<lambda>n.
                kassert (n > 0) (vm_put_page (PAGE (pe_index entry)) s)))"
  have pi: "pe_index (entry_init 4) = 4" by (rule pe_index_init) simp
  from Inr assms(1) obtain u where u: "foldE ?step [0 ..< 1024] s = Inr u" "vm_put_page (PAGE 4) u = Inr t"
    by (auto simp: free_table_def res_simps pi)
  have "put_state s u"
  proof (rule foldE_keeps [OF u(1)])
    show "put_state s s" by (simp add: put_state_def)
    fix i v w assume "put_state s v" "?step i v = Inr w"
    then show "put_state s w"
      by (auto simp: res_simps put_state_def split: if_splits dest!: vm_put_page_state)
  qed
  then have "4 < start_page (vm_mem u)" using assms(2) by (simp add: put_state_def)
  moreover have "IDX (PAGE 4) = 4" using page_number(3) [of 4] by simp
  ultimately show ?thesis
    using u(2) by (auto simp: vm_put_page_def put_page_def res_simps Let_def)
qed simp

lemma link_page_present:
  assumes "map_inv s" and "page_aligned v" and "unat (IDX v) \<in> bm_univ (vm_vmap s)" and "pe_present (entry_of s v)"
  shows "link_page v s = Inr s"
proof -
  have i: "vm_inv s" by (rule map_invD(1) [OF assms(1)])
  have dv: "unat (DIDX v) < 1023" using map_invD(3) [OF assms(1,3)] by (simp add: user_addr_def)
  have ht: "has_table s (unat (DIDX v))" using assms(4) by (auto simp: entry_of_def split: if_splits)
  show ?thesis
    using get_pte_present [OF i ht] load_table [OF i dv ht] vmap_test [OF assms(1,3)] assms(2,4)
    by (simp add: link_page_def)
qed

lemma page_fault_oom:
  assumes "map_inv s" and "has_table s 0" and "KERNEL_MEMORY_SIZE \<le> v" and "v < USER_STACK_TOP"
    and "bit error 0" and "bit error 1" and "pe_present (entry_of s v)"
    and "1 < refs (vm_mem s) (unat (pe_index (entry_of s v)))"
    and "vm_get_page s = Inl e"
  shows "page_fault 0xe v error s = Inl e"
proof -
  let ?f = "pe_index (entry_of s v)"
  have i: "vm_inv s" by (rule map_invD(1) [OF assms(1)])
  have ua: "user_addr v" by (rule fault_addr [OF assms(3,4)])
  then have dv: "unat (DIDX v) < 1023" and up: "user_page s v" using assms(7) by (simp_all add: user_addr_def user_page_def)
  have ht: "has_table s (unat (DIDX v))" using assms(7) by (auto simp: entry_of_def split: if_splits)
  have "unat ?f < length (memory_map (vm_mem s))" "memory_map (vm_mem s) ! unat ?f \<noteq> 1"
      "0 < memory_map (vm_mem s) ! unat ?f"
    using i map_invD(5) [OF assms(1) up] assms(8)
    by (auto simp: vm_inv_def mem_inv_def pool_def refs_def word_less_nat_alt)
  then show ?thesis
    using get_pte_present [OF i ht] load_table [OF i dv ht] assms(3-7,9)
    by (simp add: page_fault_def frame_count_def copy_page_def)
qed

end
