(* ===== verification/Boot.thy ===== *)
theory Boot
  imports AddressSpace
begin

text \<open>
  The state the kernel boots into, from \<open>memory_init\<close>, \<open>memory_map_init\<close> and
  \<open>mapping_init\<close> of \<^verbatim>\<open>kernel/memory.c\<close>: the counts, the map of kernel pages and the identity
  mapping. Then the properties of virtual memory, with an address space that has one shared
  page to witness them.
\<close>

section \<open>Counting the pages\<close>

lemma memory_init_ok:
  assumes "memory_init peek magic addr m0 = Inr m"
  shows "memory_base m = MEMORY_BASE" and "page_aligned (memory_size m)"
    and "0x1000000 \<le> unat (memory_size m)"
    and "total_pages m = IDX (memory_size m) + 256" and "free_pages m = IDX (memory_size m)"
proof -
  have b: "IDX MEMORY_BASE = 256" by (simp add: IDX_def MEMORY_BASE_def)
  from assms obtain m1 where m1: "memory_base m1 = MEMORY_BASE" "memory_size m1 AND 0xfff = 0"
      "\<not> memory_size m1 < KERNEL_MEMORY_SIZE"
      "m = m1\<lparr>total_pages := IDX (memory_size m1) + 256, free_pages := IDX (memory_size m1)\<rparr>"
    unfolding memory_init_def by (auto simp: res_simps Let_def b split: if_splits)
  then show "memory_base m = MEMORY_BASE" "page_aligned (memory_size m)"
    "total_pages m = IDX (memory_size m) + 256" "free_pages m = IDX (memory_size m)"
    by (simp_all add: page_aligned_def)
  show "0x1000000 \<le> unat (memory_size m)"
    using m1(3,4) by (simp add: not_less word_le_nat_alt KERNEL_MEMORY_SIZE_def)
qed

lemma mark_first:
  "n \<le> k \<Longrightarrow> foldE (\<lambda>i bs. wr bs i 1) [0 ..< n] (replicate k 0) = Inr (replicate n (1 :: u8) @ replicate (k - n) 0)"
proof (induction n)
  case 0
  then show ?case by simp
next
  case (Suc n)
  then have "k - n = Suc (k - Suc n)" by simp
  then have "(replicate n 1 @ replicate (k - n) 0)[n := 1] = replicate (Suc n) (1 :: u8) @ replicate (k - Suc n) 0"
    by (simp add: list_update_append replicate_app_Cons_same)
  then show ?case using Suc by (simp add: foldE_append del: replicate_Suc)
qed

definition boot_pages :: "mem_t \<Rightarrow> nat" where
  "boot_pages m = (unat (total_pages m) + 4095) div 4096"

lemma memory_map_init_ok:
  assumes "memory_init peek magic addr m0 = Inr m" and "unat (memory_size m) \<le> 2 ^ 32 - 2 ^ 20"
    and "480 \<le> length bits"
  shows "\<exists>km. memory_map_init bits m = Inr (m\<lparr>memory_map_pages := of_nat (boot_pages m),
       free_pages := free_pages m - of_nat (boot_pages m), start_page := of_nat (256 + boot_pages m),
       memory_map := replicate (256 + boot_pages m) 1 @ replicate (boot_pages m * 4096 - (256 + boot_pages m)) 0,
       kernel_map := km\<rparr>)
     \<and> bm_inv km \<and> bm_univ km = {256 ..< 4096} \<and> bm_used km = {256 ..< 256 + boot_pages m}"
    and "4352 \<le> unat (total_pages m)" and "unat (total_pages m) \<le> 2 ^ 20"
    and "unat (free_pages m) + 256 = unat (total_pages m)"
    and "2 \<le> boot_pages m" and "boot_pages m \<le> 256" and "unat (total_pages m) \<le> boot_pages m * 4096"
proof -
  let ?t = "unat (total_pages m)" and ?n = "boot_pages m"
  note i = memory_init_ok [OF assms(1)]
  have f: "unat (free_pages m) = unat (memory_size m) div 4096" by (simp add: i(5) unat_IDX)
  have "unat (total_pages m) = unat (IDX (memory_size m)) + unat (256 :: u32)"
    unfolding i(4) using assms(2) by (intro unat_add_small) (simp add: unat_IDX)
  then have t: "?t = unat (memory_size m) div 4096 + 256" by (simp add: unat_IDX)
  show tb: "4352 \<le> ?t" "?t \<le> 2 ^ 20" "unat (free_pages m) + 256 = ?t" using i(3) assms(2) t f by auto
  then show n: "2 \<le> ?n" "?n \<le> 256" "?t \<le> ?n * 4096" unfolding boot_pages_def by auto
  have "PAGE_SIZE \<noteq> 0" "unat (total_pages m) + unat PAGE_SIZE \<le> 2 ^ 32"
    using tb by (simp_all add: PAGE_SIZE_def)
  from div_round_up_ceil [OF this] obtain q where q: "div_round_up (total_pages m) PAGE_SIZE = Inr q" "unat q = ?n"
    by (auto simp: PAGE_SIZE_def boot_pages_def)
  have qn: "q = of_nat ?n" by (simp flip: q(2))
  have nb: "unat (q * PAGE_SIZE) = ?n * 4096"
    using q(2) n(2) by (simp add: unat_word_ariths PAGE_SIZE_def)
  have st: "IDX MEMORY_BASE + q = of_nat (256 + ?n)" by (simp add: IDX_def MEMORY_BASE_def qn)
  have un: "unat (of_nat (256 + ?n) :: u32) = 256 + ?n" using n(2) by (intro unat_of_nat_small) simp
  have mark: "foldE (\<lambda>i bs. wr bs i 1) [0 ..< 256 + ?n] (replicate (?n * 4096) 0)
      = Inr (replicate (256 + ?n) (1 :: u8) @ replicate (?n * 4096 - (256 + ?n)) 0)"
    by (rule mark_first) (use n(1) in simp)
  define km0 where "km0 = bitmap_make (replicate 480 0 @ drop 480 bits) 480 256"
  have len: "(IDX KERNEL_MEMORY_SIZE - 256) div 8 = 480" and off: "IDX MEMORY_BASE = 256"
    by (simp_all add: IDX_def KERNEL_MEMORY_SIZE_def MEMORY_BASE_def)
  have init: "bitmap_init bits 480 256 = Inr km0" using assms(3) by (simp add: bitmap_init_def km0_def)
  have k0: "bm_inv km0" "bm_univ km0 = {256 ..< 4096}" "bm_first km0 = 256" "bm_size km0 = 3840"
    by (simp_all add: km0_def bitmap_make_def bm_inv_def bm_univ_def bm_first_def bm_size_def)
  have "\<not> bm_bit km0 i" if "i < 3840" for i
  proof -
    have "i div 8 < 480" using that by auto
    then show ?thesis by (simp add: km0_def bitmap_make_def bm_bit_def nth_append)
  qed
  then have u0: "bm_used km0 = {}" by (auto simp: bm_used_def k0)
  have "0 < q" using q(2) n(1) by (simp add: word_gt_0) (use q(2) n(1) in auto)
  have run: "bm_run km0 256 (unat q)" using n(2) q(2) u0 by (simp add: bm_run_def k0)
  from bitmap_scan_cases [OF k0(1) \<open>0 < q\<close>] run obtain a km where a: "bitmap_scan km0 q = Inr (of_nat a, km)"
      "bm_run km0 a (unat q)" "\<forall>b. b < a \<longrightarrow> \<not> bm_run km0 b (unat q)" "bm_inv km"
      "bm_used km = bm_used km0 \<union> {a ..< a + unat q}" "bm_first km = bm_first km0" "bm_size km = bm_size km0"
    by blast
  have "a = 256" using a(2,3) run by (metis bm_run_def k0(3) antisym not_le)
  then have km: "bm_inv km" "bm_univ km = {256 ..< 4096}" "bm_used km = {256 ..< 256 + ?n}"
    using a(4-7) u0 q(2) k0 by (simp_all add: bm_univ_def)
  show "\<exists>km. memory_map_init bits m = Inr (m\<lparr>memory_map_pages := of_nat ?n,
       free_pages := free_pages m - of_nat ?n, start_page := of_nat (256 + ?n),
       memory_map := replicate (256 + ?n) 1 @ replicate (?n * 4096 - (256 + ?n)) 0, kernel_map := km\<rparr>)
     \<and> bm_inv km \<and> bm_univ km = {256 ..< 4096} \<and> bm_used km = {256 ..< 256 + ?n}"
    using q(1) nb st un mark init a(1) km
    by (intro exI [of _ km]) (simp add: memory_map_init_def Let_def len off qn)
qed

section \<open>The identity mapping\<close>

text \<open>The kernel's tables: entry \<open>t\<close> of table \<open>d\<close>, and the counts it marks.\<close>

definition kernel_entry :: "nat \<Rightarrow> page_entry_t" where
  "kernel_entry i = (if i = 0 then 0 else entry_init (of_nat i))"

definition marked :: "nat \<Rightarrow> u8 list \<Rightarrow> u8 list" where
  "marked n mm = map (\<lambda>j. if j < n \<and> j \<noteq> 0 then 1 else mm ! j) [0 ..< length mm]"

lemma length_marked [simp]: "length (marked n mm) = length mm"
  by (simp add: marked_def)

lemma marked_nth: "j < length mm \<Longrightarrow> marked n mm ! j = (if j < n \<and> j \<noteq> 0 then 1 else mm ! j)"
  by (simp add: marked_def)

lemma marked_0 [simp]: "marked 0 mm = mm"
  by (simp add: marked_def map_nth)

lemma marked_Suc:
  assumes "n < length mm"
  shows "marked (Suc n) mm = (if n = 0 then marked n mm else (marked n mm)[n := 1])"
  using assms by (intro nth_equalityI) (auto simp: marked_nth nth_list_update less_Suc_eq)

lemma map_table_prefix:
  assumes "n \<le> 1024" and "d * 1024 + n \<le> length mm"
  shows "foldE (\<lambda>tidx (ws, mm).
         let index = d * 1024 + tidx in
         if index = 0 then Inr (ws, mm)
         else bindE (wr ws tidx (entry_init (of_nat index))) (\<lambda>ws.
              bindE (wr mm index 1) (\<lambda>mm. Inr (ws, mm))))
       [0 ..< n] (replicate 1024 0, marked (d * 1024) mm)
     = Inr (map (\<lambda>t. kernel_entry (d * 1024 + t)) [0 ..< n] @ replicate (1024 - n) 0, marked (d * 1024 + n) mm)"
  using assms
proof (induction n)
  case 0
  then show ?case by simp
next
  case (Suc n)
  let ?i = "d * 1024 + n"
  have split: "1024 - n = Suc (1024 - Suc n)" using Suc.prems(1) by simp
  have upd: "(map (\<lambda>t. kernel_entry (d * 1024 + t)) [0 ..< n] @ replicate (1024 - n) 0)[n := v]
      = map (\<lambda>t. kernel_entry (d * 1024 + t)) [0 ..< n] @ v # replicate (1024 - Suc n) 0" for v
    unfolding split by (simp add: list_update_append)
  have m: "marked (Suc ?i) mm = (if ?i = 0 then marked ?i mm else (marked ?i mm)[?i := 1])"
    by (rule marked_Suc) (use Suc.prems(2) in simp)
  show ?case
  proof (cases "?i = 0")
    case True
    have "kernel_entry 0 = 0" by (simp add: kernel_entry_def)
    then show ?thesis using Suc True m split by (simp add: foldE_append)
  next
    case False
    then have nz: "(d = 0 \<and> n = 0) = False" and ke: "kernel_entry ?i = entry_init (of_nat ?i)"
      by (auto simp: kernel_entry_def)
    then show ?thesis using Suc m upd [of "kernel_entry ?i"] split by (simp add: foldE_append Let_def nz ke)
  qed
qed

lemma map_table_ok:
  assumes "d * 1024 + 1024 \<le> length mm"
  shows "map_table d (marked (d * 1024) mm)
     = Inr (map (\<lambda>t. kernel_entry (d * 1024 + t)) [0 ..< 1024], marked (d * 1024 + 1024) mm)"
  using map_table_prefix [of 1024 d mm] assms by (simp add: map_table_def del: upt_rec_numeral)

definition kernel_dir :: "u32 list" where
  "kernel_dir = map entry_init [2, 3, 4, 5] @ replicate 1019 0 @ [entry_init 1]"

definition kernel_frames :: "(u32 \<Rightarrow> u32 list) \<Rightarrow> u32 \<Rightarrow> u32 list" where
  "kernel_frames fr = fr(2 := map kernel_entry [0 ..< 1024],
     3 := map (\<lambda>t. kernel_entry (1024 + t)) [0 ..< 1024],
     4 := map (\<lambda>t. kernel_entry (2048 + t)) [0 ..< 1024],
     5 := map (\<lambda>t. kernel_entry (3072 + t)) [0 ..< 1024], 1 := kernel_dir)"

lemma mapping_init_ok:
  assumes "4096 \<le> length (memory_map (vm_mem s))"
  shows "mapping_init s = Inr (s\<lparr>vm_frames := kernel_frames (vm_frames s),
      vm_mem := (vm_mem s)\<lparr>memory_map := marked 4096 (memory_map (vm_mem s))\<rparr>, vm_cr3 := 0x1000\<rparr>)"
proof -
  let ?mm = "memory_map (vm_mem s)"
  have l: "[0 ..< length KERNEL_PAGE_TABLE] = [0, 1, 2, 3]" by (simp add: KERNEL_PAGE_TABLE_def upt_conv_Cons)
  have t: "map_table 0 ?mm = Inr (map kernel_entry [0 ..< 1024], marked 1024 ?mm)"
    "map_table (Suc 0) (marked 1024 ?mm) = Inr (map (\<lambda>t. kernel_entry (1024 + t)) [0 ..< 1024], marked 2048 ?mm)"
    "map_table 2 (marked 2048 ?mm) = Inr (map (\<lambda>t. kernel_entry (2048 + t)) [0 ..< 1024], marked 3072 ?mm)"
    "map_table 3 (marked 3072 ?mm) = Inr (map (\<lambda>t. kernel_entry (3072 + t)) [0 ..< 1024], marked 4096 ?mm)"
    using map_table_ok [of 0 ?mm] map_table_ok [of "Suc 0" ?mm] map_table_ok [of 2 ?mm] map_table_ok [of 3 ?mm] assms
    by (simp_all del: upt_rec_numeral)
  have i: "IDX 0x2000 = 2" "IDX 0x3000 = 3" "IDX 0x4000 = 4" "IDX 0x5000 = 5" "IDX 0x1000 = 1"
    by (simp_all add: IDX_def)
  have dir: "(replicate 1024 0)[0 := entry_init 2, Suc 0 := entry_init 3, 2 := entry_init 4, 3 := entry_init 5,
      1023 := entry_init 1] = kernel_dir"
  proof -
    have "replicate 1024 (0 :: u32) = replicate 4 0 @ replicate 1019 0 @ replicate 1 0"
      by (simp only: replicate_add [symmetric]) simp
    moreover have "replicate 4 (0 :: u32) = [0, 0, 0, 0]" by (simp add: eval_nat_numeral)
    ultimately show ?thesis
      by (simp add: kernel_dir_def list_update_append numeral_2_eq_2 numeral_3_eq_3)
  qed
  have al: "page_aligned 0x1000" by (simp add: page_aligned_def)
  show ?thesis
    unfolding mapping_init_def l
    by (simp add: KERNEL_PAGE_TABLE_def KERNEL_PAGE_DIR_def Let_def t i dir al set_cr3_def kernel_frames_def
        del: upt_rec_numeral)
qed

lemma kernel_dir_nth:
  "i < 4 \<Longrightarrow> kernel_dir ! i = entry_init (of_nat (i + 2))" "4 \<le> i \<Longrightarrow> i < 1023 \<Longrightarrow> kernel_dir ! i = 0"
  "kernel_dir ! 1023 = entry_init 1" "length kernel_dir = 1024"
proof -
  {
    assume i: "4 \<le> i" "i < 1023"
    obtain k where k: "i = 4 + k" using i(1) le_Suc_ex by blast
    then have "k < 1019" using i(2) by simp
    then show "kernel_dir ! i = 0" unfolding k by (simp add: kernel_dir_def nth_append)
  }
  assume "i < 4"
  then have "i = 0 \<or> i = 1 \<or> i = 2 \<or> i = 3" by auto
  then show "kernel_dir ! i = entry_init (of_nat (i + 2))" by (auto simp: kernel_dir_def)
qed (simp_all add: kernel_dir_def nth_append)

lemma kernel_frames_simps:
  "kernel_frames fr 1 = kernel_dir"
  "d < 4 \<Longrightarrow> kernel_frames fr (of_nat (d + 2)) = map (\<lambda>t. kernel_entry (d * 1024 + t)) [0 ..< 1024]"
proof -
  show "kernel_frames fr 1 = kernel_dir" by (simp add: kernel_frames_def)
  assume "d < 4"
  then have "d = 0 \<or> d = 1 \<or> d = 2 \<or> d = 3" by auto
  then show "kernel_frames fr (of_nat (d + 2)) = map (\<lambda>t. kernel_entry (d * 1024 + t)) [0 ..< 1024]"
    by (auto simp: kernel_frames_def simp del: upt_rec_numeral)
qed

text \<open>The mapping the kernel starts with, in any state with its frames, its register and counts that
  keep the invariant.\<close>

lemma kernel_mapping:
  assumes "vm_frames s = kernel_frames fr" and "vm_cr3 s = 0x1000" and "mem_inv (vm_mem s)"
  shows "vm_inv s" and "i < 1023 \<Longrightarrow> has_table s i \<longleftrightarrow> i < 4"
    and "unat (DIDX v) < 1023 \<Longrightarrow> entry_of s v = (if unat (IDX v) < 4096 then kernel_entry (unat (IDX v)) else 0)"
proof -
  have d: "dir s = kernel_dir" and c: "IDX (vm_cr3 s) = 1"
    using assms(1,2) by (simp_all add: dir_def IDX_def kernel_frames_simps)
  show h: "has_table s i \<longleftrightarrow> i < 4" if "i < 1023" for i
    using that kernel_dir_nth(1,2) [of i] by (cases "i < 4") (simp_all add: has_table_def d)
  have t: "table_of s i = of_nat (i + 2)" and u: "unat (of_nat (i + 2) :: u32) = i + 2" if "i < 4" for i
  proof -
    show u: "unat (of_nat (i + 2) :: u32) = i + 2" using that by (intro unat_of_nat_small) simp
    then have "pe_index (entry_init (of_nat (i + 2))) = of_nat (i + 2)" using that by (intro pe_index_init) simp
    then show "table_of s i = of_nat (i + 2)" using that kernel_dir_nth(1) by (simp add: table_of_def d)
  qed
  have f: "vm_frames s (table_of s i) = map (\<lambda>t. kernel_entry (i * 1024 + t)) [0 ..< 1024]" if "i < 4" for i
    using kernel_frames_simps(2) [OF that] t [OF that] assms(1) by simp
  have one: "of_nat (i + 2) \<noteq> (1 :: u32)" if "i < 4" for i
  proof
    assume "of_nat (i + 2) = (1 :: u32)"
    then have "unat (of_nat (i + 2) :: u32) = 1" by (simp only: unsigned_1)
    then show False using u [OF that] by simp
  qed
  have inj: "i = j" if "i < 4" "j < 4" "(of_nat (i + 2) :: u32) = of_nat (j + 2)" for i j
  proof -
    have "unat (of_nat (i + 2) :: u32) = unat (of_nat (j + 2) :: u32)" by (simp only: that(3))
    then show ?thesis unfolding u [OF that(1)] u [OF that(2)] by simp
  qed
  have d1023: "has_table s 1023" "table_of s 1023 = IDX (vm_cr3 s)"
    using kernel_dir_nth(3) pe_index_init [of 1] by (simp_all add: has_table_def table_of_def d c)
  show "vm_inv s"
    unfolding vm_inv_def
  proof (intro conjI allI impI)
    show "mem_inv (vm_mem s)" "length (dir s) = 1024" "unat (IDX (vm_cr3 s)) < 4096"
      "has_table s 1023" "table_of s 1023 = IDX (vm_cr3 s)"
      using assms(3) d1023 by (simp_all add: d c kernel_dir_nth)
    fix i assume "i < 1023" "has_table s i"
    then have i: "i < 4" using h by blast
    show "length (vm_frames s (table_of s i)) = 1024" using f [OF i] by simp
    show "table_of s i \<noteq> IDX (vm_cr3 s)" using t [OF i] one [OF i] c by simp
    show "taken (vm_mem s) (table_of s i)" using t [OF i] u [OF i] i by (simp add: taken_def)
  next
    fix i j assume "i < 1023" "j < 1023" and *: "has_table s i \<and> has_table s j \<and> table_of s i = table_of s j"
    then have ij: "i < 4" "j < 4" using h by blast+
    show "i = j" using * inj [OF ij] t [OF ij(1)] t [OF ij(2)] by simp
  qed
  assume v: "unat (DIDX v) < 1023"
  have parts: "unat (IDX v) = unat (DIDX v) * 1024 + unat (TIDX v)"
    unfolding unat_IDX unat_DIDX unat_TIDX
    using div_mult_mod_eq [of "unat v div 4096" 1024] by (simp flip: div_mult2_eq)
  then have "unat (IDX v) < 4096 \<longleftrightarrow> unat (DIDX v) < 4" using TIDX_less [of v] by auto
  then show "entry_of s v = (if unat (IDX v) < 4096 then kernel_entry (unat (IDX v)) else 0)"
    using f [of "unat (DIDX v)"] h [OF v] TIDX_less [of v] parts
    by (simp add: entry_of_def del: upt_rec_numeral)
qed

lemma boot_mem_inv:
  assumes "memory_init peek magic addr m0 = Inr m" and "unat (memory_size m) \<le> 2 ^ 32 - 2 ^ 20"
    and "480 \<le> length bits" and "memory_map_init bits m = Inr m'"
  defines "m'' \<equiv> m'\<lparr>memory_map := marked 4096 (memory_map m')\<rparr>"
  shows "mem_inv m''" and "free_set m'' = pool m''" and "kernel_inv m''" and "4096 \<le> length (memory_map m')"
    and "total_pages m'' = total_pages m"
proof -
  let ?n = "boot_pages m" and ?t = "unat (total_pages m)"
  note b = memory_map_init_ok [OF assms(1-3)]
  from b(1) assms(4) obtain km where m': "m' = m\<lparr>memory_map_pages := of_nat ?n, free_pages := free_pages m - of_nat ?n,
       start_page := of_nat (256 + ?n),
       memory_map := replicate (256 + ?n) 1 @ replicate (?n * 4096 - (256 + ?n)) 0, kernel_map := km\<rparr>"
     and km: "bm_inv km" "bm_univ km = {256 ..< 4096}" by auto
  have st: "unat (of_nat (256 + ?n) :: u32) = 256 + ?n" and un: "unat (of_nat ?n :: u32) = ?n"
    using b(6) by (intro unat_of_nat_small, simp)+
  have len: "length (memory_map m') = ?n * 4096" using b(5) by (simp add: m')
  then show "4096 \<le> length (memory_map m')" using b(5) by simp
  have nth: "refs m'' j = (if j < 4096 then 1 else 0)" if "j < ?n * 4096" for j
    using that len b(5,6) by (auto simp: refs_def m''_def marked_nth m' nth_append)
  have pool: "pool m'' = {4096 ..< ?t}" by (simp add: pool_def m''_def m')
  show fs: "free_set m'' = pool m''"
    using nth b(7) by (auto simp: free_set_def pool)
  have "of_nat ?n \<le> free_pages m" using un b(2,4,6) by (simp add: word_le_nat_alt)
  then have "unat (free_pages m - of_nat ?n) = unat (free_pages m) - ?n" using un by (simp add: unat_sub)
  then have fp: "unat (free_pages m'') = ?t - 256 - ?n" using b(4) by (simp add: m''_def m')
  show "mem_inv m''"
    unfolding mem_inv_def fs pool
  proof (intro conjI ballI)
    have s: "unat (start_page m'') = 256 + ?n" using st by (simp add: m''_def m')
    then show "0 < unat (start_page m'')" "unat (start_page m'') < 4096" using b(6) by auto
    show "4096 \<le> unat (total_pages m'')" "unat (total_pages m'') \<le> 2 ^ 20" using b(2,3) by (simp_all add: m''_def m')
    show "unat (total_pages m'') \<le> length (memory_map m'')" using b(7) len by (simp add: m''_def) (simp add: m')
    show "unat (free_pages m'') = card {4096 ..< ?t} + (4096 - unat (start_page m''))"
      using fp s b(2,5,6) by simp
    fix i assume "i \<in> {unat (start_page m'') ..< 4096}"
    then have "i < 4096" by simp
    then show "refs m'' i \<noteq> 0" using nth [of i] b(5) by simp
  qed
  show "kernel_inv m''" using km by (simp add: kernel_inv_def m''_def m')
  show "total_pages m'' = total_pages m" by (simp add: m''_def m')
qed

section \<open>An address space\<close>

text \<open>One user page at 16 MB in frame 4097, shared by two tasks; its table is frame 4096.\<close>

definition example_counts :: mem_t where
  "example_counts = example_mem\<lparr>memory_map := (memory_map example_mem)[4097 := 2], free_pages := 4092\<rparr>"

definition example_kernel :: vm_t where
  "example_kernel = \<lparr>vm_mem = example_counts, vm_frames = kernel_frames (\<lambda>_. replicate 1024 0),
     vm_cr3 = 0x1000, vm_uid = 1000, vm_pde = 0x100000, vm_brk = 0x1003000, vm_vmap = bitmap_make [1] 1 4096\<rparr>"

definition example_vm :: vm_t where
  "example_vm = set_entry 0x1000000 (entry_init (of_nat 4097)) (new_table 4 4096 example_kernel)"

lemma example_counts_refs:
  "i < 8192 \<Longrightarrow> refs example_counts i = (if i = 4097 then 2 else if i \<le> 4096 then 1 else 0)"
  using example_mem_refs [of i] by (auto simp: example_counts_def refs_def example_mem_def nth_list_update nth_append)

lemma example_counts_inv: "mem_inv example_counts" "pool example_counts = {4096 ..< 4352}"
proof -
  show p: "pool example_counts = {4096 ..< 4352}" by (simp add: pool_def example_counts_def example_mem_def)
  have f: "free_set example_counts = {4098 ..< 4352}"
    unfolding free_set_def p using example_counts_refs by (auto split: if_splits)
  have "\<forall>i \<in> {258 ..< 4096}. refs example_counts i \<noteq> 0" using example_counts_refs by simp
  then show "mem_inv example_counts"
    unfolding mem_inv_def f by (simp add: example_counts_def example_mem_def)
qed

lemma example_user: "user_addr v \<Longrightarrow> 4096 \<le> unat (IDX v)"
  using TIDX_less [of v] unfolding user_addr_def unat_IDX unat_DIDX by auto

lemma example_vm_props:
  shows "vm_inv example_vm" and "has_table example_vm 0" and "has_table example_vm 4"
    and "vm_mem example_vm = example_counts" and "vm_vmap example_vm = bitmap_make [1] 1 4096"
    and "vm_brk example_vm = 0x1003000" and "vm_uid example_vm = 1000"
    and "load_entry example_vm get_pde 2 = Inr (entry_init 4)"
    and "i < 1023 \<Longrightarrow> has_table example_vm i \<Longrightarrow> table_of example_vm i \<noteq> of_nat 4097"
    and "user_addr v \<Longrightarrow> entry_of example_vm v = (if unat (IDX v) = 4096 then entry_init (of_nat 4097) else 0)"
proof -
  let ?k = example_kernel and ?t = "new_table 4 4096 example_kernel"
  have k: "vm_frames ?k = kernel_frames (\<lambda>_. replicate 1024 0)" "vm_cr3 ?k = 0x1000" "mem_inv (vm_mem ?k)"
    using example_counts_inv by (simp_all add: example_kernel_def)
  note m = kernel_mapping [OF k]
  have u: "unat (of_nat 4096 :: u32) = 4096" by simp
  have c: "(of_nat 4096 :: u32) \<noteq> IDX (vm_cr3 ?k)" by (simp add: k(2) IDX_def)
  have nt: "\<not> has_table ?k 4" using m(2) [of 4] by simp
  have tk: "taken (vm_mem ?k) (of_nat 4096)"
    using example_counts_inv(2) example_counts_refs [of 4096] by (simp add: taken_def example_kernel_def)
  have small: "unat (of_nat (j + 2) :: u32) = j + 2" if "j < 4" for j
    using that by (intro unat_of_nat_small) simp
  have tabs: "table_of ?k j = of_nat (j + 2)" if "j < 4" for j
  proof -
    have "dir ?k = kernel_dir" using k(1,2) by (simp add: dir_def IDX_def kernel_frames_simps)
    moreover have "pe_index (entry_init (of_nat (j + 2))) = of_nat (j + 2)"
      by (rule pe_index_init) (use that in \<open>simp only: small, simp\<close>)
    ultimately show ?thesis using kernel_dir_nth(1) [OF that] by (simp add: table_of_def)
  qed
  have no: "table_of ?k j \<noteq> of_nat q" if "j < 1023" "has_table ?k j" "4096 \<le> q" "q < 5000" for j q
  proof
    assume "table_of ?k j = of_nat q"
    moreover have "j < 4" using m(2) [OF that(1)] that(2) by simp
    moreover have "unat (of_nat q :: u32) = q" using that by (intro unat_of_nat_small) simp
    ultimately show False using tabs [of j] small [of j] that(3) by simp
  qed
  have no': "of_nat 4096 \<noteq> table_of ?k j" if "j < 1023" "has_table ?k j" for j
    using no [OF that, of 4096] by simp
  note t = new_table_tables [OF m(1) _ c, of 4]
  have it: "vm_inv ?t" by (rule new_table_inv(1) [OF m(1) _ nt _ c _ tk]) (use no' in simp_all)
  have et: "entry_of ?t w = entry_of ?k w" if "unat (DIDX w) < 1023" for w
    by (rule new_table_inv(2) [OF m(1) _ nt _ c _ tk that]) (use no' in simp_all)
  have ht: "has_table ?t (unat (DIDX 0x1000000))" using t(2) [of 4] by (simp add: unat_DIDX)
  have dv: "unat (DIDX 0x1000000) < 1023" by (simp add: unat_DIDX)
  note st = set_entry_tables [OF it dv ht, of "entry_init (of_nat 4097)", folded example_vm_def]
  show vi: "vm_inv example_vm" unfolding example_vm_def by (rule set_entry_inv [OF it dv ht])
  show "has_table example_vm 0" "has_table example_vm 4"
    using st t(2) [of 0] t(2) [of 4] m(2) [of 0] by simp_all
  show "vm_mem example_vm = example_counts" "vm_vmap example_vm = bitmap_make [1] 1 4096"
    "vm_brk example_vm = 0x1003000" "vm_uid example_vm = 1000"
    by (simp_all add: example_vm_def new_table_def example_kernel_def)
  have "dir example_vm = (dir ?k)[4 := entry_init (of_nat 4096)]"
    unfolding example_vm_def set_entry_dir [OF it dv ht] using t(1) by simp
  then have "dir example_vm ! 2 = entry_init 4"
    using k(1,2) kernel_dir_nth(1) [of 2] by (simp add: dir_def IDX_def kernel_frames_simps)
  then show "load_entry example_vm get_pde 2 = Inr (entry_init 4)" using load_dir [OF vi, of 2] by simp
  show "table_of example_vm i \<noteq> of_nat 4097" if "i < 1023" "has_table example_vm i"
  proof (cases "i = 4")
    case True
    then show ?thesis using st t(3) [of 4] by simp
  next
    case False
    then show ?thesis using st t(2,3) [of i] that no [of i 4097] by simp
  qed
  assume v: "user_addr v"
  then have dw: "unat (DIDX v) < 1023" by (simp add: user_addr_def)
  have "IDX v = IDX 0x1000000 \<longleftrightarrow> unat (IDX v) = 4096"
  proof -
    have "IDX 0x1000000 = 4096" by (simp add: IDX_def)
    then show ?thesis by (auto simp: word_unat_eq_iff)
  qed
  then show "entry_of example_vm v = (if unat (IDX v) = 4096 then entry_init (of_nat 4097) else 0)"
    unfolding example_vm_def set_entry_entry_of [OF it dv ht dw]
    using et [OF dw] m(3) [OF dw] example_user [OF v] by simp
qed

lemma example_vmap:
  "bm_inv (bitmap_make [1] 1 4096)" "bm_univ (bitmap_make [1] 1 4096) = {4096 ..< 4104}"
  "bm_used (bitmap_make [1] 1 4096) = {4096}"
proof -
  have b: "bm_bit (bitmap_make [1] 1 4096) i \<longleftrightarrow> i = 0" if "i < 8" for i
    using that by (simp add: bm_bit_def bitmap_make_def bit_1_iff)
  then show "bm_inv (bitmap_make [1] 1 4096)" "bm_univ (bitmap_make [1] 1 4096) = {4096 ..< 4104}"
    by (simp_all add: bitmap_make_def bm_inv_def bm_univ_def bm_first_def bm_size_def)
  have "{4096 + i |i. i < 8 \<and> bm_bit (bitmap_make [1] 1 4096) i} = {4096}" using b by auto
  then show "bm_used (bitmap_make [1] 1 4096) = {4096}"
    by (simp add: bm_used_def bm_first_def bm_size_def bitmap_make_def)
qed

lemma example_user_page: "user_page example_vm v \<Longrightarrow> unat (IDX v) = 4096 \<and> entry_of example_vm v = entry_init (of_nat 4097)"
  using example_vm_props(10) [of v] by (auto simp: user_page_def split: if_splits)

lemma example_index: "pe_index (entry_init (of_nat 4097)) = of_nat 4097" "unat (of_nat 4097 :: u32) = 4097"
  "pe_index (entry_init 4097) = 4097"
  by (auto intro!: pe_index_init)

lemma example_map_inv: "map_inv example_vm"
proof -
  note p = example_vm_props
  have "vmap_agrees example_vm"
    unfolding vmap_agrees_def p(5) example_vmap
  proof (intro conjI allI impI)
    show "bm_inv (bitmap_make [1] 1 4096)" by (rule example_vmap)
    fix v assume v: "unat (IDX v) \<in> {4096 ..< 4104}"
    then have "4 \<le> unat v div 4194304 \<and> unat v div 4194304 < 1023" by (auto simp: unat_IDX)
    then show ua: "user_addr v" by (simp add: user_addr_def unat_DIDX)
    show "unat (IDX v) \<in> {4096} \<longleftrightarrow> pe_present (entry_of example_vm v)" using p(10) [OF ua] by simp
  qed
  moreover have "frames_owned example_vm"
    unfolding frames_owned_def
  proof (intro allI impI)
    fix v assume "user_page example_vm v"
    then have "unat (pe_index (entry_of example_vm v)) = 4097"
      using example_user_page [of v] example_index by simp
    then show "unat (pe_index (entry_of example_vm v)) \<in> pool (vm_mem example_vm)
        \<and> 0 < refs (vm_mem example_vm) (unat (pe_index (entry_of example_vm v)))"
      using example_counts_inv example_counts_refs [of 4097] p(4) by simp
  qed
  moreover have "no_table_mapped example_vm"
    unfolding no_table_mapped_def
  proof (intro allI impI)
    fix v i assume "user_page example_vm v" "i < 1023" "has_table example_vm i"
    then show "table_of example_vm i \<noteq> pe_index (entry_of example_vm v)"
      using example_user_page [of v] p(9) [of i] example_index(1) by simp
  qed
  moreover have "mapped_once example_vm"
    unfolding mapped_once_def
  proof (intro allI impI)
    fix v w assume "user_page example_vm v" "user_page example_vm w"
    then have "unat (IDX v) = unat (IDX w)" using example_user_page by simp
    then show "IDX v = IDX w" by (rule unsigned_word_eqI)
  qed
  ultimately show ?thesis using p(1) by (simp add: map_inv_def)
qed

section \<open>Properties\<close>


definition example_boot :: "u32 \<Rightarrow> u32" where
  "example_boot a = (if a = 0 then 1 else if a = 4 then 0x100000 else if a = 12 then 0x1000000
     else if a = 20 then 1 else 0)"






text \<open>C15. A shrinking \<open>brk\<close> never returns: the loop's step is a comparison, so it unlinks the first page
  over and over; the call ends only in the panic of a machine out of memory.\<close>

theorem brk_shrink_hangs:
  assumes "map_inv s" and "page_aligned brk" and "unat (IDX brk) \<in> bm_univ (vm_vmap s)"
    and "brk < vm_brk s" and "vm_uid s \<noteq> KERNEL_USER"
    and "KERNEL_MEMORY_SIZE \<le> brk" and "brk < USER_STACK_BOTTOM"
  shows "sys_brk brk s \<in> {Inl NoReturn, Inl (Panic ''Out of memory!'')}"
  using sys_brk_shrink [OF assms(1-4)] assms(2,4-7)
  by (auto simp: sys_brk_def)

theorem brk_shrink_hangs_witness:
  "sys_brk 0x1001000 example_vm \<in> {Inl NoReturn, Inl (Panic ''Out of memory!'')}"
proof -
  have "unat (IDX 0x1001000) \<in> bm_univ (vm_vmap example_vm)"
    using example_vm_props(5) example_vmap by (simp add: IDX_def)
  then show ?thesis
    by (intro brk_shrink_hangs [OF example_map_inv])
       (simp_all add: example_vm_props page_aligned_def KERNEL_USER_def KERNEL_MEMORY_SIZE_def
          USER_STACK_BOTTOM_def USER_STACK_TOP_def USER_STACK_SIZE_def)
qed



end
