(* ===== verification/Interrupt.thy ===== *)
theory Interrupt
  imports Prelude
begin

text \<open>
  The processor's side of the kernel: port output and the interrupt flag, the two 8259 interrupt
  controllers, the interrupt descriptor table, the table of handlers
  (\<^verbatim>\<open>kernel/interrupt.c\<close>), the segment descriptors and the task state segment
  (\<^verbatim>\<open>kernel/global.c\<close>) and the table of system calls (\<^verbatim>\<open>kernel/gate.c\<close>).

  \<open>ports\<close> is what the hardware answers to \<^verbatim>\<open>inb\<close>, \<open>outs\<close> the bytes the kernel has sent with
  \<^verbatim>\<open>outb\<close>, oldest first; \<open>intr\<close> is the IF bit of the flags register. Handlers are code
  addresses; the ones this file installs have names.
\<close>

section \<open>Ports and the interrupt flag\<close>

record machine_t =
  ports :: "u16 \<Rightarrow> u8"
  outs :: "(u16 \<times> u8) list"
  intr :: bool

definition inb :: "u16 \<Rightarrow> 'a machine_t_scheme \<Rightarrow> u8" where "inb port s = ports s port"

definition outb :: "u16 \<Rightarrow> u8 \<Rightarrow> 'a machine_t_scheme \<Rightarrow> 'a machine_t_scheme" where
  "outb port v s = s\<lparr>outs := outs s @ [(port, v)]\<rparr>"

definition get_interrupt_state :: "'a machine_t_scheme \<Rightarrow> bool" where
  "get_interrupt_state s = intr s"

definition set_interrupt_state :: "bool \<Rightarrow> 'a machine_t_scheme \<Rightarrow> 'a machine_t_scheme" where
  "set_interrupt_state b s = s\<lparr>intr := b\<rparr>"

text \<open>The flag before it is cleared, and the state with the flag cleared.\<close>

definition interrupt_disable :: "'a machine_t_scheme \<Rightarrow> bool \<times> 'a machine_t_scheme" where
  "interrupt_disable s = (intr s, s\<lparr>intr := False\<rparr>)"

section \<open>The interrupt controllers\<close>

definition PIC_M_CTRL :: u16 where "PIC_M_CTRL = 0x20"
definition PIC_M_DATA :: u16 where "PIC_M_DATA = 0x21"
definition PIC_S_CTRL :: u16 where "PIC_S_CTRL = 0xa0"
definition PIC_S_DATA :: u16 where "PIC_S_DATA = 0xa1"
definition PIC_EOI :: u8 where "PIC_EOI = 0x20"

definition send_eoi :: "int \<Rightarrow> 'a machine_t_scheme \<Rightarrow> 'a machine_t_scheme" where
  "send_eoi vector s =
     (let s = (if 0x20 \<le> vector \<and> vector < 0x28 then outb PIC_M_CTRL PIC_EOI s else s) in
      if 0x28 \<le> vector \<and> vector < 0x30 then outb PIC_S_CTRL PIC_EOI (outb PIC_M_CTRL PIC_EOI s)
      else s)"

definition set_interrupt_mask ::
  "u32 \<Rightarrow> bool \<Rightarrow> 'a machine_t_scheme \<Rightarrow> 'a machine_t_scheme res" where
  "set_interrupt_mask irq enable s =
     kassert (irq < 16) (
     let (port, irq) = (if irq < 8 then (PIC_M_DATA, irq) else (PIC_S_DATA, irq - 8)) in
     Inr (if enable then outb port (inb port s AND NOT (push_bit (unat irq) 1)) s
          else outb port (inb port s OR push_bit (unat irq) 1) s))"

definition pic_init :: "'a machine_t_scheme \<Rightarrow> 'a machine_t_scheme" where
  "pic_init s =
     (let s = outb PIC_M_CTRL 0b00010001 s;
          s = outb PIC_M_DATA 0x20 s;
          s = outb PIC_M_DATA 0b00000100 s;
          s = outb PIC_M_DATA 0b00000001 s;
          s = outb PIC_S_CTRL 0b00010001 s;
          s = outb PIC_S_DATA 0x28 s;
          s = outb PIC_S_DATA 2 s;
          s = outb PIC_S_DATA 0b00000001 s;
          s = outb PIC_M_DATA 0b11111111 s
      in outb PIC_S_DATA 0b11111111 s)"

section \<open>The descriptor table and the handlers\<close>

datatype handler_t = exception_handler | page_fault_handler | default_handler | Handler u32

record gate_t =
  gate_offset0 :: u16
  gate_selector :: u16
  gate_reserved :: u8
  gate_type :: u8
  gate_segment :: bool
  gate_DPL :: u8
  gate_present :: bool
  gate_offset1 :: u16

record idt_state =
  idt :: "gate_t list"
  handler_table :: "handler_t option list"

definition IDT_SIZE :: nat where "IDT_SIZE = 256"
definition ENTRY_SIZE :: nat where "ENTRY_SIZE = 0x30"
definition IRQ_MASTER_NR :: u32 where "IRQ_MASTER_NR = 0x20"

definition set_interrupt_handler :: "u32 \<Rightarrow> handler_t \<Rightarrow> idt_state \<Rightarrow> idt_state res" where
  "set_interrupt_handler irq handler t =
     kassert (irq < 16) (
     bindE (wr (handler_table t) (unat (IRQ_MASTER_NR + irq)) (Some handler)) (\<lambda>hs.
     Inr (t\<lparr>handler_table := hs\<rparr>)))"

text \<open>A present interrupt gate into the kernel's code segment, with the descriptor's privilege.\<close>

definition gate_to :: "u32 \<Rightarrow> u8 \<Rightarrow> gate_t" where
  "gate_to handler dpl =
     \<lparr>gate_offset0 = ucast (handler AND 0xffff), gate_selector = push_bit 3 1,
      gate_reserved = 0, gate_type = 0b1110, gate_segment = False, gate_DPL = dpl,
      gate_present = True, gate_offset1 = ucast (drop_bit 16 handler AND 0xffff)\<rparr>"

text \<open>\<open>entries\<close> is \<^verbatim>\<open>handler_entry_table\<close>, the addresses of the assembly stubs of
  \<^verbatim>\<open>handler.s\<close>, and \<open>syscall_entry\<close> the address of \<^verbatim>\<open>syscall_handler\<close> there.\<close>

definition idt_init :: "u32 list \<Rightarrow> u32 \<Rightarrow> idt_state \<Rightarrow> idt_state res" where
  "idt_init entries syscall_entry t =
     bindE (foldE (\<lambda>i g. bindE (rd entries i) (\<lambda>h. wr g i (gate_to h 0))) [0 ..< ENTRY_SIZE] (idt t)) (\<lambda>g.
     bindE (foldE (\<lambda>i hs. wr hs i (Some exception_handler)) [0 ..< 0x20] (handler_table t)) (\<lambda>hs.
     bindE (wr hs 0xe (Some page_fault_handler)) (\<lambda>hs.
     bindE (foldE (\<lambda>i hs. wr hs i (Some default_handler)) [0x20 ..< ENTRY_SIZE] hs) (\<lambda>hs.
     bindE (wr g 0x80 (gate_to syscall_entry 3)) (\<lambda>g.
     Inr \<lparr>idt = g, handler_table = hs\<rparr>)))))"

definition interrupt_init ::
  "u32 list \<Rightarrow> u32 \<Rightarrow> idt_state \<Rightarrow> 'a machine_t_scheme \<Rightarrow> (idt_state \<times> 'a machine_t_scheme) res" where
  "interrupt_init entries syscall_entry t s =
     bindE (idt_init entries syscall_entry t) (\<lambda>t. Inr (t, pic_init s))"

text \<open>The global tables before they are set up: all bytes zero.\<close>

definition zero_gate :: gate_t where
  "zero_gate = \<lparr>gate_offset0 = 0, gate_selector = 0, gate_reserved = 0, gate_type = 0,
     gate_segment = False, gate_DPL = 0, gate_present = False, gate_offset1 = 0\<rparr>"

definition idt_zero :: idt_state where
  "idt_zero = \<lparr>idt = replicate IDT_SIZE zero_gate, handler_table = replicate IDT_SIZE None\<rparr>"

text \<open>The message \<^verbatim>\<open>exception_handler\<close> prints before it hangs: it computes a clipped index and
  then reads the table with the vector itself.\<close>

definition messages :: "string list" where
  "messages = [''#DE Divide Error'', ''#DB RESERVED'', ''--  NMI Interrupt'', ''#BP Breakpoint'',
     ''#OF Overflow'', ''#BR BOUND Range Exceeded'', ''#UD Invalid Opcode (Undefined Opcode)'',
     ''#NM Device Not Available (No Math Coprocessor)'', ''#DF Double Fault'',
     ''    Coprocessor Segment Overrun (reserved)'', ''#TS Invalid TSS'', ''#NP Segment Not Present'',
     ''#SS Stack-Segment Fault'', ''#GP General Protection'', ''#PF Page Fault'',
     ''--  (Intel reserved. Do not use.)'', ''#MF x87 FPU Floating-Point Error (Math Fault)'',
     ''#AC Alignment Check'', ''#MC Machine Check'', ''#XF SIMD Floating-Point Exception'',
     ''#VE Virtualization Exception'', ''#CP Control Protection Exception'']"

definition exception_message :: "u32 \<Rightarrow> string res" where
  "exception_message vector =
     bindE (if vector <s 22 then rd messages (unat vector) else rd messages 15) (\<lambda>_.
     rd messages (unat vector))"

section \<open>Segment descriptors\<close>

record descriptor_t =
  limit_low :: u16
  base_low :: u32
  seg_type :: u8
  segment :: bool
  DPL :: u8
  present :: bool
  limit_high :: u8
  long_mode :: bool
  big :: bool
  granularity :: bool
  base_high :: u8

definition zero_descriptor :: descriptor_t where
  "zero_descriptor = \<lparr>limit_low = 0, base_low = 0, seg_type = 0, segment = False, DPL = 0,
     present = False, limit_high = 0, long_mode = False, big = False, granularity = False,
     base_high = 0\<rparr>"

definition descriptor_init :: "descriptor_t \<Rightarrow> u32 \<Rightarrow> u32 \<Rightarrow> descriptor_t" where
  "descriptor_init desc base limit =
     desc\<lparr>base_low := base AND 0xffffff, base_high := ucast (drop_bit 24 base AND 0xff),
          limit_low := ucast (limit AND 0xffff), limit_high := ucast (drop_bit 16 limit AND 0xf)\<rparr>"

definition KERNEL_CODE_IDX :: nat where "KERNEL_CODE_IDX = 1"
definition KERNEL_DATA_IDX :: nat where "KERNEL_DATA_IDX = 2"
definition KERNEL_TSS_IDX :: nat where "KERNEL_TSS_IDX = 3"
definition USER_CODE_IDX :: nat where "USER_CODE_IDX = 4"
definition USER_DATA_IDX :: nat where "USER_DATA_IDX = 5"
definition GDT_SIZE :: nat where "GDT_SIZE = 128"

text \<open>A flat segment of 4 GB: base 0, limit \<^verbatim>\<open>0xFFFFF\<close> pages, 32 bits, present.\<close>

definition flat_segment :: "u8 \<Rightarrow> u8 \<Rightarrow> descriptor_t" where
  "flat_segment dpl typ =
     (descriptor_init zero_descriptor 0 0xFFFFF)\<lparr>segment := True, granularity := True, big := True,
        long_mode := False, present := True, DPL := dpl, seg_type := typ\<rparr>"

definition gdt_init :: "descriptor_t list res" where
  "gdt_init =
     bindE (wr (replicate GDT_SIZE zero_descriptor) KERNEL_CODE_IDX (flat_segment 0 0b1010)) (\<lambda>g.
     bindE (wr g KERNEL_DATA_IDX (flat_segment 0 0b0010)) (\<lambda>g.
     bindE (wr g USER_CODE_IDX (flat_segment 3 0b1010)) (\<lambda>g.
     wr g USER_DATA_IDX (flat_segment 3 0b0010))))"

text \<open>The descriptor of the task state segment at address \<open>tss\<close>; the segment has 108 bytes (25
  words, the trace bits and the map base, the shadow stack pointer).\<close>

definition TSS_BYTES :: u32 where "TSS_BYTES = 108"

definition tss_init :: "u32 \<Rightarrow> descriptor_t list \<Rightarrow> descriptor_t list res" where
  "tss_init tss gdt =
     bindE (rd gdt KERNEL_TSS_IDX) (\<lambda>desc.
     wr gdt KERNEL_TSS_IDX
       ((descriptor_init desc tss (TSS_BYTES - 1))\<lparr>segment := False, granularity := False,
          big := False, long_mode := False, present := True, DPL := 0, seg_type := 0b1001\<rparr>))"

section \<open>System calls\<close>

text \<open>The functions the table can hold, named as in the code.\<close>

datatype syscall_t = Sys_default | Sys_test | Task_fork | Task_exit | Task_waitpid | Task_sleep
  | Task_yield | Sys_getpid | Sys_getppid | Sys_brk | Sys_read | Sys_write | Sys_lseek | Sys_readdir
  | Sys_open | Sys_creat | Sys_close | Sys_mkdir | Sys_rmdir | Sys_link | Sys_unlink | Sys_time
  | Sys_umask | Sys_chdir | Sys_chroot | Sys_getcwd | Console_clear

definition SYSCALL_SIZE :: nat where "SYSCALL_SIZE = 256"

definition syscall_check :: "u32 \<Rightarrow> unit res" where
  "syscall_check nr = (if nr \<ge> of_nat SYSCALL_SIZE then Inl (Panic ''syscall nr error!'') else Inr ())"

text \<open>The assignments of \<^verbatim>\<open>syscall_init\<close>, in their order, with the numbers of \<^verbatim>\<open>syscall.h\<close>.\<close>

definition syscall_numbers :: "(nat \<times> syscall_t) list" where
  "syscall_numbers = [(0, Sys_test), (2, Task_fork), (1, Task_exit), (7, Task_waitpid),
     (162, Task_sleep), (158, Task_yield), (20, Sys_getpid), (64, Sys_getppid), (45, Sys_brk),
     (3, Sys_read), (4, Sys_write), (19, Sys_lseek), (89, Sys_readdir), (5, Sys_open), (8, Sys_creat),
     (6, Sys_close), (39, Sys_mkdir), (40, Sys_rmdir), (9, Sys_link), (10, Sys_unlink),
     (13, Sys_time), (60, Sys_umask), (12, Sys_chdir), (61, Sys_chroot), (183, Sys_getcwd),
     (200, Console_clear)]"

definition syscall_init :: "syscall_t list" where
  "syscall_init =
     fold (\<lambda>(nr, f) t. t[nr := f]) syscall_numbers (replicate SYSCALL_SIZE Sys_default)"

text \<open>The call \<^verbatim>\<open>syscall_handler\<close> makes for a number: checked, then looked up.\<close>

definition syscall_target :: "u32 \<Rightarrow> syscall_t res" where
  "syscall_target nr = bindE (syscall_check nr) (\<lambda>_. rd syscall_init (unat nr))"

section \<open>What the tables say\<close>

lemma foldE_wr:
  assumes "b \<le> length xs"
  shows "foldE (\<lambda>i xs. wr xs i (f i)) [a ..< b] xs
    = Inr (map (\<lambda>i. if a \<le> i \<and> i < b then f i else xs ! i) [0 ..< length xs])"
  using assms
proof (induction b)
  case 0
  have "map ((!) xs) [0 ..< length xs] = xs" by (rule map_nth)
  then show ?case by simp
next
  case (Suc b)
  then have IH: "foldE (\<lambda>i xs. wr xs i (f i)) [a ..< b] xs
      = Inr (map (\<lambda>i. if a \<le> i \<and> i < b then f i else xs ! i) [0 ..< length xs])" by simp
  show ?case
  proof (cases "a \<le> b")
    case True
    then have "[a ..< Suc b] = [a ..< b] @ [b]" by simp
    then show ?thesis using Suc.prems True
      by (auto simp: foldE_append IH nth_list_update intro!: nth_equalityI)
  next
    case False
    then show ?thesis using Suc.prems by (auto intro!: nth_equalityI)
  qed
qed

lemma foldE_cong:
  "(\<And>i s. i \<in> set is \<Longrightarrow> f i s = g i s) \<Longrightarrow> foldE f is s = foldE g is s"
proof (induction "is" arbitrary: s)
  case (Cons i "is")
  then show ?case by (cases "g i s") auto
qed simp

definition gate_target :: "gate_t \<Rightarrow> u32" where
  "gate_target g = ucast (gate_offset0 g) OR push_bit 16 (ucast (gate_offset1 g))"

text \<open>The constants of the bit fields are masks.\<close>

lemma masks:
  "(0xffff :: u32) = mask 16" "(0xffffff :: u32) = mask 24" "(0xff :: u32) = mask 8" "(0xf :: u32) = mask 4"
  by (simp_all add: mask_eq_exp_minus_1)

lemma gate_target_to [simp]: "gate_target (gate_to h d) = h"
  unfolding gate_target_def gate_to_def masks
  by (rule bit_word_eqI) (auto simp: bit_simps dest: bit_imp_le_length)

definition seg_base :: "descriptor_t \<Rightarrow> u32" where
  "seg_base d = base_low d OR push_bit 24 (ucast (base_high d))"

definition seg_limit :: "descriptor_t \<Rightarrow> u32" where
  "seg_limit d = ucast (limit_low d) OR push_bit 16 (ucast (limit_high d))"

lemma seg_base_init [simp]: "seg_base (descriptor_init d base limit) = base"
  unfolding seg_base_def descriptor_init_def masks
  by (rule bit_word_eqI) (auto simp: bit_simps dest: bit_imp_le_length)

lemma seg_limit_init [simp]: "seg_limit (descriptor_init d base limit) = limit AND mask 20"
  unfolding seg_limit_def descriptor_init_def masks
  by (rule bit_word_eqI) (auto simp: bit_simps dest: bit_imp_le_length)

text \<open>The eight bytes of the packed \<^verbatim>\<open>descriptor_t\<close> as one number, lowest field first, and the base and
  limit the processor reads there.\<close>

fun pack :: "(nat \<times> 64 word) list \<Rightarrow> 64 word" where
  "pack [] = 0"
| "pack ((width, v) # fs) = take_bit width v OR push_bit width (pack fs)"

lemma bit_pack_Cons [simp]:
  "bit (pack ((width, v) # fs)) n \<longleftrightarrow>
     (if n < width then bit v n else n < 64 \<and> bit (pack fs) (n - width))"
  by (auto simp: bit_simps dest: bit_imp_le_length)

definition descriptor_word :: "descriptor_t \<Rightarrow> 64 word" where
  "descriptor_word d = pack
     [(16, ucast (limit_low d)), (24, ucast (base_low d)), (4, ucast (seg_type d)),
      (1, of_bool (segment d)), (2, ucast (DPL d)), (1, of_bool (present d)),
      (4, ucast (limit_high d)), (1, 0), (1, of_bool (long_mode d)), (1, of_bool (big d)),
      (1, of_bool (granularity d)), (8, ucast (base_high d))]"

definition word_base :: "64 word \<Rightarrow> u32" where
  "word_base w = ucast (take_bit 24 (drop_bit 16 w)) OR push_bit 24 (ucast (drop_bit 56 w))"

definition word_limit :: "64 word \<Rightarrow> u32" where
  "word_limit w = ucast (take_bit 16 w) OR push_bit 16 (ucast (take_bit 4 (drop_bit 48 w)))"

lemma descriptor_fields:
  "n < 24 \<Longrightarrow> bit (descriptor_word d) (16 + n) = bit (base_low d) n"
  "n < 8 \<Longrightarrow> bit (descriptor_word d) (56 + n) = bit (base_high d) n"
  "n < 16 \<Longrightarrow> bit (descriptor_word d) n = bit (limit_low d) n"
  "n < 4 \<Longrightarrow> bit (descriptor_word d) (48 + n) = bit (limit_high d) n"
  unfolding descriptor_word_def by (simp_all add: bit_ucast_iff del: pack.simps)

lemma word_base_descriptor: "word_base (descriptor_word (descriptor_init d base limit)) = base"
proof (rule bit_word_eqI)
  fix n assume "n < LENGTH(32)"
  then have n: "n < 24 \<or> (\<exists>k < 8. n = 24 + k)" using less_imp_add_positive[of 23 n] by (cases "n < 24") (auto intro!: exI [of _ "n - 24"])
  from n show "bit (word_base (descriptor_word (descriptor_init d base limit))) n = bit base n"
    by (auto simp: word_base_def bit_simps descriptor_fields descriptor_init_def masks)
qed

lemma word_limit_descriptor:
  "word_limit (descriptor_word (descriptor_init d base limit)) = take_bit 20 limit"
proof (rule bit_word_eqI)
  fix n assume "n < LENGTH(32)"
  then have n: "n < 16 \<or> (\<exists>k < 4. n = 16 + k) \<or> n \<ge> 20"
    by (cases "n < 16 \<or> n \<ge> 20") (auto intro!: exI [of _ "n - 16"])
  from n show "bit (word_limit (descriptor_word (descriptor_init d base limit))) n = bit (take_bit 20 limit) n"
    by (auto simp: word_limit_def bit_simps descriptor_fields descriptor_init_def masks)
qed

section \<open>Properties\<close>

text \<open>The null descriptor, ring 0 code and data, the free entry 3, ring 3 code and data.\<close>

definition flat_descriptors :: "64 word list" where
  "flat_descriptors =
     [0, 0x00CF9A000000FFFF, 0x00CF92000000FFFF, 0, 0x00CFFA000000FFFF, 0x00CFF2000000FFFF]"

lemma gdt_words:
  "\<exists>gdt. gdt_init = Inr gdt \<and> length gdt = 128 \<and> gdt ! 3 = zero_descriptor
     \<and> map descriptor_word (take 6 gdt) =
        flat_descriptors"
proof -
  have c: "(case gdt_init of Inl _ \<Rightarrow> False | Inr gdt \<Rightarrow> length gdt = 128 \<and> gdt ! 3 = zero_descriptor
     \<and> map descriptor_word (take 6 gdt) =
        flat_descriptors)"
    by code_simp
  show ?thesis
  proof (cases gdt_init)
    case (Inl f)
    from c [unfolded Inl sum.case] show ?thesis by (rule FalseE)
  next
    case (Inr gdt)
    from conjI [OF Inr c [unfolded Inr sum.case]] show ?thesis by (rule exI)
  qed
qed

lemma idt_init_ok:
  assumes "48 \<le> length entries"
  shows "\<exists>t. idt_init entries sys idt_zero = Inr t \<and> length (idt t) = 256 \<and> length (handler_table t) = 256
     \<and> (\<forall>v < 256. idt t ! v = (if v < 48 then gate_to (entries ! v) 0
          else if v = 0x80 then gate_to sys 3 else zero_gate))
     \<and> (\<forall>v < 256. handler_table t ! v = (if v = 14 then Some page_fault_handler
          else if v < 32 then Some exception_handler
          else if v < 48 then Some default_handler else None))"
proof -
  have e: "foldE (\<lambda>i g. bindE (rd entries i) (\<lambda>h. wr g i (gate_to h 0))) [0 ..< 48] g
      = foldE (\<lambda>i g. wr g i (gate_to (entries ! i) 0)) [0 ..< 48] g" for g
    by (rule foldE_cong) (use assms in auto)
  show ?thesis
    unfolding idt_init_def idt_zero_def ENTRY_SIZE_def IDT_SIZE_def e
    by (simp add: foldE_wr nth_list_update) presburger
qed

lemma mask_bits:
  assumes "irq < 16"
  shows "\<exists>v. set_interrupt_mask irq b s
          = Inr (outb (if irq < 8 then PIC_M_DATA else PIC_S_DATA) v s)
        \<and> (\<forall>k < 8. bit v k = (if k = unat irq mod 8 then \<not> b
             else bit (ports s (if irq < 8 then PIC_M_DATA else PIC_S_DATA)) k))"
proof -
  define r where "r = (if irq < 8 then irq else irq - 8)"
  have n: "unat irq < 16" using assms by (simp add: word_less_nat_alt)
  have r: "unat r = unat irq mod 8"
  proof (cases "irq < 8")
    case True
    then show ?thesis by (simp add: r_def word_less_nat_alt)
  next
    case False
    then have "8 \<le> irq" by simp
    then have "unat (irq - 8) = unat irq - 8" by (simp add: unat_sub_le)
    moreover have "8 \<le> unat irq" using False by (simp add: word_less_nat_alt)
    ultimately show ?thesis using False n by (simp add: r_def mod_if)
  qed
  define port where "port = (if irq < 8 then PIC_M_DATA else PIC_S_DATA)"
  define v where "v = (if b then ports s port AND NOT (push_bit (unat r) 1) else ports s port OR push_bit (unat r) 1)"
  have "set_interrupt_mask irq b s = Inr (outb port v s)"
    using assms by (simp add: set_interrupt_mask_def inb_def port_def v_def r_def)
  moreover have "bit v k = (if k = unat irq mod 8 then \<not> b else bit (ports s port) k)" if "k < 8" for k
    using that r by (auto simp: v_def bit_simps)
  ultimately show ?thesis unfolding port_def by blast
qed

lemma syscall_entries:
  "list_all (\<lambda>(n, f). n < 256 \<and> syscall_init ! n = f) syscall_numbers"
  "list_all (\<lambda>n. n \<notin> fst ` set syscall_numbers \<longrightarrow> syscall_init ! n = Sys_default) [0 ..< 256]"
  "length syscall_init = 256"
  by code_simp+

lemma syscall_tables:
  "(n, f) \<in> set syscall_numbers \<Longrightarrow> syscall_target (of_nat n) = Inr f"
  "nr < 256 \<Longrightarrow> unat nr \<notin> fst ` set syscall_numbers \<Longrightarrow> syscall_target nr = Inr Sys_default"
  "256 \<le> nr \<Longrightarrow> syscall_target nr = Inl (Panic ''syscall nr error!'')"
proof -
  assume "(n, f) \<in> set syscall_numbers"
  then have n: "n < 256 \<and> syscall_init ! n = f" using syscall_entries(1) by (auto simp: list_all_iff)
  then have "unat (of_nat n :: u32) = n" by (intro unat_of_nat_small) simp
  then show "syscall_target (of_nat n) = Inr f"
    using n by (simp add: syscall_target_def syscall_check_def SYSCALL_SIZE_def word_le_nat_alt syscall_entries(3))
next
  assume nr: "nr < 256" "unat nr \<notin> fst ` set syscall_numbers"
  then have "unat nr < 256" by (simp add: word_less_nat_alt)
  moreover have "syscall_init ! unat nr = Sys_default"
    using all_below [OF syscall_entries(2) \<open>unat nr < 256\<close>] nr(2) by simp
  ultimately show "syscall_target nr = Inr Sys_default"
    using nr(1) by (simp add: syscall_target_def syscall_check_def SYSCALL_SIZE_def syscall_entries(3))
next
  assume "256 \<le> nr"
  then show "syscall_target nr = Inl (Panic ''syscall nr error!'')"
    by (simp add: syscall_target_def syscall_check_def SYSCALL_SIZE_def)
qed




end
