(* ===== verification/Task.thy ===== *)
theory Task
  imports Lists Interrupt Paging
begin

text \<open>
  The scheduler of \<^verbatim>\<open>kernel/task.c\<close> and the clock of \<^verbatim>\<open>kernel/clock.c\<close>: the task table, the
  queues of blocked and sleeping tasks, the choice of the next task, blocking, sleeping, waking
  and the timer interrupt.

  A task is named by the address of its control block, one kernel page; \<open>tasks\<close> gives the
  blocks, \<open>nodes\<close> the list nodes embedded in them (\<^verbatim>\<open>task->node\<close> is \<open>Node task\<close>) and the
  heads and tails of the queues. \<^verbatim>\<open>running_task()\<close>, which rounds the stack pointer down to its
  page, is \<open>current\<close>; \<^verbatim>\<open>task_switch\<close> (assembly) saves the registers on the old stack and
  continues on the new one, so here it sets \<open>current\<close>. A call that switches away returns the
  state at the switch; what follows it in the C code runs when the task is chosen again.
\<close>

section \<open>Tasks and the kernel's state\<close>

datatype task_state_t = TASK_INIT | TASK_RUNNING | TASK_READY | TASK_BLOCKED | TASK_SLEEPING
  | TASK_WAITING | TASK_DIED

definition NR_TASKS :: nat where "NR_TASKS = 64"
definition TASK_FILE_NR :: nat where "TASK_FILE_NR = 16"
definition NORMAL_USER :: u32 where "NORMAL_USER = 1000"

text \<open>\<open>t_vmap\<close> is \<open>None\<close> for the kernel's own map of pages, else the address of the task's map.\<close>

record task_t =
  t_stack :: u32
  t_state :: task_state_t
  t_priority :: u32
  t_ticks :: u32
  t_jiffies :: u32
  t_name :: "u8 list"
  t_uid :: u32
  t_gid :: u32
  t_pid :: u32
  t_ppid :: u32
  t_pde :: u32
  t_vmap :: "u32 option"
  t_brk :: u32
  t_status :: u32
  t_waitpid :: u32
  t_pwd :: u32
  t_ipwd :: "u32 option"
  t_iroot :: "u32 option"
  t_umask :: u16
  t_files :: "u32 option list"
  t_magic :: u32

text \<open>The lists a task can be queued in.\<close>

datatype queue_t = BlockList | SleepList | Waiters nat

record kernel_t = machine_t +
  task_table :: "u32 option list"
  tasks :: "u32 \<Rightarrow> task_t"
  nodes :: "(queue_t, u32) heap"
  idle_task :: "u32 option"
  current :: u32
  jiffies :: u32
  beeping :: u32
  cr3 :: u32
  esp0 :: u32

definition running_task :: "'a kernel_t_scheme \<Rightarrow> u32" where "running_task s = current s"

definition upd_task :: "u32 \<Rightarrow> (task_t \<Rightarrow> task_t) \<Rightarrow> 'a kernel_t_scheme \<Rightarrow> 'a kernel_t_scheme" where
  "upd_task p f s = s\<lparr>tasks := (tasks s)(p := f (tasks s p))\<rparr>"

definition sys_getpid :: "'a kernel_t_scheme \<Rightarrow> u32" where
  "sys_getpid s = t_pid (tasks s (running_task s))"

definition sys_getppid :: "'a kernel_t_scheme \<Rightarrow> u32" where
  "sys_getppid s = t_ppid (tasks s (running_task s))"

section \<open>File descriptors\<close>

definition task_get_fd :: "u32 \<Rightarrow> 'a kernel_t_scheme \<Rightarrow> nat res" where
  "task_get_fd p s =
     (case find (\<lambda>i. t_files (tasks s p) ! i = None) [3 ..< TASK_FILE_NR] of
        None \<Rightarrow> Inl (Panic ''Exceed task max open files.'')
      | Some i \<Rightarrow> Inr i)"

definition task_put_fd :: "u32 \<Rightarrow> u32 \<Rightarrow> 'a kernel_t_scheme \<Rightarrow> 'a kernel_t_scheme res" where
  "task_put_fd p fd s =
     (if fd <s 3 then Inr s
      else kassert (fd <s of_nat TASK_FILE_NR) (
        Inr (upd_task p (\<lambda>t. t\<lparr>t_files := (t_files t)[unat fd := None]\<rparr>) s)))"

section \<open>Choosing and switching\<close>

text \<open>One entry of the table: a task other than the running one, in the state looked for, replaces
  the best so far when it has more ticks left or ran longer ago.\<close>

definition search_step :: "'a kernel_t_scheme \<Rightarrow> task_state_t \<Rightarrow> u32 option \<Rightarrow> u32 option \<Rightarrow> u32 option" where
  "search_step s st entry best =
     (case entry of None \<Rightarrow> best
      | Some p \<Rightarrow>
          if t_state (tasks s p) \<noteq> st then best
          else if running_task s = p then best
          else (case best of None \<Rightarrow> Some p
                | Some b \<Rightarrow> if t_ticks (tasks s b) <s t_ticks (tasks s p)
                             \<or> t_jiffies (tasks s p) < t_jiffies (tasks s b)
                           then Some p else best))"

definition task_search :: "task_state_t \<Rightarrow> 'a kernel_t_scheme \<Rightarrow> u32 option res" where
  "task_search st s =
     kassert (\<not> get_interrupt_state s) (
     let best = fold (search_step s st) (task_table s) None in
     Inr (if best = None \<and> st = TASK_READY then idle_task s else best))"

definition task_activate :: "u32 \<Rightarrow> 'a kernel_t_scheme \<Rightarrow> 'a kernel_t_scheme res" where
  "task_activate p s =
     kassert (t_magic (tasks s p) = ONIX_MAGIC) (
     let t = tasks s p in
     bindE (if t_pde t \<noteq> cr3 s
            then kassert (page_aligned (t_pde t)) (Inr (s\<lparr>cr3 := t_pde t\<rparr>))
            else Inr s) (\<lambda>s.
     Inr (if t_uid t \<noteq> KERNEL_USER then s\<lparr>esp0 := p + PAGE_SIZE\<rparr> else s)))"

definition task_switch :: "u32 \<Rightarrow> 'a kernel_t_scheme \<Rightarrow> 'a kernel_t_scheme" where
  "task_switch p s = s\<lparr>current := p\<rparr>"

definition schedule :: "'a kernel_t_scheme \<Rightarrow> 'a kernel_t_scheme res" where
  "schedule s =
     kassert (\<not> get_interrupt_state s) (
     let cur = running_task s in
     bindE (task_search TASK_READY s) (\<lambda>nxt.
     case nxt of None \<Rightarrow> Inl Assertion
     | Some p \<Rightarrow>
       kassert (t_magic (tasks s p) = ONIX_MAGIC) (
       let s = (if t_state (tasks s cur) = TASK_RUNNING
                then upd_task cur (\<lambda>t. t\<lparr>t_state := TASK_READY\<rparr>) s else s);
           s = (if t_ticks (tasks s cur) = 0
                then upd_task cur (\<lambda>t. t\<lparr>t_ticks := t_priority t\<rparr>) s else s);
           s = upd_task p (\<lambda>t. t\<lparr>t_state := TASK_RUNNING\<rparr>) s in
       if p = cur then Inr s
       else bindE (task_activate p s) (\<lambda>s. Inr (task_switch p s)))))"

definition task_yield :: "'a kernel_t_scheme \<Rightarrow> 'a kernel_t_scheme res" where
  "task_yield s = schedule s"

section \<open>Blocking and sleeping\<close>

definition task_block ::
  "u32 \<Rightarrow> queue_t option \<Rightarrow> task_state_t \<Rightarrow> 'a kernel_t_scheme \<Rightarrow> 'a kernel_t_scheme res" where
  "task_block p blist st s =
     kassert (\<not> get_interrupt_state s) (
     kassert (node_next (nodes s (Node p)) = None) (
     kassert (node_prev (nodes s (Node p)) = None) (
     let q = (case blist of None \<Rightarrow> BlockList | Some q \<Rightarrow> q) in
     bindE (list_push q (Node p) (nodes s)) (\<lambda>h.
     let s = s\<lparr>nodes := h\<rparr> in
     kassert (st \<noteq> TASK_READY \<and> st \<noteq> TASK_RUNNING) (
     let s = upd_task p (\<lambda>t. t\<lparr>t_state := st\<rparr>) s in
     if running_task s = p then schedule s else Inr s)))))"

definition task_unblock :: "u32 \<Rightarrow> 'a kernel_t_scheme \<Rightarrow> 'a kernel_t_scheme res" where
  "task_unblock p s =
     kassert (\<not> get_interrupt_state s) (
     bindE (list_remove (Node p) (nodes s)) (\<lambda>h.
     let s = s\<lparr>nodes := h\<rparr> in
     kassert (node_next (nodes s (Node p)) = None) (
     kassert (node_prev (nodes s (Node p)) = None) (
     Inr (upd_task p (\<lambda>t. t\<lparr>t_state := TASK_READY\<rparr>) s)))))"

text \<open>Milliseconds per tick: \<^verbatim>\<open>1000 / HZ\<close>.\<close>

definition JIFFY :: u32 where "JIFFY = 1000 div 100"

definition task_sleep :: "u32 \<Rightarrow> 'a kernel_t_scheme \<Rightarrow> 'a kernel_t_scheme res" where
  "task_sleep ms s =
     kassert (\<not> get_interrupt_state s) (
     let ticks = ms div JIFFY;
         ticks = (if ticks > 0 then ticks else 1);
         cur = running_task s;
         s = upd_task cur (\<lambda>t. t\<lparr>t_ticks := jiffies s + ticks\<rparr>) s in
     bindE (list_insert_sort SleepList (Node cur) (\<lambda>p. sint (t_ticks (tasks s p))) (nodes s)) (\<lambda>h.
     schedule (upd_task cur (\<lambda>t. t\<lparr>t_state := TASK_SLEEPING\<rparr>) (s\<lparr>nodes := h\<rparr>))))"

text \<open>The wake-up loop: \<open>ptr\<close> is advanced before its task is taken off the list.\<close>

partial_function (option) wakeup_loop ::
  "(queue_t, u32) addr option \<Rightarrow> 'a kernel_t_scheme \<Rightarrow> 'a kernel_t_scheme res option" where
  "wakeup_loop ptr s =
     (if ptr = Some (Tail SleepList) then Some (Inr s)
      else (case ptr of
              None \<Rightarrow> Some (Inl NullDeref)
            | Some a \<Rightarrow> (case a of
                Node p \<Rightarrow>
                  (if t_ticks (tasks s p) > jiffies s then Some (Inr s)
                   else (case task_unblock p (upd_task p (\<lambda>t. t\<lparr>t_ticks := 0\<rparr>) s) of
                           Inl e \<Rightarrow> Some (Inl e)
                         | Inr s' \<Rightarrow> wakeup_loop (node_next (nodes s (Node p))) s'))
              | _ \<Rightarrow> Some (Inl OutOfBounds))))"

declare wakeup_loop.simps [code]

definition task_wakeup :: "'a kernel_t_scheme \<Rightarrow> 'a kernel_t_scheme res" where
  "task_wakeup s =
     kassert (\<not> get_interrupt_state s) (
     returns (wakeup_loop (node_next (nodes s (Head SleepList))) s))"

section \<open>The clock\<close>

definition SPEAKER_REG :: u16 where "SPEAKER_REG = 0x61"

definition start_beep :: "'a kernel_t_scheme \<Rightarrow> 'a kernel_t_scheme" where
  "start_beep s =
     (if beeping s = 0
      then (outb SPEAKER_REG (inb SPEAKER_REG s OR 0b11) s)\<lparr>beeping := jiffies s + 5\<rparr> else s)"

definition stop_beep :: "'a kernel_t_scheme \<Rightarrow> 'a kernel_t_scheme" where
  "stop_beep s =
     (if beeping s \<noteq> 0 \<and> jiffies s > beeping s
      then (outb SPEAKER_REG (inb SPEAKER_REG s AND 0xfc) s)\<lparr>beeping := 0\<rparr> else s)"

definition clock_handler :: "int \<Rightarrow> 'a kernel_t_scheme \<Rightarrow> 'a kernel_t_scheme res" where
  "clock_handler vector s =
     kassert (vector = 0x20) (
     let s = stop_beep (send_eoi vector s) in
     bindE (task_wakeup s) (\<lambda>s.
     let s = s\<lparr>jiffies := jiffies s + 1\<rparr>;
         cur = running_task s in
     kassert (t_magic (tasks s cur) = ONIX_MAGIC) (
     let s = upd_task cur (\<lambda>t. t\<lparr>t_jiffies := jiffies s, t_ticks := t_ticks t - 1\<rparr>) s in
     if t_ticks (tasks s cur) = 0 then schedule s else Inr s)))"

definition sys_time :: "u32 \<Rightarrow> 'a kernel_t_scheme \<Rightarrow> u32" where
  "sys_time startup_time s = startup_time + (jiffies s * JIFFY) div 1000"

definition PIT_CHAN0_REG :: u16 where "PIT_CHAN0_REG = 0x40"
definition PIT_CHAN2_REG :: u16 where "PIT_CHAN2_REG = 0x42"
definition PIT_CTRL_REG :: u16 where "PIT_CTRL_REG = 0x43"
definition CLOCK_COUNTER :: u32 where "CLOCK_COUNTER = 1193182 div 100"
definition BEEP_COUNTER :: u32 where "BEEP_COUNTER = 1193182 div 440"

definition pit_init :: "'a machine_t_scheme \<Rightarrow> 'a machine_t_scheme" where
  "pit_init s =
     (let s = outb PIT_CTRL_REG 0b00110100 s;
          s = outb PIT_CHAN0_REG (ucast (CLOCK_COUNTER AND 0xff)) s;
          s = outb PIT_CHAN0_REG (ucast (drop_bit 8 CLOCK_COUNTER AND 0xff)) s;
          s = outb PIT_CTRL_REG 0b10110110 s;
          s = outb PIT_CHAN2_REG (ucast BEEP_COUNTER) s
      in outb PIT_CHAN2_REG (ucast (drop_bit 8 BEEP_COUNTER)) s)"

end
