(* ===== verification/Sched.thy ===== *)
theory Sched
  imports Task
begin

text \<open>
  What the scheduler keeps: the invariant \<open>sched_inv\<close> of the task table and the queues, that no
  operation of \<^verbatim>\<open>task.c\<close> or the clock breaks it or fails an assertion, which task is chosen, and
  when a sleeping task wakes up.
\<close>

section \<open>The invariant\<close>

definition live :: "'a kernel_t_scheme \<Rightarrow> u32 set" where
  "live s = {p. Some p \<in> set (task_table s)}"

definition state_of :: "'a kernel_t_scheme \<Rightarrow> u32 \<Rightarrow> task_state_t" where
  "state_of s p = t_state (tasks s p)"

definition waiting :: "task_state_t set" where
  "waiting = {TASK_BLOCKED, TASK_SLEEPING, TASK_WAITING}"

definition wake_time :: "'a kernel_t_scheme \<Rightarrow> u32 \<Rightarrow> int" where
  "wake_time s p = sint (t_ticks (tasks s p))"

text \<open>Everything but that the running task is in the running state: the lists hold the waiting tasks,
  each on one list, the sleepers on theirs, sorted by the tick they sleep to.\<close>

definition sched_core :: "'a kernel_t_scheme \<Rightarrow> (queue_t \<Rightarrow> u32 list option) \<Rightarrow> bool" where
  "sched_core s c \<longleftrightarrow>
     store_rel (nodes s) c \<and> (\<forall>q. c q \<noteq> None)
   \<and> current s \<in> live s
   \<and> (\<exists>i. idle_task s = Some i \<and> i \<in> live s \<and> state_of s i \<in> {TASK_READY, TASK_RUNNING})
   \<and> (\<forall>p \<in> live s. t_magic (tasks s p) = ONIX_MAGIC \<and> page_aligned (t_pde (tasks s p)))
   \<and> (\<forall>p \<in> live s. state_of s p = TASK_RUNNING \<longrightarrow> p = current s)
   \<and> (\<forall>q xs p. c q = Some xs \<longrightarrow> p \<in> set xs \<longrightarrow> p \<in> live s \<and> state_of s p \<in> waiting
        \<and> (state_of s p = TASK_SLEEPING \<longleftrightarrow> q = SleepList))
   \<and> (\<forall>p \<in> live s. state_of s p \<in> waiting \<longrightarrow> \<not> unlinked c p)
   \<and> sorted (map (wake_time s) (the (c SleepList)))
   \<and> (\<forall>p \<in> set (the (c SleepList)). 0 < wake_time s p)"

definition sched_inv :: "'a kernel_t_scheme \<Rightarrow> (queue_t \<Rightarrow> u32 list option) \<Rightarrow> bool" where
  "sched_inv s c \<longleftrightarrow> sched_core s c \<and> state_of s (current s) = TASK_RUNNING"

lemma sched_coreD:
  assumes "sched_core s c"
  shows "store_rel (nodes s) c" "\<exists>xs. c q = Some xs" "current s \<in> live s"
    "p \<in> live s \<Longrightarrow> t_magic (tasks s p) = ONIX_MAGIC" "p \<in> live s \<Longrightarrow> page_aligned (t_pde (tasks s p))"
    "p \<in> live s \<Longrightarrow> state_of s p = TASK_RUNNING \<Longrightarrow> p = current s"
    "c q = Some xs \<Longrightarrow> p \<in> set xs \<Longrightarrow> p \<in> live s \<and> state_of s p \<in> waiting"
    "c q = Some xs \<Longrightarrow> p \<in> set xs \<Longrightarrow> state_of s p = TASK_SLEEPING \<longleftrightarrow> q = SleepList"
    "p \<in> live s \<Longrightarrow> state_of s p \<in> waiting \<Longrightarrow> \<not> unlinked c p"
    "sorted (map (wake_time s) (the (c SleepList)))"
    "p \<in> set (the (c SleepList)) \<Longrightarrow> 0 < wake_time s p"
  using assms unfolding sched_core_def by auto

lemma sched_core_idle:
  assumes "sched_core s c"
  obtains i where "idle_task s = Some i" "i \<in> live s" "state_of s i \<in> {TASK_READY, TASK_RUNNING}"
  using assms unfolding sched_core_def by auto

lemma not_waiting_unlinked:
  assumes "sched_core s c" and "state_of s p \<notin> waiting"
  shows "unlinked c p"
  using sched_coreD(7) [OF assms(1)] assms(2) unfolding unlinked_def by blast

text \<open>Changes to a control block.\<close>

lemma upd_task_simps [simp]:
  "task_table (upd_task p f s) = task_table s" "nodes (upd_task p f s) = nodes s"
  "idle_task (upd_task p f s) = idle_task s" "current (upd_task p f s) = current s"
  "jiffies (upd_task p f s) = jiffies s" "intr (upd_task p f s) = intr s"
  "cr3 (upd_task p f s) = cr3 s" "kernel_t.more (upd_task p f s) = kernel_t.more s" "live (upd_task p f s) = live s"
  "tasks (upd_task p f s) = (tasks s)(p := f (tasks s p))"
  by (simp_all add: upd_task_def live_def)

lemma running_task_eq [simp]: "running_task s = current s" by (simp add: running_task_def)

lemma get_interrupt_state_eq [simp]: "get_interrupt_state s = intr s"
  by (simp add: get_interrupt_state_def)

section \<open>Choosing a task\<close>

definition candidate :: "'a kernel_t_scheme \<Rightarrow> task_state_t \<Rightarrow> u32 \<Rightarrow> bool" where
  "candidate s st p \<longleftrightarrow> state_of s p = st \<and> p \<noteq> current s"

lemma search_step_cases:
  "search_step s st entry best = best \<or> (\<exists>p. entry = Some p \<and> candidate s st p \<and> search_step s st entry best = Some p)"
  by (auto simp: search_step_def candidate_def state_of_def split: option.splits)

lemma search_step_None:
  "search_step s st entry None = None \<longleftrightarrow> (\<forall>p. entry = Some p \<longrightarrow> \<not> candidate s st p)"
  by (auto simp: search_step_def candidate_def state_of_def split: option.splits)

lemma search_step_Some: "search_step s st entry (Some b) \<noteq> None"
  by (auto simp: search_step_def split: option.splits)

lemma search_fold:
  assumes "\<And>b. best = Some b \<Longrightarrow> P b" and "\<And>p. Some p \<in> set es \<Longrightarrow> candidate s st p \<Longrightarrow> P p"
  shows "(\<forall>p. fold (search_step s st) es best = Some p \<longrightarrow> P p)
    \<and> (fold (search_step s st) es best = None \<longleftrightarrow> best = None \<and> (\<forall>p. Some p \<in> set es \<longrightarrow> \<not> candidate s st p))"
  using assms
proof (induction es arbitrary: best)
  case Nil
  then show ?case by simp
next
  case (Cons e es)
  have "P b" if "search_step s st e best = Some b" for b
    using search_step_cases [of s st e best] that Cons.prems by auto
  moreover have "search_step s st e best = None \<longleftrightarrow> best = None \<and> (\<forall>p. e = Some p \<longrightarrow> \<not> candidate s st p)"
    using search_step_None search_step_Some by (cases best) auto
  ultimately show ?case using Cons.IH [of "search_step s st e best"] Cons.prems(2) by auto
qed

lemma task_search_cases:
  assumes "\<not> intr s"
  shows "\<exists>r. task_search st s = Inr r
    \<and> (case r of Some p \<Rightarrow> p \<in> live s \<and> candidate s st p
        \<or> st = TASK_READY \<and> idle_task s = Some p \<and> (\<forall>q \<in> live s. \<not> candidate s st q)
      | None \<Rightarrow> \<forall>q \<in> live s. \<not> candidate s st q)"
  using search_fold [of None "\<lambda>p. p \<in> live s \<and> candidate s st p" "task_table s" s st] assms
  by (auto simp: task_search_def live_def Let_def split: option.splits)

section \<open>Switching\<close>

text \<open>How \<open>schedule\<close> changes the state: only the flags of the two tasks, the running task and the
  registers that go with it.\<close>

definition switched :: "'a kernel_t_scheme \<Rightarrow> 'a kernel_t_scheme \<Rightarrow> bool" where
  "switched s s' \<longleftrightarrow>
     nodes s' = nodes s \<and> task_table s' = task_table s \<and> idle_task s' = idle_task s
   \<and> jiffies s' = jiffies s \<and> intr s' = intr s
   \<and> kernel_t.more s' = kernel_t.more s
   \<and> (\<forall>p. p \<noteq> current s \<or> t_ticks (tasks s p) \<noteq> 0 \<longrightarrow> t_ticks (tasks s' p) = t_ticks (tasks s p))
   \<and> (\<forall>p. t_pid (tasks s' p) = t_pid (tasks s p) \<and> t_ppid (tasks s' p) = t_ppid (tasks s p)
        \<and> t_magic (tasks s' p) = t_magic (tasks s p) \<and> t_pde (tasks s' p) = t_pde (tasks s p)
        \<and> t_waitpid (tasks s' p) = t_waitpid (tasks s p) \<and> t_status (tasks s' p) = t_status (tasks s p))
   \<and> (\<forall>p. state_of s' p = (if p = current s' then TASK_RUNNING
        else if p = current s \<and> state_of s p = TASK_RUNNING then TASK_READY else state_of s p))"

definition runnable :: "'a kernel_t_scheme \<Rightarrow> u32 \<Rightarrow> bool" where
  "runnable s p \<longleftrightarrow> p \<in> live s \<and> state_of s p \<in> {TASK_READY, TASK_RUNNING}"

text \<open>The task that runs next is a ready one, and another than the caller if there is one.\<close>

lemma schedule_switched:
  assumes "sched_core s c" and "\<not> intr s"
  shows "\<exists>s'. schedule s = Inr s' \<and> switched s s' \<and> runnable s (current s')
    \<and> ((\<exists>p \<in> live s. state_of s p = TASK_READY \<and> p \<noteq> current s) \<longrightarrow> current s' \<noteq> current s)"
proof -
  obtain i where i: "idle_task s = Some i" "i \<in> live s" "state_of s i \<in> {TASK_READY, TASK_RUNNING}"
    by (rule sched_core_idle [OF assms(1)])
  obtain r where r: "task_search TASK_READY s = Inr r"
    "case r of Some p \<Rightarrow> p \<in> live s \<and> candidate s TASK_READY p
        \<or> TASK_READY = TASK_READY \<and> idle_task s = Some p \<and> (\<forall>q \<in> live s. \<not> candidate s TASK_READY q)
      | None \<Rightarrow> \<forall>q \<in> live s. \<not> candidate s TASK_READY q"
    using task_search_cases [OF assms(2), of TASK_READY] by blast
  have "r \<noteq> None" using r(1) i assms(2) by (auto simp: task_search_def Let_def split: if_splits)
  then obtain p where p: "r = Some p" by blast
  have live: "p \<in> live s" and st: "state_of s p \<in> {TASK_READY, TASK_RUNNING}"
    using r(2) i by (auto simp: p candidate_def)
  have other: "p \<noteq> current s" if "\<exists>q \<in> live s. state_of s q = TASK_READY \<and> q \<noteq> current s"
    using r(2) that by (auto simp: p candidate_def)
  have magic: "t_magic (tasks s p) = ONIX_MAGIC" "page_aligned (t_pde (tasks s p))"
    using sched_coreD(4,5) [OF assms(1) live] .
  show ?thesis
  proof (cases "p = current s")
    case True
    then show ?thesis using assms(2) r(1) p magic live st other
      by (auto simp: schedule_def Let_def switched_def runnable_def state_of_def)
  next
    case False
    show ?thesis using assms(2) r(1) p magic live st other False
      by (auto simp: schedule_def Let_def switched_def runnable_def state_of_def task_activate_def
          task_switch_def)
  qed
qed

lemma switched_simps:
  assumes "switched s s'"
  shows "nodes s' = nodes s" "live s' = live s" "idle_task s' = idle_task s" "jiffies s' = jiffies s"
    "intr s' = intr s" "task_table s' = task_table s" "kernel_t.more s' = kernel_t.more s"
    "t_magic (tasks s' p) = t_magic (tasks s p)" "t_pde (tasks s' p) = t_pde (tasks s p)"
    "p \<noteq> current s \<or> t_ticks (tasks s p) \<noteq> 0 \<Longrightarrow> wake_time s' p = wake_time s p"
    "state_of s' p = (if p = current s' then TASK_RUNNING
        else if p = current s \<and> state_of s p = TASK_RUNNING then TASK_READY else state_of s p)"
  using assms unfolding switched_def live_def wake_time_def by auto

lemma sched_coreI:
  assumes "store_rel (nodes s) c" "\<forall>q. c q \<noteq> None" "current s \<in> live s"
    "\<exists>i. idle_task s = Some i \<and> i \<in> live s \<and> state_of s i \<in> {TASK_READY, TASK_RUNNING}"
    "\<And>p. p \<in> live s \<Longrightarrow> t_magic (tasks s p) = ONIX_MAGIC \<and> page_aligned (t_pde (tasks s p))"
    "\<And>p. p \<in> live s \<Longrightarrow> state_of s p = TASK_RUNNING \<Longrightarrow> p = current s"
    "\<And>q xs p. c q = Some xs \<Longrightarrow> p \<in> set xs \<Longrightarrow> p \<in> live s \<and> state_of s p \<in> waiting
        \<and> (state_of s p = TASK_SLEEPING \<longleftrightarrow> q = SleepList)"
    "\<And>p. p \<in> live s \<Longrightarrow> state_of s p \<in> waiting \<Longrightarrow> \<not> unlinked c p"
    "sorted (map (wake_time s) (the (c SleepList)))"
    "\<forall>p \<in> set (the (c SleepList)). 0 < wake_time s p"
  shows "sched_core s c"
  unfolding sched_core_def
  by (intro conjI ballI allI impI) (use assms in \<open>blast+\<close>)

lemma sched_core_cong:
  assumes "sched_core s c" and "nodes s' = nodes s" "live s' = live s" "idle_task s' = idle_task s"
    and "current s' \<in> live s"
    and "\<And>p. t_magic (tasks s' p) = t_magic (tasks s p)" "\<And>p. t_pde (tasks s' p) = t_pde (tasks s p)"
    and "\<And>p. p \<in> live s \<Longrightarrow> state_of s' p = TASK_RUNNING \<Longrightarrow> p = current s'"
    and "\<And>p. state_of s p \<in> waiting \<or> state_of s' p \<in> waiting \<Longrightarrow> state_of s' p = state_of s p"
    and "\<And>p. state_of s p \<in> {TASK_READY, TASK_RUNNING} \<Longrightarrow> state_of s' p \<in> {TASK_READY, TASK_RUNNING}"
    and "\<And>p. p \<in> set (the (c SleepList)) \<Longrightarrow> wake_time s' p = wake_time s p"
  shows "sched_core s' c"
proof -
  note d = sched_coreD [OF assms(1)]
  have w: "map (wake_time s') (the (c SleepList)) = map (wake_time s) (the (c SleepList))"
    using assms(11) by simp
  have st: "state_of s' p \<in> waiting \<longleftrightarrow> state_of s p \<in> waiting" for p using assms(9) [of p] by auto
  obtain i where i: "idle_task s = Some i" "i \<in> live s" "state_of s i \<in> {TASK_READY, TASK_RUNNING}"
    by (rule sched_core_idle [OF assms(1)])
  have q: "p \<in> live s \<and> state_of s' p \<in> waiting \<and> (state_of s' p = TASK_SLEEPING \<longleftrightarrow> q = SleepList)"
    if "c q = Some xs" "p \<in> set xs" for q xs p
    using d(7,8) [OF that] st assms(9) [of p] by simp
  have "\<forall>q. c q \<noteq> None" using d(2) by blast
  moreover have "\<exists>i. idle_task s = Some i \<and> i \<in> live s \<and> state_of s' i \<in> {TASK_READY, TASK_RUNNING}"
    using i assms(10) [of i] by blast
  moreover have "\<forall>p \<in> set (the (c SleepList)). 0 < wake_time s' p" using d(11) assms(11) by simp
  ultimately show ?thesis
    using d(1,4,5,10) assms(5,8) q d(9)
    by (intro sched_coreI) (simp_all add: assms(2-4,6,7) w st)
qed

lemma sched_core_intr [simp]: "sched_core (s\<lparr>intr := b\<rparr>) c \<longleftrightarrow> sched_core s c"
proof -
  have "wake_time (s\<lparr>intr := b\<rparr>) = wake_time s" "state_of (s\<lparr>intr := b\<rparr>) = state_of s"
    "live (s\<lparr>intr := b\<rparr>) = live s"
    by (auto simp: wake_time_def state_of_def live_def)
  then show ?thesis by (simp add: sched_core_def)
qed

lemma waiting_cases: "st \<in> waiting \<longleftrightarrow> st = TASK_BLOCKED \<or> st = TASK_SLEEPING \<or> st = TASK_WAITING"
  by (auto simp: waiting_def)

lemma switched_inv:
  assumes "sched_core s c" and "switched s s'" and "runnable s (current s')"
  shows "sched_inv s' c"
proof -
  have "sched_core s' c"
  proof (rule sched_core_cong [OF assms(1)])
    fix p assume p: "p \<in> set (the (c SleepList))"
    then have "0 < wake_time s p" by (rule sched_coreD(11) [OF assms(1)])
    then have "t_ticks (tasks s p) \<noteq> 0" by (auto simp: wake_time_def)
    then show "wake_time s' p = wake_time s p"
      by (intro switched_simps(10) [OF assms(2)]) simp
  next
    fix p
    note st = switched_simps(11) [OF assms(2), of p]
    show "p = current s'" if "p \<in> live s" "state_of s' p = TASK_RUNNING"
      using that sched_coreD(6) [OF assms(1), of p] st by (auto split: if_splits)
    show "state_of s' p = state_of s p" if "state_of s p \<in> waiting \<or> state_of s' p \<in> waiting"
      using that st assms(3) by (auto simp: runnable_def waiting_cases split: if_splits)
    show "state_of s' p \<in> {TASK_READY, TASK_RUNNING}" if "state_of s p \<in> {TASK_READY, TASK_RUNNING}"
      using that st by auto
  qed (use assms(3) in \<open>simp_all add: switched_simps [OF assms(2)] runnable_def\<close>)
  moreover have "state_of s' (current s') = TASK_RUNNING" by (simp add: switched_simps [OF assms(2)])
  ultimately show ?thesis by (simp add: sched_inv_def)
qed

text \<open>Every call of \<open>schedule\<close> succeeds and ends with one running task.\<close>

lemma schedule_ok:
  assumes "sched_core s c" and "\<not> intr s"
  shows "\<exists>s'. schedule s = Inr s' \<and> switched s s' \<and> sched_inv s' c
    \<and> ((\<exists>p \<in> live s. state_of s p = TASK_READY \<and> p \<noteq> current s) \<longrightarrow> current s' \<noteq> current s)"
  using schedule_switched [OF assms] switched_inv [OF assms(1)] by blast

section \<open>Queueing and unqueueing a task\<close>

text \<open>\<open>s'\<close> is \<open>s\<close> with the task \<open>p\<close> changed and the lists of \<open>h\<close>.\<close>

definition retasked :: "'a kernel_t_scheme \<Rightarrow> u32 \<Rightarrow> 'a kernel_t_scheme \<Rightarrow> bool" where
  "retasked s p s' \<longleftrightarrow> live s' = live s \<and> idle_task s' = idle_task s \<and> current s' = current s
     \<and> (\<forall>x. x \<noteq> p \<longrightarrow> tasks s' x = tasks s x)
     \<and> t_magic (tasks s' p) = t_magic (tasks s p) \<and> t_pde (tasks s' p) = t_pde (tasks s p)"

lemma retasked_other:
  assumes "retasked s p s'" "x \<noteq> p"
  shows "state_of s' x = state_of s x" "wake_time s' x = wake_time s x"
  using assms by (simp_all add: retasked_def state_of_def wake_time_def)

lemma retasked_const:
  assumes "retasked s p s'"
  shows "live s' = live s" "idle_task s' = idle_task s" "current s' = current s"
    "t_magic (tasks s' x) = t_magic (tasks s x)" "t_pde (tasks s' x) = t_pde (tasks s x)"
  using assms by (cases "x = p"; simp add: retasked_def)+

lemma sched_enqueue:
  assumes inv: "sched_core s c" and idle: "idle_task s \<noteq> Some p" and r: "retasked s p s'"
    and h: "store_rel (nodes s') (c(q \<mapsto> ys))" and q: "c q = Some xs" and ys: "set ys = insert p (set xs)"
    and p: "p \<in> live s" and st: "state_of s' p \<in> waiting" "state_of s' p = TASK_SLEEPING \<longleftrightarrow> q = SleepList"
    and un: "unlinked c p"
    and sorted: "q = SleepList \<Longrightarrow> sorted (map (wake_time s') ys) \<and> 0 < wake_time s' p"
  shows "sched_core s' (c(q \<mapsto> ys))"
proof -
  note d = sched_coreD [OF inv]
  note k = retasked_const [OF r]
  obtain i where i: "idle_task s = Some i" "i \<in> live s" "state_of s i \<in> {TASK_READY, TASK_RUNNING}"
    by (rule sched_core_idle [OF inv])
  have ip: "i \<noteq> p" using idle i(1) by auto
  have notin: "p \<notin> set xs'" if "c q' = Some xs'" for q' xs' using un that by (auto simp: unlinked_def)
  have sl: "the (c SleepList) = xs' \<Longrightarrow> p \<notin> set xs'" for xs'
    using notin d(2) [of SleepList] by auto
  show ?thesis
  proof (rule sched_coreI)
    show "store_rel (nodes s') (c(q \<mapsto> ys))" by (rule h)
    show "\<forall>q'. (c(q \<mapsto> ys)) q' \<noteq> None" using d(2) by auto
    show "current s' \<in> live s'" using d(3) by (simp add: k)
    show "\<exists>i. idle_task s' = Some i \<and> i \<in> live s' \<and> state_of s' i \<in> {TASK_READY, TASK_RUNNING}"
      using i ip retasked_other [OF r ip] by (auto simp: k)
  next
    fix x assume "x \<in> live s'"
    then have x: "x \<in> live s" by (simp add: k)
    show "t_magic (tasks s' x) = ONIX_MAGIC \<and> page_aligned (t_pde (tasks s' x))"
      using d(4,5) [OF x] by (simp add: k)
    show "x = current s'" if "state_of s' x = TASK_RUNNING"
      using that d(6) [OF x] st(1) retasked_other(1) [OF r, of x] by (cases "x = p") (auto simp: k waiting_cases)
    show "\<not> unlinked (c(q \<mapsto> ys)) x" if w: "state_of s' x \<in> waiting"
    proof (cases "x = p")
      case True
      then show ?thesis using ys by (auto simp: unlinked_def)
    next
      case False
      then obtain q' xs' where "c q' = Some xs'" "x \<in> set xs'"
        using d(9) [OF x] w retasked_other(1) [OF r False] by (auto simp: unlinked_def)
      then show ?thesis using ys q by (cases "q' = q") (auto simp: unlinked_def)
    qed
  next
    fix q' xs' x assume q': "(c(q \<mapsto> ys)) q' = Some xs'" and x: "x \<in> set xs'"
    show "x \<in> live s' \<and> state_of s' x \<in> waiting \<and> (state_of s' x = TASK_SLEEPING \<longleftrightarrow> q' = SleepList)"
    proof (cases "x = p")
      case True
      then have "q' = q" using q' x notin [of q' xs'] by (auto split: if_splits)
      then show ?thesis using True p st by (simp add: k)
    next
      case False
      have "\<exists>zs. c q' = Some zs \<and> x \<in> set zs" using q' x ys q False by (auto split: if_splits)
      then show ?thesis using d(7,8) retasked_other(1) [OF r False] by (auto simp: k)
    qed
  next
    have *: "wake_time s' x = wake_time s x" if "x \<in> set (the (c SleepList))" for x
      using retasked_other(2) [OF r, of x] sl that by auto
    then have w: "map (wake_time s') (the (c SleepList)) = map (wake_time s) (the (c SleepList))" by simp
    show "sorted (map (wake_time s') (the ((c(q \<mapsto> ys)) SleepList)))"
    proof (cases "q = SleepList")
      case False
      then have "the ((c(q \<mapsto> ys)) SleepList) = the (c SleepList)" by simp
      then show ?thesis using d(10) w by metis
    qed (use sorted in simp)
    show "\<forall>x \<in> set (the ((c(q \<mapsto> ys)) SleepList)). 0 < wake_time s' x"
      using sorted d(11) * ys q by (cases "q = SleepList") auto
  qed
qed

lemma sched_dequeue:
  assumes inv: "sched_core s c" and r: "retasked s p s'"
    and h: "store_rel (nodes s') (c(q \<mapsto> remove1 p xs))" and q: "c q = Some xs" and p: "p \<in> set xs"
    and st: "state_of s' p = TASK_READY"
  shows "sched_core s' (c(q \<mapsto> remove1 p xs))"
proof -
  note d = sched_coreD [OF inv]
  note k = retasked_const [OF r]
  obtain i where i: "idle_task s = Some i" "i \<in> live s" "state_of s i \<in> {TASK_READY, TASK_RUNNING}"
    by (rule sched_core_idle [OF inv])
  have dist: "distinct xs" by (rule store_rel_distinct [OF d(1) q])
  then have rem: "set (remove1 p xs) = set xs - {p}" by simp
  have ip: "i \<noteq> p" using d(7) [OF q p] i(3) by (auto simp: waiting_cases)
  have only: "q' = q" if "c q' = Some xs'" "p \<in> set xs'" for q' xs'
    using il.rel_disjoint [OF d(1)] that q p unfolding disjoint_lists_def by blast
  show ?thesis
  proof (rule sched_coreI)
    show "store_rel (nodes s') (c(q \<mapsto> remove1 p xs))" by (rule h)
    show "\<forall>q'. (c(q \<mapsto> remove1 p xs)) q' \<noteq> None" using d(2) by auto
    show "current s' \<in> live s'" using d(3) by (simp add: k)
    show "\<exists>i. idle_task s' = Some i \<and> i \<in> live s' \<and> state_of s' i \<in> {TASK_READY, TASK_RUNNING}"
      using i ip retasked_other [OF r ip] by (auto simp: k)
  next
    fix x assume "x \<in> live s'"
    then have x: "x \<in> live s" by (simp add: k)
    show "t_magic (tasks s' x) = ONIX_MAGIC \<and> page_aligned (t_pde (tasks s' x))"
      using d(4,5) [OF x] by (simp add: k)
    show "x = current s'" if "state_of s' x = TASK_RUNNING"
      using that d(6) [OF x] st retasked_other(1) [OF r, of x] by (cases "x = p") (auto simp: k)
    show "\<not> unlinked (c(q \<mapsto> remove1 p xs)) x" if w: "state_of s' x \<in> waiting"
    proof -
      have xp: "x \<noteq> p" using w st by (auto simp: waiting_cases)
      then obtain q' xs' where "c q' = Some xs'" "x \<in> set xs'"
        using d(9) [OF x] w retasked_other(1) [OF r xp] by (auto simp: unlinked_def)
      then show ?thesis using rem q xp by (cases "q' = q") (auto simp: unlinked_def)
    qed
  next
    fix q' xs' x assume q': "(c(q \<mapsto> remove1 p xs)) q' = Some xs'" and x: "x \<in> set xs'"
    have "x \<noteq> p" using q' x rem only [of q' xs'] by (auto split: if_splits)
    moreover have "\<exists>zs. c q' = Some zs \<and> x \<in> set zs" using q' x rem q by (auto split: if_splits)
    ultimately show "x \<in> live s' \<and> state_of s' x \<in> waiting \<and> (state_of s' x = TASK_SLEEPING \<longleftrightarrow> q' = SleepList)"
      using d(7,8) retasked_other(1) [OF r] by (auto simp: k)
  next
    define zs where "zs = the ((c(q \<mapsto> remove1 p xs)) SleepList)"
    have zs: "zs = remove1 p (the (c SleepList))"
    proof (cases "q = SleepList")
      case True
      then show ?thesis using q by (simp add: zs_def)
    next
      case False
      obtain ys where ys: "c SleepList = Some ys" using d(2) by blast
      then have "p \<notin> set ys" using only False by blast
      then show ?thesis using False ys by (simp add: zs_def remove1_idem)
    qed
    obtain ys where ys: "c SleepList = Some ys" using d(2) by blast
    have "p \<notin> set zs" using zs store_rel_distinct [OF d(1) ys] ys by simp
    then have w: "map (wake_time s') zs = map (wake_time s) zs"
      using retasked_other(2) [OF r] by (intro map_cong) metis+
    show "sorted (map (wake_time s') (the ((c(q \<mapsto> remove1 p xs)) SleepList)))"
      using d(10) unfolding zs_def [symmetric] w unfolding zs by (rule sorted_map_remove1)
    show "\<forall>x \<in> set (the ((c(q \<mapsto> remove1 p xs)) SleepList)). 0 < wake_time s' x"
      unfolding zs_def [symmetric]
    proof
      fix x assume x: "x \<in> set zs"
      then have "x \<noteq> p" "x \<in> set (the (c SleepList))" using \<open>p \<notin> set zs\<close> zs notin_set_remove1 by fastforce+
      then show "0 < wake_time s' x" using d(11) retasked_other(2) [OF r] by simp
    qed
  qed
qed

section \<open>The operations\<close>

lemma upd_retasked:
  assumes "\<And>t. t_magic (f t) = t_magic t \<and> t_pde (f t) = t_pde t"
  shows "retasked s p (upd_task p f (s\<lparr>nodes := h\<rparr>))"
  using assms by (simp add: retasked_def live_def)

lemma kernel_nodes_simps [simp]:
  "nodes (s\<lparr>nodes := h\<rparr>) = h" "live (s\<lparr>nodes := h\<rparr>) = live s" "state_of (s\<lparr>nodes := h\<rparr>) = state_of s"
  "kernel_t.more (s\<lparr>nodes := h\<rparr>) = kernel_t.more s"
  by (simp_all add: live_def state_of_def fun_eq_iff)

lemma current_unlinked: "sched_inv s c \<Longrightarrow> unlinked c (current s)"
  using not_waiting_unlinked [of s c "current s"] by (simp add: sched_inv_def waiting_cases)

text \<open>Blocking the running task puts it at the front of the queue and runs another task.\<close>

lemma task_block_current:
  assumes inv: "sched_inv s c" and "\<not> intr s" and idle: "idle_task s \<noteq> Some (current s)"
    and q: "q = (case blist of None \<Rightarrow> BlockList | Some q \<Rightarrow> q)" "q \<noteq> SleepList" "c q = Some xs"
    and st: "st \<in> {TASK_BLOCKED, TASK_WAITING}"
  shows "\<exists>s1 s'. task_block (current s) blist st s = Inr s' \<and> switched s1 s'
    \<and> retasked s (current s) s1 \<and> state_of s1 (current s) = st \<and> intr s1 = intr s
    \<and> kernel_t.more s1 = kernel_t.more s \<and> jiffies s1 = jiffies s \<and> task_table s1 = task_table s
    \<and> sched_inv s' (c(q \<mapsto> current s # xs))"
proof -
  let ?p = "current s"
  have core: "sched_core s c" using inv by (simp add: sched_inv_def)
  note d = sched_coreD [OF core]
  have un: "unlinked c ?p" by (rule current_unlinked [OF inv])
  then have det: "detached (nodes s) ?p" by (rule store_rel_detached [OF d(1)])
  obtain h where h: "list_push q (Node ?p) (nodes s) = Inr h" "store_rel h (c(q \<mapsto> ?p # xs))"
    using il.rel_push [OF d(1) q(3) un] by blast
  define s1 where "s1 = upd_task ?p (\<lambda>t. t\<lparr>t_state := st\<rparr>) (s\<lparr>nodes := h\<rparr>)"
  have r: "retasked s ?p s1" unfolding s1_def by (rule upd_retasked) simp
  have "sched_core s1 (c(q \<mapsto> ?p # xs))"
  proof (rule sched_enqueue [OF core idle r _ q(3) _ d(3) _ _ un])
    show "store_rel (nodes s1) (c(q \<mapsto> ?p # xs))" using h(2) by (simp add: s1_def)
    show "state_of s1 ?p \<in> waiting" using st by (auto simp: s1_def state_of_def waiting_cases)
    show "state_of s1 ?p = TASK_SLEEPING \<longleftrightarrow> q = SleepList" using st q(2) by (auto simp: s1_def state_of_def)
  qed (use q(2) in simp_all)
  moreover have i: "\<not> intr s1" using assms(2) by (simp add: s1_def)
  ultimately obtain s' where s': "schedule s1 = Inr s'" "switched s1 s'" "sched_inv s' (c(q \<mapsto> ?p # xs))"
    using schedule_ok by blast
  have "task_block ?p blist st s = schedule s1"
    using assms(2) det h(1) st q(1)
    by (auto simp: task_block_def detached_def s1_def Let_def)
  then show ?thesis using s' r by (intro exI [of _ s1] exI [of _ s']) (simp add: s1_def state_of_def)
qed

text \<open>Unblocking a waiting task makes it ready and changes nothing else.\<close>

lemma task_unblock_ok:
  assumes core: "sched_core s c" and "\<not> intr s" and q: "c q = Some xs" "p \<in> set xs"
  shows "\<exists>h. task_unblock p s = Inr (upd_task p (\<lambda>t. t\<lparr>t_state := TASK_READY\<rparr>) (s\<lparr>nodes := h\<rparr>))
    \<and> store_rel h (c(q \<mapsto> remove1 p xs))
    \<and> sched_core (upd_task p (\<lambda>t. t\<lparr>t_state := TASK_READY\<rparr>) (s\<lparr>nodes := h\<rparr>)) (c(q \<mapsto> remove1 p xs))"
proof -
  note d = sched_coreD [OF core]
  obtain h where h: "list_remove (Node p) (nodes s) = Inr h" "store_rel h (c(q \<mapsto> remove1 p xs))"
    using store_rel_remove1 [OF d(1) q] by blast
  define s1 where "s1 = upd_task p (\<lambda>t. t\<lparr>t_state := TASK_READY\<rparr>) (s\<lparr>nodes := h\<rparr>)"
  have r: "retasked s p s1" unfolding s1_def by (rule upd_retasked) simp
  have sc: "sched_core s1 (c(q \<mapsto> remove1 p xs))"
    by (rule sched_dequeue [OF core r _ q]) (use h(2) in \<open>simp_all add: s1_def state_of_def\<close>)
  obtain as bs where xs: "xs = as @ p # bs" "p \<notin> set as" using split_list_first [OF q(2)] by blast
  then have "remove1 p xs = as @ bs" by (simp add: remove1_append)
  then have "unlinked (c(q \<mapsto> remove1 p xs)) p" using il.remove_unlinks [OF d(1)] q(1) xs by metis
  then have "detached h p" by (rule store_rel_detached [OF h(2)])
  then show ?thesis using assms(2) h sc
    by (auto simp: task_unblock_def detached_def s1_def)
qed

text \<open>The number of ticks a sleep takes: at least one.\<close>

definition sleep_ticks :: "u32 \<Rightarrow> u32" where
  "sleep_ticks ms = (if ms div JIFFY > 0 then ms div JIFFY else 1)"

definition put_to_sleep :: "u32 \<Rightarrow> u32 \<Rightarrow> 'a kernel_t_scheme \<Rightarrow> 'a kernel_t_scheme" where
  "put_to_sleep p tick s = upd_task p (\<lambda>t. t\<lparr>t_ticks := tick, t_state := TASK_SLEEPING\<rparr>) s"

lemma task_sleep_current:
  assumes inv: "sched_inv s c" and "\<not> intr s" and idle: "idle_task s \<noteq> Some (current s)"
    and xs: "c SleepList = Some xs" and pos: "0 < sint (jiffies s + sleep_ticks ms)"
  shows "\<exists>h s' ys. task_sleep ms s = Inr s'
    \<and> switched (put_to_sleep (current s) (jiffies s + sleep_ticks ms) (s\<lparr>nodes := h\<rparr>)) s'
    \<and> ys = insert_key (\<lambda>p. sint (if p = current s then jiffies s + sleep_ticks ms else t_ticks (tasks s p))) (current s) xs
    \<and> sched_inv s' (c(SleepList \<mapsto> ys))"
proof -
  let ?p = "current s" and ?t = "jiffies s + sleep_ticks ms"
  have core: "sched_core s c" using inv by (simp add: sched_inv_def)
  note d = sched_coreD [OF core]
  have un: "unlinked c ?p" by (rule current_unlinked [OF inv])
  have notin: "?p \<notin> set xs" using un xs by (auto simp: unlinked_def)
  define key where "key = (\<lambda>p. sint (if p = ?p then ?t else t_ticks (tasks s p)))"
  define ys where "ys = insert_key key ?p xs"
  obtain h where h: "list_insert_sort SleepList (Node ?p) key (nodes s) = Inr h"
      "store_rel h (c(SleepList \<mapsto> ys))"
    using il.rel_insert_sort [OF d(1) xs un] unfolding ys_def by blast
  define s1 where "s1 = put_to_sleep ?p ?t (s\<lparr>nodes := h\<rparr>)"
  have r: "retasked s ?p s1" unfolding s1_def put_to_sleep_def by (rule upd_retasked) simp
  have key: "wake_time s1 p = key p" for p
    by (simp add: s1_def put_to_sleep_def wake_time_def key_def)
  have "map key xs = map (wake_time s) xs" using notin by (auto simp: key_def wake_time_def)
  then have "sorted (map key xs)" using d(10) xs by (metis option.sel)
  then have "sorted (map (wake_time s1) ys)" unfolding key ys_def by (rule sorted_insert_key)
  moreover have "0 < wake_time s1 ?p" using pos by (simp add: key key_def)
  ultimately have "sched_core s1 (c(SleepList \<mapsto> ys))"
    by (intro sched_enqueue [OF core idle r _ xs _ d(3) _ _ un])
      (use h(2) in \<open>simp_all add: s1_def put_to_sleep_def state_of_def waiting_cases ys_def\<close>)
  moreover have "\<not> intr s1" using assms(2) by (simp add: s1_def put_to_sleep_def)
  ultimately obtain s' where s': "schedule s1 = Inr s'" "switched s1 s'" "sched_inv s' (c(SleepList \<mapsto> ys))"
    using schedule_ok by blast
  have "task_sleep ms s = schedule s1"
  proof -
    have k: "(\<lambda>p. sint (t_ticks (((tasks s)(?p := (tasks s ?p)\<lparr>t_ticks := ?t\<rparr>)) p))) = key"
      by (auto simp: key_def fun_eq_iff)
    have "task_sleep ms s = bindE (list_insert_sort SleepList (Node ?p) key (nodes s)) (\<lambda>h.
      schedule (upd_task ?p (\<lambda>t. t\<lparr>t_state := TASK_SLEEPING\<rparr>) ((upd_task ?p (\<lambda>t. t\<lparr>t_ticks := ?t\<rparr>) s)\<lparr>nodes := h\<rparr>)))"
      using assms(2) by (simp add: task_sleep_def Let_def sleep_ticks_def [symmetric] k del: fun_upd_apply)
    then show ?thesis by (simp add: h(1) s1_def put_to_sleep_def upd_task_def)
  qed
  then show ?thesis using s' by (auto simp: s1_def ys_def key_def)
qed

section \<open>Waking up\<close>

lemma list_next:
  assumes "store_rel h c"
  shows "c l = Some xs \<Longrightarrow> node_next (h (Head l)) = Some (case xs of [] \<Rightarrow> Tail l | x # _ \<Rightarrow> Node x)"
    and "c l = Some (p # xs) \<Longrightarrow> node_next (h (Node p)) = Some (case xs of [] \<Rightarrow> Tail l | x # _ \<Rightarrow> Node x)"
  using store_rel_is_list [OF assms, of l] by (auto simp: is_list_def cells_def split: list.splits)

text \<open>The tasks \<open>ws\<close> have been woken: ready, with no ticks left; all others are as before.\<close>

definition woken :: "u32 list \<Rightarrow> 'a kernel_t_scheme \<Rightarrow> 'a kernel_t_scheme \<Rightarrow> bool" where
  "woken ws s s' \<longleftrightarrow>
     (\<exists>h. s' = s\<lparr>nodes := h, tasks := (\<lambda>p. if p \<in> set ws
        then (tasks s p)\<lparr>t_ticks := 0, t_state := TASK_READY\<rparr> else tasks s p)\<rparr>)"

definition due :: "'a kernel_t_scheme \<Rightarrow> u32 \<Rightarrow> bool" where
  "due s p \<longleftrightarrow> t_ticks (tasks s p) \<le> jiffies s"

lemma woken_same:
  assumes "woken ws s s'"
  shows "jiffies s' = jiffies s" "current s' = current s" "intr s' = intr s" "task_table s' = task_table s"
    "live s' = live s" "idle_task s' = idle_task s" "kernel_t.more s' = kernel_t.more s"
    "tasks s' p = (if p \<in> set ws then (tasks s p)\<lparr>t_ticks := 0, t_state := TASK_READY\<rparr> else tasks s p)"
  using assms by (auto simp: woken_def live_def)

lemma woken_none [simp]: "woken [] s s"
  unfolding woken_def by (rule exI [of _ "nodes s"]) simp

lemma woken_Cons:
  assumes "woken [p] s s1" and "woken ws s1 s2"
  shows "woken (p # ws) s s2"
proof -
  obtain h where h: "s1 = s\<lparr>nodes := h, tasks := (\<lambda>x. if x \<in> set [p]
        then (tasks s x)\<lparr>t_ticks := 0, t_state := TASK_READY\<rparr> else tasks s x)\<rparr>"
    using assms(1) by (auto simp: woken_def)
  obtain h2 where h2: "s2 = s1\<lparr>nodes := h2, tasks := (\<lambda>x. if x \<in> set ws
        then (tasks s1 x)\<lparr>t_ticks := 0, t_state := TASK_READY\<rparr> else tasks s1 x)\<rparr>"
    using assms(2) by (auto simp: woken_def)
  have "(\<lambda>x. if x \<in> set ws then (tasks s1 x)\<lparr>t_ticks := 0, t_state := TASK_READY\<rparr> else tasks s1 x)
      = (\<lambda>x. if x \<in> set (p # ws) then (tasks s x)\<lparr>t_ticks := 0, t_state := TASK_READY\<rparr> else tasks s x)"
    by (rule ext) (simp add: h)
  then have "s2 = s\<lparr>nodes := h2, tasks := (\<lambda>x. if x \<in> set (p # ws)
        then (tasks s x)\<lparr>t_ticks := 0, t_state := TASK_READY\<rparr> else tasks s x)\<rparr>"
    unfolding h2 by (simp only:) (simp add: h)
  then show ?thesis unfolding woken_def by blast
qed

lemma wakeup_step:
  assumes core: "sched_core s c" and "\<not> intr s" and "c SleepList = Some (p # xs)"
  shows "\<exists>s1. task_unblock p (upd_task p (\<lambda>t. t\<lparr>t_ticks := 0\<rparr>) s) = Inr s1 \<and> woken [p] s s1
    \<and> sched_core s1 (c(SleepList \<mapsto> xs))"
proof -
  note d = sched_coreD [OF core]
  obtain h where h: "list_remove (Node p) (nodes s) = Inr h" "store_rel h (c(SleepList \<mapsto> xs))"
    using store_rel_remove1 [OF d(1) assms(3), of p] by auto
  define s1 where "s1 = upd_task p (\<lambda>t. t\<lparr>t_ticks := 0, t_state := TASK_READY\<rparr>) (s\<lparr>nodes := h\<rparr>)"
  have r: "retasked s p s1" unfolding s1_def by (rule upd_retasked) simp
  have "sched_core s1 (c(SleepList \<mapsto> remove1 p (p # xs)))"
    by (rule sched_dequeue [OF core r _ assms(3)]) (use h(2) in \<open>simp_all add: s1_def state_of_def\<close>)
  moreover have "unlinked (c(SleepList \<mapsto> xs)) p"
    using il.remove_unlinks [OF d(1), of SleepList "[]" p xs] assms(3) by simp
  then have "detached h p" by (rule store_rel_detached [OF h(2)])
  then have "task_unblock p (upd_task p (\<lambda>t. t\<lparr>t_ticks := 0\<rparr>) s) = Inr s1"
    using assms(2) h(1) by (simp add: task_unblock_def detached_def s1_def upd_task_def)
  moreover have "woken [p] s s1" by (auto simp: woken_def s1_def upd_task_def fun_eq_iff intro!: exI [of _ h])
  ultimately show ?thesis by auto
qed

lemma wakeup_loop_ok:
  assumes "sched_core s c" and "\<not> intr s" and "c SleepList = Some xs"
  shows "\<exists>s'. wakeup_loop (node_next (nodes s (Head SleepList))) s = Some (Inr s')
    \<and> woken (takeWhile (due s) xs) s s' \<and> sched_core s' (c(SleepList \<mapsto> dropWhile (due s) xs))"
  using assms
proof (induction xs arbitrary: s c)
  case Nil
  have "node_next (nodes s (Head SleepList)) = Some (Tail SleepList)"
    using list_next(1) [OF sched_coreD(1) [OF Nil.prems(1)] Nil.prems(3)] by simp
  then show ?case using Nil.prems by (simp add: wakeup_loop.simps fun_upd_idem)
next
  case (Cons p xs)
  note core = Cons.prems(1) and sl = Cons.prems(3)
  have nx: "node_next (nodes s (Head SleepList)) = Some (Node p)"
    using list_next(1) [OF sched_coreD(1) [OF core] sl] by simp
  show ?case
  proof (cases "due s p")
    case False
    then have "wakeup_loop (node_next (nodes s (Head SleepList))) s = Some (Inr s)"
      unfolding nx by (subst wakeup_loop.simps) (simp add: due_def not_le)
    then show ?thesis using False core sl by (simp add: fun_upd_idem)
  next
    case True
    obtain s1 where s1: "task_unblock p (upd_task p (\<lambda>t. t\<lparr>t_ticks := 0\<rparr>) s) = Inr s1" "woken [p] s s1"
        "sched_core s1 (c(SleepList \<mapsto> xs))"
      using wakeup_step [OF core Cons.prems(2) sl] by blast
    have p: "p \<notin> set xs" using store_rel_distinct [OF sched_coreD(1) [OF core] sl] by simp
    have "due s1 x = due s x" if "x \<in> set xs" for x
      using p that woken_same [OF s1(2)] by (auto simp: due_def)
    then have eq: "takeWhile (due s1) xs = takeWhile (due s) xs" "dropWhile (due s1) xs = dropWhile (due s) xs"
      by (auto intro: takeWhile_cong dropWhile_cong)
    have "node_next (nodes s (Node p)) = node_next (nodes s1 (Head SleepList))"
      using list_next(2) [OF sched_coreD(1) [OF core] sl]
        list_next(1) [OF sched_coreD(1) [OF s1(3)], of SleepList xs] by simp
    then have step: "wakeup_loop (node_next (nodes s (Head SleepList))) s
        = wakeup_loop (node_next (nodes s1 (Head SleepList))) s1"
      unfolding nx using True by (subst wakeup_loop.simps) (simp add: due_def s1(1) leD)
    have "\<not> intr s1" using Cons.prems(2) woken_same [OF s1(2)] by simp
    from Cons.IH [OF s1(3) this fun_upd_same] obtain s' where s':
      "wakeup_loop (node_next (nodes s1 (Head SleepList))) s1 = Some (Inr s')"
      "woken (takeWhile (due s) xs) s1 s'" "sched_core s' (c(SleepList \<mapsto> dropWhile (due s) xs))"
      by (auto simp: eq fun_upd_upd simp del: fun_upd_apply)
    have "woken (takeWhile (due s) (p # xs)) s s'"
      using woken_Cons [OF s1(2) s'(2)] True by simp
    then show ?thesis using step s'(1,3) True by (auto simp del: fun_upd_apply)
  qed
qed

lemma task_wakeup_ok:
  assumes "sched_core s c" and "\<not> intr s" and "c SleepList = Some xs"
  shows "\<exists>s'. task_wakeup s = Inr s' \<and> woken (takeWhile (due s) xs) s s'
    \<and> sched_core s' (c(SleepList \<mapsto> dropWhile (due s) xs))"
  using wakeup_loop_ok [OF assms] assms(2) by (auto simp: task_wakeup_def)

section \<open>The timer interrupt\<close>

text \<open>What \<open>clock_handler\<close> does before it may reschedule: the due sleepers are woken, the time
  advances, and the running task has used up a tick.\<close>

definition ticked :: "u32 list \<Rightarrow> 'a kernel_t_scheme \<Rightarrow> 'a kernel_t_scheme \<Rightarrow> bool" where
  "ticked ws s s1 \<longleftrightarrow>
     jiffies s1 = jiffies s + 1 \<and> current s1 = current s \<and> intr s1 = intr s \<and> task_table s1 = task_table s
   \<and> idle_task s1 = idle_task s \<and> kernel_t.more s1 = kernel_t.more s
   \<and> (\<forall>p. tasks s1 p =
        (if p = current s then (tasks s p)\<lparr>t_jiffies := jiffies s + 1, t_ticks := t_ticks (tasks s p) - 1\<rparr>
         else if p \<in> set ws then (tasks s p)\<lparr>t_ticks := 0, t_state := TASK_READY\<rparr> else tasks s p))"

definition quiet :: "'a kernel_t_scheme \<Rightarrow> 'a kernel_t_scheme \<Rightarrow> bool" where
  "quiet s s' \<longleftrightarrow> s' = s\<lparr>outs := outs s', beeping := beeping s'\<rparr>"

lemma quiet_ports: "quiet s (stop_beep (send_eoi v s))"
  by (cases s) (simp add: quiet_def stop_beep_def send_eoi_def outb_def inb_def Let_def)

lemma quiet_same:
  assumes "quiet s s'"
  shows "tasks s' = tasks s" "nodes s' = nodes s" "live s' = live s" "idle_task s' = idle_task s"
    "current s' = current s" "jiffies s' = jiffies s" "intr s' = intr s" "task_table s' = task_table s"
    "kernel_t.more s' = kernel_t.more s" "state_of s' = state_of s" "wake_time s' = wake_time s"
    "due s' = due s"
proof -
  obtain o' b where "s' = s\<lparr>outs := o', beeping := b\<rparr>" using assms by (auto simp: quiet_def)
  then show "tasks s' = tasks s" "nodes s' = nodes s" "live s' = live s" "idle_task s' = idle_task s"
    "current s' = current s" "jiffies s' = jiffies s" "intr s' = intr s" "task_table s' = task_table s"
    "kernel_t.more s' = kernel_t.more s" "state_of s' = state_of s" "wake_time s' = wake_time s"
    "due s' = due s"
    by (auto simp: live_def state_of_def wake_time_def due_def fun_eq_iff)
qed

lemma quiet_core: "quiet s s' \<Longrightarrow> sched_core s' c \<longleftrightarrow> sched_core s c"
  unfolding sched_core_def by (simp add: quiet_same)

lemma not_due_self: "sched_inv s c \<Longrightarrow> c q = Some xs \<Longrightarrow> current s \<notin> set xs"
  using current_unlinked by (auto simp: unlinked_def)

lemma clock_handler_ok:
  assumes inv: "sched_inv s c" and i: "\<not> intr s" and xs: "c SleepList = Some xs"
  shows "\<exists>s1 s'. clock_handler 0x20 s = Inr s' \<and> ticked (takeWhile (due s) xs) s s1
    \<and> sched_inv s' (c(SleepList \<mapsto> dropWhile (due s) xs))
    \<and> (if t_ticks (tasks s (current s)) = 1 then switched s1 s' else s' = s1)"
proof -
  let ?p = "current s"
  define s0 where "s0 = stop_beep (send_eoi 0x20 s)"
  have q: "quiet s s0" unfolding s0_def by (rule quiet_ports)
  note qs = quiet_same [OF q]
  have core: "sched_core s0 c" using inv quiet_core [OF q] by (simp add: sched_inv_def)
  obtain sw where w: "task_wakeup s0 = Inr sw" "woken (takeWhile (due s) xs) s0 sw"
      "sched_core sw (c(SleepList \<mapsto> dropWhile (due s) xs))"
    using task_wakeup_ok [OF core _ xs] i by (auto simp: qs)
  note ws = woken_same [OF w(2)]
  have notin: "?p \<notin> set (takeWhile (due s) xs)"
    using not_due_self [OF inv xs] by (auto dest: set_takeWhileD)
  define s1 where "s1 = upd_task ?p (\<lambda>t. t\<lparr>t_jiffies := jiffies s + 1, t_ticks := t_ticks t - 1\<rparr>)
     (sw\<lparr>jiffies := jiffies s + 1\<rparr>)"
  have magic: "t_magic (tasks s ?p) = ONIX_MAGIC"
    using sched_coreD(3,4) [OF core] by (simp add: qs)
  have tick: "ticked (takeWhile (due s) xs) s s1"
    using notin by (auto simp: ticked_def s1_def ws qs)
  have run: "state_of s ?p = TASK_RUNNING" using inv by (simp add: sched_inv_def)
  have "sched_core s1 (c(SleepList \<mapsto> dropWhile (due s) xs))"
  proof (rule sched_core_cong [OF w(3)])
    fix p
    have st: "state_of s1 p = state_of sw p" by (simp add: s1_def state_of_def)
    show "p = current s1" if "p \<in> live sw" "state_of s1 p = TASK_RUNNING"
      using that sched_coreD(6) [OF w(3) that(1)] st by (simp add: s1_def)
    show "state_of s1 p = state_of sw p" by (rule st)
    show "state_of s1 p \<in> {TASK_READY, TASK_RUNNING}" if "state_of sw p \<in> {TASK_READY, TASK_RUNNING}"
      using that st by simp
    show "wake_time s1 p = wake_time sw p" if "p \<in> set (the ((c(SleepList \<mapsto> dropWhile (due s) xs)) SleepList))"
      using that not_due_self [OF inv xs] by (auto simp: s1_def wake_time_def dest: set_dropWhileD)
  qed (use sched_coreD(3) [OF w(3)] in \<open>simp_all add: s1_def live_def ws qs\<close>)
  then have core1: "sched_core s1 (c(SleepList \<mapsto> dropWhile (due s) xs))" .
  have run1: "state_of s1 (current s1) = TASK_RUNNING"
    using run notin by (simp add: s1_def state_of_def ws qs)
  have eq: "clock_handler 0x20 s = (if t_ticks (tasks s ?p) = 1 then schedule s1 else Inr s1)"
    using w(1) magic notin
    by (simp add: clock_handler_def s0_def [symmetric] Let_def ws qs s1_def)
  show ?thesis
  proof (cases "t_ticks (tasks s ?p) = 1")
    case True
    have "\<not> intr s1" using i by (simp add: s1_def ws qs)
    from schedule_ok [OF core1 this] True tick eq show ?thesis by auto
  next
    case False
    then show ?thesis using tick eq core1 run1 by (auto simp: sched_inv_def)
  qed
qed

section \<open>Events and reachable states\<close>

text \<open>What can happen to the task table: the timer interrupt, the running task gives up the
  processor, sleeps or blocks, and a driver or a lock unblocks a task. All of it runs with interrupts
  off (interrupt and system call gates clear IF). The idle task only yields; sleeps end before the
  tick counter passes \<open>2 ^ 31\<close>, which it does after 248 days.\<close>

datatype event = Tick | Yield | Sleep u32 | Block "queue_t option" task_state_t | Unblock u32

fun allowed :: "event \<Rightarrow> 'a kernel_t_scheme \<Rightarrow> bool" where
  "allowed Tick s \<longleftrightarrow> True"
| "allowed Yield s \<longleftrightarrow> True"
| "allowed (Sleep ms) s \<longleftrightarrow> idle_task s \<noteq> Some (current s) \<and> 0 < sint (jiffies s + sleep_ticks ms)"
| "allowed (Block b st) s \<longleftrightarrow> idle_task s \<noteq> Some (current s) \<and> b \<noteq> Some SleepList
     \<and> st \<in> {TASK_BLOCKED, TASK_WAITING}"
| "allowed (Unblock p) s \<longleftrightarrow> p \<in> live s \<and> state_of s p \<in> {TASK_BLOCKED, TASK_WAITING}"

fun perform_off :: "event \<Rightarrow> 'a kernel_t_scheme \<Rightarrow> 'a kernel_t_scheme res" where
  "perform_off Tick s = clock_handler 0x20 s"
| "perform_off Yield s = task_yield s"
| "perform_off (Sleep ms) s = task_sleep ms s"
| "perform_off (Block b st) s = task_block (running_task s) b st s"
| "perform_off (Unblock p) s = task_unblock p s"

definition perform :: "event \<Rightarrow> 'a kernel_t_scheme \<Rightarrow> 'a kernel_t_scheme res" where
  "perform e s = perform_off e (s\<lparr>intr := False\<rparr>)"

inductive reachable :: "'a kernel_t_scheme \<Rightarrow> 'a kernel_t_scheme \<Rightarrow> bool" for s0 where
  start: "reachable s0 s0"
| step: "reachable s0 s \<Longrightarrow> allowed e s \<Longrightarrow> perform e s = Inr s' \<Longrightarrow> reachable s0 s'"

lemma intr_off [simp]:
  "sched_inv (s\<lparr>intr := b\<rparr>) c \<longleftrightarrow> sched_inv s c" "live (s\<lparr>intr := b\<rparr>) = live s"
  "state_of (s\<lparr>intr := b\<rparr>) = state_of s"
  by (simp_all add: sched_inv_def state_of_def live_def fun_eq_iff)

lemma perform_ok:
  assumes inv: "sched_inv s c" and "allowed e s"
  shows "\<exists>s' c'. perform e s = Inr s' \<and> sched_inv s' c'"
proof -
  define t where "t = s\<lparr>intr := False\<rparr>"
  have t: "sched_inv t c" "\<not> intr t" "current t = current s" "idle_task t = idle_task s" "jiffies t = jiffies s"
    "state_of t = state_of s"
    using inv by (simp_all add: t_def)
  have core: "sched_core t c" using t(1) by (simp add: sched_inv_def)
  obtain xs where xs: "c SleepList = Some xs" using sched_coreD(2) [OF core] by blast
  have "\<exists>s' c'. perform_off e t = Inr s' \<and> sched_inv s' c'"
  proof (cases e)
    case Tick
    then show ?thesis using clock_handler_ok [OF t(1,2) xs] by auto
  next
    case Yield
    then show ?thesis using schedule_ok [OF core t(2)] by (auto simp: task_yield_def)
  next
    case (Sleep ms)
    then show ?thesis using task_sleep_current [OF t(1,2) _ xs, of ms] assms(2) by (auto simp: t)
  next
    case (Block b st)
    define q where "q = (case b of None \<Rightarrow> BlockList | Some q \<Rightarrow> q)"
    obtain ys where "c q = Some ys" using sched_coreD(2) [OF core] by blast
    moreover have "q \<noteq> SleepList" using assms(2) Block by (auto simp: q_def split: option.splits)
    moreover have "idle_task t \<noteq> Some (current t)" "st \<in> {TASK_BLOCKED, TASK_WAITING}"
      using assms(2) Block by (auto simp: t)
    ultimately obtain s' where "task_block (current t) b st t = Inr s'" "sched_inv s' (c(q \<mapsto> current t # ys))"
      using task_block_current [OF t(1,2) _ q_def] by blast
    then show ?thesis using Block by auto
  next
    case (Unblock p)
    then have p: "p \<in> live t" "state_of t p \<in> waiting" "p \<noteq> current t"
      using assms(2) inv by (auto simp: t_def waiting_cases sched_inv_def)
    then obtain q ys where q: "c q = Some ys" "p \<in> set ys"
      using sched_coreD(9) [OF core p(1,2)] unfolding unlinked_def by blast
    obtain h where h: "task_unblock p t = Inr (upd_task p (\<lambda>u. u\<lparr>t_state := TASK_READY\<rparr>) (t\<lparr>nodes := h\<rparr>))"
        "sched_core (upd_task p (\<lambda>u. u\<lparr>t_state := TASK_READY\<rparr>) (t\<lparr>nodes := h\<rparr>)) (c(q \<mapsto> remove1 p ys))"
      using task_unblock_ok [OF core t(2) q] by blast
    moreover have "state_of (upd_task p (\<lambda>u. u\<lparr>t_state := TASK_READY\<rparr>) (t\<lparr>nodes := h\<rparr>)) (current t) = TASK_RUNNING"
      using t(1) p(3) by (simp add: state_of_def sched_inv_def)
    ultimately show ?thesis using Unblock by (auto simp: sched_inv_def)
  qed
  then show ?thesis by (simp add: perform_def t_def)
qed

lemma reachable_inv: "reachable s0 s \<Longrightarrow> sched_inv s0 c0 \<Longrightarrow> \<exists>c. sched_inv s c"
  by (induction rule: reachable.induct) (use perform_ok in fastforce)+

section \<open>An example\<close>

text \<open>Two tasks, the idle task running and a user task that has just been woken.\<close>

definition example_task :: "task_state_t \<Rightarrow> task_t" where
  "example_task st = \<lparr>t_stack = 0, t_state = st, t_priority = 5, t_ticks = 0, t_jiffies = 0, t_name = [],
     t_uid = 0, t_gid = 0, t_pid = 0, t_ppid = 0, t_pde = KERNEL_PAGE_DIR, t_vmap = None, t_brk = 0,
     t_status = 0, t_waitpid = 0, t_pwd = 0, t_ipwd = None, t_iroot = None, t_umask = 0,
     t_files = replicate TASK_FILE_NR None, t_magic = ONIX_MAGIC\<rparr>"

definition no_nodes :: "(queue_t, u32) heap" where
  "no_nodes a = (case a of
      Head q \<Rightarrow> \<lparr>node_prev = None, node_next = Some (Tail q)\<rparr>
    | Tail q \<Rightarrow> \<lparr>node_prev = Some (Head q), node_next = None\<rparr>
    | Node n \<Rightarrow> \<lparr>node_prev = None, node_next = None\<rparr>)"

definition example_sched :: kernel_t where
  "example_sched = \<lparr>ports = \<lambda>_. 0, outs = [], intr = False,
     task_table = [Some 0x10000, Some 0x20000] @ replicate 62 None,
     tasks = (\<lambda>p. example_task (if p = 0x10000 then TASK_RUNNING else TASK_READY)),
     nodes = no_nodes, idle_task = Some 0x10000, current = 0x10000, jiffies = 0, beeping = 0,
     cr3 = KERNEL_PAGE_DIR, esp0 = 0\<rparr>"

lemma no_nodes_rel: "store_rel no_nodes (\<lambda>_. Some [])"
  by (auto simp: store_rel_def disjoint_lists_def is_list_def cells_def no_nodes_def detached_def)

lemma example_live: "live example_sched = {0x10000, 0x20000}"
  by (auto simp: live_def example_sched_def)

lemma example_inv: "sched_inv example_sched (\<lambda>_. Some [])"
proof -
  have pde: "page_aligned KERNEL_PAGE_DIR" by code_simp
  have st: "state_of example_sched p = (if p = 0x10000 then TASK_RUNNING else TASK_READY)" for p
    by (simp add: state_of_def example_sched_def example_task_def)
  have e: "nodes example_sched = no_nodes" "current example_sched = 0x10000"
    "idle_task example_sched = Some 0x10000" "t_magic (tasks example_sched p) = ONIX_MAGIC"
    "t_pde (tasks example_sched p) = KERNEL_PAGE_DIR" for p
    by (simp_all add: example_sched_def example_task_def)
  have "sched_core example_sched (\<lambda>_. Some [])"
    by (rule sched_coreI)
      (simp_all add: example_live waiting_cases no_nodes_rel unlinked_def st e pde split: if_splits)
  then show ?thesis by (simp add: sched_inv_def state_of_def example_sched_def example_task_def)
qed

section \<open>Properties\<close>

text \<open>C19. The scheduler never fails an assertion and keeps its invariant: from any state that
  satisfies \<open>sched_inv\<close>, whatever sequence of timer interrupts, yields, sleeps, blocks and unblocks
  follows, there is one running task, the tasks that wait are each on one queue, the queues are well
  linked and the sleepers sorted by the tick they wake at; every allowed event succeeds; and a
  yield hands the processor to another task whenever another one is ready.\<close>

theorem scheduler_invariant:
  assumes "sched_inv s0 c0" and "reachable s0 s"
  shows "(\<exists>c. sched_inv s c)
    \<and> (\<forall>e. allowed e s \<longrightarrow> (\<exists>s'. perform e s = Inr s'))
    \<and> (\<exists>s'. perform Yield s = Inr s' \<and> state_of s' (current s') = TASK_RUNNING
         \<and> ((\<exists>p \<in> live s. state_of s p = TASK_READY) \<longrightarrow> current s' \<noteq> current s))"
proof -
  obtain c where c: "sched_inv s c" using reachable_inv [OF assms(2,1)] by blast
  have run: "state_of s (current s) = TASK_RUNNING" using c by (simp add: sched_inv_def)
  have "sched_core (s\<lparr>intr := False\<rparr>) c" using c by (simp add: sched_inv_def)
  from schedule_ok [OF this] obtain s' where s': "schedule (s\<lparr>intr := False\<rparr>) = Inr s'" "sched_inv s' c"
      "(\<exists>p \<in> live s. state_of s p = TASK_READY \<and> p \<noteq> current s) \<longrightarrow> current s' \<noteq> current s"
    by auto
  have "(\<exists>p \<in> live s. state_of s p = TASK_READY) \<longrightarrow> current s' \<noteq> current s"
    using s'(3) run by fastforce
  moreover have "\<exists>s'. perform e s = Inr s'" if "allowed e s" for e using perform_ok [OF c that] by blast
  moreover have "perform Yield s = Inr s'" using s'(1) by (simp add: perform_def task_yield_def)
  ultimately show ?thesis using c s'(2) unfolding sched_inv_def by blast
qed

lemma example_simps [simp]:
  "current example_sched = 0x10000" "idle_task example_sched = Some 0x10000" "jiffies example_sched = 0"
  "intr example_sched = False" "t_ticks (tasks example_sched p) = 0"
  by (simp_all add: example_sched_def example_task_def)

lemma example_schedule:
  "\<exists>s. schedule example_sched = Inr s \<and> switched example_sched s \<and> sched_inv s (\<lambda>_. Some []) \<and> current s = 0x20000"
proof -
  have core: "sched_core example_sched (\<lambda>_. Some [])" using example_inv by (simp add: sched_inv_def)
  have "\<exists>p \<in> live example_sched. state_of example_sched p = TASK_READY \<and> p \<noteq> current example_sched"
    unfolding example_live by (simp add: state_of_def example_sched_def example_task_def)
  then obtain s where s: "schedule example_sched = Inr s" "switched example_sched s"
      "sched_inv s (\<lambda>_. Some [])" "current s \<noteq> current example_sched"
    using schedule_ok [OF core] by auto
  then have "current s \<in> live example_sched"
    using sched_coreD(3) [of s "\<lambda>_. Some []"] switched_simps(2) [OF s(2)] by (simp add: sched_inv_def)
  then show ?thesis using s by (simp add: example_live)
qed

theorem scheduler_invariant_witness:
  "\<exists>s. perform Yield example_sched = Inr s \<and> current s = 0x20000
     \<and> (\<exists>c. sched_inv s c) \<and> (\<exists>s'. perform (Sleep 100) s = Inr s')"
proof -
  note i = scheduler_invariant [OF example_inv]
  obtain s where s: "schedule example_sched = Inr s" "switched example_sched s" "current s = 0x20000"
    using example_schedule by blast
  have e: "example_sched\<lparr>intr := False\<rparr> = example_sched" by (simp add: example_sched_def)
  have y: "perform Yield example_sched = Inr s"
    unfolding perform_def e by (simp add: s(1) task_yield_def)
  have r: "reachable example_sched s" using reachable.step [OF reachable.start, of Yield] y by simp
  have "0 < sint (0 + sleep_ticks 100)" by code_simp
  then have "allowed (Sleep 100) s" using s(3) switched_simps(3,4) [OF s(2)] by simp
  then show ?thesis using i [OF r] y s(3) by blast
qed

lemma word_le_sint:
  fixes a b :: u32
  assumes "0 < sint a" "0 \<le> sint b"
  shows "a \<le> b \<longleftrightarrow> sint a \<le> sint b"
proof -
  have "uint w = sint w" if "0 \<le> sint w" for w :: u32
    using that sint_lt [of w] by (simp add: uint_sint take_bit_int_eq_self)
  then have "uint a = sint a" "uint b = sint b" using assms by simp_all
  then show ?thesis by (simp add: word_le_def)
qed

lemma sorted_while:
  assumes "sorted (map f xs)" and "\<And>x. x \<in> set xs \<Longrightarrow> P x \<longleftrightarrow> f x \<le> (b :: int)"
  shows "set (takeWhile P xs) = {x \<in> set xs. P x} \<and> dropWhile P xs = filter (\<lambda>x. \<not> P x) xs"
  using assms
proof (induction xs)
  case (Cons x xs)
  show ?case
  proof (cases "P x")
    case True
    then show ?thesis using Cons by auto
  next
    case False
    then have "\<not> P y" if "y \<in> set xs" for y using Cons.prems that by fastforce
    then show ?thesis using False by (auto simp: filter_id_conv)
  qed
qed simp

text \<open>C20. Sleeping is exact: \<open>task_sleep\<close> of the running task sets its wake-up tick to the present plus
  its ticks (at least one) and puts it among the sleepers in the order of their ticks;
  \<open>task_wakeup\<close> makes exactly the sleepers ready whose tick has come, leaves the others asleep in
  their order, and touches no other task.\<close>

theorem sleep_and_wakeup:
  assumes "sched_inv s c" and "\<not> intr s" and "c SleepList = Some xs" and "0 \<le> sint (jiffies s)"
  shows "(idle_task s \<noteq> Some (current s) \<longrightarrow> 0 < sint (jiffies s + sleep_ticks ms) \<longrightarrow>
      (\<exists>s' ys c'. task_sleep ms s = Inr s' \<and> sched_inv s' c' \<and> c' SleepList = Some ys
        \<and> set ys = insert (current s) (set xs) \<and> state_of s' (current s) = TASK_SLEEPING
        \<and> t_ticks (tasks s' (current s)) = jiffies s + sleep_ticks ms))
    \<and> (\<exists>s' c'. task_wakeup s = Inr s' \<and> sched_inv s' c'
        \<and> c' SleepList = Some (filter (\<lambda>p. t_ticks (tasks s p) > jiffies s) xs)
        \<and> (\<forall>p. if p \<in> set xs \<and> t_ticks (tasks s p) \<le> jiffies s then state_of s' p = TASK_READY
               else tasks s' p = tasks s p))"
proof (intro conjI impI)
  have core: "sched_core s c" using assms(1) by (simp add: sched_inv_def)
  note d = sched_coreD [OF core]
  assume a: "idle_task s \<noteq> Some (current s)" "0 < sint (jiffies s + sleep_ticks ms)"
  let ?key = "\<lambda>p. sint (if p = current s then jiffies s + sleep_ticks ms else t_ticks (tasks s p))"
  obtain h s' where s': "task_sleep ms s = Inr s'"
      "switched (put_to_sleep (current s) (jiffies s + sleep_ticks ms) (s\<lparr>nodes := h\<rparr>)) s'"
      "sched_inv s' (c(SleepList \<mapsto> insert_key ?key (current s) xs))"
    using task_sleep_current [OF assms(1,2) a(1) assms(3) a(2)] by blast
  let ?c = "c(SleepList \<mapsto> insert_key ?key (current s) xs)" and ?p = "current s"
  have "sched_core s' ?c" using s'(3) by (simp add: sched_inv_def)
  then have "state_of s' ?p = TASK_SLEEPING \<longleftrightarrow> SleepList = SleepList"
    by (rule sched_coreD(8) [where xs = "insert_key ?key (current s) xs"]) simp_all
  then have st: "state_of s' ?p = TASK_SLEEPING" by simp
  define s1 where "s1 = put_to_sleep ?p (jiffies s + sleep_ticks ms) (s\<lparr>nodes := h\<rparr>)"
  have cur: "current s1 = ?p" "t_ticks (tasks s1 ?p) = jiffies s + sleep_ticks ms"
    by (simp_all add: s1_def put_to_sleep_def)
  have "t_ticks (tasks s1 ?p) \<noteq> 0" using a(2) cur(2) by auto
  then have "t_ticks (tasks s' ?p) = t_ticks (tasks s1 ?p)"
    using s'(2) unfolding switched_def s1_def by blast
  then show "\<exists>s' ys c'. task_sleep ms s = Inr s' \<and> sched_inv s' c' \<and> c' SleepList = Some ys
        \<and> set ys = insert (current s) (set xs) \<and> state_of s' (current s) = TASK_SLEEPING
        \<and> t_ticks (tasks s' (current s)) = jiffies s + sleep_ticks ms"
    using s'(1,3) st cur by (intro exI [of _ s'] exI [of _ "insert_key ?key ?p xs"] exI [of _ ?c]) simp
next
  have core: "sched_core s c" using assms(1) by (simp add: sched_inv_def)
  note d = sched_coreD [OF core]
  obtain s' where s': "task_wakeup s = Inr s'" "woken (takeWhile (due s) xs) s s'"
      "sched_core s' (c(SleepList \<mapsto> dropWhile (due s) xs))"
    using task_wakeup_ok [OF core assms(2,3)] by blast
  have srt: "sorted (map (wake_time s) xs)" using d(10) assms(3) by (metis option.sel)
  have pos: "0 < wake_time s p" if "p \<in> set xs" for p using d(11) assms(3) that by simp
  have due: "due s p \<longleftrightarrow> wake_time s p \<le> sint (jiffies s)" if "p \<in> set xs" for p
    unfolding due_def wake_time_def using pos [OF that] assms(4)
    by (simp add: word_le_sint wake_time_def)
  have tw: "set (takeWhile (due s) xs) = {p \<in> set xs. due s p}" and dw: "dropWhile (due s) xs = filter (\<lambda>p. \<not> due s p) xs"
    using sorted_while [OF srt, of "due s"] due by auto
  have drop: "dropWhile (due s) xs = filter (\<lambda>p. t_ticks (tasks s p) > jiffies s) xs"
    unfolding dw by (simp add: due_def not_le)
  have run: "state_of s' (current s') = TASK_RUNNING"
    using assms(1) not_due_self [OF assms(1,3)] woken_same [OF s'(2)] tw
    by (auto simp: sched_inv_def state_of_def)
  have "\<forall>p. if p \<in> set xs \<and> t_ticks (tasks s p) \<le> jiffies s then state_of s' p = TASK_READY
               else tasks s' p = tasks s p"
    using woken_same(8) [OF s'(2)] tw by (auto simp: state_of_def due_def)
  then show "\<exists>s' c'. task_wakeup s = Inr s' \<and> sched_inv s' c'
        \<and> c' SleepList = Some (filter (\<lambda>p. t_ticks (tasks s p) > jiffies s) xs)
        \<and> (\<forall>p. if p \<in> set xs \<and> t_ticks (tasks s p) \<le> jiffies s then state_of s' p = TASK_READY
               else tasks s' p = tasks s p)"
    using s'(1,3) run drop
    by (intro exI [of _ s'] exI [of _ "c(SleepList \<mapsto> dropWhile (due s) xs)"]) (simp add: sched_inv_def)
qed

theorem sleep_and_wakeup_witness:
  "\<exists>s s' c ys. perform Yield example_sched = Inr s \<and> task_sleep 100 s = Inr s' \<and> sched_inv s' c
     \<and> c SleepList = Some ys \<and> set ys = {0x20000} \<and> t_ticks (tasks s' 0x20000) = 10"
proof -
  obtain s where s: "schedule example_sched = Inr s" "switched example_sched s"
      "sched_inv s (\<lambda>_. Some [])" "current s = 0x20000"
    using example_schedule by blast
  have e: "example_sched\<lparr>intr := False\<rparr> = example_sched" by (simp add: example_sched_def)
  have y: "perform Yield example_sched = Inr s"
    unfolding perform_def e by (simp add: s(1) task_yield_def)
  have "\<not> intr s" and z: "jiffies s = 0" "idle_task s \<noteq> Some (current s)"
    using switched_simps(3-5) [OF s(2)] s(4) by simp_all
  moreover have "0 < sint (0 + sleep_ticks 100)" "sleep_ticks 100 = 10" by code_simp+
  ultimately show ?thesis
    using sleep_and_wakeup [OF s(3), of "[]" 100, THEN conjunct1] y s(4) by auto
qed

text \<open>\<^verbatim>\<open>n\<close> timer interrupts in a row, with nothing else happening.\<close>

fun clock_ticks :: "nat \<Rightarrow> 'a kernel_t_scheme \<Rightarrow> 'a kernel_t_scheme res" where
  "clock_ticks 0 s = Inr s"
| "clock_ticks (Suc n) s = bindE (clock_handler 0x20 s) (clock_ticks n)"

lemma clock_ticks_no_switch:
  assumes "sched_inv s c" and "\<not> intr s" and "unat (t_ticks (tasks s (current s)) - 1) \<ge> n"
  shows "\<exists>s'. clock_ticks n s = Inr s' \<and> current s' = current s"
  using assms
proof (induction n arbitrary: s c)
  case 0
  then show ?case by simp
next
  case (Suc n)
  let ?t = "t_ticks (tasks s (current s))"
  obtain xs where xs: "c SleepList = Some xs"
    using sched_coreD(2) [of s c] Suc.prems(1) by (auto simp: sched_inv_def)
  have ne: "?t - 1 \<noteq> 0" using Suc.prems(3) by auto
  then have "?t \<noteq> 1" by auto
  then obtain s' where s': "clock_handler 0x20 s = Inr s'" "ticked (takeWhile (due s) xs) s s'"
      "sched_inv s' (c(SleepList \<mapsto> dropWhile (due s) xs))"
    using clock_handler_ok [OF Suc.prems(1,2) xs] by auto
  have t: "t_ticks (tasks s' (current s')) = ?t - 1" "current s' = current s" "\<not> intr s'"
    using s'(2) Suc.prems(2) by (auto simp: ticked_def)
  have "unat (?t - 1 - 1) = unat (?t - 1) - 1" using ne by (rule unat_minus_one)
  then have "unat (t_ticks (tasks s' (current s')) - 1) \<ge> n" using Suc.prems(3) t(1) by simp
  from Suc.IH [OF s'(3) t(3) this] show ?case using s'(1) t(2) by simp
qed



end
