(* ===== verification/Mutex.thy ===== *)
theory Mutex
  imports Sched
begin

text \<open>
  Mutexes and reentrant locks (\<^verbatim>\<open>kernel/mutex.c\<close>). A mutex is a number: \<open>mutex_value\<close> is its flag
  and \<open>Waiters m\<close> its list of blocked tasks. \<^verbatim>\<open>mutex_lock\<close> loops: a pass of the loop either takes
  the mutex or blocks the caller, which goes through the loop again when it next runs. The step
  relation \<open>lock_step\<close> runs any number of tasks through these passes, interleaved with the timer and
  the other events of the scheduler.
\<close>

section \<open>The operations\<close>

record lock_state = kernel_t +
  mutex_value :: "nat \<Rightarrow> bool"
  lock_holder :: "nat \<Rightarrow> u32 option"
  lock_repeat :: "nat \<Rightarrow> u32"

definition mutex_init :: "nat \<Rightarrow> 'a lock_state_scheme \<Rightarrow> 'a lock_state_scheme" where
  "mutex_init m s =
     s\<lparr>mutex_value := (mutex_value s)(m := False), nodes := list_init (Waiters m) (nodes s)\<rparr>"

text \<open>A pass of the loop; the flag of the result says that the mutex was taken.\<close>

definition mutex_pass :: "nat \<Rightarrow> 'a lock_state_scheme \<Rightarrow> (bool \<times> 'a lock_state_scheme) res" where
  "mutex_pass m s =
     (if mutex_value s m = True then
        bindE (task_block (running_task s) (Some (Waiters m)) TASK_BLOCKED s) (\<lambda>s. Inr (False, s))
      else
        kassert (mutex_value s m = False) (
        let s = s\<lparr>mutex_value := (mutex_value s)(m := True)\<rparr> in
        kassert (mutex_value s m = True) (Inr (True, s))))"

text \<open>The call, up to the point where it returns (\<open>True\<close>) or the caller is blocked.\<close>

definition mutex_lock :: "nat \<Rightarrow> 'a lock_state_scheme \<Rightarrow> (bool \<times> 'a lock_state_scheme) res" where
  "mutex_lock m s =
     (let (i, s) = interrupt_disable s in
      bindE (mutex_pass m s) (\<lambda>(got, s). Inr (got, if got then set_interrupt_state i s else s)))"

definition last_waiter :: "nat \<Rightarrow> 'a lock_state_scheme \<Rightarrow> u32 res" where
  "last_waiter m s =
     (case node_prev (nodes s (Tail (Waiters m))) of Some (Node p) \<Rightarrow> Inr p | _ \<Rightarrow> Inl OutOfBounds)"

text \<open>The body of \<^verbatim>\<open>mutex_unlock\<close> between the two changes of the interrupt flag.\<close>

definition mutex_release :: "nat \<Rightarrow> 'a lock_state_scheme \<Rightarrow> 'a lock_state_scheme res" where
  "mutex_release m s =
     kassert (mutex_value s m = True) (
     let s = s\<lparr>mutex_value := (mutex_value s)(m := False)\<rparr> in
     kassert (mutex_value s m = False) (
     if \<not> list_empty (Waiters m) (nodes s) then
       bindE (last_waiter m s) (\<lambda>p.
       kassert (t_magic (tasks s p) = ONIX_MAGIC) (
       bindE (task_unblock p s) task_yield))
     else Inr s))"

definition mutex_unlock :: "nat \<Rightarrow> 'a lock_state_scheme \<Rightarrow> 'a lock_state_scheme res" where
  "mutex_unlock m s =
     (let (i, s) = interrupt_disable s in
      bindE (mutex_release m s) (\<lambda>s. Inr (set_interrupt_state i s)))"

text \<open>The reentrant lock around mutex \<open>l\<close>.\<close>

definition lock_init :: "nat \<Rightarrow> 'a lock_state_scheme \<Rightarrow> 'a lock_state_scheme" where
  "lock_init l s =
     mutex_init l (s\<lparr>lock_holder := (lock_holder s)(l := None), lock_repeat := (lock_repeat s)(l := 0)\<rparr>)"

text \<open>What follows \<^verbatim>\<open>mutex_lock\<close> in \<^verbatim>\<open>lock_acquire\<close>, once the caller has the mutex.\<close>

definition lock_taken :: "nat \<Rightarrow> u32 \<Rightarrow> 'a lock_state_scheme \<Rightarrow> 'a lock_state_scheme res" where
  "lock_taken l cur s =
     (let s = s\<lparr>lock_holder := (lock_holder s)(l := Some cur)\<rparr> in
      kassert (lock_repeat s l = 0) (Inr (s\<lparr>lock_repeat := (lock_repeat s)(l := 1)\<rparr>)))"

definition lock_acquire :: "nat \<Rightarrow> 'a lock_state_scheme \<Rightarrow> (bool \<times> 'a lock_state_scheme) res" where
  "lock_acquire l s =
     (let cur = running_task s in
      if lock_holder s l \<noteq> Some cur then
        bindE (mutex_lock l s) (\<lambda>(got, s).
        if got then bindE (lock_taken l cur s) (\<lambda>s. Inr (True, s)) else Inr (False, s))
      else Inr (True, s\<lparr>lock_repeat := (lock_repeat s)(l := lock_repeat s l + 1)\<rparr>))"

definition lock_release :: "nat \<Rightarrow> 'a lock_state_scheme \<Rightarrow> 'a lock_state_scheme res" where
  "lock_release l s =
     kassert (lock_holder s l = Some (running_task s)) (
     if lock_repeat s l > 1 then Inr (s\<lparr>lock_repeat := (lock_repeat s)(l := lock_repeat s l - 1)\<rparr>)
     else
       kassert (lock_repeat s l = 1) (
       mutex_unlock l (s\<lparr>lock_holder := (lock_holder s)(l := None), lock_repeat := (lock_repeat s)(l := 0)\<rparr>)))"

section \<open>Any number of tasks\<close>

text \<open>A configuration: the kernel, the tasks inside the loop of \<^verbatim>\<open>mutex_lock\<close> with the mutex they
  want, and the tasks that have returned from \<^verbatim>\<open>mutex_lock\<close> and not yet called
  \<^verbatim>\<open>mutex_unlock\<close>.\<close>

record 'a conf =
  kern :: "'a lock_state_scheme"
  wants :: "u32 \<Rightarrow> nat option"
  holders :: "nat \<Rightarrow> u32 set"

definition off :: "'a lock_state_scheme \<Rightarrow> 'a lock_state_scheme" where
  "off s = s\<lparr>intr := False\<rparr>"

text \<open>The events of the scheduler that a task causes outside of the mutexes: a task inside the loop
  neither sleeps nor blocks elsewhere, and drivers do not wake the tasks that wait for a mutex.\<close>

fun outside :: "event \<Rightarrow> 'a conf \<Rightarrow> bool" where
  "outside (Sleep ms) g \<longleftrightarrow> wants g (current (kern g)) = None"
| "outside (Block b st) g \<longleftrightarrow> wants g (current (kern g)) = None \<and> (\<forall>m. b \<noteq> Some (Waiters m))"
| "outside (Unblock p) g \<longleftrightarrow> wants g p = None"
| "outside _ g \<longleftrightarrow> True"

inductive lock_step :: "'a conf \<Rightarrow> 'a conf \<Rightarrow> bool" where
  take: "wants g (current (kern g)) \<in> {None, Some m} \<Longrightarrow> idle_task (kern g) \<noteq> Some (current (kern g)) \<Longrightarrow>
    mutex_pass m (off (kern g)) = Inr (True, s') \<Longrightarrow>
    lock_step g (g\<lparr>kern := s', wants := (wants g)(current (kern g) := None),
                   holders := (holders g)(m := insert (current (kern g)) (holders g m))\<rparr>)"
| wait: "wants g (current (kern g)) \<in> {None, Some m} \<Longrightarrow> idle_task (kern g) \<noteq> Some (current (kern g)) \<Longrightarrow>
    mutex_pass m (off (kern g)) = Inr (False, s') \<Longrightarrow>
    lock_step g (g\<lparr>kern := s', wants := (wants g)(current (kern g) := Some m)\<rparr>)"
| release: "wants g (current (kern g)) = None \<Longrightarrow> current (kern g) \<in> holders g m \<Longrightarrow>
    mutex_release m (off (kern g)) = Inr s' \<Longrightarrow>
    lock_step g (g\<lparr>kern := s', holders := (holders g)(m := holders g m - {current (kern g)})\<rparr>)"
| other: "allowed e (kern g) \<Longrightarrow> outside e g \<Longrightarrow> perform e (kern g) = Inr s' \<Longrightarrow>
    lock_step g (g\<lparr>kern := s'\<rparr>)"

inductive_cases lock_stepE: "lock_step g g'"

text \<open>Before any mutex is used.\<close>

definition lock_start :: "'a conf \<Rightarrow> bool" where
  "lock_start g \<longleftrightarrow> (\<exists>c. sched_inv (kern g) c \<and> (\<forall>m. c (Waiters m) = Some []))
     \<and> (\<forall>m. mutex_value (kern g) m = False) \<and> wants g = (\<lambda>_. None) \<and> holders g = (\<lambda>_. {})"

definition runs :: "'a kernel_t_scheme \<Rightarrow> u32 \<Rightarrow> bool" where
  "runs s p \<longleftrightarrow> state_of s p \<in> {TASK_READY, TASK_RUNNING}"

text \<open>The last clause is that no wake-up is lost: while tasks wait for a free mutex, one that wants
  it is on its way.\<close>

definition lock_inv :: "'a conf \<Rightarrow> (queue_t \<Rightarrow> u32 list option) \<Rightarrow> bool" where
  "lock_inv g c \<longleftrightarrow> (let s = kern g in
     sched_inv s c
   \<and> (\<forall>m. if mutex_value s m then \<exists>p. holders g m = {p} else holders g m = {})
   \<and> (\<forall>m p. p \<in> set (the (c (Waiters m))) \<longrightarrow> wants g p = Some m)
   \<and> (\<forall>m p. wants g p = Some m \<longrightarrow> p \<in> set (the (c (Waiters m))) \<or> runs s p)
   \<and> (\<forall>m. the (c (Waiters m)) \<noteq> [] \<longrightarrow> mutex_value s m \<or> (\<exists>p. wants g p = Some m \<and> runs s p)))"

section \<open>What the scheduler leaves alone\<close>

lemma off_simps [simp]:
  "sched_inv (off s) c \<longleftrightarrow> sched_inv s c" "sched_core (off s) c \<longleftrightarrow> sched_core s c" "live (off s) = live s"
  "state_of (off s) = state_of s" "runs (off s) = runs s" "current (off s) = current s"
  "idle_task (off s) = idle_task s" "nodes (off s) = nodes s" "tasks (off s) = tasks s"
  "mutex_value (off s) = mutex_value s" "\<not> intr (off s)" "jiffies (off s) = jiffies s"
  "kernel_t.more (off s) = kernel_t.more s"
  by (simp_all add: off_def runs_def fun_eq_iff)

lemma mutex_value_more: "kernel_t.more s = kernel_t.more t \<Longrightarrow> mutex_value s = mutex_value t"
  by (cases s; cases t) simp

lemma value_upd [simp]:
  "sched_core (s\<lparr>mutex_value := v\<rparr>) c \<longleftrightarrow> sched_core s c" "sched_inv (s\<lparr>mutex_value := v\<rparr>) c \<longleftrightarrow> sched_inv s c"
  "state_of (s\<lparr>mutex_value := v\<rparr>) = state_of s" "runs (s\<lparr>mutex_value := v\<rparr>) = runs s"
  "live (s\<lparr>mutex_value := v\<rparr>) = live s"
proof -
  have "wake_time (s\<lparr>mutex_value := v\<rparr>) = wake_time s" and st: "state_of (s\<lparr>mutex_value := v\<rparr>) = state_of s"
    and "live (s\<lparr>mutex_value := v\<rparr>) = live s"
    by (auto simp: wake_time_def state_of_def live_def)
  then show "sched_core (s\<lparr>mutex_value := v\<rparr>) c \<longleftrightarrow> sched_core s c"
    "live (s\<lparr>mutex_value := v\<rparr>) = live s" by (simp_all add: sched_core_def)
  then show "sched_inv (s\<lparr>mutex_value := v\<rparr>) c \<longleftrightarrow> sched_inv s c" by (simp add: sched_inv_def st)
  show "state_of (s\<lparr>mutex_value := v\<rparr>) = state_of s" "runs (s\<lparr>mutex_value := v\<rparr>) = runs s"
    by (simp_all add: st runs_def fun_eq_iff)
qed

text \<open>\<open>kept X s s'\<close>: the mutexes are as they were and every runnable task outside \<open>X\<close> still is.\<close>

definition kept :: "u32 set \<Rightarrow> 'a lock_state_scheme \<Rightarrow> 'a lock_state_scheme \<Rightarrow> bool" where
  "kept X s s' \<longleftrightarrow> mutex_value s' = mutex_value s \<and> (\<forall>p. p \<notin> X \<longrightarrow> runs s p \<longrightarrow> runs s' p)"

lemma kept_trans: "kept X s t \<Longrightarrow> kept Y t u \<Longrightarrow> X \<subseteq> Z \<Longrightarrow> Y \<subseteq> Z \<Longrightarrow> kept Z s u"
  by (auto simp: kept_def)

lemma kept_switched:
  assumes "switched s s'"
  shows "kept {} s s'"
proof -
  have "mutex_value s' = mutex_value s" by (rule mutex_value_more) (rule switched_simps(7) [OF assms])
  moreover have "runs s' p" if "runs s p" for p
    using that switched_simps(11) [OF assms, of p] by (auto simp: runs_def)
  ultimately show ?thesis by (simp add: kept_def)
qed

lemma kept_retasked:
  "retasked s p s' \<Longrightarrow> kernel_t.more s' = kernel_t.more s \<Longrightarrow> kept {p} s s'"
  using mutex_value_more [of s' s] by (auto simp: kept_def runs_def retasked_other)

lemma runs_waiting: "runs s p \<Longrightarrow> state_of s p \<notin> waiting"
  by (auto simp: runs_def waiting_cases)

text \<open>Blocking on a queue, and unblocking.\<close>

lemma block_kept:
  assumes "sched_inv s c" and "idle_task s \<noteq> Some (current s)"
    and "q = (case b of None \<Rightarrow> BlockList | Some q \<Rightarrow> q)" "q \<noteq> SleepList" "c q = Some xs"
    and "st \<in> {TASK_BLOCKED, TASK_WAITING}"
  shows "\<exists>s'. task_block (current s) b st (off s) = Inr s' \<and> sched_inv s' (c(q \<mapsto> current s # xs))
    \<and> kept {current s} s s'"
proof -
  from assms obtain s1 s' where s': "task_block (current s) b st (off s) = Inr s'" "switched s1 s'"
      "retasked (off s) (current s) s1" "kernel_t.more s1 = kernel_t.more s" "sched_inv s' (c(q \<mapsto> current s # xs))"
    using task_block_current [of "off s" c q b xs st] by auto
  have "kept {current s} s s1" using kept_retasked [OF s'(3)] s'(4) by (simp add: kept_def)
  from kept_trans [OF this kept_switched [OF s'(2)], of "{current s}"] s'(1,5) show ?thesis by auto
qed

lemma unblock_kept:
  assumes "sched_core s c" and "c q = Some xs" "p \<in> set xs"
  shows "\<exists>s'. task_unblock p (off s) = Inr s' \<and> sched_core s' (c(q \<mapsto> remove1 p xs))
    \<and> kept {} s s' \<and> runs s' p \<and> current s' = current s \<and> \<not> intr s'
    \<and> (\<forall>x. x \<noteq> p \<longrightarrow> state_of s' x = state_of s x)"
proof -
  obtain h where h: "task_unblock p (off s) = Inr (upd_task p (\<lambda>t. t\<lparr>t_state := TASK_READY\<rparr>) ((off s)\<lparr>nodes := h\<rparr>))"
    "sched_core (upd_task p (\<lambda>t. t\<lparr>t_state := TASK_READY\<rparr>) ((off s)\<lparr>nodes := h\<rparr>)) (c(q \<mapsto> remove1 p xs))"
    using task_unblock_ok [of "off s" c q xs p] assms by auto
  define s' where "s' = upd_task p (\<lambda>t. t\<lparr>t_state := TASK_READY\<rparr>) ((off s)\<lparr>nodes := h\<rparr>)"
  have "kernel_t.more s' = kernel_t.more s" by (simp add: s'_def)
  moreover have "state_of s' x = (if x = p then TASK_READY else state_of s x)" for x
    by (simp add: s'_def state_of_def)
  moreover have "current s' = current s" "\<not> intr s'" by (simp_all add: s'_def)
  ultimately have k: "kept {} s s'" "runs s' p" "current s' = current s" "\<not> intr s'"
      "\<forall>x. x \<noteq> p \<longrightarrow> state_of s' x = state_of s x"
    using mutex_value_more [of s' s] by (simp_all add: kept_def runs_def)
  show ?thesis using h k unfolding s'_def [symmetric] by blast
qed

text \<open>Every event outside of the mutexes keeps their queues.\<close>

lemma perform_frame:
  assumes inv: "sched_inv s c" and "allowed e s"
    and nb: "\<forall>b st m. e = Block b st \<longrightarrow> b \<noteq> Some (Waiters m)"
    and nu: "\<forall>p m. e = Unblock p \<longrightarrow> p \<notin> set (the (c (Waiters m)))"
  shows "\<exists>s' c' X. perform e s = Inr s' \<and> sched_inv s' c' \<and> (\<forall>m. c' (Waiters m) = c (Waiters m))
    \<and> kept X s s' \<and> X = (case e of Sleep _ \<Rightarrow> {current s} | Block _ _ \<Rightarrow> {current s} | _ \<Rightarrow> {})"
proof -
  have oi: "sched_inv (off s) c" using inv by simp
  have core: "sched_core (off s) c" using oi by (simp add: sched_inv_def)
  obtain xs where xs: "c SleepList = Some xs" using sched_coreD(2) [OF core] by blast
  have k0: "kept {} s (off s)" by (simp add: kept_def)
  show ?thesis
  proof (cases e)
    case Tick
    obtain s1 s' where s': "clock_handler 0x20 (off s) = Inr s'" "ticked (takeWhile (due (off s)) xs) (off s) s1"
        "sched_inv s' (c(SleepList \<mapsto> dropWhile (due (off s)) xs))"
        "if t_ticks (tasks (off s) (current (off s))) = 1 then switched s1 s' else s' = s1"
      using clock_handler_ok [OF oi off_simps(11) xs] by blast
    have "kept {} s s1"
      using s'(2) mutex_value_more [of s1 s] by (auto simp: kept_def ticked_def runs_def state_of_def)
    moreover have "kept {} s1 s'" using s'(4) kept_switched by (auto simp: kept_def split: if_splits)
    ultimately have "kept {} s s'" using kept_trans by blast
    then show ?thesis using s'(1,3) Tick by (auto simp: perform_def off_def)
  next
    case Yield
    then show ?thesis using schedule_ok [OF core] kept_trans [OF k0 kept_switched]
      by (auto simp: perform_def task_yield_def off_def)
  next
    case (Sleep ms)
    obtain h s' ys where s': "task_sleep ms (off s) = Inr s'"
        "switched (put_to_sleep (current s) (jiffies s + sleep_ticks ms) ((off s)\<lparr>nodes := h\<rparr>)) s'"
        "sched_inv s' (c(SleepList \<mapsto> ys))"
      using task_sleep_current [OF oi off_simps(11) _ xs, of ms] assms(2) Sleep by auto
    have "kept {current s} s (put_to_sleep (current s) (jiffies s + sleep_ticks ms) ((off s)\<lparr>nodes := h\<rparr>))"
      using mutex_value_more [of "put_to_sleep (current s) (jiffies s + sleep_ticks ms) ((off s)\<lparr>nodes := h\<rparr>)" s]
      by (auto simp: kept_def put_to_sleep_def runs_def state_of_def)
    from kept_trans [OF this kept_switched [OF s'(2)], of "{current s}"] s'(1,3) Sleep
    show ?thesis by (auto simp: perform_def off_def)
  next
    case (Block b st)
    define q where "q = (case b of None \<Rightarrow> BlockList | Some q \<Rightarrow> q)"
    have q: "q \<noteq> SleepList" "\<forall>m. q \<noteq> Waiters m" using assms(2) nb Block by (auto simp: q_def split: option.splits)
    obtain ys where ys: "c q = Some ys" using sched_coreD(2) [OF core] by blast
    have "idle_task s \<noteq> Some (current s)" "st \<in> {TASK_BLOCKED, TASK_WAITING}" using assms(2) Block by auto
    then obtain s' where "task_block (current s) b st (off s) = Inr s'" "sched_inv s' (c(q \<mapsto> current s # ys))"
        "kept {current s} s s'"
      using block_kept [OF inv _ q_def q(1) ys] by blast
    then show ?thesis using q(2) Block by (fastforce simp: perform_def off_def)
  next
    case (Unblock p)
    then have p: "p \<in> live s" "state_of s p \<in> waiting" "p \<noteq> current s"
      using assms(2) inv by (auto simp: waiting_cases sched_inv_def)
    then obtain q ys where q: "c q = Some ys" "p \<in> set ys"
      using sched_coreD(9) [OF core, of p] unfolding unlinked_def by auto
    have nw: "\<forall>m. q \<noteq> Waiters m"
    proof (intro allI notI)
      fix m assume "q = Waiters m"
      then have "p \<in> set (the (c (Waiters m)))" using q by simp
      then show False using nu Unblock by blast
    qed
    obtain s' where s': "task_unblock p (off s) = Inr s'" "sched_core s' (c(q \<mapsto> remove1 p ys))" "kept {} s s'"
        "current s' = current s" "\<forall>x. x \<noteq> p \<longrightarrow> state_of s' x = state_of s x"
      using unblock_kept [of s c q ys p] core q by auto
    have "sched_inv s' (c(q \<mapsto> remove1 p ys))" using s' p(3) inv by (simp add: sched_inv_def)
    then show ?thesis using s' nw Unblock by (fastforce simp: perform_def off_def)
  qed
qed

section \<open>The mutex operations\<close>

lemma mutex_pass_free:
  "\<not> mutex_value s m \<Longrightarrow>
   mutex_pass m (off s) = Inr (True, (off s)\<lparr>mutex_value := (mutex_value s)(m := True)\<rparr>)"
  by (simp add: mutex_pass_def Let_def)

lemma mutex_pass_held:
  assumes "sched_inv s c" and "idle_task s \<noteq> Some (current s)" and "c (Waiters m) = Some xs" and "mutex_value s m"
  shows "\<exists>s'. mutex_pass m (off s) = Inr (False, s') \<and> sched_inv s' (c(Waiters m \<mapsto> current s # xs))
    \<and> kept {current s} s s'"
  using block_kept [OF assms(1,2), of "Waiters m" "Some (Waiters m)" xs TASK_BLOCKED] assms(3,4)
  by (auto simp: mutex_pass_def)

lemma list_last:
  assumes "store_rel h c" and "c l = Some xs" and "xs \<noteq> []"
  shows "node_prev (h (Tail l)) = Some (Node (last xs))"
proof -
  obtain ys p where xs: "xs = ys @ [p]" using assms(3) by (cases xs rule: rev_cases) auto
  have "linked h ((Head l # map Node ys) @ Node p # Tail l # [])"
    using store_rel_is_list [OF assms(1,2)] by (simp add: is_list_def cells_def xs)
  then have "linked h (Node p # Tail l # [])" by (rule linked_append [THEN iffD1, THEN conjunct2])
  then show ?thesis by (simp add: xs)
qed

lemma remove1_last: "distinct xs \<Longrightarrow> xs \<noteq> [] \<Longrightarrow> remove1 (last xs) xs = butlast xs"
  by (cases xs rule: rev_cases) (auto simp: remove1_append)

lemma mutex_release_empty:
  assumes "sched_inv s c" and "c (Waiters m) = Some []" and "mutex_value s m"
  shows "mutex_release m (off s) = Inr ((off s)\<lparr>mutex_value := (mutex_value s)(m := False)\<rparr>)"
proof -
  have "store_rel (nodes s) c" using assms(1) sched_coreD(1) by (auto simp: sched_inv_def)
  from store_rel_empty [OF this assms(2)] show ?thesis
    using assms(3) by (simp add: mutex_release_def Let_def)
qed

text \<open>The longest waiting task is made ready, and another task runs.\<close>

lemma mutex_release_wakes:
  assumes inv: "sched_inv s c" and xs: "c (Waiters m) = Some xs" "xs \<noteq> []" and v: "mutex_value s m"
  shows "\<exists>s'. mutex_release m (off s) = Inr s' \<and> sched_inv s' (c(Waiters m \<mapsto> butlast xs))
    \<and> mutex_value s' = (mutex_value s)(m := False) \<and> (\<forall>p. runs s p \<longrightarrow> runs s' p) \<and> runs s' (last xs)
    \<and> current s' \<noteq> current s"
proof -
  let ?p = "last xs"
  define t where "t = s\<lparr>mutex_value := (mutex_value s)(m := False)\<rparr>"
  have core: "sched_core s c" using inv by (simp add: sched_inv_def)
  note d = sched_coreD [OF core]
  have tc: "sched_core t c" using core by (simp add: t_def)
  have p: "?p \<in> set xs" using xs(2) by simp
  then have live: "?p \<in> live s" using d(7) [OF xs(1)] by blast
  have rem: "remove1 ?p xs = butlast xs" by (rule remove1_last [OF store_rel_distinct [OF d(1) xs(1)] xs(2)])
  obtain u where u: "task_unblock ?p (off t) = Inr u" "sched_core u (c(Waiters m \<mapsto> butlast xs))" "kept {} t u"
      "runs u ?p" "current u = current t" "\<not> intr u" "\<forall>x. x \<noteq> ?p \<longrightarrow> state_of u x = state_of t x"
    using unblock_kept [OF tc xs(1) p] unfolding rem by blast
  obtain s' where s': "schedule u = Inr s'" "switched u s'" "sched_inv s' (c(Waiters m \<mapsto> butlast xs))"
      "(\<exists>x \<in> live u. state_of u x = TASK_READY \<and> x \<noteq> current u) \<longrightarrow> current s' \<noteq> current u"
    using schedule_ok [OF u(2,6)] by blast
  have pc: "?p \<noteq> current s" using not_due_self [OF inv xs(1)] p by auto
  have pu: "?p \<in> live u" using u(1) live by (auto simp: task_unblock_def t_def off_def live_def bindE_eq_Inr kassert_eq_Inr)
  have "state_of u ?p \<noteq> TASK_RUNNING"
    using sched_coreD(6) [OF u(2) pu] u(5) pc by (auto simp: t_def)
  then have "state_of u ?p = TASK_READY" using u(4) by (simp add: runs_def)
  then have ne: "current s' \<noteq> current s" using s'(4) pu pc u(5) by (auto simp: t_def)
  have eq: "mutex_release m (off s) = bindE (task_unblock ?p (off t)) task_yield"
  proof -
    have "off t = (off s)\<lparr>mutex_value := (mutex_value s)(m := False)\<rparr>" by (simp add: off_def t_def)
    moreover have "t_magic (tasks s ?p) = ONIX_MAGIC" by (rule d(4) [OF live])
    ultimately show ?thesis
      using v xs(2) store_rel_empty [OF d(1) xs(1)] list_last [OF d(1) xs]
      by (simp add: mutex_release_def last_waiter_def Let_def)
  qed
  have k: "kept {} t s'" using kept_trans [OF u(3) kept_switched [OF s'(2)]] by blast
  then have "mutex_value s' = (mutex_value s)(m := False)" "\<forall>p. runs s p \<longrightarrow> runs s' p"
    by (simp_all add: kept_def t_def)
  moreover have "runs s' ?p" using kept_switched [OF s'(2)] u(4) by (simp add: kept_def)
  ultimately show ?thesis using eq u(1) s'(1,3) ne by (simp add: task_yield_def)
qed

section \<open>Every configuration that is reached\<close>

lemma lock_invD:
  assumes "lock_inv g c"
  shows "sched_inv (kern g) c"
    "mutex_value (kern g) m \<Longrightarrow> \<exists>p. holders g m = {p}" "\<not> mutex_value (kern g) m \<Longrightarrow> holders g m = {}"
    "p \<in> set (the (c (Waiters m))) \<Longrightarrow> wants g p = Some m"
    "wants g p = Some m \<Longrightarrow> p \<in> set (the (c (Waiters m))) \<or> runs (kern g) p"
    "the (c (Waiters m)) \<noteq> [] \<Longrightarrow> mutex_value (kern g) m \<or> (\<exists>p. wants g p = Some m \<and> runs (kern g) p)"
  using assms by (auto simp: lock_inv_def Let_def)

lemma lock_invI:
  assumes "sched_inv (kern g) c"
    and "\<And>m. mutex_value (kern g) m \<Longrightarrow> \<exists>p. holders g m = {p}" and "\<And>m. \<not> mutex_value (kern g) m \<Longrightarrow> holders g m = {}"
    and "\<And>m p. p \<in> set (the (c (Waiters m))) \<Longrightarrow> wants g p = Some m"
    and "\<And>m p. wants g p = Some m \<Longrightarrow> p \<in> set (the (c (Waiters m))) \<or> runs (kern g) p"
    and "\<And>m. the (c (Waiters m)) \<noteq> [] \<Longrightarrow> mutex_value (kern g) m \<or> (\<exists>p. wants g p = Some m \<and> runs (kern g) p)"
  shows "lock_inv g c"
  using assms by (auto simp: lock_inv_def Let_def)

lemma waiters_some: "sched_inv s c \<Longrightarrow> \<exists>xs. c q = Some xs"
  using sched_coreD(2) [of s c q] by (simp add: sched_inv_def)

lemma current_runs: "sched_inv s c \<Longrightarrow> runs s (current s)"
  by (simp add: sched_inv_def runs_def)

lemma lock_inv_take:
  assumes inv: "lock_inv g c" and w: "wants g (current (kern g)) \<in> {None, Some m}"
    and pass: "mutex_pass m (off (kern g)) = Inr (True, s')" and "idle_task (kern g) \<noteq> Some (current (kern g))"
  shows "lock_inv (g\<lparr>kern := s', wants := (wants g)(current (kern g) := None),
                   holders := (holders g)(m := insert (current (kern g)) (holders g m))\<rparr>) c"
proof -
  let ?p = "current (kern g)"
  note d = lock_invD [OF inv]
  obtain xs where xs: "c (Waiters m) = Some xs" using waiters_some [OF d(1)] by blast
  have free: "\<not> mutex_value (kern g) m"
    using mutex_pass_held [OF d(1) assms(4) xs] pass by auto
  then have s': "s' = (off (kern g))\<lparr>mutex_value := (mutex_value (kern g))(m := True)\<rparr>"
    using mutex_pass_free pass by (metis Inr_inject prod.inject)
  have notin: "?p \<notin> set (the (c (Waiters k)))" for k
    using not_due_self [OF d(1)] waiters_some [OF d(1), of "Waiters k"] by auto
  show ?thesis
  proof (rule lock_invI, goal_cases)
    case 1
    show ?case using d(1) by (simp add: s')
  next
    case (2 k)
    then show ?case using d(2) [of k] d(3) [OF free] by (auto simp: s' split: if_splits)
  next
    case (3 k)
    then show ?case using d(3) [of k] by (auto simp: s' split: if_splits)
  next
    case (4 k p)
    then show ?case using d(4) notin by auto
  next
    case (5 k p)
    then show ?case using d(5) by (auto simp: s' split: if_splits)
  next
    case (6 k)
    then have "mutex_value (kern g) k \<or> (\<exists>p. wants g p = Some k \<and> runs (kern g) p)" using d(6) [of k] by simp
    moreover have "wants g ?p = Some k \<longrightarrow> k = m" using w by auto
    ultimately consider "k = m" | "mutex_value (kern g) k" | q where "wants g q = Some k" "runs (kern g) q" "q \<noteq> ?p"
      by metis
    then show ?case by cases (auto simp: s')
  qed
qed

lemma lock_inv_wait:
  assumes inv: "lock_inv g c" and w: "wants g (current (kern g)) \<in> {None, Some m}"
    and pass: "mutex_pass m (off (kern g)) = Inr (False, s')" and idle: "idle_task (kern g) \<noteq> Some (current (kern g))"
  shows "\<exists>c'. lock_inv (g\<lparr>kern := s', wants := (wants g)(current (kern g) := Some m)\<rparr>) c'"
proof -
  let ?p = "current (kern g)"
  note d = lock_invD [OF inv]
  obtain xs where xs: "c (Waiters m) = Some xs" using waiters_some [OF d(1)] by blast
  have held: "mutex_value (kern g) m" using mutex_pass_free [of "kern g" m] pass by auto
  then have s': "sched_inv s' (c(Waiters m \<mapsto> ?p # xs))" "kept {?p} (kern g) s'"
    using mutex_pass_held [OF d(1) idle xs] pass by auto
  have v: "mutex_value s' = mutex_value (kern g)" and r: "runs (kern g) p \<Longrightarrow> p \<noteq> ?p \<Longrightarrow> runs s' p" for p
    using s'(2) by (simp_all add: kept_def)
  show ?thesis
  proof (rule exI [of _ "c(Waiters m \<mapsto> ?p # xs)"], rule lock_invI, goal_cases)
    case 1
    show ?case using s'(1) by simp
  next
    case (2 k)
    then show ?case using d(2) by (simp add: v)
  next
    case (3 k)
    then show ?case using d(3) by (simp add: v)
  next
    case (4 k p)
    then show ?case using d(4) [of p k] w xs by (auto split: if_splits)
  next
    case (5 k p)
    then show ?case using d(5) [of p k] r xs by (auto split: if_splits)
  next
    case (6 k)
    show ?case
    proof (cases "k = m")
      case False
      then have "mutex_value (kern g) k \<or> (\<exists>p. wants g p = Some k \<and> runs (kern g) p)" using 6 d(6) [of k] by simp
      moreover have "wants g ?p \<noteq> Some k" using w False by auto
      ultimately consider "mutex_value (kern g) k" | q where "wants g q = Some k" "runs (kern g) q" "q \<noteq> ?p"
        by metis
      then show ?thesis by cases (use r v in auto)
    qed (simp add: v held)
  qed
qed

lemma lock_inv_release:
  assumes inv: "lock_inv g c" and w: "wants g (current (kern g)) = None" and hold: "current (kern g) \<in> holders g m"
    and rel: "mutex_release m (off (kern g)) = Inr s'"
  shows "\<exists>c'. lock_inv (g\<lparr>kern := s', holders := (holders g)(m := holders g m - {current (kern g)})\<rparr>) c'"
proof -
  let ?p = "current (kern g)"
  note d = lock_invD [OF inv]
  obtain xs where xs: "c (Waiters m) = Some xs" using waiters_some [OF d(1)] by blast
  have held: "mutex_value (kern g) m" using d(3) [of m] hold by auto
  then have h: "holders g m = {?p}" using d(2) [of m] hold by auto
  have s': "sched_inv s' (c(Waiters m \<mapsto> butlast xs)) \<and> mutex_value s' = (mutex_value (kern g))(m := False)
      \<and> (\<forall>p. runs (kern g) p \<longrightarrow> runs s' p) \<and> (xs \<noteq> [] \<longrightarrow> runs s' (last xs))"
  proof (cases "xs = []")
    case True
    then have "s' = (off (kern g))\<lparr>mutex_value := (mutex_value (kern g))(m := False)\<rparr>"
      using mutex_release_empty [OF d(1) _ held] xs rel by auto
    moreover have "c(Waiters m \<mapsto> []) = c" using xs True by (simp add: fun_upd_idem)
    ultimately show ?thesis using True d(1) by simp
  next
    case False
    then show ?thesis using mutex_release_wakes [OF d(1) xs False held] rel by auto
  qed
  show ?thesis
  proof (rule exI [of _ "c(Waiters m \<mapsto> butlast xs)"], rule lock_invI, goal_cases)
    case 1
    show ?case using s' by simp
  next
    case (2 k)
    then show ?case using d(2) s' by (auto split: if_splits)
  next
    case (3 k)
    then show ?case using d(3) s' h by (auto split: if_splits)
  next
    case (4 k p)
    then show ?case using d(4) [of p k] xs by (auto split: if_splits dest: in_set_butlastD)
  next
    case (5 k p)
    then have "p \<in> set (the (c (Waiters k))) \<or> runs (kern g) p" using d(5) by simp
    moreover have "p \<in> set (butlast xs) \<or> p = last xs" if "p \<in> set xs"
      using that by (cases xs rule: rev_cases) auto
    ultimately show ?case using s' xs by (cases "k = m") auto
  next
    case (6 k)
    show ?case
    proof (cases "k = m")
      case True
      then have "xs \<noteq> []" using 6 by auto
      then have "wants g (last xs) = Some m" "runs s' (last xs)" using d(4) [of "last xs" m] xs s' by auto
      then show ?thesis using True by auto
    next
      case False
      then show ?thesis using 6 d(6) [of k] s' by auto
    qed
  qed
qed

lemma lock_inv_other:
  assumes inv: "lock_inv g c" and "allowed e (kern g)" and out: "outside e g" and p: "perform e (kern g) = Inr s'"
  shows "\<exists>c'. lock_inv (g\<lparr>kern := s'\<rparr>) c'"
proof -
  note d = lock_invD [OF inv]
  have 1: "\<forall>b st m. e = Block b st \<longrightarrow> b \<noteq> Some (Waiters m)" using out by auto
  have 2: "\<forall>p m. e = Unblock p \<longrightarrow> p \<notin> set (the (c (Waiters m)))" using out d(4) by fastforce
  obtain c' X where c': "sched_inv s' c'" "\<forall>m. c' (Waiters m) = c (Waiters m)" "kept X (kern g) s'"
      "X = (case e of Sleep _ \<Rightarrow> {current (kern g)} | Block _ _ \<Rightarrow> {current (kern g)} | _ \<Rightarrow> {})"
    using perform_frame [OF d(1) assms(2) 1 2] p by auto
  have v: "mutex_value s' = mutex_value (kern g)" using c'(3) by (simp add: kept_def)
  have r: "runs s' p" if "wants g p = Some m" "runs (kern g) p" for p m
  proof -
    have "p \<notin> X" using c'(4) out that(1) by (cases e; cases "p = current (kern g)") simp_all
    then show ?thesis using c'(3) that(2) by (simp add: kept_def)
  qed
  show ?thesis
  proof (rule exI [of _ c'], rule lock_invI, goal_cases)
    case (5 k p)
    then show ?case using d(5) [of p k] r c'(2) by auto
  next
    case (6 k)
    then show ?case using d(6) [of k] r c'(2) v by auto
  qed (use c' d v in auto)
qed

lemma lock_step_inv:
  assumes "lock_step g g'" and "lock_inv g c"
  shows "\<exists>c'. lock_inv g' c'"
  using assms(1)
proof (cases rule: lock_step.cases)
  case take
  then show ?thesis using lock_inv_take [OF assms(2)] by blast
next
  case wait
  then show ?thesis using lock_inv_wait [OF assms(2)] by blast
next
  case release
  then show ?thesis using lock_inv_release [OF assms(2)] by blast
next
  case other
  then show ?thesis using lock_inv_other [OF assms(2)] by blast
qed

lemma lock_start_inv: "lock_start g \<Longrightarrow> \<exists>c. lock_inv g c"
  unfolding lock_start_def by (elim conjE exE, rule exI, rule lock_invI) auto

lemma lock_reached_inv:
  assumes "lock_step\<^sup>*\<^sup>* g0 g" and "lock_start g0"
  shows "\<exists>c. lock_inv g c"
  using assms(1)
proof (induction rule: rtranclp_induct)
  case base
  show ?case by (rule lock_start_inv [OF assms(2)])
next
  case (step g g')
  then show ?case using lock_step_inv by blast
qed

section \<open>Properties\<close>

text \<open>C22. Mutual exclusion without lost wake-ups, for any number of tasks and mutexes and any
  interleaving of their calls with the timer and the rest of the scheduler: a mutex never has two
  holders, its flag says whether it has one, no call fails an assertion (taking a pass of the loop of
  \<^verbatim>\<open>mutex_lock\<close> when not the idle task, releasing a mutex one holds), and while a task wants a
  mutex that is free, some task that wants it is runnable, so it will be taken.\<close>

theorem mutex_exclusion:
  assumes "lock_start g0" and "lock_step\<^sup>*\<^sup>* g0 g"
  shows "(\<forall>p q. p \<in> holders g m \<longrightarrow> q \<in> holders g m \<longrightarrow> p = q)
    \<and> (mutex_value (kern g) m \<longleftrightarrow> holders g m \<noteq> {})
    \<and> (idle_task (kern g) \<noteq> Some (current (kern g)) \<longrightarrow>
        (\<exists>s'. mutex_pass m (off (kern g)) = Inr (holders g m = {}, s')))
    \<and> (current (kern g) \<in> holders g m \<longrightarrow> (\<exists>s'. mutex_release m (off (kern g)) = Inr s'))
    \<and> (wants g p = Some m \<longrightarrow> holders g m = {} \<longrightarrow> (\<exists>q. wants g q = Some m \<and> runs (kern g) q))"
proof -
  obtain c where c: "lock_inv g c" using lock_reached_inv [OF assms(2,1)] by blast
  note d = lock_invD [OF c]
  obtain xs where xs: "c (Waiters m) = Some xs" using waiters_some [OF d(1)] by blast
  have v: "mutex_value (kern g) m \<longleftrightarrow> holders g m \<noteq> {}" using d(2,3) [of m] by blast
  have "\<exists>s'. mutex_pass m (off (kern g)) = Inr (holders g m = {}, s')"
    if "idle_task (kern g) \<noteq> Some (current (kern g))"
    using mutex_pass_held [OF d(1) that xs] mutex_pass_free [of "kern g" m] v by (cases "holders g m = {}") auto
  moreover have "\<exists>s'. mutex_release m (off (kern g)) = Inr s'" if "current (kern g) \<in> holders g m"
    using mutex_release_empty [OF d(1), of m] mutex_release_wakes [OF d(1) xs] xs v that by (cases "xs = []") auto
  moreover have "\<exists>q. wants g q = Some m \<and> runs (kern g) q" if "wants g p = Some m" "holders g m = {}"
    using d(5) [OF that(1)] d(6) [of m] v that by fastforce
  moreover have "p' = q" if "p' \<in> holders g m" "q \<in> holders g m" for p' q
    using d(2,3) [of m] that by (cases "mutex_value (kern g) m") auto
  ultimately show ?thesis using v by (intro conjI allI impI) simp_all
qed

definition example_lock :: "unit lock_state_scheme" where
  "example_lock = \<lparr>ports = \<lambda>_. 0, outs = [], intr = False,
     task_table = [Some 0x10000, Some 0x20000] @ replicate 62 None,
     tasks = (\<lambda>p. example_task (if p = 0x10000 then TASK_READY else TASK_RUNNING)),
     nodes = no_nodes, idle_task = Some 0x10000, current = 0x20000, jiffies = 0, beeping = 0,
     cr3 = KERNEL_PAGE_DIR, esp0 = 0, mutex_value = \<lambda>_. False, lock_holder = \<lambda>_. None,
     lock_repeat = \<lambda>_. 0\<rparr>"

lemma example_lock_inv: "sched_inv example_lock (\<lambda>_. Some [])"
proof -
  have pde: "page_aligned KERNEL_PAGE_DIR" by code_simp
  have st: "state_of example_lock p = (if p = 0x10000 then TASK_READY else TASK_RUNNING)" for p
    by (simp add: state_of_def example_lock_def example_task_def)
  have e: "nodes example_lock = no_nodes" "current example_lock = 0x20000"
    "idle_task example_lock = Some 0x10000" "t_magic (tasks example_lock p) = ONIX_MAGIC"
    "t_pde (tasks example_lock p) = KERNEL_PAGE_DIR" "live example_lock = {0x10000, 0x20000}" for p
    by (auto simp: example_lock_def example_task_def live_def)
  have "sched_core example_lock (\<lambda>_. Some [])"
    by (rule sched_coreI) (auto simp: waiting_cases no_nodes_rel unlinked_def st e pde)
  then show ?thesis by (simp add: sched_inv_def st e)
qed

theorem mutex_exclusion_witness:
  "\<exists>(g0 :: unit conf) g. lock_start g0 \<and> lock_step g0 g \<and> holders g (0 :: nat) = {0x20000} \<and> mutex_value (kern g) 0"
proof -
  define g0 where "g0 = \<lparr>kern = example_lock, wants = \<lambda>_. None, holders = \<lambda>_. {}\<rparr>"
  have start: "lock_start g0"
    using example_lock_inv by (auto simp: lock_start_def g0_def example_lock_def)
  have i: "idle_task (kern g0) \<noteq> Some (current (kern g0))" "current (kern g0) = 0x20000"
    by (simp_all add: g0_def example_lock_def)
  from mutex_exclusion [OF start rtranclp.rtrancl_refl, of 0] i(1)
  obtain s' where s': "mutex_pass 0 (off (kern g0)) = Inr (True, s')" by (auto simp: g0_def)
  define g where "g = g0\<lparr>kern := s', wants := (wants g0)(0x20000 := None),
      holders := (holders g0)(0 := insert 0x20000 (holders g0 0))\<rparr>"
  have step: "lock_step g0 g"
    using lock_step.take [OF _ i(1) s'] unfolding i(2) g_def by (simp add: g0_def)
  then have reach: "lock_step\<^sup>*\<^sup>* g0 g" by (rule r_into_rtranclp)
  have "holders g 0 = {0x20000}" by (simp add: g_def g0_def)
  moreover from mutex_exclusion [OF start reach, of 0] this have "mutex_value (kern g) 0" by simp
  ultimately show ?thesis using start step by blast
qed

text \<open>Repeated calls; \<open>acquired\<close> is a call that returns.\<close>

fun repeatE :: "nat \<Rightarrow> ('s \<Rightarrow> 's res) \<Rightarrow> 's \<Rightarrow> 's res" where
  "repeatE 0 f s = Inr s"
| "repeatE (Suc n) f s = bindE (f s) (repeatE n f)"

definition acquired :: "nat \<Rightarrow> 'a lock_state_scheme \<Rightarrow> 'a lock_state_scheme res" where
  "acquired l s = bindE (lock_acquire l s) (\<lambda>(got, s). if got then Inr s else Inl NoReturn)"

lemma reacquire:
  assumes "lock_holder s l = Some (current s)" and "unat (lock_repeat s l) + n < 2 ^ 32"
  shows "repeatE n (acquired l) s = Inr (s\<lparr>lock_repeat := (lock_repeat s)(l := lock_repeat s l + of_nat n)\<rparr>)"
  using assms
proof (induction n arbitrary: s)
  case 0
  then show ?case by (simp add: fun_upd_idem)
next
  case (Suc n)
  have "unat (lock_repeat s l + 1) = Suc (unat (lock_repeat s l))"
    using Suc.prems(2) by (intro unat_Suc_small) simp
  define t where "t = s\<lparr>lock_repeat := (lock_repeat s)(l := lock_repeat s l + 1)\<rparr>"
  have "acquired l s = Inr t" using Suc.prems(1) by (simp add: acquired_def lock_acquire_def Let_def t_def)
  moreover have "repeatE n (acquired l) t = Inr (t\<lparr>lock_repeat := (lock_repeat t)(l := lock_repeat t l + of_nat n)\<rparr>)"
    using Suc.prems \<open>unat (lock_repeat s l + 1) = Suc (unat (lock_repeat s l))\<close>
    by (intro Suc.IH) (simp_all add: t_def)
  moreover have "(lock_repeat t)(l := lock_repeat t l + of_nat n) = (lock_repeat s)(l := lock_repeat s l + of_nat (Suc n))"
    by (auto simp: t_def)
  moreover have "t\<lparr>lock_repeat := f\<rparr> = s\<lparr>lock_repeat := f\<rparr>" for f by (simp add: t_def)
  ultimately show ?case by (simp only: repeatE.simps bindE_Inr)
qed

lemma release_nested:
  assumes "lock_holder s l = Some (current s)" and "unat (lock_repeat s l) = Suc n"
  shows "repeatE n (lock_release l) s = Inr (s\<lparr>lock_repeat := (lock_repeat s)(l := 1)\<rparr>)"
  using assms
proof (induction n arbitrary: s)
  case 0
  then have "unat (lock_repeat s l) = unat (1 :: u32)" by simp
  then have "lock_repeat s l = 1" by (simp add: word_unat_eq_iff)
  then show ?case by (simp add: fun_upd_idem)
next
  case (Suc n)
  have r: "1 < lock_repeat s l" "unat (lock_repeat s l - 1) = Suc n"
    using Suc.prems(2) by (simp add: word_less_nat_alt)
      (use Suc.prems(2) in \<open>subst unat_sub_le, simp_all add: word_le_nat_alt\<close>)
  define t where "t = s\<lparr>lock_repeat := (lock_repeat s)(l := lock_repeat s l - 1)\<rparr>"
  have "lock_release l s = Inr t" using Suc.prems(1) r(1) by (simp add: lock_release_def t_def)
  moreover have "repeatE n (lock_release l) t = Inr (t\<lparr>lock_repeat := (lock_repeat t)(l := 1)\<rparr>)"
    using Suc.prems(1) r(2) by (intro Suc.IH) (simp_all add: t_def)
  moreover have "(lock_repeat t)(l := 1) = (lock_repeat s)(l := 1)" by (auto simp: t_def)
  moreover have "t\<lparr>lock_repeat := f\<rparr> = s\<lparr>lock_repeat := f\<rparr>" for f by (simp add: t_def)
  ultimately show ?case by (simp only: repeatE.simps bindE_Inr)
qed

lemma mutex_unlock_empty:
  assumes "mutex_value t l" and "list_empty (Waiters l) (nodes t)"
  shows "mutex_unlock l t = Inr (t\<lparr>intr := False, mutex_value := (mutex_value t)(l := False), intr := intr t\<rparr>)"
  using assms by (simp add: mutex_unlock_def interrupt_disable_def mutex_release_def set_interrupt_state_def Let_def)

text \<open>C23. The lock is reentrant: in a sound kernel, a caller that does not hold a free lock gets it; from
  then on \<open>n\<close> more calls of \<open>lock_acquire\<close> by the holder return at once and count, and it takes
  exactly \<open>n + 1\<close> calls of \<open>lock_release\<close> to free the mutex, which none of the first \<open>n\<close> touches.
  A release by another task fails an assertion.\<close>

theorem lock_reentrant:
  assumes "sched_inv s c" and "lock_holder s l = None" and "lock_repeat s l = 0" and "\<not> mutex_value s l"
    and "c (Waiters l) = Some []" and "n < 2 ^ 32 - 1"
  shows "\<exists>s1 s2 s3. acquired l s = Inr s1 \<and> lock_holder s1 l = Some (current s) \<and> mutex_value s1 l
    \<and> repeatE n (acquired l) s1 = Inr s2 \<and> lock_repeat s2 l = of_nat (Suc n)
    \<and> repeatE n (lock_release l) s2 = Inr s1
    \<and> lock_release l s1 = Inr s3 \<and> lock_holder s3 l = None \<and> \<not> mutex_value s3 l \<and> intr s3 = intr s
    \<and> (p \<noteq> current s \<longrightarrow> lock_release l (s1\<lparr>current := p\<rparr>) = Inl Assertion)"
proof -
  define s1 where "s1 = s\<lparr>intr := False, mutex_value := (mutex_value s)(l := True), intr := intr s,
      lock_holder := (lock_holder s)(l := Some (current s)), lock_repeat := (lock_repeat s)(l := 1)\<rparr>"
  define s2 where "s2 = s1\<lparr>lock_repeat := (lock_repeat s1)(l := of_nat (Suc n))\<rparr>"
  have a: "acquired l s = Inr s1"
    using assms(2-4) by (simp add: acquired_def lock_acquire_def mutex_lock_def interrupt_disable_def
        mutex_pass_def lock_taken_def set_interrupt_state_def s1_def Let_def)
  have h: "lock_holder s1 l = Some (current s1)" "lock_repeat s1 l = 1" by (simp_all add: s1_def)
  have b: "repeatE n (acquired l) s1 = Inr s2"
    using reacquire [OF h(1), of n] assms(6) h(2) by (simp add: s2_def)
  have "unat (of_nat (Suc n) :: u32) = Suc n" using assms(6) by (intro unat_of_nat_small) simp
  then have r: "repeatE n (lock_release l) s2 = Inr (s2\<lparr>lock_repeat := (lock_repeat s2)(l := 1)\<rparr>)"
    using h by (intro release_nested) (simp_all add: s2_def del: of_nat_Suc)
  have "(lock_repeat s2)(l := 1) = lock_repeat s1" by (auto simp: s2_def s1_def)
  then have "s2\<lparr>lock_repeat := (lock_repeat s2)(l := 1)\<rparr> = s1" by (simp add: s2_def)
  with r have r': "repeatE n (lock_release l) s2 = Inr s1" by simp
  have "store_rel (nodes s) c" using assms(1) sched_coreD(1) by (auto simp: sched_inv_def)
  from store_rel_empty [OF this assms(5)] have e: "list_empty (Waiters l) (nodes s)" by simp
  define t where "t = s1\<lparr>lock_holder := (lock_holder s1)(l := None), lock_repeat := (lock_repeat s1)(l := 0)\<rparr>"
  define s3 where "s3 = t\<lparr>intr := False, mutex_value := (mutex_value t)(l := False), intr := intr t\<rparr>"
  have "nodes t = nodes s" "mutex_value t l" and it: "intr t = intr s1" by (simp_all add: t_def s1_def)
  then have "mutex_unlock l t = Inr s3" unfolding s3_def using e by (intro mutex_unlock_empty) simp_all
  moreover have "lock_release l s1 = mutex_unlock l t"
    using h unfolding lock_release_def t_def by (simp only: running_task_eq kassert_True) simp
  ultimately have "lock_release l s1 = Inr s3" by (simp only:)
  moreover have "p \<noteq> current s \<longrightarrow> lock_release l (s1\<lparr>current := p\<rparr>) = Inl Assertion"
    by (simp add: lock_release_def s1_def)
  moreover have "lock_holder s1 l = Some (current s)" "mutex_value s1 l" "intr s1 = intr s"
    by (simp_all add: s1_def)
  moreover have "lock_repeat s2 l = of_nat (Suc n)" by (simp add: s2_def)
  moreover have "lock_holder s3 l = None" "\<not> mutex_value s3 l" "intr s3 = intr s1" by (simp_all add: s3_def it) (simp add: t_def)
  ultimately show ?thesis using a b r' by metis
qed

theorem lock_reentrant_witness:
  "\<exists>s1 s2 s3. acquired 0 example_lock = Inr s1 \<and> repeatE 3 (acquired 0) s1 = Inr s2 \<and> lock_repeat s2 0 = 4
     \<and> repeatE 3 (lock_release 0) s2 = Inr s1 \<and> lock_release 0 s1 = Inr s3 \<and> \<not> mutex_value s3 0"
proof -
  have e: "lock_holder example_lock 0 = None" "lock_repeat example_lock 0 = 0" "\<not> mutex_value example_lock 0"
    by (simp_all add: example_lock_def)
  show ?thesis using lock_reentrant [OF example_lock_inv e refl, where n = 3 and p = 0] by auto
qed

end
