(* ===== verification/Arena.thy ===== *)
theory Arena
  imports Memory Lists
begin

text \<open>
  The kernel's heap (\<^verbatim>\<open>kernel/arena.c\<close>): \<^verbatim>\<open>kmalloc\<close> and \<^verbatim>\<open>kfree\<close> over runs of kernel pages.
  Requests above 1024 bytes get pages of their own; smaller ones get a block of one of seven sizes,
  cut from a page whose header counts its free blocks. The free blocks of a size are on a list whose
  nodes lie in the blocks themselves, so a block in use holds the user's data where its node was:
  the model says nothing about the node of such a block (\<open>heap_lists\<close> instead of \<open>store_rel\<close>).
  An arena header is named by the address of its page, a block by its own.
\<close>

section \<open>The data\<close>

record arena_descriptor_t =
  total_block :: u32
  block_size :: u32

record arena_t =
  a_desc :: "nat option"
  a_count :: u32
  a_large :: u32
  a_magic :: u32

record arena_state =
  heap_mem :: mem_t
  descriptors :: "arena_descriptor_t list"
  arenas :: "u32 \<Rightarrow> arena_t"
  blocks :: "(nat, u32) heap"

definition DESC_COUNT :: nat where "DESC_COUNT = 7"
definition ARENA_BYTES :: u32 where "ARENA_BYTES = 16"

section \<open>The operations\<close>

definition init_desc :: "nat \<Rightarrow> arena_state \<times> u32 \<Rightarrow> (arena_state \<times> u32) res" where
  "init_desc i = (\<lambda>(st, bs).
     bindE (wr (descriptors st) i \<lparr>total_block = (PAGE_SIZE - ARENA_BYTES) div bs, block_size = bs\<rparr>) (\<lambda>ds.
     Inr (st\<lparr>descriptors := ds, blocks := list_init i (blocks st)\<rparr>, push_bit 1 bs)))"

definition arena_init :: "arena_state \<Rightarrow> arena_state res" where
  "arena_init st = bindE (foldE init_desc [0 ..< DESC_COUNT] (st, 16)) (\<lambda>(st, _). Inr st)"

definition arena_desc :: "u32 \<Rightarrow> arena_state \<Rightarrow> (nat \<times> arena_descriptor_t) res" where
  "arena_desc arena st =
     (case a_desc (arenas st arena) of None \<Rightarrow> Inl NullDeref
      | Some i \<Rightarrow> bindE (rd (descriptors st) i) (\<lambda>d. Inr (i, d)))"

definition get_arena_block :: "u32 \<Rightarrow> u32 \<Rightarrow> arena_state \<Rightarrow> u32 res" where
  "get_arena_block arena idx st =
     bindE (arena_desc arena st) (\<lambda>(_, d).
     kassert (total_block d > idx) (Inr (arena + ARENA_BYTES + idx * block_size d)))"

definition get_block_arena :: "u32 \<Rightarrow> u32" where
  "get_block_arena block = block AND 0xfffff000"

text \<open>\<^verbatim>\<open>memset(arena, 0, count * PAGE_SIZE)\<close>: the headers and nodes that lie in those pages.\<close>

definition in_pages :: "u32 \<Rightarrow> u32 \<Rightarrow> u32 \<Rightarrow> bool" where
  "in_pages arena count p \<longleftrightarrow> unat arena \<le> unat p \<and> unat p < unat arena + 4096 * unat count"

definition clear_pages :: "u32 \<Rightarrow> u32 \<Rightarrow> arena_state \<Rightarrow> arena_state" where
  "clear_pages arena count st = st\<lparr>
     arenas := (\<lambda>p. if in_pages arena count p
                    then \<lparr>a_desc = None, a_count = 0, a_large = 0, a_magic = 0\<rparr> else arenas st p),
     blocks := (\<lambda>a. case a of
         Node p \<Rightarrow> if in_pages arena count p then \<lparr>node_prev = None, node_next = None\<rparr> else blocks st a
       | _ \<Rightarrow> blocks st a)\<rparr>"

definition alloc_arena :: "u32 \<Rightarrow> arena_state \<Rightarrow> (u32 \<times> arena_state) res" where
  "alloc_arena count st =
     bindE (alloc_kpage count (heap_mem st)) (\<lambda>(arena, m).
     Inr (arena, clear_pages arena count (st\<lparr>heap_mem := m\<rparr>)))"

definition set_arena :: "u32 \<Rightarrow> arena_t \<Rightarrow> arena_state \<Rightarrow> arena_state" where
  "set_arena arena h st = st\<lparr>arenas := (arenas st)(arena := h)\<rparr>"

text \<open>The body of the loop that cuts a new page into blocks; \<open>i\<close> is the index of the block.\<close>

definition carve_block :: "u32 \<Rightarrow> nat \<Rightarrow> arena_state \<Rightarrow> arena_state res" where
  "carve_block arena i st =
     bindE (get_arena_block arena (of_nat i) st) (\<lambda>block.
     bindE (arena_desc arena st) (\<lambda>(d, _).
     bindE (list_search d (Node block) (blocks st)) (\<lambda>found.
     kassert (\<not> found) (
     bindE (list_push d (Node block) (blocks st)) (\<lambda>h.
     bindE (list_search d (Node block) h) (\<lambda>found.
     kassert found (Inr (st\<lparr>blocks := h\<rparr>))))))))"

definition new_arena :: "nat \<Rightarrow> arena_state \<Rightarrow> arena_state res" where
  "new_arena d st =
     bindE (rd (descriptors st) d) (\<lambda>desc.
     bindE (alloc_arena 1 st) (\<lambda>(arena, st).
     foldE (carve_block arena) [0 ..< unat (total_block desc)]
       (set_arena arena \<lparr>a_desc = Some d, a_count = total_block desc, a_large = 0, a_magic = ONIX_MAGIC\<rparr> st)))"

text \<open>The first descriptor whose blocks are large enough, or the last one.\<close>

definition pick_desc :: "u32 \<Rightarrow> arena_state \<Rightarrow> nat" where
  "pick_desc sz st =
     (case find (\<lambda>i. block_size (descriptors st ! i) \<ge> sz) [0 ..< DESC_COUNT] of
        Some i \<Rightarrow> i | None \<Rightarrow> DESC_COUNT - 1)"

definition kmalloc_large :: "u32 \<Rightarrow> arena_state \<Rightarrow> (u32 \<times> arena_state) res" where
  "kmalloc_large sz st =
     bindE (div_round_up (sz + ARENA_BYTES) PAGE_SIZE) (\<lambda>count.
     bindE (alloc_arena count st) (\<lambda>(arena, st).
     Inr (arena + ARENA_BYTES,
          set_arena arena \<lparr>a_desc = None, a_count = count, a_large = 1, a_magic = ONIX_MAGIC\<rparr> st)))"

definition kmalloc_small :: "u32 \<Rightarrow> arena_state \<Rightarrow> (u32 \<times> arena_state) res" where
  "kmalloc_small sz st =
     (let d = pick_desc sz st in
      bindE (if list_empty d (blocks st) then new_arena d st else Inr st) (\<lambda>st.
      bindE (list_pop d (blocks st)) (\<lambda>(a, h).
      case a of Node block \<Rightarrow>
        (let st = st\<lparr>blocks := h\<rparr>; arena = get_block_arena block; hd = arenas st arena in
         kassert (a_magic hd = ONIX_MAGIC \<and> a_large hd = 0) (
         Inr (block, set_arena arena (hd\<lparr>a_count := a_count hd - 1\<rparr>) st)))
      | _ \<Rightarrow> Inl OutOfBounds)))"

definition kmalloc :: "u32 \<Rightarrow> arena_state \<Rightarrow> (u32 \<times> arena_state) res" where
  "kmalloc sz st = (if sz > 1024 then kmalloc_large sz st else kmalloc_small sz st)"

text \<open>The body of the loop that takes an empty page's blocks off the free list.\<close>

definition drop_block :: "u32 \<Rightarrow> nat \<Rightarrow> arena_state \<Rightarrow> arena_state res" where
  "drop_block arena i st =
     bindE (get_arena_block arena (of_nat i) st) (\<lambda>block.
     bindE (arena_desc arena st) (\<lambda>(d, _).
     bindE (list_search d (Node block) (blocks st)) (\<lambda>found.
     kassert found (
     bindE (list_remove (Node block) (blocks st)) (\<lambda>h.
     bindE (list_search d (Node block) h) (\<lambda>found.
     kassert (\<not> found) (Inr (st\<lparr>blocks := h\<rparr>))))))))"

definition kfree :: "u32 \<Rightarrow> arena_state \<Rightarrow> arena_state res" where
  "kfree ptr st =
     kassert (ptr \<noteq> 0) (
     let arena = get_block_arena ptr; hd = arenas st arena in
     kassert (a_large hd = 1 \<or> a_large hd = 0) (
     kassert (a_magic hd = ONIX_MAGIC) (
     if a_large hd = 1 then
       bindE (free_kpage arena (a_count hd) (heap_mem st)) (\<lambda>m. Inr (st\<lparr>heap_mem := m\<rparr>))
     else
       bindE (arena_desc arena st) (\<lambda>(d, desc).
       bindE (list_push d (Node ptr) (blocks st)) (\<lambda>h.
       let st = set_arena arena (hd\<lparr>a_count := a_count hd + 1\<rparr>) (st\<lparr>blocks := h\<rparr>) in
       if a_count (arenas st arena) = total_block desc then
         bindE (foldE (drop_block arena) [0 ..< unat (total_block desc)] st) (\<lambda>st.
         bindE (free_kpage arena 1 (heap_mem st)) (\<lambda>m. Inr (st\<lparr>heap_mem := m\<rparr>)))
       else Inr st)))))"

section \<open>Lists whose free nodes are anything\<close>

definition heap_lists :: "('l, 'n) heap \<Rightarrow> ('l \<Rightarrow> 'n list option) \<Rightarrow> bool" where
  "heap_lists h c \<longleftrightarrow> disjoint_lists c \<and> (\<forall>l xs. c l = Some xs \<longrightarrow> is_list h l xs)"

lemma heap_listsD: "heap_lists h c \<Longrightarrow> c l = Some xs \<Longrightarrow> is_list h l xs \<and> distinct xs"
  by (auto simp: heap_lists_def is_list_def)

lemma heap_lists_update:
  assumes rel: "heap_lists h c" and l: "c l = Some xs"
    and new: "is_list h' l ys" and frame: "only_changed (set (cells l xs) \<union> set (cells l ys)) h h'"
    and taken: "\<And>n. n \<in> set ys \<Longrightarrow> n \<notin> set xs \<Longrightarrow> unlinked c n"
  shows "heap_lists h' (c(l \<mapsto> ys))"
proof -
  have d: "set xs \<inter> set zs = {}" "set ys \<inter> set zs = {}" if "c l' = Some zs" "l' \<noteq> l" for l' zs
  proof -
    show x: "set xs \<inter> set zs = {}" using rel l that by (auto simp: heap_lists_def disjoint_lists_def)
    show "set ys \<inter> set zs = {}" using taken that x by (fastforce simp: unlinked_def)
  qed
  have "disjoint_lists (c(l \<mapsto> ys))"
    unfolding disjoint_lists_def
  proof (intro allI impI)
    fix a b as bs
    assume c: "(c(l \<mapsto> ys)) a = Some as" "(c(l \<mapsto> ys)) b = Some bs" "a \<noteq> b"
    show "set as \<inter> set bs = {}"
    proof (cases "a = l \<or> b = l")
      case True
      then show ?thesis using c d(2) by fastforce
    next
      case False
      then show ?thesis using c rel by (auto simp: heap_lists_def disjoint_lists_def)
    qed
  qed
  moreover have "is_list h' l' zs" if z: "(c(l \<mapsto> ys)) l' = Some zs" for l' zs
  proof (cases "l' = l")
    case True
    then show ?thesis using z new by simp
  next
    case False
    then have "c l' = Some zs" using z by simp
    then show ?thesis using is_list_frame [OF frame, of l' zs] d [OF _ False] heap_listsD [OF rel]
      False by (auto simp: set_cells)
  qed
  ultimately show ?thesis by (simp add: heap_lists_def)
qed

lemma heap_lists_push:
  assumes "heap_lists h c" and "c l = Some xs" and "unlinked c n"
  shows "\<exists>h'. list_push l (Node n) h = Inr h' \<and> heap_lists h' (c(l \<mapsto> n # xs))"
proof -
  have n: "n \<notin> set xs" using assms by (auto dest: unlinked_notin)
  have il: "is_list h l xs" using heap_listsD [OF assms(1,2)] by simp
  from insert_after_head_is_list [OF il n] obtain h' where h':
      "list_insert_after (Head l) (Node n) h = Inr h'" "is_list h' l (n # xs)"
      "only_changed (set (cells l (n # xs))) h h'" by blast
  have "heap_lists h' (c(l \<mapsto> n # xs))"
    by (rule heap_lists_update [OF assms(1,2) h'(2)])
       (use assms(3) in \<open>auto intro: only_changed_mono [OF h'(3)]\<close>)
  then show ?thesis using h'(1) n list_search_is_list [OF il, of n] by (simp add: list_push_def)
qed

lemma heap_lists_remove:
  assumes "heap_lists h c" and "c l = Some (xs @ n # ys)"
  shows "\<exists>h'. list_remove (Node n) h = Inr h' \<and> heap_lists h' (c(l \<mapsto> xs @ ys))"
proof -
  have il: "is_list h l (xs @ n # ys)" using heap_listsD [OF assms] by simp
  from remove_is_list [OF il] obtain h' where h':
      "list_remove (Node n) h = Inr h'" "is_list h' l (xs @ ys)"
      "only_changed (set (cells l (xs @ n # ys))) h h'" by blast
  have "heap_lists h' (c(l \<mapsto> xs @ ys))"
    by (rule heap_lists_update [OF assms h'(2)]) (auto intro: only_changed_mono [OF h'(3)])
  then show ?thesis using h'(1) by blast
qed

lemma heap_lists_search:
  "heap_lists h c \<Longrightarrow> c l = Some xs \<Longrightarrow> list_search l (Node n) h = Inr (n \<in> set xs)"
  by (drule (1) heap_listsD) (simp add: list_search_is_list)

lemma heap_lists_empty: "heap_lists h c \<Longrightarrow> c l = Some xs \<Longrightarrow> list_empty l h \<longleftrightarrow> xs = []"
  by (drule (1) heap_listsD) (simp add: list_empty_is_list)

lemma heap_lists_pop:
  assumes "heap_lists h c" and "c l = Some (n # xs)"
  shows "\<exists>h'. list_pop l h = Inr (Node n, h') \<and> heap_lists h' (c(l \<mapsto> xs))"
proof -
  have il: "is_list h l (n # xs)" using heap_listsD [OF assms] by simp
  obtain h' where h': "list_remove (Node n) h = Inr h'" "heap_lists h' (c(l \<mapsto> xs))"
    using heap_lists_remove [OF assms(1), of l "[]" n xs] assms(2) by auto
  have "node_next (h (Head l)) = Some (Node n)" using il by (simp add: is_list_def cells_def)
  moreover have "\<not> list_empty l h" using list_empty_is_list [OF il] by simp
  ultimately show ?thesis using h' by (simp add: list_pop_def)
qed

text \<open>Nodes that lie in no list can be overwritten.\<close>

lemma heap_lists_frame:
  assumes "heap_lists h c" and "\<And>a. a \<in> (\<Union>l xs. if c l = Some xs then set (cells l xs) else {}) \<Longrightarrow> h' a = h a"
  shows "heap_lists h' c"
proof -
  have "is_list h' l xs" if "c l = Some xs" for l xs
  proof -
    have "only_changed (- set (cells l xs)) h h'"
      using assms(2) that by (auto simp: only_changed_def split: if_splits)
    then show ?thesis using is_list_frame [of "- set (cells l xs)" h h' l xs] heap_listsD [OF assms(1) that]
      by simp
  qed
  then show ?thesis using assms(1) by (simp add: heap_lists_def)
qed

section \<open>Blocks and pages\<close>

text \<open>The size of the blocks of descriptor \<open>i\<close>, their number per page, page \<open>a\<close> and its block \<open>k\<close>.\<close>

definition bsize :: "nat \<Rightarrow> nat" where "bsize i = 16 * 2 ^ i"
definition nblocks :: "nat \<Rightarrow> nat" where "nblocks i = 4080 div bsize i"
definition page_at :: "nat \<Rightarrow> u32" where "page_at a = PAGE (of_nat a)"
definition block_at :: "nat \<Rightarrow> nat \<Rightarrow> nat \<Rightarrow> u32" where
  "block_at i a k = of_nat (4096 * a + (16 + k * bsize i))"

definition desc_table :: "arena_descriptor_t list" where
  "desc_table = map (\<lambda>i. \<lparr>total_block = of_nat (nblocks i), block_size = of_nat (bsize i)\<rparr>) [0 ..< 7]"

lemma desc_bounds:
  "list_all (\<lambda>i. 0 < nblocks i \<and> nblocks i \<le> 255 \<and> 16 + nblocks i * bsize i \<le> 4096 \<and> 16 \<le> bsize i \<and> bsize i \<le> 1024) [0 ..< 7]"
  by (simp add: nblocks_def bsize_def upt_rec)

lemma bounds:
  assumes "i < 7"
  shows "0 < nblocks i" "nblocks i \<le> 255" "16 + nblocks i * bsize i \<le> 4096" "16 \<le> bsize i" "bsize i \<le> 1024"
    "desc_table ! i = \<lparr>total_block = of_nat (nblocks i), block_size = of_nat (bsize i)\<rparr>"
    "unat (of_nat (nblocks i) :: u32) = nblocks i" "unat (of_nat (bsize i) :: u32) = bsize i"
proof -
  show b: "0 < nblocks i" "nblocks i \<le> 255" "16 + nblocks i * bsize i \<le> 4096" "16 \<le> bsize i" "bsize i \<le> 1024"
    using all_below [OF desc_bounds assms] by auto
  show "desc_table ! i = \<lparr>total_block = of_nat (nblocks i), block_size = of_nat (bsize i)\<rparr>"
    using assms by (simp add: desc_table_def)
  show "unat (of_nat (nblocks i) :: u32) = nblocks i" "unat (of_nat (bsize i) :: u32) = bsize i"
    using b by (auto intro: unat_of_nat_small)
qed

lemma block_offset:
  assumes "i < 7" and "k < nblocks i"
  shows "16 + k * bsize i + bsize i \<le> 4096"
proof -
  have "Suc k * bsize i \<le> nblocks i * bsize i" using assms(2) by (intro mult_le_mono1) simp
  then show ?thesis using bounds(3) [OF assms(1)] by simp
qed

lemma unat_block_at:
  assumes "i < 7" and "k < nblocks i" and "a < 4096"
  shows "unat (block_at i a k) = 4096 * a + (16 + k * bsize i)"
  unfolding block_at_def using block_offset [OF assms(1,2)] assms(3) by (intro unat_of_nat_small) simp

lemma unat_page_at: "a < 4096 \<Longrightarrow> unat (page_at a) = 4096 * a"
  unfolding page_at_def by (rule page_number(1)) simp

lemma page_at_inject: "a < 4096 \<Longrightarrow> b < 4096 \<Longrightarrow> page_at a = page_at b \<Longrightarrow> a = b"
  by (drule arg_cong [of _ _ unat]) (simp add: unat_page_at)

lemma block_at_inject:
  assumes "i < 7" "k < nblocks i" "a < 4096" "j < 7" "l < nblocks j" "b < 4096" "block_at i a k = block_at j b l"
  shows "a = b" and "i = j \<Longrightarrow> k = l"
proof -
  have e: "4096 * a + (16 + k * bsize i) = 4096 * b + (16 + l * bsize j)"
    using assms(7) unat_block_at [OF assms(1-3)] unat_block_at [OF assms(4-6)] by simp
  have o: "16 + k * bsize i < 4096" "16 + l * bsize j < 4096"
    using block_offset [OF assms(1,2)] block_offset [OF assms(4,5)] bounds(4) [OF assms(1)] bounds(4) [OF assms(4)] by auto
  have "(4096 * a + (16 + k * bsize i)) div 4096 = (4096 * b + (16 + l * bsize j)) div 4096" using e by simp
  then show "a = b" using o by simp
  then have "k * bsize i = l * bsize j" using e by simp
  then show "k = l" if "i = j" using that bounds(4) [OF assms(1)] by simp
qed

lemma get_block_arena_div: "unat (get_block_arena p) = 4096 * (unat p div 4096)"
proof -
  have m: "(0xfffff000 :: u32) = push_bit 12 (mask 20)" by (simp add: mask_eq_exp_minus_1)
  have "get_block_arena p = PAGE (IDX p)"
    unfolding get_block_arena_def PAGE_def IDX_def m
    by (rule bit_word_eqI) (auto simp: bit_simps)
  moreover have "unat p div 4096 < 2 ^ 20" using u32_bound [of p] by simp
  ultimately show ?thesis by (simp add: unat_PAGE unat_IDX)
qed

lemma get_block_arena_block:
  assumes "i < 7" "k < nblocks i" "a < 4096"
  shows "get_block_arena (block_at i a k) = page_at a"
proof -
  have "16 + k * bsize i < 4096" using block_offset [OF assms(1,2)] bounds(4) [OF assms(1)] by simp
  then have "unat (get_block_arena (block_at i a k)) = unat (page_at a)"
    by (simp add: get_block_arena_div unat_block_at [OF assms] unat_page_at [OF assms(3)])
  then show ?thesis by (simp only: word_unat_eq_iff)
qed

lemma get_block_arena_large:
  assumes "a < 4096"
  shows "get_block_arena (page_at a + ARENA_BYTES) = page_at a" "unat (page_at a + ARENA_BYTES) = 4096 * a + 16"
proof -
  have "unat (page_at a + ARENA_BYTES) = unat (page_at a) + unat ARENA_BYTES"
    using assms by (intro unat_add_small) (simp add: unat_page_at ARENA_BYTES_def)
  then show u: "unat (page_at a + ARENA_BYTES) = 4096 * a + 16"
    by (simp add: unat_page_at [OF assms] ARENA_BYTES_def)
  have "unat (get_block_arena (page_at a + ARENA_BYTES)) = unat (page_at a)"
    by (simp add: get_block_arena_div u unat_page_at [OF assms])
  then show "get_block_arena (page_at a + ARENA_BYTES) = page_at a" by (simp only: word_unat_eq_iff)
qed

lemma get_arena_block_at:
  assumes "descriptors st = desc_table" and "a_desc (arenas st (page_at a)) = Some i" and "i < 7" and "k < nblocks i"
  shows "get_arena_block (page_at a) (of_nat k) st = Inr (block_at i a k)"
proof -
  have u: "unat (of_nat k :: u32) = k" using assms(4) bounds(2) [OF assms(3)] by (intro unat_of_nat_small) simp
  have "page_at a = of_nat (4096 * a)" by (simp add: page_at_def PAGE_def push_bit_eq_mult)
  then have "page_at a + ARENA_BYTES + of_nat k * of_nat (bsize i) = block_at i a k"
    by (simp add: block_at_def ARENA_BYTES_def)
  moreover have "(of_nat k :: u32) < of_nat (nblocks i)"
    using assms(4) u bounds(7) [OF assms(3)] by (simp add: word_less_nat_alt)
  ultimately show ?thesis
    using assms(1-3) bounds(6) [OF assms(3)] by (simp add: get_arena_block_def arena_desc_def desc_table_def)
qed

section \<open>Cutting a page into blocks and taking it back\<close>

lemma carve_loop:
  assumes "descriptors st = desc_table" and "a_desc (arenas st (page_at a)) = Some i" and i: "i < 7" and "a < 4096"
    and "heap_lists (blocks st) c" and "c i = Some xs"
    and "\<forall>k \<in> set ks. k < nblocks i \<and> unlinked c (block_at i a k)" and "distinct ks"
  shows "\<exists>h. foldE (carve_block (page_at a)) ks st = Inr (st\<lparr>blocks := h\<rparr>)
    \<and> heap_lists h (c(i \<mapsto> rev (map (block_at i a) ks) @ xs))"
  using assms(1,2,5-8)
proof (induction ks arbitrary: st c xs)
  case Nil
  then show ?case by (auto simp: fun_upd_idem intro!: exI [of _ "blocks st"])
next
  case (Cons k ks)
  let ?b = "block_at i a k"
  have k: "k < nblocks i" "unlinked c ?b" using Cons.prems(5) by auto
  obtain h where h: "list_push i (Node ?b) (blocks st) = Inr h" "heap_lists h (c(i \<mapsto> ?b # xs))"
    using heap_lists_push [OF Cons.prems(3,4) k(2)] by blast
  have ad: "arena_desc (page_at a) st = Inr (i, desc_table ! i)"
    using Cons.prems(1,2) i by (simp add: arena_desc_def desc_table_def)
  have "?b \<notin> set xs" using k(2) Cons.prems(4) by (auto dest: unlinked_notin)
  then have step: "carve_block (page_at a) k st = Inr (st\<lparr>blocks := h\<rparr>)"
    using get_arena_block_at [OF Cons.prems(1,2) i k(1)] ad h(1) heap_lists_search [OF Cons.prems(3,4)]
      heap_lists_search [OF h(2), of i "?b # xs" ?b]
    by (simp add: carve_block_def)
  have "\<forall>l \<in> set ks. l < nblocks i \<and> unlinked (c(i \<mapsto> ?b # xs)) (block_at i a l)"
  proof
    fix l assume l: "l \<in> set ks"
    then have "l < nblocks i" "unlinked c (block_at i a l)" "l \<noteq> k" using Cons.prems(5,6) by auto
    moreover have "block_at i a l \<noteq> ?b"
      using block_at_inject(2) [OF i calculation(1) assms(4) i k(1) assms(4)] calculation(3) by auto
    ultimately show "l < nblocks i \<and> unlinked (c(i \<mapsto> ?b # xs)) (block_at i a l)"
      using Cons.prems(4) by (auto simp: unlinked_upd unlinked_def)
  qed
  then obtain h' where "foldE (carve_block (page_at a)) ks (st\<lparr>blocks := h\<rparr>) = Inr (st\<lparr>blocks := h\<rparr>\<lparr>blocks := h'\<rparr>)"
      "heap_lists h' (c(i \<mapsto> ?b # xs, i \<mapsto> rev (map (block_at i a) ks) @ ?b # xs))"
    using Cons.IH [of "st\<lparr>blocks := h\<rparr>" "c(i \<mapsto> ?b # xs)" "?b # xs"] Cons.prems h(2) by (auto simp del: fun_upd_apply simp: fun_upd_same)
  then show ?case using step by (auto simp: fun_upd_upd simp del: fun_upd_apply)
qed

lemma drop_loop:
  assumes "descriptors st = desc_table" and "a_desc (arenas st (page_at a)) = Some i" and i: "i < 7" and "a < 4096"
    and "heap_lists (blocks st) c" and "c i = Some xs"
    and "\<forall>k \<in> set ks. k < nblocks i \<and> block_at i a k \<in> set xs" and "distinct ks"
  shows "\<exists>h. foldE (drop_block (page_at a)) ks st = Inr (st\<lparr>blocks := h\<rparr>)
    \<and> heap_lists h (c(i \<mapsto> filter (\<lambda>b. b \<notin> block_at i a ` set ks) xs))"
  using assms(1,2,5-8)
proof (induction ks arbitrary: st c xs)
  case Nil
  then show ?case by (auto simp: fun_upd_idem intro!: exI [of _ "blocks st"])
next
  case (Cons k ks)
  let ?b = "block_at i a k"
  have k: "k < nblocks i" "?b \<in> set xs" using Cons.prems(5) by auto
  then obtain as bs where xs: "xs = as @ ?b # bs" by (auto dest: split_list)
  have dist: "distinct (as @ ?b # bs)" using heap_listsD [OF Cons.prems(3,4)] xs by simp
  obtain h where h: "list_remove (Node ?b) (blocks st) = Inr h" "heap_lists h (c(i \<mapsto> as @ bs))"
    using heap_lists_remove [OF Cons.prems(3)] Cons.prems(4) xs by blast
  have ad: "arena_desc (page_at a) st = Inr (i, desc_table ! i)"
    using Cons.prems(1,2) i by (simp add: arena_desc_def desc_table_def)
  have step: "drop_block (page_at a) k st = Inr (st\<lparr>blocks := h\<rparr>)"
    using get_arena_block_at [OF Cons.prems(1,2) i k(1)] ad h(1) heap_lists_search [OF Cons.prems(3,4)] k(2)
      heap_lists_search [OF h(2), of i "as @ bs" ?b] dist
    by (simp add: drop_block_def)
  have "\<forall>l \<in> set ks. l < nblocks i \<and> block_at i a l \<in> set (as @ bs)"
  proof
    fix l assume l: "l \<in> set ks"
    then have "l < nblocks i" "block_at i a l \<in> set xs" "l \<noteq> k" using Cons.prems(5,6) by auto
    moreover have "block_at i a l \<noteq> ?b"
      using block_at_inject(2) [OF i calculation(1) assms(4) i k(1) assms(4)] calculation(3) by auto
    ultimately show "l < nblocks i \<and> block_at i a l \<in> set (as @ bs)" using xs by auto
  qed
  then obtain h' where h': "foldE (drop_block (page_at a)) ks (st\<lparr>blocks := h\<rparr>) = Inr (st\<lparr>blocks := h\<rparr>\<lparr>blocks := h'\<rparr>)"
      "heap_lists h' (c(i \<mapsto> as @ bs, i \<mapsto> filter (\<lambda>b. b \<notin> block_at i a ` set ks) (as @ bs)))"
    using Cons.IH [of "st\<lparr>blocks := h\<rparr>" "c(i \<mapsto> as @ bs)" "as @ bs"] Cons.prems h(2) by (auto simp del: fun_upd_apply simp: fun_upd_same)
  have "filter (\<lambda>b. b \<notin> block_at i a ` set (k # ks)) xs = filter (\<lambda>b. b \<notin> block_at i a ` set ks) (as @ bs)"
    using dist xs by (auto intro!: filter_cong arg_cong2 [of _ _ _ _ "(@)"])
  then show ?case using step h' by (auto simp: fun_upd_upd simp del: fun_upd_apply)
qed

end
