(* ===== verification/Heap.thy ===== *)
theory Heap
  imports Arena
begin

text \<open>
  The heap of \<^verbatim>\<open>kernel/arena.c\<close> is sound: the blocks in use never overlap, each lies in a
  kernel page the allocator owns, and the headers count the free blocks. The invariant is stated
  over a ghost record of the pages cut into blocks, the runs handed out whole and the blocks in use.
\<close>

section \<open>The invariant of the heap\<close>

text \<open>Which pages are cut into blocks (and of which descriptor), which runs of pages were handed out
  whole, and which blocks are in use.\<close>

record ghost =
  small :: "nat \<Rightarrow> nat option"
  large :: "nat \<Rightarrow> nat option"
  inuse :: "(nat \<times> nat) set"

definition pages_of :: "ghost \<Rightarrow> nat \<Rightarrow> nat set" where
  "pages_of g a = (case small g a of Some _ \<Rightarrow> {a}
     | None \<Rightarrow> (case large g a of Some n \<Rightarrow> {a ..< a + n} | None \<Rightarrow> {}))"

definition pages_ok :: "mem_t \<Rightarrow> ghost \<Rightarrow> bool" where
  "pages_ok m g \<longleftrightarrow> kernel_inv m
     \<and> (\<forall>a. small g a = None \<or> large g a = None)
     \<and> (\<forall>a n. large g a = Some n \<longrightarrow> 0 < n)
     \<and> (\<forall>a. pages_of g a \<subseteq> {256 ..< 4096} \<inter> bm_used (kernel_map m))
     \<and> (\<forall>a b. a \<noteq> b \<longrightarrow> pages_of g a \<inter> pages_of g b = {})"

definition free_blocks :: "ghost \<Rightarrow> nat \<Rightarrow> u32 set" where
  "free_blocks g i = {block_at i a k | a k. small g a = Some i \<and> k < nblocks i \<and> (a, k) \<notin> inuse g}"

definition used_in :: "ghost \<Rightarrow> nat \<Rightarrow> nat set" where
  "used_in g a = {k. (a, k) \<in> inuse g}"

definition blocks_ok :: "ghost \<Rightarrow> bool" where
  "blocks_ok g \<longleftrightarrow> (\<forall>a i. small g a = Some i \<longrightarrow> i < 7 \<and> used_in g a \<subseteq> {..< nblocks i})
     \<and> (\<forall>a k. (a, k) \<in> inuse g \<longrightarrow> small g a \<noteq> None)"

definition lists_ok :: "(nat, u32) heap \<Rightarrow> ghost \<Rightarrow> (nat \<Rightarrow> u32 list option) \<Rightarrow> bool" where
  "lists_ok h g c \<longleftrightarrow> heap_lists h c \<and> (\<forall>i xs. c i = Some xs \<longrightarrow> i < 7 \<and> set xs = free_blocks g i)
     \<and> (\<forall>i < 7. c i \<noteq> None)"

definition headers_ok :: "(u32 \<Rightarrow> arena_t) \<Rightarrow> ghost \<Rightarrow> bool" where
  "headers_ok hs g \<longleftrightarrow>
     (\<forall>a i. small g a = Some i \<longrightarrow> hs (page_at a) = \<lparr>a_desc = Some i,
        a_count = of_nat (nblocks i - card (used_in g a)), a_large = 0, a_magic = ONIX_MAGIC\<rparr>)
   \<and> (\<forall>a n. large g a = Some n \<longrightarrow> hs (page_at a) =
        \<lparr>a_desc = None, a_count = of_nat n, a_large = 1, a_magic = ONIX_MAGIC\<rparr>)"

text \<open>The page \<open>e\<close> may have no block in use: a page is cut before its first block is handed out.\<close>

definition heap_inv :: "nat set \<Rightarrow> ghost \<Rightarrow> (nat \<Rightarrow> u32 list option) \<Rightarrow> arena_state \<Rightarrow> bool" where
  "heap_inv e g c st \<longleftrightarrow> descriptors st = desc_table \<and> pages_ok (heap_mem st) g \<and> blocks_ok g
     \<and> lists_ok (blocks st) g c \<and> headers_ok (arenas st) g
     \<and> (\<forall>a i. small g a = Some i \<longrightarrow> a \<notin> e \<longrightarrow> used_in g a \<noteq> {})"

lemma heap_invD:
  assumes "heap_inv e g c st"
  shows "descriptors st = desc_table" "pages_ok (heap_mem st) g" "blocks_ok g" "lists_ok (blocks st) g c"
    "headers_ok (arenas st) g" "small g a = Some i \<Longrightarrow> a \<notin> e \<Longrightarrow> used_in g a \<noteq> {}"
  using assms by (auto simp: heap_inv_def)

lemma pages_okD:
  assumes "pages_ok m g"
  shows "kernel_inv m" "small g a = Some i \<Longrightarrow> large g a = None" "large g a = Some n \<Longrightarrow> 0 < n"
    "pages_of g a \<subseteq> {256 ..< 4096}" "pages_of g a \<subseteq> bm_used (kernel_map m)"
    "a \<noteq> b \<Longrightarrow> pages_of g a \<inter> pages_of g b = {}"
    "small g a = Some i \<Longrightarrow> 256 \<le> a \<and> a < 4096"
    "large g a = Some n \<Longrightarrow> small g a = None \<and> 256 \<le> a \<and> a + n \<le> 4096"
proof -
  note p = assms [unfolded pages_ok_def]
  show "kernel_inv m" "small g a = Some i \<Longrightarrow> large g a = None" "large g a = Some n \<Longrightarrow> 0 < n"
    and sub: "pages_of g a \<subseteq> {256 ..< 4096}" and "pages_of g a \<subseteq> bm_used (kernel_map m)"
    "a \<noteq> b \<Longrightarrow> pages_of g a \<inter> pages_of g b = {}"
    using p by (metis option.distinct(1) | blast)+
  show "small g a = Some i \<Longrightarrow> 256 \<le> a \<and> a < 4096" using sub by (simp add: pages_of_def)
  assume l: "large g a = Some n"
  then have s: "small g a = None" using p by (metis option.distinct(1))
  have "0 < n" using p l by blast
  then have "a \<in> pages_of g a" "a + n - 1 \<in> pages_of g a" using l s by (auto simp: pages_of_def)
  then show "small g a = None \<and> 256 \<le> a \<and> a + n \<le> 4096" using sub s \<open>0 < n\<close> by fastforce
qed

lemma used_in_small:
  assumes "blocks_ok g" and "small g a = Some i"
  shows "i < 7" "finite (used_in g a)" "card (used_in g a) \<le> nblocks i" "k \<in> used_in g a \<Longrightarrow> k < nblocks i"
proof -
  have s: "used_in g a \<subseteq> {..< nblocks i}" "i < 7" using assms by (auto simp: blocks_ok_def)
  then show "i < 7" "finite (used_in g a)" "k \<in> used_in g a \<Longrightarrow> k < nblocks i" by (auto intro: finite_subset)
  show "card (used_in g a) \<le> nblocks i" using card_mono [OF _ s(1)] by simp
qed

lemma listsD:
  assumes "lists_ok h g c" and "i < 7"
  obtains xs where "c i = Some xs" "set xs = free_blocks g i" "distinct xs"
proof -
  obtain xs where xs: "c i = Some xs" using assms by (auto simp: lists_ok_def)
  moreover have "set xs = free_blocks g i" using assms(1) xs by (simp add: lists_ok_def)
  moreover have "distinct xs" using heap_listsD [of h c i xs] assms(1) xs by (simp add: lists_ok_def)
  ultimately show ?thesis by (rule that)
qed

text \<open>A block that is not free lies in no list.\<close>

lemma inuse_unlinked:
  assumes p: "pages_ok m g" and b: "blocks_ok g" and l: "lists_ok h g c" and s: "small g a = Some i"
    and k: "k < nblocks i" and u: "(a, k) \<in> inuse g"
  shows "unlinked c (block_at i a k)"
  unfolding unlinked_def
proof (intro allI impI notI)
  fix j xs assume j: "c j = Some xs" and "block_at i a k \<in> set xs"
  then have "block_at i a k \<in> free_blocks g j" "j < 7" using l by (auto simp: lists_ok_def)
  then obtain a' k' where q: "block_at i a k = block_at j a' k'" "small g a' = Some j" "k' < nblocks j" "(a', k') \<notin> inuse g"
    by (auto simp: free_blocks_def)
  have "i < 7" by (rule used_in_small(1) [OF b s])
  moreover have "a < 4096" "a' < 4096" using pages_okD(7) [OF p] s q(2) by auto
  ultimately have "a = a'" and "i = j \<Longrightarrow> k = k'"
    using block_at_inject [OF _ k _ \<open>j < 7\<close> q(3) _ q(1)] by auto
  then show False using s q u by auto
qed

lemma new_page_unlinked:
  assumes p: "pages_ok m g" and b: "blocks_ok g" and l: "lists_ok h g c" and a: "\<forall>b. a \<notin> pages_of g b"
    and i: "i < 7" and k: "k < nblocks i" and "a < 4096"
  shows "unlinked c (block_at i a k)"
  unfolding unlinked_def
proof (intro allI impI notI)
  fix j xs assume j: "c j = Some xs" and "block_at i a k \<in> set xs"
  then have "block_at i a k \<in> free_blocks g j" "j < 7" using l by (auto simp: lists_ok_def)
  then obtain a' k' where q: "block_at i a k = block_at j a' k'" "small g a' = Some j" "k' < nblocks j"
    by (auto simp: free_blocks_def)
  moreover have "a' < 4096" using pages_okD(7) [OF p q(2)] by simp
  ultimately have "a = a'" using block_at_inject(1) [OF i k assms(7) \<open>j < 7\<close>] by blast
  then have "a \<in> pages_of g a'" using q(2) by (simp add: pages_of_def)
  then show False using a by blast
qed

section \<open>New pages\<close>

lemma in_pages_page:
  assumes "a < 4096" "b < 4096" "a + unat n \<le> 4096"
  shows "in_pages (page_at a) n (page_at b) \<longleftrightarrow> b \<in> {a ..< a + unat n}"
proof -
  have "4096 * a \<le> 4096 * b \<and> 4096 * b < 4096 * a + 4096 * unat n \<longleftrightarrow> a \<le> b \<and> b < a + unat n" by linarith
  then show ?thesis using assms by (simp add: in_pages_def unat_page_at)
qed

lemma in_pages_block:
  assumes "a < 4096" "b < 4096" "i < 7" "k < nblocks i"
  shows "in_pages (page_at a) n (block_at i b k) \<longleftrightarrow> b \<in> {a ..< a + unat n}"
proof -
  have "16 + k * bsize i < 4096" using block_offset [OF assms(3,4)] bounds(4) [OF assms(3)] by simp
  then have "4096 * a \<le> 4096 * b + (16 + k * bsize i) \<and> 4096 * b + (16 + k * bsize i) < 4096 * a + 4096 * unat n
      \<longleftrightarrow> a \<le> b \<and> b < a + unat n" by linarith
  then show ?thesis using assms by (simp add: in_pages_def unat_page_at unat_block_at)
qed

text \<open>Fresh pages: the run was free, and clearing it touches no header and no node in use.\<close>

lemma alloc_arena_cases:
  assumes inv: "heap_inv e g c st" and n: "0 < count"
  shows "(\<exists>a st'. alloc_arena count st = Inr (page_at a, st') \<and> 256 \<le> a \<and> a + unat count \<le> 4096
       \<and> (\<forall>b. {a ..< a + unat count} \<inter> pages_of g b = {})
       \<and> {a ..< a + unat count} \<subseteq> bm_used (kernel_map (heap_mem st')) \<and> heap_inv e g c st')
     \<or> (alloc_arena count st = Inl (Panic ''scan page fail!!!'')
       \<and> (\<forall>a. \<not> bm_run (kernel_map (heap_mem st)) a (unat count)))"
proof -
  note d = heap_invD [OF inv]
  note p = pages_okD [OF d(2)]
  from alloc_kpage_cases [OF p(1) n] show ?thesis
  proof (elim disjE exE conjE, goal_cases)
    case (1 a km)
    let ?m = "heap_mem st\<lparr>kernel_map := km\<rparr>" and ?n = "unat count"
    have pos: "0 < ?n" using n by (simp add: word_less_nat_alt)
    have sub: "{a ..< a + ?n} \<subseteq> {256 ..< 4096} - bm_used (kernel_map (heap_mem st))"
      using 1(2) bm_run_univ [OF pos] p(1) by (simp add: kernel_inv_def)
    have "a \<in> {a ..< a + ?n}" "a + ?n - 1 \<in> {a ..< a + ?n}" using pos by auto
    then have b: "256 \<le> a" "a + ?n \<le> 4096" using sub pos by fastforce+
    then have a: "a < 4096" using pos by simp
    have dis: "{a ..< a + ?n} \<inter> pages_of g b = {}" for b using sub p(5) [of b] by blast
    define st' where "st' = clear_pages (page_at a) count (st\<lparr>heap_mem := ?m\<rparr>)"
    have "pages_ok ?m g" using d(2) 1(3,4) p(5) unfolding pages_ok_def by auto
    moreover have hs: "arenas st' (page_at b) = arenas st (page_at b)" if "b \<in> pages_of g b" for b
    proof -
      have "b < 4096" using p(4) that by fastforce
      moreover have "b \<notin> {a ..< a + ?n}" using dis [of b] that by blast
      ultimately show ?thesis by (auto simp: st'_def clear_pages_def in_pages_page [OF a _ b(2)])
    qed
    have "headers_ok (arenas st') g"
      unfolding headers_ok_def
    proof (intro conjI allI impI)
      fix b i assume s: "small g b = Some i"
      then have "b \<in> pages_of g b" by (simp add: pages_of_def)
      from hs [OF this] show "arenas st' (page_at b) = \<lparr>a_desc = Some i,
          a_count = of_nat (nblocks i - card (used_in g b)), a_large = 0, a_magic = ONIX_MAGIC\<rparr>"
        using d(5) s by (simp add: headers_ok_def)
    next
      fix b n assume l: "large g b = Some n"
      then have "b \<in> pages_of g b" using p(3,8) [of b n] by (simp add: pages_of_def)
      from hs [OF this] show "arenas st' (page_at b) =
          \<lparr>a_desc = None, a_count = of_nat n, a_large = 1, a_magic = ONIX_MAGIC\<rparr>"
        using d(5) l by (simp add: headers_ok_def)
    qed
    moreover have "lists_ok (blocks st') g c"
    proof -
      have "blocks st' x = blocks st x" if x: "c l = Some xs" "x \<in> set (cells l xs)" for x l xs
      proof (cases x)
        case (Node q)
        then have "q \<in> free_blocks g l" "l < 7" using x d(4) by (auto simp: set_cells lists_ok_def)
        then obtain b k where q: "q = block_at l b k" "small g b = Some l" "k < nblocks l"
          by (auto simp: free_blocks_def)
        have "b \<in> pages_of g b" using q(2) by (simp add: pages_of_def)
        moreover have "b < 4096" using p(7) [OF q(2)] by simp
        ultimately have "\<not> in_pages (page_at a) count q"
          using dis [of b] in_pages_block [OF a _ \<open>l < 7\<close> q(3)] q(1) by auto
        then show ?thesis using Node by (simp add: st'_def clear_pages_def)
      qed (simp_all add: st'_def clear_pages_def)
      then have "heap_lists (blocks st') c"
        using heap_lists_frame [of "blocks st" c "blocks st'"] d(4) by (auto simp: lists_ok_def split: if_splits)
      then show ?thesis using d(4) by (simp add: lists_ok_def)
    qed
    ultimately have "heap_inv e g c st'"
      using d(1,3,6) by (simp add: heap_inv_def st'_def clear_pages_def)
    moreover have "alloc_arena count st = Inr (page_at a, st')"
      using 1(1) by (simp add: alloc_arena_def st'_def page_at_def)
    moreover have "{a ..< a + ?n} \<subseteq> bm_used (kernel_map (heap_mem st'))"
      using 1(4) by (simp add: st'_def clear_pages_def)
    ultimately show ?case using b dis by blast
  next
    case 2
    then show ?case by (simp add: alloc_arena_def)
  qed
qed

section \<open>Allocation\<close>

text \<open>What the callers see: the blocks in use and their sizes.\<close>

definition is_alloc :: "ghost \<Rightarrow> u32 \<Rightarrow> nat \<Rightarrow> bool" where
  "is_alloc g p s \<longleftrightarrow>
     (\<exists>a k i. (a, k) \<in> inuse g \<and> small g a = Some i \<and> p = block_at i a k \<and> s = bsize i)
   \<or> (\<exists>a n. large g a = Some n \<and> p = page_at a + ARENA_BYTES \<and> s = 4096 * n - 16)"

definition sound_heap :: "arena_state \<Rightarrow> (u32 \<Rightarrow> nat option) \<Rightarrow> bool" where
  "sound_heap st L \<longleftrightarrow> (\<exists>g c. heap_inv {} g c st \<and> (\<forall>p s. L p = Some s \<longleftrightarrow> is_alloc g p s))"

text \<open>A block lies inside the pages it was cut from.\<close>

lemma is_alloc_cases:
  assumes "is_alloc g p s"
  obtains (small) a k i where "(a, k) \<in> inuse g" "small g a = Some i" "p = block_at i a k" "s = bsize i"
    | (large) a n where "large g a = Some n" "p = page_at a + ARENA_BYTES" "s = 4096 * n - 16"
  using assms unfolding is_alloc_def by blast

lemma alloc_extent:
  assumes p: "pages_ok m g" and b: "blocks_ok g" and "is_alloc g q s"
  shows "\<exists>a. 0 < s \<and> 256 \<le> a \<and> {unat q ..< unat q + s} \<subseteq> {x. x div 4096 \<in> pages_of g a}
    \<and> (case small g a of Some i \<Rightarrow> \<exists>k. (a, k) \<in> inuse g \<and> q = block_at i a k \<and> s = bsize i \<and> k < nblocks i \<and> i < 7 \<and> a < 4096
       | None \<Rightarrow> \<exists>n. large g a = Some n \<and> q = page_at a + ARENA_BYTES \<and> s = 4096 * n - 16 \<and> a + n \<le> 4096)"
  using assms(3)
proof (cases rule: is_alloc_cases)
  case (small a k i)
  have i: "i < 7" "k < nblocks i" using used_in_small [OF b small(2)] small(1) by (auto simp: used_in_def)
  have a: "256 \<le> a" "a < 4096" using pages_okD(7) [OF p small(2)] by auto
  have "unat q = 4096 * a + (16 + k * bsize i)" "16 + k * bsize i + bsize i \<le> 4096"
    using unat_block_at [OF i a(2)] block_offset [OF i] small(3) by simp_all
  moreover have "x div 4096 = a" if "4096 * a + (16 + k * bsize i) \<le> x" "x < 4096 * a + (16 + k * bsize i) + bsize i" for x
  proof -
    have "x = 4096 * a + (x - 4096 * a)" "x - 4096 * a < 4096" using that calculation(2) by linarith+
    then show ?thesis by (metis div_mult_self4 div_less add_0_right zero_neq_numeral mult.commute)
  qed
  ultimately show ?thesis using small i a bounds(4) [OF i(1)]
    by (intro exI [of _ a]) (auto simp: pages_of_def)
next
  case (large a n)
  have n: "0 < n" "256 \<le> a" "a + n \<le> 4096" "small g a = None"
    using pages_okD(3,8) [OF p large(1)] by auto
  have "unat q = 4096 * a + 16" using get_block_arena_large(2) [of a] n large(2) by simp
  moreover have "x div 4096 \<in> {a ..< a + n}" if "4096 * a + 16 \<le> x" "x < 4096 * a + 16 + (4096 * n - 16)" for x
    using that n(1) by auto
  ultimately show ?thesis using large n by (intro exI [of _ a]) (auto simp: pages_of_def)
qed

text \<open>Two blocks in use do not overlap, and an address is that of one block only.\<close>

lemma allocs_disjoint:
  assumes p: "pages_ok m g" and b: "blocks_ok g" and q: "is_alloc g q s" and r: "is_alloc g r t"
  shows "(q = r \<and> s = t) \<or> {unat q ..< unat q + s} \<inter> {unat r ..< unat r + t} = {}"
proof -
  obtain a where a: "{unat q ..< unat q + s} \<subseteq> {x. x div 4096 \<in> pages_of g a}"
    "case small g a of Some i \<Rightarrow> \<exists>k. (a, k) \<in> inuse g \<and> q = block_at i a k \<and> s = bsize i \<and> k < nblocks i \<and> i < 7 \<and> a < 4096
       | None \<Rightarrow> \<exists>n. large g a = Some n \<and> q = page_at a + ARENA_BYTES \<and> s = 4096 * n - 16 \<and> a + n \<le> 4096"
    using alloc_extent [OF p b q] by blast
  obtain a' where a': "{unat r ..< unat r + t} \<subseteq> {x. x div 4096 \<in> pages_of g a'}"
    "case small g a' of Some i \<Rightarrow> \<exists>k. (a', k) \<in> inuse g \<and> r = block_at i a' k \<and> t = bsize i \<and> k < nblocks i \<and> i < 7 \<and> a' < 4096
       | None \<Rightarrow> \<exists>n. large g a' = Some n \<and> r = page_at a' + ARENA_BYTES \<and> t = 4096 * n - 16 \<and> a' + n \<le> 4096"
    using alloc_extent [OF p b r] by blast
  show ?thesis
  proof (cases "a = a'")
    case False
    then have "pages_of g a \<inter> pages_of g a' = {}" by (rule pages_okD(6) [OF p])
    then show ?thesis using a(1) a'(1) by blast
  next
    case True
    show ?thesis
    proof (cases "small g a")
      case None
      then show ?thesis using a(2) a'(2) True by auto
    next
      case (Some i)
      obtain k where k: "q = block_at i a k" "s = bsize i" "k < nblocks i" "i < 7" "a < 4096"
        using a(2) Some by auto
      obtain l where l: "r = block_at i a l" "t = bsize i" "l < nblocks i" using a'(2) Some True by auto
      have u: "unat q = 4096 * a + (16 + k * bsize i)" "unat r = 4096 * a + (16 + l * bsize i)"
        using unat_block_at [OF k(4)] k l by simp_all
      consider "k = l" | "Suc k \<le> l" | "Suc l \<le> k" by linarith
      then show ?thesis
      proof cases
        case 1
        then show ?thesis using k l by simp
      next
        case 2
        then have "Suc k * bsize i \<le> l * bsize i" by (rule mult_le_mono1)
        then show ?thesis by (auto simp: u k(2) l(2))
      next
        case 3
        then have "Suc l * bsize i \<le> k * bsize i" by (rule mult_le_mono1)
        then show ?thesis by (auto simp: u k(2) l(2))
      qed
    qed
  qed
qed

text \<open>Writing the header of one page.\<close>

definition small_header :: "ghost \<Rightarrow> nat \<Rightarrow> nat \<Rightarrow> arena_t" where
  "small_header g a i = \<lparr>a_desc = Some i, a_count = of_nat (nblocks i - card (used_in g a)),
     a_large = 0, a_magic = ONIX_MAGIC\<rparr>"

lemma headers_ok_write:
  assumes p: "pages_ok m g" and h: "headers_ok (arenas st) g"
    and a: "a < 4096" "large g a = None" and w: "w = small_header g' a i"
    and g': "small g' = (small g)(a \<mapsto> i)" "large g' = large g" "\<And>b. b \<noteq> a \<Longrightarrow> used_in g' b = used_in g b"
  shows "headers_ok (arenas (set_arena (page_at a) w st)) g'"
proof -
  have other: "arenas (set_arena (page_at a) w st) (page_at b) = arenas st (page_at b)" if "b \<noteq> a" "b < 4096" for b
    using page_at_inject [OF that(2) a(1)] that(1) by (auto simp: set_arena_def)
  show ?thesis
    unfolding headers_ok_def
  proof (intro conjI allI impI)
    fix b j assume s: "small g' b = Some j"
    show "arenas (set_arena (page_at a) w st) (page_at b) = \<lparr>a_desc = Some j,
        a_count = of_nat (nblocks j - card (used_in g' b)), a_large = 0, a_magic = ONIX_MAGIC\<rparr>"
    proof (cases "b = a")
      case True
      then show ?thesis using s g'(1) w by (simp add: small_header_def set_arena_def)
    next
      case False
      then have s': "small g b = Some j" using s g'(1) by simp
      then show ?thesis using other [OF False] pages_okD(7) [OF p s'] h g'(3) [OF False]
        by (simp add: headers_ok_def)
    qed
  next
    fix b n assume "large g' b = Some n"
    then have l: "large g b = Some n" "b \<noteq> a" using g'(2) a(2) by auto
    moreover have "0 < n" by (rule pages_okD(3) [OF p l(1)])
    ultimately show "arenas (set_arena (page_at a) w st) (page_at b) =
        \<lparr>a_desc = None, a_count = of_nat n, a_large = 1, a_magic = ONIX_MAGIC\<rparr>"
      using other [of b] pages_okD(8) [OF p l(1)] h by (simp add: headers_ok_def)
  qed
qed

lemma free_blocks_new:
  assumes "small g a = None" and "\<And>k. (a, k) \<notin> inuse g"
  shows "free_blocks (g\<lparr>small := (small g)(a \<mapsto> i)\<rparr>) j
    = free_blocks g j \<union> (if j = i then block_at i a ` {..< nblocks i} else {})" (is "?l = ?r")
proof (rule set_eqI)
  fix x
  show "x \<in> ?l \<longleftrightarrow> x \<in> ?r"
  proof
    assume "x \<in> ?l"
    then obtain b k where "x = block_at j b k" "((small g)(a \<mapsto> i)) b = Some j" "k < nblocks j" "(b, k) \<notin> inuse g"
      by (auto simp: free_blocks_def simp del: fun_upd_apply)
    then show "x \<in> ?r" by (cases "b = a") (auto simp: free_blocks_def)
  next
    assume "x \<in> ?r"
    then consider b k where "x = block_at j b k" "small g b = Some j" "k < nblocks j" "(b, k) \<notin> inuse g"
      | k where "j = i" "x = block_at i a k" "k < nblocks i"
      by (auto simp: free_blocks_def split: if_splits)
    then show "x \<in> ?l"
    proof cases
      case (1 b k)
      then have "b \<noteq> a" using assms(1) by auto
      then show ?thesis using 1 by (auto simp: free_blocks_def)
    next
      case (2 k)
      then show ?thesis using assms(2) by (auto simp: free_blocks_def)
    qed
  qed
qed

text \<open>The blocks of a page that is cut anew.\<close>

lemma new_arena_cases:
  assumes inv: "heap_inv {} g c st" and i: "i < 7" and empty: "c i = Some []"
  shows "(\<exists>a st'. new_arena i st = Inr st' \<and> small g a = None \<and> large g a = None
       \<and> heap_inv {a} (g\<lparr>small := (small g)(a \<mapsto> i)\<rparr>)
           (c(i \<mapsto> rev (map (block_at i a) [0 ..< nblocks i]))) st')
     \<or> (new_arena i st = Inl (Panic ''scan page fail!!!'')
       \<and> (\<forall>a. \<not> bm_run (kernel_map (heap_mem st)) a 1))"
proof -
  have "(0::u32) < 1" by simp
  from alloc_arena_cases [OF inv this] show ?thesis
proof (elim disjE exE conjE, goal_cases)
  case (1 a st1)
  note d = heap_invD [OF 1(6)]
  note p = pages_okD [OF d(2)]
  have a: "256 \<le> a" "a < 4096" using 1(2,3) by auto
  have fresh: "\<forall>b. a \<notin> pages_of g b" using 1(4) by auto
  then have "a \<notin> pages_of g a" by blast
  then have none: "small g a = None" "large g a = None"
    using p(3) [of a] by (auto simp: pages_of_def split: option.splits)
  have noblk: "(a, k) \<notin> inuse g" for k using d(3) none by (auto simp: blocks_ok_def)
  let ?g = "g\<lparr>small := (small g)(a \<mapsto> i)\<rparr>"
  define w where "w = \<lparr>a_desc = Some i, a_count = of_nat (nblocks i), a_large = 0, a_magic = ONIX_MAGIC\<rparr>"
  define st2 where "st2 = set_arena (page_at a) w st1"
  have st2: "descriptors st2 = desc_table" "a_desc (arenas st2 (page_at a)) = Some i" "blocks st2 = blocks st1"
    using d(1) by (simp_all add: st2_def set_arena_def w_def)
  have lists: "heap_lists (blocks st2) c" using d(4) by (simp add: lists_ok_def st2)
  have "\<forall>k \<in> set [0 ..< nblocks i]. k < nblocks i \<and> unlinked c (block_at i a k)"
    using new_page_unlinked [OF d(2,3,4) fresh i _ a(2)] by simp
  from carve_loop [OF st2(1,2) i a(2) lists empty this] obtain h where h:
    "foldE (carve_block (page_at a)) [0 ..< nblocks i] st2 = Inr (st2\<lparr>blocks := h\<rparr>)"
    "heap_lists h (c(i \<mapsto> rev (map (block_at i a) [0 ..< nblocks i])))" by auto
  define st3 where "st3 = st2\<lparr>blocks := h\<rparr>"
  have eq: "new_arena i st = Inr st3"
    using 1(1) h(1) heap_invD(1) [OF inv] i bounds(6,7) [OF i]
    by (simp add: new_arena_def desc_table_def st3_def st2_def w_def)
  have pg: "pages_of ?g b = (if b = a then {a} else pages_of g b)" for b
    by (simp add: pages_of_def split: option.split)
  have "pages_ok (heap_mem st3) ?g"
  proof -
    have "heap_mem st3 = heap_mem st1" by (simp add: st3_def st2_def set_arena_def)
    then show ?thesis
      using d(2) none a 1(5) fresh unfolding pages_ok_def pg by auto
  qed
  moreover have ui: "used_in ?g b = used_in g b" for b by (simp add: used_in_def)
  have "used_in g a = {}" using noblk by (simp add: used_in_def)
  then have "blocks_ok ?g" using d(3) i by (auto simp: blocks_ok_def ui)
  moreover have "headers_ok (arenas st3) ?g"
  proof -
    have "w = small_header ?g a i" by (simp add: w_def small_header_def ui \<open>used_in g a = {}\<close>)
    from headers_ok_write [OF d(2,5) a(2) none(2) this] ui show ?thesis by (simp add: st3_def st2_def)
  qed
  moreover have "lists_ok (blocks st3) ?g (c(i \<mapsto> rev (map (block_at i a) [0 ..< nblocks i])))"
  proof -
    have "free_blocks g i = {}" using listsD [OF d(4) i] empty by (metis empty_set option.inject)
    then have fb: "free_blocks ?g j = (if j = i then block_at i a ` {..< nblocks i} else free_blocks g j)" for j
      using free_blocks_new [OF none(1) noblk] by simp
    then show ?thesis using d(4) h(2) i
      by (auto simp: lists_ok_def st3_def lessThan_atLeast0 split: if_splits)
  qed
  moreover have "descriptors st3 = desc_table" by (simp add: st3_def st2(1))
  moreover have "used_in ?g b \<noteq> {}" if "small ?g b = Some j" "b \<notin> {a}" for b j
    using d(6) [of b j] that by (simp add: ui)
  ultimately have "heap_inv {a} ?g (c(i \<mapsto> rev (map (block_at i a) [0 ..< nblocks i]))) st3"
    unfolding heap_inv_def by blast
  then show ?case using eq none by blast
next
  case 2
  then show ?case using heap_invD(1) [OF inv] i by (simp add: new_arena_def desc_table_def)
qed
qed

text \<open>The page a block in use was cut from, read off its address.\<close>

lemma is_alloc_page:
  assumes p: "pages_ok m g" and b: "blocks_ok g" and "is_alloc g q s"
  obtains (small) a k i where "a < 4096" "get_block_arena q = page_at a" "q = block_at i a k" "s = bsize i"
      "small g a = Some i" "large g a = None" "(a, k) \<in> inuse g" "i < 7" "k < nblocks i"
    | (large) a n where "a < 4096" "get_block_arena q = page_at a" "q = page_at a + ARENA_BYTES" "s = 4096 * n - 16"
      "small g a = None" "large g a = Some n" "0 < n" "256 \<le> a" "a + n \<le> 4096"
  using assms(3)
proof (cases rule: is_alloc_cases)
  case (small a k i)
  have "i < 7" "k < nblocks i" using used_in_small [OF b small(2)] small(1) by (auto simp: used_in_def)
  moreover have "a < 4096" using pages_okD(7) [OF p small(2)] by simp
  ultimately show ?thesis
    using that(1) [of a i k] small get_block_arena_block [of i k a] pages_okD(2) [OF p small(2)] by simp
next
  case (large a n)
  have n: "0 < n" "256 \<le> a" "a + n \<le> 4096" "small g a = None" using pages_okD(3,8) [OF p large(1)] by auto
  then show ?thesis using that(2) [of a n] large get_block_arena_large(1) [of a] by simp
qed

lemma alloc_in_small:
  assumes p: "pages_ok m g" and b: "blocks_ok g" and s: "small g a = Some i" and k: "k < nblocks i"
    and q: "is_alloc g (block_at i a k) t"
  shows "(a, k) \<in> inuse g"
  using p b q
proof (cases rule: is_alloc_page)
  have i: "i < 7" and a: "a < 4096" using used_in_small(1) [OF b s] pages_okD(7) [OF p s] by auto
  { case (small a' k' i')
    with block_at_inject [OF i k a small(8,9,1) small(3)] s show ?thesis by auto
  next
    case (large a' n)
    have "page_at a = page_at a'" using large(2) get_block_arena_block [OF i k a] by simp
    then have "a = a'" by (rule page_at_inject [OF a large(1)])
    then show ?thesis using s large(5) by simp }
qed

lemma alloc_in_fresh:
  assumes p: "pages_ok m g" and b: "blocks_ok g" and a: "a < 4096" "small g a = None" "large g a = None"
  shows "\<not> is_alloc g (page_at a + ARENA_BYTES) t"
proof
  assume q: "is_alloc g (page_at a + ARENA_BYTES) t"
  show False
    using p b q
  proof (cases rule: is_alloc_page)
    case (small a' k i)
    then show False using page_at_inject [OF a(1) small(1)] a get_block_arena_large(1) [OF a(1)] by simp
  next
    case (large a' n)
    then show False using page_at_inject [OF a(1) large(1)] a get_block_arena_large(1) [OF a(1)] by simp
  qed
qed

lemma alloc_size_pos:
  assumes "pages_ok m g" and "blocks_ok g" and "is_alloc g q s"
  shows "0 < s"
  using alloc_extent [OF assms] by blast

text \<open>Adding a block that was not in use to those in use.\<close>

lemma sound_heap_add:
  assumes L: "\<And>q t. L q = Some t \<longleftrightarrow> is_alloc g q t" and inv: "heap_inv {} g' c st"
    and g': "\<And>q t. is_alloc g' q t \<longleftrightarrow> is_alloc g q t \<or> (q = p \<and> t = s)" and new: "\<And>t. \<not> is_alloc g p t"
  shows "sound_heap st (L(p \<mapsto> s))"
    and "\<forall>q t. L q = Some t \<longrightarrow> {unat p ..< unat p + s} \<inter> {unat q ..< unat q + t} = {}"
proof -
  have "(L(p \<mapsto> s)) q = Some t \<longleftrightarrow> is_alloc g' q t" for q t
    using L [of q t] g' [of q t] new [of t] by auto
  then show "sound_heap st (L(p \<mapsto> s))" using inv unfolding sound_heap_def by blast
  show "\<forall>q t. L q = Some t \<longrightarrow> {unat p ..< unat p + s} \<inter> {unat q ..< unat q + t} = {}"
  proof (intro allI impI)
    fix q t assume q: "L q = Some t"
    then have "is_alloc g q t" using L by simp
    then have "q \<noteq> p" "is_alloc g' q t" "is_alloc g' p s" using new [of t] g' by auto
    then show "{unat p ..< unat p + s} \<inter> {unat q ..< unat q + t} = {}"
      using allocs_disjoint [OF heap_invD(2,3) [OF inv], of p s q t] by auto
  qed
qed

section \<open>Handing out a block\<close>

lemma free_blocks_take:
  assumes p: "pages_ok m g" and b: "blocks_ok g" and s: "small g a = Some i" and k: "k < nblocks i" and j: "j < 7"
  shows "free_blocks (g\<lparr>inuse := insert (a, k) (inuse g)\<rparr>) j = free_blocks g j - {block_at i a k}" (is "?l = ?r")
proof (rule set_eqI)
  have i: "i < 7" and a: "a < 4096" using used_in_small(1) [OF b s] pages_okD(7) [OF p s] by auto
  fix x
  show "x \<in> ?l \<longleftrightarrow> x \<in> ?r"
  proof
    assume "x \<in> ?l"
    then obtain a' k' where x: "x = block_at j a' k'" "small g a' = Some j" "k' < nblocks j"
        "(a', k') \<notin> inuse g" "(a', k') \<noteq> (a, k)" by (auto simp: free_blocks_def)
    have a': "a' < 4096" using pages_okD(7) [OF p x(2)] by simp
    have "x \<noteq> block_at i a k"
    proof
      assume "x = block_at i a k"
      then have e: "block_at j a' k' = block_at i a k" using x(1) by simp
      then have "a' = a" by (rule block_at_inject(1) [OF j x(3) a' i k a])
      moreover from this have "j = i" using x(2) s by simp
      then have "k' = k" by (rule block_at_inject(2) [OF j x(3) a' i k a e])
      ultimately show False using x(5) by simp
    qed
    then show "x \<in> ?r" using x by (auto simp: free_blocks_def)
  next
    assume "x \<in> ?r"
    then obtain a' k' where x: "x = block_at j a' k'" "small g a' = Some j" "k' < nblocks j"
        "(a', k') \<notin> inuse g" "x \<noteq> block_at i a k" by (auto simp: free_blocks_def)
    then have "(a', k') \<noteq> (a, k)" using s by auto
    then show "x \<in> ?l" using x by (auto simp: free_blocks_def)
  qed
qed

lemma take_inv:
  assumes inv: "heap_inv e g c st" and e: "e \<subseteq> {a}" and s: "small g a = Some i" and k: "k < nblocks i"
    and free: "(a, k) \<notin> inuse g" and c: "c i = Some (block_at i a k # xs)"
    and h: "heap_lists h (c(i \<mapsto> xs))"
  shows "\<exists>st'. (let st = st\<lparr>blocks := h\<rparr>; arena = get_block_arena (block_at i a k); w = arenas st arena in
         kassert (a_magic w = ONIX_MAGIC \<and> a_large w = 0) (
         Inr (block_at i a k, set_arena arena (w\<lparr>a_count := a_count w - 1\<rparr>) st))) = Inr (block_at i a k, st')
    \<and> heap_inv {} (g\<lparr>inuse := insert (a, k) (inuse g)\<rparr>) (c(i \<mapsto> xs)) st'"
proof -
  note d = heap_invD [OF inv]
  let ?g = "g\<lparr>inuse := insert (a, k) (inuse g)\<rparr>" and ?w = "small_header g a i"
  have i: "i < 7" and a: "a < 4096" using used_in_small(1) [OF d(3) s] pages_okD(7) [OF d(2) s] by auto
  have w: "arenas st (page_at a) = ?w" using d(5) s by (simp add: headers_ok_def small_header_def)
  have U: "used_in ?g a = insert k (used_in g a)" "k \<notin> used_in g a" "finite (used_in g a)"
    using free used_in_small(2) [OF d(3) s] by (auto simp: used_in_def)
  have "card (insert k (used_in g a)) \<le> card {..< nblocks i}"
    using used_in_small(4) [OF d(3) s] k by (intro card_mono) auto
  then have "nblocks i - card (used_in g a) = Suc (nblocks i - card (used_in ?g a))" using U by simp
  then have w': "?w\<lparr>a_count := a_count ?w - 1\<rparr> = small_header ?g a i"
    by (simp add: small_header_def)
  define st' where "st' = set_arena (page_at a) (small_header ?g a i) (st\<lparr>blocks := h\<rparr>)"
  have "headers_ok (arenas st') ?g"
    unfolding st'_def
    by (rule headers_ok_write [OF d(2) _ a pages_okD(2) [OF d(2) s] refl])
       (use d(5) s in \<open>auto simp: used_in_def fun_upd_idem\<close>)
  moreover have pg: "pages_of ?g b = pages_of g b" for b by (simp add: pages_of_def split: option.split)
  have "pages_ok (heap_mem st') ?g"
    using d(2) by (simp add: pages_ok_def pg st'_def set_arena_def)
  moreover have used: "used_in ?g b = (if b = a then insert k (used_in g a) else used_in g b)" for b
    by (auto simp: used_in_def)
  have "blocks_ok ?g"
    using d(3) s k by (auto simp: blocks_ok_def used)
  moreover have "lists_ok (blocks st') ?g (c(i \<mapsto> xs))"
  proof -
    have "block_at i a k \<notin> set xs" "set (block_at i a k # xs) = free_blocks g i"
      using listsD [OF d(4) i] c by auto
    moreover have "free_blocks ?g j = free_blocks g j" if "j < 7" "j \<noteq> i" for j
    proof -
      have "block_at i a k \<notin> free_blocks g j"
      proof
        assume "block_at i a k \<in> free_blocks g j"
        then obtain a' k' where x: "block_at i a k = block_at j a' k'" "small g a' = Some j" "k' < nblocks j"
          by (auto simp: free_blocks_def)
        have "a' < 4096" using pages_okD(7) [OF d(2) x(2)] by simp
        then have "a = a'" by (rule block_at_inject(1) [OF i k a that(1) x(3) _ x(1)])
        then show False using x(2) s that(2) by simp
      qed
      then show ?thesis using free_blocks_take [OF d(2,3) s k that(1)] by simp
    qed
    ultimately show ?thesis
      using d(4) h i free_blocks_take [OF d(2,3) s k i]
      by (auto simp: lists_ok_def st'_def set_arena_def split: if_splits)
  qed
  moreover have "used_in ?g b \<noteq> {}" if "small ?g b = Some j" for b j
    using d(6) [of b j] that e by (auto simp: used)
  ultimately have "heap_inv {} ?g (c(i \<mapsto> xs)) st'"
    using d(1) by (simp add: heap_inv_def st'_def set_arena_def)
  then show ?thesis
    using w w' get_block_arena_block [OF i k a] by (auto simp: st'_def Let_def small_header_def)
qed

lemma is_alloc_take:
  assumes s: "small g a = Some i"
  shows "is_alloc (g\<lparr>inuse := insert (a, k) (inuse g)\<rparr>) q t \<longleftrightarrow> is_alloc g q t \<or> (q = block_at i a k \<and> t = bsize i)"
proof -
  have "(\<exists>b l j. (b, l) \<in> insert (a, k) (inuse g) \<and> small g b = Some j \<and> q = block_at j b l \<and> t = bsize j)
      \<longleftrightarrow> (\<exists>b l j. (b, l) \<in> inuse g \<and> small g b = Some j \<and> q = block_at j b l \<and> t = bsize j)
        \<or> (q = block_at i a k \<and> t = bsize i)"
    using s by fastforce
  then show ?thesis by (auto simp: is_alloc_def simp del: insert_iff)
qed

lemma take_sound:
  assumes inv: "heap_inv e g c st" and L: "\<And>q t. L q = Some t \<longleftrightarrow> is_alloc g q t" and e: "e \<subseteq> {a}"
    and s: "small g a = Some i" and k: "k < nblocks i" and free: "(a, k) \<notin> inuse g"
    and c: "c i = Some (block_at i a k # xs)"
  shows "\<exists>h. list_pop i (blocks st) = Inr (Node (block_at i a k), h) \<and>
    (\<exists>st'. (let st = st\<lparr>blocks := h\<rparr>; arena = get_block_arena (block_at i a k); w = arenas st arena in
         kassert (a_magic w = ONIX_MAGIC \<and> a_large w = 0) (
         Inr (block_at i a k, set_arena arena (w\<lparr>a_count := a_count w - 1\<rparr>) st))) = Inr (block_at i a k, st')
      \<and> sound_heap st' (L(block_at i a k \<mapsto> bsize i))
      \<and> (\<forall>q t. L q = Some t \<longrightarrow>
           {unat (block_at i a k) ..< unat (block_at i a k) + bsize i} \<inter> {unat q ..< unat q + t} = {}))"
proof -
  note d = heap_invD [OF inv]
  have "heap_lists (blocks st) c" using d(4) by (simp add: lists_ok_def)
  from heap_lists_pop [OF this c] obtain h where h:
    "list_pop i (blocks st) = Inr (Node (block_at i a k), h)" "heap_lists h (c(i \<mapsto> xs))" by blast
  from take_inv [OF inv e s k free c h(2)] obtain st' where st':
    "(let st = st\<lparr>blocks := h\<rparr>; arena = get_block_arena (block_at i a k); w = arenas st arena in
         kassert (a_magic w = ONIX_MAGIC \<and> a_large w = 0) (
         Inr (block_at i a k, set_arena arena (w\<lparr>a_count := a_count w - 1\<rparr>) st))) = Inr (block_at i a k, st')"
    "heap_inv {} (g\<lparr>inuse := insert (a, k) (inuse g)\<rparr>) (c(i \<mapsto> xs)) st'" by blast
  have "\<not> is_alloc g (block_at i a k) t" for t
    using alloc_in_small [OF d(2,3) s k, of t] free by blast
  note add = sound_heap_add [OF L st'(2) is_alloc_take [OF s] this]
  show ?thesis using h(1) st'(1) add by blast
qed

lemma pick_desc_ok:
  assumes "descriptors st = desc_table" and "\<not> 1024 < sz"
  shows "pick_desc sz st < 7" and "unat sz \<le> bsize (pick_desc sz st)"
    and "pick_desc sz st = 0 \<or> bsize (pick_desc sz st) < 2 * unat sz"
proof -
  have eq: "block_size (descriptors st ! i) \<ge> sz \<longleftrightarrow> unat sz \<le> bsize i" if "i < 7" for i
    using bounds(6,8) [OF that] assms(1) by (simp add: word_le_nat_alt)
  have "unat sz \<le> bsize 6" using assms(2) by (simp add: word_less_nat_alt bsize_def)
  then have "\<exists>x \<in> set [0 ..< DESC_COUNT]. block_size (descriptors st ! x) \<ge> sz"
    using eq [of 6] by (intro bexI [of _ 6]) (auto simp: DESC_COUNT_def)
  then obtain i where f: "find (\<lambda>i. block_size (descriptors st ! i) \<ge> sz) [0 ..< DESC_COUNT] = Some i"
    by (metis (no_types, lifting) find_None_iff not_Some_eq)
  then have "i < 7" "block_size (descriptors st ! i) \<ge> sz"
    and low: "\<And>j. j < i \<Longrightarrow> \<not> block_size (descriptors st ! j) \<ge> sz"
    by (auto simp: find_Some_iff DESC_COUNT_def)
  moreover have "pick_desc sz st = i" using f by (simp add: pick_desc_def)
  ultimately show "pick_desc sz st < 7" "unat sz \<le> bsize (pick_desc sz st)" using eq [of i] by auto
  show "pick_desc sz st = 0 \<or> bsize (pick_desc sz st) < 2 * unat sz"
  proof (cases i)
    case 0
    then show ?thesis using \<open>pick_desc sz st = i\<close> by simp
  next
    case (Suc j)
    then have j: "j < i" "j < 7" using \<open>i < 7\<close> by simp_all
    then have "\<not> unat sz \<le> bsize j" using eq [OF j(2)] low [OF j(1)] by blast
    moreover have "bsize i = 2 * bsize j" by (simp add: Suc bsize_def)
    ultimately show ?thesis using \<open>pick_desc sz st = i\<close> by simp
  qed
qed

lemma is_alloc_new_page:
  assumes "\<And>k. (a, k) \<notin> inuse g" and "small g a = None"
  shows "is_alloc (g\<lparr>small := (small g)(a \<mapsto> i)\<rparr>) q t \<longleftrightarrow> is_alloc g q t"
proof -
  have "(\<exists>b k j. (b, k) \<in> inuse g \<and> ((small g)(a \<mapsto> i)) b = Some j \<and> q = block_at j b k \<and> t = bsize j)
    \<longleftrightarrow> (\<exists>b k j. (b, k) \<in> inuse g \<and> small g b = Some j \<and> q = block_at j b k \<and> t = bsize j)"
  proof (intro iff_exI conj_cong refl)
    fix b k j assume "(b, k) \<in> inuse g"
    then have "b \<noteq> a" using assms(1) by auto
    then show "((small g)(a \<mapsto> i)) b = Some j \<longleftrightarrow> small g b = Some j" by simp
  qed
  then show ?thesis by (simp add: is_alloc_def del: fun_upd_apply)
qed

text \<open>What an allocation of \<open>sz\<close> bytes may do.\<close>

definition alloc_spec :: "u32 \<Rightarrow> arena_state \<Rightarrow> (u32 \<Rightarrow> nat option) \<Rightarrow> (u32 \<times> arena_state) res \<Rightarrow> bool" where
  "alloc_spec sz st L r \<longleftrightarrow> (case r of
      Inl e \<Rightarrow> e = Panic ''scan page fail!!!''
        \<and> (\<forall>a. \<not> bm_run (kernel_map (heap_mem st)) a ((unat sz + 4111) div 4096))
    | Inr (p, st') \<Rightarrow> \<exists>s. unat sz \<le> s \<and> sound_heap st' (L(p \<mapsto> s))
        \<and> (\<forall>q t. L q = Some t \<longrightarrow> {unat p ..< unat p + s} \<inter> {unat q ..< unat q + t} = {}))"

lemma kmalloc_small_ok:
  assumes "sound_heap st L" and sz: "\<not> 1024 < sz"
  shows "alloc_spec sz st L (kmalloc_small sz st)"
proof -
  obtain g c where inv: "heap_inv {} g c st" and L: "\<And>q t. L q = Some t \<longleftrightarrow> is_alloc g q t"
    using assms(1) by (auto simp: sound_heap_def)
  note d = heap_invD [OF inv]
  define i where "i = pick_desc sz st"
  have i: "i < 7" "unat sz \<le> bsize i" using pick_desc_ok(1,2) [OF d(1) sz] by (simp_all add: i_def)
  obtain xs where xs: "c i = Some xs" "set xs = free_blocks g i" using listsD [OF d(4) i(1)] by metis
  have ls: "heap_lists (blocks st) c" using d(4) by (simp add: lists_ok_def)
  have unf: "kmalloc_small sz st =
      bindE (if list_empty i (blocks st) then new_arena i st else Inr st) (\<lambda>st.
      bindE (list_pop i (blocks st)) (\<lambda>(a, h).
      case a of Node block \<Rightarrow>
        (let st = st\<lparr>blocks := h\<rparr>; arena = get_block_arena block; w = arenas st arena in
         kassert (a_magic w = ONIX_MAGIC \<and> a_large w = 0) (
         Inr (block, set_arena arena (w\<lparr>a_count := a_count w - 1\<rparr>) st)))
      | _ \<Rightarrow> Inl OutOfBounds))"
    by (simp only: kmalloc_small_def i_def Let_def)
  show ?thesis
  proof (cases xs)
    case Nil
    then have ne: "list_empty i (blocks st)" using heap_lists_empty [OF ls xs(1)] by simp
    have nil: "c i = Some []" using xs(1) Nil by simp
    from new_arena_cases [OF inv i(1) nil] show ?thesis
    proof (elim disjE exE conjE, goal_cases)
      case (1 a st1)
      have n: "nblocks i = Suc (nblocks i - 1)" using bounds(1) [OF i(1)] by simp
      have "rev (map (block_at i a) [0 ..< nblocks i])
          = block_at i a (nblocks i - 1) # rev (map (block_at i a) [0 ..< nblocks i - 1])"
        by (subst n) simp
      then have c': "(c(i \<mapsto> rev (map (block_at i a) [0 ..< nblocks i]))) i
          = Some (block_at i a (nblocks i - 1) # rev (map (block_at i a) [0 ..< nblocks i - 1]))" by simp
      let ?g = "g\<lparr>small := (small g)(a \<mapsto> i)\<rparr>"
      have none: "(a, k) \<notin> inuse g" for k using d(3) 1 by (auto simp: blocks_ok_def)
      have L': "L q = Some t \<longleftrightarrow> is_alloc ?g q t" for q t
        using L is_alloc_new_page [of a g i q t] none 1 by simp
      from take_sound [OF 1(4) L' _ _ _ _ c'] none n
      show ?case using 1 ne unf i(2) by (auto simp: alloc_spec_def)
    next
      case 2
      have "unat sz \<le> 1024" using sz by (simp add: word_less_nat_alt)
      then have "(unat sz + 4111) div 4096 = 1" by simp
      with 2 show ?case using ne unf by (simp add: alloc_spec_def)
    qed
  next
    case (Cons b ys)
    then have ne: "\<not> list_empty i (blocks st)" using heap_lists_empty [OF ls xs(1)] by simp
    have "b \<in> free_blocks g i" using xs(2) Cons by auto
    then obtain a k where b: "b = block_at i a k" "small g a = Some i" "k < nblocks i" "(a, k) \<notin> inuse g"
      by (auto simp: free_blocks_def)
    from take_sound [OF inv L _ b(2-4)] xs(1) Cons b(1)
    show ?thesis using ne unf i(2) by (auto simp: alloc_spec_def)
  qed
qed

lemma pages_of_large:
  "small g a = None \<Longrightarrow> pages_of (g\<lparr>large := (large g)(a := v)\<rparr>) b
    = (if b = a then (case v of Some n \<Rightarrow> {a ..< a + n} | None \<Rightarrow> {}) else pages_of g b)"
  by (simp add: pages_of_def split: option.split)

lemma free_blocks_large: "free_blocks (g\<lparr>large := l\<rparr>) = free_blocks g"
  by (simp add: free_blocks_def fun_eq_iff)

lemma used_in_large: "used_in (g\<lparr>large := l\<rparr>) = used_in g"
  by (simp add: used_in_def fun_eq_iff)

lemma is_alloc_large:
  assumes "large g a = None"
  shows "is_alloc (g\<lparr>large := (large g)(a \<mapsto> n)\<rparr>) q t
    \<longleftrightarrow> is_alloc g q t \<or> (q = page_at a + ARENA_BYTES \<and> t = 4096 * n - 16)"
proof -
  have "(\<exists>b k. ((large g)(a \<mapsto> n)) b = Some k \<and> q = page_at b + ARENA_BYTES \<and> t = 4096 * k - 16)
    \<longleftrightarrow> (\<exists>b k. large g b = Some k \<and> q = page_at b + ARENA_BYTES \<and> t = 4096 * k - 16)
      \<or> (q = page_at a + ARENA_BYTES \<and> t = 4096 * n - 16)" (is "?l \<longleftrightarrow> ?r")
  proof
    assume ?l
    then obtain b k where "((large g)(a \<mapsto> n)) b = Some k" "q = page_at b + ARENA_BYTES" "t = 4096 * k - 16"
      by blast
    then show ?r by (cases "b = a") auto
  next
    assume ?r
    then consider b k where "large g b = Some k" "q = page_at b + ARENA_BYTES" "t = 4096 * k - 16"
      | "q = page_at a + ARENA_BYTES" "t = 4096 * n - 16" by blast
    then show ?l
    proof cases
      case (1 b k)
      then have "b \<noteq> a" using assms by auto
      then show ?thesis using 1 by (intro exI [of _ b] exI [of _ k]) simp
    next
      case 2
      then show ?thesis by (intro exI [of _ a] exI [of _ n]) simp
    qed
  qed
  then show ?thesis by (simp add: is_alloc_def del: fun_upd_apply)
qed

lemma kmalloc_large_ok:
  assumes "sound_heap st L" and sz: "unat sz + 4111 < 2 ^ 32"
  shows "alloc_spec sz st L (kmalloc_large sz st)"
proof -
  obtain g c where inv: "heap_inv {} g c st" and L: "\<And>q t. L q = Some t \<longleftrightarrow> is_alloc g q t"
    using assms(1) by (auto simp: sound_heap_def)
  have u: "unat (sz + ARENA_BYTES) = unat sz + 16"
    using sz by (subst unat_add_small) (simp_all add: ARENA_BYTES_def)
  have "PAGE_SIZE \<noteq> 0" "unat (sz + ARENA_BYTES) + unat PAGE_SIZE \<le> 2 ^ 32"
    using sz u by (simp_all add: PAGE_SIZE_def)
  from div_round_up_ceil [OF this] obtain count where count: "div_round_up (sz + ARENA_BYTES) PAGE_SIZE = Inr count"
    "unat count = (unat sz + 16 + 4096 - 1) div 4096" using u by (auto simp: PAGE_SIZE_def)
  define n where "n = unat count"
  have n: "0 < n" "unat sz + 16 \<le> 4096 * n" using count(2) unfolding n_def by linarith+
  have "0 < count" using n(1) by (simp add: n_def word_less_nat_alt)
  from alloc_arena_cases [OF inv this] show ?thesis
  proof (elim disjE exE conjE, goal_cases)
    case (1 a st1)
    note d = heap_invD [OF 1(6)]
    note p = pages_okD [OF d(2)]
    have a: "256 \<le> a" "a < 4096" "a + n \<le> 4096" using 1(2,3) n(1) by (auto simp: n_def)
    have "a \<in> {a ..< a + unat count}" using n(1) by (simp add: n_def)
    then have "a \<notin> pages_of g a" using 1(4) by blast
    then have none: "small g a = None" "large g a = None"
      using p(3) [of a] by (auto simp: pages_of_def split: option.splits)
    let ?g = "g\<lparr>large := (large g)(a \<mapsto> n)\<rparr>"
    define st' where "st' = set_arena (page_at a) \<lparr>a_desc = None, a_count = count, a_large = 1, a_magic = ONIX_MAGIC\<rparr> st1"
    have eq: "kmalloc_large sz st = Inr (page_at a + ARENA_BYTES, st')"
      using count(1) 1(1) by (simp add: kmalloc_large_def st'_def)
    have other: "arenas st' (page_at b) = arenas st1 (page_at b)" if "b \<noteq> a" "b < 4096" for b
      using page_at_inject [OF that(2) a(2)] that(1) by (auto simp: st'_def set_arena_def)
    have "headers_ok (arenas st') ?g"
      unfolding headers_ok_def
    proof (intro conjI allI impI)
      fix b i assume s: "small ?g b = Some i"
      then have "small g b = Some i" "b \<noteq> a" using none by auto
      then show "arenas st' (page_at b) = \<lparr>a_desc = Some i,
          a_count = of_nat (nblocks i - card (used_in ?g b)), a_large = 0, a_magic = ONIX_MAGIC\<rparr>"
        using other [of b] p(7) d(5) by (simp add: headers_ok_def used_in_large)
    next
      fix b k assume l: "large ?g b = Some k"
      show "arenas st' (page_at b) = \<lparr>a_desc = None, a_count = of_nat k, a_large = 1, a_magic = ONIX_MAGIC\<rparr>"
      proof (cases "b = a")
        case True
        then show ?thesis using l by (auto simp: st'_def set_arena_def n_def)
      next
        case False
        then have l': "large g b = Some k" using l by simp
        then show ?thesis using other [OF False] p(8) [OF l'] p(3) [OF l'] d(5) by (simp add: headers_ok_def)
      qed
    qed
    moreover have "pages_ok (heap_mem st') ?g"
    proof -
      have m: "heap_mem st' = heap_mem st1" by (simp add: st'_def set_arena_def)
      have "{a ..< a + n} \<subseteq> {256 ..< 4096} \<inter> bm_used (kernel_map (heap_mem st1))" using a 1(5) by (auto simp: n_def)
      moreover have "{a ..< a + n} \<inter> pages_of g b = {}" for b using 1(4) by (simp add: n_def)
      ultimately show ?thesis
        using d(2) none n(1) unfolding pages_ok_def m pages_of_large [OF none(1)] by auto
    qed
    moreover have "lists_ok (blocks st') ?g c" using d(4)
      by (simp add: lists_ok_def free_blocks_large st'_def set_arena_def)
    moreover have "blocks_ok ?g" using d(3) by (simp add: blocks_ok_def used_in_large)
    moreover have "descriptors st' = desc_table" using d(1) by (simp add: st'_def set_arena_def)
    ultimately have inv': "heap_inv {} ?g c st'"
      using inv by (simp add: heap_inv_def used_in_large)
    note sound_heap_add [OF L inv' is_alloc_large [OF none(2)] alloc_in_fresh [OF d(2,3) a(2) none]]
    moreover have "unat sz \<le> 4096 * n - 16" using n(2) by simp
    ultimately show ?case unfolding eq alloc_spec_def sum.case prod.case by blast
  next
    case 2
    then show ?case using count by (simp add: kmalloc_large_def alloc_spec_def add.commute)
  qed
qed

section \<open>Taking a block back\<close>

lemma give_inv:
  assumes inv: "heap_inv {} g c st" and s: "small g a = Some i" and u: "(a, k) \<in> inuse g" and c: "c i = Some xs"
  shows "\<exists>h. list_push i (Node (block_at i a k)) (blocks st) = Inr h \<and>
    heap_inv {a} (g\<lparr>inuse := inuse g - {(a, k)}\<rparr>) (c(i \<mapsto> block_at i a k # xs))
      (set_arena (page_at a) ((arenas st (page_at a))\<lparr>a_count := a_count (arenas st (page_at a)) + 1\<rparr>) (st\<lparr>blocks := h\<rparr>))"
proof -
  note d = heap_invD [OF inv]
  let ?g = "g\<lparr>inuse := inuse g - {(a, k)}\<rparr>" and ?w = "small_header g a i"
  have k: "k \<in> used_in g a" "k < nblocks i" using u used_in_small(4) [OF d(3) s] by (auto simp: used_in_def)
  have i: "i < 7" and a: "a < 4096" using used_in_small(1) [OF d(3) s] pages_okD(7) [OF d(2) s] by auto
  have "heap_lists (blocks st) c" using d(4) by (simp add: lists_ok_def)
  from heap_lists_push [OF this c inuse_unlinked [OF d(2,3,4) s k(2) u]] obtain h where h:
    "list_push i (Node (block_at i a k)) (blocks st) = Inr h" "heap_lists h (c(i \<mapsto> block_at i a k # xs))" by blast
  have w: "arenas st (page_at a) = ?w" using d(5) s by (simp add: headers_ok_def small_header_def)
  have used: "used_in ?g b = (if b = a then used_in g a - {k} else used_in g b)" for b
    by (auto simp: used_in_def)
  have "card (used_in g a) = Suc (card (used_in ?g a))"
    using k(1) used_in_small(2) [OF d(3) s] by (simp add: used card_Suc_Diff1 del: card_Diff_insert)
  then have "nblocks i - card (used_in ?g a) = Suc (nblocks i - card (used_in g a))"
    using used_in_small(3) [OF d(3) s] by simp
  then have w': "?w\<lparr>a_count := a_count ?w + 1\<rparr> = small_header ?g a i" by (simp add: small_header_def add.commute)
  define st' where "st' = set_arena (page_at a) (small_header ?g a i) (st\<lparr>blocks := h\<rparr>)"
  have "headers_ok (arenas st') ?g"
    unfolding st'_def
    by (rule headers_ok_write [OF d(2) _ a pages_okD(2) [OF d(2) s] refl])
       (use d(5) s in \<open>auto simp: used fun_upd_idem\<close>)
  moreover have pg: "pages_of ?g b = pages_of g b" for b by (simp add: pages_of_def split: option.split)
  have p': "pages_ok (heap_mem st') ?g"
    using d(2) by (simp add: pages_ok_def pg st'_def set_arena_def)
  moreover have b': "blocks_ok ?g" using d(3) s k(2) by (auto simp: blocks_ok_def used)
  moreover have "lists_ok (blocks st') ?g (c(i \<mapsto> block_at i a k # xs))"
  proof -
    have g: "?g\<lparr>inuse := insert (a, k) (inuse ?g)\<rparr> = g" using u by (simp add: insert_absorb)
    have s': "small ?g a = Some i" using s by simp
    have take: "free_blocks g j = free_blocks ?g j - {block_at i a k}" if "j < 7" for j
      using free_blocks_take [OF p' b' s' k(2) that] g by simp
    have "free_blocks ?g j = free_blocks g j" if "j < 7" "j \<noteq> i" for j
    proof -
      have "block_at i a k \<notin> free_blocks ?g j"
      proof
        assume "block_at i a k \<in> free_blocks ?g j"
        then obtain a' k' where x: "block_at i a k = block_at j a' k'" "small g a' = Some j" "k' < nblocks j"
          by (auto simp: free_blocks_def)
        have "a' < 4096" using pages_okD(7) [OF d(2) x(2)] by simp
        then have "a = a'" by (rule block_at_inject(1) [OF i k(2) a that(1) x(3) _ x(1)])
        then show False using x(2) s that(2) by simp
      qed
      then show ?thesis using take [OF that(1)] by simp
    qed
    moreover have "block_at i a k \<in> free_blocks ?g i" using s k(2) by (auto simp: free_blocks_def)
    then have "free_blocks ?g i = insert (block_at i a k) (free_blocks g i)" using take [OF i] by auto
    ultimately show ?thesis
      using d(4) h(2) i c by (auto simp: lists_ok_def st'_def set_arena_def split: if_splits)
  qed
  moreover have "used_in ?g b \<noteq> {}" if "small ?g b = Some j" "b \<notin> {a}" for b j
    using d(6) [of b j] that by (simp add: used)
  ultimately have "heap_inv {a} ?g (c(i \<mapsto> block_at i a k # xs)) st'"
    using d(1) unfolding heap_inv_def by (simp add: st'_def set_arena_def)
  then show ?thesis using h(1) w w' by (auto simp: st'_def)
qed

lemma free_blocks_drop:
  assumes p: "pages_ok m g" and b: "blocks_ok g" and s: "small g a = Some i" and e: "used_in g a = {}" and j: "j < 7"
  shows "free_blocks (g\<lparr>small := (small g)(a := None)\<rparr>) j
    = (if j = i then free_blocks g j - block_at i a ` {0 ..< nblocks i} else free_blocks g j)"
proof -
  let ?g = "g\<lparr>small := (small g)(a := None)\<rparr>"
  have g: "?g\<lparr>small := (small ?g)(a \<mapsto> i)\<rparr> = g" using s by (simp add: fun_upd_idem)
  have "(a, k) \<notin> inuse ?g" for k using e by (auto simp: used_in_def)
  then have new: "free_blocks g j = free_blocks ?g j \<union> (if j = i then block_at i a ` {..< nblocks i} else {})"
    using free_blocks_new [of ?g a i j] g by simp
  have i: "i < 7" and a: "a < 4096" using used_in_small(1) [OF b s] pages_okD(7) [OF p s] by auto
  have "block_at i a k \<notin> free_blocks ?g i" if k: "k < nblocks i" for k
  proof
    assume "block_at i a k \<in> free_blocks ?g i"
    then obtain a' k' where x: "block_at i a k = block_at i a' k'" "((small g)(a := None)) a' = Some i" "k' < nblocks i"
      by (auto simp: free_blocks_def simp del: fun_upd_apply)
    then have "small g a' = Some i" "a' \<noteq> a" by (auto split: if_splits)
    moreover have "a' < 4096" using pages_okD(7) [OF p calculation(1)] by simp
    ultimately show False using block_at_inject(1) [OF i k a i x(3) _ x(1)] by simp
  qed
  then show ?thesis using new by (auto simp: atLeast0LessThan)
qed

lemma drop_inv:
  assumes inv: "heap_inv {a} g c st" and s: "small g a = Some i" and e: "used_in g a = {}" and c: "c i = Some xs"
  shows "\<exists>st' c'. bindE (foldE (drop_block (page_at a)) [0 ..< nblocks i] st) (\<lambda>st.
      bindE (free_kpage (page_at a) 1 (heap_mem st)) (\<lambda>m. Inr (st\<lparr>heap_mem := m\<rparr>))) = Inr st'
    \<and> heap_inv {} (g\<lparr>small := (small g)(a := None)\<rparr>) c' st'"
proof -
  note d = heap_invD [OF inv]
  let ?g = "g\<lparr>small := (small g)(a := None)\<rparr>"
  let ?ys = "filter (\<lambda>b. b \<notin> block_at i a ` set [0 ..< nblocks i]) xs"
  have i: "i < 7" and a: "256 \<le> a" "a < 4096" using used_in_small(1) [OF d(3) s] pages_okD(7) [OF d(2) s] by auto
  have xs: "set xs = free_blocks g i" using listsD [OF d(4) i] c by auto
  have "block_at i a k \<in> free_blocks g i" if "k < nblocks i" for k
    using s e that by (auto simp: free_blocks_def used_in_def)
  then have ks: "\<forall>k \<in> set [0 ..< nblocks i]. k < nblocks i \<and> block_at i a k \<in> set xs" using xs by simp
  have ad: "a_desc (arenas st (page_at a)) = Some i" using d(5) s by (simp add: headers_ok_def)
  have "heap_lists (blocks st) c" using d(4) by (simp add: lists_ok_def)
  from drop_loop [OF d(1) ad i a(2) this c ks] obtain h where h:
    "foldE (drop_block (page_at a)) [0 ..< nblocks i] st = Inr (st\<lparr>blocks := h\<rparr>)"
    "heap_lists h (c(i \<mapsto> ?ys))" by auto
  have pa: "pages_of g a = {a}" using s by (simp add: pages_of_def)
  have "{a ..< a + unat (1::u32)} \<subseteq> bm_used (kernel_map (heap_mem st))"
    using pages_okD(5) [OF d(2), of a] pa by simp
  from free_kpage_run(1) [OF pages_okD(1) [OF d(2)] a(1) _ _ this] a(2) obtain km where km:
    "free_kpage (page_at a) 1 (heap_mem st) = Inr (heap_mem st\<lparr>kernel_map := km\<rparr>)"
    "kernel_inv (heap_mem st\<lparr>kernel_map := km\<rparr>)" "bm_used km = bm_used (kernel_map (heap_mem st)) - {a}"
    by (auto simp: page_at_def)
  define st' where "st' = st\<lparr>blocks := h, heap_mem := heap_mem st\<lparr>kernel_map := km\<rparr>\<rparr>"
  have pg: "pages_of ?g b = (if b = a then {} else pages_of g b)" for b
    using pages_okD(2) [OF d(2) s] by (auto simp: pages_of_def split: option.split)
  have "pages_ok (heap_mem st') ?g"
  proof -
    have dis: "a \<notin> pages_of g b" if "b \<noteq> a" for b using pages_okD(6) [OF d(2) that] pa by auto
    show ?thesis unfolding pages_ok_def pg using d(2) km(2,3) dis
      by (auto simp: pages_ok_def st'_def)
  qed
  moreover have used: "used_in ?g b = used_in g b" for b by (simp add: used_in_def)
  have "blocks_ok ?g"
    using d(3) e by (auto simp: blocks_ok_def used) (auto simp: used_in_def)
  moreover have "headers_ok (arenas st') ?g"
    using d(5) by (simp add: headers_ok_def used st'_def)
  moreover have "lists_ok (blocks st') ?g (c(i \<mapsto> ?ys))"
    using d(4) h(2) i xs free_blocks_drop [OF d(2,3) s e]
    by (auto simp: lists_ok_def st'_def split: if_splits)
  moreover have "used_in ?g b \<noteq> {}" if "small ?g b = Some j" for b j
    using d(6) [of b j] that by (auto simp: used split: if_splits)
  moreover have "descriptors st' = desc_table" using d(1) by (simp add: st'_def)
  ultimately have "heap_inv {} ?g (c(i \<mapsto> ?ys)) st'"
    unfolding heap_inv_def by blast
  moreover have "bindE (foldE (drop_block (page_at a)) [0 ..< nblocks i] st) (\<lambda>st.
      bindE (free_kpage (page_at a) 1 (heap_mem st)) (\<lambda>m. Inr (st\<lparr>heap_mem := m\<rparr>))) = Inr st'"
    using h(1) km(1) by (simp add: st'_def)
  ultimately show ?thesis by blast
qed

lemma sound_heap_remove:
  assumes L: "\<And>q t. L q = Some t \<longleftrightarrow> is_alloc g q t" and inv: "heap_inv {} g' c st"
    and g': "\<And>q t. is_alloc g q t \<longleftrightarrow> is_alloc g' q t \<or> (q = p \<and> t = s)" and gone: "\<And>t. \<not> is_alloc g' p t"
  shows "sound_heap st (L(p := None))"
proof -
  have "(L(p := None)) q = Some t \<longleftrightarrow> is_alloc g' q t" for q t
    using L [of q t] g' [of q t] gone [of t] by auto
  then show ?thesis using inv unfolding sound_heap_def by blast
qed

lemma count_full:
  assumes "blocks_ok g" and "small g a = Some i"
  shows "a_count (small_header g a i) = of_nat (nblocks i) \<longleftrightarrow> used_in g a = {}"
proof -
  note u = used_in_small [OF assms]
  have n: "0 < nblocks i" "nblocks i < 2 ^ 32" using bounds(1,2) [OF u(1)] by auto
  have "a_count (small_header g a i) = of_nat (nblocks i)
      \<longleftrightarrow> unat (of_nat (nblocks i - card (used_in g a)) :: u32) = unat (of_nat (nblocks i) :: u32)"
    by (simp add: small_header_def word_unat_eq_iff)
  also have "\<dots> \<longleftrightarrow> nblocks i - card (used_in g a) = nblocks i"
    using n(2) by (simp add: unat_of_nat_small)
  also have "\<dots> \<longleftrightarrow> card (used_in g a) = 0" using n(1) u(3) by linarith
  also have "\<dots> \<longleftrightarrow> used_in g a = {}" using u(2) by simp
  finally show ?thesis .
qed

lemma kfree_small_ok:
  assumes inv: "heap_inv {} g c st" and L: "\<And>q t. L q = Some t \<longleftrightarrow> is_alloc g q t"
    and s: "small g a = Some i" and u: "(a, k) \<in> inuse g"
  shows "\<exists>st'. kfree (block_at i a k) st = Inr st' \<and> sound_heap st' (L(block_at i a k := None))"
proof -
  note d = heap_invD [OF inv]
  let ?p = "block_at i a k" and ?g = "g\<lparr>inuse := inuse g - {(a, k)}\<rparr>" and ?w = "arenas st (page_at a)"
  have k: "k < nblocks i" using u used_in_small(4) [OF d(3) s] by (auto simp: used_in_def)
  have i: "i < 7" and a: "a < 4096" using used_in_small(1) [OF d(3) s] pages_okD(7) [OF d(2) s] by auto
  obtain xs where c: "c i = Some xs" using listsD [OF d(4) i] by metis
  from give_inv [OF inv s u c] obtain h where h: "list_push i (Node ?p) (blocks st) = Inr h"
    "heap_inv {a} ?g (c(i \<mapsto> ?p # xs)) (set_arena (page_at a) (?w\<lparr>a_count := a_count ?w + 1\<rparr>) (st\<lparr>blocks := h\<rparr>))"
    by blast
  define st1 where "st1 = set_arena (page_at a) (?w\<lparr>a_count := a_count ?w + 1\<rparr>) (st\<lparr>blocks := h\<rparr>)"
  note inv1 = h(2) [folded st1_def]
  note d1 = heap_invD [OF inv1]
  have s1: "small ?g a = Some i" using s by simp
  have w: "?w = small_header g a i" using d(5) s by (simp add: headers_ok_def small_header_def)
  have w1: "arenas st1 (page_at a) = small_header ?g a i" using d1(5) s1 by (simp add: headers_ok_def small_header_def)
  have nz: "?p \<noteq> 0" using unat_block_at [OF i k a] by auto
  have ad: "arena_desc (page_at a) st = Inr (i, desc_table ! i)"
    using d(1) i w by (simp add: arena_desc_def desc_table_def small_header_def)
  have unf: "kfree ?p st = (if used_in ?g a = {} then
      bindE (foldE (drop_block (page_at a)) [0 ..< nblocks i] st1) (\<lambda>st.
        bindE (free_kpage (page_at a) 1 (heap_mem st)) (\<lambda>m. Inr (st\<lparr>heap_mem := m\<rparr>))) else Inr st1)"
    using nz get_block_arena_block [OF i k a] w w1 ad h(1) bounds(6,7) [OF i] count_full [OF d1(3) s1]
    by (simp add: kfree_def small_header_def st1_def Let_def)
  have take: "is_alloc g q t \<longleftrightarrow> is_alloc ?g q t \<or> (q = ?p \<and> t = bsize i)" for q t
    using is_alloc_take [OF s1, of k q t] u by (simp add: insert_absorb)
  have gone: "\<not> is_alloc ?g ?p t" for t using alloc_in_small [OF d1(2,3) s1 k, of t] by auto
  show ?thesis
  proof (cases "used_in ?g a = {}")
    case True
    let ?g' = "?g\<lparr>small := (small ?g)(a := None)\<rparr>"
    from drop_inv [OF inv1 s1 True] obtain st' c' where st':
      "bindE (foldE (drop_block (page_at a)) [0 ..< nblocks i] st1) (\<lambda>st.
        bindE (free_kpage (page_at a) 1 (heap_mem st)) (\<lambda>m. Inr (st\<lparr>heap_mem := m\<rparr>))) = Inr st'"
      "heap_inv {} ?g' c' st'" by auto
    have none: "(a, l) \<notin> inuse ?g'" for l using True by (auto simp: used_in_def)
    have "?g'\<lparr>small := (small ?g')(a \<mapsto> i)\<rparr> = ?g" using s by (simp add: fun_upd_idem)
    then have same: "is_alloc ?g q t \<longleftrightarrow> is_alloc ?g' q t" for q t
      using is_alloc_new_page [of a ?g' i q t] none by simp
    have take': "is_alloc g q t \<longleftrightarrow> is_alloc ?g' q t \<or> (q = ?p \<and> t = bsize i)" for q t
      using take [of q t] same [of q t] by blast
    have "\<not> is_alloc ?g' ?p t" for t using gone [of t] same by blast
    from sound_heap_remove [OF L st'(2) take' this] show ?thesis using unf True st'(1) by simp
  next
    case False
    have "heap_inv {} ?g (c(i \<mapsto> ?p # xs)) st1"
      using inv1 False by (auto simp: heap_inv_def)
    from sound_heap_remove [OF L this take gone] show ?thesis using unf False by simp
  qed
qed

lemma kfree_large_ok:
  assumes inv: "heap_inv {} g c st" and L: "\<And>q t. L q = Some t \<longleftrightarrow> is_alloc g q t"
    and l: "large g a = Some n"
  shows "\<exists>st'. kfree (page_at a + ARENA_BYTES) st = Inr st' \<and> sound_heap st' (L(page_at a + ARENA_BYTES := None))"
proof -
  note d = heap_invD [OF inv]
  let ?g = "g\<lparr>large := (large g)(a := None)\<rparr>" and ?p = "page_at a + ARENA_BYTES"
  have n: "0 < n" "256 \<le> a" "a + n \<le> 4096" "small g a = None" using pages_okD(3,8) [OF d(2) l] by auto
  then have a: "a < 4096" by simp
  have un: "unat (of_nat n :: u32) = n" using n by (intro unat_of_nat_small) simp
  have w: "arenas st (page_at a) = \<lparr>a_desc = None, a_count = of_nat n, a_large = 1, a_magic = ONIX_MAGIC\<rparr>"
    using d(5) l by (simp add: headers_ok_def)
  have pa: "pages_of g a = {a ..< a + n}" using n(4) l by (simp add: pages_of_def)
  have sub: "{a ..< a + unat (of_nat n :: u32)} \<subseteq> bm_used (kernel_map (heap_mem st))"
    using pages_okD(5) [OF d(2), of a] pa un by simp
  have le: "a + unat (of_nat n :: u32) \<le> 4096" using n(3) un by simp
  have "(0::u32) < of_nat n" using n(1) un by (simp add: word_less_nat_alt)
  from free_kpage_run(1) [OF pages_okD(1) [OF d(2)] n(2) le this sub] obtain km where km:
    "free_kpage (page_at a) (of_nat n) (heap_mem st) = Inr (heap_mem st\<lparr>kernel_map := km\<rparr>)"
    "kernel_inv (heap_mem st\<lparr>kernel_map := km\<rparr>)"
    "bm_used km = bm_used (kernel_map (heap_mem st)) - {a ..< a + n}"
    unfolding un by (auto simp: page_at_def)
  define st' where "st' = st\<lparr>heap_mem := heap_mem st\<lparr>kernel_map := km\<rparr>\<rparr>"
  have "?p \<noteq> 0" using get_block_arena_large(2) [OF a] by auto
  then have eq: "kfree ?p st = Inr st'"
    using get_block_arena_large(1) [OF a] w km(1) by (simp add: kfree_def st'_def Let_def)
  have "pages_ok (heap_mem st') ?g"
  proof -
    have dis: "{a ..< a + n} \<inter> pages_of g b = {}" if "b \<noteq> a" for b using pages_okD(6) [OF d(2) that] pa by auto
    show ?thesis unfolding pages_ok_def pages_of_large [OF n(4)] using d(2) km(2,3) dis
      by (auto simp: pages_ok_def st'_def)
  qed
  moreover have "lists_ok (blocks st') ?g c" using d(4) by (simp add: lists_ok_def free_blocks_large st'_def)
  moreover have "blocks_ok ?g" using d(3) by (simp add: blocks_ok_def used_in_large)
  moreover have "headers_ok (arenas st') ?g" using d(5) by (simp add: headers_ok_def used_in_large st'_def)
  moreover have "descriptors st' = desc_table" using d(1) by (simp add: st'_def)
  ultimately have inv': "heap_inv {} ?g c st'" using inv by (simp add: heap_inv_def used_in_large)
  have "?g\<lparr>large := (large ?g)(a \<mapsto> n)\<rparr> = g" using l by (simp add: fun_upd_idem)
  then have take: "is_alloc g q t \<longleftrightarrow> is_alloc ?g q t \<or> (q = ?p \<and> t = 4096 * n - 16)" for q t
    using is_alloc_large [of ?g a n q t] by simp
  have gone: "\<not> is_alloc ?g ?p t" for t
    using heap_invD(2,3) [OF inv'] a n(4) by (intro alloc_in_fresh) auto
  from sound_heap_remove [OF L inv' take gone] show ?thesis using eq by simp
qed

text \<open>An allocator: what it hands out overlaps nothing in use and is large enough; what is in use can
  be given back, and only that leaves the set of blocks in use.\<close>

locale heap_allocator =
  fixes sound :: "'s \<Rightarrow> (u32 \<Rightarrow> nat option) \<Rightarrow> bool"
    and alloc :: "u32 \<Rightarrow> 's \<Rightarrow> (u32 \<times> 's) res" and free :: "u32 \<Rightarrow> 's \<Rightarrow> 's res"
    and fits :: "u32 \<Rightarrow> bool"
  assumes alloc_law: "sound st L \<Longrightarrow> fits sz \<Longrightarrow> alloc sz st = Inr (p, st') \<Longrightarrow>
      \<exists>s. unat sz \<le> s \<and> sound st' (L(p \<mapsto> s))
        \<and> (\<forall>q t. L q = Some t \<longrightarrow> {unat p ..< unat p + s} \<inter> {unat q ..< unat q + t} = {})"
    and free_law: "sound st L \<Longrightarrow> L p = Some s \<Longrightarrow> \<exists>st'. free p st = Inr st' \<and> sound st' (L(p := None))"
    and size_law: "sound st L \<Longrightarrow> L p = Some s \<Longrightarrow> 0 < s"
begin

lemma alloc_new: "sound st L \<Longrightarrow> fits sz \<Longrightarrow> alloc sz st = Inr (p, st') \<Longrightarrow> L p = None"
proof (rule ccontr)
  assume a: "sound st L" "fits sz" "alloc sz st = Inr (p, st')" and "L p \<noteq> None"
  then obtain t where t: "L p = Some t" by auto
  obtain s where s: "sound st' (L(p \<mapsto> s))" "{unat p ..< unat p + s} \<inter> {unat p ..< unat p + t} = {}"
    using alloc_law [OF a] t by blast
  have "0 < t" "0 < s" using size_law [OF a(1) t] size_law [OF s(1), of p s] by simp_all
  then show False using s(2) by auto
qed

lemma alloc_free:
  assumes "sound st L" and "fits sz" and "alloc sz st = Inr (p, st')"
  shows "\<exists>st''. free p st' = Inr st'' \<and> sound st'' L"
proof -
  obtain s where s: "sound st' (L(p \<mapsto> s))" using alloc_law [OF assms] by blast
  moreover have "(L(p \<mapsto> s))(p := None) = L" using alloc_new [OF assms] by (simp add: fun_upd_idem)
  ultimately show ?thesis using free_law [OF s, of p s] by simp
qed

end

lemma kmalloc_ok:
  assumes "sound_heap st L" and "unat sz + 4111 < 2 ^ 32"
  shows "alloc_spec sz st L (kmalloc sz st)"
  using kmalloc_small_ok [OF assms(1)] kmalloc_large_ok [OF assms] by (simp add: kmalloc_def)

lemma kfree_alloc_ok:
  assumes "sound_heap st L" and "L p = Some s"
  shows "\<exists>st'. kfree p st = Inr st' \<and> sound_heap st' (L(p := None))"
proof -
  obtain g c where inv: "heap_inv {} g c st" and L: "\<And>q t. L q = Some t \<longleftrightarrow> is_alloc g q t"
    using assms(1) by (auto simp: sound_heap_def)
  have "is_alloc g p s" using L assms(2) by simp
  then show ?thesis
  proof (cases rule: is_alloc_cases)
    case (small a k i)
    then show ?thesis using kfree_small_ok [OF inv L] by simp
  next
    case (large a n)
    then show ?thesis using kfree_large_ok [OF inv L] by simp
  qed
qed

interpretation ha: heap_allocator sound_heap kmalloc kfree "\<lambda>sz. unat sz + 4111 < 2 ^ 32"
proof (unfold_locales, goal_cases)
  case (1 st L sz p st')
  have "alloc_spec sz st L (Inr (p, st'))" using kmalloc_ok [OF 1(1,2)] unfolding 1(3) .
  then show ?case by (simp only: alloc_spec_def sum.case prod.case)
next
  case (2 st L p s)
  then show ?case by (rule kfree_alloc_ok)
next
  case (3 st L p s)
  then obtain g c where "heap_inv {} g c st" "is_alloc g p s" by (auto simp: sound_heap_def)
  then show ?case using alloc_size_pos heap_invD(2,3) by blast
qed

section \<open>The empty heap\<close>

lemma is_list_init: "is_list (list_init j h) i [] \<longleftrightarrow> i = j \<or> is_list h i []"
  by (auto simp: list_init_def is_list_def cells_def set_prev_def set_next_def)

lemma is_list_fold_init: "i \<in> set js \<Longrightarrow> is_list (fold list_init js h) i []"
  by (induction js rule: rev_induct) (auto simp: is_list_init)

lemma arena_init_eq:
  assumes "length (descriptors st) = 7"
  shows "arena_init st = Inr (st\<lparr>descriptors := desc_table, blocks := fold list_init [0 ..< 7] (blocks st)\<rparr>)"
proof -
  obtain a b c d e f g where ds: "descriptors st = [a, b, c, d, e, f, g]"
    using assms by (auto simp: length_Suc_conv eval_nat_numeral)
  show ?thesis
    by (simp add: arena_init_def init_desc_def DESC_COUNT_def upt_rec ds desc_table_def nblocks_def bsize_def
        PAGE_SIZE_def ARENA_BYTES_def push_bit_eq_mult)
qed

text \<open>A size near \<open>2 ^ 32\<close> wraps around when the header is added: the request is served with one page.\<close>

lemma kmalloc_wraps: "kmalloc 0xFFFFFFFF st = kmalloc 4000 st"
  by (simp add: kmalloc_def kmalloc_large_def div_round_up_def ARENA_BYTES_def PAGE_SIZE_def)

lemma arena_init_sound:
  assumes "kernel_inv (heap_mem st)" and "length (descriptors st) = 7"
  shows "\<exists>st'. arena_init st = Inr st' \<and> sound_heap st' Map.empty \<and> heap_mem st' = heap_mem st"
proof -
  define h where "h = fold list_init [0 ..< 7] (blocks st)"
  have h: "arena_init st = Inr (st\<lparr>descriptors := desc_table, blocks := h\<rparr>)" "\<forall>i < 7. is_list h i []"
    using arena_init_eq [OF assms(2)] by (auto simp: h_def intro!: is_list_fold_init)
  let ?g = "\<lparr>small = Map.empty, large = Map.empty, inuse = {}\<rparr>" and ?c = "\<lambda>i. if i < 7 then Some [] else None :: u32 list option"
  have "heap_lists h ?c" using h(2) by (auto simp: heap_lists_def disjoint_lists_def split: if_splits)
  then have "heap_inv {} ?g ?c (st\<lparr>descriptors := desc_table, blocks := h\<rparr>)"
    using assms(1) by (auto simp: heap_inv_def pages_ok_def pages_of_def blocks_ok_def lists_ok_def
        free_blocks_def headers_ok_def split: if_splits)
  moreover have "\<not> is_alloc ?g p s" for p s by (simp add: is_alloc_def)
  ultimately show ?thesis using h(1) unfolding sound_heap_def by (auto intro!: exI)
qed

definition example_arena :: arena_state where
  "example_arena = \<lparr>heap_mem = example_mem, descriptors = replicate 7 \<lparr>total_block = 0, block_size = 0\<rparr>,
     arenas = (\<lambda>_. \<lparr>a_desc = None, a_count = 0, a_large = 0, a_magic = 0\<rparr>),
     blocks = (\<lambda>_. \<lparr>node_prev = None, node_next = None\<rparr>)\<rparr>"

lemma example_arena_sound:
  obtains st where "arena_init example_arena = Inr st" "sound_heap st Map.empty"
    "bm_run (kernel_map (heap_mem st)) 256 1"
proof -
  have "kernel_inv (heap_mem example_arena)"
    by (simp add: example_arena_def kernel_inv_def example_mem_def bitmap_make_def bm_inv_def bm_univ_def bm_first_def bm_size_def)
  then obtain st where "arena_init example_arena = Inr st" "sound_heap st Map.empty" "heap_mem st = example_mem"
    using arena_init_sound [of example_arena] by (auto simp: example_arena_def)
  moreover have "bm_run (kernel_map example_mem) 256 1"
    by (auto simp: bm_run_def bm_used_def bm_first_def bm_size_def bm_bit_def example_mem_def bitmap_make_def)
  ultimately show ?thesis using that by simp
qed

section \<open>Properties\<close>



text \<open>C25. Giving back any block in use succeeds and takes exactly that block out of the blocks in use,
  leaving the heap sound; no block in use is the null pointer, and freeing that fails.\<close>

theorem kfree_exact:
  assumes "sound_heap st L" and "L p = Some s"
  shows "(\<exists>st'. kfree p st = Inr st' \<and> sound_heap st' (L(p := None))) \<and> kfree 0 st = Inl Assertion"
  using ha.free_law [OF assms] by (simp add: kfree_def)

theorem kfree_exact_witness:
  "\<exists>st p st' st''. arena_init example_arena = Inr st \<and> kmalloc 100 st = Inr (p, st')
     \<and> kfree p st' = Inr st'' \<and> sound_heap st'' Map.empty"
proof -
  obtain st where st: "arena_init example_arena = Inr st" "sound_heap st Map.empty"
    "bm_run (kernel_map (heap_mem st)) 256 1" by (rule example_arena_sound)
  have sz: "unat (100 :: u32) + 4111 < 2 ^ 32" by simp
  have "alloc_spec 100 st Map.empty (kmalloc 100 st)" by (rule kmalloc_ok [OF st(2) sz])
  then obtain p st' s where a: "kmalloc 100 st = Inr (p, st')" "sound_heap st' [p \<mapsto> s]"
    using st(3) by (auto simp: alloc_spec_def split: sum.splits)
  have p: "([p \<mapsto> s] :: u32 \<Rightarrow> nat option) p = Some s" "[p \<mapsto> s](p := None) = (Map.empty :: u32 \<Rightarrow> nat option)"
    by (simp_all add: fun_eq_iff)
  from kfree_exact [OF a(2) p(1)] p(2) obtain st'' where "kfree p st' = Inr st''" "sound_heap st'' Map.empty"
    by (auto simp del: fun_upd_apply)
  then show ?thesis using st(1) a(1) by blast
qed

end
