(* ===== verification/Device.thy ===== *)
theory Device
  imports Sched Heap Cstring
begin

text \<open>
  Devices and the request queue of block devices (\<^verbatim>\<open>kernel/device.c\<close>). The device table is a list of
  64 entries; the driver's functions stored in an entry act on the part \<open>'w\<close> of the world that the
  drivers own (ports, disks, buffers) and are whatever \<^verbatim>\<open>device_install\<close> was given.
  A request is a block of the kernel heap, named by its address; its list node is \<open>Node r\<close> of
  \<open>req_nodes\<close>, where the queue of device \<open>d\<close> is the list \<open>d\<close>. The node of a request that is in no
  queue is \<^verbatim>\<open>NULL\<close>: pages of the heap are cleared before blocks are cut from them, requests are
  the only blocks of their size, and taking a node off a list clears it.
  \<^verbatim>\<open>device_request\<close> gives the processor away when the queue is not empty, so it is the two
  halves \<open>request_enter\<close>, up to the block, and \<open>request_finish\<close>, from there on.
\<close>

section \<open>The device table\<close>

definition DEVICE_NR :: u32 where "DEVICE_NR = 64"
definition DEV_NULL :: u32 where "DEV_NULL = 0"
definition DEV_CHAR :: u32 where "DEV_CHAR = 1"
definition DEV_BLOCK :: u32 where "DEV_BLOCK = 2"
definition DEV_IDE_DISK :: u32 where "DEV_IDE_DISK = 3"
definition DEV_IDE_PART :: u32 where "DEV_IDE_PART = 4"
definition DEV_CONSOLE :: u32 where "DEV_CONSOLE = 1"
definition DEV_KEYBOARD :: u32 where "DEV_KEYBOARD = 2"
definition DEV_CMD_SECTOR_START :: u32 where "DEV_CMD_SECTOR_START = 1"
definition DEV_CMD_SECTOR_COUNT :: u32 where "DEV_CMD_SECTOR_COUNT = 2"
definition REQ_READ :: u32 where "REQ_READ = 0"
definition REQ_WRITE :: u32 where "REQ_WRITE = 1"
definition NAMELEN :: u32 where "NAMELEN = 16"

datatype direct_t = DIRECT_UP | DIRECT_DOWN

text \<open>The arguments are the device's pointer, then a command, its argument and flags; or a buffer, a
  count, an index and flags.\<close>

type_synonym 'w ioctl_t = "u32 \<Rightarrow> u32 \<Rightarrow> u32 \<Rightarrow> u32 \<Rightarrow> 'w \<Rightarrow> (u32 \<times> 'w) res"
type_synonym 'w transfer_t = "u32 \<Rightarrow> u32 \<Rightarrow> u32 \<Rightarrow> u32 \<Rightarrow> u32 \<Rightarrow> 'w \<Rightarrow> (u32 \<times> 'w) res"

record 'w device_t =
  d_name :: "u8 list"
  d_type :: u32
  d_subtype :: u32
  d_dev :: u32
  d_parent :: u32
  d_ptr :: u32
  d_direct :: direct_t
  d_ioctl :: "'w ioctl_t option"
  d_read :: "'w transfer_t option"
  d_write :: "'w transfer_t option"

record request_t =
  r_dev :: u32
  r_type :: u32
  r_idx :: u32
  r_count :: u32
  r_flags :: u32
  r_buf :: u32
  r_task :: "u32 option"

record 'w dev_state = kernel_t +
  devices :: "'w device_t list"
  requests :: "u32 \<Rightarrow> request_t"
  req_nodes :: "(nat, u32) heap"
  kheap :: arena_state
  world :: 'w

definition get_null_device :: "('w, 'a) dev_state_scheme \<Rightarrow> nat res" where
  "get_null_device st =
     (case find (\<lambda>i. d_type (devices st ! i) = DEV_NULL) [1 ..< 64] of
        Some i \<Rightarrow> Inr i | None \<Rightarrow> Inl (Panic ''no more devices!!!''))"

text \<open>A device number is a signed integer, compared with the size of the table only.\<close>

definition device_get :: "u32 \<Rightarrow> ('w, 'a) dev_state_scheme \<Rightarrow> nat res" where
  "device_get dev st =
     kassert (dev <s DEVICE_NR) (
     bindE (rd (devices st) (unat dev)) (\<lambda>d.
     kassert (d_type d \<noteq> DEV_NULL) (Inr (unat dev))))"

definition device_ioctl ::
  "u32 \<Rightarrow> u32 \<Rightarrow> u32 \<Rightarrow> u32 \<Rightarrow> ('w, 'a) dev_state_scheme \<Rightarrow> (u32 \<times> ('w, 'a) dev_state_scheme) res" where
  "device_ioctl dev cmd args flags st =
     bindE (device_get dev st) (\<lambda>d.
     case d_ioctl (devices st ! d) of
       Some f \<Rightarrow> bindE (f (d_ptr (devices st ! d)) cmd args flags (world st)) (\<lambda>(v, w). Inr (v, st\<lparr>world := w\<rparr>))
     | None \<Rightarrow> Inr (EOF, st))"

definition device_read ::
  "u32 \<Rightarrow> u32 \<Rightarrow> u32 \<Rightarrow> u32 \<Rightarrow> u32 \<Rightarrow> ('w, 'a) dev_state_scheme \<Rightarrow> (u32 \<times> ('w, 'a) dev_state_scheme) res" where
  "device_read dev buf count idx flags st =
     bindE (device_get dev st) (\<lambda>d.
     case d_read (devices st ! d) of
       Some f \<Rightarrow> bindE (f (d_ptr (devices st ! d)) buf count idx flags (world st)) (\<lambda>(v, w). Inr (v, st\<lparr>world := w\<rparr>))
     | None \<Rightarrow> Inr (EOF, st))"

definition device_write ::
  "u32 \<Rightarrow> u32 \<Rightarrow> u32 \<Rightarrow> u32 \<Rightarrow> u32 \<Rightarrow> ('w, 'a) dev_state_scheme \<Rightarrow> (u32 \<times> ('w, 'a) dev_state_scheme) res" where
  "device_write dev buf count idx flags st =
     bindE (device_get dev st) (\<lambda>d.
     case d_write (devices st ! d) of
       Some f \<Rightarrow> bindE (f (d_ptr (devices st ! d)) buf count idx flags (world st)) (\<lambda>(v, w). Inr (v, st\<lparr>world := w\<rparr>))
     | None \<Rightarrow> Inr (EOF, st))"

definition device_install ::
  "u32 \<Rightarrow> u32 \<Rightarrow> u32 \<Rightarrow> u8 list \<Rightarrow> u32 \<Rightarrow> 'w ioctl_t option \<Rightarrow> 'w transfer_t option \<Rightarrow> 'w transfer_t option
    \<Rightarrow> ('w, 'a) dev_state_scheme \<Rightarrow> (u32 \<times> ('w, 'a) dev_state_scheme) res" where
  "device_install typ subtyp ptr name parent ioctl rdf wrf st =
     bindE (get_null_device st) (\<lambda>i.
     let d = devices st ! i in
     bindE (strncpy (d_name d) name NAMELEN) (\<lambda>nm.
     let d = d\<lparr>d_name := nm, d_type := typ, d_subtype := subtyp, d_parent := parent, d_ptr := ptr,
               d_ioctl := ioctl, d_read := rdf, d_write := wrf\<rparr>
     in Inr (d_dev d, st\<lparr>devices := (devices st)[i := d]\<rparr>)))"

text \<open>The five characters of \<open>null\<close> with its terminator are written over the name.\<close>

definition null_name :: "u8 list" where "null_name = [0x6e, 0x75, 0x6c, 0x6c, 0]"

definition init_device :: "nat \<Rightarrow> ('w, 'a) dev_state_scheme \<Rightarrow> ('w, 'a) dev_state_scheme res" where
  "init_device i st =
     bindE (rd (devices st) i) (\<lambda>d.
     bindE (strcpy (d_name d) null_name) (\<lambda>nm.
     Inr (st\<lparr>devices := (devices st)[i := d\<lparr>d_name := nm, d_type := DEV_NULL, d_subtype := DEV_NULL,
                d_dev := of_nat i, d_parent := 0, d_direct := DIRECT_UP,
                d_ioctl := None, d_read := None, d_write := None\<rparr>],
             req_nodes := list_init i (req_nodes st)\<rparr>)))"

definition device_init :: "('w, 'a) dev_state_scheme \<Rightarrow> ('w, 'a) dev_state_scheme res" where
  "device_init st = foldE init_device [0 ..< 64] st"

definition device_find :: "u32 \<Rightarrow> u32 \<Rightarrow> ('w, 'a) dev_state_scheme \<Rightarrow> nat option" where
  "device_find subtyp idx st =
     (let ds = filter (\<lambda>i. d_subtype (devices st ! i) = subtyp) [0 ..< 64] in
      if unat idx < length ds then Some (ds ! unat idx) else None)"

section \<open>Requests\<close>

text \<open>\<^verbatim>\<open>sizeof(request_t)\<close>: seven words and the list node.\<close>

definition REQUEST_BYTES :: u32 where "REQUEST_BYTES = 36"

definition do_request :: "u32 \<Rightarrow> ('w, 'a) dev_state_scheme \<Rightarrow> ('w, 'a) dev_state_scheme res" where
  "do_request r st =
     (let req = requests st r in
      if r_type req = REQ_READ then
        bindE (device_read (r_dev req) (r_buf req) (r_count req) (r_idx req) (r_flags req) st) (\<lambda>(_, st). Inr st)
      else if r_type req = REQ_WRITE then
        bindE (device_write (r_dev req) (r_buf req) (r_count req) (r_idx req) (r_flags req) st) (\<lambda>(_, st). Inr st)
      else Inl (Panic ''req type %d unknown!!!''))"

definition set_direct :: "nat \<Rightarrow> direct_t \<Rightarrow> ('w, 'a) dev_state_scheme \<Rightarrow> ('w, 'a) dev_state_scheme" where
  "set_direct d way st = st\<lparr>devices := (devices st)[d := (devices st ! d)\<lparr>d_direct := way\<rparr>]\<rparr>"

definition request_nextreq ::
  "nat \<Rightarrow> u32 \<Rightarrow> ('w, 'a) dev_state_scheme \<Rightarrow> (u32 option \<times> ('w, 'a) dev_state_scheme) res" where
  "request_nextreq d r st =
     (let n = req_nodes st (Node r);
          way = d_direct (devices st ! d);
          way = (if way = DIRECT_UP \<and> node_next n = Some (Tail d) then DIRECT_DOWN
                 else if way = DIRECT_DOWN \<and> node_prev n = Some (Head d) then DIRECT_UP else way);
          st = set_direct d way st
      in case (if way = DIRECT_UP then node_next n else node_prev n) of
           Some (Node q) \<Rightarrow> Inr (Some q, st)
         | Some a \<Rightarrow> if a = Head d \<or> a = Tail d then Inr (None, st) else Inl OutOfBounds
         | None \<Rightarrow> Inl NullDeref)"

text \<open>The key of the sorted insertion is \<^verbatim>\<open>idx\<close> read as a signed integer.\<close>

definition req_key :: "('w, 'a) dev_state_scheme \<Rightarrow> u32 \<Rightarrow> int" where
  "req_key st r = sint (r_idx (requests st r))"

text \<open>Queueing a filled-in request: the caller goes on if the queue was empty, else it blocks.\<close>

definition queue_request :: "nat \<Rightarrow> u32 \<Rightarrow> ('w, 'a) dev_state_scheme \<Rightarrow> (bool \<times> ('w, 'a) dev_state_scheme) res" where
  "queue_request d r st =
     (let is_empty = list_empty d (req_nodes st) in
      bindE (list_insert_sort d (Node r) (req_key st) (req_nodes st)) (\<lambda>h.
      let st = st\<lparr>req_nodes := h\<rparr> in
      if is_empty then Inr (True, st)
      else
        let cur = running_task st;
            st = st\<lparr>requests := (requests st)(r := (requests st r)\<lparr>r_task := Some cur\<rparr>)\<rparr> in
        bindE (task_block cur None TASK_BLOCKED st) (\<lambda>st. Inr (False, st))))"

text \<open>The first half: the device whose queue the request joins and the sector its device starts at; then
  the request, and whether the caller goes on.\<close>

definition request_target ::
  "u32 \<Rightarrow> ('w, 'a) dev_state_scheme \<Rightarrow> (nat \<times> u32 \<times> ('w, 'a) dev_state_scheme) res" where
  "request_target dev st =
     bindE (device_get dev st) (\<lambda>d.
     kassert (d_type (devices st ! d) = DEV_BLOCK) (
     bindE (device_ioctl (d_dev (devices st ! d)) DEV_CMD_SECTOR_START 0 0 st) (\<lambda>(start, st).
     bindE (if d_parent (devices st ! d) \<noteq> 0 then device_get (d_parent (devices st ! d)) st else Inr d) (\<lambda>d.
     Inr (d, start, st)))))"

definition request_enter ::
  "u32 \<Rightarrow> u32 \<Rightarrow> u8 \<Rightarrow> u32 \<Rightarrow> u32 \<Rightarrow> u32 \<Rightarrow> ('w, 'a) dev_state_scheme
    \<Rightarrow> (nat \<times> u32 \<times> bool \<times> ('w, 'a) dev_state_scheme) res" where
  "request_enter dev buf count idx flags typ st =
     bindE (request_target dev st) (\<lambda>(d, start, st).
     bindE (kmalloc REQUEST_BYTES (kheap st)) (\<lambda>(r, kh).
     let req = \<lparr>r_dev = d_dev (devices st ! d), r_type = typ, r_idx = idx + start, r_count = ucast count,
                r_flags = flags, r_buf = buf, r_task = None\<rparr>;
         st = st\<lparr>requests := (requests st)(r := req), kheap := kh\<rparr>
     in bindE (queue_request d r st) (\<lambda>(go, st). Inr (d, r, go, st))))"

text \<open>What follows \<^verbatim>\<open>do_request\<close>.\<close>

definition request_leave :: "nat \<Rightarrow> u32 \<Rightarrow> ('w, 'a) dev_state_scheme \<Rightarrow> ('w, 'a) dev_state_scheme res" where
  "request_leave d r st =
     bindE (request_nextreq d r st) (\<lambda>(nxt, st).
     bindE (list_remove (Node r) (req_nodes st)) (\<lambda>h.
     bindE (kfree r (kheap st)) (\<lambda>kh.
     let st = st\<lparr>req_nodes := h, kheap := kh\<rparr> in
     case nxt of None \<Rightarrow> Inr st
     | Some q \<Rightarrow>
         (case r_task (requests st q) of
            None \<Rightarrow> Inl NullDeref
          | Some t \<Rightarrow> kassert (t_magic (tasks st t) = ONIX_MAGIC) (task_unblock t st)))))"

text \<open>The second half of the call.\<close>

definition request_finish :: "nat \<Rightarrow> u32 \<Rightarrow> ('w, 'a) dev_state_scheme \<Rightarrow> ('w, 'a) dev_state_scheme res" where
  "request_finish d r st = bindE (do_request r st) (request_leave d r)"

text \<open>The whole call, up to its return (\<open>True\<close>) or to the block.\<close>

definition device_request ::
  "u32 \<Rightarrow> u32 \<Rightarrow> u8 \<Rightarrow> u32 \<Rightarrow> u32 \<Rightarrow> u32 \<Rightarrow> ('w, 'a) dev_state_scheme
    \<Rightarrow> (bool \<times> ('w, 'a) dev_state_scheme) res" where
  "device_request dev buf count idx flags typ st =
     bindE (request_enter dev buf count idx flags typ st) (\<lambda>(d, r, go, st).
     if go then bindE (request_finish d r st) (\<lambda>st. Inr (True, st)) else Inr (False, st))"

end
