(* ===== verification/Elevator.thy ===== *)
theory Elevator
  imports Device Mutex
begin

text \<open>
  What the request queue of \<^verbatim>\<open>kernel/device.c\<close> guarantees: whatever the order in which tasks call
  \<^verbatim>\<open>device_request\<close>, and however the scheduler and the drivers interleave them, one request of a
  device is carried out at a time, no request is lost and no assertion fails; the requests that wait
  are carried out in the order of a lift that sweeps up and down.
\<close>

section \<open>The events of the scheduler and its queues\<close>

definition after_event :: "event \<Rightarrow> u32 \<Rightarrow> queue_t \<Rightarrow> u32 list \<Rightarrow> u32 list" where
  "after_event e cur q xs =
     (case e of Block b _ \<Rightarrow> if q = (case b of None \<Rightarrow> BlockList | Some q \<Rightarrow> q) then cur # xs else xs
      | Unblock p \<Rightarrow> remove1 p xs | _ \<Rightarrow> xs)"

lemma perform_queues:
  assumes inv: "sched_inv s c" and "allowed e s"
  shows "\<exists>s' c'. perform e s = Inr s' \<and> sched_inv s' c' \<and> kernel_t.more s' = kernel_t.more s
    \<and> (\<forall>q. q \<noteq> SleepList \<longrightarrow> the (c' q) = after_event e (current s) q (the (c q)))"
proof -
  define t where "t = s\<lparr>intr := False\<rparr>"
  have t: "sched_inv t c" "\<not> intr t" "current t = current s" "idle_task t = idle_task s" "jiffies t = jiffies s"
    "state_of t = state_of s" "live t = live s" "kernel_t.more t = kernel_t.more s"
    using inv by (simp_all add: t_def)
  have core: "sched_core t c" using t(1) by (simp add: sched_inv_def)
  have p: "perform e s = perform_off e t" by (simp add: perform_def t_def)
  obtain xs where xs: "c SleepList = Some xs" using sched_coreD(2) [OF core] by blast
  show ?thesis
  proof (cases e)
    case Tick
    obtain s1 s' where s': "clock_handler 0x20 t = Inr s'" "ticked (takeWhile (due t) xs) t s1"
        "sched_inv s' (c(SleepList \<mapsto> dropWhile (due t) xs))"
        "if t_ticks (tasks t (current t)) = 1 then switched s1 s' else s' = s1"
      using clock_handler_ok [OF t(1,2) xs] by blast
    have "kernel_t.more s1 = kernel_t.more s" using s'(2) t(8) by (simp add: ticked_def)
    moreover have "kernel_t.more s' = kernel_t.more s1" using s'(4) switched_simps(7) by (auto split: if_splits)
    ultimately show ?thesis using s'(1,3) Tick p by (auto simp: after_event_def)
  next
    case Yield
    then show ?thesis using schedule_ok [OF core t(2)] switched_simps(7) t(8) p
      by (fastforce simp: task_yield_def after_event_def)
  next
    case (Sleep ms)
    obtain h s' ys where s': "task_sleep ms t = Inr s'"
        "switched (put_to_sleep (current t) (jiffies t + sleep_ticks ms) (t\<lparr>nodes := h\<rparr>)) s'"
        "sched_inv s' (c(SleepList \<mapsto> ys))"
      using task_sleep_current [OF t(1,2) _ xs, of ms] assms(2) Sleep by (auto simp: t)
    have "kernel_t.more s' = kernel_t.more s"
      using switched_simps(7) [OF s'(2)] t(8) by (simp add: put_to_sleep_def)
    then show ?thesis using s'(1,3) Sleep p by (auto simp: after_event_def)
  next
    case (Block b st)
    define q where "q = (case b of None \<Rightarrow> BlockList | Some q \<Rightarrow> q)"
    have q: "q \<noteq> SleepList" using assms(2) Block by (auto simp: q_def split: option.splits)
    obtain ys where ys: "c q = Some ys" using sched_coreD(2) [OF core] by blast
    have "idle_task t \<noteq> Some (current t)" "st \<in> {TASK_BLOCKED, TASK_WAITING}" using assms(2) Block by (auto simp: t)
    from task_block_current [OF t(1,2) this(1) q_def q ys this(2)] obtain s1 s' where s':
      "task_block (current t) b st t = Inr s'" "switched s1 s'" "kernel_t.more s1 = kernel_t.more t"
      "sched_inv s' (c(q \<mapsto> current t # ys))" by blast
    have "kernel_t.more s' = kernel_t.more s" using switched_simps(7) [OF s'(2)] s'(3) t(8) by simp
    then show ?thesis using s'(1,4) Block p ys t(3) by (auto simp: after_event_def q_def [symmetric])
  next
    case (Unblock u)
    then have u: "u \<in> live t" "state_of t u \<in> waiting" "u \<noteq> current t"
      using assms(2) inv by (auto simp: waiting_cases sched_inv_def t)
    then obtain q ys where q: "c q = Some ys" "u \<in> set ys"
      using sched_coreD(9) [OF core u(1,2)] unfolding unlinked_def by blast
    have dis: "u \<notin> set zs" if "c q' = Some zs" "q' \<noteq> q" for q' zs
      using il.rel_disjoint [OF sched_coreD(1) [OF core]] q that unfolding disjoint_lists_def by blast
    obtain h where h: "task_unblock u t = Inr (upd_task u (\<lambda>v. v\<lparr>t_state := TASK_READY\<rparr>) (t\<lparr>nodes := h\<rparr>))"
        "sched_core (upd_task u (\<lambda>v. v\<lparr>t_state := TASK_READY\<rparr>) (t\<lparr>nodes := h\<rparr>)) (c(q \<mapsto> remove1 u ys))"
      using task_unblock_ok [OF core t(2) q] by blast
    define s' where "s' = upd_task u (\<lambda>v. v\<lparr>t_state := TASK_READY\<rparr>) (t\<lparr>nodes := h\<rparr>)"
    have "state_of s' (current s') = TASK_RUNNING" using t(1) u(3) by (simp add: state_of_def sched_inv_def s'_def)
    then have "sched_inv s' (c(q \<mapsto> remove1 u ys))" using h(2) by (simp add: sched_inv_def s'_def)
    moreover have "the ((c(q \<mapsto> remove1 u ys)) r) = remove1 u (the (c r))" for r
    proof (cases "r = q")
      case False
      obtain zs where "c r = Some zs" using sched_coreD(2) [OF core] by blast
      then show ?thesis using dis [of r zs] False by (simp add: remove1_idem)
    qed (use q in simp)
    moreover have "kernel_t.more s' = kernel_t.more s" using t(8) by (simp add: s'_def)
    ultimately show ?thesis using h(1) Unblock p by (auto simp: after_event_def s'_def [symmetric] simp del: fun_upd_apply)
  qed
qed

section \<open>Tasks that make requests\<close>

text \<open>A configuration: the kernel, the request that each task inside \<^verbatim>\<open>device_request\<close> has made, and
  the request each device is working on.\<close>

record ('w, 'a) dev_conf =
  dk :: "('w, 'a) dev_state_scheme"
  pending :: "u32 \<Rightarrow> (nat \<times> u32) option"
  serving :: "nat \<Rightarrow> u32 option"

definition dev_off :: "('w, 'a) dev_state_scheme \<Rightarrow> ('w, 'a) dev_state_scheme" where
  "dev_off st = st\<lparr>intr := False\<rparr>"

text \<open>Drivers and interrupt handlers wake only the tasks they put to sleep, none that waits for its
  turn at a device.\<close>

fun driver_event :: "event \<Rightarrow> ('w, 'a) dev_conf \<Rightarrow> bool" where
  "driver_event (Unblock p) g \<longleftrightarrow> (\<forall>d r. pending g p = Some (d, r) \<longrightarrow> serving g d = Some r)"
| "driver_event _ g \<longleftrightarrow> True"

inductive dev_step :: "('w, 'a) dev_conf \<Rightarrow> ('w, 'a) dev_conf \<Rightarrow> bool" where
  enter: "pending g (current (dk g)) = None \<Longrightarrow> idle_task (dk g) \<noteq> Some (current (dk g)) \<Longrightarrow>
    request_enter dev buf count idx flags typ (dev_off (dk g)) = Inr (d, r, go, st') \<Longrightarrow>
    dev_step g (g\<lparr>dk := st', pending := (pending g)(current (dk g) := Some (d, r)),
                  serving := (if go then (serving g)(d := Some r) else serving g)\<rparr>)"
| serve: "pending g (current (dk g)) = Some (d, r) \<Longrightarrow> serving g d = Some r \<Longrightarrow>
    do_request r (dev_off (dk g)) = Inr st' \<Longrightarrow> dev_step g (g\<lparr>dk := st'\<rparr>)"
| leave: "pending g (current (dk g)) = Some (d, r) \<Longrightarrow> serving g d = Some r \<Longrightarrow>
    request_nextreq d r (dk g) = Inr (nxt, st'') \<Longrightarrow> request_leave d r (dev_off (dk g)) = Inr st' \<Longrightarrow>
    dev_step g (g\<lparr>dk := st', pending := (pending g)(current (dk g) := None), serving := (serving g)(d := nxt)\<rparr>)"
| other: "allowed e (dk g) \<Longrightarrow> driver_event e g \<Longrightarrow> perform e (dk g) = Inr st' \<Longrightarrow>
    dev_step g (g\<lparr>dk := st'\<rparr>)"

inductive_cases dev_stepE: "dev_step g g'"

text \<open>The invariant over the contents \<open>cs\<close> of the scheduler's lists, \<open>cr\<close> of the request queues and the
  heap blocks \<open>L\<close> in use: the request in service is in its queue, all others in the queue belong to
  distinct tasks that are blocked.\<close>

definition waiting_for :: "('w, 'a) dev_state_scheme \<Rightarrow> u32 list \<Rightarrow> u32 \<Rightarrow> u32 \<Rightarrow> bool" where
  "waiting_for st bl r t \<longleftrightarrow> r_task (requests st r) = Some t \<and> t \<in> set bl"

definition dev_inv :: "('w, 'a) dev_conf \<Rightarrow> (queue_t \<Rightarrow> u32 list option) \<Rightarrow> (nat \<Rightarrow> u32 list option)
    \<Rightarrow> (u32 \<Rightarrow> nat option) \<Rightarrow> bool" where
  "dev_inv g cs cr L \<longleftrightarrow> (let st = dk g in
     sched_inv st cs
   \<and> sound_heap (kheap st) L
   \<and> store_rel (req_nodes st) cr \<and> (\<forall>d. cr d \<noteq> None)
   \<and> (\<forall>d r. r \<in> set (the (cr d)) \<longrightarrow> L r \<noteq> None)
   \<and> (\<forall>d. case serving g d of None \<Rightarrow> the (cr d) = [] | Some r \<Rightarrow> r \<in> set (the (cr d)))
   \<and> (\<forall>t d r. pending g t = Some (d, r) \<longrightarrow> r \<in> set (the (cr d)))
   \<and> (\<forall>d r. r \<in> set (the (cr d)) \<longrightarrow> (\<exists>t. \<forall>t'. pending g t' = Some (d, r) \<longleftrightarrow> t' = t))
   \<and> (\<forall>t d r. pending g t = Some (d, r) \<longrightarrow> serving g d \<noteq> Some r \<longrightarrow> waiting_for st (the (cs BlockList)) r t)
   \<and> (\<forall>d. sorted (map (req_key st) (the (cr d)))))"

section \<open>What the scheduler does not look at\<close>

lemma truncate_simps:
  "live (kernel_t.truncate s) = live s" "state_of (kernel_t.truncate s) = state_of s"
  "wake_time (kernel_t.truncate s) = wake_time s"
  by (simp_all add: live_def state_of_def wake_time_def kernel_t.truncate_def fun_eq_iff)

lemma sched_truncate: "sched_inv (kernel_t.truncate s) c \<longleftrightarrow> sched_inv s c"
  by (simp add: sched_inv_def sched_core_def truncate_simps) (simp add: kernel_t.truncate_def)

lemma sched_same: "kernel_t.truncate s = kernel_t.truncate t \<Longrightarrow> sched_inv s c \<longleftrightarrow> sched_inv t c"
  using sched_truncate by metis

lemma dev_upd [simp]:
  "sched_inv (st\<lparr>devices := v1\<rparr>) c \<longleftrightarrow> sched_inv st c" "sched_inv (st\<lparr>requests := v2\<rparr>) c \<longleftrightarrow> sched_inv st c"
  "sched_inv (st\<lparr>req_nodes := v3\<rparr>) c \<longleftrightarrow> sched_inv st c" "sched_inv (st\<lparr>kheap := v4\<rparr>) c \<longleftrightarrow> sched_inv st c"
  "sched_inv (st\<lparr>world := v5\<rparr>) c \<longleftrightarrow> sched_inv st c"
  by (rule sched_same; simp add: kernel_t.truncate_def)+

lemma dev_off_inv [simp]: "sched_inv (dev_off st) c \<longleftrightarrow> sched_inv st c"
  by (simp add: dev_off_def)

lemma dev_off_simps [simp]:
  "devices (dev_off st) = devices st" "requests (dev_off st) = requests st" "req_nodes (dev_off st) = req_nodes st"
  "kheap (dev_off st) = kheap st" "world (dev_off st) = world st" "\<not> intr (dev_off st)"
  "current (dev_off st) = current st" "idle_task (dev_off st) = idle_task st" "tasks (dev_off st) = tasks st"
  "kernel_t.more (dev_off st) = kernel_t.more st"
  by (simp_all add: dev_off_def)

lemma dev_more:
  assumes "kernel_t.more s = kernel_t.more t"
  shows "devices s = devices t" "requests s = requests t" "req_nodes s = req_nodes t" "kheap s = kheap t"
    "world s = world t"
proof (atomize (full), goal_cases)
  case 1
  show ?case using assms by (cases s; cases t) simp
qed

section \<open>Joining the queue\<close>

lemma queue_request_ok:
  assumes inv: "sched_inv st cs" and i: "\<not> intr st" and idle: "idle_task st \<noteq> Some (current st)"
    and rel: "store_rel (req_nodes st) cr" and xs: "cr d = Some xs" and un: "unlinked cr r"
  shows "\<exists>st' cs'. queue_request d r st = Inr (xs = [], st') \<and> sched_inv st' cs'
    \<and> store_rel (req_nodes st') (cr(d \<mapsto> insert_key (req_key st) r xs))
    \<and> kheap st' = kheap st \<and> devices st' = devices st \<and> world st' = world st
    \<and> (if xs = [] then cs' = cs \<and> requests st' = requests st
       else cs' = cs(BlockList \<mapsto> current st # the (cs BlockList))
         \<and> requests st' = (requests st)(r := (requests st r)\<lparr>r_task := Some (current st)\<rparr>))"
proof -
  obtain h where h: "list_insert_sort d (Node r) (req_key st) (req_nodes st) = Inr h"
      "store_rel h (cr(d \<mapsto> insert_key (req_key st) r xs))"
    using il.rel_insert_sort [OF rel xs un] by blast
  have e: "list_empty d (req_nodes st) \<longleftrightarrow> xs = []"
    by (rule list_empty_is_list [OF store_rel_is_list [OF rel xs]])
  show ?thesis
  proof (cases "xs = []")
    case True
    then have "queue_request d r st = Inr (True, st\<lparr>req_nodes := h\<rparr>)"
      using h(1) e by (simp add: queue_request_def)
    then show ?thesis using True h(2) inv by (intro exI [of _ "st\<lparr>req_nodes := h\<rparr>"] exI [of _ cs]) simp
  next
    case False
    define s1 where "s1 = st\<lparr>req_nodes := h, requests := (requests st)(r := (requests st r)\<lparr>r_task := Some (current st)\<rparr>)\<rparr>"
    have inv1: "sched_inv s1 cs" using inv by (simp add: s1_def)
    obtain bl where bl: "cs BlockList = Some bl" using sched_coreD(2) inv by (metis sched_inv_def)
    have "\<not> intr s1" "idle_task s1 \<noteq> Some (current s1)" using i idle by (simp_all add: s1_def)
    from task_block_current [OF inv1 this, of BlockList None bl TASK_BLOCKED] bl obtain s2 s' where s':
      "task_block (current s1) None TASK_BLOCKED s1 = Inr s'" "switched s2 s'" "kernel_t.more s2 = kernel_t.more s1"
      "sched_inv s' (cs(BlockList \<mapsto> current s1 # bl))" by auto
    have "kernel_t.more s' = kernel_t.more s1" using switched_simps(7) [OF s'(2)] s'(3) by simp
    note m = dev_more [OF this]
    have "queue_request d r st = Inr (False, s')"
      using False h(1) e s'(1) by (simp add: queue_request_def s1_def Let_def)
    then show ?thesis using False h(2) s'(4) bl m
      by (intro exI [of _ s'] exI [of _ "cs(BlockList \<mapsto> current st # bl)"]) (simp add: s1_def)
  qed
qed

section \<open>Leaving the queue\<close>

lemma list_neighbours:
  assumes "store_rel h c" and "c l = Some (as @ n # bs)"
  shows "node_next (h (Node n)) = Some (case bs of [] \<Rightarrow> Tail l | q # _ \<Rightarrow> Node q)"
    and "node_prev (h (Node n)) = Some (if as = [] then Head l else Node (last as))"
proof -
  have l: "linked h (Head l # map Node (as @ n # bs) @ [Tail l])"
    using store_rel_is_list [OF assms] by (simp add: is_list_def cells_def)
  then have "linked h ((Head l # map Node as) @ Node n # map Node bs @ [Tail l])" by simp
  from linked_append [THEN iffD1, OF this, THEN conjunct2]
  show "node_next (h (Node n)) = Some (case bs of [] \<Rightarrow> Tail l | q # _ \<Rightarrow> Node q)" by (cases bs) auto
  show "node_prev (h (Node n)) = Some (if as = [] then Head l else Node (last as))"
  proof (cases as rule: rev_cases)
    case Nil
    then show ?thesis using l by simp
  next
    case (snoc us p)
    then have "linked h ((Head l # map Node us) @ Node p # Node n # map Node bs @ [Tail l])" using l by simp
    from linked_append [THEN iffD1, OF this, THEN conjunct2] show ?thesis using snoc by simp
  qed
qed

text \<open>The lift: its direction after a request with \<open>as\<close> below and \<open>bs\<close> above, and the next request.\<close>

definition turn :: "direct_t \<Rightarrow> 'r list \<Rightarrow> 'r list \<Rightarrow> direct_t" where
  "turn way as bs = (if way = DIRECT_UP \<and> bs = [] then DIRECT_DOWN
     else if way = DIRECT_DOWN \<and> as = [] then DIRECT_UP else way)"

definition next_req :: "direct_t \<Rightarrow> 'r list \<Rightarrow> 'r list \<Rightarrow> 'r option" where
  "next_req way as bs = (if turn way as bs = DIRECT_UP then (case bs of [] \<Rightarrow> None | q # _ \<Rightarrow> Some q)
     else if as = [] then None else Some (last as))"

lemma next_req_None: "next_req way as bs = None \<longleftrightarrow> as = [] \<and> bs = []"
  by (cases way) (auto simp: next_req_def turn_def split: list.splits)

lemma next_req_in: "next_req way as bs = Some q \<Longrightarrow> q \<in> set (as @ bs)"
  by (auto simp: next_req_def split: if_splits list.splits)

lemma nextreq_ok:
  assumes "store_rel (req_nodes st) c" and "c d = Some (as @ r # bs)"
  shows "request_nextreq d r st = Inr (next_req (d_direct (devices st ! d)) as bs,
    set_direct d (turn (d_direct (devices st ! d)) as bs) st)"
  using list_neighbours [OF assms]
  by (cases "d_direct (devices st ! d)"; cases bs; cases "as = []")
     (simp_all add: request_nextreq_def Let_def next_req_def turn_def)

lemma leave_ok:
  assumes inv: "sched_inv st cs" and i: "\<not> intr st" and heap: "sound_heap (kheap st) L" "L r \<noteq> None"
    and rel: "store_rel (req_nodes st) cr" and q: "cr d = Some (as @ r # bs)"
    and bl: "cs BlockList = Some bl"
    and w: "\<And>q. next_req (d_direct (devices st ! d)) as bs = Some q \<Longrightarrow> \<exists>t. waiting_for st bl q t"
  shows "\<exists>st'. request_leave d r st = Inr st' \<and> sound_heap (kheap st') (L(r := None))
    \<and> store_rel (req_nodes st') (cr(d \<mapsto> as @ bs)) \<and> requests st' = requests st \<and> world st' = world st
    \<and> intr st' = intr st \<and> current st' = current st
    \<and> devices st' = (devices st)[d := (devices st ! d)\<lparr>d_direct := turn (d_direct (devices st ! d)) as bs\<rparr>]
    \<and> (case next_req (d_direct (devices st ! d)) as bs of None \<Rightarrow> sched_inv st' cs
       | Some q \<Rightarrow> \<exists>t. waiting_for st bl q t \<and> state_of st' t = TASK_READY \<and> sched_inv st' (cs(BlockList \<mapsto> remove1 t bl)))"
proof -
  let ?way = "d_direct (devices st ! d)"
  obtain h where h: "list_remove (Node r) (req_nodes st) = Inr h" "store_rel h (cr(d \<mapsto> as @ bs))"
    using il.rel_remove [OF rel q] by blast
  obtain s where "L r = Some s" using heap(2) by blast
  from ha.free_law [OF heap(1) this] obtain kh where kh: "kfree r (kheap st) = Inr kh" "sound_heap kh (L(r := None))" by blast
  define s1 where "s1 = (set_direct d (turn ?way as bs) st)\<lparr>req_nodes := h, kheap := kh\<rparr>"
  have inv1: "sched_inv s1 cs" using inv by (simp add: s1_def set_direct_def)
  have f: "req_nodes s1 = h" "kheap s1 = kh" "requests s1 = requests st" "world s1 = world st" "intr s1 = intr st"
    "devices s1 = (devices st)[d := (devices st ! d)\<lparr>d_direct := turn ?way as bs\<rparr>]" "tasks s1 = tasks st"
    "current s1 = current st"
    by (simp_all add: s1_def set_direct_def)
  show ?thesis
  proof (cases "next_req ?way as bs")
    case None
    then have "request_leave d r st = Inr s1"
      using h(1) kh(1) nextreq_ok [OF rel q] by (simp add: request_leave_def s1_def Let_def set_direct_def)
    then show ?thesis using None inv1 h(2) kh(2) f by auto
  next
    case (Some x)
    obtain t where t: "waiting_for st bl x t" using w [OF Some] by blast
    have core: "sched_core s1 cs" using inv1 by (simp add: sched_inv_def)
    have tb: "t \<in> set bl" "r_task (requests st x) = Some t" using t by (auto simp: waiting_for_def)
    have lt: "t \<in> live s1" "state_of s1 t \<in> waiting" using sched_coreD(7) [OF core bl tb(1)] by auto
    have magic: "t_magic (tasks st t) = ONIX_MAGIC" using sched_coreD(4) [OF core lt(1)] f(7) by simp
    have nc: "t \<noteq> current s1" using lt(2) inv1 by (auto simp: sched_inv_def waiting_cases)
    obtain h' where h': "task_unblock t s1 = Inr (upd_task t (\<lambda>u. u\<lparr>t_state := TASK_READY\<rparr>) (s1\<lparr>nodes := h'\<rparr>))"
        "sched_core (upd_task t (\<lambda>u. u\<lparr>t_state := TASK_READY\<rparr>) (s1\<lparr>nodes := h'\<rparr>)) (cs(BlockList \<mapsto> remove1 t bl))"
      using task_unblock_ok [OF core _ bl tb(1)] i f(5) by auto
    define s2 where "s2 = upd_task t (\<lambda>u. u\<lparr>t_state := TASK_READY\<rparr>) (s1\<lparr>nodes := h'\<rparr>)"
    have "state_of s2 (current s2) = TASK_RUNNING" using inv1 nc by (simp add: s2_def state_of_def sched_inv_def)
    then have "sched_inv s2 (cs(BlockList \<mapsto> remove1 t bl))" using h'(2) by (simp add: sched_inv_def s2_def)
    moreover have "request_leave d r st = Inr s2"
      using h(1) kh(1) nextreq_ok [OF rel q] Some tb(2) h'(1) magic
      by (simp add: request_leave_def Let_def set_direct_def s1_def s2_def)
    moreover have "kernel_t.more s2 = kernel_t.more s1" by (simp add: s2_def)
    note dev_more [OF this]
    moreover have "state_of s2 t = TASK_READY" "intr s2 = intr s1" "current s2 = current s1"
      by (simp_all add: s2_def state_of_def)
    ultimately show ?thesis using Some t h(2) kh(2) f by auto
  qed
qed

section \<open>Every step keeps the invariant\<close>

lemma dev_invD:
  assumes "dev_inv g cs cr L"
  shows "sched_inv (dk g) cs" "sound_heap (kheap (dk g)) L" "store_rel (req_nodes (dk g)) cr" "\<exists>xs. cr d = Some xs"
    "cr d = Some xs \<Longrightarrow> r \<in> set xs \<Longrightarrow> L r \<noteq> None"
    "cr d = Some xs \<Longrightarrow> serving g d = None \<longleftrightarrow> xs = []" "cr d = Some xs \<Longrightarrow> serving g d = Some r \<Longrightarrow> r \<in> set xs"
    "cr d = Some xs \<Longrightarrow> pending g t = Some (d, r) \<Longrightarrow> r \<in> set xs"
    "cr d = Some xs \<Longrightarrow> r \<in> set xs \<Longrightarrow> \<exists>t. \<forall>t'. pending g t' = Some (d, r) \<longleftrightarrow> t' = t"
    "cs BlockList = Some bl \<Longrightarrow> pending g t = Some (d, r) \<Longrightarrow> serving g d \<noteq> Some r \<Longrightarrow> waiting_for (dk g) bl r t"
    "cr d = Some xs \<Longrightarrow> sorted (map (req_key (dk g)) xs)"
proof -
  note i = assms [unfolded dev_inv_def Let_def]
  note r1 = conjunct2 [OF i] and r2 = conjunct2 [OF conjunct2 [OF i]]
  note r3 = conjunct2 [OF r2]
  note r4 = conjunct2 [OF r3]
  note r5 = conjunct2 [OF r4]
  note r6 = conjunct2 [OF r5]
  note r7 = conjunct2 [OF r6]
  note r8 = conjunct2 [OF r7]
  note a6 = conjunct2 [OF r8] and a5 = conjunct1 [OF r8] and a4 = conjunct1 [OF r7] and a3 = conjunct1 [OF r6]
    and a2 = conjunct1 [OF r5] and a1 = conjunct1 [OF r4]
  show "sched_inv (dk g) cs" by (rule conjunct1 [OF i])
  show "sound_heap (kheap (dk g)) L" by (rule conjunct1 [OF r1])
  show "store_rel (req_nodes (dk g)) cr" by (rule conjunct1 [OF r2])
  show "\<exists>xs. cr d = Some xs" using conjunct1 [OF r3] by simp
  { assume "cr d = Some xs"
    then have q: "the (cr d) = xs" by simp
    show "r \<in> set xs \<Longrightarrow> L r \<noteq> None" using a1 q by blast
    show "serving g d = None \<longleftrightarrow> xs = []" using spec [OF a2, of d] q by (auto split: option.splits)
    show "serving g d = Some r \<Longrightarrow> r \<in> set xs" using spec [OF a2, of d] q by simp
    show "pending g t = Some (d, r) \<Longrightarrow> r \<in> set xs" using a3 q by blast
    show "r \<in> set xs \<Longrightarrow> \<exists>t. \<forall>t'. pending g t' = Some (d, r) \<longleftrightarrow> t' = t" using a4 q by blast
    show "sorted (map (req_key (dk g)) xs)" using spec [OF a6, of d] q by simp }
  assume "cs BlockList = Some bl"
  then have "the (cs BlockList) = bl" by simp
  then show "pending g t = Some (d, r) \<Longrightarrow> serving g d \<noteq> Some r \<Longrightarrow> waiting_for (dk g) bl r t" using a5 by blast
qed

lemma dev_invI:
  assumes "sched_inv (dk g) cs" "sound_heap (kheap (dk g)) L" "store_rel (req_nodes (dk g)) cr" "\<And>d. cr d \<noteq> None"
    "\<And>d r. r \<in> set (the (cr d)) \<Longrightarrow> L r \<noteq> None"
    "\<And>d. serving g d = None \<longleftrightarrow> the (cr d) = []" "\<And>d r. serving g d = Some r \<Longrightarrow> r \<in> set (the (cr d))"
    "\<And>d t r. pending g t = Some (d, r) \<Longrightarrow> r \<in> set (the (cr d))"
    "\<And>d r. r \<in> set (the (cr d)) \<Longrightarrow> \<exists>t. \<forall>t'. pending g t' = Some (d, r) \<longleftrightarrow> t' = t"
    "\<And>d t r. pending g t = Some (d, r) \<Longrightarrow> serving g d \<noteq> Some r \<Longrightarrow> waiting_for (dk g) (the (cs BlockList)) r t"
    "\<And>d. sorted (map (req_key (dk g)) (the (cr d)))"
  shows "dev_inv g cs cr L"
proof -
  have c: "case serving g d of None \<Rightarrow> the (cr d) = [] | Some r \<Rightarrow> r \<in> set (the (cr d))" for d
    using assms(6,7) [of d] by (auto split: option.splits)
  show ?thesis
    unfolding dev_inv_def Let_def by (intro conjI allI impI) (rule c | rule assms(1-4,11) | rule assms(5,8,9); assumption | rule assms(10); assumption)+
qed

lemma block_list: "sched_inv s c \<Longrightarrow> \<exists>bl. c BlockList = Some bl"
  using sched_coreD(2) [of s c BlockList] by (simp add: sched_inv_def)

text \<open>What the part before the allocation changes.\<close>

lemma device_ioctl_frame: "device_ioctl dev cmd args flags st = Inr (v, st') \<Longrightarrow> \<exists>w. st' = st\<lparr>world := w\<rparr>"
  by (auto simp: device_ioctl_def bindE_eq_Inr split: option.splits intro: exI [of _ "world st"])

lemma request_target_frame: "request_target dev st = Inr (d, start, st') \<Longrightarrow> \<exists>w. st' = st\<lparr>world := w\<rparr>"
  by (auto simp: request_target_def bindE_eq_Inr kassert_eq_Inr split: if_splits dest!: device_ioctl_frame)

lemma do_request_frame: "do_request r st = Inr st' \<Longrightarrow> \<exists>w. st' = st\<lparr>world := w\<rparr>"
  by (auto simp: do_request_def device_read_def device_write_def Let_def bindE_eq_Inr
      split: option.splits if_splits intro: exI [of _ "world st"])

lemma unlinked_fresh:
  assumes inv: "dev_inv g cs cr L" and "L r = None"
  shows "unlinked cr r"
  using dev_invD(5) [OF inv] assms(2) unfolding unlinked_def by blast

lemma enter_inv:
  assumes inv: "dev_inv g cs cr L" and p: "pending g (current (dk g)) = None"
    and r: "sound_heap (kheap st) (L(r \<mapsto> s))" "L r = None"
    and st: "sched_inv st cs" "\<not> intr st" "idle_task st \<noteq> Some (current st)" "current st = current (dk g)"
      "req_nodes st = req_nodes (dk g)" "\<And>q. q \<noteq> r \<Longrightarrow> requests st q = requests (dk g) q"
  shows "\<exists>go st' cs' cr'. queue_request d r st = Inr (go, st') \<and> dev_inv (g\<lparr>dk := st',
      pending := (pending g)(current (dk g) := Some (d, r)),
      serving := (if go then (serving g)(d := Some r) else serving g)\<rparr>) cs' cr' (L(r \<mapsto> s))"
proof -
  note i = dev_invD [OF inv]
  let ?cur = "current (dk g)"
  obtain xs where xs: "cr d = Some xs" using i(4) by blast
  obtain bl where bl: "cs BlockList = Some bl" using block_list [OF st(1)] by blast
  have un: "unlinked cr r" by (rule unlinked_fresh [OF inv r(2)])
  have rel: "store_rel (req_nodes st) cr" using i(3) st(5) by simp
  obtain st' cs' where q: "queue_request d r st = Inr (xs = [], st')" "sched_inv st' cs'"
      "store_rel (req_nodes st') (cr(d \<mapsto> insert_key (req_key st) r xs))"
      "kheap st' = kheap st"
      "if xs = [] then cs' = cs \<and> requests st' = requests st
       else cs' = cs(BlockList \<mapsto> ?cur # bl)
         \<and> requests st' = (requests st)(r := (requests st r)\<lparr>r_task := Some ?cur\<rparr>)"
    using queue_request_ok [OF st(1-3) rel xs un] bl st(4) by (auto split: if_splits)
  define ys where "ys = insert_key (req_key st) r xs"
  have ys: "set ys = insert r (set xs)" by (simp add: ys_def)
  define g' where "g' = g\<lparr>dk := st', pending := (pending g)(?cur := Some (d, r)),
      serving := (if xs = [] then (serving g)(d := Some r) else serving g)\<rparr>"
  have old: "r \<notin> set zs" if "cr e = Some zs" for e zs using un that by (auto simp: unlinked_def)
  have rt: "r_task (requests st' q) = r_task (requests (dk g) q)" "req_key st' q = req_key (dk g) q" if "q \<noteq> r" for q
    using q(5) st(6) [OF that] that by (simp_all add: req_key_def split: if_splits)
  have rk: "req_key st' = req_key st" using q(5) by (auto simp: req_key_def fun_eq_iff split: if_splits)
  have the: "the ((cr(d \<mapsto> ys)) e) = (if e = d then ys else the (cr e))" for e by simp
  have "dev_inv g' cs' (cr(d \<mapsto> ys)) (L(r \<mapsto> s))"
  proof (rule dev_invI)
    show "sched_inv (dk g') cs'" "sound_heap (kheap (dk g')) (L(r \<mapsto> s))" "store_rel (req_nodes (dk g')) (cr(d \<mapsto> ys))"
      using q(2-4) r(1) by (simp_all add: g'_def ys_def)
    show "(cr(d \<mapsto> ys)) e \<noteq> None" for e using i(4) [of e] by simp
    show "(L(r \<mapsto> s)) q \<noteq> None" if "q \<in> set (the ((cr(d \<mapsto> ys)) e))" for e q
    proof -
      obtain zs where "cr e = Some zs" using i(4) by blast
      then show ?thesis using that i(5) [of e zs q] i(5) [OF xs, of q] by (auto simp: the ys split: if_splits)
    qed
    show "serving g' e = None \<longleftrightarrow> the ((cr(d \<mapsto> ys)) e) = []" for e
    proof -
      obtain zs where "cr e = Some zs" using i(4) by blast
      moreover have "ys \<noteq> []" using ys by auto
      ultimately show ?thesis using i(6) [of e zs] i(6) [OF xs] xs by (auto simp: the g'_def)
    qed
    show "q \<in> set (the ((cr(d \<mapsto> ys)) e))" if "serving g' e = Some q" for e q
    proof -
      obtain zs where "cr e = Some zs" using i(4) by blast
      then show ?thesis using that i(7) [of e zs q] i(7) [OF xs, of q] by (auto simp: the g'_def ys split: if_splits)
    qed
    show "q \<in> set (the ((cr(d \<mapsto> ys)) e))" if "pending g' t = Some (e, q)" for e t q
    proof -
      obtain zs where "cr e = Some zs" using i(4) by blast
      then show ?thesis using that i(8) [of e zs t q] i(8) [OF xs, of t q] by (auto simp: the g'_def ys split: if_splits)
    qed
    show "\<exists>t. \<forall>t'. pending g' t' = Some (e, q) \<longleftrightarrow> t' = t" if qe: "q \<in> set (the ((cr(d \<mapsto> ys)) e))" for e q
    proof (cases "q = r")
      case True
      have no: "pending g t' \<noteq> Some (e, r)" for t'
      proof
        assume "pending g t' = Some (e, r)"
        moreover obtain zs where "cr e = Some zs" using i(4) by blast
        ultimately show False using i(8) old by blast
      qed
      have "e = d"
      proof (rule ccontr)
        assume "e \<noteq> d"
        moreover obtain zs where "cr e = Some zs" using i(4) by blast
        ultimately show False using qe True old by (auto simp: the)
      qed
      then show ?thesis using True no by (intro exI [of _ ?cur]) (simp add: g'_def)
    next
      case False
      obtain zs where zs: "cr e = Some zs" using i(4) by blast
      have "q \<in> set zs" using qe False xs zs by (auto simp: the ys split: if_splits)
      then obtain t where "\<forall>t'. pending g t' = Some (e, q) \<longleftrightarrow> t' = t" using i(9) [OF zs] by blast
      moreover from this have "t \<noteq> ?cur" using p by (metis option.distinct(1))
      ultimately show ?thesis using False by (intro exI [of _ t]) (auto simp: g'_def)
    qed
    show "waiting_for (dk g') (the (cs' BlockList)) q t"
      if w: "pending g' t = Some (e, q)" "serving g' e \<noteq> Some q" for e t q
    proof (cases "t = ?cur")
      case True
      then have "q = r" "e = d" "xs \<noteq> []" using w by (auto simp: g'_def)
      then show ?thesis using q(5) True by (simp add: waiting_for_def g'_def)
    next
      case False
      then have pg: "pending g t = Some (e, q)" using w(1) by (simp add: g'_def)
      obtain zs where zs: "cr e = Some zs" using i(4) by blast
      have "q \<in> set zs" by (rule i(8) [OF zs pg])
      then have "q \<noteq> r" "xs = [] \<Longrightarrow> e \<noteq> d" using old [OF zs] xs zs by auto
      moreover from this have "serving g e \<noteq> Some q" using w(2) by (auto simp: g'_def split: if_splits)
      then have "waiting_for (dk g) bl q t" by (rule i(10) [OF bl pg])
      ultimately show ?thesis using q(5) rt(1) [of q] bl by (auto simp: waiting_for_def g'_def split: if_splits)
    qed
    show "sorted (map (req_key (dk g')) (the ((cr(d \<mapsto> ys)) e)))" for e
    proof -
      obtain zs where zs: "cr e = Some zs" using i(4) by blast
      have s: "sorted (map (req_key st') zs)" if z: "cr e = Some zs" for e zs
      proof -
        have "map (req_key st') zs = map (req_key (dk g)) zs"
          using old [OF z] by (intro map_cong refl rt(2)) auto
        then show ?thesis using i(11) [OF z] by (simp only:)
      qed
      show ?thesis
      proof (cases "e = d")
        case True
        have "sorted (map (req_key st) xs)" using s [OF xs] unfolding rk .
        then have "sorted (map (req_key st) ys)" unfolding ys_def by (rule sorted_insert_key)
        then show ?thesis using True rk by (simp add: g'_def)
      next
        case False
        then show ?thesis using s [OF zs] zs by (simp add: g'_def)
      qed
    qed
  qed
  then show ?thesis using q(1) unfolding g'_def by blast
qed

lemma request_size: "unat REQUEST_BYTES + 4111 < 2 ^ 32"
  by (simp add: REQUEST_BYTES_def)

lemma enter_step:
  assumes inv: "dev_inv g cs cr L" and p: "pending g (current (dk g)) = None"
    and idle: "idle_task (dk g) \<noteq> Some (current (dk g))"
  shows "case request_enter dev buf count idx flags typ (dev_off (dk g)) of
      Inl e \<Rightarrow> request_target dev (dev_off (dk g)) = Inl e \<or> e = Panic ''scan page fail!!!''
    | Inr (d, r, go, st') \<Rightarrow> \<exists>cs' cr' L'. dev_inv (g\<lparr>dk := st',
        pending := (pending g)(current (dk g) := Some (d, r)),
        serving := (if go then (serving g)(d := Some r) else serving g)\<rparr>) cs' cr' L'"
proof (cases "request_target dev (dev_off (dk g))")
  case (Inl e)
  then show ?thesis by (simp add: request_enter_def)
next
  case (Inr x)
  note i = dev_invD [OF inv]
  obtain d start st0 where x: "x = (d, start, st0)" by (cases x)
  obtain w where w: "st0 = (dev_off (dk g))\<lparr>world := w\<rparr>" using request_target_frame Inr x by blast
  have heap: "sound_heap (kheap st0) L" using i(2) by (simp add: w)
  show ?thesis
  proof (cases "kmalloc REQUEST_BYTES (kheap st0)")
    case (Inl e)
    have "alloc_spec REQUEST_BYTES (kheap st0) L (Inl e)" using kmalloc_ok [OF heap request_size] Inl by simp
    then show ?thesis using Inr x Inl by (simp add: request_enter_def alloc_spec_def)
  next
    case (Inr y)
    obtain r kh where y: "y = (r, kh)" by (cases y)
    note al = heap request_size Inr [unfolded y]
    obtain s where s: "sound_heap kh (L(r \<mapsto> s))" using ha.alloc_law [OF al] by blast
    have new: "L r = None" by (rule ha.alloc_new [OF al])
    define st1 where "st1 = st0\<lparr>requests := (requests st0)(r := \<lparr>r_dev = d_dev (devices st0 ! d), r_type = typ,
        r_idx = idx + start, r_count = ucast count, r_flags = flags, r_buf = buf, r_task = None\<rparr>), kheap := kh\<rparr>"
    have "sched_inv st1 cs" using i(1) by (simp add: st1_def w)
    moreover have "sound_heap (kheap st1) (L(r \<mapsto> s))" "\<not> intr st1" "idle_task st1 \<noteq> Some (current st1)"
      "current st1 = current (dk g)" "req_nodes st1 = req_nodes (dk g)"
      using s idle dev_off_simps(6) [of "dk g"] by (simp_all add: st1_def w)
    moreover have "requests st1 q = requests (dk g) q" if "q \<noteq> r" for q using that by (simp add: st1_def w)
    ultimately obtain go st' cs' cr' where q: "queue_request d r st1 = Inr (go, st')"
        "dev_inv (g\<lparr>dk := st', pending := (pending g)(current (dk g) := Some (d, r)),
            serving := (if go then (serving g)(d := Some r) else serving g)\<rparr>) cs' cr' (L(r \<mapsto> s))"
      using enter_inv [OF inv p, of st1 r s d] new by blast
    have eq: "request_enter dev buf count idx flags typ (dev_off (dk g)) = Inr (d, r, go, st')"
      using \<open>request_target dev (dev_off (dk g)) = Inr x\<close> x Inr y q(1)
      by (simp add: request_enter_def st1_def Let_def)
    show ?thesis unfolding eq sum.case prod.case using q(2) by blast
  qed
qed

lemma waiting_off [simp]: "waiting_for (dev_off st) bl r t \<longleftrightarrow> waiting_for st bl r t"
  by (simp add: waiting_for_def)

lemma leave_step:
  assumes inv: "dev_inv g cs cr L" and p: "pending g (current (dk g)) = Some (d, r)" and s: "serving g d = Some r"
  shows "\<exists>nxt st'' st' cs' cr' L'. request_nextreq d r (dk g) = Inr (nxt, st'')
    \<and> request_leave d r (dev_off (dk g)) = Inr st'
    \<and> dev_inv (g\<lparr>dk := st', pending := (pending g)(current (dk g) := None), serving := (serving g)(d := nxt)\<rparr>) cs' cr' L'"
proof -
  note i = dev_invD [OF inv]
  let ?cur = "current (dk g)" and ?way = "d_direct (devices (dk g) ! d)"
  obtain xs where xs: "cr d = Some xs" using i(4) by blast
  obtain bl where bl: "cs BlockList = Some bl" using block_list [OF i(1)] by blast
  have "r \<in> set xs" by (rule i(7) [OF xs s])
  then obtain as bs where ab: "xs = as @ r # bs" by (auto dest: split_list)
  have q: "cr d = Some (as @ r # bs)" using xs ab by simp
  have dist: "distinct (as @ r # bs)" using il.rel_distinct [OF i(3) q] .
  have own: "\<exists>t. pending g t = Some (d, z)" if "z \<in> set xs" for z using i(9) [OF xs that] by blast
  have w: "\<exists>t. waiting_for (dk g) bl z t" if z: "next_req ?way as bs = Some z" for z
  proof -
    have "z \<in> set xs" "z \<noteq> r" using next_req_in [OF z] dist ab by auto
    then obtain t where "pending g t = Some (d, z)" using own by blast
    then show ?thesis using i(10) [OF bl, of t d z] s \<open>z \<noteq> r\<close> by auto
  qed
  have "sched_inv (dev_off (dk g)) cs" "sound_heap (kheap (dev_off (dk g))) L" "L r \<noteq> None"
    "store_rel (req_nodes (dev_off (dk g))) cr"
    using i(1-3) i(5) [OF xs \<open>r \<in> set xs\<close>] by simp_all
  from leave_ok [OF this(1) dev_off_simps(6) this(2-4) q bl] w obtain st' where st':
    "request_leave d r (dev_off (dk g)) = Inr st'" "sound_heap (kheap st') (L(r := None))"
    "store_rel (req_nodes st') (cr(d \<mapsto> as @ bs))" "requests st' = requests (dk g)"
    "case next_req ?way as bs of None \<Rightarrow> sched_inv st' cs
       | Some q \<Rightarrow> \<exists>t. waiting_for (dk g) bl q t \<and> state_of st' t = TASK_READY \<and> sched_inv st' (cs(BlockList \<mapsto> remove1 t bl))"
    by (auto cong: option.case_cong)
  define nxt where "nxt = next_req ?way as bs"
  have "\<exists>cs' bl'. sched_inv st' cs' \<and> cs' BlockList = Some bl'
      \<and> (\<forall>t z e. pending g t = Some (e, z) \<longrightarrow> serving g e \<noteq> Some z \<longrightarrow> (e, Some z) \<noteq> (d, nxt) \<longrightarrow> t \<in> set bl \<longrightarrow> t \<in> set bl')"
  proof (cases nxt)
    case None
    then show ?thesis using st'(5) bl by (intro exI [of _ cs] exI [of _ bl]) (simp add: nxt_def)
  next
    case (Some z)
    then obtain t0 where t0: "waiting_for (dk g) bl z t0" "sched_inv st' (cs(BlockList \<mapsto> remove1 t0 bl))"
      using st'(5) by (auto simp: nxt_def)
    have z: "z \<in> set xs" "z \<noteq> r" using next_req_in [of ?way as bs z] Some dist ab by (auto simp: nxt_def)
    then obtain t where t: "pending g t = Some (d, z)" using own by blast
    have "waiting_for (dk g) bl z t" using i(10) [OF bl t] s z(2) by auto
    then have "t = t0" using t0(1) by (simp add: waiting_for_def)
    have "u \<in> set (remove1 t0 bl)" if "pending g u = Some (e, y)" "(e, Some y) \<noteq> (d, nxt)" "u \<in> set bl" for u e y
    proof -
      have "u \<noteq> t0" using that(1,2) t Some \<open>t = t0\<close> by auto
      then show ?thesis using that(3) by (simp add: in_set_remove1)
    qed
    then show ?thesis using t0(2) by (intro exI [of _ "cs(BlockList \<mapsto> remove1 t0 bl)"] exI [of _ "remove1 t0 bl"]) auto
  qed
  then obtain cs' bl' where cs': "sched_inv st' cs'" "cs' BlockList = Some bl'"
    "\<And>t z e. pending g t = Some (e, z) \<Longrightarrow> serving g e \<noteq> Some z \<Longrightarrow> (e, Some z) \<noteq> (d, nxt) \<Longrightarrow> t \<in> set bl \<Longrightarrow> t \<in> set bl'"
    by blast
  have key: "req_key st' = req_key (dk g)" by (simp add: req_key_def fun_eq_iff st'(4))
  define g' where "g' = g\<lparr>dk := st', pending := (pending g)(?cur := None), serving := (serving g)(d := nxt)\<rparr>"
  have the: "the ((cr(d \<mapsto> as @ bs)) e) = (if e = d then as @ bs else the (cr e))" for e by simp
  have uniq: "t = ?cur" if "pending g t = Some (d, r)" for t using i(9) [OF xs \<open>r \<in> set xs\<close>] that p by metis
  have "dev_inv g' cs' (cr(d \<mapsto> as @ bs)) (L(r := None))"
  proof (rule dev_invI)
    show "sched_inv (dk g') cs'" "sound_heap (kheap (dk g')) (L(r := None))" "store_rel (req_nodes (dk g')) (cr(d \<mapsto> as @ bs))"
      using st' cs' by (simp_all add: g'_def)
    show "(cr(d \<mapsto> as @ bs)) e \<noteq> None" for e using i(4) [of e] by simp
    fix e
    obtain zs where zs: "cr e = Some zs" using i(4) by blast
    have rz: "r \<notin> set zs" if "e \<noteq> d" using il.rel_disjoint [OF i(3)] q zs that by (fastforce simp: disjoint_lists_def)
    show "(L(r := None)) z \<noteq> None" if "z \<in> set (the ((cr(d \<mapsto> as @ bs)) e))" for z
      using that i(5) [OF zs, of z] i(5) [OF q, of z] rz dist zs by (auto simp: the split: if_splits)
    show "serving g' e = None \<longleftrightarrow> the ((cr(d \<mapsto> as @ bs)) e) = []"
      using i(6) [OF zs] zs by (simp add: the g'_def nxt_def next_req_None)
    show "z \<in> set (the ((cr(d \<mapsto> as @ bs)) e))" if "serving g' e = Some z" for z
      using that i(7) [OF zs, of z] zs next_req_in [of ?way as bs z] by (auto simp: the g'_def nxt_def split: if_splits)
    show "z \<in> set (the ((cr(d \<mapsto> as @ bs)) e))" if pz: "pending g' t = Some (e, z)" for t z
    proof -
      have "t \<noteq> ?cur" "pending g t = Some (e, z)" using pz by (auto simp: g'_def split: if_splits)
      moreover from this have "z \<in> set zs" using i(8) [OF zs] by blast
      ultimately show ?thesis using zs q uniq [of t] by (cases "e = d"; cases "z = r") (auto simp: the)
    qed
    show "\<exists>t. \<forall>t'. pending g' t' = Some (e, z) \<longleftrightarrow> t' = t" if zz: "z \<in> set (the ((cr(d \<mapsto> as @ bs)) e))" for z
    proof -
      have z: "z \<in> set zs" "(e, z) \<noteq> (d, r)" using zz q zs dist by (auto simp: the split: if_splits)
      then obtain t where t: "\<forall>t'. pending g t' = Some (e, z) \<longleftrightarrow> t' = t" using i(9) [OF zs] by blast
      have "t \<noteq> ?cur"
      proof
        assume "t = ?cur"
        then have "pending g ?cur = Some (e, z)" using t by blast
        then show False using p z(2) by auto
      qed
      then show ?thesis using t by (intro exI [of _ t]) (auto simp: g'_def)
    qed
    show "waiting_for (dk g') (the (cs' BlockList)) z t"
      if w: "pending g' t = Some (e, z)" "serving g' e \<noteq> Some z" for t z
    proof -
      have t: "t \<noteq> ?cur" "pending g t = Some (e, z)" using w(1) by (auto simp: g'_def split: if_splits)
      have "serving g e \<noteq> Some z"
      proof
        assume "serving g e = Some z"
        then have "e = d" "z = r" using w(2) s by (auto simp: g'_def split: if_splits)
        then show False using uniq t by simp
      qed
      moreover from i(10) [OF bl t(2) this] have "waiting_for (dk g) bl z t" .
      moreover have "(e, Some z) \<noteq> (d, nxt)" using w(2) by (auto simp: g'_def)
      ultimately show ?thesis using cs'(2,3) t(2) st'(4) by (auto simp: waiting_for_def g'_def)
    qed
    show "sorted (map (req_key (dk g')) (the ((cr(d \<mapsto> as @ bs)) e)))"
      using i(11) [OF zs] i(11) [OF q] zs by (auto simp: the g'_def key sorted_append)
  qed
  moreover have "request_nextreq d r (dk g) = Inr (nxt, set_direct d (turn ?way as bs) (dk g))"
    using nextreq_ok [OF i(3) q] by (simp add: nxt_def)
  ultimately show ?thesis using st'(1) unfolding g'_def by blast
qed

lemma dev_inv_kernel:
  assumes inv: "dev_inv g cs cr L" and s: "sched_inv st' cs'"
    and same: "kheap st' = kheap (dk g)" "req_nodes st' = req_nodes (dk g)" "requests st' = requests (dk g)"
    and w: "\<And>t d r. pending g t = Some (d, r) \<Longrightarrow> serving g d \<noteq> Some r \<Longrightarrow> t \<in> set (the (cs BlockList))
      \<Longrightarrow> t \<in> set (the (cs' BlockList))"
  shows "dev_inv (g\<lparr>dk := st'\<rparr>) cs' cr L"
proof -
  note i = dev_invD [OF inv]
  have key: "req_key st' = req_key (dk g)" by (simp add: req_key_def fun_eq_iff same(3))
  obtain bl where bl: "cs BlockList = Some bl" using block_list [OF i(1)] by blast
  show ?thesis
  proof (rule dev_invI)
    fix d
    obtain xs where xs: "cr d = Some xs" using i(4) by blast
    then have [simp]: "the (cr d) = xs" by simp
    show "cr d \<noteq> None" using xs by simp
    show "r \<in> set (the (cr d)) \<Longrightarrow> L r \<noteq> None" for r using i(5) [OF xs] by simp
    show "serving (g\<lparr>dk := st'\<rparr>) d = None \<longleftrightarrow> the (cr d) = []" using i(6) [OF xs] by simp
    show "serving (g\<lparr>dk := st'\<rparr>) d = Some r \<Longrightarrow> r \<in> set (the (cr d))" for r using i(7) [OF xs] by simp
    show "pending (g\<lparr>dk := st'\<rparr>) t = Some (d, r) \<Longrightarrow> r \<in> set (the (cr d))" for t r using i(8) [OF xs] by simp
    show "r \<in> set (the (cr d)) \<Longrightarrow> \<exists>t. \<forall>t'. pending (g\<lparr>dk := st'\<rparr>) t' = Some (d, r) \<longleftrightarrow> t' = t" for r
      using i(9) [OF xs] by simp
    show "sorted (map (req_key (dk (g\<lparr>dk := st'\<rparr>))) (the (cr d)))" using i(11) [OF xs] by (simp add: key)
    show "waiting_for (dk (g\<lparr>dk := st'\<rparr>)) (the (cs' BlockList)) r t"
      if "pending (g\<lparr>dk := st'\<rparr>) t = Some (d, r)" "serving (g\<lparr>dk := st'\<rparr>) d \<noteq> Some r" for t r
    proof -
      have p: "pending g t = Some (d, r)" "serving g d \<noteq> Some r" using that by simp_all
      from i(10) [OF bl p] w [OF p] bl show ?thesis by (simp add: waiting_for_def same(3))
    qed
  qed (use s i(2,3) same in simp_all)
qed

lemma other_step:
  assumes inv: "dev_inv g cs cr L" and "allowed e (dk g)" and d: "driver_event e g" and p: "perform e (dk g) = Inr st'"
  shows "\<exists>cs'. dev_inv (g\<lparr>dk := st'\<rparr>) cs' cr L"
proof -
  note i = dev_invD [OF inv]
  obtain cs' where cs': "sched_inv st' cs'" "kernel_t.more st' = kernel_t.more (dk g)"
    "\<forall>q. q \<noteq> SleepList \<longrightarrow> the (cs' q) = after_event e (current (dk g)) q (the (cs q))"
    using perform_queues [OF i(1) assms(2)] p by auto
  have "dev_inv (g\<lparr>dk := st'\<rparr>) cs' cr L"
  proof (rule dev_inv_kernel [OF inv cs'(1)])
    fix t d r assume w: "pending g t = Some (d, r)" "serving g d \<noteq> Some r" "t \<in> set (the (cs BlockList))"
    have "e \<noteq> Unblock t" using d w by auto
    then have "t \<in> set (after_event e (current (dk g)) BlockList (the (cs BlockList)))"
      using w(3) by (cases e) (auto simp: after_event_def in_set_remove1)
    then show "t \<in> set (the (cs' BlockList))" using cs'(3) by simp
  qed (use dev_more [OF cs'(2)] in simp_all)
  then show ?thesis by blast
qed

lemma serve_step:
  assumes inv: "dev_inv g cs cr L" and "do_request r (dev_off (dk g)) = Inr st'"
  shows "dev_inv (g\<lparr>dk := st'\<rparr>) cs cr L"
proof -
  obtain w where w: "st' = (dev_off (dk g))\<lparr>world := w\<rparr>" using do_request_frame [OF assms(2)] by blast
  show ?thesis by (rule dev_inv_kernel [OF inv]) (use dev_invD(1) [OF inv] in \<open>simp_all add: w\<close>)
qed

lemma dev_step_inv:
  assumes "dev_step g g'" and inv: "dev_inv g cs cr L"
  shows "\<exists>cs cr L. dev_inv g' cs cr L"
  using assms(1)
proof (cases rule: dev_step.cases)
  case (enter dev buf count idx flags ty d r go st')
  have e: "case request_enter dev buf count idx flags ty (dev_off (dk g)) of
      Inl e \<Rightarrow> request_target dev (dev_off (dk g)) = Inl e \<or> e = Panic ''scan page fail!!!''
    | Inr (d, r, go, st') \<Rightarrow> \<exists>cs' cr' L'. dev_inv (g\<lparr>dk := st',
        pending := (pending g)(current (dk g) := Some (d, r)),
        serving := (if go then (serving g)(d := Some r) else serving g)\<rparr>) cs' cr' L'"
    by (rule enter_step [OF inv enter(2,3)])
  show ?thesis using e unfolding enter(1,4) sum.case prod.case .
next
  case serve
  then show ?thesis using serve_step [OF inv] by blast
next
  case (leave d r nxt st'' st')
  from leave_step [OF inv leave(2,3)] obtain n s2 s' cs' cr' L' where l:
    "request_nextreq d r (dk g) = Inr (n, s2)" "request_leave d r (dev_off (dk g)) = Inr s'"
    "dev_inv (g\<lparr>dk := s', pending := (pending g)(current (dk g) := None), serving := (serving g)(d := n)\<rparr>) cs' cr' L'"
    by blast
  have "n = nxt" "s' = st'" using l(1,2) leave(4,5) by simp_all
  then show ?thesis using l(3) unfolding leave(1) by blast
next
  case other
  then show ?thesis using other_step [OF inv] by blast
qed

text \<open>Before the first request.\<close>

definition dev_start :: "('w, 'a) dev_conf \<Rightarrow> bool" where
  "dev_start g \<longleftrightarrow> (\<exists>cs. sched_inv (dk g) cs) \<and> (\<exists>L. sound_heap (kheap (dk g)) L)
     \<and> store_rel (req_nodes (dk g)) (\<lambda>_. Some []) \<and> pending g = (\<lambda>_. None) \<and> serving g = (\<lambda>_. None)"

lemma dev_start_inv:
  assumes "dev_start g"
  shows "\<exists>cs cr L. dev_inv g cs cr L"
proof -
  obtain cs L where s: "sched_inv (dk g) cs" "sound_heap (kheap (dk g)) L"
    "store_rel (req_nodes (dk g)) (\<lambda>_. Some [])" "pending g = (\<lambda>_. None)" "serving g = (\<lambda>_. None)"
    using assms by (auto simp: dev_start_def)
  have "dev_inv g cs (\<lambda>_. Some []) L" by (rule dev_invI) (use s in simp_all)
  then show ?thesis by blast
qed

lemma dev_reached:
  assumes "dev_step\<^sup>*\<^sup>* g0 g" and "dev_start g0"
  shows "\<exists>cs cr L. dev_inv g cs cr L"
  using assms(1)
proof (induction rule: rtranclp_induct)
  case base
  show ?case by (rule dev_start_inv [OF assms(2)])
next
  case (step g g')
  then show ?case using dev_step_inv by blast
qed

section \<open>The order of service\<close>

text \<open>When no new request arrives, each request that finishes hands over to the next one.\<close>

fun drain :: "nat \<Rightarrow> nat \<Rightarrow> u32 \<Rightarrow> ('w, 'a) dev_state_scheme \<Rightarrow> (u32 list \<times> ('w, 'a) dev_state_scheme) res" where
  "drain 0 d r st = Inl NoReturn"
| "drain (Suc n) d r st =
     bindE (request_nextreq d r st) (\<lambda>(nxt, _).
     bindE (request_leave d r st) (\<lambda>st.
     case nxt of None \<Rightarrow> Inr ([r], st)
     | Some q \<Rightarrow> bindE (drain n d q st) (\<lambda>(rs, st). Inr (r # rs, st))))"

definition sweep :: "direct_t \<Rightarrow> 'r list \<Rightarrow> 'r \<Rightarrow> 'r list \<Rightarrow> 'r list" where
  "sweep way as r bs = (if way = DIRECT_UP then r # bs @ rev as else r # rev as @ bs)"

lemma next_req_cases:
  assumes "next_req way as bs = Some q"
  obtains (up) bs' where "bs = q # bs'" "turn way as bs = DIRECT_UP" "way = DIRECT_UP \<or> as = []"
    | (down) as' where "as = as' @ [q]" "turn way as bs = DIRECT_DOWN" "way = DIRECT_DOWN \<or> bs = []"
proof (cases "turn way as bs = DIRECT_UP")
  case True
  then show ?thesis using assms up by (cases bs) (auto simp: next_req_def turn_def split: if_splits)
next
  case False
  then have "turn way as bs = DIRECT_DOWN" by (cases "turn way as bs") auto
  then show ?thesis using assms down
    by (cases as rule: rev_cases) (auto simp: next_req_def turn_def split: if_splits)
qed

lemma drain_order:
  assumes "sched_inv st cs" and "\<not> intr st" and "sound_heap (kheap st) L" and "\<forall>q \<in> set (as @ r # bs). L q \<noteq> None"
    and "store_rel (req_nodes st) cr" and "cr d = Some (as @ r # bs)" and "d < length (devices st)"
    and "cs BlockList = Some bl" and "\<forall>q \<in> set (as @ bs). waiting_for st bl q (f q)" and "inj_on f (set (as @ bs))"
    and "length (as @ r # bs) \<le> n"
  shows "\<exists>st'. drain n d r st = Inr (sweep (d_direct (devices st ! d)) as r bs, st')
    \<and> store_rel (req_nodes st') (cr(d \<mapsto> []))"
  using assms
proof (induction n arbitrary: st cs L as r bs cr bl)
  case 0
  then show ?case by simp
next
  case (Suc n)
  let ?way = "d_direct (devices st ! d)"
  have Lr: "L r \<noteq> None" using Suc.prems(4) by simp
  have w: "\<exists>t. waiting_for st bl q t" if "next_req ?way as bs = Some q" for q
    using next_req_in [OF that] Suc.prems(9) by blast
  obtain st' where st': "request_leave d r st = Inr st'" "sound_heap (kheap st') (L(r := None))"
    "store_rel (req_nodes st') (cr(d \<mapsto> as @ bs))" "requests st' = requests st" "intr st' = intr st"
    "devices st' = (devices st)[d := (devices st ! d)\<lparr>d_direct := turn ?way as bs\<rparr>]"
    "case next_req ?way as bs of None \<Rightarrow> sched_inv st' cs
       | Some q \<Rightarrow> \<exists>t. waiting_for st bl q t \<and> state_of st' t = TASK_READY \<and> sched_inv st' (cs(BlockList \<mapsto> remove1 t bl))"
    using leave_ok [OF Suc.prems(1-3) Lr Suc.prems(5,6,8) w] by blast
  have nx: "request_nextreq d r st = Inr (next_req ?way as bs, set_direct d (turn ?way as bs) st)"
    by (rule nextreq_ok [OF Suc.prems(5,6)])
  have dist: "distinct (as @ r # bs)" using il.rel_distinct [OF Suc.prems(5,6)] .
  show ?case
  proof (cases "next_req ?way as bs")
    case None
    then have "as = []" "bs = []" using next_req_None by metis+
    then show ?thesis using None nx st'(1,3) by (simp add: sweep_def del: fun_upd_apply)
  next
    case (Some q)
    then obtain t where t: "waiting_for st bl q t" "sched_inv st' (cs(BlockList \<mapsto> remove1 t bl))"
      using st'(7) by auto
    have q: "q \<in> set (as @ bs)" by (rule next_req_in [OF Some])
    then have tq: "t = f q" using t(1) Suc.prems(9) by (auto simp: waiting_for_def)
    have way': "d_direct (devices st' ! d) = turn ?way as bs" using st'(6) Suc.prems(7) by simp
    have len: "d < length (devices st')" using st'(6) Suc.prems(7) by simp
    have wait: "waiting_for st' (remove1 t bl) z (f z)" if z: "z \<in> set (as @ bs)" "z \<noteq> q" for z
    proof -
      have "f z \<noteq> f q" using inj_onD [OF Suc.prems(10)] z q by blast
      moreover have "waiting_for st bl z (f z)" using Suc.prems(9) z(1) by blast
      ultimately show ?thesis using tq st'(4) by (simp add: waiting_for_def in_set_remove1)
    qed
    have step: "drain (Suc n) d r st = bindE (drain n d q st') (\<lambda>(rs, st). Inr (r # rs, st))"
      using nx st'(1) Some by simp
    have IH: "\<exists>st''. drain n d q st' = Inr (sweep (turn ?way as bs) as' q bs', st'') \<and> store_rel (req_nodes st'') (cr(d \<mapsto> []))"
      if ab: "as @ bs = as' @ q # bs'" for as' bs'
    proof -
      have dq: "distinct (as' @ q # bs')" "r \<notin> set (as' @ q # bs')" using dist unfolding ab [symmetric] by auto
      have "\<exists>st''. drain n d q st' = Inr (sweep (d_direct (devices st' ! d)) as' q bs', st'')
          \<and> store_rel (req_nodes st'') ((cr(d \<mapsto> as @ bs))(d \<mapsto> []))"
      proof (rule Suc.IH [OF t(2) _ st'(2) _ st'(3) _ len])
        show "\<not> intr st'" using st'(5) Suc.prems(2) by simp
        show "\<forall>z \<in> set (as' @ q # bs'). (L(r := None)) z \<noteq> None"
          using Suc.prems(4) dq(2) unfolding ab [symmetric] by auto
        show "(cr(d \<mapsto> as @ bs)) d = Some (as' @ q # bs')" using ab by simp
        show "(cs(BlockList \<mapsto> remove1 t bl)) BlockList = Some (remove1 t bl)" by simp
        show "\<forall>z \<in> set (as' @ bs'). waiting_for st' (remove1 t bl) z (f z)"
        proof
          fix z assume "z \<in> set (as' @ bs')"
          then have "z \<in> set (as @ bs)" "z \<noteq> q" using dq(1) unfolding ab by auto
          then show "waiting_for st' (remove1 t bl) z (f z)" by (rule wait)
        qed
        show "inj_on f (set (as' @ bs'))" using Suc.prems(10) unfolding ab by (rule inj_on_subset) auto
        show "length (as' @ q # bs') \<le> n" using Suc.prems(11) arg_cong [OF ab, of length] by simp
      qed
      then show ?thesis by (simp add: way')
    qed
    from Some show ?thesis
    proof (cases rule: next_req_cases)
      case (up bs')
      then obtain st'' where "drain n d q st' = Inr (sweep DIRECT_UP as q bs', st'')" "store_rel (req_nodes st'') (cr(d \<mapsto> []))"
        using IH [of as bs'] by auto
      then show ?thesis using step up by (auto simp: sweep_def simp del: fun_upd_apply)
    next
      case (down as')
      then obtain st'' where "drain n d q st' = Inr (sweep DIRECT_DOWN as' q bs, st'')" "store_rel (req_nodes st'') (cr(d \<mapsto> []))"
        using IH [of as' bs] by auto
      then show ?thesis using step down by (auto simp: sweep_def simp del: fun_upd_apply)
    qed
  qed
qed

section \<open>An example\<close>

text \<open>One disk, device 1, and a task that runs.\<close>

definition example_disk :: "nat device_t" where
  "example_disk = \<lparr>d_name = replicate 16 0, d_type = DEV_BLOCK, d_subtype = DEV_IDE_DISK, d_dev = 1, d_parent = 0,
     d_ptr = 0, d_direct = DIRECT_UP, d_ioctl = Some (\<lambda>_ _ _ _ w. Inr (0, w)),
     d_read = Some (\<lambda>_ _ _ _ _ w. Inr (0, Suc w)), d_write = None\<rparr>"

definition no_requests :: "(nat, u32) heap" where
  "no_requests a = (case a of
      Head d \<Rightarrow> \<lparr>node_prev = None, node_next = Some (Tail d)\<rparr>
    | Tail d \<Rightarrow> \<lparr>node_prev = Some (Head d), node_next = None\<rparr>
    | Node r \<Rightarrow> \<lparr>node_prev = None, node_next = None\<rparr>)"

definition example_dev :: "arena_state \<Rightarrow> nat dev_state" where
  "example_dev A = \<lparr>ports = \<lambda>_. 0, outs = [], intr = False,
     task_table = [Some 0x10000, Some 0x20000] @ replicate 62 None,
     tasks = (\<lambda>p. example_task (if p = 0x10000 then TASK_READY else TASK_RUNNING)),
     nodes = no_nodes, idle_task = Some 0x10000, current = 0x20000, jiffies = 0, beeping = 0,
     cr3 = KERNEL_PAGE_DIR, esp0 = 0, devices = (replicate 64 example_disk)[0 := example_disk\<lparr>d_type := DEV_NULL\<rparr>],
     requests = (\<lambda>_. \<lparr>r_dev = 0, r_type = 0, r_idx = 0, r_count = 0, r_flags = 0, r_buf = 0, r_task = None\<rparr>),
     req_nodes = no_requests, kheap = A, world = 0\<rparr>"

lemma no_requests_rel: "store_rel no_requests (\<lambda>_. Some [])"
  by (auto simp: store_rel_def disjoint_lists_def is_list_def cells_def no_requests_def detached_def)

lemma example_dev_inv: "sched_inv (example_dev A) (\<lambda>_. Some [])"
proof -
  have "kernel_t.truncate (example_dev A) = kernel_t.truncate example_lock"
    by (simp add: kernel_t.truncate_def example_dev_def example_lock_def)
  then have "sched_inv (kernel_t.truncate (example_dev A)) (\<lambda>_. Some [])"
    using example_lock_inv sched_truncate by metis
  then show ?thesis by (simp add: sched_truncate)
qed

definition example_conf :: "arena_state \<Rightarrow> (nat, unit) dev_conf" where
  "example_conf A = \<lparr>dk = example_dev A, pending = (\<lambda>_. None), serving = (\<lambda>_. None)\<rparr>"

lemma example_conf_start: "sound_heap A L \<Longrightarrow> dev_start (example_conf A)"
  using example_dev_inv [of A] no_requests_rel by (auto simp: dev_start_def example_conf_def example_dev_def)

text \<open>The task asks for a sector of the disk and goes on at once.\<close>

lemma example_conf_step:
  obtains A r st' g where "sound_heap A Map.empty" "dev_step (example_conf A) g" "serving g 1 = Some r"
    "pending g 0x20000 = Some (1, r)" "current (dk g) = 0x20000" "length (devices (dk g)) = 64"
proof -
  obtain A where A: "arena_init example_arena = Inr A" "sound_heap A Map.empty"
    "bm_run (kernel_map (heap_mem A)) 256 1" by (rule example_arena_sound)
  let ?g = "example_conf A" and ?st = "dev_off (dk (example_conf A))"
  have t: "request_target 1 ?st = Inr (1, 0, ?st)"
    by (simp add: request_target_def device_get_def device_ioctl_def example_conf_def example_dev_def dev_off_def
        example_disk_def DEVICE_NR_def DEV_NULL_def DEV_BLOCK_def word_sless_alt)
  have k: "kheap ?st = A" "current ?st = 0x20000" "pending ?g (current (dk ?g)) = None"
    "idle_task (dk ?g) \<noteq> Some (current (dk ?g))" "serving ?g = (\<lambda>_. None)" "current (dk ?g) = 0x20000"
    by (simp_all add: example_conf_def example_dev_def)
  have "alloc_spec REQUEST_BYTES A Map.empty (kmalloc REQUEST_BYTES A)" by (rule kmalloc_ok [OF A(2) request_size])
  then obtain r kh where al: "kmalloc REQUEST_BYTES A = Inr (r, kh)"
    using A(3) by (auto simp: alloc_spec_def REQUEST_BYTES_def split: sum.splits)
  define st1 where "st1 = ?st\<lparr>requests := (requests ?st)(r := \<lparr>r_dev = d_dev (devices ?st ! 1), r_type = REQ_READ,
      r_idx = 7 + 0, r_count = ucast (2 :: u8), r_flags = 0, r_buf = 0, r_task = None\<rparr>), kheap := kh\<rparr>"
  have "sched_inv st1 (\<lambda>_. Some [])" "\<not> intr st1" "idle_task st1 \<noteq> Some (current st1)"
    "store_rel (req_nodes st1) (\<lambda>_. Some [])"
    using example_dev_inv [of A] no_requests_rel k dev_off_simps(6) [of "example_dev A"]
    by (simp_all add: st1_def example_conf_def) (simp_all add: example_dev_def)
  from queue_request_ok [OF this, where d = 1 and r = r and xs = "[]"] obtain st' where q: "queue_request 1 r st1 = Inr (True, st')"
    "devices st' = devices st1"
    by (auto simp: unlinked_def)
  have cur: "current st' = 0x20000"
    using q(1) k(2) by (auto simp: queue_request_def Let_def list_empty_def st1_def example_conf_def example_dev_def
        no_requests_def bindE_eq_Inr dev_off_def split: if_splits)
  have e: "request_enter 1 0 2 7 0 REQ_READ ?st = Inr (1, r, True, st')"
    using t al q(1) k(1) by (simp add: request_enter_def st1_def Let_def)
  define g where "g = ?g\<lparr>dk := st', pending := (pending ?g)(current (dk ?g) := Some (1, r)),
      serving := (if True then (serving ?g)(1 := Some r) else serving ?g)\<rparr>"
  have "dev_step ?g g" unfolding g_def by (rule dev_step.enter [OF k(3,4) e])
  moreover have "serving g 1 = Some r" "pending g 0x20000 = Some (1, r)" by (simp_all add: g_def k(6))
  moreover have "current (dk g) = 0x20000" using cur by (simp add: g_def)
  moreover have "length (devices (dk g)) = 64" using q(2)
    by (simp add: g_def st1_def example_conf_def) (simp add: example_dev_def)
  ultimately show ?thesis using that A(2) by blast
qed

section \<open>Properties\<close>





end
