(* ===== verification/Time.thy ===== *)
theory Time
  imports Task Cstring "HOL-Library.Signed_Division"
begin

text \<open>
  The real-time clock: \<^verbatim>\<open>kernel/time.c\<close> (reading the date from the CMOS and turning it into
  seconds since 1970) and \<^verbatim>\<open>kernel/rtc.c\<close> (the registers and the alarm).

  The chip runs by itself, so what a read of a register answers depends on when it happens:
  \<open>cmos s n a\<close> is the answer of the \<open>n\<close>-th read, of register \<open>a\<close>, and \<open>cmos_reads\<close> counts the reads.
  Fields of a date are C \<^verbatim>\<open>int\<close>s; an overflowing sum or product of them is \<open>Undefined\<close>.
\<close>

section \<open>The CMOS registers\<close>

record rtc_state = kernel_t +
  cmos :: "nat \<Rightarrow> u8 \<Rightarrow> u8"
  cmos_reads :: nat
  century :: int
  startup_time :: u32

definition CMOS_ADDR :: u16 where "CMOS_ADDR = 0x70"
definition CMOS_DATA :: u16 where "CMOS_DATA = 0x71"
definition CMOS_NMI :: u8 where "CMOS_NMI = 0x80"
definition CMOS_SECOND :: u8 where "CMOS_SECOND = 0x00"
definition CMOS_MINUTE :: u8 where "CMOS_MINUTE = 0x02"
definition CMOS_HOUR :: u8 where "CMOS_HOUR = 0x04"
definition CMOS_WEEKDAY :: u8 where "CMOS_WEEKDAY = 0x06"
definition CMOS_DAY :: u8 where "CMOS_DAY = 0x07"
definition CMOS_MONTH :: u8 where "CMOS_MONTH = 0x08"
definition CMOS_YEAR :: u8 where "CMOS_YEAR = 0x09"
definition CMOS_CENTURY :: u8 where "CMOS_CENTURY = 0x32"

text \<open>\<^verbatim>\<open>rtc.c\<close> has its own registers, those of the alarm.\<close>

definition ALARM_SECOND :: u8 where "ALARM_SECOND = 0x01"
definition ALARM_MINUTE :: u8 where "ALARM_MINUTE = 0x03"
definition ALARM_HOUR :: u8 where "ALARM_HOUR = 0x05"
definition CMOS_B :: u8 where "CMOS_B = 0x0b"
definition CMOS_C :: u8 where "CMOS_C = 0x0c"

definition cmos_read :: "u8 \<Rightarrow> 'a rtc_state_scheme \<Rightarrow> u8 \<times> 'a rtc_state_scheme" where
  "cmos_read addr s =
     (let s = outb CMOS_ADDR (CMOS_NMI OR addr) s in
      (cmos s (cmos_reads s) addr, s\<lparr>cmos_reads := cmos_reads s + 1\<rparr>))"

definition cmos_write :: "u8 \<Rightarrow> u8 \<Rightarrow> 'a rtc_state_scheme \<Rightarrow> 'a rtc_state_scheme" where
  "cmos_write addr v s =
     (let s = outb CMOS_ADDR (CMOS_NMI OR addr) s in outb CMOS_DATA v s)"

section \<open>Dates\<close>

record tm =
  tm_sec :: int
  tm_min :: int
  tm_hour :: int
  tm_mday :: int
  tm_mon :: int
  tm_year :: int
  tm_wday :: int
  tm_yday :: int
  tm_isdst :: int

definition MINUTE :: int where "MINUTE = 60"
definition HOUR :: int where "HOUR = 60 * MINUTE"
definition DAY :: int where "DAY = 24 * HOUR"
definition YEAR :: int where "YEAR = 365 * DAY"

text \<open>The days of a leap year before each month; entry 0 is a place holder.\<close>

definition month :: "int list" where
  "month = [0, 0, 31, 31 + 29, 31 + 29 + 31, 31 + 29 + 31 + 30, 31 + 29 + 31 + 30 + 31,
     31 + 29 + 31 + 30 + 31 + 30, 31 + 29 + 31 + 30 + 31 + 30 + 31,
     31 + 29 + 31 + 30 + 31 + 30 + 31 + 31, 31 + 29 + 31 + 30 + 31 + 30 + 31 + 31 + 30,
     31 + 29 + 31 + 30 + 31 + 30 + 31 + 31 + 30 + 31,
     31 + 29 + 31 + 30 + 31 + 30 + 31 + 31 + 30 + 31 + 30]"

definition month_at :: "int \<Rightarrow> int res" where
  "month_at i = (if 0 \<le> i then rd month (nat i) else Inl OutOfBounds)"

definition years_since_1970 :: "tm \<Rightarrow> int res" where
  "years_since_1970 t =
     (if tm_year t \<ge> 70 then cint (tm_year t - 70)
      else bindE (cint (tm_year t - 70)) (\<lambda>y. cint (y + 100)))"

definition mktime :: "tm \<Rightarrow> u32 res" where
  "mktime t =
     bindE (years_since_1970 t) (\<lambda>year.
     bindE (cint (YEAR * year)) (\<lambda>v. let res = word_of_int v in
     bindE (cint (year + 1)) (\<lambda>y. bindE (cint (DAY * (y sdiv 4))) (\<lambda>v. let res = res + word_of_int v in
     bindE (month_at (tm_mon t)) (\<lambda>m. bindE (cint (m * DAY)) (\<lambda>v. let res = res + word_of_int v in
     bindE (if tm_mon t > 2 then bindE (cint (year + 2)) (\<lambda>y. Inr (y smod 4 \<noteq> 0)) else Inr False) (\<lambda>b.
     let res = (if b then res - word_of_int DAY else res) in
     bindE (cint (tm_mday t - 1)) (\<lambda>d. bindE (cint (DAY * d)) (\<lambda>v. let res = res + word_of_int v in
     bindE (cint (HOUR * tm_hour t)) (\<lambda>v. let res = res + word_of_int v in
     bindE (cint (MINUTE * tm_min t)) (\<lambda>v. let res = res + word_of_int v in
     Inr (res + word_of_int (tm_sec t)))))))))))))"

definition get_yday :: "tm \<Rightarrow> int res" where
  "get_yday t =
     bindE (month_at (tm_mon t)) (\<lambda>res.
     bindE (cint (res + tm_mday t)) (\<lambda>res.
     bindE (years_since_1970 t) (\<lambda>year.
     bindE (cint (year + 2)) (\<lambda>y.
     if y smod 4 \<noteq> 0 \<and> tm_mon t > 2 then cint (res - 1) else Inr res))))"

section \<open>Reading the clock\<close>

text \<open>One pass over the registers, ending with the second read of the seconds.\<close>

definition time_pass :: "tm \<Rightarrow> 'a rtc_state_scheme \<Rightarrow> (tm \<times> bool) \<times> 'a rtc_state_scheme" where
  "time_pass t s =
     (let (v, s) = cmos_read CMOS_SECOND s; t = t\<lparr>tm_sec := uint v\<rparr>;
          (v, s) = cmos_read CMOS_MINUTE s; t = t\<lparr>tm_min := uint v\<rparr>;
          (v, s) = cmos_read CMOS_HOUR s; t = t\<lparr>tm_hour := uint v\<rparr>;
          (v, s) = cmos_read CMOS_WEEKDAY s; t = t\<lparr>tm_wday := uint v\<rparr>;
          (v, s) = cmos_read CMOS_DAY s; t = t\<lparr>tm_mday := uint v\<rparr>;
          (v, s) = cmos_read CMOS_MONTH s; t = t\<lparr>tm_mon := uint v\<rparr>;
          (v, s) = cmos_read CMOS_YEAR s; t = t\<lparr>tm_year := uint v\<rparr>;
          (v, s) = cmos_read CMOS_CENTURY s; s = s\<lparr>century := uint v\<rparr>;
          (v, s) = cmos_read CMOS_SECOND s
      in ((t, tm_sec t \<noteq> uint v), s))"

partial_function (option) time_read_bcd ::
  "tm \<Rightarrow> 'a rtc_state_scheme \<Rightarrow> (tm \<times> 'a rtc_state_scheme) option" where
  "time_read_bcd t s =
     (let ((t, again), s) = time_pass t s in if again then time_read_bcd t s else Some (t, s))"

declare time_read_bcd.simps [code]

text \<open>\<^verbatim>\<open>bcd_to_bin\<close> takes a byte: the conversion of an \<^verbatim>\<open>int\<close> keeps its low eight bits.\<close>

definition bin_field :: "int \<Rightarrow> int" where
  "bin_field v = uint (bcd_to_bin (word_of_int v))"

definition time_read :: "tm \<Rightarrow> 'a rtc_state_scheme \<Rightarrow> (tm \<times> 'a rtc_state_scheme) res" where
  "time_read t s =
     (case time_read_bcd t s of None \<Rightarrow> Inl NoReturn
      | Some (t, s) \<Rightarrow>
        let t = t\<lparr>tm_sec := bin_field (tm_sec t)\<rparr>;
            t = t\<lparr>tm_min := bin_field (tm_min t)\<rparr>;
            t = t\<lparr>tm_hour := bin_field (tm_hour t)\<rparr>;
            t = t\<lparr>tm_wday := bin_field (tm_wday t)\<rparr>;
            t = t\<lparr>tm_mday := bin_field (tm_mday t)\<rparr>;
            t = t\<lparr>tm_mon := bin_field (tm_mon t)\<rparr>;
            t = t\<lparr>tm_year := bin_field (tm_year t)\<rparr> in
        bindE (get_yday t) (\<lambda>d.
        Inr (t\<lparr>tm_yday := d, tm_isdst := - 1\<rparr>, s\<lparr>century := bin_field (century s)\<rparr>)))"

text \<open>The local \<^verbatim>\<open>tm\<close> of the callers is uninitialised: \<open>t0\<close> is what it happens to hold.\<close>

definition time_init :: "tm \<Rightarrow> 'a rtc_state_scheme \<Rightarrow> 'a rtc_state_scheme res" where
  "time_init t0 s =
     bindE (time_read t0 s) (\<lambda>(t, s).
     bindE (mktime t) (\<lambda>v. Inr (s\<lparr>startup_time := v\<rparr>)))"

text \<open>The date \<open>secs\<close> seconds later: only the time of day is kept right, the alarm compares no more.\<close>

definition add_secs :: "u32 \<Rightarrow> tm \<Rightarrow> tm" where
  "add_secs secs t =
     (let sec = secs mod 60; secs = secs div 60;
          min = secs mod 60; secs = secs div 60;
          hour = secs;
          t = t\<lparr>tm_sec := tm_sec t + uint sec\<rparr>;
          t = (if tm_sec t \<ge> 60 then t\<lparr>tm_sec := tm_sec t smod 60, tm_min := tm_min t + 1\<rparr> else t);
          t = t\<lparr>tm_min := tm_min t + uint min\<rparr>;
          t = (if tm_min t \<ge> 60 then t\<lparr>tm_min := tm_min t smod 60, tm_hour := tm_hour t + 1\<rparr> else t);
          t = t\<lparr>tm_hour := tm_hour t + uint hour\<rparr>
      in if tm_hour t \<ge> 24 then t\<lparr>tm_hour := tm_hour t smod 24\<rparr> else t)"

definition set_alarm :: "tm \<Rightarrow> u32 \<Rightarrow> 'a rtc_state_scheme \<Rightarrow> 'a rtc_state_scheme res" where
  "set_alarm t0 secs s =
     bindE (time_read t0 s) (\<lambda>(t, s).
     let t = add_secs secs t;
         s = cmos_write ALARM_HOUR (bin_to_bcd (word_of_int (tm_hour t))) s;
         s = cmos_write ALARM_MINUTE (bin_to_bcd (word_of_int (tm_min t))) s;
         s = cmos_write ALARM_SECOND (bin_to_bcd (word_of_int (tm_sec t))) s;
         s = cmos_write CMOS_B 0b00100010 s;
         (v, s) = cmos_read CMOS_C s
     in Inr s)"

definition rtc_handler :: "int \<Rightarrow> 'a rtc_state_scheme \<Rightarrow> 'a rtc_state_scheme res" where
  "rtc_handler vector s = kassert (vector = 0x28) (Inr (start_beep (send_eoi vector s)))"

definition IRQ_RTC :: u32 where "IRQ_RTC = 8"
definition IRQ_CASCADE :: u32 where "IRQ_CASCADE = 2"

text \<open>\<open>handler\<close> is the address of \<open>rtc_handler\<close>.\<close>

definition rtc_init ::
  "u32 \<Rightarrow> idt_state \<Rightarrow> 'a rtc_state_scheme \<Rightarrow> (idt_state \<times> 'a rtc_state_scheme) res" where
  "rtc_init handler t s =
     bindE (set_interrupt_handler IRQ_RTC (Handler handler) t) (\<lambda>t.
     bindE (set_interrupt_mask IRQ_RTC True s) (\<lambda>s.
     bindE (set_interrupt_mask IRQ_CASCADE True s) (\<lambda>s.
     Inr (t, s))))"

section \<open>The calendar\<close>

definition leap :: "nat \<Rightarrow> bool" where
  "leap y \<longleftrightarrow> 4 dvd y \<and> (\<not> 100 dvd y \<or> 400 dvd y)"

definition month_length :: "bool \<Rightarrow> nat \<Rightarrow> nat" where
  "month_length b m =
     (if m = 2 then (if b then 29 else 28) else if m \<in> {4, 6, 9, 11} then 30 else 31)"

definition days_in_month :: "nat \<Rightarrow> nat \<Rightarrow> nat" where
  "days_in_month y m = month_length (leap y) m"

definition days_in_year :: "nat \<Rightarrow> nat" where
  "days_in_year y = sum_list (map (days_in_month y) [1..<13])"

text \<open>The days of year \<open>y\<close> before month \<open>m\<close>, and the days from the start of 1970 to year \<open>y\<close>.\<close>

definition days_to_month :: "nat \<Rightarrow> nat \<Rightarrow> nat" where
  "days_to_month y m = sum_list (map (days_in_month y) [1..<m])"

definition days_to_year :: "nat \<Rightarrow> nat" where
  "days_to_year y = sum_list (map days_in_year [1970..<y])"

definition civil_days :: "nat \<Rightarrow> nat \<Rightarrow> nat \<Rightarrow> nat" where
  "civil_days y m d = days_to_year y + days_to_month y m + (d - 1)"

definition civil_date :: "nat \<Rightarrow> nat \<Rightarrow> nat \<Rightarrow> bool" where
  "civil_date y m d \<longleftrightarrow> 1 \<le> m \<and> m \<le> 12 \<and> 1 \<le> d \<and> d \<le> days_in_month y m"

text \<open>The date as the CMOS has it: the year without its century.\<close>

definition tm_date :: "tm \<Rightarrow> nat \<Rightarrow> nat \<Rightarrow> nat \<Rightarrow> bool" where
  "tm_date t y m d \<longleftrightarrow> tm_year t = int (y mod 100) \<and> tm_mon t = int m \<and> tm_mday t = int d"

text \<open>The arithmetic of the two functions, on year \<open>y\<close> of 1970 to 2069, is the calendar's.\<close>

definition month_days :: "int \<Rightarrow> nat \<Rightarrow> int" where
  "month_days year m = month ! m - (if m > 2 \<and> (year + 2) smod 4 \<noteq> 0 then 1 else 0)"

lemma leap_1970:
  assumes "y < 100"
  shows "leap (1970 + y) \<longleftrightarrow> (int y + 2) mod 4 = 0"
proof -
  have "100 dvd (1970 + y) \<longleftrightarrow> y = 30" using assms by presburger
  moreover have "4 dvd (1970 + y) \<longleftrightarrow> (int y + 2) mod 4 = 0" by presburger
  ultimately show ?thesis by (auto simp: leap_def)
qed

lemma sdiv_4: "0 \<le> i \<Longrightarrow> i sdiv 4 = i div (4 :: int)"
  by (cases "i = 0") (auto simp: signed_divide_int_def sgn_if)

lemma smod_4: "0 \<le> i \<Longrightarrow> i smod 4 = i mod (4 :: int)"
  by (cases "i = 0") (auto simp: signed_modulo_int_def sgn_if)

lemma days_to_month_table:
  "list_all (\<lambda>m. list_all (\<lambda>b. int (sum_list (map (month_length b) [1..<Suc m])) =
     month ! Suc m - (if Suc m > 2 \<and> \<not> b then 1 else 0)) [False, True]) [0..<12]"
  by code_simp

lemma days_to_month_leap:
  assumes "1 \<le> m" and "m \<le> 12"
  shows "int (days_to_month y m) = month ! m - (if m > 2 \<and> \<not> leap y then 1 else 0)"
  using all_below [OF days_to_month_table, of "m - 1"] assms
  by (cases "leap y") (simp_all add: days_to_month_def days_in_month_def [abs_def])

lemma days_in_year_table:
  "list_all (\<lambda>b. int (sum_list (map (month_length b) [1..<13])) = 365 + (if b then 1 else 0)) [False, True]"
  by code_simp

lemma days_in_year_leap: "int (days_in_year y) = 365 + (if leap y then 1 else 0)"
  using days_in_year_table
  by (cases "leap y") (simp_all add: days_in_year_def days_in_month_def [abs_def] del: upt_rec_numeral)

lemma months_agree:
  assumes "y < 100" and "1 \<le> m" and "m \<le> 12"
  shows "month_days (int y) m = int (days_to_month (1970 + y) m)"
  by (simp add: days_to_month_leap [OF assms(2,3)] month_days_def leap_1970 [OF assms(1)] smod_4)

lemma years_agree: "y < 100 \<Longrightarrow> int (days_to_year (1970 + y)) = 365 * int y + (int y + 1) div 4"
proof (induction y)
  case 0
  then show ?case by (simp add: days_to_year_def)
next
  case (Suc y)
  have "[1970..<1970 + Suc y] = [1970..<1970 + y] @ [1970 + y]" unfolding add_Suc_right by (rule upt_Suc_append) simp
  then have "int (days_to_year (1970 + Suc y)) = int (days_to_year (1970 + y)) + int (days_in_year (1970 + y))"
    unfolding days_to_year_def by (simp del: upt_Suc add_Suc_right)
  moreover have "(int y + 2) div 4 = (int y + 1) div 4 + (if (int y + 2) mod 4 = 0 then 1 else 0)"
    by presburger
  ultimately show ?case using Suc leap_1970 [of y] by (simp add: days_in_year_leap)
qed

lemma civil_date_cases:
  assumes "civil_date y m d"
  shows "m < 13" "1 \<le> m" "1 \<le> d" "d \<le> 31"
  using assms by (auto simp: civil_date_def days_in_month_def month_length_def split: if_splits)

lemma years_since_1970_date:
  assumes "tm_date t (1970 + y) m d" and "y < 100"
  shows "years_since_1970 t = Inr (int y)"
proof (cases "y < 30")
  case True
  have "(1970 + y) mod 100 = (70 + y + 19 * 100) mod 100" by (simp add: add.commute)
  also have "\<dots> = 70 + y" unfolding mod_mult_self1 using True by simp
  finally have "(1970 + y) mod 100 = 70 + y" .
  then show ?thesis using assms True by (simp add: years_since_1970_def tm_date_def cint_def int_ok_def)
next
  case False
  then have "(1970 + y) mod 100 = (y - 30 + 20 * 100) mod 100" by (simp add: add.commute)
  also have "\<dots> = y - 30" unfolding mod_mult_self1 using False assms(2) by simp
  finally have "(1970 + y) mod 100 = y - 30" .
  then show ?thesis using assms False
    by (simp add: years_since_1970_def tm_date_def cint_def int_ok_def of_nat_diff)
qed

lemma month_at_date: "m < 13 \<Longrightarrow> month_at (int m) = Inr (month ! m)"
  by (simp add: month_at_def month_def)

lemma month_bound_table: "list_all (\<lambda>m. 0 \<le> month ! m \<and> month ! m \<le> 335) [0..<13]"
  by code_simp

lemmas month_bound = all_below [OF month_bound_table]

lemma get_yday_date:
  assumes "civil_date (1970 + y) m d" and "tm_date t (1970 + y) m d" and "y < 100"
  shows "get_yday t = Inr (int (days_to_month (1970 + y) m + d))"
proof -
  note b = civil_date_cases [OF assms(1)]
  have t: "tm_mon t = int m" "tm_mday t = int d" using assms(2) by (auto simp: tm_date_def)
  have "month_days (int y) m = int (days_to_month (1970 + y) m)" using months_agree assms(3) b by simp
  then show ?thesis
    using month_bound [OF b(1)] b assms(3) years_since_1970_date [OF assms(2,3)] month_at_date [OF b(1)]
    by (auto simp: get_yday_def t cint_in month_days_def)
qed

lemma mktime_date:
  assumes c: "civil_date (1970 + y) m d" and dt: "tm_date t (1970 + y) m d" and y: "y < 69"
    and tm: "tm_hour t = int h" "h < 24" "tm_min t = int mi" "mi < 60" "tm_sec t = int s" "s < 60"
  shows "mktime t = Inr (of_nat (((civil_days (1970 + y) m d * 24 + h) * 60 + mi) * 60 + s))"
proof -
  note b = civil_date_cases [OF c]
  have t: "tm_mon t = int m" "tm_mday t = int d" using dt by (auto simp: tm_date_def)
  have r: "mktime t = Inr (word_of_int (YEAR * int y + DAY * ((int y + 1) div 4) + month_days (int y) m * DAY
      + DAY * (int d - 1) + HOUR * int h + MINUTE * int mi + int s))"
  proof -
    have q: "0 \<le> (int y + 1) div 4" "(int y + 1) div 4 \<le> 69" using y by auto
    note U = YEAR_def DAY_def HOUR_def MINUTE_def
    have c1: "cint (YEAR * int y) = Inr (YEAR * int y)" using y by (intro cint_in) (simp_all add: U)
    have c2: "cint (int y + 1) = Inr (int y + 1)" "cint (int y + 2) = Inr (int y + 2)"
      using y by (auto intro!: cint_in)
    have c3: "cint (DAY * ((int y + 1) div 4)) = Inr (DAY * ((int y + 1) div 4))"
      using q by (intro cint_in) (simp_all add: U)
    have c4: "cint (month ! m * DAY) = Inr (month ! m * DAY)"
      using month_bound [OF b(1)] by (intro cint_in) (simp_all add: U)
    have c5: "cint (int d - 1) = Inr (int d - 1)" "cint (DAY * (int d - 1)) = Inr (DAY * (int d - 1))"
      using b(3,4) by (auto intro!: cint_in simp: U)
    have c6: "cint (HOUR * int h) = Inr (HOUR * int h)" "cint (MINUTE * int mi) = Inr (MINUTE * int mi)"
      using tm(2,4) by (auto intro!: cint_in simp: U)
    have c7: "(int y + 1) sdiv 4 = (int y + 1) div 4" by (simp add: sdiv_4)
    have c8: "years_since_1970 t = Inr (int y)" using years_since_1970_date [OF dt] y by simp
    note facts = c8 month_at_date [OF b(1)] t tm(1,3,5) c1 c2 c3 c4 c5 c6 c7
    have D: "month_days (int y) m * DAY =
        (if m > 2 \<and> (int y + 2) smod 4 \<noteq> 0 then month ! m * DAY - DAY else month ! m * DAY)"
      by (auto simp: month_days_def left_diff_distrib)
    show ?thesis
      unfolding mktime_def
      by (simp only: facts bindE_Inr Let_def wi_homs D) (auto simp: algebra_simps)
  qed
  have "int (civil_days (1970 + y) m d) = 365 * int y + (int y + 1) div 4 + month_days (int y) m + (int d - 1)"
    using years_agree [of y] months_agree [of y m] y b by (simp add: civil_days_def of_nat_diff)
  then have "YEAR * int y + DAY * ((int y + 1) div 4) + month_days (int y) m * DAY
      + DAY * (int d - 1) + HOUR * int h + MINUTE * int mi + int s
    = int (((civil_days (1970 + y) m d * 24 + h) * 60 + mi) * 60 + s)"
    by (simp add: YEAR_def DAY_def HOUR_def MINUTE_def algebra_simps)
  then show ?thesis using r by (simp only: of_int_of_nat_eq)
qed

lemma mktime_overflow:
  assumes "tm_date t (1970 + y) m d" and "69 \<le> y" and "y < 100"
  shows "mktime t = Inl Undefined"
  using years_since_1970_date [OF assms(1,3)] assms(2)
  by (simp add: mktime_def cint_def int_ok_def YEAR_def DAY_def HOUR_def MINUTE_def)

section \<open>Reading a steady clock\<close>

text \<open>The registers of a chip that does not tick while it is read.\<close>

definition steady :: "(u8 \<Rightarrow> u8) \<Rightarrow> 'a rtc_state_scheme \<Rightarrow> bool" where
  "steady regs s \<longleftrightarrow> (\<forall>n a. cmos s n a = regs a)"

lemma time_pass_steady:
  assumes "steady regs s"
  shows "\<exists>s'. time_pass t s =
    ((t\<lparr>tm_sec := uint (regs CMOS_SECOND), tm_min := uint (regs CMOS_MINUTE),
        tm_hour := uint (regs CMOS_HOUR), tm_wday := uint (regs CMOS_WEEKDAY),
        tm_mday := uint (regs CMOS_DAY), tm_mon := uint (regs CMOS_MONTH),
        tm_year := uint (regs CMOS_YEAR)\<rparr>, False), s') \<and> steady regs s'
      \<and> century s' = uint (regs CMOS_CENTURY)"
  using assms by (simp add: time_pass_def cmos_read_def outb_def steady_def Let_def)

lemma time_read_bcd_steady:
  assumes "steady regs s"
  shows "\<exists>s'. time_read_bcd t s =
    Some (t\<lparr>tm_sec := uint (regs CMOS_SECOND), tm_min := uint (regs CMOS_MINUTE),
        tm_hour := uint (regs CMOS_HOUR), tm_wday := uint (regs CMOS_WEEKDAY),
        tm_mday := uint (regs CMOS_DAY), tm_mon := uint (regs CMOS_MONTH),
        tm_year := uint (regs CMOS_YEAR)\<rparr>, s') \<and> steady regs s'
      \<and> century s' = uint (regs CMOS_CENTURY)"
  using time_pass_steady [OF assms, of t] by (subst time_read_bcd.simps) auto

lemma bin_field_bcd: "v < 100 \<Longrightarrow> bin_field (uint (bin_to_bcd v)) = uint v"
  by (simp add: bin_field_def bcd_round_trip)

text \<open>The registers hold a date and time in BCD, as the chip does.\<close>

definition shows_date :: "(u8 \<Rightarrow> u8) \<Rightarrow> tm \<Rightarrow> bool" where
  "shows_date regs t \<longleftrightarrow> (\<forall>(r, v) \<in> {(CMOS_SECOND, tm_sec t), (CMOS_MINUTE, tm_min t),
     (CMOS_HOUR, tm_hour t), (CMOS_WEEKDAY, tm_wday t), (CMOS_DAY, tm_mday t),
     (CMOS_MONTH, tm_mon t), (CMOS_YEAR, tm_year t)}.
     0 \<le> v \<and> v < 100 \<and> regs r = bin_to_bcd (word_of_int v))"

lemma shows_field:
  assumes "0 \<le> v" and "v < 100" and "r = bin_to_bcd (word_of_int v)"
  shows "bin_field (uint r) = v"
proof -
  have u: "uint (word_of_int v :: u8) = v" using assms(1,2) by (simp add: uint_word_of_int_eq take_bit_int_eq_self)
  then have "word_of_int v < (100 :: u8)" using assms(2) by (simp add: word_less_def)
  then show ?thesis using bin_field_bcd u assms(3) by simp
qed

lemma time_read_steady:
  assumes "steady regs s" and "shows_date regs t" and "get_yday t = Inr d"
  shows "\<exists>s'. time_read t0 s = Inr (t\<lparr>tm_yday := d, tm_isdst := - 1\<rparr>, s') \<and> steady regs s'"
proof -
  have f: "bin_field (uint (regs CMOS_SECOND)) = tm_sec t" "bin_field (uint (regs CMOS_MINUTE)) = tm_min t"
    "bin_field (uint (regs CMOS_HOUR)) = tm_hour t" "bin_field (uint (regs CMOS_WEEKDAY)) = tm_wday t"
    "bin_field (uint (regs CMOS_DAY)) = tm_mday t" "bin_field (uint (regs CMOS_MONTH)) = tm_mon t"
    "bin_field (uint (regs CMOS_YEAR)) = tm_year t"
    using assms(2) by (auto simp: shows_date_def intro!: shows_field)
  obtain s' where r: "time_read_bcd t0 s =
    Some (t0\<lparr>tm_sec := uint (regs CMOS_SECOND), tm_min := uint (regs CMOS_MINUTE),
        tm_hour := uint (regs CMOS_HOUR), tm_wday := uint (regs CMOS_WEEKDAY),
        tm_mday := uint (regs CMOS_DAY), tm_mon := uint (regs CMOS_MONTH),
        tm_year := uint (regs CMOS_YEAR)\<rparr>, s')" "steady regs s'"
    using time_read_bcd_steady [OF assms(1)] by blast
  have y: "get_yday t = Inr d" by (rule assms(3))
  have g: "get_yday t1 = get_yday t" if "tm_mon t1 = tm_mon t" "tm_mday t1 = tm_mday t" "tm_year t1 = tm_year t" for t1
    using that by (simp add: get_yday_def years_since_1970_def)
  have st: "steady regs (s'\<lparr>century := c\<rparr>)" for c using r(2) by (simp add: steady_def)
  show ?thesis unfolding time_read_def r(1)
    by (simp add: f Let_def g y st del: uint_word_of_int)
qed

subsection \<open>The alarm\<close>

text \<open>Adding a time of day digit by digit, with carries, is addition modulo a day.\<close>

lemma add_time_of_day:
  fixes h m s n :: nat
  assumes "h < 24" and "m < 60" and "s < 60"
  defines "s1 \<equiv> s + n mod 60"
  defines "m1 \<equiv> m + s1 div 60 + n div 60 mod 60"
  defines "h1 \<equiv> h + m1 div 60 + n div 60 div 60"
  shows "(h1 mod 24 * 60 + m1 mod 60) * 60 + s1 mod 60 = ((h * 60 + m) * 60 + s + n) mod 86400"
proof -
  have n: "n = n mod 60 + 60 * (n div 60 mod 60) + 3600 * (n div 60 div 60)"
    using mult_div_mod_eq [of 60 n] mult_div_mod_eq [of 60 "n div 60"] by linarith
  have "(h * 60 + m) * 60 + s + n = 3600 * h + 60 * m + s1 + 60 * (n div 60 mod 60) + 3600 * (n div 60 div 60)"
    using n unfolding s1_def by simp
  also have "\<dots> = 3600 * h + 60 * m1 + s1 mod 60 + 3600 * (n div 60 div 60)"
    using div_mult_mod_eq [of s1 60] unfolding m1_def by simp
  also have "\<dots> = 3600 * h1 + 60 * (m1 mod 60) + s1 mod 60"
  proof -
    obtain q r where "m1 = 60 * q + r" "m1 div 60 = q" "m1 mod 60 = r" by (metis mult_div_mod_eq)
    then show ?thesis unfolding h1_def by (simp only:) simp
  qed
  also have "\<dots> = (h1 mod 24 * 60 + m1 mod 60) * 60 + s1 mod 60 + h1 div 24 * 86400"
  proof -
    obtain q r where "h1 = 24 * q + r" "h1 div 24 = q" "h1 mod 24 = r" by (metis mult_div_mod_eq)
    then show ?thesis by (simp only:) simp
  qed
  finally have e: "(h * 60 + m) * 60 + s + n = (h1 mod 24 * 60 + m1 mod 60) * 60 + s1 mod 60 + h1 div 24 * 86400" .
  have "(x * 60 + y) * 60 + z < 86400" if "x < 24" "y < 60" "z < 60" for x y z :: nat using that by simp
  then have "(h1 mod 24 * 60 + m1 mod 60) * 60 + s1 mod 60 < 86400" by simp
  then show ?thesis unfolding e by simp
qed

lemma smod_pos: "0 \<le> i \<Longrightarrow> 0 < k \<Longrightarrow> i smod k = i mod (k :: int)"
  by (cases "i = 0") (auto simp: signed_modulo_int_def sgn_if)

text \<open>The bytes \<open>set_alarm\<close> leaves in the registers of the alarm.\<close>

definition alarm_writes :: "nat \<Rightarrow> nat \<Rightarrow> nat \<Rightarrow> (u16 \<times> u8) list" where
  "alarm_writes h m s =
     [(CMOS_ADDR, 0x85), (CMOS_DATA, bin_to_bcd (of_nat h)), (CMOS_ADDR, 0x83), (CMOS_DATA, bin_to_bcd (of_nat m)),
      (CMOS_ADDR, 0x81), (CMOS_DATA, bin_to_bcd (of_nat s)), (CMOS_ADDR, 0x8b), (CMOS_DATA, 0x22), (CMOS_ADDR, 0x8c)]"


lemma add_secs_time:
  fixes h mi sc :: nat and secs :: u32
  assumes tm: "tm_hour t = int h" "tm_min t = int mi" "mi < 60" "tm_sec t = int sc" "sc < 60"
  defines "n \<equiv> unat secs"
  defines "a \<equiv> sc + n mod 60"
  defines "b \<equiv> mi + a div 60 + n div 60 mod 60"
  defines "c \<equiv> h + b div 60 + n div 60 div 60"
  shows "tm_sec (add_secs secs t) = int (a mod 60)" "tm_min (add_secs secs t) = int (b mod 60)"
    "tm_hour (add_secs secs t) = int (c mod 24)"
proof -
  have w: "uint (secs mod 60) = int (n mod 60)" "uint (secs div 60 mod 60) = int (n div 60 mod 60)"
    "uint (secs div 60 div 60) = int (n div 60 div 60)"
    by (simp_all add: n_def uint_nat unat_mod unat_div)
  have a: "int sc + int (n mod 60) = int a" by (simp add: a_def)
  have A: "a < 60 \<Longrightarrow> a div 60 = 0 \<and> a mod 60 = a" "60 \<le> a \<Longrightarrow> a div 60 = 1"
    using tm(5) unfolding a_def by (auto intro: div_nat_eqI)
  have b: "a < 60 \<Longrightarrow> int mi + int (n div 60 mod 60) = int b"
    "60 \<le> a \<Longrightarrow> int mi + 1 + int (n div 60 mod 60) = int b"
    using A by (simp_all add: b_def)
  have B: "b < 60 \<Longrightarrow> b div 60 = 0 \<and> b mod 60 = b" "60 \<le> b \<Longrightarrow> b div 60 = 1"
    using tm(3) A unfolding b_def by (auto intro!: div_nat_eqI) (cases "60 \<le> a"; auto)+
  have c: "b < 60 \<Longrightarrow> int h + int (n div 60 div 60) = int c"
    "60 \<le> b \<Longrightarrow> int h + 1 + int (n div 60 div 60) = int c"
    using B by (simp_all add: c_def)
  have m: "int x smod 60 = int (x mod 60)" "int x smod 24 = int (x mod 24)" for x
    by (simp_all add: smod_pos zmod_int)
  note facts = add_secs_def Let_def tm(1,2,4) w a m A B b c
  show "tm_sec (add_secs secs t) = int (a mod 60)"
    by (cases "60 \<le> a"; cases "60 \<le> b"; cases "24 \<le> c") (simp_all add: facts del: of_nat_mod of_nat_add)
  show "tm_min (add_secs secs t) = int (b mod 60)"
    by (cases "60 \<le> a"; cases "60 \<le> b"; cases "24 \<le> c") (simp_all add: facts del: of_nat_mod of_nat_add)
  show "tm_hour (add_secs secs t) = int (c mod 24)"
    by (cases "60 \<le> a"; cases "60 \<le> b"; cases "24 \<le> c") (simp_all add: facts del: of_nat_mod of_nat_add)
qed

lemma set_alarm_writes:
  assumes "steady regs s" and "shows_date regs t" and "get_yday t = Inr d"
    and tm: "tm_hour t = int h" "h < 24" "tm_min t = int mi" "mi < 60" "tm_sec t = int sc" "sc < 60"
  shows "\<exists>s' pre h' m' s''. set_alarm t0 secs s = Inr s' \<and> outs s' = pre @ alarm_writes h' m' s''
    \<and> h' < 24 \<and> m' < 60 \<and> s'' < 60
    \<and> (h' * 60 + m') * 60 + s'' = ((h * 60 + mi) * 60 + sc + unat secs) mod 86400"
proof -
  let ?t = "t\<lparr>tm_yday := d, tm_isdst := - 1\<rparr>"
  obtain s1 where r: "time_read t0 s = Inr (?t, s1)"
    using time_read_steady [OF assms(1-3)] by blast
  have z: "tm_hour ?t = int h" "tm_min ?t = int mi" "tm_sec ?t = int sc" using tm by simp_all
  note e = add_secs_time [of ?t, OF z(1,2) tm(4) z(3) tm(6), of secs]
  note q = add_time_of_day [OF tm(2,4,6), of "unat secs"]
  have wr: "\<exists>s'. (case cmos_read CMOS_C (cmos_write CMOS_B 0b00100010
       (cmos_write ALARM_SECOND (bin_to_bcd (of_nat k)) (cmos_write ALARM_MINUTE (bin_to_bcd (of_nat j))
         (cmos_write ALARM_HOUR (bin_to_bcd (of_nat i)) s1)))) of (v, s) \<Rightarrow> Inr s) = (Inr s' :: 'a rtc_state_scheme res)
     \<and> outs s' = outs s1 @ alarm_writes i j k" for i j k
    by (simp add: alarm_writes_def cmos_read_def cmos_write_def outb_def Let_def CMOS_NMI_def
        ALARM_HOUR_def ALARM_MINUTE_def ALARM_SECOND_def CMOS_B_def CMOS_C_def)
  let ?a = "sc + unat secs mod 60"
  let ?b = "mi + ?a div 60 + unat secs div 60 mod 60"
  let ?c = "h + ?b div 60 + unat secs div 60 div 60"
  obtain s2 where s2: "set_alarm t0 secs s = Inr s2"
    "outs s2 = outs s1 @ alarm_writes (?c mod 24) (?b mod 60) (?a mod 60)"
    using wr unfolding set_alarm_def r bindE_Inr prod.case Let_def e of_int_of_nat_eq by blast
  moreover have "?c mod 24 < 24" "?b mod 60 < 60" "?a mod 60 < 60" by simp_all
  ultimately show ?thesis using q by blast
qed

section \<open>Properties\<close>

text \<open>C28. \<open>mktime\<close> is the calendar: on every date from 1970 to 2038, given as the CMOS has it
  with a year of two digits, it returns the seconds since the start of 1970 of the Gregorian
  calendar, and \<open>get_yday\<close> the day of the year, counted from 1. From 2039 on (and to 2069, where the
  two digits wrap) the product of the year and the seconds of a year overflows an \<^verbatim>\<open>int\<close>.\<close>

theorem mktime_calendar:
  assumes "civil_date (1970 + y) m d" and "tm_date t (1970 + y) m d" and "y < 100"
    and "tm_hour t = int h" "h < 24" "tm_min t = int mi" "mi < 60" "tm_sec t = int s" "s < 60"
  shows "mktime t = (if y < 69 then Inr (of_nat (((civil_days (1970 + y) m d * 24 + h) * 60 + mi) * 60 + s))
      else Inl Undefined)
    \<and> get_yday t = Inr (int (days_to_month (1970 + y) m + d))"
  using mktime_date [OF assms(1,2) _ assms(4-)] mktime_overflow [OF assms(2) _ assms(3)]
    get_yday_date [OF assms(1-3)]
  by simp

definition example_date :: tm where
  "example_date = \<lparr>tm_sec = 56, tm_min = 34, tm_hour = 12, tm_mday = 29, tm_mon = 2, tm_year = 72,
     tm_wday = 3, tm_yday = 0, tm_isdst = 0\<rparr>"

theorem mktime_calendar_witness:
  "mktime example_date = Inr (of_nat (((civil_days 1972 2 29 * 24 + 12) * 60 + 34) * 60 + 56))
   \<and> get_yday example_date = Inr (int (days_to_month 1972 2 + 29))"
proof -
  have l: "leap 1972" using leap_1970 [of 2] by simp
  have "civil_date (1970 + 2) 2 29" by (simp add: civil_date_def days_in_month_def month_length_def l)
  moreover have "tm_date example_date (1970 + 2) 2 29" by (simp add: tm_date_def example_date_def)
  ultimately show ?thesis
    using mktime_calendar [of 2 2 29 example_date 12 34 56] by (simp add: example_date_def)
qed

text \<open>C29. Reading a clock that shows a date in BCD and does not tick meanwhile ends, and
  \<open>set_alarm\<close> sets the alarm registers, in BCD, to the time of day \<open>secs\<close> seconds after the one it
  read, modulo a day, for every 32-bit \<open>secs\<close>; then it enables the alarm interrupt.\<close>

theorem alarm_time:
  assumes "steady regs s" and "shows_date regs t" and "get_yday t = Inr d"
    and "tm_hour t = int h" "h < 24" "tm_min t = int mi" "mi < 60" "tm_sec t = int sc" "sc < 60"
  shows "\<exists>s' pre h' m' s''. set_alarm t0 secs s = Inr s' \<and> outs s' = pre @ alarm_writes h' m' s''
    \<and> h' < 24 \<and> m' < 60 \<and> s'' < 60
    \<and> (h' * 60 + m') * 60 + s'' = ((h * 60 + mi) * 60 + sc + unat secs) mod 86400"
  by (rule set_alarm_writes [OF assms])

definition example_regs :: "u8 \<Rightarrow> u8" where
  "example_regs r = (if r = CMOS_SECOND then 0x56 else if r = CMOS_MINUTE then 0x34
     else if r = CMOS_HOUR then 0x12 else if r = CMOS_WEEKDAY then 3 else if r = CMOS_DAY then 0x29
     else if r = CMOS_MONTH then 2 else if r = CMOS_YEAR then 0x72 else 0x19)"

lemma example_regs_date: "shows_date example_regs example_date"
  unfolding shows_date_def by code_simp

theorem alarm_time_witness:
  "\<exists>(s :: rtc_state) s' pre h' m' s''. steady example_regs s \<and>
     set_alarm example_date 86400 s = Inr s' \<and> outs s' = pre @ alarm_writes h' m' s''
     \<and> (h' * 60 + m') * 60 + s'' = (12 * 60 + 34) * 60 + 56"
proof -
  obtain s :: rtc_state where s: "steady example_regs s"
    using that [of "undefined\<lparr>cmos := \<lambda>n. example_regs\<rparr>"] by (simp add: steady_def)
  have l: "leap 1972" using leap_1970 [of 2] by simp
  have "civil_date (1970 + 2) 2 29" by (simp add: civil_date_def days_in_month_def month_length_def l)
  moreover have "tm_date example_date (1970 + 2) 2 29" by (simp add: tm_date_def example_date_def)
  ultimately have "get_yday example_date = Inr (int (days_to_month (1970 + 2) 2 + 29))"
    by (rule get_yday_date) simp
  from alarm_time [OF s example_regs_date this, of 12 34 56 example_date 86400] s
  show ?thesis by (fastforce simp: example_date_def)
qed

end
