(* ===== verification/Keyboard.thy ===== *)
theory Keyboard
  imports Mutex Fifo Device
begin

text \<open>
  The keyboard (\<^verbatim>\<open>kernel/keyboard.c\<close>): the interrupt handler that follows the state of the
  keys and turns scan codes into characters, the ring buffer it fills, and the read that blocks
  until there are characters.

  What the controller answers depends on when it is asked: \<open>kdata s n\<close> and \<open>kctrl s n\<close> are the
  \<open>n\<close>-th answers of its two ports. The last two columns of \<^verbatim>\<open>keymap\<close> are the state of the keys,
  pressed or not, as a plain key and as an extended one (after a byte \<^verbatim>\<open>0xe0\<close>).
\<close>

section \<open>Keys\<close>

definition KEY :: "string list" where
  "KEY = [
     ''KEY_NONE'', ''KEY_ESC'', ''KEY_1'', ''KEY_2'', ''KEY_3'', ''KEY_4'', ''KEY_5'',
     ''KEY_6'', ''KEY_7'', ''KEY_8'', ''KEY_9'', ''KEY_0'', ''KEY_MINUS'', ''KEY_EQUAL'',
     ''KEY_BACKSPACE'', ''KEY_TAB'', ''KEY_Q'', ''KEY_W'', ''KEY_E'', ''KEY_R'', ''KEY_T'',
     ''KEY_Y'', ''KEY_U'', ''KEY_I'', ''KEY_O'', ''KEY_P'', ''KEY_BRACKET_L'',
     ''KEY_BRACKET_R'', ''KEY_ENTER'', ''KEY_CTRL_L'', ''KEY_A'', ''KEY_S'', ''KEY_D'',
     ''KEY_F'', ''KEY_G'', ''KEY_H'', ''KEY_J'', ''KEY_K'', ''KEY_L'', ''KEY_SEMICOLON'',
     ''KEY_QUOTE'', ''KEY_BACKQUOTE'', ''KEY_SHIFT_L'', ''KEY_BACKSLASH'', ''KEY_Z'',
     ''KEY_X'', ''KEY_C'', ''KEY_V'', ''KEY_B'', ''KEY_N'', ''KEY_M'', ''KEY_COMMA'',
     ''KEY_POINT'', ''KEY_SLASH'', ''KEY_SHIFT_R'', ''KEY_STAR'', ''KEY_ALT_L'',
     ''KEY_SPACE'', ''KEY_CAPSLOCK'', ''KEY_F1'', ''KEY_F2'', ''KEY_F3'', ''KEY_F4'',
     ''KEY_F5'', ''KEY_F6'', ''KEY_F7'', ''KEY_F8'', ''KEY_F9'', ''KEY_F10'', ''KEY_NUMLOCK'',
     ''KEY_SCRLOCK'', ''KEY_PAD_7'', ''KEY_PAD_8'', ''KEY_PAD_9'', ''KEY_PAD_MINUS'',
     ''KEY_PAD_4'', ''KEY_PAD_5'', ''KEY_PAD_6'', ''KEY_PAD_PLUS'', ''KEY_PAD_1'',
     ''KEY_PAD_2'', ''KEY_PAD_3'', ''KEY_PAD_0'', ''KEY_PAD_POINT'', ''KEY_54'', ''KEY_55'',
     ''KEY_56'', ''KEY_F11'', ''KEY_F12'', ''KEY_59'', ''KEY_WIN_L'', ''KEY_WIN_R'',
     ''KEY_CLIPBOARD'', ''KEY_5D'', ''KEY_5E'', ''KEY_PRINT_SCREEN'']"

definition key_code :: "string \<Rightarrow> u16" where
  "key_code name = of_nat (length (takeWhile (\<lambda>k. k \<noteq> name) KEY))"

definition KEY_CTRL_L :: u16 where "KEY_CTRL_L = key_code ''KEY_CTRL_L''"
definition KEY_SHIFT_L :: u16 where "KEY_SHIFT_L = key_code ''KEY_SHIFT_L''"
definition KEY_SLASH :: u16 where "KEY_SLASH = key_code ''KEY_SLASH''"
definition KEY_SHIFT_R :: u16 where "KEY_SHIFT_R = key_code ''KEY_SHIFT_R''"
definition KEY_ALT_L :: u16 where "KEY_ALT_L = key_code ''KEY_ALT_L''"
definition KEY_CAPSLOCK :: u16 where "KEY_CAPSLOCK = key_code ''KEY_CAPSLOCK''"
definition KEY_NUMLOCK :: u16 where "KEY_NUMLOCK = key_code ''KEY_NUMLOCK''"
definition KEY_SCRLOCK :: u16 where "KEY_SCRLOCK = key_code ''KEY_SCRLOCK''"
definition KEY_PRINT_SCREEN :: u16 where "KEY_PRINT_SCREEN = key_code ''KEY_PRINT_SCREEN''"

definition INV :: u8 where "INV = 0"
definition CODE_PRINT_SCREEN_DOWN :: u16 where "CODE_PRINT_SCREEN_DOWN = 0xb7"

text \<open>The character of a key alone and with shift; no key is pressed.\<close>

definition key_chars :: "(u8 \<times> u8) list" where
  "key_chars = [
     (0, 0), (27, 27), (49, 33), (50, 64), (51, 35), (52, 36), (53, 37), (54, 94), (55, 38),
     (56, 42), (57, 40), (48, 41), (45, 95), (61, 43), (8, 8), (9, 9), (113, 81), (119, 87),
     (101, 69), (114, 82), (116, 84), (121, 89), (117, 85), (105, 73), (111, 79), (112, 80),
     (91, 123), (93, 125), (10, 10), (0, 0), (97, 65), (115, 83), (100, 68), (102, 70),
     (103, 71), (104, 72), (106, 74), (107, 75), (108, 76), (59, 58), (39, 34), (96, 126),
     (0, 0), (92, 124), (122, 90), (120, 88), (99, 67), (118, 86), (98, 66), (110, 78),
     (109, 77), (44, 60), (46, 62), (47, 63), (0, 0), (42, 42), (0, 0), (32, 32), (0, 0),
     (0, 0), (0, 0), (0, 0), (0, 0), (0, 0), (0, 0), (0, 0), (0, 0), (0, 0), (0, 0), (0, 0),
     (0, 0), (55, 0), (56, 0), (57, 0), (45, 45), (52, 0), (53, 0), (54, 0), (43, 43),
     (49, 0), (50, 0), (51, 0), (48, 0), (46, 127), (0, 0), (0, 0), (0, 0), (0, 0), (0, 0),
     (0, 0), (0, 0), (0, 0), (0, 0), (0, 0), (0, 0), (0, 0)]"

definition keymap_init :: "u8 list list" where
  "keymap_init = map (\<lambda>(a, b). [a, b, 0, 0]) key_chars"

section \<open>The controller\<close>

definition KEYBOARD_DATA_PORT :: u16 where "KEYBOARD_DATA_PORT = 0x60"
definition KEYBOARD_CMD_LED :: u8 where "KEYBOARD_CMD_LED = 0xed"
definition KEYBOARD_CMD_ACK :: u8 where "KEYBOARD_CMD_ACK = 0xfa"
definition BUFFER_SIZE :: u32 where "BUFFER_SIZE = 64"

text \<open>The lock of the keyboard is \<open>klock\<close>.\<close>

record kbd_state = lock_state +
  kdata :: "nat \<Rightarrow> u8"
  kdata_pos :: nat
  kctrl :: "nat \<Rightarrow> u8"
  kctrl_pos :: nat
  keymap :: "u8 list list"
  klock :: nat
  waiter :: "u32 option"
  kfifo :: fifo_t
  capslock_state :: bool
  scrlock_state :: bool
  numlock_state :: bool
  extcode_state :: bool

definition in_data :: "'a kbd_state_scheme \<Rightarrow> u8 \<times> 'a kbd_state_scheme" where
  "in_data s = (kdata s (kdata_pos s), s\<lparr>kdata_pos := kdata_pos s + 1\<rparr>)"

definition in_ctrl :: "'a kbd_state_scheme \<Rightarrow> u8 \<times> 'a kbd_state_scheme" where
  "in_ctrl s = (kctrl s (kctrl_pos s), s\<lparr>kctrl_pos := kctrl_pos s + 1\<rparr>)"

partial_function (option) keyboard_wait :: "'a kbd_state_scheme \<Rightarrow> 'a kbd_state_scheme option" where
  "keyboard_wait s =
     (let (v, s) = in_ctrl s in if v AND 2 \<noteq> 0 then keyboard_wait s else Some s)"

declare keyboard_wait.simps [code]

partial_function (option) keyboard_ack :: "'a kbd_state_scheme \<Rightarrow> 'a kbd_state_scheme option" where
  "keyboard_ack s =
     (let (v, s) = in_data s in if v \<noteq> KEYBOARD_CMD_ACK then keyboard_ack s else Some s)"

declare keyboard_ack.simps [code]

definition leds_byte :: "'a kbd_state_scheme \<Rightarrow> u8" where
  "leds_byte s =
     push_bit 2 (of_bool (capslock_state s)) OR push_bit 1 (of_bool (numlock_state s))
       OR of_bool (scrlock_state s)"

definition set_leds :: "'a kbd_state_scheme \<Rightarrow> 'a kbd_state_scheme res" where
  "set_leds s =
     (let leds = leds_byte s in
      bindE (returns (map_option Inr (keyboard_wait s))) (\<lambda>s.
      let s = outb KEYBOARD_DATA_PORT KEYBOARD_CMD_LED s in
      bindE (returns (map_option Inr (keyboard_ack s))) (\<lambda>s.
      bindE (returns (map_option Inr (keyboard_wait s))) (\<lambda>s.
      let s = outb KEYBOARD_DATA_PORT leds s in
      returns (map_option Inr (keyboard_ack s))))))"

section \<open>The handler\<close>

definition get_key :: "u16 \<Rightarrow> nat \<Rightarrow> 'a kbd_state_scheme \<Rightarrow> u8 res" where
  "get_key k i s = bindE (rd (keymap s) (unat k)) (\<lambda>row. rd row i)"

definition set_key :: "u16 \<Rightarrow> nat \<Rightarrow> u8 \<Rightarrow> 'a kbd_state_scheme \<Rightarrow> 'a kbd_state_scheme res" where
  "set_key k i v s =
     bindE (rd (keymap s) (unat k)) (\<lambda>row.
     bindE (wr row i v) (\<lambda>row.
     bindE (wr (keymap s) (unat k) row) (\<lambda>km. Inr (s\<lparr>keymap := km\<rparr>))))"

definition shift_state :: "'a kbd_state_scheme \<Rightarrow> bool res" where
  "shift_state s =
     bindE (get_key KEY_SHIFT_L 2 s) (\<lambda>l.
     if l \<noteq> 0 then Inr True else bindE (get_key KEY_SHIFT_R 2 s) (\<lambda>r. Inr (r \<noteq> 0)))"

text \<open>\<^verbatim>\<open>'a' <= c <= 'z'\<close> compares the truth value of the first comparison with \<^verbatim>\<open>'z'\<close>.\<close>

definition letter_test :: "u8 \<Rightarrow> bool" where
  "letter_test c = ((if 97 \<le> sint c then 1 else 0 :: int) \<le> 122)"

text \<open>The lock keys: which of them toggles its state, and whether the lights have to follow.\<close>

definition toggle_lock :: "u16 \<Rightarrow> 'a kbd_state_scheme \<Rightarrow> bool \<times> 'a kbd_state_scheme" where
  "toggle_lock makecode s =
     (if makecode = KEY_NUMLOCK then (True, s\<lparr>numlock_state := \<not> numlock_state s\<rparr>)
      else if makecode = KEY_CAPSLOCK then (True, s\<lparr>capslock_state := \<not> capslock_state s\<rparr>)
      else if makecode = KEY_SCRLOCK then (True, s\<lparr>scrlock_state := \<not> scrlock_state s\<rparr>)
      else (False, s))"

definition key_shift :: "u16 \<Rightarrow> 'a kbd_state_scheme \<Rightarrow> bool res" where
  "key_shift makecode s =
     bindE (if capslock_state s then bindE (get_key makecode 0 s) (\<lambda>c. Inr (letter_test c)) else Inr False) (\<lambda>b.
     let shift = False; shift = (if b then \<not> shift else shift) in
     bindE (shift_state s) (\<lambda>b.
     Inr (if b then \<not> shift else shift)))"

text \<open>A character is queued and the waiting task, if there is one, made ready.\<close>

definition put_char :: "u8 \<Rightarrow> 'a kbd_state_scheme \<Rightarrow> 'a kbd_state_scheme res" where
  "put_char ch s =
     bindE (fifo_put (kfifo s) ch) (\<lambda>f.
     let s = s\<lparr>kfifo := f\<rparr> in
     case waiter s of
       Some p \<Rightarrow> bindE (task_unblock p s) (\<lambda>s. Inr (s\<lparr>waiter := None\<rparr>))
     | None \<Rightarrow> Inr s)"

definition key_down :: "u16 \<Rightarrow> nat \<Rightarrow> 'a kbd_state_scheme \<Rightarrow> 'a kbd_state_scheme res" where
  "key_down makecode ext s =
     bindE (set_key makecode ext 1 s) (\<lambda>s.
     let (led, s) = toggle_lock makecode s in
     bindE (if led then set_leds s else Inr s) (\<lambda>s.
     bindE (key_shift makecode s) (\<lambda>shift.
     bindE (if ext = 3 \<and> makecode \<noteq> KEY_SLASH then get_key makecode 1 s
            else get_key makecode (of_bool shift) s) (\<lambda>ch.
     if ch = INV then Inr s else put_char ch s))))"

definition keyboard_handler :: "int \<Rightarrow> 'a kbd_state_scheme \<Rightarrow> 'a kbd_state_scheme res" where
  "keyboard_handler vector s =
     kassert (vector = 0x21) (
     let s = send_eoi vector s;
         (v, s) = in_data s;
         scancode = ucast v :: u16 in
     if scancode = 0xe0 then Inr (s\<lparr>extcode_state := True\<rparr>)
     else
       let (ext, scancode, s) =
             (if extcode_state s then (3, scancode OR 0xe000, s\<lparr>extcode_state := False\<rparr>)
              else (2, scancode, s));
           makecode = scancode AND 0x7f;
           makecode = (if makecode = CODE_PRINT_SCREEN_DOWN then KEY_PRINT_SCREEN else makecode) in
       if makecode > KEY_PRINT_SCREEN then Inr s
       else if scancode AND 0x80 \<noteq> 0 then set_key makecode ext 0 s
       else key_down makecode ext s)"

section \<open>Reading\<close>

text \<open>
  The loop of \<open>keyboard_read\<close> with \<open>n\<close> characters to go, up to its end (\<open>True\<close>) or to the point
  where the caller blocks (\<open>False\<close>), after which it goes on with the characters it still lacks.
\<close>

fun read_loop :: "nat \<Rightarrow> u8 list \<Rightarrow> 'a kbd_state_scheme \<Rightarrow> (bool \<times> u8 list \<times> 'a kbd_state_scheme) res" where
  "read_loop 0 buf s = Inr (True, buf, s)"
| "read_loop (Suc n) buf s =
     (if fifo_empty (kfifo s) then
        let s = s\<lparr>waiter := Some (running_task s)\<rparr> in
        bindE (task_block (running_task s) None TASK_BLOCKED s) (\<lambda>s. Inr (False, buf, s))
      else
        bindE (fifo_get (kfifo s)) (\<lambda>(c, f). read_loop n (buf @ [c]) (s\<lparr>kfifo := f\<rparr>)))"

text \<open>From the call to the first block, in \<open>lock_acquire\<close> or in the loop; then from a wake-up on.\<close>

definition keyboard_resume ::
  "u32 \<Rightarrow> u8 list \<Rightarrow> 'a kbd_state_scheme \<Rightarrow> (bool \<times> u8 list \<times> 'a kbd_state_scheme) res" where
  "keyboard_resume count buf s =
     bindE (read_loop (unat count - length buf) buf s) (\<lambda>(done, buf, s).
     if done then bindE (lock_release (klock s) s) (\<lambda>s. Inr (True, buf, s)) else Inr (False, buf, s))"

definition keyboard_read ::
  "u32 \<Rightarrow> 'a kbd_state_scheme \<Rightarrow> (bool \<times> u8 list \<times> 'a kbd_state_scheme) res" where
  "keyboard_read count s =
     bindE (lock_acquire (klock s) s) (\<lambda>(got, s).
     if got then keyboard_resume count [] s else Inr (False, [], s))"

definition IRQ_KEYBOARD :: u32 where "IRQ_KEYBOARD = 1"

text \<open>\<open>handler\<close> is the address of \<open>keyboard_handler\<close>, \<open>rdf\<close> the read function as the device table
  has it, \<open>buf\<close> the static array; the descriptor table and the devices are threaded along.\<close>

definition keyboard_init ::
  "u32 \<Rightarrow> 'w transfer_t \<Rightarrow> u8 list \<Rightarrow> idt_state \<Rightarrow> ('w, 'b) dev_state_scheme \<Rightarrow> 'a kbd_state_scheme
    \<Rightarrow> (idt_state \<times> ('w, 'b) dev_state_scheme \<times> 'a kbd_state_scheme) res" where
  "keyboard_init handler rdf buf t ds s =
     (let s = s\<lparr>numlock_state := False, scrlock_state := False, capslock_state := False,
                extcode_state := False, kfifo := fifo_init buf BUFFER_SIZE\<rparr>;
          s = lock_init (klock s) s;
          s = s\<lparr>waiter := None\<rparr> in
      bindE (set_leds s) (\<lambda>s.
      bindE (set_interrupt_handler IRQ_KEYBOARD (Handler handler) t) (\<lambda>t.
      bindE (set_interrupt_mask IRQ_KEYBOARD True s) (\<lambda>s.
      bindE (device_install DEV_CHAR DEV_KEYBOARD 0
               (map (\<lambda>c. of_nat (of_char c)) ''keyboard'' @ [0]) 0 None (Some rdf) None ds) (\<lambda>(d, ds).
      Inr (t, ds, s))))))"

section \<open>The keyboard it implements\<close>

text \<open>What is pressed (the key's code, and whether it is the extended key), the locks, whether the last byte
  was the prefix, and the characters typed and not read, oldest first.\<close>

record kbd_view =
  v_pressed :: "(nat \<times> bool) set"
  v_caps :: bool
  v_num :: bool
  v_scr :: bool
  v_prefix :: bool
  v_typed :: "u8 list"

definition column :: "bool \<Rightarrow> nat" where "column e = (if e then 3 else 2)"

definition kbd_view_of :: "'a kbd_state_scheme \<Rightarrow> kbd_view" where
  "kbd_view_of s = \<lparr>v_pressed = {(k, e). k < 96 \<and> keymap s ! k ! column e \<noteq> 0},
     v_caps = capslock_state s, v_num = numlock_state s, v_scr = scrlock_state s,
     v_prefix = extcode_state s, v_typed = fifo_contents (kfifo s)\<rparr>"

definition view_char :: "kbd_view \<Rightarrow> nat \<Rightarrow> bool \<Rightarrow> u8" where
  "view_char v k e =
     (if e \<and> k \<noteq> 0x35 \<or> v_caps v \<noteq> ((0x2a, False) \<in> v_pressed v \<or> (0x36, False) \<in> v_pressed v)
      then snd (key_chars ! k) else fst (key_chars ! k))"

definition view_toggle :: "nat \<Rightarrow> kbd_view \<Rightarrow> kbd_view" where
  "view_toggle k v =
     (if k = 0x45 then v\<lparr>v_num := \<not> v_num v\<rparr> else if k = 0x3a then v\<lparr>v_caps := \<not> v_caps v\<rparr>
      else if k = 0x46 then v\<lparr>v_scr := \<not> v_scr v\<rparr> else v)"

definition view_put :: "u8 \<Rightarrow> kbd_view \<Rightarrow> kbd_view" where
  "view_put c v =
     (if c = 0 then v
      else v\<lparr>v_typed := (if length (v_typed v) = 63 then tl (v_typed v) else v_typed v) @ [c]\<rparr>)"

definition view_press :: "nat \<Rightarrow> bool \<Rightarrow> kbd_view \<Rightarrow> kbd_view" where
  "view_press k e v =
     (let v = view_toggle k (v\<lparr>v_pressed := insert (k, e) (v_pressed v)\<rparr>) in view_put (view_char v k e) v)"

text \<open>The effect of one byte from the keyboard.\<close>

definition view_byte :: "u8 \<Rightarrow> kbd_view \<Rightarrow> kbd_view" where
  "view_byte b v =
     (if b = 0xe0 then v\<lparr>v_prefix := True\<rparr>
      else
        let k = unat b mod 128; e = v_prefix v; v = v\<lparr>v_prefix := False\<rparr> in
        if k > 95 then v
        else if unat b \<ge> 128 then v\<lparr>v_pressed := v_pressed v - {(k, e)}\<rparr>
        else view_press k e v)"

definition kbd_inv :: "'a kbd_state_scheme \<Rightarrow> bool" where
  "kbd_inv s \<longleftrightarrow> length (keymap s) = 96
     \<and> (\<forall>k < 96. length (keymap s ! k) = 4 \<and> keymap s ! k ! 0 = fst (key_chars ! k)
          \<and> keymap s ! k ! 1 = snd (key_chars ! k))
     \<and> fifo_inv (kfifo s) \<and> fifo_cap (kfifo s) = 63"

text \<open>The controller always becomes ready again, and acknowledges what it is sent.\<close>

definition fair_controller :: "'a kbd_state_scheme \<Rightarrow> bool" where
  "fair_controller s \<longleftrightarrow> (\<forall>n. \<exists>m \<ge> n. kctrl s m AND 2 = 0) \<and> (\<forall>n. \<exists>m \<ge> n. kdata s m = KEYBOARD_CMD_ACK)"

subsection \<open>The controller\<close>

lemma key_codes:
  "KEY_CTRL_L = 0x1d" "KEY_SHIFT_L = 0x2a" "KEY_SLASH = 0x35" "KEY_SHIFT_R = 0x36" "KEY_ALT_L = 0x38"
  "KEY_CAPSLOCK = 0x3a" "KEY_NUMLOCK = 0x45" "KEY_SCRLOCK = 0x46" "KEY_PRINT_SCREEN = 0x5f"
  by code_simp+

lemma keyboard_wait_ends:
  assumes "kctrl s (kctrl_pos s + m) AND 2 = 0"
  shows "\<exists>n. keyboard_wait s = Some (s\<lparr>kctrl_pos := n\<rparr>)"
  using assms
proof (induction m arbitrary: s)
  case 0
  then show ?case by (subst keyboard_wait.simps) (auto simp: in_ctrl_def)
next
  case (Suc m)
  show ?case
  proof (cases "kctrl s (kctrl_pos s) AND 2 = 0")
    case True
    then show ?thesis by (subst keyboard_wait.simps) (auto simp: in_ctrl_def)
  next
    case False
    then show ?thesis using Suc.IH [of "s\<lparr>kctrl_pos := kctrl_pos s + 1\<rparr>"] Suc.prems
      by (subst keyboard_wait.simps) (simp add: in_ctrl_def)
  qed
qed

lemma keyboard_ack_ends:
  assumes "kdata s (kdata_pos s + m) = KEYBOARD_CMD_ACK"
  shows "\<exists>n. keyboard_ack s = Some (s\<lparr>kdata_pos := n\<rparr>)"
  using assms
proof (induction m arbitrary: s)
  case 0
  then show ?case by (subst keyboard_ack.simps) (auto simp: in_data_def)
next
  case (Suc m)
  show ?case
  proof (cases "kdata s (kdata_pos s) = KEYBOARD_CMD_ACK")
    case True
    then show ?thesis by (subst keyboard_ack.simps) (auto simp: in_data_def)
  next
    case False
    then show ?thesis using Suc.IH [of "s\<lparr>kdata_pos := kdata_pos s + 1\<rparr>"] Suc.prems
      by (subst keyboard_ack.simps) (simp add: in_data_def)
  qed
qed

text \<open>\<open>s'\<close> is \<open>s\<close> but for the ports.\<close>

definition ports_only :: "'a kbd_state_scheme \<Rightarrow> 'a kbd_state_scheme \<Rightarrow> bool" where
  "ports_only s s' \<longleftrightarrow> (\<exists>a b c. s' = s\<lparr>outs := a, kdata_pos := b, kctrl_pos := c\<rparr>)"

lemma ports_onlyI: "s' = s\<lparr>outs := a, kdata_pos := b, kctrl_pos := c\<rparr> \<Longrightarrow> ports_only s s'"
  unfolding ports_only_def by blast

lemma ports_onlyE:
  assumes "ports_only s s'"
  obtains a b c where "s' = s\<lparr>outs := a, kdata_pos := b, kctrl_pos := c\<rparr>"
  using assms unfolding ports_only_def by blast

lemma ports_only_eqI:
  "s' = s\<lparr>outs := outs s', kdata_pos := kdata_pos s', kctrl_pos := kctrl_pos s'\<rparr> \<Longrightarrow> ports_only s s'"
  by (rule ports_onlyI)

lemma ports_only_refl: "ports_only s s"
  by (rule ports_only_eqI) simp

lemma ports_only_ctrl: "ports_only s t \<Longrightarrow> ports_only s (t\<lparr>kctrl_pos := n\<rparr>)"
  by (erule ports_onlyE, rule ports_only_eqI, cases s) simp

lemma ports_only_data: "ports_only s t \<Longrightarrow> ports_only s (t\<lparr>kdata_pos := n\<rparr>)"
  by (erule ports_onlyE, rule ports_only_eqI, cases s) simp

lemma ports_only_outb: "ports_only s t \<Longrightarrow> ports_only s (outb p v t)"
  by (erule ports_onlyE, rule ports_only_eqI, cases s) (simp add: outb_def)

lemma ports_only_fair: "ports_only s t \<Longrightarrow> fair_controller t \<longleftrightarrow> fair_controller s"
  by (erule ports_onlyE) (simp add: fair_controller_def)

lemma wait_ports:
  assumes "ports_only s t" and "fair_controller s"
  shows "\<exists>u. keyboard_wait t = Some u \<and> ports_only s u"
proof -
  have "fair_controller t" using assms by (simp add: ports_only_fair)
  then obtain m where "m \<ge> kctrl_pos t" "kctrl t m AND 2 = 0" unfolding fair_controller_def by blast
  then show ?thesis using keyboard_wait_ends [of t "m - kctrl_pos t"] ports_only_ctrl [OF assms(1)] by auto
qed

lemma ack_ports:
  assumes "ports_only s t" and "fair_controller s"
  shows "\<exists>u. keyboard_ack t = Some u \<and> ports_only s u"
proof -
  have "fair_controller t" using assms by (simp add: ports_only_fair)
  then obtain m where "m \<ge> kdata_pos t" "kdata t m = KEYBOARD_CMD_ACK" unfolding fair_controller_def by blast
  then show ?thesis using keyboard_ack_ends [of t "m - kdata_pos t"] ports_only_data [OF assms(1)] by auto
qed

lemma set_leds_ports:
  assumes "fair_controller s"
  shows "\<exists>u. set_leds s = Inr u \<and> ports_only s u"
proof -
  obtain a where a: "keyboard_wait s = Some a" "ports_only s a"
    using wait_ports [OF ports_only_refl assms] by blast
  obtain b where b: "keyboard_ack (outb KEYBOARD_DATA_PORT KEYBOARD_CMD_LED a) = Some b" "ports_only s b"
    using ack_ports [OF ports_only_outb [OF a(2)] assms] by blast
  obtain c where c: "keyboard_wait b = Some c" "ports_only s c"
    using wait_ports [OF b(2) assms] by blast
  obtain d where "keyboard_ack (outb KEYBOARD_DATA_PORT (leds_byte s) c) = Some d" "ports_only s d"
    using ack_ports [OF ports_only_outb [OF c(2)] assms] by blast
  then show ?thesis by (simp add: set_leds_def a b c Let_def)
qed

text \<open>What the ports change concerns neither the keys nor the tasks.\<close>

definition same_tasks :: "'a kbd_state_scheme \<Rightarrow> 'a kbd_state_scheme \<Rightarrow> bool" where
  "same_tasks s t \<longleftrightarrow> tasks t = tasks s \<and> nodes t = nodes s \<and> task_table t = task_table s
     \<and> idle_task t = idle_task s \<and> current t = current s \<and> intr t = intr s \<and> waiter t = waiter s"

lemma same_tasks_inv: "same_tasks s t \<Longrightarrow> sched_inv t c \<longleftrightarrow> sched_inv s c"
proof -
  assume *: "same_tasks s t"
  have "wake_time t = wake_time s" "state_of t = state_of s" "live t = live s"
    using * by (auto simp: same_tasks_def wake_time_def state_of_def live_def)
  then show ?thesis using * by (simp add: same_tasks_def sched_inv_def sched_core_def)
qed

lemma ports_only_same:
  assumes "ports_only s t"
  shows "same_tasks s t" "kbd_view_of t = kbd_view_of s" "kbd_inv t \<longleftrightarrow> kbd_inv s" "keymap t = keymap s"
    "capslock_state t = capslock_state s"
  using assms by (auto elim!: ports_onlyE simp: same_tasks_def kbd_view_of_def kbd_inv_def)

subsection \<open>The keys\<close>

lemma column_simps: "column e < 4" "column e = column e' \<longleftrightarrow> e = e'" "column e \<noteq> 0" "column e \<noteq> Suc 0"
  by (auto simp: column_def)

lemma column_update: "length xs = 4 \<Longrightarrow> xs[column e := v] ! column e' = (if e = e' then v else xs ! column e')"
  by (simp add: nth_list_update column_simps)

lemma same_tasks_refl: "same_tasks s s" by (simp add: same_tasks_def)

lemma same_tasks_trans: "same_tasks s t \<Longrightarrow> same_tasks t u \<Longrightarrow> same_tasks s u" by (simp add: same_tasks_def)

lemma set_key_ok:
  assumes "kbd_inv s" and "unat k < 96"
  shows "\<exists>s'. set_key k (column e) v s = Inr s' \<and> kbd_inv s' \<and> same_tasks s s'
    \<and> fair_controller s' = fair_controller s
    \<and> kbd_view_of s' = (kbd_view_of s)\<lparr>v_pressed :=
        (if v \<noteq> 0 then insert (unat k, e) (v_pressed (kbd_view_of s)) else v_pressed (kbd_view_of s) - {(unat k, e)})\<rparr>"
proof -
  define s' where "s' = s\<lparr>keymap := (keymap s)[unat k := (keymap s ! unat k)[column e := v]]\<rparr>"
  have r: "length (keymap s) = 96" "length (keymap s ! unat k) = 4" using assms by (auto simp: kbd_inv_def)
  have "set_key k (column e) v s = Inr s'"
    using r assms(2) by (simp add: set_key_def s'_def column_simps)
  moreover have "kbd_inv s'"
    using assms r by (auto simp: kbd_inv_def s'_def nth_list_update column_simps)
  moreover have "kbd_view_of s' = (kbd_view_of s)\<lparr>v_pressed :=
        (if v \<noteq> 0 then insert (unat k, e) (v_pressed (kbd_view_of s)) else v_pressed (kbd_view_of s) - {(unat k, e)})\<rparr>"
  proof -
    have *: "keymap s' ! a ! column b = (if a = unat k \<and> b = e then v else keymap s ! a ! column b)" for a b
      using r assms(2) by (auto simp: s'_def nth_list_update column_update)
    have "kbd_view_of s' = (kbd_view_of s)\<lparr>v_pressed := {(a, b). a < 96 \<and> keymap s' ! a ! column b \<noteq> 0}\<rparr>"
      by (simp add: kbd_view_of_def s'_def)
    moreover have "{(a, b). a < 96 \<and> keymap s' ! a ! column b \<noteq> 0} =
        (if v \<noteq> 0 then insert (unat k, e) (v_pressed (kbd_view_of s)) else v_pressed (kbd_view_of s) - {(unat k, e)})"
      unfolding * using assms(2) by (auto simp: kbd_view_of_def split: if_splits)
    ultimately show ?thesis by simp
  qed
  ultimately show ?thesis by (auto simp: same_tasks_def fair_controller_def s'_def)
qed

lemma key_word: "(k :: u16) = of_nat n \<longleftrightarrow> unat k = n" if "n < 65536"
  using that by (auto simp: unat_of_nat_small)

lemma toggle_lock_ok:
  assumes "kbd_inv s" and "toggle_lock k s = (led, t)"
  shows "kbd_inv t" "same_tasks s t" "fair_controller t = fair_controller s"
    "kbd_view_of t = view_toggle (unat k) (kbd_view_of s)"
proof -
  have k: "k = 0x45 \<longleftrightarrow> unat k = 0x45" "k = 0x3a \<longleftrightarrow> unat k = 0x3a" "k = 0x46 \<longleftrightarrow> unat k = 0x46"
    using key_word [of "0x45" k] key_word [of "0x3a" k] key_word [of "0x46" k] by simp_all
  show "kbd_inv t" "same_tasks s t" "fair_controller t = fair_controller s"
    "kbd_view_of t = view_toggle (unat k) (kbd_view_of s)"
    using assms
    by (auto simp: toggle_lock_def key_codes view_toggle_def k kbd_inv_def kbd_view_of_def same_tasks_def
        fair_controller_def split: if_splits)
qed

lemma get_key_ok:
  assumes "kbd_inv s" and "unat k < 96" and "i < 4"
  shows "get_key k i s = Inr (keymap s ! unat k ! i)"
  using assms by (simp add: get_key_def kbd_inv_def)

lemma key_shift_ok:
  assumes "kbd_inv s" and "unat k < 96"
  shows "key_shift k s = Inr (v_caps (kbd_view_of s) \<noteq>
    ((0x2a, False) \<in> v_pressed (kbd_view_of s) \<or> (0x36, False) \<in> v_pressed (kbd_view_of s)))"
  using assms
  by (auto simp: key_shift_def shift_state_def get_key_ok key_codes letter_test_def kbd_view_of_def column_def)

lemma key_char_ok:
  assumes "kbd_inv s" and "unat k < 96"
  shows "bindE (key_shift k s) (\<lambda>shift.
     if column e = 3 \<and> k \<noteq> KEY_SLASH then get_key k 1 s else get_key k (of_bool shift) s)
    = Inr (view_char (kbd_view_of s) (unat k) e)"
proof -
  have k: "k = 0x35 \<longleftrightarrow> unat k = 0x35" using key_word [of "0x35" k] by simp
  have "keymap s ! unat k ! 0 = fst (key_chars ! unat k)" "keymap s ! unat k ! Suc 0 = snd (key_chars ! unat k)"
    using assms by (auto simp: kbd_inv_def)
  then show ?thesis
    using assms by (auto simp: key_shift_ok get_key_ok view_char_def key_codes k column_def)
qed

definition waiter_blocked :: "'a kbd_state_scheme \<Rightarrow> (queue_t \<Rightarrow> u32 list option) \<Rightarrow> bool" where
  "waiter_blocked s c \<longleftrightarrow> (\<forall>p. waiter s = Some p \<longrightarrow> p \<in> set (the (c BlockList)))"

lemma put_char_ok:
  assumes kb: "kbd_inv s" and inv: "sched_inv s c" and "\<not> intr s" and w: "waiter_blocked s c" and "ch \<noteq> 0"
  shows "\<exists>s' c'. put_char ch s = Inr s' \<and> kbd_inv s' \<and> sched_inv s' c' \<and> waiter s' = None
    \<and> kbd_view_of s' = view_put ch (kbd_view_of s)
    \<and> (\<forall>p. waiter s = Some p \<longrightarrow> state_of s' p = TASK_READY)
    \<and> (\<forall>p. waiter s \<noteq> Some p \<longrightarrow> tasks s' p = tasks s p)"
proof -
  obtain f where f: "fifo_put (kfifo s) ch = Inr f" "fifo_inv f" "fifo_cap f = 63"
    "fifo_contents f = (if length (fifo_contents (kfifo s)) = 63 then tl (fifo_contents (kfifo s))
        else fifo_contents (kfifo s)) @ [ch]"
    using bq.put_abs [of "kfifo s" ch] kb by (auto simp: kbd_inv_def)
  define t where "t = s\<lparr>kfifo := f\<rparr>"
  have t: "kbd_inv t" "kbd_view_of t = view_put ch (kbd_view_of s)" "same_tasks s t"
    using kb f assms(5) by (auto simp: t_def kbd_inv_def kbd_view_of_def view_put_def same_tasks_def)
  have ti: "sched_inv t c" using inv same_tasks_inv [OF t(3)] by simp
  have wt: "waiter t = waiter s" "tasks t = tasks s" "intr t = intr s" by (simp_all add: t_def)
  show ?thesis
  proof (cases "waiter s")
    case None
    then show ?thesis using f(1) t ti wt by (auto simp: put_char_def t_def)
  next
    case (Some p)
    have core: "sched_core t c" and run: "state_of t (current t) = TASK_RUNNING"
      using ti by (simp_all add: sched_inv_def)
    obtain xs where q: "c BlockList = Some xs" using sched_coreD(2) [OF core] by blast
    have p: "p \<in> set xs" using w Some q by (auto simp: waiter_blocked_def)
    obtain h where h: "task_unblock p t = Inr (upd_task p (\<lambda>t. t\<lparr>t_state := TASK_READY\<rparr>) (t\<lparr>nodes := h\<rparr>))"
      "sched_core (upd_task p (\<lambda>t. t\<lparr>t_state := TASK_READY\<rparr>) (t\<lparr>nodes := h\<rparr>)) (c(BlockList \<mapsto> remove1 p xs))"
      using task_unblock_ok [OF core _ q p] assms(3) wt by auto
    define u where "u = (upd_task p (\<lambda>t. t\<lparr>t_state := TASK_READY\<rparr>) (t\<lparr>nodes := h\<rparr>))\<lparr>waiter := None\<rparr>"
    have ne: "p \<noteq> current t" using not_due_self [OF ti q] p by auto
    have "same_tasks (upd_task p (\<lambda>t. t\<lparr>t_state := TASK_READY\<rparr>) (t\<lparr>nodes := h\<rparr>)) (u\<lparr>waiter := waiter t\<rparr>)"
      by (simp add: u_def same_tasks_def upd_task_def)
    then have "sched_inv (u\<lparr>waiter := waiter t\<rparr>) (c(BlockList \<mapsto> remove1 p xs))"
      using same_tasks_inv h(2) run ne by (fastforce simp: sched_inv_def state_of_def upd_task_def)
    moreover have "sched_inv (u\<lparr>waiter := waiter t\<rparr>) c' \<longleftrightarrow> sched_inv u c'" for c'
      by (simp add: sched_inv_def sched_core_def state_of_def wake_time_def [abs_def] live_def)
    moreover have "put_char ch s = Inr u" using f(1) Some h(1) by (simp add: put_char_def u_def t_def)
    moreover have "kbd_inv u" "kbd_view_of u = kbd_view_of t"
      using t(1) by (simp_all add: u_def upd_task_def kbd_inv_def kbd_view_of_def)
    ultimately show ?thesis
      using t(2) Some wt by (intro exI conjI) (auto simp: u_def state_of_def upd_task_def)
  qed
qed

lemma byte_cases:
  assumes "list_all (\<lambda>n. P (of_nat n :: u8)) [0..<256]"
  shows "P b"
proof -
  have "unat b < 2 ^ LENGTH(8)" by (rule unsigned_less)
  then have "P (of_nat (unat b))" using all_below [OF assms, of "unat b"] by simp
  then show ?thesis by simp
qed

lemma unat_widen: "unat (ucast (b :: u8) :: u16) = unat b"
proof -
  have "unat b < 2 ^ LENGTH(8)" by (rule unsigned_less)
  then show ?thesis by (simp add: unsigned_ucast_eq take_bit_nat_eq_self)
qed

lemma scan_make: "unat ((ucast (b :: u8) :: u16) AND 0x7f) = unat b mod 128"
proof -
  have "(ucast b :: u16) AND 0x7f = take_bit 7 (ucast b)" by (simp add: take_bit_eq_mask mask_eq_exp_minus_1)
  then show ?thesis by (simp add: unsigned_take_bit_eq unat_widen) (simp add: take_bit_eq_mod)
qed

lemma scan_prefix: "((ucast (b :: u8) :: u16) OR 0xe000) AND 0x7f = ucast b AND 0x7f" "((ucast (b :: u8) :: u16) OR 0xe000) AND 0x80 = ucast b AND 0x80"
  by (simp_all add: bit.conj_disj_distrib2)

lemma byte_high_bit: "b AND 0x80 = 0 \<longleftrightarrow> unat (b :: u8) < 128"
  by (rule byte_cases) code_simp

lemma scan_high: "(ucast (b :: u8) :: u16) AND 0x80 = ucast (b AND 0x80)"
  by (simp add: unsigned_and_eq)

lemma scan_eq: "(ucast (b :: u8) :: u16) = 0 \<longleftrightarrow> b = 0" "(ucast (b :: u8) :: u16) = 0xe0 \<longleftrightarrow> b = 0xe0"
proof -
  have inj: "(ucast b :: u16) = ucast c \<longleftrightarrow> b = c" for c :: u8 by (metis unat_widen word_unat_eq_iff)
  show "(ucast (b :: u8) :: u16) = 0 \<longleftrightarrow> b = 0" "(ucast (b :: u8) :: u16) = 0xe0 \<longleftrightarrow> b = 0xe0" using inj [of 0] inj [of "0xe0"] by simp_all
qed

lemmas scan_codes = scan_make scan_prefix scan_high byte_high_bit scan_eq

text \<open>The state after a step of the handler that leaves the tasks alone, or hands a character over.\<close>

definition handled :: "'a kbd_state_scheme \<Rightarrow> 'a kbd_state_scheme \<Rightarrow> bool" where
  "handled s s' \<longleftrightarrow> kbd_inv s' \<and> (\<exists>c'. sched_inv s' c' \<and> waiter_blocked s' c')
     \<and> (waiter s' = waiter s \<and> tasks s' = tasks s
        \<or> waiter s' = None \<and> (\<forall>p. if waiter s = Some p then state_of s' p = TASK_READY else tasks s' p = tasks s p))"

lemma handled_quiet:
  assumes "kbd_inv t" "same_tasks s t" "sched_inv s c" "waiter_blocked s c"
  shows "handled s t"
  using assms same_tasks_inv [OF assms(2)] unfolding handled_def
  by (auto simp: same_tasks_def waiter_blocked_def)

lemma key_down_ok:
  assumes kb: "kbd_inv s" and inv: "sched_inv s c" and i: "\<not> intr s" and w: "waiter_blocked s c"
    and k: "unat k < 96" and fair: "unat k \<in> {0x3a, 0x45, 0x46} \<longrightarrow> fair_controller s"
  shows "\<exists>s'. key_down k (column e) s = Inr s' \<and> handled s s'
    \<and> kbd_view_of s' = view_press (unat k) e (kbd_view_of s)
    \<and> (view_char (kbd_view_of s') (unat k) e \<noteq> 0 \<longrightarrow> waiter s' = None)"
proof -
  obtain s1 where s1: "set_key k (column e) 1 s = Inr s1" "kbd_inv s1" "same_tasks s s1"
      "fair_controller s1 = fair_controller s"
      "kbd_view_of s1 = (kbd_view_of s)\<lparr>v_pressed := insert (unat k, e) (v_pressed (kbd_view_of s))\<rparr>"
    using set_key_ok [OF kb k, of e 1] by auto
  obtain led s2 where l: "toggle_lock k s1 = (led, s2)" by (cases "toggle_lock k s1")
  note t = toggle_lock_ok [OF s1(2) l]
  have led: "led \<Longrightarrow> unat k \<in> {0x3a, 0x45, 0x46}"
    using l key_word [of "0x45" k] key_word [of "0x3a" k] key_word [of "0x46" k]
    by (auto simp: toggle_lock_def key_codes split: if_splits)
  obtain s3 where s3: "(if led then set_leds s2 else Inr s2) = Inr s3" "ports_only s2 s3"
    using led fair t(3) s1(4) set_leds_ports [of s2] ports_only_refl [of s2] by (cases led) auto
  note u = ports_only_same [OF s3(2)]
  have kb3: "kbd_inv s3" using u(3) t(1) by simp
  have st: "same_tasks s s3" using same_tasks_trans [OF same_tasks_trans [OF s1(3) t(2)] u(1)] .
  define v where "v = view_toggle (unat k) ((kbd_view_of s)\<lparr>v_pressed := insert (unat k, e) (v_pressed (kbd_view_of s))\<rparr>)"
  have v3: "kbd_view_of s3 = v" using u(2) t(4) s1(5) by (simp add: v_def)
  let ?ch = "view_char v (unat k) e"
  have r: "key_down k (column e) s = (if ?ch = 0 then Inr s3 else put_char ?ch s3)"
  proof -
    obtain sh where sh: "key_shift k s3 = Inr sh" using key_shift_ok [OF kb3 k] by blast
    then have "(if column e = 3 \<and> k \<noteq> KEY_SLASH then get_key k 1 s3 else get_key k (of_bool sh) s3) = Inr ?ch"
      using key_char_ok [OF kb3 k, of e] v3 by simp
    then show ?thesis unfolding key_down_def s1(1) bindE_Inr l Let_def prod.case s3(1) sh INV_def by simp
  qed
  have press: "view_press (unat k) e (kbd_view_of s) = view_put ?ch v" by (simp add: view_press_def v_def Let_def)
  have "view_char (v\<lparr>v_typed := xs\<rparr>) n e = view_char v n e" for xs n by (simp add: view_char_def)
  then have char: "view_char (view_put ?ch v) (unat k) e = ?ch" by (simp add: view_put_def)
  show ?thesis
  proof (cases "?ch = 0")
    case True
    then have "view_put ?ch v = v" by (simp add: view_put_def)
    then show ?thesis using True r handled_quiet [OF kb3 st inv w] v3 press by auto
  next
    case False
    have "sched_inv s3 c" "\<not> intr s3" "waiter_blocked s3 c"
      using st inv i w same_tasks_inv [OF st] by (auto simp: same_tasks_def waiter_blocked_def)
    from put_char_ok [OF kb3 this False] obtain s' c' where s':
      "put_char ?ch s3 = Inr s'" "kbd_inv s'" "sched_inv s' c'" "waiter s' = None"
      "kbd_view_of s' = view_put ?ch (kbd_view_of s3)"
      "\<forall>p. waiter s3 = Some p \<longrightarrow> state_of s' p = TASK_READY"
      "\<forall>p. waiter s3 \<noteq> Some p \<longrightarrow> tasks s' p = tasks s3 p" by blast
    have "handled s s'" using s' st unfolding handled_def by (auto simp: same_tasks_def waiter_blocked_def)
    then show ?thesis using False r s' v3 press by simp
  qed
qed

lemma keyboard_handler_ok:
  assumes kb: "kbd_inv s" and inv: "sched_inv s c" and i: "\<not> intr s" and w: "waiter_blocked s c"
    and fair: "unat (kdata s (kdata_pos s)) \<in> {0x3a, 0x45, 0x46} \<longrightarrow> fair_controller s"
  shows "\<exists>s'. keyboard_handler 0x21 s = Inr s' \<and> handled s s'
    \<and> kbd_view_of s' = view_byte (kdata s (kdata_pos s)) (kbd_view_of s)"
proof -
  let ?b = "kdata s (kdata_pos s)"
  define a where "a = (send_eoi 0x21 s)\<lparr>kdata_pos := kdata_pos s + 1\<rparr>"
  have "ports_only s (send_eoi 0x21 s)"
    using ports_only_outb [OF ports_only_refl] by (simp add: send_eoi_def Let_def)
  then have pa: "ports_only s a" unfolding a_def by (rule ports_only_data)
  have in_a: "in_data (send_eoi 0x21 s) = (?b, a)"
    by (simp add: in_data_def a_def send_eoi_def outb_def Let_def)
  note u = ports_only_same [OF pa]
  have kba: "kbd_inv a" using u(3) kb by simp
  define e where "e = extcode_state s"
  define d where "d = a\<lparr>extcode_state := False\<rparr>"
  have ea: "extcode_state a = e" using u(2) by (simp add: kbd_view_of_def e_def)
  have d: "kbd_inv d" "same_tasks s d" "kbd_view_of d = (kbd_view_of s)\<lparr>v_prefix := False\<rparr>"
    "fair_controller d = fair_controller s"
    using kba u(1,2) ports_only_fair [OF pa]
    by (auto simp: d_def kbd_inv_def same_tasks_def kbd_view_of_def fair_controller_def)
  have ve: "v_prefix (kbd_view_of s) = e" by (simp add: kbd_view_of_def e_def)
  have di: "sched_inv d c" "\<not> intr d" "waiter_blocked d c"
    using same_tasks_inv [OF d(2)] inv i w d(2) by (auto simp: same_tasks_def waiter_blocked_def)
  have trans: "handled d s' \<Longrightarrow> handled s s'" for s' using d(2) unfolding handled_def same_tasks_def by auto
  define k :: u16 where "k = ucast ?b AND 0x7f"
  have k: "unat k = unat ?b mod 128" unfolding k_def by (rule scan_make)
  have kb7: "k \<noteq> 0xb7" using k key_word [of "0xb7" k] by auto
  have klt: "k > 0x5f \<longleftrightarrow> unat k > 95" by (simp add: word_less_nat_alt)
  have unfolded: "keyboard_handler 0x21 s =
      (if ?b = 0xe0 then Inr (a\<lparr>extcode_state := True\<rparr>)
       else if unat k > 95 then Inr d
       else if unat ?b \<ge> 128 then set_key k (column e) 0 d
       else key_down k (column e) d)"
  proof -
    have t1: "(if extcode_state a then (3, ucast ?b OR 0xe000, a\<lparr>extcode_state := False\<rparr>) else (2, ucast ?b, a))
      = (column e, if e then ucast ?b OR 0xe000 else ucast ?b :: u16, d)"
      by (simp add: ea column_def d_def)
    have t2: "(if e then ucast ?b OR 0xe000 else ucast ?b) AND 0x7f = k"
      "(if e then ucast ?b OR 0xe000 else (ucast ?b :: u16)) AND 0x80 = 0 \<longleftrightarrow> unat ?b < 128"
      by (simp_all add: k_def scan_codes)
    have t3: "(if k = 0xb7 then 0x5f else k) = k" using kb7 by simp
    show ?thesis
      unfolding keyboard_handler_def simp_thms(6) kassert_True Let_def in_a prod.case scan_eq
        CODE_PRINT_SCREEN_DOWN_def key_codes t1 t2 t3 klt not_less
      by (simp only: simp_thms if_True kassert_True not_less)
  qed
  have vb: "view_byte ?b (kbd_view_of s) = (if ?b = 0xe0 then (kbd_view_of s)\<lparr>v_prefix := True\<rparr>
      else if unat k > 95 then kbd_view_of d
      else if unat ?b \<ge> 128 then (kbd_view_of d)\<lparr>v_pressed := v_pressed (kbd_view_of d) - {(unat k, e)}\<rparr>
      else view_press (unat k) e (kbd_view_of d))"
    by (simp add: view_byte_def Let_def k ve d(3))
  consider "?b = 0xe0" | "?b \<noteq> 0xe0" "unat k > 95" | "?b \<noteq> 0xe0" "unat k < 96" "unat ?b \<ge> 128"
    | "?b \<noteq> 0xe0" "unat k < 96" "unat ?b < 128" by linarith
  then show ?thesis
  proof cases
    case 1
    have "handled s (a\<lparr>extcode_state := True\<rparr>)"
      by (rule handled_quiet [OF _ _ inv w]) (use kba u(1) in \<open>simp_all add: kbd_inv_def same_tasks_def\<close>)
    then show ?thesis using 1 unfolded vb u(2) by (simp add: kbd_view_of_def)
  next
    case 2
    then show ?thesis using unfolded vb handled_quiet [OF d(1,2) inv w] by simp
  next
    case 3
    obtain s' where "set_key k (column e) 0 d = Inr s'" "kbd_inv s'" "same_tasks d s'"
      "kbd_view_of s' = (kbd_view_of d)\<lparr>v_pressed := v_pressed (kbd_view_of d) - {(unat k, e)}\<rparr>"
      using set_key_ok [OF d(1) 3(2), of e 0] by auto
    then show ?thesis
      using 3 unfolded vb handled_quiet [OF _ same_tasks_trans [OF d(2)] inv w] by auto
  next
    case 4
    have "unat k \<in> {0x3a, 0x45, 0x46} \<longrightarrow> fair_controller d" using fair d(4) 4(3) k by simp
    then obtain s' where "key_down k (column e) d = Inr s'" "handled d s'"
        "kbd_view_of s' = view_press (unat k) e (kbd_view_of d)"
      using key_down_ok [OF d(1) di 4(2)] by blast
    then show ?thesis using 4 unfolded vb trans by simp
  qed
qed

subsection \<open>Reading\<close>

text \<open>Characters that are there are taken without blocking, in order.\<close>

lemma read_loop_takes:
  assumes "kbd_inv s" and "n \<le> length (v_typed (kbd_view_of s))"
  shows "\<exists>s'. read_loop n buf s = Inr (True, buf @ take n (v_typed (kbd_view_of s)), s') \<and> kbd_inv s'
    \<and> kbd_view_of s' = (kbd_view_of s)\<lparr>v_typed := drop n (v_typed (kbd_view_of s))\<rparr>"
  using assms
proof (induction n arbitrary: buf s)
  case 0
  then show ?case by (simp add: kbd_view_of_def)
next
  case (Suc n)
  have f: "fifo_inv (kfifo s)" using Suc.prems(1) by (simp add: kbd_inv_def)
  have ne: "fifo_contents (kfifo s) \<noteq> []" using Suc.prems(2) by (auto simp: kbd_view_of_def)
  obtain f' where f': "fifo_get (kfifo s) = Inr (hd (fifo_contents (kfifo s)), f')" "fifo_inv f'"
    "fifo_cap f' = fifo_cap (kfifo s)" "fifo_contents f' = tl (fifo_contents (kfifo s))"
    using bq.get_abs [OF f ne] by blast
  define t where "t = s\<lparr>kfifo := f'\<rparr>"
  have t: "kbd_inv t" "kbd_view_of t = (kbd_view_of s)\<lparr>v_typed := tl (fifo_contents (kfifo s))\<rparr>"
    using Suc.prems(1) f' by (simp_all add: t_def kbd_inv_def kbd_view_of_def)
  have "n \<le> length (v_typed (kbd_view_of t))" using Suc.prems(2) ne by (simp add: t(2)) (simp add: kbd_view_of_def)
  from Suc.IH [OF t(1) this, of "buf @ [hd (fifo_contents (kfifo s))]"] obtain s' where s':
    "read_loop n (buf @ [hd (fifo_contents (kfifo s))]) t =
       Inr (True, (buf @ [hd (fifo_contents (kfifo s))]) @ take n (v_typed (kbd_view_of t)), s')"
    "kbd_inv s'" "kbd_view_of s' = (kbd_view_of t)\<lparr>v_typed := drop n (v_typed (kbd_view_of t))\<rparr>" by blast
  have "\<not> fifo_empty (kfifo s)" using f ne bq.empty_abs by blast
  then have r: "read_loop (Suc n) buf s = read_loop n (buf @ [hd (fifo_contents (kfifo s))]) t"
    using f'(1) by (simp add: t_def)
  obtain x xs where xs: "fifo_contents (kfifo s) = x # xs" using ne by (cases "fifo_contents (kfifo s)") auto
  show ?case using r s' t(2) xs by (simp add: kbd_view_of_def)
qed

section \<open>Property\<close>


text \<open>The letter \<^verbatim>\<open>q\<close> typed into the empty keyboard while the left shift is down.\<close>

definition example_kbd :: kbd_state where
  "example_kbd = kernel_t.extend example_sched
     \<lparr>mutex_value = \<lambda>_. False, lock_holder = \<lambda>_. None, lock_repeat = \<lambda>_. 0,
      kdata = \<lambda>_. 0x10, kdata_pos = 0, kctrl = \<lambda>_. 0, kctrl_pos = 0,
      keymap = keymap_init[0x2a := [0, 0, 1, 0]], klock = 0, waiter = None,
      kfifo = fifo_init (replicate 64 0) BUFFER_SIZE,
      capslock_state = False, scrlock_state = False, numlock_state = False, extcode_state = False\<rparr>"

lemma keymap_example:
  "list_all (\<lambda>k. length (keymap example_kbd ! k) = 4 \<and> keymap example_kbd ! k ! 0 = fst (key_chars ! k)
     \<and> keymap example_kbd ! k ! 1 = snd (key_chars ! k)) [0..<96]"
  unfolding example_kbd_def by code_simp

lemma example_kbd_inv: "kbd_inv example_kbd"
proof -
  have "length (keymap example_kbd) = 96" by (simp add: example_kbd_def keymap_init_def key_chars_def kernel_t.defs)
  moreover have "fifo_inv (kfifo example_kbd) \<and> fifo_cap (kfifo example_kbd) = 63"
    using fifo_init_contents [of BUFFER_SIZE "replicate 64 0"]
    by (simp add: example_kbd_def BUFFER_SIZE_def kernel_t.defs)
  ultimately show ?thesis using all_below [OF keymap_example] by (simp add: kbd_inv_def)
qed


end
