(* ===== verification/Console.thy ===== *)
theory Console
  imports Task Device
begin

text \<open>
  The text console (\<^verbatim>\<open>kernel/console.c\<close>): the position of the visible screen and of the cursor in
  the video memory, the control characters, and scrolling. \<open>vmem\<close> is the memory, byte by byte;
  \<open>screen\<close> and \<open>pos\<close> are addresses, as in the code, and \<open>con_x\<close>, \<open>con_y\<close> are the coordinates the code calls
  \<^verbatim>\<open>x\<close> and \<^verbatim>\<open>y\<close>. Words are stored with their low byte first.
\<close>

section \<open>The operations\<close>

definition CRT_ADDR_REG :: u16 where "CRT_ADDR_REG = 0x3d4"
definition CRT_DATA_REG :: u16 where "CRT_DATA_REG = 0x3d5"
definition CRT_START_ADDR_H :: u8 where "CRT_START_ADDR_H = 0xc"
definition CRT_START_ADDR_L :: u8 where "CRT_START_ADDR_L = 0xd"
definition CRT_CURSOR_H :: u8 where "CRT_CURSOR_H = 0xe"
definition CRT_CURSOR_L :: u8 where "CRT_CURSOR_L = 0xf"
definition MEM_BASE :: u32 where "MEM_BASE = 0xb8000"
definition MEM_SIZE :: u32 where "MEM_SIZE = 0x4000"
definition MEM_END :: u32 where "MEM_END = MEM_BASE + MEM_SIZE"
definition WIDTH :: u32 where "WIDTH = 80"
definition HEIGHT :: u32 where "HEIGHT = 25"
definition ROW_SIZE :: u32 where "ROW_SIZE = WIDTH * 2"
definition SCR_SIZE :: u32 where "SCR_SIZE = ROW_SIZE * HEIGHT"
definition ASCII_NUL :: u8 where "ASCII_NUL = 0x00"
definition ASCII_BEL :: u8 where "ASCII_BEL = 0x07"
definition ASCII_BS :: u8 where "ASCII_BS = 0x08"
definition ASCII_HT :: u8 where "ASCII_HT = 0x09"
definition ASCII_LF :: u8 where "ASCII_LF = 0x0a"
definition ASCII_VT :: u8 where "ASCII_VT = 0x0b"
definition ASCII_FF :: u8 where "ASCII_FF = 0x0c"
definition ASCII_CR :: u8 where "ASCII_CR = 0x0d"
definition ASCII_DEL :: u8 where "ASCII_DEL = 0x7f"
definition attr :: u8 where "attr = 7"
definition erase :: u16 where "erase = 0x0720"

record con_state = kernel_t +
  screen :: u32
  pos :: u32
  con_x :: u32
  con_y :: u32
  vmem :: "u32 \<Rightarrow> u8"

definition store8 :: "u32 \<Rightarrow> u8 \<Rightarrow> (u32 \<Rightarrow> u8) \<Rightarrow> u32 \<Rightarrow> u8" where
  "store8 a v m = m(a := v)"

definition store16 :: "u32 \<Rightarrow> u16 \<Rightarrow> (u32 \<Rightarrow> u8) \<Rightarrow> u32 \<Rightarrow> u8" where
  "store16 a v m = store8 (a + 1) (ucast (drop_bit 8 v)) (store8 a (ucast v) m)"

definition store32 :: "u32 \<Rightarrow> u32 \<Rightarrow> (u32 \<Rightarrow> u8) \<Rightarrow> u32 \<Rightarrow> u8" where
  "store32 a v m = store16 (a + 2) (ucast (drop_bit 16 v)) (store16 a (ucast v) m)"

definition get_screen :: "'a con_state_scheme \<Rightarrow> 'a con_state_scheme" where
  "get_screen s =
     (let s = outb CRT_ADDR_REG CRT_CURSOR_H s;
          s = s\<lparr>screen := push_bit 8 (ucast (inb CRT_DATA_REG s))\<rparr>;
          s = outb CRT_ADDR_REG CRT_START_ADDR_L s;
          s = s\<lparr>screen := screen s OR ucast (inb CRT_DATA_REG s)\<rparr>;
          s = s\<lparr>screen := push_bit 1 (screen s)\<rparr>
      in s\<lparr>screen := screen s + MEM_BASE\<rparr>)"

definition set_screen :: "'a con_state_scheme \<Rightarrow> 'a con_state_scheme" where
  "set_screen s =
     (let s = outb CRT_ADDR_REG CRT_START_ADDR_H s;
          s = outb CRT_DATA_REG (ucast (drop_bit 9 (screen s - MEM_BASE) AND 0xff)) s;
          s = outb CRT_ADDR_REG CRT_START_ADDR_L s
      in outb CRT_DATA_REG (ucast (drop_bit 1 (screen s - MEM_BASE) AND 0xff)) s)"

definition get_cursor :: "'a con_state_scheme \<Rightarrow> 'a con_state_scheme" where
  "get_cursor s =
     (let s = outb CRT_ADDR_REG CRT_CURSOR_H s;
          s = s\<lparr>pos := push_bit 8 (ucast (inb CRT_DATA_REG s))\<rparr>;
          s = outb CRT_ADDR_REG CRT_CURSOR_L s;
          s = s\<lparr>pos := pos s OR ucast (inb CRT_DATA_REG s)\<rparr>;
          s = get_screen s;
          s = s\<lparr>pos := push_bit 1 (pos s)\<rparr>;
          s = s\<lparr>pos := pos s + MEM_BASE\<rparr>;
          delta = drop_bit 1 (pos s - screen s)
      in s\<lparr>con_x := delta mod WIDTH, con_y := delta div WIDTH\<rparr>)"

definition set_cursor :: "'a con_state_scheme \<Rightarrow> 'a con_state_scheme" where
  "set_cursor s =
     (let s = outb CRT_ADDR_REG CRT_CURSOR_H s;
          s = outb CRT_DATA_REG (ucast (drop_bit 9 (pos s - MEM_BASE) AND 0xff)) s;
          s = outb CRT_ADDR_REG CRT_CURSOR_L s
      in outb CRT_DATA_REG (ucast (drop_bit 1 (pos s - MEM_BASE) AND 0xff)) s)"

text \<open>The loop of \<open>console_clear\<close>.\<close>

function clear_loop :: "u32 \<Rightarrow> (u32 \<Rightarrow> u8) \<Rightarrow> u32 \<Rightarrow> u8" where
  "clear_loop ptr m = (if ptr < MEM_END then clear_loop (ptr + 2) (store16 ptr erase m) else m)"
  by pat_completeness auto

termination
proof (relation "measure (\<lambda>(ptr, m). unat MEM_END - unat ptr)")
  show "((ptr + 2, store16 ptr erase m), ptr, m) \<in> measure (\<lambda>(ptr, m). unat MEM_END - unat ptr)"
    if "ptr < MEM_END" for ptr m
  proof -
    have "unat ptr < 0xbc000" using that by (simp add: word_less_nat_alt MEM_END_def MEM_BASE_def MEM_SIZE_def)
    then have "unat (ptr + 2) = unat ptr + 2" by (subst unat_add_small) auto
    then show ?thesis using that by (simp add: word_less_nat_alt)
  qed
qed simp

declare clear_loop.simps [simp del]

definition console_clear :: "'a con_state_scheme \<Rightarrow> 'a con_state_scheme" where
  "console_clear s =
     (let s = s\<lparr>screen := MEM_BASE\<rparr>;
          s = s\<lparr>pos := MEM_BASE\<rparr>;
          s = s\<lparr>con_x := 0, con_y := 0\<rparr>;
          s = set_cursor s;
          s = set_screen s
      in s\<lparr>vmem := clear_loop MEM_BASE (vmem s)\<rparr>)"

text \<open>\<^verbatim>\<open>memcpy\<close> inside the memory, byte by byte from the front, and the loop that fills a row.\<close>

fun copy_mem :: "u32 \<Rightarrow> u32 \<Rightarrow> nat \<Rightarrow> (u32 \<Rightarrow> u8) \<Rightarrow> u32 \<Rightarrow> u8" where
  "copy_mem dst src 0 m = m"
| "copy_mem dst src (Suc n) m = copy_mem (dst + 1) (src + 1) n (m(dst := m src))"

fun fill32 :: "nat \<Rightarrow> u32 \<Rightarrow> u32 \<Rightarrow> (u32 \<Rightarrow> u8) \<Rightarrow> u32 \<Rightarrow> u8" where
  "fill32 0 ptr v m = m"
| "fill32 (Suc n) ptr v m = fill32 n (ptr + 4) v (store32 ptr v m)"

definition scroll_up :: "'a con_state_scheme \<Rightarrow> 'a con_state_scheme" where
  "scroll_up s =
     (let s = (if screen s + SCR_SIZE + ROW_SIZE \<ge> MEM_END
               then s\<lparr>vmem := copy_mem MEM_BASE (screen s) (unat SCR_SIZE) (vmem s),
                      pos := pos s - (screen s - MEM_BASE),
                      screen := MEM_BASE\<rparr>
               else s);
          ptr = screen s + SCR_SIZE;
          s = s\<lparr>vmem := fill32 (unat WIDTH) ptr (ucast erase) (vmem s)\<rparr>;
          s = s\<lparr>screen := screen s + ROW_SIZE\<rparr>;
          s = s\<lparr>pos := pos s + ROW_SIZE\<rparr>
      in set_screen s)"

definition command_lf :: "'a con_state_scheme \<Rightarrow> 'a con_state_scheme" where
  "command_lf s =
     (if con_y s + 1 < HEIGHT then s\<lparr>con_y := con_y s + 1, pos := pos s + ROW_SIZE\<rparr> else scroll_up s)"

definition command_cr :: "'a con_state_scheme \<Rightarrow> 'a con_state_scheme" where
  "command_cr s = s\<lparr>pos := pos s - push_bit 1 (con_x s), con_x := 0\<rparr>"

definition command_bs :: "'a con_state_scheme \<Rightarrow> 'a con_state_scheme" where
  "command_bs s =
     (if con_x s \<noteq> 0 then
        let s = s\<lparr>con_x := con_x s - 1\<rparr>;
            s = s\<lparr>pos := pos s - 2\<rparr>
        in s\<lparr>vmem := store16 (pos s) erase (vmem s)\<rparr>
      else s)"

definition command_del :: "'a con_state_scheme \<Rightarrow> 'a con_state_scheme" where
  "command_del s = s\<lparr>vmem := store16 (pos s) erase (vmem s)\<rparr>"

text \<open>A character that is not a control character.\<close>

definition put_visible :: "u8 \<Rightarrow> 'a con_state_scheme \<Rightarrow> 'a con_state_scheme" where
  "put_visible ch s =
     (let s = (if con_x s \<ge> WIDTH
               then command_lf (s\<lparr>con_x := con_x s - WIDTH, pos := pos s - ROW_SIZE\<rparr>)
               else s);
          s = s\<lparr>vmem := store8 (pos s) ch (vmem s)\<rparr>;
          s = s\<lparr>pos := pos s + 1\<rparr>;
          s = s\<lparr>vmem := store8 (pos s) attr (vmem s)\<rparr>;
          s = s\<lparr>pos := pos s + 1\<rparr>
      in s\<lparr>con_x := con_x s + 1\<rparr>)"

definition console_char :: "u8 \<Rightarrow> 'a con_state_scheme \<Rightarrow> 'a con_state_scheme" where
  "console_char ch s =
     (if ch = ASCII_NUL then s
      else if ch = ASCII_BEL then start_beep s
      else if ch = ASCII_BS then command_bs s
      else if ch = ASCII_HT then s
      else if ch = ASCII_LF then command_cr (command_lf s)
      else if ch = ASCII_VT then s
      else if ch = ASCII_FF then command_lf s
      else if ch = ASCII_CR then command_cr s
      else if ch = ASCII_DEL then command_del s
      else put_visible ch s)"

text \<open>\<^verbatim>\<open>while (nr++ < count)\<close>: \<open>nr\<close> is an \<^verbatim>\<open>int\<close> and is incremented once more when the test fails.\<close>

fun write_loop :: "nat \<Rightarrow> int \<Rightarrow> u8 list \<Rightarrow> 'a con_state_scheme \<Rightarrow> (int \<times> 'a con_state_scheme) res" where
  "write_loop 0 nr buf s = (if int_ok (nr + 1) then Inr (nr + 1, s) else Inl Undefined)"
| "write_loop (Suc n) nr buf s =
     (if int_ok (nr + 1) then
        bindE (rd buf 0) (\<lambda>ch. write_loop n (nr + 1) (tl buf) (console_char ch s))
      else Inl Undefined)"

definition console_write :: "u8 list \<Rightarrow> u32 \<Rightarrow> 'a con_state_scheme \<Rightarrow> (int \<times> 'a con_state_scheme) res" where
  "console_write buf count s =
     (let (i, s) = interrupt_disable s in
      bindE (write_loop (unat count) 0 buf s) (\<lambda>(nr, s).
      let s = set_cursor s in
      Inr (nr, set_interrupt_state i s)))"

text \<open>\<open>wrf\<close> is the write function as the device table has it; the devices are threaded along.\<close>

definition console_init ::
  "'w transfer_t \<Rightarrow> ('w, 'b) dev_state_scheme \<Rightarrow> 'a con_state_scheme
    \<Rightarrow> (('w, 'b) dev_state_scheme \<times> 'a con_state_scheme) res" where
  "console_init wrf ds s =
     (let s = console_clear s in
      bindE (device_install DEV_CHAR DEV_CONSOLE 0 (map (\<lambda>c. of_nat (of_char c)) ''console'' @ [0]) 0
               None None (Some wrf) ds) (\<lambda>(d, ds).
      Inr (ds, s)))"

section \<open>Addresses as offsets\<close>

definition at :: "nat \<Rightarrow> u32" where "at n = MEM_BASE + of_nat n"

lemma unat_at: "n < 2 ^ 20 \<Longrightarrow> unat (at n) = 0xb8000 + n"
  unfolding at_def MEM_BASE_def by (subst unat_add_small) (simp_all add: unat_of_nat_small)

lemma at_eq: "m < 2 ^ 20 \<Longrightarrow> n < 2 ^ 20 \<Longrightarrow> at m = at n \<longleftrightarrow> m = n"
  by (metis add_left_cancel unat_at)

lemma at_add: "at m + of_nat n = at (m + n)"
  by (simp add: at_def)

lemma at_numeral: "at m + 1 = at (m + 1)" "at m + 2 = at (m + 2)" "at m + 4 = at (m + 4)"
  "at m + 160 = at (m + 160)" "at m + 4000 = at (m + 4000)"
  by (simp_all add: at_def)

lemma at_diff: "n \<le> m \<Longrightarrow> at m - of_nat n = at (m - n)"
  by (simp add: at_def of_nat_diff)

lemma at_base: "MEM_BASE = at 0" by (simp add: at_def)

lemma at_end: "n < 2 ^ 20 \<Longrightarrow> MEM_END \<le> at n \<longleftrightarrow> 0x4000 \<le> n"
  using unat_at [of n] by (simp add: word_le_nat_alt MEM_END_def MEM_BASE_def MEM_SIZE_def)

lemma con_consts: "WIDTH = 80" "HEIGHT = 25" "ROW_SIZE = 160" "SCR_SIZE = 4000" "unat SCR_SIZE = 4000" "unat WIDTH = 80"
  by (simp_all add: WIDTH_def HEIGHT_def ROW_SIZE_def SCR_SIZE_def)

lemma blank_bytes: "ucast erase = (0x20 :: u8)" "ucast (drop_bit 8 erase) = (7 :: u8)"
  "ucast (ucast erase :: u32) = (0x20 :: u8)" "ucast (ucast erase :: u32) = erase"
  "ucast (drop_bit 16 (ucast erase :: u32)) = (0 :: u16)"
  unfolding erase_def by code_simp+

text \<open>Only the bytes from offset \<open>lo\<close> to before \<open>hi\<close> have changed.\<close>

definition confined :: "nat \<Rightarrow> nat \<Rightarrow> (u32 \<Rightarrow> u8) \<Rightarrow> (u32 \<Rightarrow> u8) \<Rightarrow> bool" where
  "confined lo hi m m' \<longleftrightarrow> (\<forall>a. a \<notin> at ` {lo..<hi} \<longrightarrow> m' a = m a)"

lemma confined_refl [simp]: "confined lo hi m m" by (simp add: confined_def)

lemma confined_trans: "confined lo hi m m' \<Longrightarrow> confined lo hi m' m'' \<Longrightarrow> confined lo hi m m''"
  by (simp add: confined_def)

lemma confined_mono: "confined lo hi m m' \<Longrightarrow> lo' \<le> lo \<Longrightarrow> hi \<le> hi' \<Longrightarrow> confined lo' hi' m m'"
  unfolding confined_def by force

lemma confined_upd: "confined lo hi m m' \<Longrightarrow> lo \<le> n \<Longrightarrow> n < hi \<Longrightarrow> confined lo hi m (m'(at n := v))"
  by (auto simp: confined_def)

lemma store16_blank: "store16 (at n) erase m = m(at n := 0x20, at (n + 1) := 7)"
  by (simp add: store16_def store8_def blank_bytes at_numeral)

lemma store32_blank:
  "store32 (at n) (ucast erase) m = m(at n := 0x20, at (n + 1) := 7, at (n + 2) := 0, at (n + 3) := 0)"
  by (simp add: store32_def blank_bytes store16_blank at_numeral) (simp add: store16_def store8_def at_numeral eval_nat_numeral)

lemma fill32_cells:
  assumes "n + 4 * c < 2 ^ 19" and "p < 2 ^ 19"
  shows "fill32 c (at n) (ucast erase) m (at p) =
    (if n \<le> p \<and> p < n + 4 * c then (if (p - n) mod 4 = 0 then 0x20 else if (p - n) mod 4 = 1 then 7 else 0)
     else m (at p))"
  using assms
proof (induction c arbitrary: n m)
  case 0
  then show ?case by auto
next
  case (Suc c)
  let ?m = "m(at n := 0x20, at (n + 1) := 7, at (n + 2) := 0, at (n + 3) := 0)"
  have ih: "fill32 c (at (n + 4)) (ucast erase) ?m (at p) =
    (if n + 4 \<le> p \<and> p < n + 4 + 4 * c then (if (p - (n + 4)) mod 4 = 0 then 0x20 else if (p - (n + 4)) mod 4 = 1 then 7 else 0)
     else ?m (at p))"
    by (rule Suc.IH) (use Suc.prems in auto)
  have "(p - (n + 4)) mod 4 = (p - n) mod 4" if "n + 4 \<le> p"
  proof -
    have "p - n = p - (n + 4) + 4" using that by simp
    then show ?thesis by (simp only: mod_add_self2)
  qed
  moreover have "?m (at p) = (if n \<le> p \<and> p < n + 4 then (if (p - n) mod 4 = 0 then 0x20 else if (p - n) mod 4 = 1 then 7 else 0) else m (at p))"
  proof -
    consider "p = n" | "p = n + 1" | "p = n + 2" | "p = n + 3" | "p < n" | "n + 4 \<le> p" by linarith
    then show ?thesis using Suc.prems by cases (simp_all add: at_eq)
  qed
  ultimately show ?case
    unfolding fill32.simps store32_blank at_numeral(3) ih by auto
qed

lemma fill32_confined: "confined n (n + 4 * c) m (fill32 c (at n) (ucast erase) m)"
proof (induction c arbitrary: n m)
  case 0
  then show ?case by simp
next
  case (Suc c)
  have "confined n (n + 4 * Suc c) m (store32 (at n) (ucast erase) m)"
    unfolding store32_blank by (intro confined_upd confined_refl) auto
  moreover have "confined n (n + 4 * Suc c) (store32 (at n) (ucast erase) m) (fill32 c (at (n + 4)) (ucast erase) (store32 (at n) (ucast erase) m))"
    by (rule confined_mono [OF Suc.IH]) auto
  ultimately show ?case unfolding fill32.simps copy_mem.simps at_numeral by (rule confined_trans)
qed

lemma copy_mem_cells:
  assumes "d \<le> s" and "s + n < 2 ^ 19" and "p < 2 ^ 19"
  shows "copy_mem (at d) (at s) n m (at p) = (if d \<le> p \<and> p < d + n then m (at (s + (p - d))) else m (at p))"
  using assms
proof (induction n arbitrary: d s m)
  case 0
  then show ?case by auto
next
  case (Suc n)
  let ?m = "m(at d := m (at s))"
  have ih: "copy_mem (at (d + 1)) (at (s + 1)) n ?m (at p) =
      (if d + 1 \<le> p \<and> p < d + 1 + n then ?m (at (s + 1 + (p - (d + 1)))) else ?m (at p))"
    by (rule Suc.IH) (use Suc.prems in auto)
  have m1: "?m (at (s + 1 + (p - (d + 1)))) = m (at (s + (p - d)))" if "d + 1 \<le> p" "p < d + 1 + n"
  proof -
    have "s + 1 + (p - (d + 1)) = s + (p - d)" "at (s + (p - d)) \<noteq> at d"
      using that Suc.prems by (auto simp: at_eq)
    then show ?thesis by (simp only: fun_upd_apply if_False)
  qed
  have m2: "?m (at p) = (if p = d then m (at s) else m (at p))" using Suc.prems by (auto simp: at_eq)
  have e: "copy_mem (at d) (at s) (Suc n) m (at p) = copy_mem (at (d + 1)) (at (s + 1)) n ?m (at p)"
    unfolding copy_mem.simps at_numeral ..
  consider "p < d" | "p = d" | "d + 1 \<le> p" "p < d + 1 + n" | "d + 1 + n \<le> p" by linarith
  then show ?case
    unfolding e ih by cases (use m1 m2 in auto)
qed

lemma copy_mem_confined: "confined d (d + n) m (copy_mem (at d) (at s) n m)"
proof (induction n arbitrary: d s m)
  case 0
  then show ?case by simp
next
  case (Suc n)
  have "confined d (d + Suc n) m (m(at d := m (at s)))" by (intro confined_upd confined_refl) auto
  moreover have "confined d (d + Suc n) (m(at d := m (at s))) (copy_mem (at (d + 1)) (at (s + 1)) n (m(at d := m (at s))))"
    by (rule confined_mono [OF Suc.IH]) auto
  ultimately show ?case unfolding fill32.simps copy_mem.simps at_numeral by (rule confined_trans)
qed

section \<open>The terminal it implements\<close>

text \<open>The column and row of the cursor and the cells of the screen, row by row: a character and its
  attribute. What is shown after the last cell is of no interest and is \<open>(0, 0)\<close>.\<close>

record term_t =
  t_x :: nat
  t_y :: nat
  t_cell :: "nat \<Rightarrow> u8 \<times> u8"

definition blank :: "u8 \<times> u8" where "blank = (0x20, 7)"

text \<open>The new row that scrolling shows: the code stores the blank cell as 32-bit words, so every second
  cell is a zero cell.\<close>

definition scroll_cells :: "(nat \<Rightarrow> u8 \<times> u8) \<Rightarrow> nat \<Rightarrow> u8 \<times> u8" where
  "scroll_cells c n =
     (if n < 1920 then c (n + 80) else if n < 2000 \<and> even n then blank else (0, 0))"

definition term_set :: "nat \<Rightarrow> u8 \<times> u8 \<Rightarrow> term_t \<Rightarrow> term_t" where
  "term_set n v t = t\<lparr>t_cell := (\<lambda>i. if i = n \<and> i < 2000 then v else t_cell t i)\<rparr>"

definition term_lf :: "term_t \<Rightarrow> term_t" where
  "term_lf t = (if t_y t + 1 < 25 then t\<lparr>t_y := t_y t + 1\<rparr> else t\<lparr>t_cell := scroll_cells (t_cell t)\<rparr>)"

definition term_here :: "term_t \<Rightarrow> nat" where "term_here t = 80 * t_y t + t_x t"

definition term_visible :: "u8 \<Rightarrow> term_t \<Rightarrow> term_t" where
  "term_visible ch t =
     (let t = (if t_x t \<ge> 80 then term_lf (t\<lparr>t_x := 0\<rparr>) else t);
          t = term_set (term_here t) (ch, 7) t
      in t\<lparr>t_x := t_x t + 1\<rparr>)"

definition term_char :: "u8 \<Rightarrow> term_t \<Rightarrow> term_t" where
  "term_char ch t =
     (if ch = 0x08 then (if t_x t = 0 then t else let t = t\<lparr>t_x := t_x t - 1\<rparr> in term_set (term_here t) blank t)
      else if ch = 0x0a then (term_lf t)\<lparr>t_x := 0\<rparr>
      else if ch = 0x0c then term_lf t
      else if ch = 0x0d then t\<lparr>t_x := 0\<rparr>
      else if ch = 0x7f then term_set (term_here t) blank t
      else if ch \<in> {0, 0x07, 0x09, 0x0b} then t
      else term_visible ch t)"

text \<open>The screen starts at row \<open>k\<close> of the video memory, and the cursor is where its coordinates say; the
  column is 80 after a character in the last column.\<close>

definition con_at :: "nat \<Rightarrow> nat \<Rightarrow> nat \<Rightarrow> 'a con_state_scheme \<Rightarrow> bool" where
  "con_at k x y s \<longleftrightarrow> k \<le> 77 \<and> x \<le> 80 \<and> y < 25 \<and> screen s = at (160 * k)
     \<and> pos s = at (160 * k + 160 * y + 2 * x) \<and> con_x s = of_nat x \<and> con_y s = of_nat y"

definition con_cell :: "nat \<Rightarrow> (u32 \<Rightarrow> u8) \<Rightarrow> nat \<Rightarrow> u8 \<times> u8" where
  "con_cell k m n = (if n < 2000 then (m (at (160 * k + 2 * n)), m (at (160 * k + 2 * n + 1))) else (0, 0))"

text \<open>The console shows the terminal \<open>t\<close>.\<close>

definition shows_term :: "'a con_state_scheme \<Rightarrow> term_t \<Rightarrow> bool" where
  "shows_term s t \<longleftrightarrow> (\<exists>k. con_at k (t_x t) (t_y t) s \<and> t_cell t = con_cell k (vmem s))"

text \<open>The most any operation writes: up to 96 bytes behind the end of the video memory.\<close>

definition in_video :: "(u32 \<Rightarrow> u8) \<Rightarrow> (u32 \<Rightarrow> u8) \<Rightarrow> bool" where
  "in_video m m' \<longleftrightarrow> confined 0 (0x4000 + 96) m m'"

lemma con_x_small: "x \<le> 80 \<Longrightarrow> unat (of_nat x :: u32) = x"
  by (rule unat_of_nat_small) simp

lemma con_cell_set:
  assumes "k \<le> 77" and "i \<le> 2000"
  shows "con_cell k (m(at (160 * k + 2 * i) := a, at (160 * k + 2 * i + 1) := b)) n =
    (if n = i \<and> n < 2000 then (a, b) else con_cell k m n)"
proof (cases "n < 2000")
  case True
  have "160 * k + 2 * n = 160 * k + 2 * i \<longleftrightarrow> n = i" "160 * k + 2 * n \<noteq> 160 * k + 2 * i + 1"
    "160 * k + 2 * n + 1 \<noteq> 160 * k + 2 * i" by presburger+
  then show ?thesis using True assms by (simp add: con_cell_def at_eq del: add_left_cancel mult_cancel1 One_nat_def add_Suc_right)
next
  case False
  then show ?thesis by (simp add: con_cell_def)
qed

text \<open>Setting the cell under the cursor.\<close>

lemma set_cell_here:
  assumes "con_at k x y s"
  shows "con_cell k ((vmem s)(pos s := a, pos s + 1 := b)) = (\<lambda>i. if i = 80 * y + x \<and> i < 2000 then (a, b) else con_cell k (vmem s) i)"
    and "in_video (vmem s) ((vmem s)(pos s := a, pos s + 1 := b))"
proof -
  have b: "k \<le> 77" "80 * y + x \<le> 2000" using assms by (auto simp: con_at_def)
  have p: "pos s = at (160 * k + 2 * (80 * y + x))" using assms by (simp add: con_at_def algebra_simps)
  show "con_cell k ((vmem s)(pos s := a, pos s + 1 := b)) = (\<lambda>i. if i = 80 * y + x \<and> i < 2000 then (a, b) else con_cell k (vmem s) i)"
    unfolding p at_numeral using con_cell_set [OF b] by (rule ext)
  show "in_video (vmem s) ((vmem s)(pos s := a, pos s + 1 := b))"
    unfolding p at_numeral in_video_def using b by (intro confined_upd confined_refl) auto
qed

lemma set_screen_mem [simp]:
  "vmem (set_screen s) = vmem s" "screen (set_screen s) = screen s" "pos (set_screen s) = pos s"
  "con_x (set_screen s) = con_x s" "con_y (set_screen s) = con_y s"
  by (simp_all add: set_screen_def outb_def Let_def)

lemma set_cursor_mem [simp]:
  "vmem (set_cursor s) = vmem s" "screen (set_cursor s) = screen s" "pos (set_cursor s) = pos s"
  "con_x (set_cursor s) = con_x s" "con_y (set_cursor s) = con_y s"
  by (simp_all add: set_cursor_def outb_def Let_def)

subsection \<open>Scrolling\<close>

text \<open>The new row written behind a screen that starts at row \<open>k\<close>, and the screen moved down by one.\<close>

lemma fill_row_cells:
  assumes "k \<le> 76"
  shows "con_cell (k + 1) (fill32 80 (at (160 * k + 4000)) (ucast erase) m) = scroll_cells (con_cell k m)"
proof
  fix n
  let ?f = "fill32 80 (at (160 * k + 4000)) (ucast erase) m"
  have f: "?f (at p) = (if 160 * k + 4000 \<le> p \<and> p < 160 * k + 4000 + 4 * 80
      then (if (p - (160 * k + 4000)) mod 4 = 0 then 0x20 else if (p - (160 * k + 4000)) mod 4 = 1 then 7 else 0)
      else m (at p))" if "p < 2 ^ 19" for p
    by (rule fill32_cells) (use assms that in auto)
  show "con_cell (k + 1) ?f n = scroll_cells (con_cell k m) n"
  proof (cases "n < 1920")
    case True
    have e: "160 * (k + 1) + 2 * n = 160 * k + 2 * (n + 80)" by simp
    have "160 * k + 2 * (n + 80) + 1 < 160 * k + 4000" using True by simp
    then have "?f (at (160 * k + 2 * (n + 80))) = m (at (160 * k + 2 * (n + 80)))"
      "?f (at (160 * k + 2 * (n + 80) + 1)) = m (at (160 * k + 2 * (n + 80) + 1))"
      using assms True by (subst f; simp)+
    then show ?thesis using True unfolding con_cell_def scroll_cells_def e by simp
  next
    case False
    show ?thesis
    proof (cases "n < 2000")
      case lt: True
      obtain j where j: "n = 1920 + j" "j < 80" using that [of "n - 1920"] False lt by simp
      have e: "160 * (k + 1) + 2 * n = 160 * k + 4000 + 2 * j" using j by simp
      have "?f (at (160 * k + 4000 + 2 * j)) = (if (2 * j) mod 4 = 0 then 0x20 else if (2 * j) mod 4 = 1 then 7 else 0)"
        using assms j(2) by (subst f) simp_all
      moreover have "?f (at (160 * k + 4000 + 2 * j + 1)) = (if (2 * j + 1) mod 4 = 0 then 0x20 else if (2 * j + 1) mod 4 = 1 then 7 else 0)"
        using assms j(2) by (subst f) simp_all
      moreover have "(2 * j) mod 4 = (if even j then 0 else 2)" "(2 * j + 1) mod 4 = (if even j then 1 else 3)"
        by presburger+
      ultimately have "(?f (at (160 * k + 4000 + 2 * j)), ?f (at (160 * k + 4000 + 2 * j + 1))) = (if even j then blank else (0, 0))"
        by (simp add: blank_def)
      moreover have "even n \<longleftrightarrow> even j" using j by simp
      ultimately show ?thesis using False lt unfolding con_cell_def scroll_cells_def e by simp
    next
      case ge: False
      then show ?thesis using False by (simp add: con_cell_def scroll_cells_def)
    qed
  qed
qed

lemma copy_screen_cells:
  assumes "k \<le> 77"
  shows "con_cell 0 (copy_mem (at 0) (at (160 * k)) 4000 m) = con_cell k m"
proof
  fix n
  have "copy_mem (at 0) (at (160 * k)) 4000 m (at p) = (if 0 \<le> p \<and> p < 0 + 4000 then m (at (160 * k + (p - 0))) else m (at p))"
    if "p < 2 ^ 19" for p
    by (rule copy_mem_cells) (use assms that in auto)
  then show "con_cell 0 (copy_mem (at 0) (at (160 * k)) 4000 m) n = con_cell k m n"
    by (simp add: con_cell_def)
qed

lemma scroll_up_ok:
  assumes "con_at k x 24 s"
  shows "\<exists>k'. con_at k' x 24 (scroll_up s) \<and> con_cell k' (vmem (scroll_up s)) = scroll_cells (con_cell k (vmem s))
    \<and> in_video (vmem s) (vmem (scroll_up s))"
proof -
  have k: "k \<le> 77" "x \<le> 80" and s: "screen s = at (160 * k)" "pos s = at (160 * k + 160 * 24 + 2 * x)"
    using assms by (auto simp: con_at_def)
  have full: "screen s + SCR_SIZE + ROW_SIZE \<ge> MEM_END \<longleftrightarrow> k = 77"
    using k(1) by (auto simp: s con_consts at_numeral at_end)
  show ?thesis
  proof (cases "k = 77")
    case False
    let ?m = "fill32 80 (at (160 * k + 4000)) (ucast erase) (vmem s)"
    have su: "scroll_up s = set_screen (s\<lparr>vmem := ?m, screen := at (160 * (k + 1)), pos := at (160 * (k + 1) + 160 * 24 + 2 * x)\<rparr>)"
      unfolding scroll_up_def Let_def full con_consts(5,6) using False
      by (simp add: s con_consts(3,4) at_numeral) (simp add: algebra_simps)
    have "con_at (k + 1) x 24 (scroll_up s)" using assms k False by (simp add: su con_at_def)
    moreover have "con_cell (k + 1) (vmem (scroll_up s)) = scroll_cells (con_cell k (vmem s))"
      using fill_row_cells [of k "vmem s"] k(1) False by (simp add: su)
    moreover have "in_video (vmem s) (vmem (scroll_up s))"
      unfolding su in_video_def
      by (simp, rule confined_mono [OF fill32_confined]) (use k(1) False in auto)
    ultimately show ?thesis by blast
  next
    case True
    let ?c = "copy_mem (at 0) (at (160 * k)) 4000 (vmem s)"
    let ?m = "fill32 80 (at 4000) (ucast erase) ?c"
    have d: "pos s - (screen s - MEM_BASE) = at (160 * 24 + 2 * x)"
      unfolding s at_base by (simp add: at_def)
    have su: "scroll_up s = set_screen (s\<lparr>vmem := ?m, screen := at 160, pos := at (160 + 160 * 24 + 2 * x)\<rparr>)"
      unfolding scroll_up_def Let_def full con_consts(5,6) using True d
      by (simp add: s(1) con_consts(3,4) at_base at_numeral)
    have "con_at 1 x 24 (scroll_up s)" using assms by (simp add: su con_at_def)
    moreover have "con_cell 1 (vmem (scroll_up s)) = scroll_cells (con_cell k (vmem s))"
      using fill_row_cells [of 0 ?c] copy_screen_cells [OF k(1), of "vmem s"] by (simp add: su)
    moreover have "in_video (vmem s) (vmem (scroll_up s))"
      unfolding su in_video_def
      by (simp, rule confined_trans [OF confined_mono [OF copy_mem_confined] confined_mono [OF fill32_confined]]) auto
    ultimately show ?thesis by blast
  qed
qed

subsection \<open>The characters\<close>

text \<open>An operation that takes the terminal from \<open>t\<close> to \<open>t'\<close>.\<close>

definition con_step :: "'a con_state_scheme \<Rightarrow> 'a con_state_scheme \<Rightarrow> term_t \<Rightarrow> bool" where
  "con_step s s' t' \<longleftrightarrow> shows_term s' t' \<and> in_video (vmem s) (vmem s')"

lemma con_stepI:
  assumes "con_at k (t_x t') (t_y t') s'" "t_cell t' = con_cell k (vmem s')" "in_video (vmem s) (vmem s')"
  shows "con_step s s' t'"
  using assms unfolding con_step_def shows_term_def by blast

lemma con_step_trans:
  assumes "in_video (vmem s) (vmem s')" and "con_step s' s'' t"
  shows "con_step s s'' t"
  using assms unfolding con_step_def in_video_def using confined_trans by blast

lemma in_video_refl [simp]: "in_video m m" by (simp add: in_video_def)

lemma con_atD:
  assumes "con_at k x y s"
  shows "k \<le> 77" "x \<le> 80" "y < 25" "screen s = at (160 * k)" "pos s = at (160 * k + 160 * y + 2 * x)"
    "unat (con_x s) = x" "unat (con_y s) = y" "con_x s = of_nat x" "con_y s = of_nat y"
  using assms by (auto simp: con_at_def con_x_small)

lemma lf_ok:
  assumes "shows_term s t"
  shows "con_step s (command_lf s) (term_lf t)"
proof -
  obtain k where k: "con_at k (t_x t) (t_y t) s" "t_cell t = con_cell k (vmem s)"
    using assms by (auto simp: shows_term_def)
  note d = con_atD [OF k(1)]
  have "con_y s + 1 < HEIGHT \<longleftrightarrow> t_y t + 1 < 25"
  proof -
    have "unat (con_y s + 1) = t_y t + 1" using d(3,7) by (subst unat_add_small) auto
    then show ?thesis by (simp add: word_less_nat_alt con_consts)
  qed
  then show ?thesis
  proof (cases "t_y t + 1 < 25")
    case True
    then have "con_at k (t_x t) (t_y t + 1) (command_lf s)"
      using d \<open>con_y s + 1 < HEIGHT \<longleftrightarrow> t_y t + 1 < 25\<close>
      by (simp add: command_lf_def con_at_def con_consts(3) at_numeral) (simp add: algebra_simps)
    moreover have "vmem (command_lf s) = vmem s"
      using True \<open>con_y s + 1 < HEIGHT \<longleftrightarrow> t_y t + 1 < 25\<close> by (simp add: command_lf_def)
    ultimately show ?thesis using True k(2) by (intro con_stepI [of k]) (auto simp: term_lf_def)
  next
    case False
    then have y: "t_y t = 24" using d(3) by simp
    have "command_lf s = scroll_up s"
      using False \<open>con_y s + 1 < HEIGHT \<longleftrightarrow> t_y t + 1 < 25\<close> by (simp add: command_lf_def)
    moreover obtain k' where "con_at k' (t_x t) 24 (scroll_up s)"
      "con_cell k' (vmem (scroll_up s)) = scroll_cells (con_cell k (vmem s))" "in_video (vmem s) (vmem (scroll_up s))"
      using scroll_up_ok k(1) unfolding y by blast
    ultimately show ?thesis using y k(2) by (intro con_stepI [of k']) (auto simp: term_lf_def)
  qed
qed

lemma cr_ok:
  assumes "shows_term s t"
  shows "con_step s (command_cr s) (t\<lparr>t_x := 0\<rparr>)"
proof -
  obtain k where k: "con_at k (t_x t) (t_y t) s" "t_cell t = con_cell k (vmem s)"
    using assms by (auto simp: shows_term_def)
  note d = con_atD [OF k(1)]
  have "push_bit 1 (con_x s) = of_nat (2 * t_x t)" using d(8) by (simp add: push_bit_eq_mult)
  then have "pos s - push_bit 1 (con_x s) = at (160 * k + 160 * t_y t)"
    using d(5) at_diff [of "2 * t_x t" "160 * k + 160 * t_y t + 2 * t_x t"] by simp
  then have "con_at k 0 (t_y t) (command_cr s)" using d by (simp add: con_at_def command_cr_def)
  then show ?thesis using k(2) by (intro con_stepI [of k]) (simp_all add: command_cr_def)
qed

text \<open>Erasing or overwriting the cell under the cursor.\<close>

lemma set_here_ok:
  assumes "shows_term s t"
  shows "con_step s (s\<lparr>vmem := (vmem s)(pos s := a, pos s + 1 := b)\<rparr>) (term_set (term_here t) (a, b) t)"
proof -
  obtain k where k: "con_at k (t_x t) (t_y t) s" "t_cell t = con_cell k (vmem s)"
    using assms by (auto simp: shows_term_def)
  have "con_at k (t_x t) (t_y t) (s\<lparr>vmem := (vmem s)(pos s := a, pos s + 1 := b)\<rparr>)"
    using k(1) by (simp add: con_at_def)
  then show ?thesis using k(2) set_cell_here [OF k(1), of a b]
    by (intro con_stepI [of k]) (simp_all add: term_set_def term_here_def fun_eq_iff)
qed

lemma store16_pos: "store16 p erase m = m(p := 0x20, p + 1 := 7)"
  by (simp add: store16_def store8_def blank_bytes)

lemma bs_ok:
  assumes "shows_term s t"
  shows "con_step s (command_bs s)
    (if t_x t = 0 then t else let t = t\<lparr>t_x := t_x t - 1\<rparr> in term_set (term_here t) blank t)"
proof -
  obtain k where k: "con_at k (t_x t) (t_y t) s" "t_cell t = con_cell k (vmem s)"
    using assms by (auto simp: shows_term_def)
  note d = con_atD [OF k(1)]
  have z: "con_x s = 0 \<longleftrightarrow> t_x t = 0" using d(6) by (metis unat_eq_zero)
  show ?thesis
  proof (cases "t_x t = 0")
    case True
    then show ?thesis using z assms by (simp add: command_bs_def con_step_def)
  next
    case False
    define u where "u = s\<lparr>con_x := con_x s - 1, pos := pos s - 2\<rparr>"
    have "pos s - 2 = at (160 * k + 160 * t_y t + 2 * (t_x t - 1))"
      using False d(5) at_diff [of 2 "160 * k + 160 * t_y t + 2 * t_x t"] by (simp add: diff_mult_distrib2)
    moreover have "con_x s - 1 = of_nat (t_x t - 1)" using False d(8) by (simp add: of_nat_diff)
    ultimately have "con_at k (t_x t - 1) (t_y t) u" using d by (simp add: con_at_def u_def)
    then have "shows_term u (t\<lparr>t_x := t_x t - 1\<rparr>)" using k(2) by (auto simp: shows_term_def u_def)
    from set_here_ok [OF this, of "0x20" 7] show ?thesis
      using False z by (simp add: command_bs_def u_def Let_def store16_pos blank_def con_step_def)
  qed
qed

lemma visible_ok:
  assumes "shows_term s t"
  shows "con_step s (put_visible ch s) (term_visible ch t)"
proof -
  obtain k where k: "con_at k (t_x t) (t_y t) s" "t_cell t = con_cell k (vmem s)"
    using assms by (auto simp: shows_term_def)
  note d = con_atD [OF k(1)]
  let ?w = "s\<lparr>con_x := con_x s - WIDTH, pos := pos s - ROW_SIZE\<rparr>"
  define u where "u = (if con_x s \<ge> WIDTH then command_lf ?w else s)"
  define v where "v = (if t_x t \<ge> 80 then term_lf (t\<lparr>t_x := 0\<rparr>) else t)"
  have full: "con_x s \<ge> WIDTH \<longleftrightarrow> t_x t \<ge> 80" using d(6) by (simp add: word_le_nat_alt con_consts)
  have u: "shows_term u v \<and> in_video (vmem s) (vmem u) \<and> t_x v \<le> 79"
  proof (cases "t_x t \<ge> 80")
    case True
    then have x: "t_x t = 80" using d(2) by simp
    have "pos s - 160 = at (160 * k + 160 * t_y t)"
      using d(5) at_diff [of 160 "160 * k + 160 * t_y t + 2 * t_x t"] by (simp add: x)
    then have "con_at k 0 (t_y t) ?w" using d x by (simp add: con_at_def con_consts)
    then have "shows_term ?w (t\<lparr>t_x := 0\<rparr>)" using k(2) by (auto simp: shows_term_def)
    from lf_ok [OF this] show ?thesis using True full
      by (simp add: u_def v_def con_step_def) (simp add: term_lf_def)
  next
    case False
    then show ?thesis using assms full by (simp add: u_def v_def)
  qed
  have set_u: "con_step s (u\<lparr>vmem := (vmem u)(pos u := ch, pos u + 1 := 7)\<rparr>) (term_set (term_here v) (ch, 7) v)"
    by (rule con_step_trans [OF _ set_here_ok]) (use u in auto)
  obtain k' where k': "con_at k' (t_x v) (t_y v) u" using u by (auto simp: shows_term_def)
  note d' = con_atD [OF k']
  let ?z = "u\<lparr>vmem := (vmem u)(pos u := ch, pos u + 1 := 7), pos := pos u + 2, con_x := con_x u + 1\<rparr>"
  have r: "put_visible ch s = ?z"
    by (simp add: put_visible_def u_def [symmetric] Let_def store8_def attr_def)
  obtain j where j: "con_at j (t_x v) (t_y v) (u\<lparr>vmem := (vmem u)(pos u := ch, pos u + 1 := 7)\<rparr>)"
    "t_cell (term_set (term_here v) (ch, 7) v) = con_cell j ((vmem u)(pos u := ch, pos u + 1 := 7))"
    using set_u by (auto simp: con_step_def shows_term_def term_set_def)
  note dj = con_atD [OF j(1)]
  have "con_at j (t_x v + 1) (t_y v) ?z"
    using u dj by (simp add: con_at_def at_numeral)
  then show ?thesis
    unfolding r using set_u j(2)
    by (intro con_stepI [of j]) (simp_all add: term_visible_def v_def [symmetric] Let_def con_step_def term_set_def)
qed

lemma console_char_ok:
  assumes "shows_term s t"
  shows "con_step s (console_char ch s) (term_char ch t)"
proof -
  have beep: "con_step s (start_beep s) t"
    using assms by (auto simp: con_step_def shows_term_def con_at_def start_beep_def outb_def)
  have same: "con_step s s t" using assms by (simp add: con_step_def)
  have lf_cr: "con_step s (command_cr (command_lf s)) ((term_lf t)\<lparr>t_x := 0\<rparr>)"
    using lf_ok [OF assms] cr_ok [of "command_lf s" "term_lf t"] con_step_trans by (auto simp: con_step_def)
  have del: "con_step s (command_del s) (term_set (term_here t) blank t)"
    using set_here_ok [OF assms, of "0x20" 7] by (simp add: command_del_def store16_pos blank_def)
  show ?thesis
    unfolding console_char_def term_char_def ASCII_NUL_def ASCII_BEL_def ASCII_BS_def ASCII_HT_def ASCII_LF_def
      ASCII_VT_def ASCII_FF_def ASCII_CR_def ASCII_DEL_def
    using beep same lf_cr del lf_ok [OF assms] cr_ok [OF assms] bs_ok [OF assms] visible_ok [OF assms, of ch]
    by simp
qed

lemma write_loop_ok:
  assumes "shows_term s t" and "n \<le> length buf" and "0 \<le> nr" and "nr + int n < 2 ^ 31 - 1"
  shows "\<exists>s'. write_loop n nr buf s = Inr (nr + int n + 1, s') \<and> con_step s s' (fold term_char (take n buf) t)"
  using assms
proof (induction n arbitrary: nr buf s t)
  case 0
  then show ?case by (simp add: int_ok_def con_step_def)
next
  case (Suc n)
  obtain c cs where b: "buf = c # cs" using Suc.prems(2) by (cases buf) auto
  have step: "con_step s (console_char c s) (term_char c t)" by (rule console_char_ok [OF Suc.prems(1)])
  then obtain s' where s': "write_loop n (nr + 1) cs (console_char c s) = Inr (nr + 1 + int n + 1, s')"
    "con_step (console_char c s) s' (fold term_char (take n cs) (term_char c t))"
    using Suc.IH [of "console_char c s" "term_char c t" cs "nr + 1"] Suc.prems b by (auto simp: con_step_def)
  have "con_step s s' (fold term_char (take n cs) (term_char c t))"
    using step s'(2) con_step_trans by (auto simp: con_step_def)
  moreover have "int_ok (nr + 1)" using Suc.prems(3,4) by (simp add: int_ok_def)
  ultimately show ?case using s'(1) b by (simp add: algebra_simps)
qed

subsection \<open>Clearing\<close>

lemma clear_loop_cells:
  assumes "n \<le> 8192" and "p < 2 ^ 19"
  shows "clear_loop (at (2 * (8192 - n))) m (at p) =
    (if 2 * (8192 - n) \<le> p \<and> p < 0x4000 then (if even p then 0x20 else 7) else m (at p))"
  using assms
proof (induction n arbitrary: m)
  case 0
  have "\<not> at 0x4000 < MEM_END" using at_end [of "0x4000"] by (simp add: not_less)
  then show ?case by (auto simp: clear_loop.simps [of "at 0x4000"])
next
  case (Suc n)
  let ?i = "2 * (8192 - Suc n)"
  let ?m = "m(at ?i := 0x20, at (?i + 1) := 7)"
  have e: "2 * (8192 - n) = ?i + 2" using Suc.prems by simp
  have "at ?i < MEM_END" using at_end [of ?i] Suc.prems by (simp add: not_le [symmetric])
  then have r: "clear_loop (at ?i) m = clear_loop (at (2 * (8192 - n))) ?m"
    unfolding e by (subst clear_loop.simps) (simp add: store16_blank at_numeral)
  have lt: "?i + 1 < 0x4000" using Suc.prems by simp
  have ih: "clear_loop (at (2 * (8192 - n))) ?m (at p) =
      (if 2 * (8192 - n) \<le> p \<and> p < 0x4000 then (if even p then 0x20 else 7) else ?m (at p))"
    by (rule Suc.IH) (use Suc.prems in auto)
  consider "p = ?i" | "p = ?i + 1" | "p < ?i" | "?i + 2 \<le> p" by linarith
  then show ?case
  proof cases
    case 1
    then show ?thesis unfolding r ih using Suc.prems lt e by (simp add: at_eq)
  next
    case 2
    then show ?thesis unfolding r ih using Suc.prems lt e by (simp add: at_eq)
  next
    case 3
    then show ?thesis unfolding r ih using Suc.prems lt e by (simp add: at_eq)
  next
    case 4
    then show ?thesis unfolding r ih using Suc.prems lt e by (simp add: at_eq)
  qed
qed

definition term_empty :: term_t where
  "term_empty = \<lparr>t_x = 0, t_y = 0, t_cell = (\<lambda>i. if i < 2000 then blank else (0, 0))\<rparr>"

lemma console_clear_ok: "shows_term (console_clear s) term_empty"
proof -
  have "con_at 0 0 0 (console_clear s)"
    by (simp add: console_clear_def con_at_def at_base Let_def)
  moreover have "vmem (console_clear s) = clear_loop (at 0) (vmem s)"
    by (simp add: console_clear_def at_base Let_def)
  moreover have "clear_loop (at 0) (vmem s) (at p) = (if p < 0x4000 then (if even p then 0x20 else 7) else vmem s (at p))"
    if "p < 2 ^ 19" for p
    using clear_loop_cells [of 8192 p "vmem s"] that by simp
  then have "con_cell 0 (clear_loop (at 0) (vmem s)) = t_cell term_empty"
    by (auto simp: con_cell_def term_empty_def blank_def fun_eq_iff)
  ultimately show ?thesis unfolding shows_term_def by (intro exI [of _ 0]) (simp add: term_empty_def)
qed

section \<open>Property\<close>

text \<open>C31. The console implements a terminal of 25 rows of 80 cells, and its writes stay where they should,
  almost: after \<open>console_clear\<close> it shows the empty screen; writing any bytes succeeds, shows what the
  terminal shows after those bytes (control characters, wrapping, scrolling, and the cell under the
  cursor included), and returns one more than the count. Whatever is written, no byte outside of the
  video memory and the 96 bytes behind it changes. Scrolling from row 76 writes these 96 bytes.\<close>

theorem console_bounds:
  assumes "shows_term s t" and "unat count \<le> length buf" and "unat count < 2 ^ 31 - 1"
  shows "shows_term (console_clear s) term_empty
    \<and> (\<exists>s'. console_write buf count s = Inr (int (unat count) + 1, s')
         \<and> shows_term s' (fold term_char (take (unat count) buf) t) \<and> intr s' = intr s
         \<and> (\<forall>a. unat a < 0xb8000 \<or> 0xbc000 + 96 \<le> unat a \<longrightarrow> vmem s' a = vmem s a))"
proof -
  define d where "d = snd (interrupt_disable s)"
  have d: "shows_term d t" "vmem d = vmem s"
    using assms(1) by (auto simp: d_def interrupt_disable_def shows_term_def con_at_def)
  define n where "n = unat count"
  obtain u where "write_loop n 0 buf d = Inr (int n + 1, u)" "con_step d u (fold term_char (take n buf) t)"
    using write_loop_ok [of d t n buf 0] d(1) assms(2,3) unfolding n_def [symmetric] by auto
  then have u: "write_loop (unat count) 0 buf d = Inr (int (unat count) + 1, u)"
    "con_step d u (fold term_char (take (unat count) buf) t)"
    unfolding n_def by blast+
  define s' where "s' = set_interrupt_state (intr s) (set_cursor u)"
  have v: "vmem s' = vmem u" "intr s' = intr s" by (simp_all add: s'_def set_interrupt_state_def)
  have "console_write buf count s = Inr (int (unat count) + 1, s')"
    using u(1) by (simp add: console_write_def interrupt_disable_def d_def s'_def)
  moreover have "shows_term s' (fold term_char (take (unat count) buf) t)"
    using u(2) by (auto simp: con_step_def shows_term_def con_at_def s'_def set_interrupt_state_def)
  moreover have "vmem s' a = vmem s a" if "unat a < 0xb8000 \<or> 0xbc000 + 96 \<le> unat a" for a
  proof -
    have "a \<notin> at ` {0..<0x4000 + 96}" using that by (auto simp: unat_at)
    then show ?thesis
      using u(2) v d(2) unfolding con_step_def in_video_def confined_def by metis
  qed
  ultimately show ?thesis using console_clear_ok v(2) by blast
qed

theorem console_bounds_witness:
  "\<exists>(s :: con_state) s'. shows_term s term_empty \<and> console_write [72, 105, 10] 3 s = Inr (4, s')
     \<and> t_y (fold term_char [72, 105, 10] term_empty) = 1
     \<and> t_cell (fold term_char [72, 105, 10] term_empty) 1 = (105, 7)
     \<and> shows_term s' (fold term_char [72, 105, 10] term_empty)"
proof -
  define s :: con_state where "s = console_clear undefined"
  have s: "shows_term s term_empty" unfolding s_def by (rule console_clear_ok)
  have "t_y (fold term_char [72, 105, 10] term_empty) = 1" "t_cell (fold term_char [72, 105, 10] term_empty) 1 = (105, 7)"
    by (simp_all add: term_char_def term_visible_def term_lf_def term_set_def term_here_def term_empty_def Let_def)
  moreover have "unat (3 :: u32) = 3" by simp
  ultimately show ?thesis using s console_bounds [OF s, of 3 "[72, 105, 10]"] by auto
qed

text \<open>The scroll from row 76 does reach the end of the video memory.\<close>

lemma scroll_overruns:
  assumes "con_at 76 x 24 s"
  shows "vmem (scroll_up s) (at (0x4000 + 92)) = 0x20"
proof -
  have s: "screen s = at (160 * 76)" using assms by (simp add: con_at_def)
  have "\<not> screen s + SCR_SIZE + ROW_SIZE \<ge> MEM_END" by (simp add: s con_consts(3,4) at_numeral at_end)
  then have "vmem (scroll_up s) = fill32 80 (at (160 * 76 + 4000)) (ucast erase) (vmem s)"
    unfolding scroll_up_def Let_def con_consts(5,6) by (simp add: s con_consts(3,4) at_numeral)
  then show ?thesis using fill32_cells [of "160 * 76 + 4000" 80 "0x4000 + 92" "vmem s"] by simp
qed

end
