(* ===== verification/Buffer.thy ===== *)
theory Buffer
  imports Mutex Bitmap Cstring
begin

text \<open>
  The buffer cache (\<^verbatim>\<open>kernel/buffer.c\<close>): blocks of the disks held in memory, found through a hash
  table, counted while they are in use, and reused in the order they were released.

  A buffer is named by its address. Its data area is the list \<open>b_data\<close>: the areas are cut from the top of the
  region, one per buffer, and never shared. \<open>hnodes\<close> and \<open>rnodes\<close> are the nodes \<^verbatim>\<open>hnode\<close> and
  \<^verbatim>\<open>rnode\<close> with the lists they are on, the hash chains and the free list. The lock of buffer
  \<open>b\<close> is number \<open>unat b\<close>, the queue of waiting tasks is \<open>Waiters (wait_list s)\<close>.

  \<open>disk s d i\<close> is sector \<open>i\<close> of device \<open>d\<close>. The model follows one task: a request is carried out when it is
  made, and where the code would wait for another task to release a buffer it stops with \<open>NoReturn\<close>.
\<close>

section \<open>The operations\<close>

definition HASH_COUNT :: u32 where "HASH_COUNT = 31"
definition BLOCK_SIZE :: u32 where "BLOCK_SIZE = 1024"
definition SECTOR_SIZE :: u32 where "SECTOR_SIZE = 512"
definition BLOCK_SECS :: u32 where "BLOCK_SECS = BLOCK_SIZE div SECTOR_SIZE"
definition KERNEL_BUFFER_MEM :: u32 where "KERNEL_BUFFER_MEM = 0x800000"
definition KERNEL_BUFFER_SIZE :: u32 where "KERNEL_BUFFER_SIZE = 0x400000"

record buffer_t =
  b_data :: "u8 list"
  b_dev :: u32
  b_block :: u32
  b_count :: int
  b_dirty :: bool
  b_valid :: bool

definition BUFFER_BYTES :: u32 where "BUFFER_BYTES = 64"

record buf_state = lock_state +
  buffers :: "u32 \<Rightarrow> buffer_t"
  hnodes :: "(nat, u32) heap"
  rnodes :: "(unit, u32) heap"
  buffer_count :: u32
  buffer_ptr :: u32
  buffer_data :: u32
  wait_list :: nat
  disk :: "u32 \<Rightarrow> u32 \<Rightarrow> u8 list"

definition upd_buf :: "u32 \<Rightarrow> (buffer_t \<Rightarrow> buffer_t) \<Rightarrow> 'a buf_state_scheme \<Rightarrow> 'a buf_state_scheme" where
  "upd_buf b f s = s\<lparr>buffers := (buffers s)(b := f (buffers s b))\<rparr>"

definition hash :: "u32 \<Rightarrow> u32 \<Rightarrow> u32" where
  "hash dev block = (dev XOR block) mod HASH_COUNT"

text \<open>The walk along a hash chain.\<close>

partial_function (option) hash_walk ::
  "'a buf_state_scheme \<Rightarrow> nat \<Rightarrow> u32 \<Rightarrow> u32 \<Rightarrow> (nat, u32) addr option \<Rightarrow> u32 option res option" where
  "hash_walk s l dev block node =
     (if node = Some (Tail l) then Some (Inr None)
      else (case node of
              None \<Rightarrow> Some (Inl NullDeref)
            | Some a \<Rightarrow>
                (case a of
                   Node b \<Rightarrow>
                     if b_dev (buffers s b) = dev \<and> b_block (buffers s b) = block then Some (Inr (Some b))
                     else hash_walk s l dev block (node_next (hnodes s a))
                 | _ \<Rightarrow> Some (Inl OutOfBounds))))"

declare hash_walk.simps [code]

definition get_from_hash_table ::
  "u32 \<Rightarrow> u32 \<Rightarrow> 'a buf_state_scheme \<Rightarrow> (u32 option \<times> 'a buf_state_scheme) res" where
  "get_from_hash_table dev block s =
     (let l = unat (hash dev block) in
      bindE (returns (hash_walk s l dev block (node_next (hnodes s (Head l))))) (\<lambda>bf.
      case bf of
        None \<Rightarrow> Inr (None, s)
      | Some b \<Rightarrow>
          bindE (list_search () (Node b) (rnodes s)) (\<lambda>found.
          if found then bindE (list_remove (Node b) (rnodes s)) (\<lambda>h. Inr (Some b, s\<lparr>rnodes := h\<rparr>))
          else Inr (Some b, s))))"

definition hash_locate :: "u32 \<Rightarrow> 'a buf_state_scheme \<Rightarrow> 'a buf_state_scheme res" where
  "hash_locate b s =
     (let l = unat (hash (b_dev (buffers s b)) (b_block (buffers s b))) in
      bindE (list_search l (Node b) (hnodes s)) (\<lambda>found.
      kassert (\<not> found) (
      bindE (list_push l (Node b) (hnodes s)) (\<lambda>h. Inr (s\<lparr>hnodes := h\<rparr>)))))"

definition hash_remove :: "u32 \<Rightarrow> 'a buf_state_scheme \<Rightarrow> 'a buf_state_scheme res" where
  "hash_remove b s =
     (let l = unat (hash (b_dev (buffers s b)) (b_block (buffers s b))) in
      bindE (list_search l (Node b) (hnodes s)) (\<lambda>found.
      kassert found (
      bindE (list_remove (Node b) (hnodes s)) (\<lambda>h. Inr (s\<lparr>hnodes := h\<rparr>)))))"

definition get_new_buffer :: "'a buf_state_scheme \<Rightarrow> u32 option \<times> 'a buf_state_scheme" where
  "get_new_buffer s =
     (if buffer_ptr s + BUFFER_BYTES < buffer_data s then
        let b = buffer_ptr s;
            s = upd_buf b (\<lambda>t. t\<lparr>b_dev := EOF, b_block := 0, b_count := 0, b_dirty := False, b_valid := False\<rparr>) s;
            s = lock_init (unat b) s
        in (Some b, s\<lparr>buffer_count := buffer_count s + 1, buffer_ptr := buffer_ptr s + BUFFER_BYTES,
                     buffer_data := buffer_data s - BLOCK_SIZE\<rparr>)
      else (None, s))"

text \<open>The buffer of a node; \<open>list_popback\<close> has no return statement, the compiled code returns its node.\<close>

definition node_buffer :: "(unit, u32) addr \<Rightarrow> u32 res" where
  "node_buffer a = (case a of Node b \<Rightarrow> Inr b | _ \<Rightarrow> Inl OutOfBounds)"

definition get_free_buffer :: "'a buf_state_scheme \<Rightarrow> (u32 \<times> 'a buf_state_scheme) res" where
  "get_free_buffer s =
     (case get_new_buffer s of
        (Some b, s) \<Rightarrow> Inr (b, s)
      | (None, s) \<Rightarrow>
          if \<not> list_empty () (rnodes s) then
            bindE (list_popback (\<lambda>node. node) () (rnodes s)) (\<lambda>(node, h).
            bindE (node_buffer node) (\<lambda>b.
            bindE (hash_remove b (s\<lparr>rnodes := h\<rparr>)) (\<lambda>s.
            Inr (b, upd_buf b (\<lambda>t. t\<lparr>b_valid := False\<rparr>) s))))
          else Inl NoReturn)"

definition getblk :: "u32 \<Rightarrow> u32 \<Rightarrow> 'a buf_state_scheme \<Rightarrow> (u32 \<times> 'a buf_state_scheme) res" where
  "getblk dev block s =
     bindE (get_from_hash_table dev block s) (\<lambda>(bf, s).
     case bf of
       Some b \<Rightarrow>
         bindE (cint (b_count (buffers s b) + 1)) (\<lambda>n. Inr (b, upd_buf b (\<lambda>t. t\<lparr>b_count := n\<rparr>) s))
     | None \<Rightarrow>
         bindE (get_free_buffer s) (\<lambda>(b, s).
         kassert (b_count (buffers s b) = 0) (
         kassert (b_dirty (buffers s b) = False) (
         let s = upd_buf b (\<lambda>t. t\<lparr>b_count := 1, b_dev := dev, b_block := block\<rparr>) s in
         bindE (hash_locate b s) (\<lambda>s. Inr (b, s))))))"

text \<open>What \<^verbatim>\<open>device_request\<close> does to the data and the disk once the driver has carried it out.\<close>

definition disk_read :: "u32 \<Rightarrow> u32 \<Rightarrow> u32 \<Rightarrow> 'a buf_state_scheme \<Rightarrow> u8 list" where
  "disk_read dev count idx s = concat (map (\<lambda>i. disk s dev (idx + of_nat i)) [0..<unat count])"

fun disk_write :: "u32 \<Rightarrow> u8 list \<Rightarrow> nat \<Rightarrow> u32 \<Rightarrow> (u32 \<Rightarrow> u32 \<Rightarrow> u8 list) \<Rightarrow> u32 \<Rightarrow> u32 \<Rightarrow> u8 list" where
  "disk_write dev data 0 idx m = m"
| "disk_write dev data (Suc n) idx m =
     disk_write dev (drop 512 data) n (idx + 1) (m(dev := (m dev)(idx := take 512 data)))"

definition bread :: "u32 \<Rightarrow> u32 \<Rightarrow> 'a buf_state_scheme \<Rightarrow> (u32 \<times> 'a buf_state_scheme) res" where
  "bread dev block s =
     bindE (getblk dev block s) (\<lambda>(b, s).
     if b_valid (buffers s b) then Inr (b, s)
     else
       bindE (lock_acquire (unat b) s) (\<lambda>(got, s).
       if got then
         let s = (if \<not> b_valid (buffers s b) then
                    let t = buffers s b;
                        data = disk_read (b_dev t) BLOCK_SECS (b_block t * BLOCK_SECS) s
                    in upd_buf b (\<lambda>t. t\<lparr>b_data := data, b_dirty := False, b_valid := True\<rparr>) s
                  else s) in
         bindE (lock_release (unat b) s) (\<lambda>s. Inr (b, s))
       else Inl NoReturn))"

definition bwrite :: "u32 \<Rightarrow> 'a buf_state_scheme \<Rightarrow> 'a buf_state_scheme" where
  "bwrite b s =
     (if \<not> b_dirty (buffers s b) then s
      else
        let t = buffers s b;
            s = s\<lparr>disk := disk_write (b_dev t) (b_data t) (unat BLOCK_SECS) (b_block t * BLOCK_SECS) (disk s)\<rparr>
        in upd_buf b (\<lambda>t. t\<lparr>b_dirty := False, b_valid := True\<rparr>) s)"

text \<open>The calls of \<open>brelse\<close> pass no null pointer in the modelled code.\<close>

definition brelse :: "u32 \<Rightarrow> 'a buf_state_scheme \<Rightarrow> 'a buf_state_scheme res" where
  "brelse b s =
     (let s = (if b_dirty (buffers s b) then bwrite b s else s) in
      bindE (cint (b_count (buffers s b) - 1)) (\<lambda>n.
      let s = upd_buf b (\<lambda>t. t\<lparr>b_count := n\<rparr>) s in
      kassert (b_count (buffers s b) \<ge> 0) (
      if b_count (buffers s b) \<noteq> 0 then Inr s
      else
        kassert (node_next (rnodes s (Node b)) = None) (
        kassert (node_prev (rnodes s (Node b)) = None) (
        bindE (list_push () (Node b) (rnodes s)) (\<lambda>h.
        let s = s\<lparr>rnodes := h\<rparr> in
        if \<not> list_empty (Waiters (wait_list s)) (nodes s) then
          bindE (list_popback (\<lambda>node. node) (Waiters (wait_list s)) (nodes s)) (\<lambda>(node, h).
          case node of Node p \<Rightarrow> task_unblock p (s\<lparr>nodes := h\<rparr>) | _ \<Rightarrow> Inl OutOfBounds)
        else Inr s))))))"

text \<open>What the file system does with a buffer it changes: new data, and the mark that it differs.\<close>

definition buf_put :: "u32 \<Rightarrow> u8 list \<Rightarrow> 'a buf_state_scheme \<Rightarrow> 'a buf_state_scheme" where
  "buf_put b xs s = upd_buf b (\<lambda>t. t\<lparr>b_data := xs, b_dirty := True\<rparr>) s"

definition buffer_init :: "'a buf_state_scheme \<Rightarrow> 'a buf_state_scheme" where
  "buffer_init s =
     (let s = s\<lparr>rnodes := list_init () (rnodes s)\<rparr>;
          s = s\<lparr>nodes := list_init (Waiters (wait_list s)) (nodes s)\<rparr>
      in s\<lparr>hnodes := fold list_init [0..<unat HASH_COUNT] (hnodes s)\<rparr>)"

section \<open>What the cache keeps\<close>

text \<open>The \<open>i\<close>-th buffer, and those handed out so far.\<close>

definition buf_at :: "nat \<Rightarrow> u32" where "buf_at i = KERNEL_BUFFER_MEM + of_nat (64 * i)"

definition allocated :: "'a buf_state_scheme \<Rightarrow> u32 set" where
  "allocated s = buf_at ` {..<unat (buffer_count s)}"

definition MAX_BUFFERS :: nat where "MAX_BUFFERS = 3855"

definition key :: "'a buf_state_scheme \<Rightarrow> u32 \<Rightarrow> u32 \<times> u32" where
  "key s b = (b_dev (buffers s b), b_block (buffers s b))"

definition chain :: "u32 \<times> u32 \<Rightarrow> nat" where "chain k = unat (hash (fst k) (snd k))"

text \<open>A block as the disk has it; the sectors of blocks from \<open>2 ^ 31\<close> on are those of other blocks.\<close>

definition disk_block :: "'a buf_state_scheme \<Rightarrow> u32 \<times> u32 \<Rightarrow> u8 list" where
  "disk_block s k = (if snd k < 2 ^ 31 then disk_read (fst k) BLOCK_SECS (snd k * BLOCK_SECS) s else [])"

definition free_lock :: "'a lock_state_scheme \<Rightarrow> nat \<Rightarrow> bool" where
  "free_lock s l \<longleftrightarrow> \<not> mutex_value s l \<and> lock_holder s l = None \<and> lock_repeat s l = 0
     \<and> list_empty (Waiters l) (nodes s)"

text \<open>The chains \<open>H\<close> hold the buffers, each on that of its key, and the free list \<open>F\<close> those not in use, which agree
  with the disk.\<close>

definition cache_rel :: "'a buf_state_scheme \<Rightarrow> (nat \<Rightarrow> u32 list) \<Rightarrow> u32 list \<Rightarrow> bool" where
  "cache_rel s H F \<longleftrightarrow>
     store_rel (hnodes s) (\<lambda>l. if l < 31 then Some (H l) else None) \<and> store_rel (rnodes s) (\<lambda>_. Some F)
   \<and> (\<forall>l < 31. \<forall>b. b \<in> set (H l) \<longleftrightarrow> b \<in> allocated s \<and> chain (key s b) = l)
   \<and> inj_on (key s) (allocated s)
   \<and> set F = {b \<in> allocated s. b_count (buffers s b) = 0}"

definition buffers_ok :: "'a buf_state_scheme \<Rightarrow> bool" where
  "buffers_ok s \<longleftrightarrow> unat (buffer_count s) \<le> MAX_BUFFERS \<and> buffer_ptr s = buf_at (unat (buffer_count s))
   \<and> buffer_data s = KERNEL_BUFFER_MEM + KERNEL_BUFFER_SIZE - of_nat (1024 * (unat (buffer_count s) + 1))
   \<and> (\<forall>d i. length (disk s d i) = 512) \<and> list_empty (Waiters (wait_list s)) (nodes s)
   \<and> (\<forall>b \<in> allocated s. let t = buffers s b in 0 \<le> b_count t \<and> snd (key s b) < 2 ^ 31
        \<and> (b_valid t \<longrightarrow> length (b_data t) = 1024) \<and> (b_dirty t \<longrightarrow> b_valid t) \<and> free_lock s (unat b)
        \<and> (b_count t = 0 \<longrightarrow> \<not> b_dirty t \<and> (b_valid t \<longrightarrow> b_data t = disk_block s (key s b))))"

definition cache_inv :: "'a buf_state_scheme \<Rightarrow> bool" where
  "cache_inv s \<longleftrightarrow> buffers_ok s \<and> (\<exists>H F. cache_rel s H F)"

text \<open>The block a reader sees: the data of the buffer that holds it, else the disk.\<close>

definition blk :: "'a buf_state_scheme \<Rightarrow> u32 \<times> u32 \<Rightarrow> u8 list" where
  "blk s k =
     (case find (\<lambda>b. key s b = k \<and> b_valid (buffers s b)) (map buf_at [0..<unat (buffer_count s)]) of
        Some b \<Rightarrow> b_data (buffers s b) | None \<Rightarrow> disk_block s k)"

text \<open>A buffer in use; the number of buffers in use, out of \<open>MAX_BUFFERS\<close>.\<close>

definition in_use :: "'a buf_state_scheme \<Rightarrow> u32 set" where
  "in_use s = {b \<in> allocated s. b_count (buffers s b) > 0}"

text \<open>What an operation on the cache leaves alone.\<close>

definition same_kernel :: "'a buf_state_scheme \<Rightarrow> 'a buf_state_scheme \<Rightarrow> bool" where
  "same_kernel s t \<longleftrightarrow> tasks t = tasks s \<and> current t = current s \<and> jiffies t = jiffies s
     \<and> wait_list t = wait_list s \<and> intr t = intr s \<and> buf_state.more t = buf_state.more s"

lemma same_kernel_refl [simp]: "same_kernel s s" by (simp add: same_kernel_def)

lemma same_kernel_trans: "same_kernel s t \<Longrightarrow> same_kernel t u \<Longrightarrow> same_kernel s u" by (simp add: same_kernel_def)

subsection \<open>Locks\<close>

definition locked :: "nat \<Rightarrow> 'a lock_state_scheme \<Rightarrow> 'a lock_state_scheme" where
  "locked l s = s\<lparr>mutex_value := (mutex_value s)(l := True), lock_holder := (lock_holder s)(l := Some (current s)),
     lock_repeat := (lock_repeat s)(l := 1)\<rparr>"

lemma acquire_free:
  assumes "free_lock s l"
  shows "lock_acquire l s = Inr (True, locked l s)"
proof -
  have "(s\<lparr>intr := False, mutex_value := m, intr := intr s, lock_holder := h, lock_repeat := r\<rparr>) =
      s\<lparr>mutex_value := m, lock_holder := h, lock_repeat := r\<rparr>" for m h r by (cases s) simp
  then show ?thesis using assms
    by (simp add: free_lock_def lock_acquire_def mutex_lock_def mutex_pass_def interrupt_disable_def
        set_interrupt_state_def lock_taken_def locked_def Let_def)
qed

lemma release_held:
  assumes "mutex_value t l" "lock_holder t l = Some (current t)" "lock_repeat t l = 1" "list_empty (Waiters l) (nodes t)"
  shows "lock_release l t = Inr (t\<lparr>mutex_value := (mutex_value t)(l := False),
    lock_holder := (lock_holder t)(l := None), lock_repeat := (lock_repeat t)(l := 0)\<rparr>)"
proof -
  let ?t = "t\<lparr>lock_holder := (lock_holder t)(l := None), lock_repeat := (lock_repeat t)(l := 0)\<rparr>"
  have "mutex_unlock l ?t = Inr (?t\<lparr>intr := False, mutex_value := (mutex_value ?t)(l := False), intr := intr ?t\<rparr>)"
    by (rule mutex_unlock_empty) (use assms in simp_all)
  moreover have "?t\<lparr>intr := False, mutex_value := m, intr := intr ?t\<rparr> =
    t\<lparr>mutex_value := m, lock_holder := (lock_holder t)(l := None), lock_repeat := (lock_repeat t)(l := 0)\<rparr>" for m
    by (cases t) simp
  ultimately show ?thesis using assms by (simp add: lock_release_def)
qed

text \<open>Between the acquisition and the release of a free lock only the protected data changes.\<close>

lemma lock_section:
  assumes "free_lock s l"
  shows "lock_release l (upd_buf b f (locked l s)) = Inr (upd_buf b f s)"
proof -
  have "lock_release l (upd_buf b f (locked l s)) = Inr ((upd_buf b f (locked l s))\<lparr>
    mutex_value := (mutex_value (upd_buf b f (locked l s)))(l := False),
    lock_holder := (lock_holder (upd_buf b f (locked l s)))(l := None),
    lock_repeat := (lock_repeat (upd_buf b f (locked l s)))(l := 0)\<rparr>)"
    by (rule release_held) (use assms in \<open>simp_all add: upd_buf_def locked_def free_lock_def\<close>)
  moreover have "mutex_value s l = False" "lock_holder s l = None" "lock_repeat s l = 0"
    using assms by (auto simp: free_lock_def)
  then have "(mutex_value s)(l := False) = mutex_value s" "(lock_holder s)(l := None) = lock_holder s"
    "(lock_repeat s)(l := 0) = lock_repeat s" by (auto simp: fun_eq_iff)
  ultimately show ?thesis by (cases s) (simp add: upd_buf_def locked_def)
qed

subsection \<open>Addresses of buffers\<close>

lemma unat_buf_at:
  assumes "i \<le> MAX_BUFFERS"
  shows "unat (buf_at i) = 0x800000 + 64 * i"
proof -
  have u: "unat (of_nat (64 * i) :: u32) = 64 * i"
    by (rule unat_of_nat_small) (use assms in \<open>simp add: MAX_BUFFERS_def\<close>)
  have k: "unat KERNEL_BUFFER_MEM = 0x800000" by (simp add: KERNEL_BUFFER_MEM_def)
  show ?thesis unfolding buf_at_def
    by (subst unat_add_small) (use assms u k in \<open>simp_all add: MAX_BUFFERS_def del: of_nat_mult\<close>)
qed

lemma buf_at_inj: "i \<le> MAX_BUFFERS \<Longrightarrow> j \<le> MAX_BUFFERS \<Longrightarrow> buf_at i = buf_at j \<longleftrightarrow> i = j"
  by (metis add_left_cancel mult_cancel1 unat_buf_at zero_neq_numeral)

lemma buf_at_next: "buf_at i + BUFFER_BYTES = buf_at (i + 1)"
  by (simp add: buf_at_def BUFFER_BYTES_def algebra_simps)

lemma finite_allocated [simp]: "finite (allocated s)" by (simp add: allocated_def)

lemma card_allocated: "unat (buffer_count s) \<le> MAX_BUFFERS \<Longrightarrow> card (allocated s) = unat (buffer_count s)"
  unfolding allocated_def by (subst card_image) (auto simp: inj_on_def buf_at_inj)

text \<open>There is room for a new buffer until there are as many as the region holds.\<close>

lemma buffer_room:
  assumes "buffers_ok s"
  shows "buffer_ptr s + BUFFER_BYTES < buffer_data s \<longleftrightarrow> unat (buffer_count s) < MAX_BUFFERS"
proof -
  let ?n = "unat (buffer_count s)"
  have n: "?n \<le> MAX_BUFFERS" and p: "buffer_ptr s = buf_at ?n"
    and d: "buffer_data s = KERNEL_BUFFER_MEM + KERNEL_BUFFER_SIZE - of_nat (1024 * (?n + 1))"
    using assms by (auto simp: buffers_ok_def)
  have "unat (buffer_ptr s + BUFFER_BYTES) = 0x800000 + 64 * (?n + 1)"
  proof -
    have "unat (buf_at ?n + BUFFER_BYTES) = unat (buf_at ?n) + 64"
      using n unat_buf_at [OF n] by (subst unat_add_small) (auto simp: BUFFER_BYTES_def MAX_BUFFERS_def)
    then show ?thesis using n unat_buf_at [OF n] by (simp add: p)
  qed
  moreover have "unat (buffer_data s) = 0xc00000 - 1024 * (?n + 1)"
  proof -
    have u: "unat (of_nat (1024 * (?n + 1)) :: u32) = 1024 * (?n + 1)"
      by (rule unat_of_nat_small) (use n in \<open>simp add: MAX_BUFFERS_def\<close>)
    have k: "KERNEL_BUFFER_MEM + KERNEL_BUFFER_SIZE = 0xc00000" by (simp add: KERNEL_BUFFER_MEM_def KERNEL_BUFFER_SIZE_def)
    show ?thesis unfolding d k
      by (subst unat_sub_le) (use n u in \<open>simp_all add: word_le_nat_alt MAX_BUFFERS_def\<close>)
  qed
  ultimately show ?thesis using n by (auto simp: word_less_nat_alt MAX_BUFFERS_def)
qed

subsection \<open>The view\<close>

lemma find_allocated_None:
  "find P (map buf_at [0..<unat (buffer_count s)]) = None \<longleftrightarrow> (\<forall>b \<in> allocated s. \<not> P b)"
  by (auto simp: find_None_iff allocated_def)

lemma blk_cases:
  assumes "inj_on (key s) (allocated s)"
  shows "b \<in> allocated s \<Longrightarrow> b_valid (buffers s b) \<Longrightarrow> blk s (key s b) = b_data (buffers s b)"
    and "(\<forall>b \<in> allocated s. key s b = k \<longrightarrow> \<not> b_valid (buffers s b)) \<Longrightarrow> blk s k = disk_block s k"
proof -
  assume b: "b \<in> allocated s" "b_valid (buffers s b)"
  let ?P = "\<lambda>x. key s x = key s b \<and> b_valid (buffers s x)"
  obtain x where x: "find ?P (map buf_at [0..<unat (buffer_count s)]) = Some x"
    using b find_allocated_None [of ?P s] by fastforce
  then have "?P x" "x \<in> allocated s" by (auto simp: find_Some_iff allocated_def)
  then have "x = b" using b assms by (auto dest: inj_onD)
  then show "blk s (key s b) = b_data (buffers s b)" using x by (simp add: blk_def)
next
  assume "\<forall>b \<in> allocated s. key s b = k \<longrightarrow> \<not> b_valid (buffers s b)"
  then have "find (\<lambda>b. key s b = k \<and> b_valid (buffers s b)) (map buf_at [0..<unat (buffer_count s)]) = None"
    unfolding find_allocated_None by blast
  then show "blk s k = disk_block s k" by (simp add: blk_def)
qed

text \<open>The view of two states is the same if every block is.\<close>

lemma blk_eqI:
  assumes "inj_on (key s) (allocated s)" and "inj_on (key t) (allocated t)"
    and "\<And>b. b \<in> allocated t \<Longrightarrow> b_valid (buffers t b) \<Longrightarrow> b_data (buffers t b) = blk s (key t b)"
    and "\<And>b. b \<in> allocated s \<Longrightarrow> b_valid (buffers s b) \<Longrightarrow>
          (\<forall>c \<in> allocated t. key t c = key s b \<longrightarrow> \<not> b_valid (buffers t c)) \<Longrightarrow> b_data (buffers s b) = disk_block s (key s b)"
    and "\<And>k. disk_block t k = disk_block s k"
  shows "blk t = blk s"
proof
  fix k
  show "blk t k = blk s k"
  proof (cases "\<exists>b \<in> allocated t. key t b = k \<and> b_valid (buffers t b)")
    case True
    then obtain b where "b \<in> allocated t" "key t b = k" "b_valid (buffers t b)" by blast
    then show ?thesis using blk_cases(1) [OF assms(2)] assms(3) by metis
  next
    case False
    then have t: "blk t k = disk_block s k" using blk_cases(2) [OF assms(2), of k] assms(5) by auto
    show ?thesis
    proof (cases "\<exists>b \<in> allocated s. key s b = k \<and> b_valid (buffers s b)")
      case True
      then obtain b where b: "b \<in> allocated s" "key s b = k" "b_valid (buffers s b)" by blast
      then have "b_data (buffers s b) = disk_block s k" using False assms(4) [of b] by blast
      then show ?thesis using t b blk_cases(1) [OF assms(1) b(1,3)] by simp
    next
      case none: False
      then show ?thesis using t blk_cases(2) [OF assms(1), of k] by auto
    qed
  qed
qed

subsection \<open>Hash chains\<close>

lemma hash_walk_linked:
  "linked (hnodes s) (a # map Node xs @ [Tail l]) \<Longrightarrow>
   hash_walk s l dev block (node_next (hnodes s a)) = Some (Inr (find (\<lambda>b. key s b = (dev, block)) xs))"
proof (induction xs arbitrary: a)
  case Nil
  then show ?case by (simp add: hash_walk.simps)
next
  case (Cons x xs)
  have n: "node_next (hnodes s a) = Some (Node x)" using Cons.prems by (cases "map Node xs @ [Tail l]") auto
  have "linked (hnodes s) (Node x # map Node xs @ [Tail l])" using Cons.prems by (cases "map Node xs @ [Tail l]") auto
  then show ?case unfolding n by (subst hash_walk.simps) (auto simp: key_def Cons.IH)
qed

lemma chain_less [simp]: "chain k < 31"
  by (simp add: chain_def hash_def HASH_COUNT_def unat_mod)

lemma cache_relD:
  assumes "cache_rel s H F"
  shows "store_rel (hnodes s) (\<lambda>l. if l < 31 then Some (H l) else None)" "store_rel (rnodes s) (\<lambda>_. Some F)"
    "l < 31 \<Longrightarrow> b \<in> set (H l) \<longleftrightarrow> b \<in> allocated s \<and> chain (key s b) = l"
    "inj_on (key s) (allocated s)" "set F = {b \<in> allocated s. b_count (buffers s b) = 0}"
  using assms by (simp_all add: cache_rel_def)

lemma buffers_okD:
  assumes "buffers_ok s"
  shows "unat (buffer_count s) \<le> MAX_BUFFERS" "buffer_ptr s = buf_at (unat (buffer_count s))"
    "buffer_data s = KERNEL_BUFFER_MEM + KERNEL_BUFFER_SIZE - of_nat (1024 * (unat (buffer_count s) + 1))"
    "length (disk s d i) = 512" "list_empty (Waiters (wait_list s)) (nodes s)"
    "b \<in> allocated s \<Longrightarrow> 0 \<le> b_count (buffers s b)" "b \<in> allocated s \<Longrightarrow> snd (key s b) < 2 ^ 31"
    "b \<in> allocated s \<Longrightarrow> b_valid (buffers s b) \<Longrightarrow> length (b_data (buffers s b)) = 1024"
    "b \<in> allocated s \<Longrightarrow> b_dirty (buffers s b) \<Longrightarrow> b_valid (buffers s b)"
    "b \<in> allocated s \<Longrightarrow> free_lock s (unat b)"
    "b \<in> allocated s \<Longrightarrow> b_count (buffers s b) = 0 \<Longrightarrow> \<not> b_dirty (buffers s b)"
    "b \<in> allocated s \<Longrightarrow> b_count (buffers s b) = 0 \<Longrightarrow> b_valid (buffers s b) \<Longrightarrow>
       b_data (buffers s b) = disk_block s (key s b)"
  using assms by (auto simp: buffers_ok_def Let_def)

text \<open>Looking a block up: the one buffer that has its key, taken off the free list.\<close>

lemma lookup_walk:
  assumes "cache_rel s H F"
  shows "hash_walk s (chain (d, n)) d n (node_next (hnodes s (Head (chain (d, n))))) =
    Some (Inr (find (\<lambda>b. key s b = (d, n)) (H (chain (d, n)))))"
proof -
  have "is_list (hnodes s) (chain (d, n)) (H (chain (d, n)))"
    by (rule store_rel_is_list [OF cache_relD(1) [OF assms]]) simp
  then show ?thesis by (intro hash_walk_linked) (simp add: is_list_def cells_def)
qed

lemma lookup_found:
  assumes rel: "cache_rel s H F" and b: "b \<in> allocated s" "key s b = (d, n)"
  shows "\<exists>h. get_from_hash_table d n s = Inr (Some b, s\<lparr>rnodes := h\<rparr>) \<and> store_rel h (\<lambda>_. Some (remove1 b F))"
proof -
  note r = cache_relD [OF rel]
  have "b \<in> set (H (chain (d, n)))" using r(3) b by simp
  then obtain x where x: "find (\<lambda>b. key s b = (d, n)) (H (chain (d, n))) = Some x"
    using b(2) find_None_iff [of "\<lambda>b. key s b = (d, n)" "H (chain (d, n))"] by fastforce
  then have "key s x = (d, n)" "x \<in> set (H (chain (d, n)))" by (auto simp: find_Some_iff)
  then have xb: "x = b" using r(3) b inj_onD [OF r(4), of x b] by auto
  have w: "get_from_hash_table d n s =
      bindE (list_search () (Node b) (rnodes s)) (\<lambda>found.
          if found then bindE (list_remove (Node b) (rnodes s)) (\<lambda>h. Inr (Some b, s\<lparr>rnodes := h\<rparr>)) else Inr (Some b, s))"
    unfolding get_from_hash_table_def Let_def chain_def [of "(d, n)", simplified, symmetric] lookup_walk [OF rel] x xb
    by simp
  have se: "list_search () (Node b) (rnodes s) = Inr (b \<in> set F)"
    using il.rel_search [OF r(2)] by simp
  show ?thesis
  proof (cases "b \<in> set F")
    case True
    obtain h where h: "list_remove (Node b) (rnodes s) = Inr h" "store_rel h ((\<lambda>_. Some F)(() \<mapsto> remove1 b F))"
      using store_rel_remove1 [OF r(2) _ True] by blast
    moreover have "((\<lambda>_. Some F)(() \<mapsto> remove1 b F)) = (\<lambda>_. Some (remove1 b F))" by auto
    ultimately show ?thesis using w se True by auto
  next
    case False
    then have "remove1 b F = F" by (rule remove1_idem)
    then show ?thesis using w se False r(2) by (intro exI [of _ "rnodes s"]) simp
  qed
qed

lemma lookup_missing:
  assumes rel: "cache_rel s H F" and no: "\<forall>b \<in> allocated s. key s b \<noteq> (d, n)"
  shows "get_from_hash_table d n s = Inr (None, s)"
proof -
  have "find (\<lambda>b. key s b = (d, n)) (H (chain (d, n))) = None"
    using no cache_relD(3) [OF rel] by (auto simp: find_None_iff)
  then show ?thesis
    unfolding get_from_hash_table_def Let_def chain_def [of "(d, n)", simplified, symmetric] lookup_walk [OF rel]
    by simp
qed

subsection \<open>A buffer to use\<close>

text \<open>The buffer \<open>b\<close> is taken: it is on no list and holds nothing.\<close>

definition taken :: "'a buf_state_scheme \<Rightarrow> u32 \<Rightarrow> (nat \<Rightarrow> u32 list) \<Rightarrow> u32 list \<Rightarrow> bool" where
  "taken s b H F \<longleftrightarrow> b \<in> allocated s
   \<and> store_rel (hnodes s) (\<lambda>l. if l < 31 then Some (H l) else None) \<and> store_rel (rnodes s) (\<lambda>_. Some F)
   \<and> (\<forall>l < 31. \<forall>x. x \<in> set (H l) \<longleftrightarrow> x \<in> allocated s \<and> x \<noteq> b \<and> chain (key s x) = l)
   \<and> inj_on (key s) (allocated s - {b})
   \<and> set F = {x \<in> allocated s. x \<noteq> b \<and> b_count (buffers s x) = 0}
   \<and> b_count (buffers s b) = 0 \<and> \<not> b_dirty (buffers s b) \<and> \<not> b_valid (buffers s b)"

text \<open>Nothing else has changed.\<close>

definition others_kept :: "'a buf_state_scheme \<Rightarrow> u32 \<Rightarrow> 'a buf_state_scheme \<Rightarrow> bool" where
  "others_kept s b t \<longleftrightarrow> same_kernel s t \<and> disk t = disk s \<and> allocated t = insert b (allocated s)
     \<and> (\<forall>c. c \<noteq> b \<longrightarrow> buffers t c = buffers s c)"

lemma list_empty_init: "list_empty m (list_init l h) \<longleftrightarrow> m = l \<or> list_empty m h"
  by (auto simp: list_empty_def list_init_def Let_def)

lemma lock_init_simps [simp]:
  "mutex_value (lock_init l s) = (mutex_value s)(l := False)" "lock_holder (lock_init l s) = (lock_holder s)(l := None)"
  "lock_repeat (lock_init l s) = (lock_repeat s)(l := 0)" "nodes (lock_init l s) = list_init (Waiters l) (nodes s)"
  "tasks (lock_init l s) = tasks s" "current (lock_init l s) = current s" "jiffies (lock_init l s) = jiffies s"
  "intr (lock_init l s) = intr s" "lock_state.more (lock_init l s) = lock_state.more s"
  by (simp_all add: lock_init_def mutex_init_def)

lemma buf_lock_init [simp]:
  "buffers (lock_init l s) = buffers s" "hnodes (lock_init l s) = hnodes s" "rnodes (lock_init l s) = rnodes s"
  "buffer_count (lock_init l s) = buffer_count s" "buffer_ptr (lock_init l s) = buffer_ptr s"
  "buffer_data (lock_init l s) = buffer_data s" "wait_list (lock_init l s) = wait_list s"
  "disk (lock_init l s) = disk s" "buf_state.more (lock_init l s) = buf_state.more s"
  by (simp_all add: lock_init_def mutex_init_def)

lemma free_lock_init: "free_lock (lock_init l s) m \<longleftrightarrow> m = l \<or> free_lock s m"
  by (auto simp: free_lock_def list_empty_init)

lemma new_buffer_ok:
  assumes ok: "buffers_ok s" and rel: "cache_rel s H F" and n: "unat (buffer_count s) < MAX_BUFFERS"
  shows "\<exists>b t. get_new_buffer s = (Some b, t) \<and> buffers_ok t \<and> taken t b H F \<and> others_kept s b t \<and> b \<notin> allocated s"
proof -
  note o = buffers_okD [OF ok] and r = cache_relD [OF rel]
  define N where "N = unat (buffer_count s)"
  define b where "b = buf_at N"
  define t where "t = (lock_init (unat b) (upd_buf b (\<lambda>t. t\<lparr>b_dev := EOF, b_block := 0, b_count := 0,
      b_dirty := False, b_valid := False\<rparr>) s))\<lparr>buffer_count := buffer_count s + 1,
      buffer_ptr := buffer_ptr s + BUFFER_BYTES, buffer_data := buffer_data s - BLOCK_SIZE\<rparr>"
  have g: "get_new_buffer s = (Some b, t)"
    using buffer_room [OF ok] n o(2)
    by (simp add: get_new_buffer_def t_def b_def N_def upd_buf_def Let_def)
  have c: "unat (buffer_count t) = N + 1"
    using n by (simp add: t_def N_def MAX_BUFFERS_def unat_Suc_small)
  have al: "allocated t = insert b (allocated s)"
    by (simp add: allocated_def c b_def N_def [symmetric] lessThan_Suc)
  have nb: "b \<notin> allocated s"
  proof -
    have "buf_at x \<noteq> buf_at N" if "x < N" for x using buf_at_inj [of x N] that n by (simp add: N_def)
    then show ?thesis by (force simp: allocated_def b_def N_def)
  qed
  have bu: "buffers t x = (if x = b then (buffers s b)\<lparr>b_dev := EOF, b_block := 0, b_count := 0,
      b_dirty := False, b_valid := False\<rparr> else buffers s x)" for x
    by (simp add: t_def upd_buf_def)
  then have k: "x \<noteq> b \<Longrightarrow> key t x = key s x" for x by (simp add: key_def)
  have k': "x \<in> allocated s \<Longrightarrow> key t x = key s x" for x using k nb by metis
  have h: "hnodes t = hnodes s" "rnodes t = rnodes s" "disk t = disk s" by (simp_all add: t_def upd_buf_def)
  have db: "disk_block t x = disk_block s x" for x by (simp add: disk_block_def disk_read_def h)
  have fl: "free_lock t m \<longleftrightarrow> m = unat b \<or> free_lock s m" for m
  proof -
    have "free_lock t m \<longleftrightarrow> free_lock (lock_init (unat b) s) m"
      by (auto simp: free_lock_def t_def upd_buf_def)
    then show ?thesis by (simp add: free_lock_init)
  qed
  have "buffer_data t = KERNEL_BUFFER_MEM + KERNEL_BUFFER_SIZE - of_nat (1024 * (unat (buffer_count t) + 1))"
    unfolding c by (simp add: t_def o(3) BLOCK_SIZE_def N_def upd_buf_def algebra_simps)
  moreover have "buffer_ptr t = buf_at (N + 1)" by (simp add: t_def o(2) buf_at_next N_def)
  moreover have "list_empty (Waiters (wait_list t)) (nodes t)"
    using o(5) by (simp add: t_def list_empty_init upd_buf_def)
  ultimately have "buffers_ok t"
    using n o al c by (auto simp: buffers_ok_def bu k db fl h N_def key_def Let_def)
  moreover have "taken t b H F"
    unfolding taken_def h
  proof (intro conjI allI impI)
    show "inj_on (key t) (allocated t - {b})"
      using r(4) k unfolding inj_on_def al by (metis Diff_iff insert_iff)
  qed (use r nb k' in \<open>auto simp: al bu\<close>)
  moreover have "others_kept s b t"
    by (auto simp: others_kept_def al bu h same_kernel_def) (simp_all add: t_def upd_buf_def)
  ultimately show ?thesis using g nb by blast
qed

lemma card_in_use: "finite (in_use s)" "in_use s \<subseteq> allocated s"
  by (auto simp: in_use_def)

lemma hash_remove_ok:
  assumes "store_rel (hnodes s) (\<lambda>l. if l < 31 then Some (H l) else None)" and "b \<in> set (H (chain (key s b)))"
  shows "\<exists>h. hash_remove b s = Inr (s\<lparr>hnodes := h\<rparr>)
    \<and> store_rel h (\<lambda>l. if l < 31 then Some ((H(chain (key s b) := remove1 b (H (chain (key s b))))) l) else None)"
proof -
  let ?c = "\<lambda>l. if l < 31 then Some (H l) else None" and ?l = "chain (key s b)"
  have l: "?c ?l = Some (H ?l)" by simp
  obtain h where h: "list_remove (Node b) (hnodes s) = Inr h" "store_rel h (?c(?l \<mapsto> remove1 b (H ?l)))"
    using store_rel_remove1 [OF assms(1) l assms(2)] by blast
  have "?c(?l \<mapsto> remove1 b (H ?l)) = (\<lambda>l. if l < 31 then Some ((H(?l := remove1 b (H ?l))) l) else None)"
    by (auto simp: fun_eq_iff)
  moreover have "list_search ?l (Node b) (hnodes s) = Inr True"
    using il.rel_search [OF assms(1) l, of b] assms(2) by simp
  moreover have "unat (hash (b_dev (buffers s b)) (b_block (buffers s b))) = ?l" by (simp add: chain_def key_def)
  ultimately show ?thesis using h by (auto simp: hash_remove_def Let_def)
qed

lemma reuse_buffer_ok:
  assumes ok: "buffers_ok s" and rel: "cache_rel s H F" and full: "\<not> unat (buffer_count s) < MAX_BUFFERS"
    and room: "card (in_use s) < MAX_BUFFERS"
  shows "\<exists>b t H' F'. get_free_buffer s = Inr (b, t) \<and> buffers_ok t \<and> taken t b H' F' \<and> others_kept s b t
    \<and> b \<in> allocated s \<and> b_count (buffers s b) = 0"
proof -
  note o = buffers_okD [OF ok] and r = cache_relD [OF rel]
  have "card (allocated s) = MAX_BUFFERS" using card_allocated [OF o(1)] o(1) full by simp
  then have "in_use s \<noteq> allocated s" using room by auto
  then obtain x where "x \<in> allocated s" "b_count (buffers s x) = 0" using o(6) by (force simp: in_use_def)
  then have "F \<noteq> []" using r(5) by auto
  then obtain F' b where F: "F = F' @ [b]" by (metis rev_exhaust)
  have d: "distinct F" by (rule store_rel_distinct [OF r(2)]) simp
  have b: "b \<in> allocated s" "b_count (buffers s b) = 0" using r(5) F by auto
  obtain h where h: "list_popback (\<lambda>node. node) () (rnodes s) = Inr (Node b, h)" "store_rel h ((\<lambda>_. Some F)(() \<mapsto> F'))"
    using store_rel_popback [OF r(2), where l = "()" and xs = F' and n = b and ret = "\<lambda>node. node"] F by auto
  have h2: "store_rel h (\<lambda>_. Some F')" using h(2) by (simp add: fun_upd_def)
  define s1 where "s1 = s\<lparr>rnodes := h\<rparr>"
  have k1: "key s1 x = key s x" for x by (simp add: s1_def key_def)
  have bH: "b \<in> set (H (chain (key s1 b)))" using r(3) b(1) by (simp add: k1)
  obtain g where g: "hash_remove b s1 = Inr (s1\<lparr>hnodes := g\<rparr>)"
    "store_rel g (\<lambda>l. if l < 31 then Some ((H(chain (key s1 b) := remove1 b (H (chain (key s1 b))))) l) else None)"
    using hash_remove_ok [of s1 H b] r(1) bH by (auto simp: s1_def)
  define t where "t = upd_buf b (\<lambda>t. t\<lparr>b_valid := False\<rparr>) (s1\<lparr>hnodes := g\<rparr>)"
  let ?H = "H(chain (key s b) := remove1 b (H (chain (key s b))))"
  have "get_new_buffer s = (None, s)" using buffer_room [OF ok] full by (simp add: get_new_buffer_def)
  moreover have "\<not> list_empty () (rnodes s)" using store_rel_empty [OF r(2), where l = "()" and xs = F] F by simp
  ultimately have gf: "get_free_buffer s = Inr (b, t)"
    using h(1) g(1) by (simp add: get_free_buffer_def node_buffer_def t_def s1_def)
  have al: "allocated t = allocated s" by (simp add: allocated_def t_def s1_def upd_buf_def)
  have bu: "buffers t x = (if x = b then (buffers s b)\<lparr>b_valid := False\<rparr> else buffers s x)" for x
    by (simp add: t_def s1_def upd_buf_def)
  then have k: "key t x = key s x" for x by (simp add: key_def)
  have db: "disk_block t x = disk_block s x" for x by (simp add: disk_block_def disk_read_def t_def s1_def upd_buf_def)
  have fl: "free_lock t m \<longleftrightarrow> free_lock s m" for m by (simp add: free_lock_def t_def s1_def upd_buf_def)
  have c: "buffer_count t = buffer_count s" "buffer_ptr t = buffer_ptr s" "buffer_data t = buffer_data s"
    "disk t = disk s" "wait_list t = wait_list s" "nodes t = nodes s" by (simp_all add: t_def s1_def upd_buf_def)
  have "buffers_ok t" using o b by (auto simp: buffers_ok_def c al k db fl bu Let_def)
  moreover have "taken t b ?H F'"
    unfolding taken_def
  proof (intro conjI allI impI)
    show "store_rel (hnodes t) (\<lambda>l. if l < 31 then Some (?H l) else None)" using g(2) unfolding k1 by (simp add: t_def upd_buf_def)
    show "store_rel (rnodes t) (\<lambda>_. Some F')" using h2 by (simp add: t_def s1_def upd_buf_def)
    show "inj_on (key t) (allocated t - {b})" using r(4) by (auto simp: al k inj_on_def)
    show "set F' = {x \<in> allocated t. x \<noteq> b \<and> b_count (buffers t x) = 0}" using r(5) F d by (auto simp: al bu)
    show "b \<in> allocated t" "b_count (buffers t b) = 0" "\<not> b_dirty (buffers t b)" "\<not> b_valid (buffers t b)"
      using b o(11) by (auto simp: al bu)
    fix l :: nat and x
    assume l: "l < 31"
    have "distinct (H l)" by (rule store_rel_distinct [OF r(1), of l]) (simp add: l)
    then show "x \<in> set (?H l) \<longleftrightarrow> x \<in> allocated t \<and> x \<noteq> b \<and> chain (key t x) = l"
      unfolding al k using r(3) [OF l] b(1) by (cases "l = chain (key s b)") auto
  qed
  moreover have "others_kept s b t"
    using b(1) by (auto simp: others_kept_def al bu c same_kernel_def insert_absorb) (simp_all add: t_def s1_def upd_buf_def)
  ultimately show ?thesis using gf b by blast
qed

lemma free_buffer_ok:
  assumes ok: "buffers_ok s" and rel: "cache_rel s H F" and room: "card (in_use s) < MAX_BUFFERS"
  shows "\<exists>b t H' F'. get_free_buffer s = Inr (b, t) \<and> buffers_ok t \<and> taken t b H' F' \<and> others_kept s b t
    \<and> (b \<in> allocated s \<longrightarrow> b_count (buffers s b) = 0)"
proof (cases "unat (buffer_count s) < MAX_BUFFERS")
  case True
  obtain b t where "get_new_buffer s = (Some b, t)" "buffers_ok t" "taken t b H F" "others_kept s b t" "b \<notin> allocated s"
    using new_buffer_ok [OF ok rel True] by blast
  then show ?thesis by (auto simp: get_free_buffer_def)
next
  case False
  then show ?thesis using reuse_buffer_ok [OF ok rel False room] by blast
qed

subsection \<open>Reading a block\<close>

text \<open>Putting a taken buffer on the chain of its new key.\<close>

lemma locate_ok:
  assumes ok: "buffers_ok t" and tk: "taken t b H F" and no: "\<forall>x \<in> allocated t. x \<noteq> b \<longrightarrow> key t x \<noteq> (d, n)"
    and n: "n < 2 ^ 31"
  defines "u \<equiv> upd_buf b (\<lambda>t. t\<lparr>b_count := 1, b_dev := d, b_block := n\<rparr>) t"
  shows "\<exists>h H'. hash_locate b u = Inr (u\<lparr>hnodes := h\<rparr>) \<and> buffers_ok (u\<lparr>hnodes := h\<rparr>) \<and> cache_rel (u\<lparr>hnodes := h\<rparr>) H' F"
proof -
  have al: "allocated u = allocated t" by (simp add: allocated_def u_def upd_buf_def)
  have bu: "buffers u x = (if x = b then (buffers t b)\<lparr>b_count := 1, b_dev := d, b_block := n\<rparr> else buffers t x)" for x
    by (simp add: u_def upd_buf_def)
  have k: "key u x = (if x = b then (d, n) else key t x)" for x by (simp add: key_def bu)
  have c: "hnodes u = hnodes t" "rnodes u = rnodes t" "disk u = disk t" "buffer_count u = buffer_count t"
    "buffer_ptr u = buffer_ptr t" "buffer_data u = buffer_data t" "wait_list u = wait_list t" "nodes u = nodes t"
    by (simp_all add: u_def upd_buf_def)
  have T: "b \<in> allocated t" "store_rel (hnodes t) (\<lambda>l. if l < 31 then Some (H l) else None)" "store_rel (rnodes t) (\<lambda>_. Some F)"
    "\<And>l x. l < 31 \<Longrightarrow> x \<in> set (H l) \<longleftrightarrow> x \<in> allocated t \<and> x \<noteq> b \<and> chain (key t x) = l"
    "inj_on (key t) (allocated t - {b})" "set F = {x \<in> allocated t. x \<noteq> b \<and> b_count (buffers t x) = 0}"
    using tk by (auto simp: taken_def)
  let ?l = "chain (d, n)" and ?c = "\<lambda>l. if l < 31 then Some (H l) else None"
  have l: "?c ?l = Some (H ?l)" by simp
  have un: "unlinked ?c b" using T(4) by (auto simp: unlinked_def split: if_splits)
  obtain h where h: "list_push ?l (Node b) (hnodes u) = Inr h" "store_rel h (?c(?l \<mapsto> b # H ?l))"
    using il.rel_push [OF T(2) l un] by (auto simp: c)
  let ?H = "H(?l := b # H ?l)"
  have "?c(?l \<mapsto> b # H ?l) = (\<lambda>l. if l < 31 then Some (?H l) else None)" by (auto simp: fun_eq_iff)
  then have h2: "store_rel h (\<lambda>l. if l < 31 then Some (?H l) else None)" using h(2) by simp
  have "b \<notin> set (H ?l)" using T(4) by simp
  then have "list_search ?l (Node b) (hnodes u) = Inr False" using il.rel_search [OF T(2) l, of b] by (simp add: c)
  moreover have "unat (hash (b_dev (buffers u b)) (b_block (buffers u b))) = ?l" by (simp add: bu chain_def)
  ultimately have hl: "hash_locate b u = Inr (u\<lparr>hnodes := h\<rparr>)" using h(1) by (simp add: hash_locate_def Let_def)
  define v where "v = u\<lparr>hnodes := h\<rparr>"
  have v: "buffers v = buffers u" "allocated v = allocated t" "rnodes v = rnodes t" "hnodes v = h" "disk v = disk t"
    "buffer_count v = buffer_count t" "buffer_ptr v = buffer_ptr t" "buffer_data v = buffer_data t"
    "wait_list v = wait_list t" "nodes v = nodes t"
    using al c by (simp_all add: v_def allocated_def)
  have kv: "key v x = (if x = b then (d, n) else key t x)" for x using k [of x] by (simp add: key_def v(1))
  have db: "disk_block v x = disk_block t x" for x by (simp add: disk_block_def disk_read_def v)
  have fl: "free_lock v m \<longleftrightarrow> free_lock t m" for m by (simp add: free_lock_def v_def u_def upd_buf_def)
  note o = buffers_okD [OF ok]
  have "buffers_ok v"
    unfolding buffers_ok_def v db fl kv Let_def bu using o n by auto
  moreover have "cache_rel v ?H F"
    unfolding cache_rel_def v(2-4)
  proof (intro conjI allI impI)
    show "inj_on (key v) (allocated t)"
    proof (rule inj_onI)
      fix x y
      assume "x \<in> allocated t" "y \<in> allocated t" "key v x = key v y"
      then show "x = y" using no inj_onD [OF T(5), of x y] unfolding kv by (cases "x = b"; cases "y = b") auto
    qed
    show "set F = {x \<in> allocated t. b_count (buffers v x) = 0}"
      using T(6) by (auto simp: v bu)
    fix l :: nat and x
    assume "l < 31"
    then show "x \<in> set (?H l) \<longleftrightarrow> x \<in> allocated t \<and> chain (key v x) = l"
      using T(4) [of l x] T(1) by (auto simp: kv)
  qed (use h2 T(3) in simp_all)
  ultimately show ?thesis using hl unfolding v_def by blast
qed

text \<open>Changes to one buffer that leave its key alone.\<close>

lemma upd_keep:
  assumes "\<And>t. b_dev (f t) = b_dev t \<and> b_block (f t) = b_block t"
  shows "key (upd_buf b f s) = key s" "allocated (upd_buf b f s) = allocated s"
    "disk_block (upd_buf b f s) = disk_block s" "free_lock (upd_buf b f s) = free_lock s"
    "hnodes (upd_buf b f s) = hnodes s" "rnodes (upd_buf b f s) = rnodes s" "same_kernel s (upd_buf b f s)"
    "disk (upd_buf b f s) = disk s"
  using assms
  by (auto simp: key_def fun_eq_iff upd_buf_def allocated_def disk_block_def disk_read_def free_lock_def same_kernel_def)

lemma upd_buffers: "buffers (upd_buf b f s) x = (if x = b then f (buffers s b) else buffers s x)"
  by (simp add: upd_buf_def)

lemma upd_rel:
  assumes "\<And>t. b_dev (f t) = b_dev t \<and> b_block (f t) = b_block t" and "cache_rel s H F"
    and "b \<in> allocated s \<Longrightarrow> b_count (f (buffers s b)) = 0 \<longleftrightarrow> b_count (buffers s b) = 0"
  shows "cache_rel (upd_buf b f s) H F"
  using assms(2,3) unfolding cache_rel_def upd_keep [OF assms(1)] by (auto simp: upd_buffers)

lemma upd_ok:
  assumes "\<And>t. b_dev (f t) = b_dev t \<and> b_block (f t) = b_block t" and "buffers_ok s"
    and "b \<in> allocated s \<Longrightarrow> let t = f (buffers s b) in 0 < b_count t
        \<and> (b_valid t \<longrightarrow> length (b_data t) = 1024) \<and> (b_dirty t \<longrightarrow> b_valid t)"
  shows "buffers_ok (upd_buf b f s)"
proof -
  have c: "buffer_count (upd_buf b f s) = buffer_count s" "buffer_ptr (upd_buf b f s) = buffer_ptr s"
    "buffer_data (upd_buf b f s) = buffer_data s" "wait_list (upd_buf b f s) = wait_list s"
    "nodes (upd_buf b f s) = nodes s"
    by (simp_all add: upd_buf_def)
  show ?thesis using assms(2,3) unfolding buffers_ok_def upd_keep [OF assms(1)] c Let_def
    by (auto simp: upd_buffers)
qed

lemma length_disk_block:
  assumes "buffers_ok s" and "snd k < 2 ^ 31"
  shows "length (disk_block s k) = 1024"
proof -
  have "sum_list (map (\<lambda>i. length (disk s (fst k) (snd k * BLOCK_SECS + word_of_nat i))) [0..<unat BLOCK_SECS]) =
    sum_list (map (\<lambda>i. 512) [0..<unat BLOCK_SECS])"
    by (rule arg_cong [where f = sum_list], rule map_cong) (use buffers_okD(4) [OF assms(1)] in auto)
  also have "\<dots> = 1024" by (simp add: BLOCK_SECS_def BLOCK_SIZE_def SECTOR_SIZE_def sum_list_triv)
  finally show ?thesis using assms(2) by (simp add: disk_block_def disk_read_def length_concat comp_def)
qed

text \<open>What \<open>bread\<close> promises.\<close>

definition bread_post :: "'a buf_state_scheme \<Rightarrow> u32 \<times> u32 \<Rightarrow> u32 \<Rightarrow> 'a buf_state_scheme \<Rightarrow> bool" where
  "bread_post s k b t \<longleftrightarrow> cache_inv t \<and> key t b = k \<and> b_valid (buffers t b) \<and> b_data (buffers t b) = blk s k
     \<and> blk t = blk s \<and> same_kernel s t \<and> disk t = disk s \<and> in_use t = insert b (in_use s)
     \<and> (if b \<in> in_use s \<and> b_valid (buffers s b)
        then buffers t b = (buffers s b)\<lparr>b_count := b_count (buffers s b) + 1\<rparr>
        else b \<notin> in_use s \<longrightarrow> b_count (buffers t b) = 1 \<and> \<not> b_dirty (buffers t b) \<and> b_data (buffers t b) = disk_block s k)
     \<and> (\<forall>c \<in> in_use s. c \<noteq> b \<longrightarrow> buffers t c = buffers s c \<and> key t c = key s c)"

lemma fill_ok:
  assumes ok: "buffers_ok t" and rel: "cache_rel t H F" and b: "b \<in> in_use t" "key t b = k" "\<not> b_valid (buffers t b)"
  defines "u \<equiv> upd_buf b (\<lambda>t'. t'\<lparr>b_data := disk_block t k, b_dirty := False, b_valid := True\<rparr>) t"
  shows "buffers_ok u" "cache_rel u H F" "blk u = blk t" "blk t k = disk_block t k"
proof -
  let ?f = "\<lambda>t'. t'\<lparr>b_data := disk_block t k, b_dirty := False, b_valid := True\<rparr>"
  have f: "\<And>t. b_dev (?f t) = b_dev t \<and> b_block (?f t) = b_block t" by simp
  have kk: "snd k < 2 ^ 31" using buffers_okD(7) [OF ok, of b] b by (auto simp: in_use_def)
  show o: "buffers_ok u" unfolding u_def
    by (rule upd_ok [OF f ok]) (use b(1) length_disk_block [OF ok kk] in \<open>simp add: in_use_def\<close>)
  show r: "cache_rel u H F" unfolding u_def by (rule upd_rel [OF f rel]) simp
  have i: "inj_on (key t) (allocated t)" "inj_on (key u) (allocated u)"
    using rel r by (auto simp: cache_rel_def)
  have a: "allocated u = allocated t" "key u = key t" "disk_block u = disk_block t"
    unfolding u_def by (simp_all only: upd_keep [OF f])
  have ba: "b \<in> allocated t" using b(1) by (simp add: in_use_def)
  have inv: "\<forall>x \<in> allocated t. key t x = k \<longrightarrow> \<not> b_valid (buffers t x)"
    using inj_onD [OF i(1), of _ b] ba b by metis
  show bk: "blk t k = disk_block t k" by (rule blk_cases(2) [OF i(1) inv])
  have bu: "buffers u x = (if x = b then ?f (buffers t b) else buffers t x)" for x
    unfolding u_def by (rule upd_buffers)
  show "blk u = blk t"
  proof (rule blk_eqI [OF i])
    fix x
    assume "x \<in> allocated u" "b_valid (buffers u x)"
    then show "b_data (buffers u x) = blk t (key u x)"
      using bk b(2) blk_cases(1) [OF i(1), of x] by (auto simp: a bu split: if_splits)
  next
    fix x
    assume *: "x \<in> allocated t" "b_valid (buffers t x)" "\<forall>c \<in> allocated u. key u c = key t x \<longrightarrow> \<not> b_valid (buffers u c)"
    then have "\<not> b_valid (buffers u x)" by (simp add: a)
    then show "b_data (buffers t x) = disk_block t (key t x)" using *(2) by (auto simp: bu split: if_splits)
  qed (simp add: a)
qed

lemma bread_finish:
  assumes get: "getblk d n s = Inr (b, t)" and ok: "buffers_ok t" and rel: "cache_rel t H F"
    and b: "b \<in> in_use t" "key t b = (d, n)"
  defines "u \<equiv> upd_buf b (\<lambda>t'. t'\<lparr>b_data := disk_block t (d, n), b_dirty := False, b_valid := True\<rparr>) t"
  shows "bread d n s = Inr (b, if b_valid (buffers t b) then t else u)"
proof (cases "b_valid (buffers t b)")
  case True
  then show ?thesis by (simp add: bread_def get)
next
  case False
  have "free_lock t (unat b)" using buffers_okD(10) [OF ok] b(1) by (simp add: in_use_def)
  then have a: "lock_acquire (unat b) t = Inr (True, locked (unat b) t)" by (rule acquire_free)
  have l: "buffers (locked (unat b) t) = buffers t" "disk_read x y z (locked (unat b) t) = disk_read x y z t" for x y z
    by (simp_all add: locked_def disk_read_def)
  have "disk_read (b_dev (buffers t b)) BLOCK_SECS (b_block (buffers t b) * BLOCK_SECS) t = disk_block t (d, n)"
    using b buffers_okD(7) [OF ok, of b] by (auto simp: disk_block_def key_def in_use_def)
  then show ?thesis
    using False lock_section [OF \<open>free_lock t (unat b)\<close>]
    by (simp add: bread_def get a l Let_def u_def)
qed

lemma disk_block_cong: "disk t = disk s \<Longrightarrow> disk_block t = disk_block s"
  by (simp add: fun_eq_iff disk_block_def disk_read_def)

lemma getblk_cached:
  assumes ok: "buffers_ok s" and rel: "cache_rel s H F" and b: "b \<in> allocated s" "key s b = (d, n)"
    and count: "b_count (buffers s b) < 2 ^ 31 - 1"
  shows "\<exists>t. getblk d n s = Inr (b, t) \<and> buffers_ok t \<and> cache_rel t H (remove1 b F) \<and> key t = key s
    \<and> allocated t = allocated s \<and> same_kernel s t \<and> disk t = disk s
    \<and> (\<forall>x. buffers t x = (if x = b then (buffers s b)\<lparr>b_count := b_count (buffers s b) + 1\<rparr> else buffers s x))"
proof -
  note o = buffers_okD [OF ok] and r = cache_relD [OF rel]
  obtain h where h: "get_from_hash_table d n s = Inr (Some b, s\<lparr>rnodes := h\<rparr>)" "store_rel h (\<lambda>_. Some (remove1 b F))"
    using lookup_found [OF rel b] by blast
  define t where "t = upd_buf b (\<lambda>t. t\<lparr>b_count := b_count (buffers s b) + 1\<rparr>) (s\<lparr>rnodes := h\<rparr>)"
  have "cint (b_count (buffers s b) + 1) = Inr (b_count (buffers s b) + 1)"
    using o(6) [OF b(1)] count by (intro cint_in) auto
  then have g: "getblk d n s = Inr (b, t)" using h(1) by (simp add: getblk_def t_def)
  have bu: "buffers t x = (if x = b then (buffers s b)\<lparr>b_count := b_count (buffers s b) + 1\<rparr> else buffers s x)" for x
    by (simp add: t_def upd_buf_def)
  have k: "key t = key s" by (simp add: fun_eq_iff key_def bu)
  have c: "allocated t = allocated s" "hnodes t = hnodes s" "rnodes t = h" "disk t = disk s" "buffer_count t = buffer_count s"
    "buffer_ptr t = buffer_ptr s" "buffer_data t = buffer_data s" "wait_list t = wait_list s" "nodes t = nodes s"
    "same_kernel s t"
    by (simp_all add: t_def upd_buf_def allocated_def same_kernel_def)
  have fl: "free_lock t = free_lock s" by (simp add: fun_eq_iff free_lock_def t_def upd_buf_def)
  have pos: "b_count (buffers s b) + 1 \<noteq> 0" using o(6) [OF b(1)] by simp
  have "buffers_ok t"
    using o b pos by (auto simp: buffers_ok_def c k fl bu disk_block_cong [OF c(4)] Let_def)
  moreover have d: "distinct F" by (rule store_rel_distinct [OF r(2)]) simp
  have "cache_rel t H (remove1 b F)"
    unfolding cache_rel_def c k using r h(2) o(6) [OF b(1)] d by (auto simp: bu)
  ultimately show ?thesis using g c k bu by blast
qed

lemma getblk_new:
  assumes ok: "buffers_ok s" and rel: "cache_rel s H F" and no: "\<forall>x \<in> allocated s. key s x \<noteq> (d, n)"
    and room: "card (in_use s) < MAX_BUFFERS" and n: "n < 2 ^ 31"
  shows "\<exists>b t H' F'. getblk d n s = Inr (b, t) \<and> buffers_ok t \<and> cache_rel t H' F' \<and> key t b = (d, n)
    \<and> (\<forall>x. x \<noteq> b \<longrightarrow> buffers t x = buffers s x)
    \<and> allocated t = insert b (allocated s) \<and> same_kernel s t \<and> disk t = disk s
    \<and> b_count (buffers t b) = 1 \<and> \<not> b_valid (buffers t b) \<and> \<not> b_dirty (buffers t b)
    \<and> (b \<in> allocated s \<longrightarrow> b_count (buffers s b) = 0)"
proof -
  obtain b t1 H1 F1 where f: "get_free_buffer s = Inr (b, t1)" "buffers_ok t1" "taken t1 b H1 F1"
    "others_kept s b t1" "b \<in> allocated s \<longrightarrow> b_count (buffers s b) = 0"
    using free_buffer_ok [OF ok rel room] by blast
  have t1: "same_kernel s t1" "disk t1 = disk s" "allocated t1 = insert b (allocated s)"
    "\<And>c. c \<noteq> b \<Longrightarrow> buffers t1 c = buffers s c"
    using f(4) by (auto simp: others_kept_def)
  have "\<forall>x \<in> allocated t1. x \<noteq> b \<longrightarrow> key t1 x \<noteq> (d, n)" using no t1 by (auto simp: key_def)
  from locate_ok [OF f(2,3) this n] obtain h H' where l:
    "hash_locate b (upd_buf b (\<lambda>t. t\<lparr>b_count := 1, b_dev := d, b_block := n\<rparr>) t1)
       = Inr (upd_buf b (\<lambda>t. t\<lparr>b_count := 1, b_dev := d, b_block := n\<rparr>) t1\<lparr>hnodes := h\<rparr>)"
    "buffers_ok (upd_buf b (\<lambda>t. t\<lparr>b_count := 1, b_dev := d, b_block := n\<rparr>) t1\<lparr>hnodes := h\<rparr>)"
    "cache_rel (upd_buf b (\<lambda>t. t\<lparr>b_count := 1, b_dev := d, b_block := n\<rparr>) t1\<lparr>hnodes := h\<rparr>) H' F1" by blast
  define t where "t = upd_buf b (\<lambda>t. t\<lparr>b_count := 1, b_dev := d, b_block := n\<rparr>) t1\<lparr>hnodes := h\<rparr>"
  have z: "b_count (buffers t1 b) = 0" "\<not> b_dirty (buffers t1 b)" "\<not> b_valid (buffers t1 b)"
    using f(3) by (auto simp: taken_def)
  have "getblk d n s = Inr (b, t)"
    using f(1) z l(1) lookup_missing [OF rel no] by (simp add: getblk_def Let_def t_def)
  moreover have "key t b = (d, n)" "\<forall>x. x \<noteq> b \<longrightarrow> buffers t x = buffers s x" "b_count (buffers t b) = 1"
    "\<not> b_valid (buffers t b)" "\<not> b_dirty (buffers t b)"
    using z t1(4) by (simp_all add: t_def upd_buf_def key_def)
  moreover have "allocated t = insert b (allocated s)" "disk t = disk s"
    using t1 by (simp_all add: t_def upd_buf_def allocated_def)
  moreover have "same_kernel s t" using t1(1) by (simp add: same_kernel_def t_def upd_buf_def)
  ultimately show ?thesis using l(2,3) f(5) unfolding t_def by blast
qed

text \<open>A block can be read when its buffer is in use, or some buffer is not; counts stay far from overflow.\<close>

definition room :: "'a buf_state_scheme \<Rightarrow> u32 \<times> u32 \<Rightarrow> bool" where
  "room s k \<longleftrightarrow> ((\<exists>b \<in> in_use s. key s b = k) \<or> card (in_use s) < MAX_BUFFERS)
     \<and> (\<forall>b \<in> in_use s. b_count (buffers s b) < 2 ^ 31 - 1)"

lemma bread_ok:
  assumes inv: "cache_inv s" and room: "room s (d, n)" and n: "n < 2 ^ 31"
  shows "\<exists>b t. bread d n s = Inr (b, t) \<and> bread_post s (d, n) b t"
proof -
  obtain H F where ok: "buffers_ok s" and rel: "cache_rel s H F" using inv by (auto simp: cache_inv_def)
  note o = buffers_okD [OF ok] and r = cache_relD [OF rel]
  show ?thesis
  proof (cases "\<exists>b \<in> allocated s. key s b = (d, n)")
    case True
    then obtain b where b: "b \<in> allocated s" "key s b = (d, n)" by blast
    have "b_count (buffers s b) < 2 ^ 31 - 1"
      using room b(1) o(6) [OF b(1)] by (cases "b_count (buffers s b) = 0") (auto simp: room_def in_use_def)
    then obtain t where t: "getblk d n s = Inr (b, t)" "buffers_ok t" "cache_rel t H (remove1 b F)" "key t = key s"
      "allocated t = allocated s" "same_kernel s t" "disk t = disk s"
      "\<And>x. buffers t x = (if x = b then (buffers s b)\<lparr>b_count := b_count (buffers s b) + 1\<rparr> else buffers s x)"
      using getblk_cached [OF ok rel b] by blast
    have bt: "b \<in> in_use t" "key t b = (d, n)" using b t o(6) [OF b(1)] by (auto simp: in_use_def)
    have iu: "in_use t = insert b (in_use s)" using b t o(6) [OF b(1)] by (auto simp: in_use_def split: if_splits)
    have bk: "blk t = blk s"
    proof (rule blk_eqI [OF r(4)])
      show "inj_on (key t) (allocated t)" using r(4) t by simp
      fix x
      assume "x \<in> allocated t" "b_valid (buffers t x)"
      then show "b_data (buffers t x) = blk s (key t x)"
        using blk_cases(1) [OF r(4), of x] t by (auto split: if_splits)
    next
      fix x
      assume *: "x \<in> allocated s" "b_valid (buffers s x)" "\<forall>c \<in> allocated t. key t c = key s x \<longrightarrow> \<not> b_valid (buffers t c)"
      then have "\<not> b_valid (buffers t x)" using t(4,5) by simp
      then show "b_data (buffers s x) = disk_block s (key s x)" using *(2) t(8) by (auto split: if_splits)
    qed (simp add: disk_block_cong [OF t(7)])
    note fin = bread_finish [OF t(1-3) bt]
    show ?thesis
    proof (cases "b_valid (buffers t b)")
      case True
      then have v: "b_valid (buffers s b)" using t(8) by simp
      have data: "b_data (buffers t b) = blk s (d, n)" using blk_cases(1) [OF r(4) b(1) v] b t(8) by simp
      have nu: "b \<notin> in_use s \<Longrightarrow> b_count (buffers s b) = 0" using b(1) o(6) [OF b(1)] by (auto simp: in_use_def)
      have "bread_post s (d, n) b t"
        unfolding bread_post_def cache_inv_def
        using t bt iu bk data v o(11,12) [OF b(1)] nu b(2) by auto
      then show ?thesis using fin True by auto
    next
      case False
      let ?f = "\<lambda>t'. t'\<lparr>b_data := disk_block t (d, n), b_dirty := False, b_valid := True\<rparr>"
      have f: "\<And>t. b_dev (?f t) = b_dev t \<and> b_block (?f t) = b_block t" by simp
      note fl = fill_ok [OF t(2,3) bt False]
      have v: "\<not> b_valid (buffers s b)" using False t(8) by simp
      have iu2: "in_use (upd_buf b ?f t) = in_use t" by (auto simp: in_use_def upd_keep [OF f] upd_buffers)
      have nu: "b \<notin> in_use s \<Longrightarrow> b_count (buffers s b) = 0" using b(1) o(6) [OF b(1)] by (auto simp: in_use_def)
      have "bread_post s (d, n) b (upd_buf b ?f t)"
        unfolding bread_post_def cache_inv_def upd_keep [OF f] iu2
        using fl(1,2,3,4) t bt iu bk v same_kernel_trans [OF t(6) upd_keep(7) [OF f]] disk_block_cong [OF t(7)] nu
        by (auto simp: upd_buffers)
      then show ?thesis using fin False by auto
    qed
  next
    case False
    then have no: "\<forall>x \<in> allocated s. key s x \<noteq> (d, n)" by blast
    then have "card (in_use s) < MAX_BUFFERS" using room by (auto simp: room_def in_use_def)
    from getblk_new [OF ok rel no this n] obtain b t H' F' where t: "getblk d n s = Inr (b, t)" "buffers_ok t"
      "cache_rel t H' F'" "key t b = (d, n)" "\<And>x. x \<noteq> b \<Longrightarrow> buffers t x = buffers s x"
      "allocated t = insert b (allocated s)" "same_kernel s t" "disk t = disk s" "b_count (buffers t b) = 1"
      "\<not> b_valid (buffers t b)" "\<not> b_dirty (buffers t b)" "b \<in> allocated s \<longrightarrow> b_count (buffers s b) = 0"
      by blast
    have bt: "b \<in> in_use t" using t by (auto simp: in_use_def)
    have nb: "b \<notin> in_use s" using t(12) by (auto simp: in_use_def)
    have "x \<in> in_use t \<longleftrightarrow> x \<in> insert b (in_use s)" for x
      by (cases "x = b") (use t(5) [of x] t(6) bt in \<open>auto simp: in_use_def\<close>)
    then have iu: "in_use t = insert b (in_use s)" by blast
    have kx: "key t x = key s x" if "x \<noteq> b" for x using t(5) [OF that] by (simp add: key_def)
    have it: "inj_on (key t) (allocated t)" using t(3) by (simp add: cache_rel_def)
    have bk: "blk t = blk s"
    proof (rule blk_eqI [OF r(4) it])
      fix x
      assume *: "x \<in> allocated t" "b_valid (buffers t x)"
      then have "x \<noteq> b" using t(10) by blast
      then show "b_data (buffers t x) = blk s (key t x)"
        using blk_cases(1) [OF r(4), of x] * t(5,6) kx by auto
    next
      fix x
      assume *: "x \<in> allocated s" "b_valid (buffers s x)" "\<forall>c \<in> allocated t. key t c = key s x \<longrightarrow> \<not> b_valid (buffers t c)"
      then have "x = b" using t(5,6) kx by (metis insertCI)
      then show "b_data (buffers s x) = disk_block s (key s x)" using * t(12) o(12) by blast
    qed (simp add: disk_block_cong [OF t(8)])
    let ?f = "\<lambda>t'. t'\<lparr>b_data := disk_block t (d, n), b_dirty := False, b_valid := True\<rparr>"
    have f: "\<And>t. b_dev (?f t) = b_dev t \<and> b_block (?f t) = b_block t" by simp
    note fl = fill_ok [OF t(2,3) bt t(4,10)]
    have iu2: "in_use (upd_buf b ?f t) = in_use t" by (auto simp: in_use_def upd_keep [OF f] upd_buffers)
    have "bread_post s (d, n) b (upd_buf b ?f t)"
      unfolding bread_post_def cache_inv_def upd_keep [OF f] iu2
      using fl(1,2,3,4) t(4,5,7,8,9) bt iu bk nb kx same_kernel_trans [OF t(7) upd_keep(7) [OF f]] disk_block_cong [OF t(8)]
      by (auto simp: upd_buffers)
    then show ?thesis using bread_finish [OF t(1-3) bt t(4)] t(10) by auto
  qed
qed

subsection \<open>Changing, writing and releasing a block\<close>

text \<open>A buffer in use that holds its block.\<close>

definition held :: "'a buf_state_scheme \<Rightarrow> u32 \<Rightarrow> bool" where
  "held s b \<longleftrightarrow> b \<in> in_use s \<and> b_valid (buffers s b)"

text \<open>The client's change: new data, marked dirty or not.\<close>

lemma put_ok:
  fixes e :: bool
  assumes inv: "cache_inv s" and b: "held s b" and len: "length xs = 1024"
  defines "t \<equiv> upd_buf b (\<lambda>t. t\<lparr>b_data := xs, b_dirty := e\<rparr>) s"
  shows "cache_inv t" "blk t = (blk s)(key s b := xs)" "key t = key s" "in_use t = in_use s" "same_kernel s t"
    "disk t = disk s"
proof -
  let ?f = "\<lambda>t. t\<lparr>b_data := xs, b_dirty := e\<rparr>"
  have f: "\<And>t. b_dev (?f t) = b_dev t \<and> b_block (?f t) = b_block t" by simp
  obtain H F where ok: "buffers_ok s" and rel: "cache_rel s H F" using inv by (auto simp: cache_inv_def)
  have bs: "b \<in> allocated s" "0 < b_count (buffers s b)" "b_valid (buffers s b)" using b by (auto simp: held_def in_use_def)
  have o: "buffers_ok t" unfolding t_def by (rule upd_ok [OF f ok]) (use bs len in simp)
  have r: "cache_rel t H F" unfolding t_def by (rule upd_rel [OF f rel]) simp
  show "cache_inv t" using o r by (auto simp: cache_inv_def)
  show k: "key t = key s" "same_kernel s t" "disk t = disk s" unfolding t_def by (simp_all only: upd_keep [OF f])
  have a: "allocated t = allocated s" "disk_block t = disk_block s" unfolding t_def by (simp_all only: upd_keep [OF f])
  have bu: "buffers t x = (if x = b then ?f (buffers s b) else buffers s x)" for x unfolding t_def by (rule upd_buffers)
  show "in_use t = in_use s" by (auto simp: in_use_def a bu split: if_splits)
  have i: "inj_on (key s) (allocated s)" "inj_on (key t) (allocated t)" using rel r by (auto simp: cache_rel_def)
  show "blk t = (blk s)(key s b := xs)"
  proof
    fix k
    show "blk t k = ((blk s)(key s b := xs)) k"
    proof (cases "k = key s b")
      case True
      then show ?thesis using blk_cases(1) [OF i(2), of b] bs a k by (simp add: bu)
    next
      case ne: False
      show ?thesis
      proof (cases "\<exists>x \<in> allocated s. key s x = k \<and> b_valid (buffers s x)")
        case True
        then obtain x where x: "x \<in> allocated s" "key s x = k" "b_valid (buffers s x)" by blast
        then have "x \<noteq> b" using ne by blast
        then have "buffers t x = buffers s x" by (simp add: bu)
        then show ?thesis
          using blk_cases(1) [OF i(1) x(1,3)] blk_cases(1) [OF i(2), of x] x a k ne by simp
      next
        case False
        have "blk s k = disk_block s k" using False by (intro blk_cases(2) [OF i(1)]) blast
        moreover have "blk t k = disk_block t k"
          by (rule blk_cases(2) [OF i(2)]) (use False a k in \<open>auto simp: bu split: if_splits\<close>)
        ultimately show ?thesis using ne a(2) by simp
      qed
    qed
  qed
qed

lemma sector_words:
  fixes m n :: u32
  assumes "m < 2 ^ 31" and "n < 2 ^ 31"
  shows "m * 2 = n * 2 \<longleftrightarrow> m = n" "m * 2 \<noteq> n * 2 + 1"
proof -
  have u: "unat (x * 2) = 2 * unat x" if "x < 2 ^ 31" for x :: u32
  proof -
    have "unat x < 2 ^ 31" using that by (simp add: word_less_nat_alt)
    then show ?thesis by (simp add: unat_word_ariths)
  qed
  have u1: "unat (n * 2 + 1) = 2 * unat n + 1"
  proof -
    have "unat n < 2 ^ 31" using assms(2) by (simp add: word_less_nat_alt)
    then show ?thesis using u [OF assms(2)] by (subst unat_Suc_small) auto
  qed
  show "m * 2 = n * 2 \<longleftrightarrow> m = n" using u [OF assms(1)] u [OF assms(2)] by (metis mult_left_cancel word_unat_eq_iff zero_neq_numeral)
  show "m * 2 \<noteq> n * 2 + 1"
  proof
    assume "m * 2 = n * 2 + 1"
    then have "2 * unat m = 2 * unat n + 1" using u [OF assms(1)] u1 by simp
    then show False by presburger
  qed
qed

lemma block_secs: "BLOCK_SECS = 2" "unat BLOCK_SECS = 2"
  by (simp_all add: BLOCK_SECS_def BLOCK_SIZE_def SECTOR_SIZE_def)

lemma disk_block_two:
  "disk_block s k = (if snd k < 2 ^ 31 then disk s (fst k) (snd k * 2) @ disk s (fst k) (snd k * 2 + 1) else [])"
  unfolding disk_block_def disk_read_def block_secs(2) unfolding block_secs(1) by (simp add: numeral_2_eq_2)

text \<open>A write changes its block on the disk and no other.\<close>

lemma disk_write_block:
  fixes s :: "'a buf_state_scheme"
  assumes "snd k < 2 ^ 31" and "length data = 1024"
  defines "t \<equiv> s\<lparr>disk := disk_write (fst k) data (unat BLOCK_SECS) (snd k * BLOCK_SECS) (disk s)\<rparr>"
  shows "disk_block t = (disk_block s)(k := data)" and "(\<forall>d i. length (disk s d i) = 512) \<Longrightarrow> length (disk t d i) = 512"
proof -
  have d: "disk t = (disk s)(fst k := (disk s (fst k))(snd k * 2 := take 512 data, snd k * 2 + 1 := take 512 (drop 512 data)))"
    unfolding t_def block_secs(2) unfolding block_secs(1) by (simp add: numeral_2_eq_2)
  have whole: "take 512 data @ take 512 (drop 512 data) = data"
  proof -
    have "take 512 (drop 512 data) = drop 512 data" using assms(2) by simp
    then show ?thesis by simp
  qed
  have ne: "snd k * 2 + 1 \<noteq> (snd k * 2 :: u32)" by simp
  show "disk_block t = (disk_block s)(k := data)"
  proof
    fix k'
    show "disk_block t k' = ((disk_block s)(k := data)) k'"
    proof (cases "snd k' < 2 ^ 31")
      case True
      note w = sector_words [OF True assms(1)] sector_words(2) [OF assms(1) True]
      have w': "snd k' * 2 + 1 = snd k * 2 + 1 \<longleftrightarrow> snd k' = snd k" "snd k' * 2 + 1 \<noteq> snd k * 2"
        using w by auto
      show ?thesis
        using True assms(1) whole ne w w' unfolding disk_block_two d by (cases k; cases k') auto
    next
      case False
      then show ?thesis using assms(1) by (auto simp: disk_block_def)
    qed
  qed
  show "length (disk t d i) = 512" if "\<forall>d i. length (disk s d i) = 512"
    using that assms(2) by (auto simp: d)
qed

lemma bwrite_clean: "\<not> b_dirty (buffers s b) \<Longrightarrow> bwrite b s = s"
  by (simp add: bwrite_def)

lemma bwrite_ok:
  assumes inv: "cache_inv s" and b: "held s b"
  shows "cache_inv (bwrite b s)" "blk (bwrite b s) = blk s" "key (bwrite b s) = key s"
    "in_use (bwrite b s) = in_use s" "same_kernel s (bwrite b s)"
    "buffers (bwrite b s) x = (if x = b then (buffers s b)\<lparr>b_dirty := False\<rparr> else buffers s x)"
    "b_dirty (buffers s b) \<Longrightarrow> disk_block (bwrite b s) = (disk_block s)(key s b := b_data (buffers s b))"
proof -
  have bs: "b \<in> allocated s" "0 < b_count (buffers s b)" "b_valid (buffers s b)" using b by (auto simp: held_def in_use_def)
  obtain H F where ok: "buffers_ok s" and rel: "cache_rel s H F" using inv by (auto simp: cache_inv_def)
  note o = buffers_okD [OF ok] and r = cache_relD [OF rel]
  have kb: "snd (key s b) < 2 ^ 31" "length (b_data (buffers s b)) = 1024" using o(7,8) bs by auto
  show 1: "buffers (bwrite b s) x = (if x = b then (buffers s b)\<lparr>b_dirty := False\<rparr> else buffers s x)" for x
    using bs(3) by (cases "b_dirty (buffers s b)") (auto simp: bwrite_def Let_def upd_buf_def)
  then show k: "key (bwrite b s) = key s" by (simp add: fun_eq_iff key_def)
  define t where "t = bwrite b s"
  have a: "allocated t = allocated s" "hnodes t = hnodes s" "rnodes t = rnodes s" "buffer_count t = buffer_count s"
    "buffer_ptr t = buffer_ptr s" "buffer_data t = buffer_data s" "wait_list t = wait_list s" "nodes t = nodes s"
    by (auto simp: t_def bwrite_def allocated_def upd_buf_def Let_def)
  have fl: "free_lock t = free_lock s" by (auto simp: fun_eq_iff free_lock_def t_def bwrite_def upd_buf_def Let_def)
  have bu: "buffers t x = (if x = b then (buffers s b)\<lparr>b_dirty := False\<rparr> else buffers s x)" for x
    using 1 by (simp add: t_def)
  have kt: "key t = key s" using k by (simp add: t_def)
  show iu: "in_use (bwrite b s) = in_use s" using a(1) 1 by (auto simp: in_use_def t_def split: if_splits)
  show "same_kernel s (bwrite b s)" by (auto simp: same_kernel_def bwrite_def upd_buf_def Let_def)
  have dk: "disk_block t = (if b_dirty (buffers s b) then (disk_block s)(key s b := b_data (buffers s b)) else disk_block s)"
    and dl: "length (disk t d i) = 512" for d i
  proof -
    let ?u = "s\<lparr>disk := disk_write (fst (key s b)) (b_data (buffers s b)) (unat BLOCK_SECS) (snd (key s b) * BLOCK_SECS) (disk s)\<rparr>"
    have w: "disk t = (if b_dirty (buffers s b) then disk ?u else disk s)"
      by (auto simp: t_def bwrite_def upd_buf_def Let_def key_def)
    show "disk_block t = (if b_dirty (buffers s b) then (disk_block s)(key s b := b_data (buffers s b)) else disk_block s)"
      using w disk_write_block(1) [OF kb, of s] disk_block_cong [of t ?u] disk_block_cong [of t s]
      by (cases "b_dirty (buffers s b)") simp_all
    show "length (disk t d i) = 512"
      using w disk_write_block(2) [OF kb, of s d i] o(4) by (cases "b_dirty (buffers s b)") simp_all
  qed
  then show "b_dirty (buffers s b) \<Longrightarrow> disk_block (bwrite b s) = (disk_block s)(key s b := b_data (buffers s b))"
    by (simp add: t_def)
  have dk_other: "disk_block t (key s x) = disk_block s (key s x)" if "x \<in> allocated s" "x \<noteq> b" for x
    using dk that inj_onD [OF r(4), of x b] bs(1) by auto
  have "buffers_ok t"
    using o bs dl dk_other by (auto simp: buffers_ok_def a kt fl bu Let_def)
  moreover have rt: "cache_rel t H F" using rel unfolding cache_rel_def a kt by (auto simp: bu)
  ultimately show "cache_inv (bwrite b s)" by (auto simp: cache_inv_def t_def)
  have "blk t = blk s"
  proof
    fix k
    show "blk t k = blk s k"
    proof (cases "\<exists>x \<in> allocated s. key s x = k \<and> b_valid (buffers s x)")
      case True
      then obtain x where x: "x \<in> allocated s" "key s x = k" "b_valid (buffers s x)" by blast
      then show ?thesis
        using blk_cases(1) [OF r(4) x(1,3)] blk_cases(1) [of t x] rt bs
        by (auto simp: a kt bu cache_rel_def split: if_splits)
    next
      case False
      then have "k \<noteq> key s b" using bs by blast
      moreover have "blk s k = disk_block s k" using False by (intro blk_cases(2) [OF r(4)]) blast
      moreover have "blk t k = disk_block t k"
        using False rt by (intro blk_cases(2)) (auto simp: a kt bu cache_rel_def split: if_splits)
      ultimately show ?thesis using dk by simp
    qed
  qed
  then show "blk (bwrite b s) = blk s" by (simp add: t_def)
qed

lemma rnodes_upd:
  "allocated (s\<lparr>rnodes := h\<rparr>) = allocated s" "key (s\<lparr>rnodes := h\<rparr>) = key s"
  "disk_block (s\<lparr>rnodes := h\<rparr>) = disk_block s" "free_lock (s\<lparr>rnodes := h\<rparr>) = free_lock s"
  "in_use (s\<lparr>rnodes := h\<rparr>) = in_use s"
  by (simp_all add: fun_eq_iff allocated_def key_def disk_block_def disk_read_def free_lock_def in_use_def)

lemma rnodes_blk: "blk (s\<lparr>rnodes := h\<rparr>) = blk s"
  by (rule ext) (simp add: blk_def rnodes_upd cong: option.case_cong)

lemma rnodes_ok: "buffers_ok (s\<lparr>rnodes := h\<rparr>) \<longleftrightarrow> buffers_ok s"
  by (simp add: buffers_ok_def rnodes_upd)

text \<open>What \<open>brelse\<close> promises, on a buffer that is dirty, agrees with the disk, or stays in use.\<close>

definition brelse_post :: "'a buf_state_scheme \<Rightarrow> u32 \<Rightarrow> 'a buf_state_scheme \<Rightarrow> bool" where
  "brelse_post s b t \<longleftrightarrow> cache_inv t \<and> blk t = blk s \<and> key t = key s \<and> same_kernel s t
     \<and> in_use t = (if b_count (buffers s b) = 1 then in_use s - {b} else in_use s)
     \<and> (\<forall>x. buffers t x = (if x = b then (buffers s b)\<lparr>b_dirty := False, b_count := b_count (buffers s b) - 1\<rparr> else buffers s x))
     \<and> disk_block t = (if b_dirty (buffers s b) then (disk_block s)(key s b := b_data (buffers s b)) else disk_block s)"

lemma brelse_ok:
  assumes inv: "cache_inv s" and b: "held s b" and count: "b_count (buffers s b) < 2 ^ 31"
    and sync: "b_dirty (buffers s b) \<or> b_data (buffers s b) = disk_block s (key s b) \<or> b_count (buffers s b) > 1"
  shows "\<exists>t. brelse b s = Inr t \<and> brelse_post s b t"
proof -
  have bs: "b \<in> allocated s" "0 < b_count (buffers s b)" "b_valid (buffers s b)" using b by (auto simp: held_def in_use_def)
  define w where "w = bwrite b s"
  note W = bwrite_ok [OF inv b, folded w_def]
  obtain H F where ok: "buffers_ok w" and rel: "cache_rel w H F" using W(1) by (auto simp: cache_inv_def)
  note o = buffers_okD [OF ok] and r = cache_relD [OF rel]
  have bw: "b \<in> in_use w" using b W(4) by (simp add: held_def)
  then have ba: "b \<in> allocated w" by (simp add: in_use_def)
  have cw: "b_count (buffers w b) = b_count (buffers s b)" using W(6) by simp
  have start: "(if b_dirty (buffers s b) then bwrite b s else s) = w" using bwrite_clean [of s b] by (auto simp: w_def)
  have ci: "cint (b_count (buffers w b) - 1) = Inr (b_count (buffers s b) - 1)"
    using bs(2) count cw by (simp, intro cint_in) auto
  let ?f = "\<lambda>t. t\<lparr>b_count := b_count (buffers s b) - 1\<rparr>"
  define u where "u = upd_buf b ?f w"
  have f: "\<And>t. b_dev (?f t) = b_dev t \<and> b_block (?f t) = b_block t" by simp
  have bu: "buffers u x = (if x = b then (buffers s b)\<lparr>b_dirty := False, b_count := b_count (buffers s b) - 1\<rparr> else buffers s x)" for x
    using W(6) unfolding u_def upd_buffers by simp
  note K = upd_keep [where f = ?f and b = b and s = w, OF f, folded u_def]
  have dk: "disk_block w = (if b_dirty (buffers s b) then (disk_block s)(key s b := b_data (buffers s b)) else disk_block s)"
    using W(7) bwrite_clean [of s b] by (auto simp: w_def)
  have synced: "b_count (buffers s b) = 1 \<Longrightarrow> b_data (buffers u b) = disk_block u (key u b)"
    using sync W(3) by (auto simp: bu K dk)
  have iuw: "in_use u = (if b_count (buffers s b) = 1 then in_use s - {b} else in_use s)"
    using bs W(4) by (auto simp: in_use_def K bu W(6) split: if_splits)
  have ok_u: "buffers_ok (u\<lparr>rnodes := h\<rparr>)" for h
  proof -
    have c: "buffer_count u = buffer_count w" "buffer_ptr u = buffer_ptr w" "buffer_data u = buffer_data w"
      "wait_list u = wait_list w" "nodes u = nodes w" by (simp_all add: u_def upd_buf_def)
    have "buffers_ok u"
    proof -
      have buw: "buffers u x = (if x = b then (buffers w b)\<lparr>b_count := b_count (buffers w b) - 1\<rparr> else buffers w x)" for x
        unfolding u_def upd_buffers cw ..
      have w1: "0 < b_count (buffers w b)" "\<not> b_dirty (buffers w b)"
        "b_count (buffers w b) = 1 \<Longrightarrow> b_data (buffers w b) = disk_block w (key w b)"
        using bs(2) synced by (simp_all add: W(6) bu K)
      have "let t = buffers u x in 0 \<le> b_count t \<and> snd (key w x) < 2 ^ 31
        \<and> (b_valid t \<longrightarrow> length (b_data t) = 1024) \<and> (b_dirty t \<longrightarrow> b_valid t) \<and> free_lock w (unat x)
        \<and> (b_count t = 0 \<longrightarrow> \<not> b_dirty t \<and> (b_valid t \<longrightarrow> b_data t = disk_block w (key w x)))"
        if "x \<in> allocated w" for x
        using o(6-12) [of x] that w1 by (cases "x = b") (simp_all add: buw Let_def)
      then show ?thesis unfolding buffers_ok_def c K using o(1-5) by blast
    qed
    then show ?thesis by (simp add: rnodes_ok)
  qed
  have blk_u: "blk (u\<lparr>rnodes := h\<rparr>) = blk s" for h
  proof -
    have "blk u = blk w"
    proof -
      have i: "inj_on (key w) (allocated w)" "inj_on (key u) (allocated u)" using r(4) K by simp_all
      show ?thesis
      proof (rule blk_eqI [OF i])
        fix x
        assume "x \<in> allocated u" "b_valid (buffers u x)"
        then show "b_data (buffers u x) = blk w (key u x)"
          using blk_cases(1) [OF i(1), of x] W(6) K by (auto simp: bu split: if_splits)
      next
        fix x
        assume *: "x \<in> allocated w" "b_valid (buffers w x)" "\<forall>c \<in> allocated u. key u c = key w x \<longrightarrow> \<not> b_valid (buffers u c)"
        then have "\<not> b_valid (buffers u x)" using K by simp
        then show "b_data (buffers w x) = disk_block w (key w x)" using *(2) W(6) by (auto simp: bu split: if_splits)
      qed (simp add: K)
    qed
    then show ?thesis using W(2) by (simp add: rnodes_blk)
  qed
  have post: "brelse_post s b (u\<lparr>rnodes := h\<rparr>)" if "cache_rel (u\<lparr>rnodes := h\<rparr>) H F'" for h F'
  proof -
    have "same_kernel s (u\<lparr>rnodes := h\<rparr>)"
      using W(5) K(7) by (simp add: same_kernel_def)
    then show ?thesis
      unfolding brelse_post_def cache_inv_def
      using that ok_u [of h] blk_u [of h] iuw W(3) K dk by (auto simp: bu rnodes_upd)
  qed
  show ?thesis
  proof (cases "b_count (buffers s b) = 1")
    case False
    have "cache_rel u H F" unfolding u_def by (rule upd_rel [OF f rel]) (use False cw bs in auto)
    then have "brelse_post s b u" using post [of "rnodes u" F] by simp
    moreover have "brelse b s = Inr u"
      using False bs ci by (simp add: brelse_def start Let_def u_def [symmetric] bu)
    ultimately show ?thesis by blast
  next
    case True
    have un: "unlinked (\<lambda>_ :: unit. Some F) b" using r(5) cw bs by (auto simp: unlinked_def)
    obtain h where h: "list_push () (Node b) (rnodes u) = Inr h" "store_rel h ((\<lambda>_. Some F)(() \<mapsto> b # F))"
      using il.rel_push [OF r(2) _ un] K(6) by auto
    have h2: "store_rel h (\<lambda>_. Some (b # F))" using h(2) by (simp add: fun_upd_def)
    have det: "node_next (rnodes u (Node b)) = None" "node_prev (rnodes u (Node b)) = None"
      using store_rel_detached [OF r(2) un] K(6) by (simp_all add: detached_def)
    have we: "list_empty (Waiters (wait_list u)) (nodes u)" using o(5) by (simp add: u_def upd_buf_def)
    have "brelse b s = Inr (u\<lparr>rnodes := h\<rparr>)"
      unfolding brelse_def Let_def start ci bindE_Inr u_def [symmetric] using True det h(1) we by (simp add: bu)
    moreover have "cache_rel (u\<lparr>rnodes := h\<rparr>) H (b # F)"
      unfolding cache_rel_def rnodes_upd K using r h2 K(5) ba True W(6) by (auto simp: bu)
    ultimately show ?thesis using post by blast
  qed
qed

section \<open>The contract of a block cache\<close>

text \<open>
  What the file system relies on. A block that is read is held until it is released; while it is held its
  data are the contents of the block, and changing them changes the block and no other. The view of all
  blocks is otherwise kept, and a block nobody holds is on the disk as it is seen.
\<close>

locale block_cache =
  fixes inv :: "'s \<Rightarrow> bool" and good :: "'k \<Rightarrow> bool" and view :: "'s \<Rightarrow> 'k \<Rightarrow> u8 list"
    and stored :: "'s \<Rightarrow> 'k \<Rightarrow> u8 list" and block_of :: "'s \<Rightarrow> 'b \<Rightarrow> 'k" and refs :: "'s \<Rightarrow> 'b \<Rightarrow> nat"
    and capacity :: nat and data :: "'s \<Rightarrow> 'b \<Rightarrow> u8 list"
    and read :: "'k \<Rightarrow> 's \<Rightarrow> ('b \<times> 's) res" and put :: "'b \<Rightarrow> u8 list \<Rightarrow> 's \<Rightarrow> 's"
    and release :: "'b \<Rightarrow> 's \<Rightarrow> 's res"
  assumes read_law: "inv s \<Longrightarrow> good k \<Longrightarrow> card {b. 0 < refs s b} < capacity \<Longrightarrow> (\<And>b. refs s b < 2 ^ 31 - 1) \<Longrightarrow>
      \<exists>b t. read k s = Inr (b, t) \<and> inv t \<and> view t = view s \<and> block_of t b = k \<and> data t b = view s k
        \<and> refs t = (refs s)(b := refs s b + 1) \<and> (\<forall>c. 0 < refs s c \<longrightarrow> block_of t c = block_of s c)"
    and put_law: "inv s \<Longrightarrow> 0 < refs s b \<Longrightarrow> length xs = 1024 \<Longrightarrow>
      inv (put b xs s) \<and> view (put b xs s) = (view s)(block_of s b := xs) \<and> refs (put b xs s) = refs s
        \<and> block_of (put b xs s) = block_of s \<and> data (put b xs s) b = xs"
    and release_law: "inv s \<Longrightarrow> 0 < refs s b \<Longrightarrow> refs s b < 2 ^ 31 \<Longrightarrow> put b (data s b) s = s \<or> view s (block_of s b) = stored s (block_of s b) \<or> 1 < refs s b \<Longrightarrow>
      \<exists>t. release b s = Inr t \<and> inv t \<and> view t = view s \<and> refs t = (refs s)(b := refs s b - 1) \<and> block_of t = block_of s"
    and put_put: "put b xs (put b ys s) = put b xs s"
    and view_length: "inv s \<Longrightarrow> good k \<Longrightarrow> length (view s k) = 1024"
    and view_stored: "inv s \<Longrightarrow> (\<And>b. 0 < refs s b \<Longrightarrow> block_of s b \<noteq> k) \<Longrightarrow> view s k = stored s k"
begin

text \<open>Reading a block, changing it by \<open>f\<close> and releasing it.\<close>

definition edit :: "'k \<Rightarrow> (u8 list \<Rightarrow> u8 list) \<Rightarrow> 's \<Rightarrow> 's res" where
  "edit k f s = bindE (read k s) (\<lambda>(b, s). release b (put b (f (data s b)) s))"

definition idle_enough :: "'s \<Rightarrow> bool" where
  "idle_enough s \<longleftrightarrow> card {b. 0 < refs s b} < capacity \<and> (\<forall>b. refs s b < 2 ^ 31 - 1)"

lemma edit_ok:
  assumes "inv s" and "good k" and "idle_enough s" and "\<And>xs. length xs = 1024 \<Longrightarrow> length (f xs) = 1024"
  shows "\<exists>t. edit k f s = Inr t \<and> inv t \<and> view t = (view s)(k := f (view s k)) \<and> refs t = refs s
    \<and> (\<forall>c. 0 < refs s c \<longrightarrow> block_of t c = block_of s c)"
proof -
  obtain b t where t: "read k s = Inr (b, t)" "inv t" "view t = view s" "block_of t b = k" "data t b = view s k"
    "refs t = (refs s)(b := refs s b + 1)" "\<forall>c. 0 < refs s c \<longrightarrow> block_of t c = block_of s c"
    using read_law [OF assms(1,2)] assms(3) unfolding idle_enough_def by blast
  have len: "length (f (data t b)) = 1024" using view_length [OF assms(1,2)] assms(4) t(5) by simp
  have r: "0 < refs t b" using t(6) by simp
  note p = put_law [OF t(2) r len]
  have b1: "refs s b < 2 ^ 31 - 1" using assms(3) by (simp add: idle_enough_def)
  obtain u where u: "release b (put b (f (data t b)) t) = Inr u" "inv u" "view u = view (put b (f (data t b)) t)"
    "refs u = (refs t)(b := refs t b - 1)" "block_of u = block_of t"
    using release_law [of "put b (f (data t b)) t" b] p r b1 put_put t(6) by auto
  have "refs u = refs s" using u(4) t(6) by auto
  then show ?thesis using t u p by (auto simp: edit_def)
qed

lemma edits_ok:
  assumes "inv s" and "idle_enough s" and "\<forall>(k, f) \<in> set es. good k \<and> (\<forall>xs. length xs = 1024 \<longrightarrow> length (f xs) = 1024)"
  shows "\<exists>t. foldE (\<lambda>(k, f). edit k f) es s = Inr t \<and> inv t \<and> refs t = refs s
    \<and> view t = fold (\<lambda>(k, f) v. v(k := f (v k))) es (view s)
    \<and> (\<forall>c. 0 < refs s c \<longrightarrow> block_of t c = block_of s c)"
  using assms
proof (induction es arbitrary: s)
  case Nil
  then show ?case by simp
next
  case (Cons e es)
  obtain k f where e: "e = (k, f)" by (cases e)
  obtain t where t: "edit k f s = Inr t" "inv t" "view t = (view s)(k := f (view s k))" "refs t = refs s"
    "\<forall>c. 0 < refs s c \<longrightarrow> block_of t c = block_of s c"
    using edit_ok [OF Cons.prems(1) _ Cons.prems(2), of k f] Cons.prems(3) e by auto
  have "idle_enough t" using Cons.prems(2) t(4) by (simp add: idle_enough_def)
  moreover have "\<forall>(k, f) \<in> set es. good k \<and> (\<forall>xs. length xs = 1024 \<longrightarrow> length (f xs) = 1024)"
    using Cons.prems(3) by simp
  ultimately obtain u where u: "foldE (\<lambda>(k, f). edit k f) es t = Inr u" "inv u"
    "refs u = refs t" "view u = fold (\<lambda>(k, f) v. v(k := f (v k))) es (view t)"
    "\<forall>c. 0 < refs t c \<longrightarrow> block_of u c = block_of t c" using Cons.IH [OF t(2)] by blast
  then show ?case using e t by (auto simp del: fun_upd_apply)
qed

text \<open>The blocks nobody holds are then on the disk.\<close>

lemma edits_stored:
  assumes "inv s" and "idle_enough s" and "\<forall>(k, f) \<in> set es. good k \<and> (\<forall>xs. length xs = 1024 \<longrightarrow> length (f xs) = 1024)"
    and "foldE (\<lambda>(k, f). edit k f) es s = Inr t" and "\<And>b. 0 < refs s b \<Longrightarrow> block_of s b \<noteq> k"
  shows "stored t k = fold (\<lambda>(k, f) v. v(k := f (v k))) es (view s) k"
proof -
  have t: "inv t" "refs t = refs s" "view t = fold (\<lambda>(k, f) v. v(k := f (v k))) es (view s)"
    "\<forall>c. 0 < refs s c \<longrightarrow> block_of t c = block_of s c"
    using edits_ok [OF assms(1-3)] assms(4) by auto
  then show ?thesis using view_stored [OF t(1), of k] assms(5) by simp
qed

end

text \<open>The buffers in use all hold their blocks.\<close>

definition cache_sound :: "'a buf_state_scheme \<Rightarrow> bool" where
  "cache_sound s \<longleftrightarrow> cache_inv s \<and> (\<forall>b \<in> in_use s. b_valid (buffers s b))"

definition buf_refs :: "'a buf_state_scheme \<Rightarrow> u32 \<Rightarrow> nat" where
  "buf_refs s b = (if b \<in> allocated s then nat (b_count (buffers s b)) else 0)"

lemma buf_refs_in_use: "{b. 0 < buf_refs s b} = in_use s"
  by (auto simp: buf_refs_def in_use_def)

lemma sound_rel: "cache_sound s \<Longrightarrow> inj_on (key s) (allocated s)"
  by (auto simp: cache_sound_def cache_inv_def cache_rel_def)

interpretation bc: block_cache cache_sound "\<lambda>k. snd k < 2 ^ 31" blk disk_block key buf_refs MAX_BUFFERS
  "\<lambda>s b. b_data (buffers s b)" "\<lambda>k. bread (fst k) (snd k)" buf_put brelse
proof (unfold_locales, goal_cases)
  case (1 s k)
  have inv: "cache_inv s" using 1 by (simp add: cache_sound_def)
  have cnt: "b_count (buffers s b) < 2 ^ 31 - 1" if "b \<in> in_use s" for b
    using 1(4) [of b] that by (auto simp: buf_refs_def in_use_def)
  have "room s (fst k, snd k)" using 1(3) cnt by (auto simp: room_def buf_refs_in_use)
  then obtain b t where t: "bread (fst k) (snd k) s = Inr (b, t)" "bread_post s k b t"
    using bread_ok [OF inv _ 1(2), of "fst k"] by auto
  have p: "cache_inv t" "in_use t = insert b (in_use s)" "blk t = blk s" "key t b = k" "b_valid (buffers t b)"
    "b_data (buffers t b) = blk s k" "\<And>c. c \<in> in_use s \<Longrightarrow> c \<noteq> b \<Longrightarrow> buffers t c = buffers s c \<and> key t c = key s c"
    using t(2) by (auto simp: bread_post_def)
  have vs: "\<And>c. c \<in> in_use s \<Longrightarrow> b_valid (buffers s c)" using 1(1) by (simp add: cache_sound_def)
  have "b_valid (buffers t c)" if "c \<in> in_use s" for c using p(5,7) vs that by (cases "c = b") auto
  then have sound: "cache_sound t" using p by (auto simp: cache_sound_def)
  have cb: "b_count (buffers t b) = int (buf_refs s b) + 1"
    using t(2) vs [of b] inv by (auto simp: bread_post_def buf_refs_def in_use_def cache_inv_def split: if_splits dest: buffers_okD(6))
  have key_b: "key t b = key s b" if "b \<in> in_use s"
    using t(2) vs [OF that] that by (auto simp: bread_post_def key_def)
  have "buf_refs t c = ((buf_refs s)(b := buf_refs s b + 1)) c" for c
  proof (cases "c = b")
    case True
    have "b \<in> allocated t" using p(2) by (auto simp: in_use_def)
    then show ?thesis using True cb by (simp add: buf_refs_def)
  next
    case False
    show ?thesis
    proof (cases "c \<in> in_use s")
      case True
      then show ?thesis using False p(2,7) by (auto simp: buf_refs_def in_use_def)
    next
      case nu: False
      then have "c \<notin> in_use t" using p(2) False by simp
      then have "buf_refs t c = 0" "buf_refs s c = 0"
        using nu buf_refs_in_use [of t] buf_refs_in_use [of s] by auto
      then show ?thesis using False by simp
    qed
  qed
  moreover have "key t c = key s c" if "0 < buf_refs s c" for c
    using that p(7) key_b buf_refs_in_use [of s] by blast
  ultimately show ?case using t(1) p sound by blast
next
  case (2 s b xs)
  have h: "held s b" using 2(1,2) buf_refs_in_use [of s] by (auto simp: held_def cache_sound_def)
  have inv: "cache_inv s" using 2 by (simp add: cache_sound_def)
  note p = put_ok [OF inv h 2(3), of True, folded buf_put_def]
  have "buf_refs (buf_put b xs s) = buf_refs s"
    by (auto simp: fun_eq_iff buf_refs_def buf_put_def upd_buf_def allocated_def)
  moreover have "cache_sound (buf_put b xs s)"
    using p 2(1) by (auto simp: cache_sound_def buf_put_def upd_buf_def)
  ultimately show ?case using p by (simp add: buf_put_def upd_buf_def)
next
  case (3 s b)
  have h: "held s b" using 3(1,2) buf_refs_in_use [of s] by (auto simp: held_def cache_sound_def)
  have inv: "cache_inv s" using 3 by (simp add: cache_sound_def)
  have ba: "b \<in> allocated s" "buf_refs s b = nat (b_count (buffers s b))" using h by (auto simp: held_def in_use_def buf_refs_def)
  have bk: "blk s (key s b) = b_data (buffers s b)"
    using blk_cases(1) [OF sound_rel [OF 3(1)] ba(1)] h by (simp add: held_def)
  have dirty: "b_dirty (buffers s b)" if "buf_put b (b_data (buffers s b)) s = s"
  proof -
    have "buffers (buf_put b (b_data (buffers s b)) s) b = buffers s b" using that by simp
    then have "(buffers s b)\<lparr>b_data := b_data (buffers s b), b_dirty := True\<rparr> = buffers s b"
      by (simp add: buf_put_def upd_buf_def)
    then have "b_dirty ((buffers s b)\<lparr>b_data := b_data (buffers s b), b_dirty := True\<rparr>) = b_dirty (buffers s b)" by simp
    then show ?thesis by simp
  qed
  have sync: "b_dirty (buffers s b) \<or> b_data (buffers s b) = disk_block s (key s b) \<or> b_count (buffers s b) > 1"
    using 3(4) dirty bk ba(2) by auto
  have "b_count (buffers s b) < 2 ^ 31" using 3(3) ba(2) by simp
  then obtain t where t: "brelse b s = Inr t" "brelse_post s b t" using brelse_ok [OF inv h _ sync] by blast
  have q: "cache_inv t" "blk t = blk s" "key t = key s"
    "in_use t = (if b_count (buffers s b) = 1 then in_use s - {b} else in_use s)"
    "\<And>x. buffers t x = (if x = b then (buffers s b)\<lparr>b_dirty := False, b_count := b_count (buffers s b) - 1\<rparr> else buffers s x)"
    using t(2) by (auto simp: brelse_post_def)
  have "cache_sound t" using q 3(1) by (auto simp: cache_sound_def split: if_splits)
  moreover have "buf_refs t c = ((buf_refs s)(b := buf_refs s b - 1)) c" for c
  proof (cases "c \<in> in_use t")
    case True
    then have "c \<in> in_use s" using q(4) by (auto split: if_splits)
    then show ?thesis using True q(5) by (auto simp: buf_refs_def in_use_def)
  next
    case False
    then have z: "buf_refs t c = 0" using buf_refs_in_use [of t] by auto
    show ?thesis
    proof (cases "c = b")
      case True
      then have "b_count (buffers s b) = 1" using False q(4) h by (auto simp: held_def split: if_splits)
      then show ?thesis using z True ba(2) by simp
    next
      case ne: False
      then have "c \<notin> in_use s" using False q(4) by (auto split: if_splits)
      then have "buf_refs s c = 0" using buf_refs_in_use [of s] by auto
      then show ?thesis using z ne by simp
    qed
  qed
  ultimately show ?case using t(1) q(2,3) by blast
next
  case (4 b xs ys s)
  show ?case by (simp add: buf_put_def upd_buf_def)
next
  case (5 s k)
  then obtain H F where ok: "buffers_ok s" and rel: "cache_rel s H F" by (auto simp: cache_sound_def cache_inv_def)
  note i = cache_relD(4) [OF rel]
  show ?case
  proof (cases "\<exists>b \<in> allocated s. key s b = k \<and> b_valid (buffers s b)")
    case True
    then show ?thesis using blk_cases(1) [OF i] buffers_okD(8) [OF ok] by metis
  next
    case False
    have "blk s k = disk_block s k" using False by (intro blk_cases(2) [OF i]) blast
    then show ?thesis using length_disk_block [OF ok 5(2)] by simp
  qed
next
  case (6 s k)
  then obtain H F where ok: "buffers_ok s" and rel: "cache_rel s H F" by (auto simp: cache_sound_def cache_inv_def)
  note i = cache_relD(4) [OF rel]
  show ?case
  proof (cases "\<exists>b \<in> allocated s. key s b = k \<and> b_valid (buffers s b)")
    case True
    then obtain b where b: "b \<in> allocated s" "key s b = k" "b_valid (buffers s b)" by blast
    then have "\<not> 0 < buf_refs s b" using 6(2) by blast
    then have "b_count (buffers s b) = 0" using b(1) buffers_okD(6) [OF ok b(1)] by (simp add: buf_refs_def)
    then show ?thesis using blk_cases(1) [OF i b(1,3)] buffers_okD(12) [OF ok b(1)] b by simp
  next
    case False
    then show ?thesis by (intro blk_cases(2) [OF i]) blast
  qed
qed

section \<open>The start, and a waiting task\<close>

lemma init_chains:
  fixes h :: "(nat, 'a) heap"
  assumes "store_rel h Map.empty" and "n \<le> 31"
  shows "store_rel (fold list_init [0..<n] h) (\<lambda>l. if l < n then Some [] else None)"
  using assms(2)
proof (induction n)
  case 0
  then show ?case using assms(1) by simp
next
  case (Suc n)
  have "store_rel (list_init n (fold list_init [0..<n] h)) ((\<lambda>l. if l < n then Some [] else None)(n \<mapsto> []))"
    by (rule store_rel_init) (use Suc in auto)
  also have "(\<lambda>l. if l < n then Some [] else None)(n \<mapsto> []) = (\<lambda>l. if l < Suc n then Some ([] :: 'a list) else None)"
    by (auto simp: fun_eq_iff)
  finally have "store_rel (list_init n (fold list_init [0..<n] h)) (\<lambda>l. if l < Suc n then Some [] else None)" .
  then show ?case by simp
qed

text \<open>\<open>buffer_init\<close>, on the cleared static data, makes an empty cache.\<close>

lemma buffer_init_sound:
  assumes "store_rel (hnodes s) Map.empty" and "store_rel (rnodes s) Map.empty" and "buffer_count s = 0"
    and "buffer_ptr s = KERNEL_BUFFER_MEM" and "buffer_data s = KERNEL_BUFFER_MEM + KERNEL_BUFFER_SIZE - BLOCK_SIZE"
    and "\<forall>d i. length (disk s d i) = 512"
  shows "cache_sound (buffer_init s)" "in_use (buffer_init s) = {}" "disk (buffer_init s) = disk s"
proof -
  define t where "t = buffer_init s"
  have f: "hnodes t = fold list_init [0..<31] (hnodes s)" "rnodes t = list_init () (rnodes s)"
    "nodes t = list_init (Waiters (wait_list s)) (nodes s)" "buffer_count t = 0" "buffer_ptr t = KERNEL_BUFFER_MEM"
    "buffer_data t = KERNEL_BUFFER_MEM + KERNEL_BUFFER_SIZE - BLOCK_SIZE" "disk t = disk s" "wait_list t = wait_list s"
    using assms by (simp_all add: t_def buffer_init_def HASH_COUNT_def Let_def)
  have a: "allocated t = {}" by (simp add: allocated_def f)
  have "store_rel (rnodes t) (Map.empty(() \<mapsto> []))" unfolding f by (rule store_rel_init [OF assms(2)]) simp
  also have "Map.empty(() \<mapsto> []) = (\<lambda>_. Some ([] :: u32 list))" by auto
  finally have r: "store_rel (rnodes t) (\<lambda>_. Some [])" .
  have "store_rel (hnodes t) (\<lambda>l. if l < 31 then Some [] else None)" unfolding f by (rule init_chains [OF assms(1)]) simp
  then have "cache_rel t (\<lambda>_. []) []" using r by (simp add: cache_rel_def a)
  moreover have "buffers_ok t"
    by (simp add: buffers_ok_def a f assms(6) buf_at_def list_empty_init BLOCK_SIZE_def)
  ultimately show "cache_sound (buffer_init s)" by (auto simp: cache_sound_def cache_inv_def t_def in_use_def a [unfolded t_def])
  show "in_use (buffer_init s) = {}" using a by (simp add: in_use_def t_def)
  show "disk (buffer_init s) = disk s" using f(7) by (simp add: t_def)
qed

text \<open>Releasing the last use of a buffer while a task waits for one fails: \<^verbatim>\<open>list_popback\<close> takes the
  task off the list, and \<^verbatim>\<open>task_unblock\<close>, which takes it off again, fails its assertion.\<close>

lemma brelse_with_waiter:
  assumes "b_count (buffers s b) = 1" and "\<not> b_dirty (buffers s b)" and "store_rel (rnodes s) (\<lambda>_. Some F)" and "b \<notin> set F"
    and "store_rel (nodes s) c" and "c (Waiters (wait_list s)) = Some (ps @ [p])"
  shows "brelse b s = Inl Assertion"
proof -
  define u where "u = upd_buf b (\<lambda>t. t\<lparr>b_count := 0\<rparr>) s"
  have u: "rnodes u = rnodes s" "nodes u = nodes s" "wait_list u = wait_list s" "b_count (buffers u b) = 0"
    by (simp_all add: u_def upd_buf_def)
  have un: "unlinked (\<lambda>_ :: unit. Some F) b" using assms(4) by (simp add: unlinked_def)
  have det: "node_next (rnodes u (Node b)) = None" "node_prev (rnodes u (Node b)) = None"
    using store_rel_detached [OF assms(3) un] u by (simp_all add: detached_def)
  obtain h where h: "list_push () (Node b) (rnodes u) = Inr h" using il.rel_push [OF assms(3) _ un] u by auto
  obtain g where g: "list_popback (\<lambda>node. node) (Waiters (wait_list s)) (nodes s) = Inr (Node p, g)"
    "store_rel g (c(Waiters (wait_list s) \<mapsto> ps))"
    using store_rel_popback [OF assms(5,6), where ret = "\<lambda>node. node"] by auto
  have "unlinked (c(Waiters (wait_list s) \<mapsto> ps)) p"
    using il.remove_unlinks [OF assms(5), of "Waiters (wait_list s)" ps p "[]"] assms(6) by simp
  then have "list_remove (Node p) g = Inl Assertion" by (rule store_rel_remove_unlinked [OF g(2)])
  then have "task_unblock p (u\<lparr>rnodes := h, nodes := g\<rparr>) = Inl Assertion"
    by (auto simp: task_unblock_def kassert_def)
  moreover have "\<not> list_empty (Waiters (wait_list u)) (nodes u)" using store_rel_empty [OF assms(5,6)] u by simp
  moreover have "cint (b_count (buffers s b) - 1) = Inr 0" using assms(1) by (simp add: cint_def int_ok_def)
  ultimately show ?thesis
    using assms(2) det h g(1) u by (simp add: brelse_def Let_def u_def [symmetric])
qed

section \<open>Property\<close>

definition edit_block :: "u32 \<times> u32 \<Rightarrow> (u8 list \<Rightarrow> u8 list) \<Rightarrow> 'a buf_state_scheme \<Rightarrow> 'a buf_state_scheme res" where
  "edit_block k f s =
     bindE (bread (fst k) (snd k) s) (\<lambda>(b, s). brelse b (buf_put b (f (b_data (buffers s b))) s))"

lemma edit_block_eq: "bc.edit = edit_block"
  by (simp add: fun_eq_iff bc.edit_def edit_block_def)

text \<open>C32. The cache cannot be seen: whatever blocks are read, changed and released, in whatever order and however often,
  as long as a buffer is free, every call succeeds, each block reads as the changes made to it one after
  the other, other blocks keep their contents, and the blocks nobody holds are on the disk as they read.
  Blocks that are evicted for others, reused buffers and dirty ones included. Block numbers are below
  \<open>2 ^ 31\<close>: from there on the sector number wraps around.\<close>

theorem cache_transparent:
  assumes "cache_sound s" and "card (in_use s) < MAX_BUFFERS" and "\<forall>b \<in> in_use s. b_count (buffers s b) < 2 ^ 31 - 1"
    and "\<forall>(k, f) \<in> set es. snd k < 2 ^ 31 \<and> (\<forall>xs. length xs = 1024 \<longrightarrow> length (f xs) = 1024)"
  shows "\<exists>t. foldE (\<lambda>(k, f). edit_block k f) es s = Inr t \<and> cache_sound t \<and> in_use t = in_use s
    \<and> blk t = fold (\<lambda>(k, f) v. v(k := f (v k))) es (blk s)
    \<and> (\<forall>k. (\<forall>b \<in> in_use s. key s b \<noteq> k) \<longrightarrow> disk_block t k = fold (\<lambda>(k, f) v. v(k := f (v k))) es (blk s) k)"
proof -
  have cnt: "buf_refs s b < 2 ^ 31 - 1" for b
    using assms(3) by (cases "b \<in> in_use s") (auto simp: buf_refs_def in_use_def)
  then have idle: "bc.idle_enough s" using assms(2) by (simp add: bc.idle_enough_def buf_refs_in_use)
  obtain t where t: "foldE (\<lambda>(k, f). edit_block k f) es s = Inr t" "cache_sound t" "buf_refs t = buf_refs s"
    "blk t = fold (\<lambda>(k, f) v. v(k := f (v k))) es (blk s)"
    using bc.edits_ok [OF assms(1) idle assms(4)] unfolding edit_block_eq by blast
  have "in_use t = in_use s" using t(3) buf_refs_in_use [of t] buf_refs_in_use [of s] by simp
  moreover have "disk_block t k = fold (\<lambda>(k, f) v. v(k := f (v k))) es (blk s) k" if "\<forall>b \<in> in_use s. key s b \<noteq> k" for k
  proof (rule bc.edits_stored [OF assms(1) idle assms(4), unfolded edit_block_eq, OF t(1)])
    fix b
    assume "0 < buf_refs s b"
    then show "key s b \<noteq> k" using that buf_refs_in_use [of s] by blast
  qed
  ultimately show ?thesis using t by blast
qed

definition example_cache :: buf_state where
  "example_cache = kernel_t.extend example_sched
     \<lparr>mutex_value = \<lambda>_. False, lock_holder = \<lambda>_. None, lock_repeat = \<lambda>_. 0,
      buffers = \<lambda>_. \<lparr>b_data = [], b_dev = 0, b_block = 0, b_count = 0, b_dirty = False, b_valid = False\<rparr>,
      hnodes = \<lambda>_. \<lparr>node_prev = None, node_next = None\<rparr>, rnodes = \<lambda>_. \<lparr>node_prev = None, node_next = None\<rparr>,
      buffer_count = 0, buffer_ptr = KERNEL_BUFFER_MEM, buffer_data = KERNEL_BUFFER_MEM + KERNEL_BUFFER_SIZE - BLOCK_SIZE,
      wait_list = 0, disk = \<lambda>_ _. replicate 512 0\<rparr>"

theorem cache_transparent_witness:
  "\<exists>t. foldE (\<lambda>(k, f). edit_block k f) [((3, 5), \<lambda>xs. xs[0 := 7]), ((3, 6), \<lambda>xs. xs[1 := 8]), ((3, 5), \<lambda>xs. xs[2 := 9])]
       (buffer_init example_cache) = Inr t
    \<and> disk_block t (3, 5) = [7, 0, 9] @ replicate 1021 0"
proof -
  have e: "hnodes example_cache = (\<lambda>_. \<lparr>node_prev = None, node_next = None\<rparr>)"
    "rnodes example_cache = (\<lambda>_. \<lparr>node_prev = None, node_next = None\<rparr>)" "buffer_count example_cache = 0"
    "buffer_ptr example_cache = KERNEL_BUFFER_MEM"
    "buffer_data example_cache = KERNEL_BUFFER_MEM + KERNEL_BUFFER_SIZE - BLOCK_SIZE"
    "disk example_cache = (\<lambda>_ _. replicate 512 0)"
    by (simp_all add: example_cache_def kernel_t.defs)
  let ?s = "buffer_init example_cache"
  have "cache_sound ?s" "in_use ?s = {}" "disk ?s = (\<lambda>_ _. replicate 512 0)"
    using buffer_init_sound [of example_cache, unfolded e, OF store_rel_empty_store store_rel_empty_store] by simp_all
  note i = this
  have d: "disk_block ?s (3, 5) = replicate 1024 0"
    by (simp add: disk_block_two i(3) replicate_add [symmetric])
  have b: "blk ?s (3, 5) = replicate 1024 0"
    using bc.view_stored [OF i(1), of "(3, 5)"] buf_refs_in_use [of ?s] i(2) d by auto
  have r: "(replicate 1024 0)[0 := 7, 2 := 9] = [7, 0, 9] @ replicate 1021 (0 :: u8)"
    by (simp add: list_eq_iff_nth_eq nth_append nth_Cons nth_list_update split: nat.splits)
  show ?thesis
    using cache_transparent [of ?s "[((3, 5), \<lambda>xs. xs[0 := 7]), ((3, 6), \<lambda>xs. xs[1 := 8]), ((3, 5), \<lambda>xs. xs[2 := 9])]"]
      i(1,2) b r by (auto simp: MAX_BUFFERS_def)
qed

end
