(* ===== verification/Super.thy ===== *)
theory Super
  imports Buffer
begin

text \<open>
  The data of the file system (\<^verbatim>\<open>include/onix/fs.h\<close>) and its super blocks (\<^verbatim>\<open>fs/super.c\<close>).

  The descriptors of super block, inodes and directory entries are not copied: the code reads and writes them
  where they lie in a buffer, little endian. So does the model: a field is \<open>get16\<close> or \<open>get32\<close> of the
  buffer's bytes at the offset the structure gives it. An inode, an open file and a super block are named by
  their index in their table; a buffer by its address.
\<close>

section \<open>Fields in a block\<close>

definition get16 :: "u8 list \<Rightarrow> nat \<Rightarrow> u16" where
  "get16 xs i = ucast (xs ! i) OR push_bit 8 (ucast (xs ! (i + 1)))"

definition put16 :: "nat \<Rightarrow> u16 \<Rightarrow> u8 list \<Rightarrow> u8 list" where
  "put16 i v xs = xs[i := ucast v, i + 1 := ucast (drop_bit 8 v)]"

definition get32 :: "u8 list \<Rightarrow> nat \<Rightarrow> u32" where
  "get32 xs i = ucast (get16 xs i) OR push_bit 16 (ucast (get16 xs (i + 2)))"

definition put32 :: "nat \<Rightarrow> u32 \<Rightarrow> u8 list \<Rightarrow> u8 list" where
  "put32 i v xs = put16 (i + 2) (ucast (drop_bit 16 v)) (put16 i (ucast v) xs)"

definition put8 :: "nat \<Rightarrow> u8 \<Rightarrow> u8 list \<Rightarrow> u8 list" where
  "put8 i v xs = xs[i := v]"

section \<open>Data\<close>

definition MINIX1_MAGIC :: u16 where "MINIX1_MAGIC = 0x137F"
definition NAME_LEN :: nat where "NAME_LEN = 14"
definition IMAP_NR :: nat where "IMAP_NR = 8"
definition ZMAP_NR :: nat where "ZMAP_NR = 8"
definition BLOCK_BITS :: u32 where "BLOCK_BITS = BLOCK_SIZE * 8"
definition INODE_BYTES :: nat where "INODE_BYTES = 32"
definition DENTRY_BYTES :: nat where "DENTRY_BYTES = 16"
definition BLOCK_INODES :: u32 where "BLOCK_INODES = BLOCK_SIZE div of_nat INODE_BYTES"
definition BLOCK_DENTRIES :: u32 where "BLOCK_DENTRIES = BLOCK_SIZE div of_nat DENTRY_BYTES"
definition BLOCK_INDEXES :: u32 where "BLOCK_INDEXES = BLOCK_SIZE div 2"
definition DIRECT_BLOCK :: u32 where "DIRECT_BLOCK = 7"
definition INDIRECT1_BLOCK :: u32 where "INDIRECT1_BLOCK = BLOCK_INDEXES"
definition INDIRECT2_BLOCK :: u32 where "INDIRECT2_BLOCK = INDIRECT1_BLOCK * INDIRECT1_BLOCK"
definition TOTAL_BLOCK :: u32 where "TOTAL_BLOCK = DIRECT_BLOCK + INDIRECT1_BLOCK + INDIRECT2_BLOCK"
definition SUPER_NR :: nat where "SUPER_NR = 16"
definition INODE_NR :: nat where "INODE_NR = 64"
definition FILE_NR :: nat where "FILE_NR = 128"

text \<open>\<open>i_off\<close> is where in the buffer's block the descriptor \<^verbatim>\<open>desc\<close> points.\<close>

record inode_t =
  i_buf :: u32
  i_off :: nat
  i_dev :: u32
  i_nr :: u32
  i_count :: u32
  i_atime :: u32
  i_ctime :: u32

text \<open>The descriptor of a super block is the start of the block in \<open>s_buf\<close>.\<close>

record super_block_t =
  s_buf :: "u32 option"
  s_imaps :: "u32 option list"
  s_zmaps :: "u32 option list"
  s_dev :: u32
  s_iroot :: "u32 option"
  s_imount :: "u32 option"

record file_t =
  f_inode :: "u32 option"
  f_count :: u32
  f_offset :: u32
  f_flags :: u32
  f_mode :: u32

text \<open>\<open>inode_nodes\<close> are the lists of inodes of the super blocks, \<open>pwd_page\<close> the pages that hold the
  working directories' names, \<open>startup\<close> the clock's \<^verbatim>\<open>startup_time\<close>.\<close>

record fs_state = buf_state +
  super_table :: "super_block_t list"
  root :: "nat option"
  inode_table :: "u32 \<Rightarrow> inode_t"
  inode_nodes :: "(nat, u32) heap"
  file_table :: "u32 \<Rightarrow> file_t"
  pwd_page :: "u32 \<Rightarrow> u8 list"
  startup :: u32

definition time :: "'a fs_state_scheme \<Rightarrow> u32" where
  "time s = sys_time (startup s) s"

text \<open>The bytes of a buffer, a store into them and the mark that it differs from the disk.\<close>

definition bdata :: "u32 \<Rightarrow> 'a buf_state_scheme \<Rightarrow> u8 list" where
  "bdata b s = b_data (buffers s b)"

definition bstore :: "u32 \<Rightarrow> (u8 list \<Rightarrow> u8 list) \<Rightarrow> 'a buf_state_scheme \<Rightarrow> 'a buf_state_scheme" where
  "bstore b f s = upd_buf b (\<lambda>t. t\<lparr>b_data := f (b_data t)\<rparr>) s"

definition bdirty :: "u32 \<Rightarrow> 'a buf_state_scheme \<Rightarrow> 'a buf_state_scheme" where
  "bdirty b s = upd_buf b (\<lambda>t. t\<lparr>b_dirty := True\<rparr>) s"

text \<open>\<open>brelse\<close> of a pointer that may be null.\<close>

definition brelse_ptr :: "u32 option \<Rightarrow> 'a buf_state_scheme \<Rightarrow> 'a buf_state_scheme res" where
  "brelse_ptr p s = (case p of None \<Rightarrow> Inr s | Some b \<Rightarrow> brelse b s)"

definition upd_inode :: "u32 \<Rightarrow> (inode_t \<Rightarrow> inode_t) \<Rightarrow> 'a fs_state_scheme \<Rightarrow> 'a fs_state_scheme" where
  "upd_inode i f s = s\<lparr>inode_table := (inode_table s)(i := f (inode_table s i))\<rparr>"

definition upd_super :: "nat \<Rightarrow> (super_block_t \<Rightarrow> super_block_t) \<Rightarrow> 'a fs_state_scheme \<Rightarrow> 'a fs_state_scheme" where
  "upd_super i f s = s\<lparr>super_table := (super_table s)[i := f (super_table s ! i)]\<rparr>"

text \<open>The fields of a super block's descriptor.\<close>

definition super_field :: "nat \<Rightarrow> nat \<Rightarrow> 'a fs_state_scheme \<Rightarrow> u16 res" where
  "super_field field sb s =
     (case s_buf (super_table s ! sb) of None \<Rightarrow> Inl NullDeref | Some b \<Rightarrow> Inr (get16 (bdata b s) field))"

abbreviation "sd_inodes \<equiv> super_field 0"
abbreviation "sd_zones \<equiv> super_field 2"
abbreviation "sd_imap_blocks \<equiv> super_field 4"
abbreviation "sd_zmap_blocks \<equiv> super_field 6"
abbreviation "sd_firstdatazone \<equiv> super_field 8"
abbreviation "sd_magic \<equiv> super_field 16"

section \<open>super.c\<close>

definition get_free_super :: "'a fs_state_scheme \<Rightarrow> nat res" where
  "get_free_super s =
     (case find (\<lambda>i. s_dev (super_table s ! i) = EOF) [0..<SUPER_NR] of
        Some i \<Rightarrow> Inr i | None \<Rightarrow> Inl (Panic ''no more super block!!!''))"

definition get_super :: "u32 \<Rightarrow> 'a fs_state_scheme \<Rightarrow> nat option" where
  "get_super dev s = find (\<lambda>i. s_dev (super_table s ! i) = dev) [0..<SUPER_NR]"

text \<open>One of the two loops that read the bitmaps; \<open>bread\<close> never returns a null pointer.\<close>

fun read_maps :: "nat \<Rightarrow> nat \<Rightarrow> nat \<Rightarrow> (nat \<Rightarrow> u32 \<Rightarrow> 'a fs_state_scheme \<Rightarrow> 'a fs_state_scheme) \<Rightarrow> u32 \<Rightarrow> u32
    \<Rightarrow> 'a fs_state_scheme \<Rightarrow> (u32 \<times> 'a fs_state_scheme) res" where
  "read_maps i 0 nr set_map dev idx s = Inr (idx, s)"
| "read_maps i (Suc n) nr set_map dev idx s =
     kassert (i < nr) (
     bindE (bread dev idx s) (\<lambda>(b, s). read_maps (Suc i) n nr set_map dev (idx + 1) (set_map i b s)))"

definition read_super :: "u32 \<Rightarrow> 'a fs_state_scheme \<Rightarrow> (nat \<times> 'a fs_state_scheme) res" where
  "read_super dev s =
     (case get_super dev s of
        Some sb \<Rightarrow> Inr (sb, s)
      | None \<Rightarrow>
          bindE (get_free_super s) (\<lambda>sb.
          bindE (bread dev 1 s) (\<lambda>(b, s).
          let s = upd_super sb (\<lambda>t. t\<lparr>s_buf := Some b, s_dev := dev\<rparr>) s in
          bindE (sd_magic sb s) (\<lambda>magic.
          kassert (magic = MINIX1_MAGIC) (
          let s = upd_super sb (\<lambda>t. t\<lparr>s_imaps := replicate IMAP_NR None, s_zmaps := replicate ZMAP_NR None\<rparr>) s in
          bindE (sd_imap_blocks sb s) (\<lambda>ni.
          bindE (read_maps 0 (unat ni) IMAP_NR (\<lambda>i b. upd_super sb (\<lambda>t. t\<lparr>s_imaps := (s_imaps t)[i := Some b]\<rparr>)) dev 2 s)
            (\<lambda>(idx, s).
          bindE (sd_zmap_blocks sb s) (\<lambda>nz.
          bindE (read_maps 0 (unat nz) ZMAP_NR (\<lambda>i b. upd_super sb (\<lambda>t. t\<lparr>s_zmaps := (s_zmaps t)[i := Some b]\<rparr>)) dev idx s)
            (\<lambda>(idx, s). Inr (sb, s))))))))))"

end
