(* ===== verification/Bmap.thy ===== *)
theory Bmap
  imports Super
begin

text \<open>
  Allocation of blocks and inodes in the bitmaps of a file system, and the index of a file's blocks
  (\<^verbatim>\<open>fs/bmap.c\<close>).
\<close>

section \<open>The operations\<close>

text \<open>A scan for one free bit of the map that starts at the buffer's first byte, with the change made in the buffer.\<close>

definition scan_buffer :: "u32 \<Rightarrow> u32 \<Rightarrow> u32 \<Rightarrow> 'a fs_state_scheme \<Rightarrow> (u32 \<times> 'a fs_state_scheme) res" where
  "scan_buffer b len start s =
     bindE (bitmap_scan (bitmap_make (bdata b s) len start) 1) (\<lambda>(bit, m).
     Inr (bit, bstore b (\<lambda>_. bm_bits m) s))"

text \<open>\<open>balloc\<close>: the loop over the maps; the last buffer looked at comes with the result.\<close>

fun balloc_loop :: "nat list \<Rightarrow> nat \<Rightarrow> u32 option \<Rightarrow> 'a fs_state_scheme \<Rightarrow> (u32 \<times> u32 option \<times> 'a fs_state_scheme) res" where
  "balloc_loop [] sb buf s = Inr (EOF, buf, s)"
| "balloc_loop (i # is) sb buf s =
     (case s_zmaps (super_table s ! sb) ! i of
        None \<Rightarrow> Inl Assertion
      | Some b \<Rightarrow>
          bindE (sd_firstdatazone sb s) (\<lambda>first.
          bindE (scan_buffer b BLOCK_SIZE (of_nat i * BLOCK_SIZE + ucast first - 1) s) (\<lambda>(bit, s).
          if bit \<noteq> EOF then
            bindE (sd_zones sb s) (\<lambda>zones.
            kassert (bit < ucast zones) (
            Inr (bit, Some b, bdirty b s)))
          else balloc_loop is sb (Some b) s)))"

definition bwrite_ptr :: "u32 option \<Rightarrow> 'a buf_state_scheme \<Rightarrow> 'a buf_state_scheme res" where
  "bwrite_ptr p s = (case p of None \<Rightarrow> Inl Assertion | Some b \<Rightarrow> Inr (bwrite b s))"

definition balloc :: "u32 \<Rightarrow> 'a fs_state_scheme \<Rightarrow> (u32 \<times> 'a fs_state_scheme) res" where
  "balloc dev s =
     (case get_super dev s of
        None \<Rightarrow> Inl Assertion
      | Some sb \<Rightarrow>
          bindE (balloc_loop [0..<ZMAP_NR] sb None s) (\<lambda>(bit, buf, s).
          bindE (bwrite_ptr buf s) (\<lambda>s. Inr (bit, s))))"

text \<open>The bit \<open>idx\<close> of a map is tested and cleared.\<close>

definition clear_buffer :: "u32 \<Rightarrow> u32 \<Rightarrow> u32 \<Rightarrow> u32 \<Rightarrow> 'a fs_state_scheme \<Rightarrow> 'a fs_state_scheme res" where
  "clear_buffer b len start idx s =
     (let m = bitmap_make (bdata b s) len start in
      bindE (bitmap_test m idx) (\<lambda>used.
      kassert used (
      bindE (bitmap_set m idx False) (\<lambda>m. Inr (bdirty b (bstore b (\<lambda>_. bm_bits m) s))))))"

text \<open>The map a number falls in; when the loop runs out, \<^verbatim>\<open>buf\<close> is uninitialised.\<close>

definition map_index :: "u32 \<Rightarrow> nat \<Rightarrow> nat res" where
  "map_index idx nr =
     (case find (\<lambda>i. \<not> idx > BLOCK_BITS * (of_nat i + 1)) [0..<nr] of Some i \<Rightarrow> Inr i | None \<Rightarrow> Inl Undefined)"

definition bfree :: "u32 \<Rightarrow> u32 \<Rightarrow> 'a fs_state_scheme \<Rightarrow> 'a fs_state_scheme res" where
  "bfree dev idx s =
     (case get_super dev s of
        None \<Rightarrow> Inl Assertion
      | Some sb \<Rightarrow>
          bindE (sd_zones sb s) (\<lambda>zones.
          kassert (idx < ucast zones) (
          bindE (map_index idx ZMAP_NR) (\<lambda>i.
          case s_zmaps (super_table s ! sb) ! i of
            None \<Rightarrow> Inl Assertion
          | Some b \<Rightarrow>
              bindE (sd_firstdatazone sb s) (\<lambda>first.
              bindE (clear_buffer b BLOCK_SIZE (BLOCK_BITS * of_nat i + ucast first - 1) idx s) (\<lambda>s.
              Inr (bwrite b s)))))))"

text \<open>The maps of inodes are given a length of \<open>BLOCK_BITS\<close> bytes, eight times that of the buffer.\<close>

fun ialloc_loop :: "nat list \<Rightarrow> nat \<Rightarrow> u32 option \<Rightarrow> 'a fs_state_scheme \<Rightarrow> (u32 \<times> u32 option \<times> 'a fs_state_scheme) res" where
  "ialloc_loop [] sb buf s = Inr (EOF, buf, s)"
| "ialloc_loop (i # is) sb buf s =
     (case s_imaps (super_table s ! sb) ! i of
        None \<Rightarrow> Inl Assertion
      | Some b \<Rightarrow>
          bindE (scan_buffer b BLOCK_BITS (of_nat i * BLOCK_BITS) s) (\<lambda>(bit, s).
          if bit \<noteq> EOF then
            bindE (sd_inodes sb s) (\<lambda>inodes.
            kassert (bit < ucast inodes) (
            Inr (bit, Some b, bdirty b s)))
          else ialloc_loop is sb (Some b) s))"

definition ialloc :: "u32 \<Rightarrow> 'a fs_state_scheme \<Rightarrow> (u32 \<times> 'a fs_state_scheme) res" where
  "ialloc dev s =
     (case get_super dev s of
        None \<Rightarrow> Inl Assertion
      | Some sb \<Rightarrow>
          bindE (ialloc_loop [0..<IMAP_NR] sb None s) (\<lambda>(bit, buf, s).
          bindE (bwrite_ptr buf s) (\<lambda>s. Inr (bit, s))))"

definition ifree :: "u32 \<Rightarrow> u32 \<Rightarrow> 'a fs_state_scheme \<Rightarrow> 'a fs_state_scheme res" where
  "ifree dev idx s =
     (case get_super dev s of
        None \<Rightarrow> Inl Assertion
      | Some sb \<Rightarrow>
          bindE (sd_inodes sb s) (\<lambda>inodes.
          kassert (idx < ucast inodes) (
          bindE (map_index idx IMAP_NR) (\<lambda>i.
          case s_imaps (super_table s ! sb) ! i of
            None \<Rightarrow> Inl Assertion
          | Some b \<Rightarrow>
              bindE (clear_buffer b BLOCK_BITS (of_nat i * BLOCK_BITS) idx s) (\<lambda>s.
              Inr (bwrite b s))))))"

text \<open>The fields of an inode's descriptor; \<open>ZONE\<close> is where its array of block numbers starts.\<close>

definition ZONE :: nat where "ZONE = 14"

definition d_mode :: "u32 \<Rightarrow> 'a fs_state_scheme \<Rightarrow> u16" where
  "d_mode i s = get16 (bdata (i_buf (inode_table s i)) s) (i_off (inode_table s i))"

definition d_uid :: "u32 \<Rightarrow> 'a fs_state_scheme \<Rightarrow> u16" where
  "d_uid i s = get16 (bdata (i_buf (inode_table s i)) s) (i_off (inode_table s i) + 2)"

definition d_size :: "u32 \<Rightarrow> 'a fs_state_scheme \<Rightarrow> u32" where
  "d_size i s = get32 (bdata (i_buf (inode_table s i)) s) (i_off (inode_table s i) + 4)"

definition d_mtime :: "u32 \<Rightarrow> 'a fs_state_scheme \<Rightarrow> u32" where
  "d_mtime i s = get32 (bdata (i_buf (inode_table s i)) s) (i_off (inode_table s i) + 8)"

definition d_gid :: "u32 \<Rightarrow> 'a fs_state_scheme \<Rightarrow> u8" where
  "d_gid i s = bdata (i_buf (inode_table s i)) s ! (i_off (inode_table s i) + 12)"

definition d_nlinks :: "u32 \<Rightarrow> 'a fs_state_scheme \<Rightarrow> u8" where
  "d_nlinks i s = bdata (i_buf (inode_table s i)) s ! (i_off (inode_table s i) + 13)"

definition d_zone :: "u32 \<Rightarrow> nat \<Rightarrow> 'a fs_state_scheme \<Rightarrow> u16" where
  "d_zone i k s = get16 (bdata (i_buf (inode_table s i)) s) (i_off (inode_table s i) + ZONE + 2 * k)"

text \<open>A store into the descriptor of an inode, \<open>f\<close> of the place of the field.\<close>

definition set_desc :: "u32 \<Rightarrow> nat \<Rightarrow> (nat \<Rightarrow> u8 list \<Rightarrow> u8 list) \<Rightarrow> 'a fs_state_scheme \<Rightarrow> 'a fs_state_scheme" where
  "set_desc i field f s = bstore (i_buf (inode_table s i)) (f (i_off (inode_table s i) + field)) s"

abbreviation "set_mode i v \<equiv> set_desc i 0 (\<lambda>p. put16 p v)"
abbreviation "set_uid i v \<equiv> set_desc i 2 (\<lambda>p. put16 p v)"
abbreviation "set_size i v \<equiv> set_desc i 4 (\<lambda>p. put32 p v)"
abbreviation "set_mtime i v \<equiv> set_desc i 8 (\<lambda>p. put32 p v)"
abbreviation "set_gid i v \<equiv> set_desc i 12 (\<lambda>p. put8 p v)"
abbreviation "set_nlinks i v \<equiv> set_desc i 13 (\<lambda>p. put8 p v)"
abbreviation "set_zone i k v \<equiv> set_desc i (ZONE + 2 * k) (\<lambda>p. put16 p v)"

definition inode_dirty :: "u32 \<Rightarrow> 'a fs_state_scheme \<Rightarrow> 'a fs_state_scheme" where
  "inode_dirty i s = bdirty (i_buf (inode_table s i)) s"

text \<open>One level of \<open>bmap\<close>: the entry \<open>index\<close> of the array of block numbers at offset \<open>base\<close> of buffer \<open>b\<close>.\<close>

definition bmap_slot :: "u32 \<Rightarrow> u32 \<Rightarrow> nat \<Rightarrow> nat \<Rightarrow> bool \<Rightarrow> 'a fs_state_scheme \<Rightarrow> 'a fs_state_scheme res" where
  "bmap_slot dev b base index create s =
     (if get16 (bdata b s) (base + 2 * index) = 0 \<and> create then
        bindE (balloc dev s) (\<lambda>(z, s). Inr (bdirty b (bstore b (put16 (base + 2 * index) (ucast z)) s)))
      else Inr s)"

fun bmap_loop :: "nat \<Rightarrow> u32 \<Rightarrow> u32 \<Rightarrow> nat \<Rightarrow> nat \<Rightarrow> u32 \<Rightarrow> u32 \<Rightarrow> bool \<Rightarrow> 'a fs_state_scheme
    \<Rightarrow> (u32 \<times> 'a fs_state_scheme) res" where
  "bmap_loop level dev b base index block divider create s =
     bindE (bmap_slot dev b base index create s) (\<lambda>s.
     bindE (brelse b s) (\<lambda>s.
     let z = get16 (bdata b s) (base + 2 * index) in
     if level = 0 \<or> z = 0 then Inr (ucast z, s)
     else
       bindE (bread dev (ucast z) s) (\<lambda>(b, s).
       bmap_loop (level - 1) dev b 0 (unat (block div divider)) (block mod divider) (divider div BLOCK_INDEXES) create s)))"

text \<open>Level, entry of the inode's array, block number within that level and divider.\<close>

definition bmap_level :: "u32 \<Rightarrow> nat \<times> nat \<times> u32 \<times> u32" where
  "bmap_level block =
     (if block < DIRECT_BLOCK then (0, unat block, block, 1)
      else
        let block = block - DIRECT_BLOCK in
        if block < INDIRECT1_BLOCK then (1, unat DIRECT_BLOCK, block, 1)
        else (2, unat (DIRECT_BLOCK + 1), block - INDIRECT1_BLOCK, BLOCK_INDEXES))"

definition bmap :: "u32 \<Rightarrow> u32 \<Rightarrow> bool \<Rightarrow> 'a fs_state_scheme \<Rightarrow> (u32 \<times> 'a fs_state_scheme) res" where
  "bmap inode block create s =
     kassert (block < TOTAL_BLOCK) (
     let t = inode_table s inode; b = i_buf t in
     bindE (cint (b_count (buffers s b) + 1)) (\<lambda>n.
     let s = upd_buf b (\<lambda>t. t\<lparr>b_count := n\<rparr>) s in
     case bmap_level block of (level, index, block, divider) \<Rightarrow>
       bmap_loop level (i_dev t) b (i_off t + ZONE) index block divider create s))"

end
