(* ===== verification/Inode.thy ===== *)
theory Inode
  imports Bmap "HOL-Library.Signed_Division"
begin

text \<open>
  The inodes in use and their contents (\<^verbatim>\<open>fs/inode.c\<close>): getting and putting inodes, reading, writing
  and truncating a file, and the mount of the root file system (\<^verbatim>\<open>mount_root\<close> of \<^verbatim>\<open>fs/super.c\<close>).
\<close>

section \<open>The table of inodes\<close>

definition get_free_inode :: "'a fs_state_scheme \<Rightarrow> u32 res" where
  "get_free_inode s =
     (case find (\<lambda>i. i_dev (inode_table s (of_nat i)) = EOF) [0..<INODE_NR] of
        Some i \<Rightarrow> Inr (of_nat i) | None \<Rightarrow> Inl (Panic ''no more inode!!!''))"

definition put_free_inode :: "u32 \<Rightarrow> 'a fs_state_scheme \<Rightarrow> 'a fs_state_scheme res" where
  "put_free_inode i s =
     kassert (i \<noteq> 0) (
     kassert (i_count (inode_table s i) = 0) (
     Inr (upd_inode i (\<lambda>t. t\<lparr>i_dev := EOF\<rparr>) s)))"

definition get_root_inode :: u32 where "get_root_inode = 0"

definition inode_block :: "nat \<Rightarrow> u32 \<Rightarrow> 'a fs_state_scheme \<Rightarrow> u32 res" where
  "inode_block sb nr s =
     bindE (sd_imap_blocks sb s) (\<lambda>ni. bindE (sd_zmap_blocks sb s) (\<lambda>nz.
     Inr (2 + ucast ni + ucast nz + (nr - 1) div BLOCK_INODES)))"

partial_function (option) inode_walk ::
  "'a fs_state_scheme \<Rightarrow> nat \<Rightarrow> u32 \<Rightarrow> (nat, u32) addr option \<Rightarrow> u32 option res option" where
  "inode_walk s sb nr node =
     (if node = Some (Tail sb) then Some (Inr None)
      else (case node of
              None \<Rightarrow> Some (Inl NullDeref)
            | Some a \<Rightarrow>
                (case a of
                   Node i \<Rightarrow>
                     if i_nr (inode_table s i) = nr then Some (Inr (Some i))
                     else inode_walk s sb nr (node_next (inode_nodes s a))
                 | _ \<Rightarrow> Some (Inl OutOfBounds))))"

declare inode_walk.simps [code]

definition find_inode :: "u32 \<Rightarrow> u32 \<Rightarrow> 'a fs_state_scheme \<Rightarrow> u32 option res" where
  "find_inode dev nr s =
     (case get_super dev s of
        None \<Rightarrow> Inl Assertion
      | Some sb \<Rightarrow> returns (inode_walk s sb nr (node_next (inode_nodes s (Head sb)))))"

definition iget :: "u32 \<Rightarrow> u32 \<Rightarrow> 'a fs_state_scheme \<Rightarrow> (u32 \<times> 'a fs_state_scheme) res" where
  "iget dev nr s =
     bindE (find_inode dev nr s) (\<lambda>found.
     case found of
       Some i \<Rightarrow> Inr (i, upd_inode i (\<lambda>t. t\<lparr>i_count := i_count t + 1, i_atime := time s\<rparr>) s)
     | None \<Rightarrow>
         (case get_super dev s of
            None \<Rightarrow> Inl Assertion
          | Some sb \<Rightarrow>
              bindE (sd_inodes sb s) (\<lambda>inodes.
              kassert (nr \<le> ucast inodes) (
              bindE (get_free_inode s) (\<lambda>i.
              let s = upd_inode i (\<lambda>t. t\<lparr>i_dev := dev, i_nr := nr, i_count := i_count t + 1\<rparr>) s in
              bindE (list_push sb (Node i) (inode_nodes s)) (\<lambda>h.
              let s = s\<lparr>inode_nodes := h\<rparr> in
              bindE (inode_block sb nr s) (\<lambda>block.
              bindE (bread dev block s) (\<lambda>(b, s).
              let s = upd_inode i (\<lambda>t. t\<lparr>i_buf := b, i_off := unat ((nr - 1) mod BLOCK_INODES) * INODE_BYTES\<rparr>) s;
                  s = upd_inode i (\<lambda>t. t\<lparr>i_ctime := d_mtime i s, i_atime := time s\<rparr>) s
              in Inr (i, s)))))))))"

text \<open>\<open>iput\<close> of a pointer that may be null, and of an inode.\<close>

definition iput_inode :: "u32 \<Rightarrow> 'a fs_state_scheme \<Rightarrow> 'a fs_state_scheme res" where
  "iput_inode i s =
     (let s = (if b_dirty (buffers s (i_buf (inode_table s i))) then bwrite (i_buf (inode_table s i)) s else s);
          s = upd_inode i (\<lambda>t. t\<lparr>i_count := i_count t - 1\<rparr>) s
      in if i_count (inode_table s i) \<noteq> 0 then Inr s
         else
           bindE (brelse (i_buf (inode_table s i)) s) (\<lambda>s.
           bindE (list_remove (Node i) (inode_nodes s)) (\<lambda>h.
           put_free_inode i (s\<lparr>inode_nodes := h\<rparr>))))"

definition iput :: "u32 option \<Rightarrow> 'a fs_state_scheme \<Rightarrow> 'a fs_state_scheme res" where
  "iput p s = (case p of None \<Rightarrow> Inr s | Some i \<Rightarrow> iput_inode i s)"

definition inode_init :: "'a fs_state_scheme \<Rightarrow> 'a fs_state_scheme" where
  "inode_init s = fold (\<lambda>i. upd_inode (of_nat i) (\<lambda>t. t\<lparr>i_dev := EOF\<rparr>)) [0..<INODE_NR] s"

section \<open>The root file system\<close>

text \<open>\<open>part\<close> is the device \<^verbatim>\<open>device_find\<close> has found.\<close>

definition mount_root :: "u32 option \<Rightarrow> 'a fs_state_scheme \<Rightarrow> 'a fs_state_scheme res" where
  "mount_root part s =
     (case part of
        None \<Rightarrow> Inl Assertion
      | Some dev \<Rightarrow>
          bindE (read_super dev s) (\<lambda>(sb, s).
          let s = s\<lparr>root := Some sb\<rparr> in
          bindE (iget dev 1 s) (\<lambda>(i, s).
          let s = upd_super sb (\<lambda>t. t\<lparr>s_iroot := Some i\<rparr>) s in
          bindE (iget dev 1 s) (\<lambda>(i, s).
          Inr (upd_super sb (\<lambda>t. t\<lparr>s_imount := Some i\<rparr>) s)))))"

definition super_init :: "u32 option \<Rightarrow> 'a fs_state_scheme \<Rightarrow> 'a fs_state_scheme res" where
  "super_init part s =
     mount_root part
       (fold (\<lambda>i s. (upd_super i (\<lambda>t. t\<lparr>s_dev := EOF, s_buf := None, s_iroot := None, s_imount := None\<rparr>) s)
                \<lparr>inode_nodes := list_init i (inode_nodes s)\<rparr>) [0..<SUPER_NR] s)"

section \<open>Reading and writing a file\<close>

definition IFMT :: u16 where "IFMT = 0xF000"
definition IFREG :: u16 where "IFREG = 0x8000"
definition IFDIR :: u16 where "IFDIR = 0x4000"
definition ISFILE :: "u16 \<Rightarrow> bool" where "ISFILE m \<longleftrightarrow> m AND IFMT = IFREG"
definition ISDIR :: "u16 \<Rightarrow> bool" where "ISDIR m \<longleftrightarrow> m AND IFMT = IFDIR"

text \<open>\<open>off_t\<close> is a signed integer: \<open>offset / BLOCK_SIZE\<close> and \<open>offset % BLOCK_SIZE\<close> round toward zero.\<close>

definition off_block :: "u32 \<Rightarrow> u32" where "off_block offset = word_of_int (sint offset sdiv 1024)"
definition off_start :: "u32 \<Rightarrow> u32" where "off_start offset = word_of_int (sint offset smod 1024)"

text \<open>A copy into \<open>xs\<close> from position \<open>i\<close> on.\<close>

definition copy_at :: "nat \<Rightarrow> u8 list \<Rightarrow> u32 \<Rightarrow> u8 list \<Rightarrow> u8 list res" where
  "copy_at i ys n xs = bindE (memcpy (drop i xs) ys n) (\<lambda>zs. Inr (take i xs @ zs))"

text \<open>The loop of \<open>inode_read\<close>; \<open>pos\<close> is how far the pointer into the caller's buffer \<open>ubuf\<close> has moved.\<close>

partial_function (option) read_loop ::
  "u32 \<Rightarrow> u32 \<Rightarrow> u32 \<Rightarrow> nat \<Rightarrow> u8 list \<Rightarrow> 'a fs_state_scheme \<Rightarrow> (u32 \<times> u8 list \<times> 'a fs_state_scheme) res option" where
  "read_loop inode left offset pos ubuf s =
     (if left = 0 then Some (Inr (offset, ubuf, s))
      else
        bindO (bmap inode (off_block offset) False s) (\<lambda>(nr, s).
        if nr = 0 then Some (Inl Assertion)
        else
          bindO (bread (i_dev (inode_table s inode)) nr s) (\<lambda>(b, s).
          let start = off_start offset; chars = min (BLOCK_SIZE - start) left in
          bindO (copy_at pos (drop (unat start) (bdata b s)) chars ubuf) (\<lambda>ubuf.
          bindO (brelse b s) (\<lambda>s.
          read_loop inode (left - chars) (offset + chars) (pos + unat chars) ubuf s)))))"

declare read_loop.simps [code]

definition inode_read :: "u32 \<Rightarrow> u8 list \<Rightarrow> u32 \<Rightarrow> u32 \<Rightarrow> 'a fs_state_scheme
    \<Rightarrow> (u32 \<times> u8 list \<times> 'a fs_state_scheme) res" where
  "inode_read inode ubuf len offset s =
     kassert (ISFILE (d_mode inode s) \<or> ISDIR (d_mode inode s)) (
     if offset \<ge> d_size inode s then Inr (EOF, ubuf, s)
     else
       bindE (returns (read_loop inode (min len (d_size inode s - offset)) offset 0 ubuf s)) (\<lambda>(last, ubuf, s).
       Inr (last - offset, ubuf, upd_inode inode (\<lambda>t. t\<lparr>i_atime := time s\<rparr>) s)))"

partial_function (option) write_loop ::
  "u32 \<Rightarrow> u8 list \<Rightarrow> u32 \<Rightarrow> u32 \<Rightarrow> nat \<Rightarrow> 'a fs_state_scheme \<Rightarrow> (u32 \<times> 'a fs_state_scheme) res option" where
  "write_loop inode ubuf left offset pos s =
     (if left = 0 then Some (Inr (offset, s))
      else
        bindO (bmap inode (off_block offset) True s) (\<lambda>(nr, s).
        if nr = 0 then Some (Inl Assertion)
        else
          bindO (bread (i_dev (inode_table s inode)) nr s) (\<lambda>(b, s).
          let s = bdirty b s;
              start = off_start offset; chars = min (BLOCK_SIZE - start) left;
              offset = offset + chars;
              s = (if offset > d_size inode s then inode_dirty inode (set_size inode offset s) else s) in
          bindO (copy_at (unat start) (drop pos ubuf) chars (bdata b s)) (\<lambda>xs.
          bindO (brelse b (bstore b (\<lambda>_. xs) s)) (\<lambda>s.
          write_loop inode ubuf (left - chars) offset (pos + unat chars) s)))))"

declare write_loop.simps [code]

definition inode_write :: "u32 \<Rightarrow> u8 list \<Rightarrow> u32 \<Rightarrow> u32 \<Rightarrow> 'a fs_state_scheme \<Rightarrow> (u32 \<times> 'a fs_state_scheme) res" where
  "inode_write inode ubuf len offset s =
     kassert (d_mode inode s \<noteq> 0) (
     bindE (returns (write_loop inode ubuf len offset 0 s)) (\<lambda>(last, s).
     let s = upd_inode inode (\<lambda>t. t\<lparr>i_atime := time s\<rparr>) s;
         s = set_mtime inode (time s) s
     in Inr (last - offset, bwrite (i_buf (inode_table s inode)) s)))"

section \<open>Truncation\<close>

text \<open>\<open>b\<close> and \<open>base\<close> are where the array of block numbers lies.\<close>

fun inode_bfree :: "u32 \<Rightarrow> u32 \<Rightarrow> nat \<Rightarrow> nat \<Rightarrow> nat \<Rightarrow> 'a fs_state_scheme \<Rightarrow> 'a fs_state_scheme res" where
  "inode_bfree inode b base index 0 s =
     (let z = get16 (bdata b s) (base + 2 * index) in
      if z = 0 then Inr s else bfree (i_dev (inode_table s inode)) (ucast z) s)"
| "inode_bfree inode b base index (Suc level) s =
     (let z = get16 (bdata b s) (base + 2 * index) in
      if z = 0 then Inr s
      else
        bindE (bread (i_dev (inode_table s inode)) (ucast z) s) (\<lambda>(c, s).
        bindE (foldE (\<lambda>i. inode_bfree inode c 0 i level) [0..<unat BLOCK_INDEXES] s) (\<lambda>s.
        bindE (brelse c s) (\<lambda>s.
        bfree (i_dev (inode_table s inode)) (ucast (get16 (bdata b s) (base + 2 * index))) s))))"

definition free_zone :: "u32 \<Rightarrow> nat \<Rightarrow> nat \<Rightarrow> 'a fs_state_scheme \<Rightarrow> 'a fs_state_scheme res" where
  "free_zone inode level k s =
     bindE (inode_bfree inode (i_buf (inode_table s inode)) (i_off (inode_table s inode) + ZONE) k level s) (\<lambda>s.
     Inr (set_zone inode k 0 s))"

definition inode_truncate :: "u32 \<Rightarrow> 'a fs_state_scheme \<Rightarrow> 'a fs_state_scheme res" where
  "inode_truncate inode s =
     (if \<not> ISFILE (d_mode inode s) \<and> \<not> ISDIR (d_mode inode s) then Inr s
      else
        bindE (foldE (free_zone inode 0) [0..<unat DIRECT_BLOCK] s) (\<lambda>s.
        bindE (free_zone inode 1 (unat DIRECT_BLOCK) s) (\<lambda>s.
        bindE (free_zone inode 2 (unat DIRECT_BLOCK + 1) s) (\<lambda>s.
        let s = set_size inode 0 s;
            s = inode_dirty inode s;
            s = set_mtime inode (time s) s
        in Inr (bwrite (i_buf (inode_table s inode)) s)))))"

end
