(* ===== verification/Namei.thy ===== *)
theory Namei
  imports Inode
begin

text \<open>
  Paths and directories (\<^verbatim>\<open>fs/namei.c\<close>): rights, directory entries, the walk along a path, and the
  system calls that make and remove names.

  A string is the list of bytes from its pointer on; \<^verbatim>\<open>left\<close>, \<^verbatim>\<open>right\<close> and \<^verbatim>\<open>next\<close> are positions in
  the path. A directory entry is a buffer and the offset of the entry in it.
\<close>

section \<open>Rights\<close>

definition P_EXEC :: u16 where "P_EXEC = 1"
definition P_READ :: u16 where "P_READ = 4"
definition P_WRITE :: u16 where "P_WRITE = 2"

definition permission :: "u32 \<Rightarrow> u16 \<Rightarrow> 'a fs_state_scheme \<Rightarrow> bool" where
  "permission inode rights s =
     (let t = tasks s (running_task s) in
      if d_nlinks inode s = 0 then False
      else if t_uid t = KERNEL_USER then True
      else
        let mode = d_mode inode s;
            mode = (if t_uid t = ucast (d_uid inode s) then drop_bit 6 mode
                    else if t_gid t = ucast (d_gid inode s) then drop_bit 3 mode
                    else mode)
        in mode AND rights AND 7 = rights)"

section \<open>Names\<close>

definition IS_SEPARATOR :: "u8 \<Rightarrow> bool" where "IS_SEPARATOR c \<longleftrightarrow> c = 0x2f \<or> c = 0x5c"

fun strsep :: "u8 list \<Rightarrow> nat option res" where
  "strsep [] = Inl OutOfBounds"
| "strsep (c # cs) =
     (if IS_SEPARATOR c then Inr (Some 0)
      else if c = 0 then Inr None
      else bindE (strsep cs) (\<lambda>p. Inr (map_option Suc p)))"

fun strrsep_loop :: "u8 list \<Rightarrow> nat \<Rightarrow> nat option \<Rightarrow> nat option res" where
  "strrsep_loop [] i latest = Inl OutOfBounds"
| "strrsep_loop (c # cs) i latest =
     (let latest = (if IS_SEPARATOR c then Some i else latest) in
      if c = 0 then Inr latest else strrsep_loop cs (Suc i) latest)"

definition strrsep :: "u8 list \<Rightarrow> nat option res" where
  "strrsep str = strrsep_loop str 0 None"

text \<open>The position in \<open>name\<close> of what follows the component, when it equals the entry's name.\<close>

fun match_name :: "u8 list \<Rightarrow> u8 list \<Rightarrow> nat option res" where
  "match_name (l # ls) (r # rs) =
     (if l = r \<and> l \<noteq> 0 \<and> r \<noteq> 0 then bindE (match_name ls rs) (\<lambda>p. Inr (map_option Suc p))
      else if r \<noteq> 0 then Inr None
      else if l \<noteq> 0 \<and> \<not> IS_SEPARATOR l then Inr None
      else Inr (Some (if IS_SEPARATOR l then 1 else 0)))"
| "match_name _ _ = Inl OutOfBounds"

section \<open>Directory entries\<close>

text \<open>The step that the three loops over a directory share: the block of entry \<open>i\<close> is read when the entry
  is the first one or lies behind the end of the last block.\<close>

definition load_entry :: "u32 \<Rightarrow> u32 \<Rightarrow> bool \<Rightarrow> u32 option \<Rightarrow> nat \<Rightarrow> 'a fs_state_scheme
    \<Rightarrow> (u32 \<times> nat \<times> 'a fs_state_scheme) res" where
  "load_entry parent i create buf pos s =
     (case buf of
        Some b \<Rightarrow>
          if pos \<ge> unat BLOCK_SIZE then
            bindE (brelse b s) (\<lambda>s.
            bindE (bmap parent (i div BLOCK_DENTRIES) create s) (\<lambda>(block, s).
            kassert (block \<noteq> 0) (
            bindE (bread (i_dev (inode_table s parent)) block s) (\<lambda>(b, s). Inr (b, 0, s)))))
          else Inr (b, pos, s)
      | None \<Rightarrow>
          bindE (bmap parent (i div BLOCK_DENTRIES) create s) (\<lambda>(block, s).
          kassert (block \<noteq> 0) (
          bindE (bread (i_dev (inode_table s parent)) block s) (\<lambda>(b, s). Inr (b, 0, s)))))"

definition entry_nr :: "u32 \<Rightarrow> nat \<Rightarrow> 'a fs_state_scheme \<Rightarrow> u16" where
  "entry_nr b pos s = get16 (bdata b s) pos"

definition set_entry_nr :: "u32 \<Rightarrow> nat \<Rightarrow> u16 \<Rightarrow> 'a fs_state_scheme \<Rightarrow> 'a fs_state_scheme" where
  "set_entry_nr b pos v s = bstore b (put16 pos v) s"

text \<open>The loop of \<open>find_entry\<close>, with the number of entries left. The name of an entry is the memory from its
  first byte on: one of 14 bytes has no end of its own.\<close>

fun find_loop :: "nat \<Rightarrow> u32 \<Rightarrow> u32 option \<Rightarrow> nat \<Rightarrow> u32 \<Rightarrow> u8 list \<Rightarrow> 'a fs_state_scheme
    \<Rightarrow> ((u32 \<times> nat \<times> nat) option \<times> 'a fs_state_scheme) res" where
  "find_loop 0 i buf pos parent name s = bindE (brelse_ptr buf s) (\<lambda>s. Inr (None, s))"
| "find_loop (Suc n) i buf pos parent name s =
     bindE (load_entry parent i False buf pos s) (\<lambda>(b, pos, s).
     bindE (match_name name (drop (pos + 2) (bdata b s))) (\<lambda>m.
     case m of
       Some k \<Rightarrow> Inr (Some (b, pos, k), s)
     | None \<Rightarrow> find_loop n (i + 1) (Some b) (pos + DENTRY_BYTES) parent name s))"

definition find_entry :: "u32 \<Rightarrow> u8 list \<Rightarrow> 'a fs_state_scheme \<Rightarrow> ((u32 \<times> nat \<times> nat) option \<times> 'a fs_state_scheme) res" where
  "find_entry parent name s =
     kassert (ISDIR (d_mode parent s)) (
     find_loop (unat (d_size parent s div of_nat DENTRY_BYTES)) 0 None 0 parent name s)"

text \<open>No separator among the first 14 characters of a name.\<close>

fun name_check :: "nat \<Rightarrow> u8 list \<Rightarrow> unit res" where
  "name_check 0 cs = Inr ()"
| "name_check (Suc n) [] = Inl OutOfBounds"
| "name_check (Suc n) (c # cs) =
     (if c = 0 then Inr () else kassert (\<not> IS_SEPARATOR c) (name_check n cs))"

partial_function (option) add_loop ::
  "u32 \<Rightarrow> u32 option \<Rightarrow> nat \<Rightarrow> u32 \<Rightarrow> u8 list \<Rightarrow> 'a fs_state_scheme \<Rightarrow> (u32 \<times> nat \<times> 'a fs_state_scheme) res option" where
  "add_loop i buf pos parent name s =
     bindO (load_entry parent i True buf pos s) (\<lambda>(b, pos, s).
     let s = (if i * of_nat DENTRY_BYTES \<ge> d_size parent s then
                inode_dirty parent (set_size parent ((i + 1) * of_nat DENTRY_BYTES) (set_entry_nr b pos 0 s))
              else s) in
     if entry_nr b pos s \<noteq> 0 then add_loop (i + 1) (Some b) (pos + DENTRY_BYTES) parent name s
     else
       bindO (strncpy (drop (pos + 2) (bdata b s)) name (of_nat NAME_LEN)) (\<lambda>xs.
       let s = bdirty b (bstore b (\<lambda>d. take (pos + 2) d @ xs) s);
           s = inode_dirty parent (set_mtime parent (time s) s)
       in Some (Inr (b, pos, s))))"

declare add_loop.simps [code]

definition add_entry :: "u32 \<Rightarrow> u8 list \<Rightarrow> 'a fs_state_scheme \<Rightarrow> (u32 \<times> nat \<times> 'a fs_state_scheme) res" where
  "add_entry parent name s =
     bindE (find_entry parent name s) (\<lambda>(found, s).
     case found of
       Some (b, pos, k) \<Rightarrow> Inr (b, pos, s)
     | None \<Rightarrow>
         bindE (name_check NAME_LEN name) (\<lambda>u.
         returns (add_loop 0 None 0 parent name s)))"

section \<open>Paths\<close>

text \<open>The walk: the inode reached, with a use of its own, and the position of the last component.\<close>

partial_function (option) named_walk ::
  "u8 list \<Rightarrow> nat \<Rightarrow> u32 \<Rightarrow> u32 option \<Rightarrow> nat \<Rightarrow> 'a fs_state_scheme
    \<Rightarrow> ((u32 \<times> nat) option \<times> 'a fs_state_scheme) res option" where
  "named_walk path right inode buf left s =
     bindO (brelse_ptr buf s) (\<lambda>s.
     bindO (find_entry inode (drop left path) s) (\<lambda>(found, s).
     case found of
       None \<Rightarrow> bindO (iput (Some inode) s) (\<lambda>s. Some (Inr (None, s)))
     | Some (b, pos, k) \<Rightarrow>
         let dev = i_dev (inode_table s inode) in
         bindO (iput (Some inode) s) (\<lambda>s.
         bindO (iget dev (ucast (entry_nr b pos s)) s) (\<lambda>(inode, s).
         if \<not> ISDIR (d_mode inode s) \<or> \<not> permission inode P_EXEC s then
           bindO (brelse b s) (\<lambda>s. bindO (iput (Some inode) s) (\<lambda>s. Some (Inr (None, s))))
         else if right = left + k then bindO (brelse b s) (\<lambda>s. Some (Inr (Some (inode, left + k), s)))
         else named_walk path right inode (Some b) (left + k) s))))"

declare named_walk.simps [code]

definition named :: "u8 list \<Rightarrow> 'a fs_state_scheme \<Rightarrow> ((u32 \<times> nat) option \<times> 'a fs_state_scheme) res" where
  "named path s =
     bindE (rd path 0) (\<lambda>c.
     let t = tasks s (running_task s) in
     if \<not> IS_SEPARATOR c \<and> c = 0 then Inr (None, s)
     else
       (case (if IS_SEPARATOR c then t_iroot t else t_ipwd t) of
          None \<Rightarrow> Inl NullDeref
        | Some inode \<Rightarrow>
            let left = (if IS_SEPARATOR c then 1 else 0);
                s = upd_inode inode (\<lambda>t. t\<lparr>i_count := i_count t + 1\<rparr>) s in
            bindE (rd path left) (\<lambda>d.
            if d = 0 then Inr (Some (inode, left), s)
            else
              bindE (strrsep (drop left path)) (\<lambda>right.
              case right of
                None \<Rightarrow> Inr (Some (inode, left), s)
              | Some r \<Rightarrow> returns (named_walk path (left + r + 1) inode None left s)))))"

definition namei :: "u8 list \<Rightarrow> 'a fs_state_scheme \<Rightarrow> (u32 option \<times> 'a fs_state_scheme) res" where
  "namei path s =
     bindE (named path s) (\<lambda>(r, s).
     case r of
       None \<Rightarrow> Inr (None, s)
     | Some (parent, nxt) \<Rightarrow>
         bindE (rd path nxt) (\<lambda>c.
         if c = 0 then Inr (Some parent, s)
         else
           bindE (find_entry parent (drop nxt path) s) (\<lambda>(found, s).
           case found of
             None \<Rightarrow> bindE (iput (Some parent) s) (\<lambda>s. Inr (None, s))
           | Some (b, pos, k) \<Rightarrow>
               bindE (iget (i_dev (inode_table s parent)) (ucast (entry_nr b pos s)) s) (\<lambda>(inode, s).
               bindE (iput (Some parent) s) (\<lambda>s.
               bindE (brelse b s) (\<lambda>s. Inr (Some inode, s)))))))"

section \<open>Making and removing names\<close>

definition O_RDONLY :: u32 where "O_RDONLY = 0"
definition O_WRONLY :: u32 where "O_WRONLY = 1"
definition O_RDWR :: u32 where "O_RDWR = 2"
definition O_ACCMODE :: u32 where "O_ACCMODE = 3"
definition O_CREAT :: u32 where "O_CREAT = 64"
definition O_TRUNC :: u32 where "O_TRUNC = 512"
definition O_APPEND :: u32 where "O_APPEND = 1024"
definition ISVTX :: u16 where "ISVTX = 512"

definition dot_name :: "u8 list" where "dot_name = [0x2e, 0]"
definition dotdot_name :: "u8 list" where "dotdot_name = [0x2e, 0x2e, 0]"

text \<open>An entry's name and number are written.\<close>

definition put_dentry :: "u32 \<Rightarrow> nat \<Rightarrow> u8 list \<Rightarrow> u16 \<Rightarrow> 'a fs_state_scheme \<Rightarrow> 'a fs_state_scheme res" where
  "put_dentry b pos name nr s =
     bindE (strcpy (drop (pos + 2) (bdata b s)) name) (\<lambda>xs.
     Inr (set_entry_nr b pos nr (bstore b (\<lambda>d. take (pos + 2) d @ xs) s)))"

definition give_up :: "u32 option \<Rightarrow> u32 option \<Rightarrow> 'a fs_state_scheme \<Rightarrow> (u32 \<times> 'a fs_state_scheme) res" where
  "give_up ebuf parent s = bindE (brelse_ptr ebuf s) (\<lambda>s. bindE (iput parent s) (\<lambda>s. Inr (EOF, s)))"

definition make_dir :: "u32 \<Rightarrow> u8 list \<Rightarrow> u32 \<Rightarrow> 'a fs_state_scheme \<Rightarrow> (u32 \<times> 'a fs_state_scheme) res" where
  "make_dir parent name mode s =
     bindE (add_entry parent name s) (\<lambda>(e, pos, s).
     let s = bdirty e s in
     bindE (ialloc (i_dev (inode_table s parent)) s) (\<lambda>(nr, s).
     let s = set_entry_nr e pos (ucast nr) s; t = tasks s (running_task s) in
     bindE (iget (i_dev (inode_table s parent)) (ucast (entry_nr e pos s)) s) (\<lambda>(inode, s).
     let s = inode_dirty inode s;
         s = set_gid inode (ucast (t_gid t)) s;
         s = set_uid inode (ucast (t_uid t)) s;
         s = set_mode inode (ucast mode AND 0x1FF AND NOT (t_umask t) OR IFDIR) s;
         s = set_size inode (of_nat DENTRY_BYTES * 2) s;
         s = set_mtime inode (time s) s;
         s = set_nlinks inode 2 s;
         s = inode_dirty parent s;
         s = set_nlinks parent (d_nlinks parent s + 1) s in
     bindE (bmap inode 0 True s) (\<lambda>(block, s).
     bindE (bread (i_dev (inode_table s inode)) block s) (\<lambda>(z, s).
     let s = bdirty z s in
     bindE (put_dentry z 0 dot_name (ucast (i_nr (inode_table s inode))) s) (\<lambda>s.
     bindE (put_dentry z DENTRY_BYTES dotdot_name (ucast (i_nr (inode_table s parent))) s) (\<lambda>s.
     bindE (iput (Some inode) s) (\<lambda>s.
     bindE (iput (Some parent) s) (\<lambda>s.
     bindE (brelse e s) (\<lambda>s.
     bindE (brelse z s) (\<lambda>s. Inr (0, s))))))))))))"

definition sys_mkdir :: "u8 list \<Rightarrow> u32 \<Rightarrow> 'a fs_state_scheme \<Rightarrow> (u32 \<times> 'a fs_state_scheme) res" where
  "sys_mkdir path mode s =
     bindE (named path s) (\<lambda>(r, s).
     case r of
       None \<Rightarrow> give_up None None s
     | Some (parent, nxt) \<Rightarrow>
         bindE (rd path nxt) (\<lambda>c.
         if c = 0 then give_up None (Some parent) s
         else if \<not> permission parent P_WRITE s then give_up None (Some parent) s
         else
           bindE (find_entry parent (drop nxt path) s) (\<lambda>(found, s).
           case found of
             Some (b, pos, k) \<Rightarrow> give_up (Some b) (Some parent) s
           | None \<Rightarrow> make_dir parent (drop nxt path) mode s)))"

text \<open>\<open>is_empty\<close>: the number of entries in use is counted; \<^verbatim>\<open>.\<close> and \<^verbatim>\<open>..\<close> make two.\<close>

fun count_loop :: "nat \<Rightarrow> u32 \<Rightarrow> u32 option \<Rightarrow> nat \<Rightarrow> u32 \<Rightarrow> nat \<Rightarrow> 'a fs_state_scheme \<Rightarrow> (nat \<times> 'a fs_state_scheme) res" where
  "count_loop 0 i buf pos parent count s = bindE (brelse_ptr buf s) (\<lambda>s. Inr (count, s))"
| "count_loop (Suc n) i buf pos parent count s =
     bindE (load_entry parent i False buf pos s) (\<lambda>(b, pos, s).
     count_loop n (i + 1) (Some b) (pos + DENTRY_BYTES) parent
       (if entry_nr b pos s \<noteq> 0 then count + 1 else count) s)"

definition is_empty :: "u32 \<Rightarrow> 'a fs_state_scheme \<Rightarrow> (bool \<times> 'a fs_state_scheme) res" where
  "is_empty inode s =
     kassert (ISDIR (d_mode inode s)) (
     let entries = unat (d_size inode s div of_nat DENTRY_BYTES) in
     if entries < 2 \<or> d_zone inode 0 s = 0 then Inr (False, s)
     else
       bindE (count_loop entries 0 None 0 inode 0 s) (\<lambda>(count, s).
       Inr (if count < 2 then False else count = 2, s)))"

text \<open>What \<open>sys_rmdir\<close> does once every check has passed.\<close>

definition remove_dir :: "u32 \<Rightarrow> u32 \<Rightarrow> u32 \<Rightarrow> nat \<Rightarrow> 'a fs_state_scheme \<Rightarrow> 'a fs_state_scheme res" where
  "remove_dir parent inode e pos s =
     kassert (d_nlinks inode s = 2) (
     bindE (inode_truncate inode s) (\<lambda>s.
     bindE (ifree (i_dev (inode_table s inode)) (i_nr (inode_table s inode)) s) (\<lambda>s.
     let s = set_nlinks inode 0 s;
         s = inode_dirty inode s;
         s = upd_inode inode (\<lambda>t. t\<lparr>i_nr := 0\<rparr>) s;
         s = set_nlinks parent (d_nlinks parent s - 1) s;
         s = set_mtime parent (time s) s;
         s = upd_inode parent (\<lambda>t. t\<lparr>i_ctime := time s, i_atime := time s\<rparr>) s;
         s = inode_dirty parent s in
     kassert (d_nlinks parent s > 0) (
     Inr (bdirty e (set_entry_nr e pos 0 s))))))"

text \<open>The end of \<open>sys_rmdir\<close>, with what it has to release.\<close>

definition rmdir_end :: "u32 \<Rightarrow> u32 option \<Rightarrow> u32 option \<Rightarrow> u32 option \<Rightarrow> 'a fs_state_scheme \<Rightarrow> (u32 \<times> 'a fs_state_scheme) res" where
  "rmdir_end ret inode parent ebuf s =
     bindE (iput inode s) (\<lambda>s. bindE (iput parent s) (\<lambda>s. bindE (brelse_ptr ebuf s) (\<lambda>s. Inr (ret, s))))"

definition sys_rmdir :: "u8 list \<Rightarrow> 'a fs_state_scheme \<Rightarrow> (u32 \<times> 'a fs_state_scheme) res" where
  "sys_rmdir path s =
     bindE (named path s) (\<lambda>(r, s).
     case r of
       None \<Rightarrow> rmdir_end EOF None None None s
     | Some (parent, nxt) \<Rightarrow>
         bindE (rd path nxt) (\<lambda>c.
         if c = 0 then rmdir_end EOF None (Some parent) None s
         else if \<not> permission parent P_WRITE s then rmdir_end EOF None (Some parent) None s
         else
           bindE (find_entry parent (drop nxt path) s) (\<lambda>(found, s).
           case found of
             None \<Rightarrow> rmdir_end EOF None (Some parent) None s
           | Some (e, pos, k) \<Rightarrow>
               bindE (iget (i_dev (inode_table s parent)) (ucast (entry_nr e pos s)) s) (\<lambda>(inode, s).
               let fail = rmdir_end EOF (Some inode) (Some parent) (Some e) in
               if inode = parent then fail s
               else if \<not> ISDIR (d_mode inode s) then fail s
               else if d_mode parent s AND ISVTX \<noteq> 0 \<and> t_uid (tasks s (running_task s)) \<noteq> ucast (d_uid inode s) then fail s
               else if i_dev (inode_table s parent) \<noteq> i_dev (inode_table s inode) \<or> i_count (inode_table s inode) > 1 then fail s
               else
                 bindE (is_empty inode s) (\<lambda>(empty, s).
                 if \<not> empty then fail s
                 else
                   bindE (remove_dir parent inode e pos s) (\<lambda>s.
                   rmdir_end 0 (Some inode) (Some parent) (Some e) s))))))"

text \<open>The end of \<open>sys_link\<close> and \<open>sys_unlink\<close>.\<close>

definition link_end :: "u32 \<Rightarrow> u32 option \<Rightarrow> u32 option \<Rightarrow> u32 option \<Rightarrow> 'a fs_state_scheme \<Rightarrow> (u32 \<times> 'a fs_state_scheme) res" where
  "link_end ret buf inode parent s =
     bindE (brelse_ptr buf s) (\<lambda>s. bindE (iput inode s) (\<lambda>s. bindE (iput parent s) (\<lambda>s. Inr (ret, s))))"

text \<open>The right to write is asked for and not heeded.\<close>

definition sys_link :: "u8 list \<Rightarrow> u8 list \<Rightarrow> 'a fs_state_scheme \<Rightarrow> (u32 \<times> 'a fs_state_scheme) res" where
  "sys_link oldname newname s =
     bindE (namei oldname s) (\<lambda>(old, s).
     case old of
       None \<Rightarrow> link_end EOF None None None s
     | Some inode \<Rightarrow>
         if ISDIR (d_mode inode s) then link_end EOF None (Some inode) None s
         else
           bindE (named newname s) (\<lambda>(r, s).
           case r of
             None \<Rightarrow> link_end EOF None (Some inode) None s
           | Some (parent, nxt) \<Rightarrow>
               bindE (rd newname nxt) (\<lambda>c.
               if c = 0 then link_end EOF None (Some inode) (Some parent) s
               else if i_dev (inode_table s parent) \<noteq> i_dev (inode_table s inode) then
                 link_end EOF None (Some inode) (Some parent) s
               else
                 bindE (find_entry parent (drop nxt newname) s) (\<lambda>(found, s).
                 case found of
                   Some (b, pos, k) \<Rightarrow> link_end EOF (Some b) (Some inode) (Some parent) s
                 | None \<Rightarrow>
                     bindE (add_entry parent (drop nxt newname) s) (\<lambda>(b, pos, s).
                     let s = bdirty b (set_entry_nr b pos (ucast (i_nr (inode_table s inode))) s);
                         s = set_nlinks inode (d_nlinks inode s + 1) s;
                         s = upd_inode inode (\<lambda>t. t\<lparr>i_ctime := time s\<rparr>) s;
                         s = inode_dirty inode s
                     in link_end 0 (Some b) (Some inode) (Some parent) s)))))"

definition sys_unlink :: "u8 list \<Rightarrow> 'a fs_state_scheme \<Rightarrow> (u32 \<times> 'a fs_state_scheme) res" where
  "sys_unlink path s =
     bindE (named path s) (\<lambda>(r, s).
     case r of
       None \<Rightarrow> link_end EOF None None None s
     | Some (parent, nxt) \<Rightarrow>
         bindE (rd path nxt) (\<lambda>c.
         if c = 0 then link_end EOF None None (Some parent) s
         else if \<not> permission parent P_WRITE s then link_end EOF None None (Some parent) s
         else
           bindE (find_entry parent (drop nxt path) s) (\<lambda>(found, s).
           case found of
             None \<Rightarrow> link_end EOF None None (Some parent) s
           | Some (b, pos, k) \<Rightarrow>
               bindE (iget (i_dev (inode_table s parent)) (ucast (entry_nr b pos s)) s) (\<lambda>(inode, s).
               if ISDIR (d_mode inode s) then link_end EOF (Some b) (Some inode) (Some parent) s
               else if d_mode inode s AND ISVTX \<noteq> 0 \<and> t_uid (tasks s (running_task s)) \<noteq> ucast (d_uid inode s) then
                 link_end EOF (Some b) (Some inode) (Some parent) s
               else
                 let s = bdirty b (set_entry_nr b pos 0 s);
                     s = inode_dirty inode (set_nlinks inode (d_nlinks inode s - 1) s) in
                 bindE (if d_nlinks inode s = 0 then
                          bindE (inode_truncate inode s) (\<lambda>s.
                          ifree (i_dev (inode_table s inode)) (i_nr (inode_table s inode)) s)
                        else Inr s) (\<lambda>s.
                 link_end 0 (Some b) (Some inode) (Some parent) s)))))"

text \<open>\<open>inode_open\<close>: its common end, and its failures.\<close>

definition open_fail :: "u32 option \<Rightarrow> u32 option \<Rightarrow> u32 option \<Rightarrow> 'a fs_state_scheme \<Rightarrow> (u32 option \<times> 'a fs_state_scheme) res" where
  "open_fail buf parent inode s =
     bindE (brelse_ptr buf s) (\<lambda>s. bindE (iput parent s) (\<lambda>s. bindE (iput inode s) (\<lambda>s. Inr (None, s))))"

definition open_makeup :: "u32 \<Rightarrow> u32 \<Rightarrow> u32 \<Rightarrow> u32 \<Rightarrow> 'a fs_state_scheme \<Rightarrow> (u32 option \<times> 'a fs_state_scheme) res" where
  "open_makeup flag b parent inode s =
     (if \<not> permission inode (ucast (flag AND O_ACCMODE)) s then open_fail (Some b) (Some parent) (Some inode) s
      else if ISDIR (d_mode inode s) \<and> flag AND O_ACCMODE \<noteq> O_RDONLY then open_fail (Some b) (Some parent) (Some inode) s
      else
        let s = upd_inode inode (\<lambda>t. t\<lparr>i_atime := time s\<rparr>) s in
        bindE (if flag AND O_TRUNC \<noteq> 0 then inode_truncate inode s else Inr s) (\<lambda>s.
        bindE (brelse b s) (\<lambda>s.
        bindE (iput (Some parent) s) (\<lambda>s. Inr (Some inode, s)))))"

definition open_create :: "u32 \<Rightarrow> u8 list \<Rightarrow> u32 \<Rightarrow> 'a fs_state_scheme \<Rightarrow> (u32 \<times> u32 \<times> 'a fs_state_scheme) res" where
  "open_create parent name mode s =
     bindE (add_entry parent name s) (\<lambda>(b, pos, s).
     bindE (ialloc (i_dev (inode_table s parent)) s) (\<lambda>(nr, s).
     let s = set_entry_nr b pos (ucast nr) s in
     bindE (iget (i_dev (inode_table s parent)) (ucast (entry_nr b pos s)) s) (\<lambda>(inode, s).
     let t = tasks s (running_task s);
         s = set_uid inode (ucast (t_uid t)) s;
         s = set_gid inode (ucast (t_gid t)) s;
         s = set_mode inode (ucast mode AND (0x1FF AND NOT (t_umask t)) OR IFREG) s;
         s = set_mtime inode (time s) s;
         s = set_size inode 0 s;
         s = set_nlinks inode 1 s;
         s = inode_dirty inode s
     in Inr (b, inode, s))))"

definition inode_open :: "u8 list \<Rightarrow> u32 \<Rightarrow> u32 \<Rightarrow> 'a fs_state_scheme \<Rightarrow> (u32 option \<times> 'a fs_state_scheme) res" where
  "inode_open path flag mode s =
     bindE (named path s) (\<lambda>(r, s).
     case r of
       None \<Rightarrow> open_fail None None None s
     | Some (parent, nxt) \<Rightarrow>
         bindE (rd path nxt) (\<lambda>c.
         if c = 0 then Inr (Some parent, s)
         else
           let flag = (if flag AND O_TRUNC \<noteq> 0 \<and> flag AND O_ACCMODE = O_RDONLY then flag OR O_RDWR else flag) in
           bindE (find_entry parent (drop nxt path) s) (\<lambda>(found, s).
           case found of
             Some (b, pos, k) \<Rightarrow>
               bindE (iget (i_dev (inode_table s parent)) (ucast (entry_nr b pos s)) s) (\<lambda>(inode, s).
               open_makeup flag b parent inode s)
           | None \<Rightarrow>
               if flag AND O_CREAT = 0 then open_fail None (Some parent) None s
               else if \<not> permission parent P_WRITE s then open_fail None (Some parent) None s
               else
                 bindE (open_create parent (drop nxt path) mode s) (\<lambda>(b, inode, s).
                 open_makeup flag b parent inode s))))"

section \<open>The working directory\<close>

definition sys_getcwd :: "u8 list \<Rightarrow> u32 \<Rightarrow> 'a fs_state_scheme \<Rightarrow> u8 list res" where
  "sys_getcwd ubuf count s = strncpy ubuf (pwd_page s (t_pwd (tasks s (running_task s)))) count"

text \<open>A copy of a string to position \<open>i\<close> of \<open>xs\<close>.\<close>

definition strncpy_at :: "nat \<Rightarrow> u8 list \<Rightarrow> u32 \<Rightarrow> u8 list \<Rightarrow> u8 list res" where
  "strncpy_at i src n xs = bindE (strncpy (drop i xs) src n) (\<lambda>ys. Inr (take i xs @ ys))"

definition strcpy_at :: "nat \<Rightarrow> u8 list \<Rightarrow> u8 list \<Rightarrow> u8 list res" where
  "strcpy_at i src xs = bindE (strcpy (drop i xs) src) (\<lambda>ys. Inr (take i xs @ ys))"

text \<open>\<^verbatim>\<open>cur = strrsep(pwd) + 1; *cur = 0\<close>.\<close>

definition cut_last :: "u8 list \<Rightarrow> (nat \<times> u8 list) res" where
  "cut_last pwd =
     bindE (strrsep pwd) (\<lambda>p.
     case p of
       None \<Rightarrow> Inl NullDeref
     | Some i \<Rightarrow> bindE (wr pwd (i + 1) 0) (\<lambda>pwd. Inr (i + 1, pwd)))"

text \<open>One directory up, where there is one.\<close>

definition cut_up :: "nat \<Rightarrow> u8 list \<Rightarrow> (nat \<times> u8 list) res" where
  "cut_up cur pwd =
     (if cur - 1 \<noteq> 0 then bindE (wr pwd (cur - 1) 0) cut_last else Inr (cur, pwd))"

text \<open>The loop over the components that end in a separator; \<open>path\<close> is what is left of the path.\<close>

partial_function (option) abspath_loop :: "nat \<Rightarrow> u8 list \<Rightarrow> u8 list \<Rightarrow> (nat \<times> u8 list \<times> u8 list) res option" where
  "abspath_loop cur pwd path =
     bindO (rd path 0) (\<lambda>c.
     if c = 0 then Some (Inr (cur, pwd, path))
     else
       bindO (strsep path) (\<lambda>p.
       case p of
         None \<Rightarrow> Some (Inr (cur, pwd, path))
       | Some i \<Rightarrow>
           let path = path[i := 0x2f]; len = i + 1 in
           bindO (memcmp path [0x2e, 0x2f, 0] 2) (\<lambda>d1.
           bindO (if d1 = 0 then Inr (cur, pwd)
                  else
                    bindE (memcmp path [0x2e, 0x2e, 0x2f, 0] 3) (\<lambda>d2.
                    if d2 = 0 then cut_up cur pwd
                    else
                      bindE (strncpy_at cur path (of_nat (len + 1)) pwd) (\<lambda>pwd. Inr (cur + len, pwd)))) (\<lambda>(cur, pwd).
           abspath_loop cur pwd (drop len path)))))"

declare abspath_loop.simps [code]

definition abspath :: "u8 list \<Rightarrow> u8 list \<Rightarrow> u8 list res" where
  "abspath pwd path =
     bindE (rd path 0) (\<lambda>c.
     bindE (if IS_SEPARATOR c then bindE (wr pwd 1 0) (\<lambda>pwd. Inr (1, pwd, drop 1 path))
            else bindE (cut_last pwd) (\<lambda>(cur, pwd). Inr (cur, pwd, path))) (\<lambda>(cur, pwd, path).
     bindE (returns (abspath_loop cur pwd path)) (\<lambda>(cur, pwd, path).
     bindE (rd path 0) (\<lambda>c.
     if c = 0 then Inr pwd
     else
       bindE (strcmp path dot_name) (\<lambda>d1.
       if d1 = 0 then Inr pwd
       else
         bindE (strcmp path dotdot_name) (\<lambda>d2.
         if d2 \<noteq> 0 then
           bindE (strcpy_at cur path pwd) (\<lambda>pwd.
           bindE (strlen path) (\<lambda>n. wr pwd (cur + n) 0x2f))
         else bindE (cut_up cur pwd) (\<lambda>(cur, pwd). Inr pwd)))))))"

definition sys_chdir :: "u8 list \<Rightarrow> 'a fs_state_scheme \<Rightarrow> (u32 \<times> 'a fs_state_scheme) res" where
  "sys_chdir path s =
     (let p = running_task s in
      bindE (namei path s) (\<lambda>(r, s).
      case r of
        None \<Rightarrow> Inr (EOF, s)
      | Some inode \<Rightarrow>
          if \<not> ISDIR (d_mode inode s) \<or> t_ipwd (tasks s p) = Some inode then
            bindE (iput (Some inode) s) (\<lambda>s. Inr (EOF, s))
          else
            bindE (abspath (pwd_page s (t_pwd (tasks s p))) path) (\<lambda>pwd.
            let s = s\<lparr>pwd_page := (pwd_page s)(t_pwd (tasks s p) := pwd)\<rparr> in
            bindE (iput (t_ipwd (tasks s p)) s) (\<lambda>s.
            Inr (0, upd_task p (\<lambda>t. t\<lparr>t_ipwd := Some inode\<rparr>) s)))))"

definition sys_chroot :: "u8 list \<Rightarrow> 'a fs_state_scheme \<Rightarrow> (u32 \<times> 'a fs_state_scheme) res" where
  "sys_chroot path s =
     (let p = running_task s in
      bindE (namei path s) (\<lambda>(r, s).
      case r of
        None \<Rightarrow> Inr (EOF, s)
      | Some inode \<Rightarrow>
          if \<not> ISDIR (d_mode inode s) \<or> t_iroot (tasks s p) = Some inode then
            bindE (iput (Some inode) s) (\<lambda>s. Inr (EOF, s))
          else
            bindE (iput (t_iroot (tasks s p)) s) (\<lambda>s.
            Inr (0, upd_task p (\<lambda>t. t\<lparr>t_iroot := Some inode\<rparr>) s))))"

end
