(* ===== verification/File.thy ===== *)
theory File
  imports Namei Device
begin

text \<open>
  Open files (\<^verbatim>\<open>fs/file.c\<close>): the table of open files and the system calls on descriptors. The devices,
  which the standard descriptors go to, are a state of their own (\<^verbatim>\<open>kernel/device.c\<close>); \<open>uptr\<close> is the
  address of the caller's buffer, which a driver gets, and \<open>ubuf\<close> its bytes.
\<close>

definition SEEK_SET :: u32 where "SEEK_SET = 1"
definition SEEK_CUR :: u32 where "SEEK_CUR = 2"
definition SEEK_END :: u32 where "SEEK_END = 3"

definition upd_file :: "u32 \<Rightarrow> (file_t \<Rightarrow> file_t) \<Rightarrow> 'a fs_state_scheme \<Rightarrow> 'a fs_state_scheme" where
  "upd_file i f s = s\<lparr>file_table := (file_table s)(i := f (file_table s i))\<rparr>"

definition get_file :: "'a fs_state_scheme \<Rightarrow> (u32 \<times> 'a fs_state_scheme) res" where
  "get_file s =
     (case find (\<lambda>i. f_count (file_table s (of_nat i)) = 0) [3..<FILE_NR] of
        Some i \<Rightarrow> Inr (of_nat i, upd_file (of_nat i) (\<lambda>t. t\<lparr>f_count := f_count t + 1\<rparr>) s)
      | None \<Rightarrow> Inl (Panic ''Exceed max open files!!!''))"

definition put_file :: "u32 \<Rightarrow> 'a fs_state_scheme \<Rightarrow> 'a fs_state_scheme res" where
  "put_file i s =
     kassert (f_count (file_table s i) > 0) (
     let s = upd_file i (\<lambda>t. t\<lparr>f_count := f_count t - 1\<rparr>) s in
     if f_count (file_table s i) = 0 then iput (f_inode (file_table s i)) s else Inr s)"

definition file_init :: "'a fs_state_scheme \<Rightarrow> 'a fs_state_scheme" where
  "file_init s =
     fold (\<lambda>i. upd_file (of_nat i) (\<lambda>t. t\<lparr>f_mode := 0, f_count := 0, f_flags := 0, f_offset := 0, f_inode := None\<rparr>))
       [0..<FILE_NR] s"

definition sys_open :: "u8 list \<Rightarrow> u32 \<Rightarrow> u32 \<Rightarrow> 'a fs_state_scheme \<Rightarrow> (u32 \<times> 'a fs_state_scheme) res" where
  "sys_open path flags mode s =
     bindE (inode_open path flags mode s) (\<lambda>(r, s).
     case r of
       None \<Rightarrow> Inr (EOF, s)
     | Some inode \<Rightarrow>
         let p = running_task s in
         bindE (task_get_fd p s) (\<lambda>fd.
         bindE (get_file s) (\<lambda>(file, s).
         kassert (t_files (tasks s p) ! fd = None) (
         let s = upd_task p (\<lambda>t. t\<lparr>t_files := (t_files t)[fd := Some file]\<rparr>) s;
             s = upd_file file (\<lambda>t. t\<lparr>f_inode := Some inode, f_flags := flags, f_count := 1,
                   f_mode := ucast (d_mode inode s), f_offset := 0\<rparr>) s;
             s = (if flags AND O_APPEND \<noteq> 0 then upd_file file (\<lambda>t. t\<lparr>f_offset := d_size inode s\<rparr>) s else s)
         in Inr (of_nat fd, s)))))"

definition sys_creat :: "u8 list \<Rightarrow> u32 \<Rightarrow> 'a fs_state_scheme \<Rightarrow> (u32 \<times> 'a fs_state_scheme) res" where
  "sys_creat path mode s = sys_open path (O_CREAT OR O_TRUNC) mode s"

text \<open>The file of a descriptor; a descriptor is signed, and checked from above only.\<close>

definition fd_file :: "u32 \<Rightarrow> 'a fs_state_scheme \<Rightarrow> u32 option res" where
  "fd_file fd s = rd (t_files (tasks s (running_task s))) (unat fd)"

definition sys_close :: "u32 \<Rightarrow> 'a fs_state_scheme \<Rightarrow> 'a fs_state_scheme res" where
  "sys_close fd s =
     kassert (fd <s of_nat TASK_FILE_NR) (
     bindE (fd_file fd s) (\<lambda>file.
     case file of
       None \<Rightarrow> Inr s
     | Some f \<Rightarrow>
         kassert (f_inode (file_table s f) \<noteq> None) (
         bindE (put_file f s) (\<lambda>s. task_put_fd (running_task s) fd s))))"

text \<open>Reading and writing through an open file.\<close>

definition file_read :: "u32 \<Rightarrow> u8 list \<Rightarrow> u32 \<Rightarrow> 'a fs_state_scheme \<Rightarrow> (u32 \<times> u8 list \<times> 'a fs_state_scheme) res" where
  "file_read fd ubuf count s =
     bindE (fd_file fd s) (\<lambda>file.
     case file of
       None \<Rightarrow> Inl Assertion
     | Some f \<Rightarrow>
         kassert (0 <s count) (
         if f_flags (file_table s f) AND O_ACCMODE = O_WRONLY then Inr (EOF, ubuf, s)
         else
           (case f_inode (file_table s f) of
              None \<Rightarrow> Inl NullDeref
            | Some inode \<Rightarrow>
                bindE (inode_read inode ubuf count (f_offset (file_table s f)) s) (\<lambda>(len, ubuf, s).
                Inr (len, ubuf, if len \<noteq> EOF then upd_file f (\<lambda>t. t\<lparr>f_offset := f_offset t + len\<rparr>) s else s)))))"

definition file_write :: "u32 \<Rightarrow> u8 list \<Rightarrow> u32 \<Rightarrow> 'a fs_state_scheme \<Rightarrow> (u32 \<times> 'a fs_state_scheme) res" where
  "file_write fd ubuf count s =
     bindE (fd_file fd s) (\<lambda>file.
     case file of
       None \<Rightarrow> Inl Assertion
     | Some f \<Rightarrow>
         kassert (0 <s count) (
         if f_flags (file_table s f) AND O_ACCMODE = O_RDONLY then Inr (EOF, s)
         else
           (case f_inode (file_table s f) of
              None \<Rightarrow> Inl NullDeref
            | Some inode \<Rightarrow>
                bindE (inode_write inode ubuf count (f_offset (file_table s f)) s) (\<lambda>(len, s).
                Inr (len, if len \<noteq> EOF then upd_file f (\<lambda>t. t\<lparr>f_offset := f_offset t + len\<rparr>) s else s)))))"

definition sys_read :: "u32 \<Rightarrow> u32 \<Rightarrow> u8 list \<Rightarrow> u32 \<Rightarrow> ('w, 'b) dev_state_scheme \<Rightarrow> 'a fs_state_scheme
    \<Rightarrow> (u32 \<times> u8 list \<times> ('w, 'b) dev_state_scheme \<times> 'a fs_state_scheme) res" where
  "sys_read fd uptr ubuf count ds s =
     (if fd = 0 then
        (case device_find DEV_KEYBOARD 0 ds of
           None \<Rightarrow> Inl NullDeref
         | Some d \<Rightarrow>
             bindE (device_read (d_dev (devices ds ! d)) uptr count 0 0 ds) (\<lambda>(r, ds). Inr (r, ubuf, ds, s)))
      else bindE (file_read fd ubuf count s) (\<lambda>(len, ubuf, s). Inr (len, ubuf, ds, s)))"

definition sys_write :: "u32 \<Rightarrow> u32 \<Rightarrow> u8 list \<Rightarrow> u32 \<Rightarrow> ('w, 'b) dev_state_scheme \<Rightarrow> 'a fs_state_scheme
    \<Rightarrow> (u32 \<times> ('w, 'b) dev_state_scheme \<times> 'a fs_state_scheme) res" where
  "sys_write fd uptr ubuf count ds s =
     (if fd = 1 \<or> fd = 2 then
        (case device_find DEV_CONSOLE 0 ds of
           None \<Rightarrow> Inl NullDeref
         | Some d \<Rightarrow>
             bindE (device_write (d_dev (devices ds ! d)) uptr count 0 0 ds) (\<lambda>(r, ds). Inr (r, ds, s)))
      else bindE (file_write fd ubuf count s) (\<lambda>(len, s). Inr (len, ds, s)))"

text \<open>The sum of an offset and a size is unsigned, so that its test for a negative number always passes.\<close>

definition sys_lseek :: "u32 \<Rightarrow> u32 \<Rightarrow> u32 \<Rightarrow> 'a fs_state_scheme \<Rightarrow> (u32 \<times> 'a fs_state_scheme) res" where
  "sys_lseek fd offset whence s =
     kassert (fd <s of_nat TASK_FILE_NR) (
     bindE (fd_file fd s) (\<lambda>file.
     case file of
       None \<Rightarrow> Inl Assertion
     | Some f \<Rightarrow>
         (case f_inode (file_table s f) of
            None \<Rightarrow> Inl Assertion
          | Some inode \<Rightarrow>
              let old = f_offset (file_table s f);
                  move = (\<lambda>v. Inr (v, upd_file f (\<lambda>t. t\<lparr>f_offset := v\<rparr>) s)) in
              if whence = SEEK_SET then kassert (0 \<le>s offset) (move offset)
              else if whence = SEEK_CUR then
                bindE (cint (sint old + sint offset)) (\<lambda>v. kassert (0 \<le> v) (move (word_of_int v)))
              else if whence = SEEK_END then move (d_size inode s + offset)
              else Inl (Panic ''whence not defined !!!''))))"

definition sys_readdir :: "u32 \<Rightarrow> u32 \<Rightarrow> u8 list \<Rightarrow> u32 \<Rightarrow> ('w, 'b) dev_state_scheme \<Rightarrow> 'a fs_state_scheme
    \<Rightarrow> (u32 \<times> u8 list \<times> ('w, 'b) dev_state_scheme \<times> 'a fs_state_scheme) res" where
  "sys_readdir fd uptr ubuf count ds s = sys_read fd uptr ubuf (of_nat DENTRY_BYTES) ds s"

end
