(* ===== verification/Fsview.thy ===== *)
theory Fsview
  imports Inode
begin

text \<open>
  The blocks as the file system sees them through the cache: what reading, changing and releasing a block
  does to the view \<open>blk\<close>, stated once for the proofs about files.
\<close>

section \<open>What an operation on the cache leaves alone\<close>

text \<open>The tables of the file system are no part of the cache.\<close>

lemma same_kernel_fs:
  assumes "same_kernel s t"
  shows "super_table t = super_table s" "root t = root s" "inode_table t = inode_table s" "inode_nodes t = inode_nodes s"
    "file_table t = file_table s" "pwd_page t = pwd_page s" "startup t = startup s" "time t = time s"
    "get_super d t = get_super d s"
proof -
  have m: "buf_state.more t = buf_state.more s" "jiffies t = jiffies s" using assms by (simp_all add: same_kernel_def)
  show f: "super_table t = super_table s" "root t = root s" "inode_table t = inode_table s" "inode_nodes t = inode_nodes s"
    "file_table t = file_table s" "pwd_page t = pwd_page s" "startup t = startup s"
    using m(1) by (cases s, cases t, simp)+
  show "time t = time s" using f(7) m(2) by (simp add: time_def sys_time_def)
  show "get_super d t = get_super d s" by (simp add: get_super_def f(1))
qed

text \<open>A step after which the blocks read as \<open>v\<close> and the same buffers are held for the same blocks; a calm one
  changes no block.\<close>

definition sees :: "'a buf_state_scheme \<Rightarrow> (u32 \<times> u32 \<Rightarrow> u8 list) \<Rightarrow> 'a buf_state_scheme \<Rightarrow> bool" where
  "sees s v t \<longleftrightarrow> cache_sound t \<and> blk t = v \<and> buf_refs t = buf_refs s \<and> same_kernel s t
     \<and> (\<forall>b. 0 < buf_refs s b \<longrightarrow> key t b = key s b)"

abbreviation "calm s \<equiv> sees s (blk s)"

lemma calm_refl: "cache_sound s \<Longrightarrow> calm s s" by (simp add: sees_def)

lemma sees_trans: "sees s v t \<Longrightarrow> sees t w u \<Longrightarrow> sees s w u"
  by (auto simp: sees_def intro: same_kernel_trans)

lemma seesD:
  assumes "sees s v t"
  shows "cache_sound t" "blk t = v" "buf_refs t = buf_refs s" "same_kernel s t" "0 < buf_refs s b \<Longrightarrow> key t b = key s b"
  using assms by (auto simp: sees_def)

lemma calm_trans: "calm s t \<Longrightarrow> calm t u \<Longrightarrow> calm s u"
  using seesD(2) [of s "blk s" t] sees_trans by metis

lemma refs_pos: "0 < buf_refs s b \<longleftrightarrow> b \<in> in_use s"
  unfolding buf_refs_in_use [symmetric] by simp

lemma held_iff: "cache_sound s \<Longrightarrow> held s b \<longleftrightarrow> 0 < buf_refs s b"
  using buf_refs_in_use [of s] by (auto simp: held_def cache_sound_def)

text \<open>A buffer in use holds its block.\<close>

lemma bdata_blk:
  assumes "cache_sound s" and "0 < buf_refs s b"
  shows "bdata b s = blk s (key s b)"
proof -
  have h: "held s b" using held_iff [OF assms(1)] assms(2) by simp
  then have "b \<in> allocated s" "b_valid (buffers s b)" by (auto simp: held_def in_use_def)
  then show ?thesis using blk_cases(1) [OF sound_rel [OF assms(1)]] by (simp add: bdata_def)
qed

lemma calm_bdata: "calm s t \<Longrightarrow> cache_sound s \<Longrightarrow> 0 < buf_refs s b \<Longrightarrow> bdata b t = bdata b s"
  by (simp add: bdata_blk seesD)

text \<open>Room for \<open>n\<close> more buffers.\<close>

definition slack :: "'a buf_state_scheme \<Rightarrow> nat \<Rightarrow> bool" where
  "slack s n \<longleftrightarrow> card (in_use s) + n \<le> MAX_BUFFERS \<and> (\<forall>b. buf_refs s b + n < 2 ^ 31)"

lemma slack_refs: "buf_refs t = buf_refs s \<Longrightarrow> slack t n \<longleftrightarrow> slack s n"
  by (simp add: slack_def buf_refs_in_use [symmetric])

lemma slack_less:
  assumes "slack s n" and "m \<le> n"
  shows "slack s m"
  unfolding slack_def
proof (intro conjI allI)
  show "card (in_use s) + m \<le> MAX_BUFFERS" using assms by (simp add: slack_def)
  fix b
  have "buf_refs s b + n < 2 ^ 31" using assms(1) by (simp add: slack_def)
  then show "buf_refs s b + m < 2 ^ 31" using assms(2) by linarith
qed

lemma slack_add:
  assumes "slack s (Suc n)" and "buf_refs t = (buf_refs s)(b := buf_refs s b + 1)"
  shows "slack t n"
proof -
  have "in_use t = insert b (in_use s)" using assms(2) by (auto simp: buf_refs_in_use [symmetric])
  moreover have "finite (in_use s)" by (rule card_in_use(1))
  ultimately have "card (in_use t) \<le> Suc (card (in_use s))" by (simp add: card_insert_if)
  moreover have "buf_refs t c + n < 2 ^ 31" for c
  proof -
    have "buf_refs s c + Suc n < 2 ^ 31" using assms(1) by (simp add: slack_def)
    then show ?thesis using assms(2) by auto
  qed
  ultimately show ?thesis using assms(1) by (auto simp: slack_def)
qed

text \<open>The number of a block a \<open>u16\<close> can name.\<close>

lemma unat_ucast_zone: "unat (ucast (z :: u16) :: u32) = unat z"
proof -
  have "unat z < 2 ^ LENGTH(16)" by (rule unsigned_less)
  then show ?thesis by (simp add: unsigned_ucast_eq take_bit_nat_eq_self)
qed

lemma zone_small: "(ucast (z :: u16) :: u32) < 2 ^ 31"
proof -
  have "unat (ucast z :: u32) = unat z" by (rule unat_ucast_zone)
  moreover have "unat z < 2 ^ LENGTH(16)" by (rule unsigned_less)
  ultimately show ?thesis by (simp add: word_less_nat_alt)
qed

section \<open>Reading a block\<close>

text \<open>What holds between \<open>bread\<close> and \<open>brelse\<close>: the buffer is used once more, and can be released.\<close>

definition opened :: "'a buf_state_scheme \<Rightarrow> u32 \<times> u32 \<Rightarrow> u32 \<Rightarrow> 'a buf_state_scheme \<Rightarrow> bool" where
  "opened s k b t \<longleftrightarrow> cache_sound t \<and> blk t = blk s \<and> key t b = k \<and> buf_refs t = (buf_refs s)(b := buf_refs s b + 1)
     \<and> same_kernel s t \<and> (\<forall>c. 0 < buf_refs s c \<longrightarrow> key t c = key s c)
     \<and> (buf_refs s b = 0 \<longrightarrow> blk t k = disk_block t k)"

lemma openedD:
  assumes "opened s k b t"
  shows "cache_sound t" "blk t = blk s" "key t b = k" "buf_refs t = (buf_refs s)(b := buf_refs s b + 1)" "same_kernel s t"
    "0 < buf_refs s c \<Longrightarrow> key t c = key s c" "bdata b t = blk s k"
proof -
  show o: "cache_sound t" "blk t = blk s" "key t b = k" "buf_refs t = (buf_refs s)(b := buf_refs s b + 1)" "same_kernel s t"
    "0 < buf_refs s c \<Longrightarrow> key t c = key s c" using assms by (auto simp: opened_def)
  show "bdata b t = blk s k" using bdata_blk [OF o(1), of b] o by simp
qed

lemma bread_opens:
  assumes "cache_sound s" and "n < 2 ^ 31" and "slack s 1"
  shows "\<exists>b t. bread d n s = Inr (b, t) \<and> opened s (d, n) b t"
proof -
  have small: "buf_refs s b < 2 ^ 31 - 1" for b
  proof -
    have "buf_refs s b + 1 < 2 ^ 31" using assms(3) by (simp add: slack_def)
    then show ?thesis by simp
  qed
  obtain b t where t: "bread d n s = Inr (b, t)" "cache_sound t" "blk t = blk s" "key t b = (d, n)" "b_data (buffers t b) = blk s (d, n)"
    "buf_refs t = (buf_refs s)(b := buf_refs s b + 1)" "\<forall>c. 0 < buf_refs s c \<longrightarrow> key t c = key s c"
    using bc.read_law [OF assms(1), of "(d, n)"] assms(2,3) small unfolding slack_def buf_refs_in_use by auto
  have "room s (d, n)" using assms(3) unfolding room_def slack_def
  proof (intro conjI ballI disjI2)
    fix c
    assume "c \<in> in_use s"
    then have "b_count (buffers s c) = int (buf_refs s c)" by (auto simp: in_use_def buf_refs_def)
    then show "b_count (buffers s c) < 2 ^ 31 - 1" using small [of c] by simp
  qed simp
  then have p: "bread_post s (d, n) b t" using bread_ok [of s d n] assms(1,2) t(1) by (auto simp: cache_sound_def)
  have "blk t (d, n) = disk_block t (d, n)" if z: "buf_refs s b = 0"
  proof -
    have "b \<notin> in_use s" using z unfolding buf_refs_in_use [of s, symmetric] by simp
    then have nb: "\<not> (b \<in> in_use s \<and> b_valid (buffers s b))" "b \<notin> in_use s" by blast+
    have "b_data (buffers t b) = disk_block s (d, n)" using p nb(2) unfolding bread_post_def if_not_P [OF nb(1)] by blast
    moreover have "disk_block t = disk_block s" using p by (intro disk_block_cong) (simp add: bread_post_def)
    ultimately show ?thesis using t(3,5) by (simp only:)
  qed
  moreover have "same_kernel s t" using p by (simp add: bread_post_def)
  ultimately show ?thesis using t by (auto simp: opened_def)
qed

text \<open>Releasing a buffer that was dirty, agrees with the disk or stays in use.\<close>

lemma brelse_calm:
  assumes "cache_sound t" and "0 < buf_refs t b" and "buf_refs t b < 2 ^ 31"
    and "b_dirty (buffers t b) \<or> blk t (key t b) = disk_block t (key t b) \<or> 1 < buf_refs t b"
  shows "\<exists>u. brelse b t = Inr u \<and> cache_sound u \<and> blk u = blk t \<and> buf_refs u = (buf_refs t)(b := buf_refs t b - 1)
    \<and> key u = key t \<and> same_kernel t u \<and> bdata b u = bdata b t \<and> disk_block u k = (if k = key t b \<and> b_dirty (buffers t b) then bdata b t else disk_block t k)"
proof -
  have h: "held t b" using held_iff [OF assms(1)] assms(2) by simp
  have inv: "cache_inv t" using assms(1) by (simp add: cache_sound_def)
  have ba: "b \<in> allocated t" using h by (auto simp: held_def in_use_def)
  then have cnt: "b_count (buffers t b) = int (buf_refs t b)" using h by (auto simp: buf_refs_def held_def in_use_def)
  have d: "b_data (buffers t b) = blk t (key t b)" using bdata_blk [OF assms(1,2)] by (simp add: bdata_def)
  have small: "b_count (buffers t b) < 2 ^ 31" using cnt assms(3) by simp
  have sync: "b_dirty (buffers t b) \<or> b_data (buffers t b) = disk_block t (key t b) \<or> b_count (buffers t b) > 1"
    using assms(4) d cnt by auto
  obtain u where u: "brelse b t = Inr u" "brelse_post t b u" using brelse_ok [OF inv h small sync] by blast
  then have p: "cache_inv u" "blk u = blk t" "key u = key t" "same_kernel t u"
    "in_use u = (if b_count (buffers t b) = 1 then in_use t - {b} else in_use t)"
    "\<And>x. buffers u x = (if x = b then (buffers t b)\<lparr>b_dirty := False, b_count := b_count (buffers t b) - 1\<rparr> else buffers t x)"
    "disk_block u = (if b_dirty (buffers t b) then (disk_block t)(key t b := b_data (buffers t b)) else disk_block t)"
    unfolding brelse_post_def by blast+
  have ru: "buf_refs u c = (if c \<in> in_use u then nat (b_count (buffers u c)) else 0)"
    and rt: "buf_refs t c = (if c \<in> in_use t then nat (b_count (buffers t c)) else 0)" for c
    by (simp_all add: buf_refs_def in_use_def)
  have r: "buf_refs u = (buf_refs t)(b := buf_refs t b - 1)"
  proof
    fix c
    have one: "b_count (buffers t b) = 1 \<longleftrightarrow> buf_refs t b = 1" using cnt by linarith
    show "buf_refs u c = ((buf_refs t)(b := buf_refs t b - 1)) c"
    proof (cases "c = b")
      case True
      have "b \<in> in_use t" using h by (simp add: held_def)
      moreover have "nat (int k - 1) = k - Suc 0" for k by arith
      ultimately show ?thesis unfolding True ru p(5) using one cnt by (simp add: p(6))
    next
      case False
      then have "c \<in> in_use u \<longleftrightarrow> c \<in> in_use t" unfolding p(5) by simp
      then show ?thesis using False by (simp add: ru rt p(6))
    qed
  qed
  have "b_valid (buffers u c)" if "c \<in> in_use u" for c
  proof -
    have "c \<in> in_use t" using that p(5) by (auto split: if_splits)
    then have "b_valid (buffers t c)" using assms(1) by (simp add: cache_sound_def)
    then show ?thesis by (cases "c = b") (simp_all add: p(6))
  qed
  then have cs: "cache_sound u" using p(1) by (simp add: cache_sound_def)
  have bd: "bdata b u = bdata b t" using p(6) [of b] by (simp add: bdata_def)
  have dk: "disk_block u k = (if k = key t b \<and> b_dirty (buffers t b) then bdata b t else disk_block t k)"
    unfolding p(7) by (simp add: bdata_def)
  show ?thesis by (intro exI [of _ u] conjI) (fact u(1) cs p(2) r p(3) p(4) bd dk)+
qed

lemma opened_close:
  assumes s: "cache_sound s" and "slack s 1" and o: "opened s k b t"
  shows "\<exists>u. brelse b t = Inr u \<and> calm s u \<and> bdata b u = blk s k"
proof -
  note O = openedD [OF o]
  have r: "0 < buf_refs t b" "buf_refs t b < 2 ^ 31"
  proof -
    have "buf_refs s b + 1 < 2 ^ 31" using assms(2) by (simp add: slack_def)
    then show "0 < buf_refs t b" "buf_refs t b < 2 ^ 31" using O(4) by simp_all
  qed
  have "blk t (key t b) = disk_block t (key t b) \<or> 1 < buf_refs t b" using o O(3,4) by (auto simp: opened_def)
  then obtain u where u: "brelse b t = Inr u" "cache_sound u" "blk u = blk t" "buf_refs u = (buf_refs t)(b := buf_refs t b - 1)"
    "key u = key t" "same_kernel t u" "bdata b u = bdata b t"
    using brelse_calm [OF O(1) r] by blast
  have "buf_refs u = buf_refs s" using u(4) O(4) by auto
  then have "calm s u" using u O same_kernel_trans [OF O(5) u(6)] by (auto simp: sees_def)
  then show ?thesis using u O(7) by auto
qed

text \<open>Reading a block and releasing it; its bytes stay where they were read.\<close>

lemma read_release:
  assumes "cache_sound s" and "n < 2 ^ 31" and "slack s 1"
  shows "\<exists>b t u. bread d n s = Inr (b, t) \<and> opened s (d, n) b t \<and> brelse b t = Inr u \<and> calm s u \<and> bdata b u = blk s (d, n)"
  using bread_opens [OF assms, of d] opened_close [OF assms(1,3)] by blast

section \<open>Changing a block\<close>

text \<open>Counting a buffer that is in use once more.\<close>

lemma upd_blk:
  assumes "\<And>t. b_dev (f t) = b_dev t \<and> b_block (f t) = b_block t" and "\<And>t. b_valid (f t) = b_valid t \<and> b_data (f t) = b_data t"
  shows "blk (upd_buf b f s) = blk s"
proof
  fix k
  have "b_valid (buffers (upd_buf b f s) x) = b_valid (buffers s x)" "b_data (buffers (upd_buf b f s) x) = b_data (buffers s x)" for x
    using assms(2) by (simp_all add: upd_buffers)
  moreover have "buffer_count (upd_buf b f s) = buffer_count s" by (simp add: upd_buf_def)
  ultimately show "blk (upd_buf b f s) k = blk s k" by (simp add: blk_def upd_keep [OF assms(1)] cong: option.case_cong)
qed

lemma count_opens:
  assumes s: "cache_sound s" and b: "0 < buf_refs s b" and "slack s 1"
  defines "t \<equiv> upd_buf b (\<lambda>t. t\<lparr>b_count := b_count (buffers s b) + 1\<rparr>) s"
  shows "cint (b_count (buffers s b) + 1) = Inr (b_count (buffers s b) + 1)" "opened s (key s b) b t"
proof -
  let ?f = "\<lambda>t. t\<lparr>b_count := b_count (buffers s b) + 1\<rparr>"
  have f: "\<And>t. b_dev (?f t) = b_dev t \<and> b_block (?f t) = b_block t" "\<And>t. b_valid (?f t) = b_valid t \<and> b_data (?f t) = b_data t" by simp_all
  have h: "b \<in> allocated s" "0 < b_count (buffers s b)" "b_valid (buffers s b)"
    using held_iff [OF s, of b] b by (auto simp: held_def in_use_def)
  have cnt: "b_count (buffers s b) = int (buf_refs s b)" using h by (simp add: buf_refs_def)
  have "buf_refs s b + 1 < 2 ^ 31" using assms(3) by (simp add: slack_def)
  then show "cint (b_count (buffers s b) + 1) = Inr (b_count (buffers s b) + 1)" using cnt by (intro cint_in) auto
  obtain H F where ok: "buffers_ok s" and rel: "cache_rel s H F" using s by (auto simp: cache_sound_def cache_inv_def)
  have "buffers_ok t" unfolding t_def
    by (rule upd_ok [OF f(1) ok]) (use h buffers_okD(8,9) [OF ok h(1)] in \<open>auto simp: Let_def\<close>)
  moreover have "cache_rel t H F" unfolding t_def by (rule upd_rel [OF f(1) rel]) (use h in auto)
  ultimately have inv: "cache_inv t" by (auto simp: cache_inv_def)
  note k = upd_keep [OF f(1), where b = b and s = s, folded t_def]
  have bu: "buffers t x = (if x = b then ?f (buffers s b) else buffers s x)" for x unfolding t_def by (rule upd_buffers)
  have iu: "in_use t = in_use s" using h by (auto simp: in_use_def k(2) bu)
  have cs: "cache_sound t" using inv s h(3) by (auto simp: cache_sound_def iu bu)
  have bl: "blk t = blk s" unfolding t_def by (rule upd_blk [OF f])
  have r: "buf_refs t = (buf_refs s)(b := buf_refs s b + 1)" using h by (auto simp: fun_eq_iff buf_refs_def k(2) bu)
  show "opened s (key s b) b t" using cs bl r k(1,7) b by (auto simp: opened_def)
qed

text \<open>New bytes in a buffer that is held.\<close>

lemma put_sees:
  assumes s: "cache_sound s" and b: "0 < buf_refs s b" and "length xs = 1024"
  shows "sees s ((blk s)(key s b := xs)) (upd_buf b (\<lambda>t. t\<lparr>b_data := xs, b_dirty := e\<rparr>) s)"
proof -
  define t where "t = upd_buf b (\<lambda>t. t\<lparr>b_data := xs, b_dirty := e\<rparr>) s"
  have h: "held s b" using held_iff [OF s] b by simp
  have inv: "cache_inv s" using s by (simp add: cache_sound_def)
  note p = put_ok [OF inv h assms(3), of e, folded t_def]
  have bu: "buffers t x = (if x = b then (buffers s b)\<lparr>b_data := xs, b_dirty := e\<rparr> else buffers s x)" for x
    unfolding t_def by (rule upd_buffers)
  have a: "allocated t = allocated s" unfolding t_def by (rule upd_keep) simp
  have "cache_sound t" using p(1,4) s by (auto simp: cache_sound_def bu)
  moreover have "buf_refs t = buf_refs s" by (auto simp: fun_eq_iff buf_refs_def a bu)
  ultimately show ?thesis using p unfolding t_def [symmetric] by (simp add: sees_def)
qed

lemma bstore_sees:
  assumes "cache_sound s" and "0 < buf_refs s b" and "length (f (blk s (key s b))) = 1024"
  shows "sees s ((blk s)(key s b := f (blk s (key s b)))) (bstore b f s)"
proof -
  have d: "b_data (buffers s b) = blk s (key s b)" using bdata_blk [OF assms(1,2)] by (simp add: bdata_def)
  have "bstore b f s = upd_buf b (\<lambda>t. t\<lparr>b_data := f (blk s (key s b)), b_dirty := b_dirty (buffers s b)\<rparr>) s"
    unfolding bstore_def upd_buf_def d [symmetric] by (simp add: fun_eq_iff)
  then show ?thesis using put_sees [OF assms(1,2,3)] by simp
qed

lemma blk_length: "cache_sound s \<Longrightarrow> 0 < buf_refs s b \<Longrightarrow> length (blk s (key s b)) = 1024"
proof -
  assume s: "cache_sound s" and b: "0 < buf_refs s b"
  have "b \<in> allocated s" using b by (simp add: buf_refs_def split: if_splits)
  then have "snd (key s b) < 2 ^ 31" using s buffers_okD(7) by (auto simp: cache_sound_def cache_inv_def)
  then show ?thesis using bc.view_length [OF s] by simp
qed

lemma bdirty_sees:
  assumes "cache_sound s" and "0 < buf_refs s b"
  shows "calm s (bdirty b s)"
proof -
  have d: "b_data (buffers s b) = blk s (key s b)" using bdata_blk [OF assms] by (simp add: bdata_def)
  have "bdirty b s = upd_buf b (\<lambda>t. t\<lparr>b_data := blk s (key s b), b_dirty := True\<rparr>) s"
    unfolding bdirty_def upd_buf_def d [symmetric] by (simp add: fun_eq_iff)
  moreover have "(blk s)(key s b := blk s (key s b)) = blk s" by simp
  ultimately show ?thesis using put_sees [OF assms blk_length [OF assms], of True] by simp
qed

lemma bwrite_sees:
  assumes "cache_sound s" and "0 < buf_refs s b"
  shows "calm s (bwrite b s)"
proof -
  have h: "held s b" using held_iff [OF assms(1)] assms(2) by simp
  have inv: "cache_inv s" using assms(1) by (simp add: cache_sound_def)
  note w = bwrite_ok [OF inv h]
  have "cache_sound (bwrite b s)" using w(1,4,6) assms(1) h by (auto simp: cache_sound_def held_def)
  moreover have "buf_refs (bwrite b s) c = buf_refs s c" for c
  proof (cases "c \<in> in_use s")
    case True
    then show ?thesis using w(4) by (auto simp: buf_refs_def in_use_def w(6))
  next
    case False
    then have "\<not> 0 < buf_refs s c" "\<not> 0 < buf_refs (bwrite b s) c" by (simp_all only: refs_pos w(4)) simp_all
    then show ?thesis by simp
  qed
  ultimately show ?thesis using w(2,3,5) by (auto simp: sees_def)
qed

text \<open>Which buffers are dirty.\<close>

lemma dirty_simps [simp]:
  "b_dirty (buffers (bstore b f s) c) = b_dirty (buffers s c)"
  "b_dirty (buffers (bdirty b s) c) = (c = b \<or> b_dirty (buffers s c))"
  by (simp_all add: bstore_def bdirty_def upd_buf_def)

text \<open>Releasing a changed buffer: the use that \<open>bread\<close> added is gone.\<close>

lemma edited_close:
  assumes "cache_sound t" and "buf_refs t = (buf_refs s)(b := buf_refs s b + 1)" and "slack s 1" and "same_kernel s t"
    and "\<And>c. 0 < buf_refs s c \<Longrightarrow> key t c = key s c" and "b_dirty (buffers t b) \<or> 0 < buf_refs s b"
  shows "\<exists>u. brelse b t = Inr u \<and> sees s (blk t) u \<and> bdata b u = bdata b t"
proof -
  have "buf_refs s b + 1 < 2 ^ 31" using assms(3) by (simp add: slack_def)
  then have r: "0 < buf_refs t b" "buf_refs t b < 2 ^ 31" using assms(2) by simp_all
  have "b_dirty (buffers t b) \<or> blk t (key t b) = disk_block t (key t b) \<or> 1 < buf_refs t b" using assms(2,6) by auto
  then obtain u where u: "brelse b t = Inr u" "cache_sound u" "blk u = blk t" "buf_refs u = (buf_refs t)(b := buf_refs t b - 1)"
    "key u = key t" "same_kernel t u" "bdata b u = bdata b t"
    using brelse_calm [OF assms(1) r] by blast
  have "buf_refs u = buf_refs s" using u(4) assms(2) by auto
  then show ?thesis using u same_kernel_trans [OF assms(4) u(6)] assms(5) by (auto simp: sees_def)
qed

section \<open>The index of a file\<close>

text \<open>The number in the index block \<open>xs\<close> at place \<open>i\<close>; through an entry that is zero nothing is reached.\<close>

definition below :: "(u32 \<times> u32 \<Rightarrow> u8 list) \<Rightarrow> u32 \<Rightarrow> u16 \<Rightarrow> nat \<Rightarrow> u16" where
  "below v d z i = (if z = 0 then 0 else get16 (v (d, ucast z)) (2 * i))"

text \<open>The block that holds the \<open>n\<close>-th 1024 bytes of the file whose descriptor is at offset \<open>p\<close> of \<open>xs\<close>: seven direct
  ones, 512 through the first index block, 512 times 512 through the second.\<close>

definition file_zone :: "(u32 \<times> u32 \<Rightarrow> u8 list) \<Rightarrow> u32 \<Rightarrow> u8 list \<Rightarrow> nat \<Rightarrow> nat \<Rightarrow> u16" where
  "file_zone v d xs p n =
     (if n < 7 then get16 xs (p + ZONE + 2 * n)
      else if n < 519 then below v d (get16 xs (p + ZONE + 14)) (n - 7)
      else below v d (below v d (get16 xs (p + ZONE + 16)) ((n - 519) div 512)) ((n - 519) mod 512))"

fun index_walk :: "nat \<Rightarrow> (u32 \<times> u32 \<Rightarrow> u8 list) \<Rightarrow> u32 \<Rightarrow> u8 list \<Rightarrow> nat \<Rightarrow> nat \<Rightarrow> u32 \<Rightarrow> u32 \<Rightarrow> u16" where
  "index_walk level v d xs base index block divider =
     (let z = get16 xs (base + 2 * index) in
      if level = 0 \<or> z = 0 then z
      else index_walk (level - 1) v d (v (d, ucast z)) 0 (unat (block div divider)) (block mod divider) (divider div BLOCK_INDEXES))"

declare index_walk.simps [simp del] bmap_loop.simps [simp del]

lemma walk_loop:
  assumes "cache_sound s" and "slack s 1" and "opened s k b t"
  shows "\<exists>u. bmap_loop level d b base index block divider False t
      = Inr (ucast (index_walk level (blk s) d (blk s k) base index block divider), u) \<and> calm s u"
  using assms
proof (induction level arbitrary: s k b t base index block divider)
  case 0
  obtain u where u: "brelse b t = Inr u" "calm s u" "bdata b u = blk s k" using opened_close [OF 0] by blast
  then show ?case by (subst bmap_loop.simps, subst index_walk.simps) (simp add: bmap_slot_def)
next
  case (Suc n)
  obtain u where u: "brelse b t = Inr u" "calm s u" "bdata b u = blk s k" using opened_close [OF Suc.prems] by blast
  note U = seesD [OF u(2)]
  define z where "z = get16 (blk s k) (base + 2 * index)"
  show ?case
  proof (cases "z = 0")
    case True
    then show ?thesis using u by (subst bmap_loop.simps, subst index_walk.simps) (simp add: bmap_slot_def z_def [symmetric])
  next
    case False
    have sl: "slack u 1" using slack_refs [OF U(3)] Suc.prems(2) by simp
    obtain c w where c: "bread d (ucast z) u = Inr (c, w)" "opened u (d, ucast z) c w"
      using bread_opens [OF U(1) zone_small sl, of d z] by blast
    obtain x where x: "bmap_loop n d c 0 (unat (block div divider)) (block mod divider) (divider div BLOCK_INDEXES) False w
      = Inr (ucast (index_walk n (blk u) d (blk u (d, ucast z)) 0 (unat (block div divider)) (block mod divider) (divider div BLOCK_INDEXES)), x)"
      "calm u x"
      using Suc.IH [OF U(1) sl c(2)] by blast
    have "calm s x" by (rule calm_trans [OF u(2) x(2)])
    then show ?thesis using u c x False U(2)
      by (subst bmap_loop.simps, subst index_walk.simps) (simp add: bmap_slot_def z_def [symmetric])
  qed
qed

lemma index_consts: "DIRECT_BLOCK = 7" "INDIRECT1_BLOCK = 512" "INDIRECT2_BLOCK = 262144" "TOTAL_BLOCK = 262663" "BLOCK_INDEXES = 512"
  by (simp_all add: DIRECT_BLOCK_def INDIRECT1_BLOCK_def INDIRECT2_BLOCK_def TOTAL_BLOCK_def BLOCK_INDEXES_def BLOCK_SIZE_def)

lemma bmap_level_cases:
  "b < 7 \<Longrightarrow> bmap_level b = (0, unat b, b, 1)"
  "\<not> b < 7 \<Longrightarrow> b - 7 < 512 \<Longrightarrow> bmap_level b = (1, 7, b - 7, 1)"
  "\<not> b < 7 \<Longrightarrow> \<not> b - 7 < 512 \<Longrightarrow> bmap_level b = (2, 8, b - 7 - 512, 512)"
  by (simp_all only: bmap_level_def index_consts Let_def if_True if_False) simp_all

lemma index_walk_0: "index_walk 0 v d xs base index block divider = get16 xs (base + 2 * index)"
  by (subst index_walk.simps) simp

lemma index_walk_Suc:
  "index_walk (Suc n) v d xs base index block divider =
    (if get16 xs (base + 2 * index) = 0 then 0
     else index_walk n v d (v (d, ucast (get16 xs (base + 2 * index)))) 0 (unat (block div divider)) (block mod divider) (divider div BLOCK_INDEXES))"
  by (subst index_walk.simps) simp

lemma index_walk_1:
  "index_walk (Suc 0) v d xs base index block divider = below v d (get16 xs (base + 2 * index)) (unat (block div divider))"
  by (simp only: index_walk_Suc index_walk_0 below_def add_0)

lemma index_walk_file:
  assumes "n < 262663" and "bmap_level (of_nat n) = (level, index, block, divider)"
  shows "index_walk level v d xs (p + ZONE) index block divider = file_zone v d xs p n"
proof -
  have u: "unat (of_nat m :: u32) = m" if "m \<le> n" for m by (rule unat_of_nat_small) (use that assms(1) in simp)
  have lt: "(of_nat m :: u32) < 7 \<longleftrightarrow> m < 7" "(of_nat m :: u32) < 512 \<longleftrightarrow> m < 512" if "m \<le> n" for m
    using u [OF that] by (simp_all add: word_less_nat_alt)
  consider (a) "n < 7" | (b) "7 \<le> n" "n < 519" | (c) "519 \<le> n" by linarith
  then show ?thesis
  proof cases
    case a
    then have "bmap_level (of_nat n) = (0, n, of_nat n, 1)" using bmap_level_cases(1) [of "of_nat n"] lt(1) [of n] u [of n] by simp
    then have l: "level = 0" "index = n" unfolding assms(2) by simp_all
    show ?thesis unfolding l index_walk_0 using a by (simp add: file_zone_def)
  next
    case b
    have e: "(of_nat n :: u32) - 7 = of_nat (n - 7)" using b by (simp add: of_nat_diff)
    have "bmap_level (of_nat n) = (1, 7, of_nat (n - 7), 1)"
      using bmap_level_cases(2) [of "of_nat n"] lt(1) [of n] lt(2) [of "n - 7"] b unfolding e by simp
    then have l: "level = Suc 0" "index = 7" "block = of_nat (n - 7)" "divider = 1" unfolding assms(2) by simp_all
    have "unat ((of_nat (n - 7) :: u32) div 1) = n - 7" using u [of "n - 7"] by simp
    then show ?thesis unfolding l index_walk_1 using b by (simp add: file_zone_def)
  next
    case c
    have e: "(of_nat n :: u32) - 7 = of_nat (n - 7)" "(of_nat (n - 7) :: u32) - 512 = of_nat (n - 519)"
      using c by (simp_all add: of_nat_diff)
    have "\<not> n - 7 < 512" using c by simp
    then have "bmap_level (of_nat n) = (2, 8, of_nat (n - 519), 512)"
      using bmap_level_cases(3) [of "of_nat n"] lt(1) [of n] lt(2) [of "n - 7"] c unfolding e by simp
    then have l: "level = Suc (Suc 0)" "index = 8" "block = of_nat (n - 519)" "divider = 512" unfolding assms(2) by simp_all
    have "unat ((of_nat (n - 519) :: u32) div 512) = (n - 519) div 512" "unat ((of_nat (n - 519) :: u32) mod 512) = (n - 519) mod 512"
      using u [of "n - 519"] by (simp_all add: unat_div unat_mod)
    moreover have "(512 :: u32) div 512 = 1" "\<And>w. unat ((w :: u32) div 1) = unat w" by simp_all
    ultimately show ?thesis unfolding l index_walk_Suc [of "Suc 0"] index_walk_1 index_consts using c
      by (simp add: file_zone_def below_def)
  qed
qed

text \<open>The block of an inode's descriptor, and the file's block numbers as the inode's user sees them.\<close>

definition inode_blk :: "u32 \<Rightarrow> 'a fs_state_scheme \<Rightarrow> u8 list" where
  "inode_blk i s = blk s (key s (i_buf (inode_table s i)))"

definition zone_of :: "u32 \<Rightarrow> nat \<Rightarrow> 'a fs_state_scheme \<Rightarrow> u16" where
  "zone_of i n s = file_zone (blk s) (i_dev (inode_table s i)) (inode_blk i s) (i_off (inode_table s i)) n"

definition inode_held :: "u32 \<Rightarrow> 'a fs_state_scheme \<Rightarrow> bool" where
  "inode_held i s \<longleftrightarrow> cache_sound s \<and> 0 < buf_refs s (i_buf (inode_table s i))"

lemma bmap_lookup:
  assumes h: "inode_held i s" and sl: "slack s 1" and n: "n < 262663"
  shows "\<exists>u. bmap i (of_nat n) False s = Inr (ucast (zone_of i n s), u) \<and> calm s u"
proof -
  define b where "b = i_buf (inode_table s i)"
  have s: "cache_sound s" "0 < buf_refs s b" using h by (simp_all add: inode_held_def b_def)
  note o = count_opens [OF s sl]
  obtain level index block divider where l: "bmap_level (of_nat n) = (level, index, block, divider)" by (cases "bmap_level (of_nat n)") auto
  obtain u where u: "bmap_loop level (i_dev (inode_table s i)) b (i_off (inode_table s i) + ZONE) index block divider False
      (upd_buf b (\<lambda>t. t\<lparr>b_count := b_count (buffers s b) + 1\<rparr>) s) =
      Inr (ucast (index_walk level (blk s) (i_dev (inode_table s i)) (blk s (key s b)) (i_off (inode_table s i) + ZONE) index block divider), u)"
      "calm s u"
    using walk_loop [OF s(1) sl o(2)] by blast
  have "(of_nat n :: u32) < TOTAL_BLOCK" using n unat_of_nat_small [where 'a = 32, of n] by (simp add: index_consts word_less_nat_alt)
  then have "bmap i (of_nat n) False s = Inr (ucast (zone_of i n s), u)"
    using u(1) o(1) l index_walk_file [OF n l] by (simp add: bmap_def Let_def b_def zone_of_def inode_blk_def)
  then show ?thesis using u(2) by blast
qed

lemma calm_inode:
  assumes "calm s u" and "inode_held i s"
  shows "inode_held i u" "inode_blk i u = inode_blk i s" "zone_of i n u = zone_of i n s" "inode_table u = inode_table s"
    "d_size i u = d_size i s" "d_mode i u = d_mode i s" "slack u m = slack s m"
proof -
  note U = seesD [OF assms(1)]
  have s: "cache_sound s" "0 < buf_refs s (i_buf (inode_table s i))" using assms(2) by (simp_all add: inode_held_def)
  show it: "inode_table u = inode_table s" using U(4) by (simp add: same_kernel_fs)
  show h: "inode_held i u" using U(1,3) s(2) by (simp add: inode_held_def it)
  have k: "key u (i_buf (inode_table s i)) = key s (i_buf (inode_table s i))" using U(5) s(2) by blast
  show ib: "inode_blk i u = inode_blk i s" by (simp add: inode_blk_def it k U(2))
  show "zone_of i n u = zone_of i n s" by (simp add: zone_of_def ib it U(2))
  have "bdata (i_buf (inode_table s i)) u = bdata (i_buf (inode_table s i)) s" using calm_bdata [OF assms(1) s] .
  then show "d_size i u = d_size i s" "d_mode i u = d_mode i s" by (simp_all add: d_size_def d_mode_def it)
  show "slack u m = slack s m" by (rule slack_refs [OF U(3)])
qed

end
