(* ===== verification/Fileio.thy ===== *)
theory Fileio
  imports Fsview
begin

text \<open>
  What reading and writing a file does to the file's bytes: the bytes of a file are those of its blocks, one block
  after another, and \<open>inode_read\<close> and \<open>inode_write\<close> move exactly those that are asked for.
\<close>

section \<open>The bytes of a file\<close>

definition file_byte :: "u32 \<Rightarrow> 'a fs_state_scheme \<Rightarrow> nat \<Rightarrow> u8" where
  "file_byte i s k = blk s (i_dev (inode_table s i), ucast (zone_of i (k div 1024) s)) ! (k mod 1024)"

definition file_bytes :: "u32 \<Rightarrow> 'a fs_state_scheme \<Rightarrow> nat \<Rightarrow> nat \<Rightarrow> u8 list" where
  "file_bytes i s a n = map (file_byte i s) [a..<a + n]"

text \<open>Every byte from \<open>a\<close> on has a block.\<close>

definition no_hole :: "u32 \<Rightarrow> 'a fs_state_scheme \<Rightarrow> nat \<Rightarrow> nat \<Rightarrow> bool" where
  "no_hole i s a n \<longleftrightarrow> (\<forall>k \<in> {a..<a + n}. zone_of i (k div 1024) s \<noteq> 0)"

lemma file_bytes_length [simp]: "length (file_bytes i s a n) = n" by (simp add: file_bytes_def)

lemma file_bytes_0 [simp]: "file_bytes i s a 0 = []" by (simp add: file_bytes_def)

lemma file_bytes_split: "c \<le> n \<Longrightarrow> file_bytes i s a n = file_bytes i s a c @ file_bytes i s (a + c) (n - c)"
  unfolding file_bytes_def using upt_add_eq_append [of a "a + c" "n - c"] by simp

lemma no_hole_split: "c \<le> n \<Longrightarrow> no_hole i s a n \<longleftrightarrow> no_hole i s a c \<and> no_hole i s (a + c) (n - c)"
  unfolding no_hole_def by (auto simp: Ball_def) (metis le_add_diff_inverse add.assoc linorder_not_le)+

text \<open>Within a block.\<close>

lemma same_block:
  assumes "a mod 1024 + j < (1024 :: nat)"
  shows "(a + j) div 1024 = a div 1024" "(a + j) mod 1024 = a mod 1024 + j"
proof -
  have e: "a + j = 1024 * (a div 1024) + (a mod 1024 + j)" by simp
  show "(a + j) div 1024 = a div 1024" using assms by (subst e, subst div_mult_self4) simp_all
  show "(a + j) mod 1024 = a mod 1024 + j" using assms by (subst e, subst mod_mult_self4) simp
qed

lemma file_bytes_block:
  assumes "a mod 1024 + c \<le> 1024" and "length (blk s (i_dev (inode_table s i), ucast (zone_of i (a div 1024) s))) = 1024"
  shows "file_bytes i s a c = take c (drop (a mod 1024) (blk s (i_dev (inode_table s i), ucast (zone_of i (a div 1024) s))))"
proof (rule nth_equalityI)
  define xs where "xs = blk s (i_dev (inode_table s i), ucast (zone_of i (a div 1024) s))"
  have xs: "length xs = 1024" using assms(2) by (simp add: xs_def)
  show "length (file_bytes i s a c) = length (take c (drop (a mod 1024) (blk s (i_dev (inode_table s i), ucast (zone_of i (a div 1024) s)))))"
    unfolding xs_def [symmetric] using xs assms(1) by simp
  fix j
  assume "j < length (file_bytes i s a c)"
  then have j: "j < c" by simp
  then have m: "(a + j) div 1024 = a div 1024" "(a + j) mod 1024 = a mod 1024 + j" using same_block [of a j] assms(1) by simp_all
  have "file_bytes i s a c ! j = file_byte i s (a + j)" by (simp add: file_bytes_def j)
  also have "... = xs ! (a mod 1024 + j)" by (simp only: file_byte_def m xs_def)
  also have "... = take c (drop (a mod 1024) xs) ! j" using j xs assms(1) by simp
  finally show "file_bytes i s a c ! j = take c (drop (a mod 1024) (blk s (i_dev (inode_table s i), ucast (zone_of i (a div 1024) s)))) ! j"
    by (simp only: xs_def)
qed

lemma no_hole_block:
  assumes c: "a mod 1024 + c \<le> 1024" "0 < c"
  shows "no_hole i s a c \<longleftrightarrow> zone_of i (a div 1024) s \<noteq> 0"
proof
  show "zone_of i (a div 1024) s \<noteq> 0" if "no_hole i s a c" using that c(2) by (auto simp: no_hole_def)
  assume z: "zone_of i (a div 1024) s \<noteq> 0"
  show "no_hole i s a c" unfolding no_hole_def
  proof
    fix k
    assume "k \<in> {a..<a + c}"
    then have "a + (k - a) = k" "a mod 1024 + (k - a) < 1024" using c(1) by auto
    then have "k div 1024 = a div 1024" using same_block(1) [of a "k - a"] by (simp only:)
    then show "zone_of i (k div 1024) s \<noteq> 0" using z by (rule ssubst)
  qed
qed

text \<open>A step that changes no block changes no file.\<close>

lemma calm_file:
  assumes "calm s u" and "inode_held i s"
  shows "file_bytes i u = file_bytes i s" "no_hole i u = no_hole i s"
  using calm_inode [OF assms] seesD(2) [OF assms(1)] by (simp_all add: fun_eq_iff file_bytes_def file_byte_def no_hole_def)

lemma file_block_length:
  assumes "cache_sound s"
  shows "length (blk s (d, ucast (z :: u16))) = 1024"
  using bc.view_length [OF assms, of "(d, ucast z)"] zone_small [of z] by simp

text \<open>The two places an offset stands for.\<close>

lemma off_parts:
  assumes "a < 2 ^ 31"
  shows "off_block (of_nat a) = of_nat (a div 1024)" "off_start (of_nat a) = of_nat (a mod 1024)"
proof -
  have s: "sint (of_nat a :: u32) = int a" using assms by (simp add: signed_of_nat signed_take_bit_int_eq_self)
  have "int a sdiv 1024 = int (a div 1024)" "int a smod 1024 = int (a mod 1024)"
    by (cases "a = 0"; simp add: signed_divide_int_def signed_modulo_int_def zdiv_int zmod_int)+
  then show "off_block (of_nat a) = of_nat (a div 1024)" "off_start (of_nat a) = of_nat (a mod 1024)"
    unfolding off_block_def off_start_def s by simp_all
qed

text \<open>The bytes that fit into the block.\<close>

definition chunk :: "nat \<Rightarrow> nat \<Rightarrow> nat" where "chunk a n = min (1024 - a mod 1024) n"

lemma chunk_bounds: "chunk a n \<le> n" "a mod 1024 + chunk a n \<le> 1024" "chunk a n = 0 \<longrightarrow> n = 0" "chunk a n \<le> 1024"
proof -
  have "a mod 1024 < 1024" by simp
  then show "chunk a n \<le> n" "a mod 1024 + chunk a n \<le> 1024" "chunk a n = 0 \<longrightarrow> n = 0" "chunk a n \<le> 1024"
    unfolding chunk_def by linarith+
qed

lemma chunk_word:
  assumes "n < 2 ^ 32"
  shows "min (BLOCK_SIZE - of_nat (a mod 1024)) (of_nat n) = (of_nat (chunk a n) :: u32)"
    "(of_nat n :: u32) - of_nat (chunk a n) = of_nat (n - chunk a n)" "unat (of_nat (chunk a n) :: u32) = chunk a n"
proof -
  have "a mod 1024 \<le> 1024" by simp
  then have b: "BLOCK_SIZE - of_nat (a mod 1024) = (of_nat (1024 - a mod 1024) :: u32)" by (simp add: BLOCK_SIZE_def of_nat_diff)
  have u: "unat (of_nat n :: u32) = n" "unat (of_nat (1024 - a mod 1024) :: u32) = 1024 - a mod 1024"
    using assms by (intro unat_of_nat_small; simp)+
  show "min (BLOCK_SIZE - of_nat (a mod 1024)) (of_nat n) = (of_nat (chunk a n) :: u32)"
    unfolding b chunk_def min_def word_le_nat_alt u by simp
  show "(of_nat n :: u32) - of_nat (chunk a n) = of_nat (n - chunk a n)" using chunk_bounds(1) by (simp add: of_nat_diff)
  show "unat (of_nat (chunk a n) :: u32) = chunk a n" using chunk_bounds(4) [of a n] by (intro unat_of_nat_small) simp
qed

lemma copy_at_eq:
  assumes "unat n + i \<le> length xs" and "unat n \<le> length ys"
  shows "copy_at i ys n xs = Inr (take i xs @ take (unat n) ys @ drop (i + unat n) xs)"
  using assms memcpy_bytes [of "unat n" "drop i xs" ys] by (simp add: copy_at_def memcpy_def add.commute)

section \<open>Reading\<close>

lemma read_step:
  assumes h: "inode_held i s" and sl: "slack s 1" and a: "a < 2 ^ 31" "a div 1024 < 262663" and n: "0 < n" "n < 2 ^ 31"
    and room: "pos + n \<le> length ubuf"
  defines "c \<equiv> chunk a n"
  shows "if zone_of i (a div 1024) s = 0 then read_loop i (of_nat n) (of_nat a) pos ubuf s = Some (Inl Assertion)
    else \<exists>u. calm s u \<and> read_loop i (of_nat n) (of_nat a) pos ubuf s
      = read_loop i (of_nat (n - c)) (of_nat (a + c)) (pos + c) (take pos ubuf @ file_bytes i s a c @ drop (pos + c) ubuf) u"
proof -
  define z where "z = zone_of i (a div 1024) s"
  define d where "d = i_dev (inode_table s i)"
  have s: "cache_sound s" using h by (simp add: inode_held_def)
  have n0: "(of_nat n :: u32) \<noteq> 0" using n unat_of_nat_small [where 'a = 32, of n] by (auto simp: unat_eq_0 [symmetric])
  note o = off_parts [OF a(1)]
  obtain t where t: "bmap i (of_nat (a div 1024)) False s = Inr (ucast z, t)" "calm s t"
    using bmap_lookup [OF h sl a(2)] unfolding z_def by blast
  have z0: "(ucast z :: u32) = 0 \<longleftrightarrow> z = 0" using unat_ucast_zone [of z] by (metis unat_0 unat_eq_0)
  show ?thesis
  proof (cases "z = 0")
    case True
    then show ?thesis using t(1) n0 unfolding z_def [symmetric] by (simp add: read_loop.simps [of i "of_nat n"] o)
  next
    case False
    note T = seesD [OF t(2)]
    have slt: "slack t 1" using slack_refs [OF T(3)] sl by simp
    obtain b v w where b: "bread d (ucast z) t = Inr (b, v)" "opened t (d, ucast z) b v" "brelse b v = Inr w" "calm t w"
      using read_release [OF T(1) zone_small slt, of d z] by blast
    have it: "inode_table t = inode_table s" by (rule calm_inode(4) [OF t(2) h])
    have bd: "bdata b v = blk s (d, ucast z)" using openedD(7) [OF b(2)] T(2) by simp
    have len: "length (blk s (d, ucast z)) = 1024" by (rule file_block_length [OF s])
    note cb = chunk_bounds [of a n, folded c_def] and cw = chunk_word [of n a, folded c_def]
    have fb: "file_bytes i s a c = take c (drop (a mod 1024) (blk s (d, ucast z)))"
      using file_bytes_block [of a c s i] cb(2) len by (simp only: z_def [symmetric] d_def [symmetric])
    have am: "unat (of_nat (a mod 1024) :: u32) = a mod 1024"
    proof (rule unat_of_nat_small)
      have "a mod 1024 < 1024" by simp
      then show "a mod 1024 < 2 ^ LENGTH(32)" by simp
    qed
    have w: "calm s w" by (rule calm_trans [OF t(2) b(4)])
    have ca: "copy_at pos (drop (a mod 1024) (blk s (d, ucast z))) (of_nat c) ubuf
        = Inr (take pos ubuf @ file_bytes i s a c @ drop (pos + c) ubuf)"
      unfolding fb using copy_at_eq [of "of_nat c" pos ubuf "drop (a mod 1024) (blk s (d, ucast z))"] cw(3) n cb room len by simp
    have ch: "min (BLOCK_SIZE - of_nat (a mod 1024)) (of_nat n) = (of_nat c :: u32)" "(of_nat n :: u32) - of_nat c = of_nat (n - c)"
      "unat (of_nat c :: u32) = c" using cw n(2) by simp_all
    have "read_loop i (of_nat n) (of_nat a) pos ubuf s
      = read_loop i (of_nat (n - c)) (of_nat (a + c)) (pos + c) (take pos ubuf @ file_bytes i s a c @ drop (pos + c) ubuf) w"
      using n0 t(1) b(1,3) z0 False
      by (subst read_loop.simps) (simp add: o it d_def [symmetric] bd am ch Let_def ca)
    then show ?thesis using w False unfolding z_def [symmetric] by auto
  qed
qed

lemma read_loop_ok:
  assumes "inode_held i s" and "slack s 1" and "a + n \<le> 262663 * 1024" and "pos + n \<le> length ubuf"
  shows "if no_hole i s a n
    then \<exists>u. calm s u \<and> read_loop i (of_nat n) (of_nat a) pos ubuf s
      = Some (Inr (of_nat (a + n), take pos ubuf @ file_bytes i s a n @ drop (pos + n) ubuf, u))
    else read_loop i (of_nat n) (of_nat a) pos ubuf s = Some (Inl Assertion)"
  using assms
proof (induction n arbitrary: a pos ubuf s rule: less_induct)
  case (less n)
  show ?case
  proof (cases "n = 0")
    case True
    have "calm s s" using less.prems(1) calm_refl by (auto simp: inode_held_def)
    then show ?thesis using True by (auto simp: no_hole_def read_loop.simps)
  next
    case False
    define c where "c = chunk a n"
    note cb = chunk_bounds [of a n, folded c_def]
    have "a div 1024 < 262663" using less.prems(3) False by (simp add: div_less_iff_less_mult)
    then have st: "if zone_of i (a div 1024) s = 0 then read_loop i (of_nat n) (of_nat a) pos ubuf s = Some (Inl Assertion)
      else \<exists>u. calm s u \<and> read_loop i (of_nat n) (of_nat a) pos ubuf s
        = read_loop i (of_nat (n - c)) (of_nat (a + c)) (pos + c) (take pos ubuf @ file_bytes i s a c @ drop (pos + c) ubuf) u"
      using read_step [OF less.prems(1,2), of a n pos ubuf, folded c_def] less.prems(3,4) False by simp
    have nh: "no_hole i s a n \<longleftrightarrow> zone_of i (a div 1024) s \<noteq> 0 \<and> no_hole i s (a + c) (n - c)"
      using no_hole_split [OF cb(1), of i s a] no_hole_block [OF cb(2), of i s] cb(3) False by blast
    show ?thesis
    proof (cases "zone_of i (a div 1024) s = 0")
      case True
      then show ?thesis using st nh by simp
    next
      case nz: False
      then obtain u where u: "calm s u" "read_loop i (of_nat n) (of_nat a) pos ubuf s
        = read_loop i (of_nat (n - c)) (of_nat (a + c)) (pos + c) (take pos ubuf @ file_bytes i s a c @ drop (pos + c) ubuf) u"
        using st by auto
      note f = calm_file [OF u(1) less.prems(1)] and ci = calm_inode [OF u(1) less.prems(1)]
      let ?ub = "take pos ubuf @ file_bytes i s a c @ drop (pos + c) ubuf"
      have lt: "n - c < n" using cb(3) False by linarith
      have e: "a + c + (n - c) = a + n" "pos + c + (n - c) = pos + n" using cb(1) by simp_all
      have "length ?ub = length ubuf" using less.prems(4) cb(1) by simp
      then have r: "a + c + (n - c) \<le> 262663 * 1024" "pos + c + (n - c) \<le> length ?ub" unfolding e using less.prems(3,4) by simp_all
      have "slack u 1" using ci(7) less.prems(2) by simp
      note IH0 = less.IH [OF lt ci(1) this r, unfolded e]
      have IH: "if no_hole i u (a + c) (n - c)
        then \<exists>v. calm u v \<and> read_loop i (of_nat (n - c)) (of_nat (a + c)) (pos + c) ?ub u
          = Some (Inr (of_nat (a + n), take (pos + c) ?ub @ file_bytes i u (a + c) (n - c) @ drop (pos + n) ?ub, v))
        else read_loop i (of_nat (n - c)) (of_nat (a + c)) (pos + c) ?ub u = Some (Inl Assertion)"
        by (rule IH0)
      have k: "take (pos + c) ?ub = take pos ubuf @ file_bytes i s a c" "drop (pos + n) ?ub = drop (pos + n) ubuf"
        using less.prems(4) cb(1) by (simp_all add: add.commute)
      show ?thesis
      proof (cases "no_hole i s (a + c) (n - c)")
        case True
        then obtain v where v: "calm u v" "read_loop i (of_nat (n - c)) (of_nat (a + c)) (pos + c) ?ub u
          = Some (Inr (of_nat (a + n), take pos ubuf @ file_bytes i s a n @ drop (pos + n) ubuf, v))"
          using IH unfolding k f file_bytes_split [OF cb(1)] by auto
        then show ?thesis using nz True calm_trans [OF u(1) v(1)] unfolding nh u(2) by auto
      next
        case F: False
        then show ?thesis using IH F unfolding f nh u(2) by simp
      qed
    qed
  qed
qed

text \<open>The tables of the file system are no part of the cache.\<close>

lemma same_cache:
  fixes s t :: "'a fs_state_scheme"
  assumes b: "buffers t = buffers s" "buffer_count t = buffer_count s" "buffer_ptr t = buffer_ptr s" "buffer_data t = buffer_data s"
    "disk t = disk s" "wait_list t = wait_list s" "nodes t = nodes s" "hnodes t = hnodes s" "rnodes t = rnodes s"
    "mutex_value t = mutex_value s" "lock_holder t = lock_holder s" "lock_repeat t = lock_repeat s"
  shows "cache_sound t = cache_sound s" "blk t = blk s" "buf_refs t = buf_refs s" "key t = key s" "slack t n = slack s n"
    "bdata c t = bdata c s"
proof -
  show k: "key t = key s" by (simp add: key_def b fun_eq_iff)
  show "bdata c t = bdata c s" by (simp add: bdata_def b)
  have a: "allocated t = allocated s" "disk_block t = disk_block s" "free_lock t = free_lock s"
    by (simp_all add: allocated_def disk_block_def disk_read_def free_lock_def b fun_eq_iff)
  have u: "in_use t = in_use s" by (simp add: in_use_def a b)
  show r: "buf_refs t = buf_refs s" by (simp add: buf_refs_def a b fun_eq_iff)
  show "blk t = blk s" unfolding fun_eq_iff blk_def a b k by blast
  have "cache_rel t H F = cache_rel s H F" for H F by (simp only: cache_rel_def a b k)
  then show "cache_sound t = cache_sound s" by (simp only: cache_sound_def cache_inv_def buffers_ok_def a b k u)
  show "slack t n = slack s n" by (simp only: slack_def u r)
qed

lemma cache_upd_inode [simp]:
  "cache_sound (upd_inode i f s) = cache_sound s" "blk (upd_inode i f s) = blk s" "buf_refs (upd_inode i f s) = buf_refs s"
  "key (upd_inode i f s) = key s" "slack (upd_inode i f s) n = slack s n" "bdata b (upd_inode i f s) = bdata b s"
  by (rule same_cache; simp add: upd_inode_def)+

lemma cache_super_table [simp]:
  "cache_sound (s\<lparr>super_table := x\<rparr>) = cache_sound s" "blk (s\<lparr>super_table := x\<rparr>) = blk s"
  "buf_refs (s\<lparr>super_table := x\<rparr>) = buf_refs s" "key (s\<lparr>super_table := x\<rparr>) = key s"
  "slack (s\<lparr>super_table := x\<rparr>) n = slack s n" "bdata b (s\<lparr>super_table := x\<rparr>) = bdata b s"
  by (rule same_cache; simp)+

text \<open>Reading an open file: at or behind its end nothing is read; else the bytes up to the end of the file or of the
  request, unless there is a hole, where the code stops.\<close>

definition can_read :: "u32 \<Rightarrow> 'a fs_state_scheme \<Rightarrow> bool" where
  "can_read i s \<longleftrightarrow> inode_held i s \<and> slack s 1 \<and> unat (d_size i s) \<le> 262663 * 1024 \<and> (ISFILE (d_mode i s) \<or> ISDIR (d_mode i s))"

lemma inode_read_ok:
  assumes "can_read i s" and n: "n = min (unat len) (unat (d_size i s) - unat offset)" and room: "n \<le> length ubuf"
  shows "offset \<ge> d_size i s \<Longrightarrow> inode_read i ubuf len offset s = Inr (EOF, ubuf, s)"
    and "offset < d_size i s \<Longrightarrow> no_hole i s (unat offset) n \<Longrightarrow>
      \<exists>u. calm s u \<and> inode_read i ubuf len offset s
        = Inr (of_nat n, file_bytes i s (unat offset) n @ drop n ubuf, upd_inode i (\<lambda>t. t\<lparr>i_atime := time s\<rparr>) u)"
    and "offset < d_size i s \<Longrightarrow> \<not> no_hole i s (unat offset) n \<Longrightarrow> inode_read i ubuf len offset s = Inl Assertion"
proof -
  have h: "inode_held i s" "slack s 1" "unat (d_size i s) \<le> 262663 * 1024" and m: "ISFILE (d_mode i s) \<or> ISDIR (d_mode i s)"
    using assms(1) by (simp_all add: can_read_def)
  show "offset \<ge> d_size i s \<Longrightarrow> inode_read i ubuf len offset s = Inr (EOF, ubuf, s)" using m by (simp add: inode_read_def)
  assume o: "offset < d_size i s"
  then have ol: "unat offset < unat (d_size i s)" by (simp add: word_less_nat_alt)
  have an: "unat offset + n \<le> 262663 * 1024" using h(3) n ol by simp
  have l: "min len (d_size i s - offset) = of_nat n"
    unfolding n using o by (simp add: min_def word_le_nat_alt unat_sub_le word_less_nat_alt)
  note rl = read_loop_ok [OF h(1,2) an, of 0 ubuf]
  have rd: "inode_read i ubuf len offset s = bindE (returns (read_loop i (of_nat n) (of_nat (unat offset)) 0 ubuf s)) (\<lambda>(last, ubuf, s).
       Inr (last - offset, ubuf, upd_inode i (\<lambda>t. t\<lparr>i_atime := time s\<rparr>) s))"
  proof -
    have "\<not> offset \<ge> d_size i s" using o by (simp only: linorder_not_le)
    then show ?thesis using m l by (simp add: inode_read_def)
  qed
  show "inode_read i ubuf len offset s = Inl Assertion" if "\<not> no_hole i s (unat offset) n" using rl that room unfolding rd by simp
  assume "no_hole i s (unat offset) n"
  then obtain u where u: "calm s u" "read_loop i (of_nat n) (of_nat (unat offset)) 0 ubuf s
    = Some (Inr (of_nat (unat offset + n), file_bytes i s (unat offset) n @ drop n ubuf, u))" using rl room by auto
  have "time u = time s" using same_kernel_fs(8) [OF seesD(4) [OF u(1)]] .
  then show "\<exists>u. calm s u \<and> inode_read i ubuf len offset s
        = Inr (of_nat n, file_bytes i s (unat offset) n @ drop n ubuf, upd_inode i (\<lambda>t. t\<lparr>i_atime := time s\<rparr>) u)"
    using u unfolding rd by (auto intro!: exI [of _ u])
qed

section \<open>A small file system\<close>

text \<open>Block 1 is the super block, 3 the map of blocks, 4 holds the inodes. The first inode is a file of 1030 bytes in
  the blocks 5 and 6, the second a directory of four entries in block 15, one of them removed; 7 to 14 are free.\<close>

definition example_block :: "u32 \<Rightarrow> u8 list" where
  "example_block n =
     (if n = 1 then [32, 0, 16, 0, 1, 0, 1, 0, 5, 0, 0, 0, 0, 0, 0, 0, 0x7f, 0x13] @ replicate 1006 0
      else if n = 2 then [3] @ replicate 1023 0
      else if n = 3 then [7, 0xf8] @ replicate 1022 0xff
      else if n = 4 then [0xa4, 0x81, 0, 0, 6, 4, 0, 0, 0, 0, 0, 0, 0, 1, 5, 0, 6, 0, 0, 0, 0, 0, 0, 0, 0, 0, 0, 0, 0, 0, 0, 0,
        0xed, 0x41, 0, 0, 64, 0, 0, 0, 0, 0, 0, 0, 0, 2, 15, 0] @ replicate 976 0
      else if n = 5 then replicate 1024 65
      else if n = 6 then [1, 2, 3, 4, 5, 6] @ replicate 1018 0
      else if n = 15 then [2, 0, 0x2e, 0, 0, 0, 0, 0, 0, 0, 0, 0, 0, 0, 0, 0, 1, 0, 0x2e, 0x2e, 0, 0, 0, 0, 0, 0, 0, 0, 0, 0, 0, 0,
        0, 0, 0x61, 0x62, 0, 0, 0, 0, 0, 0, 0, 0, 0, 0, 0, 0, 1, 0, 0x63, 0x64, 0, 0, 0, 0, 0, 0, 0, 0, 0, 0, 0, 0] @ replicate 960 0
      else replicate 1024 0)"

definition example_disk :: fs_state where
  "example_disk = kernel_t.extend example_sched
     \<lparr>mutex_value = \<lambda>_. False, lock_holder = \<lambda>_. None, lock_repeat = \<lambda>_. 0,
      buffers = \<lambda>_. \<lparr>b_data = [], b_dev = 0, b_block = 0, b_count = 0, b_dirty = False, b_valid = False\<rparr>,
      hnodes = \<lambda>_. \<lparr>node_prev = None, node_next = None\<rparr>, rnodes = \<lambda>_. \<lparr>node_prev = None, node_next = None\<rparr>,
      buffer_count = 0, buffer_ptr = KERNEL_BUFFER_MEM, buffer_data = KERNEL_BUFFER_MEM + KERNEL_BUFFER_SIZE - BLOCK_SIZE,
      wait_list = 0, disk = (\<lambda>d i. take 512 (drop (512 * (unat i mod 2)) (example_block (of_nat (unat i div 2))))),
      super_table = [], root = None,
      inode_table = \<lambda>_. \<lparr>i_buf = 0, i_off = 0, i_dev = 0, i_nr = 0, i_count = 0, i_atime = 0, i_ctime = 0\<rparr>,
      inode_nodes = \<lambda>_. \<lparr>node_prev = None, node_next = None\<rparr>,
      file_table = \<lambda>_. \<lparr>f_inode = None, f_count = 0, f_offset = 0, f_flags = 0, f_mode = 0\<rparr>,
      pwd_page = \<lambda>_. [], startup = 0\<rparr>"

definition example_files :: fs_state where "example_files = buffer_init example_disk"

lemma example_files_start: "cache_sound example_files" "in_use example_files = {}" "n < 16 \<Longrightarrow> blk example_files (3, n) = example_block n"
proof -
  have len: "length (example_block n) = 1024" for n by (simp add: example_block_def)
  have e: "hnodes example_disk = (\<lambda>_. \<lparr>node_prev = None, node_next = None\<rparr>)"
    "rnodes example_disk = (\<lambda>_. \<lparr>node_prev = None, node_next = None\<rparr>)" "buffer_count example_disk = 0"
    "buffer_ptr example_disk = KERNEL_BUFFER_MEM"
    "buffer_data example_disk = KERNEL_BUFFER_MEM + KERNEL_BUFFER_SIZE - BLOCK_SIZE"
    "disk example_disk = (\<lambda>d i. take 512 (drop (512 * (unat i mod 2)) (example_block (of_nat (unat i div 2)))))"
    by (simp_all add: example_disk_def kernel_t.defs)
  have "length (disk example_disk d i) = 512" for d i
  proof -
    have "unat i mod 2 < 2" by simp
    then show ?thesis by (simp add: e(6) len)
  qed
  then have i: "cache_sound (buffer_init example_disk)" "in_use (buffer_init example_disk) = {}" "disk (buffer_init example_disk) = disk example_disk"
    using buffer_init_sound [of example_disk, unfolded e, OF store_rel_empty_store store_rel_empty_store] e(6) by simp_all
  have s: "example_files = buffer_init example_disk" by (simp add: example_files_def)
  show "cache_sound example_files" "in_use example_files = {}" using i unfolding s by simp_all
  assume n: "n < 16"
  have "blk (buffer_init example_disk) (3, n) = disk_block (buffer_init example_disk) (3, n)"
    using bc.view_stored [OF i(1), of "(3, n)"] buf_refs_in_use [of "buffer_init example_disk"] i(2) n by (auto intro: less_trans)
  also have "... = disk example_disk 3 (n * 2) @ disk example_disk 3 (n * 2 + 1)" using n by (simp add: disk_block_two i(3) less_trans)
  also have "... = example_block n"
  proof -
    have "unat n < 16" using n by (simp add: word_less_nat_alt)
    then have "unat (n * 2) = 2 * unat n" "unat (n * 2 + 1) = 2 * unat n + 1" by (simp_all add: unat_word_ariths)
    then show ?thesis using len [of n] by (simp add: e(6))
  qed
  finally show "blk example_files (3, n) = example_block n" by (simp add: s)
qed

text \<open>The super block, the map of blocks and the block of inodes in buffers of their own.\<close>

definition example_open :: "fs_state \<Rightarrow> u32 \<Rightarrow> u32 \<Rightarrow> u32 \<Rightarrow> bool" where
  "example_open s bs bz bi \<longleftrightarrow> cache_sound s \<and> slack s 8 \<and> 0 < buf_refs s bs \<and> 0 < buf_refs s bz \<and> 0 < buf_refs s bi
     \<and> key s bs = (3, 1) \<and> key s bz = (3, 3) \<and> key s bi = (3, 4) \<and> (\<forall>n < 16. blk s (3, n) = example_block n)"

lemma example_opened: "\<exists>s bs bz bi. example_open s bs bz bi"
proof -
  note st = example_files_start
  have no_refs: "buf_refs example_files b = 0" for b using refs_pos [of example_files b] st(2) by simp
  have s11: "slack example_files 11" using st(2) no_refs by (simp add: slack_def MAX_BUFFERS_def)
  obtain bs t where t: "opened example_files (3, 1) bs t"
    using bread_opens [OF st(1) _ slack_less [OF s11], of 1 3] by auto
  note T = openedD [OF t]
  have s10: "slack t 10" using slack_add [OF _ T(4)] s11 by simp
  obtain bz u where u: "opened t (3, 3) bz u" using bread_opens [OF T(1) _ slack_less [OF s10], of 3 3] by auto
  note U = openedD [OF u]
  have s9: "slack u 9" using slack_add [OF _ U(4)] s10 by simp
  obtain bi v where v: "opened u (3, 4) bi v" using bread_opens [OF U(1) _ slack_less [OF s9], of 4 3] by auto
  note V = openedD [OF v]
  have s8: "slack v 8" using slack_add [OF _ V(4)] s9 by simp
  have "key v bs = (3, 1)" "key v bz = (3, 3)" using T(3,4) U(3,4,6) V(6) by simp_all
  moreover have "blk v (3, n) = example_block n" if "n < 16" for n using st(3) [OF that] T(2) U(2) V(2) by simp
  ultimately have "example_open v bs bz bi" using V s8 T(4) U(4) by (simp add: example_open_def)
  then show ?thesis by blast
qed

text \<open>The first inode in entry 0 of the table, and the super block mounted.\<close>

definition example_mount :: "fs_state \<Rightarrow> u32 \<Rightarrow> u32 \<Rightarrow> u32 \<Rightarrow> fs_state" where
  "example_mount s bs bz bi =
     upd_inode 0 (\<lambda>_. \<lparr>i_buf = bi, i_off = 0, i_dev = 3, i_nr = 1, i_count = 1, i_atime = 0, i_ctime = 0\<rparr>)
       (s\<lparr>super_table := \<lparr>s_buf = Some bs, s_imaps = replicate 8 None, s_zmaps = Some bz # replicate 7 None, s_dev = 3,
            s_iroot = None, s_imount = None\<rparr> # replicate 15 \<lparr>s_buf = None, s_imaps = [], s_zmaps = [], s_dev = EOF,
            s_iroot = None, s_imount = None\<rparr>\<rparr>)"

lemma example_block_bytes:
  "get16 (example_block 4) 0 = 0x81a4" "get32 (example_block 4) 4 = 1030" "get16 (example_block 4) 14 = 5"
  "get16 (example_block 4) 16 = 6" "2 \<le> k \<Longrightarrow> k < 9 \<Longrightarrow> get16 (example_block 4) (14 + 2 * k) = 0"
proof -
  show "get16 (example_block 4) 0 = 0x81a4" "get32 (example_block 4) 4 = 1030" "get16 (example_block 4) 14 = 5"
    "get16 (example_block 4) 16 = 6"
    by (simp_all add: example_block_def get16_def get32_def)
  assume "2 \<le> k" "k < 9"
  then show "get16 (example_block 4) (14 + 2 * k) = 0" by (simp add: example_block_def get16_def nth_append nth_Cons')
qed

lemma example_inode:
  assumes "example_open s bs bz bi"
  defines "t \<equiv> example_mount s bs bz bi"
  shows "cache_sound t" "blk t = blk s" "key t = key s" "buf_refs t = buf_refs s" "slack t n = slack s n" "inode_held 0 t"
    "i_dev (inode_table t 0) = 3" "i_off (inode_table t 0) = 0" "i_buf (inode_table t 0) = bi"
    "inode_blk 0 t = example_block 4" "d_size 0 t = 1030" "d_mode 0 t = 0x81a4"
    "zone_of 0 0 t = 5" "zone_of 0 1 t = 6"
proof -
  have e: "cache_sound s" "0 < buf_refs s bi" "key s bi = (3, 4)" "blk s (3, 4) = example_block 4"
    using assms(1) by (simp_all add: example_open_def)
  show c: "cache_sound t" "blk t = blk s" "key t = key s" "buf_refs t = buf_refs s" "slack t n = slack s n"
    using e(1) by (simp_all add: t_def example_mount_def)
  show i: "i_dev (inode_table t 0) = 3" "i_off (inode_table t 0) = 0" "i_buf (inode_table t 0) = bi"
    by (simp_all add: t_def example_mount_def upd_inode_def)
  show "inode_held 0 t" using c e by (simp add: inode_held_def i)
  show ib: "inode_blk 0 t = example_block 4" using e by (simp add: inode_blk_def i c)
  have bd: "bdata bi t = example_block 4" using bdata_blk [OF c(1), of bi] e c by simp
  show "d_size 0 t = 1030" "d_mode 0 t = 0x81a4" by (simp_all add: d_size_def d_mode_def i bd example_block_bytes)
  show "zone_of 0 0 t = 5" "zone_of 0 1 t = 6" by (simp_all add: zone_of_def file_zone_def ib i ZONE_def example_block_bytes)
qed

section \<open>Properties\<close>

text \<open>
  C33. Reading from an open file or directory: at or behind its end the call gives EOF and changes nothing. Else it
  gives the bytes of the file's blocks from the offset on, as many as asked for and as there are up to the end of the file,
  at the start of the caller's buffer, and no block of any file changes, whether the blocks are reached directly, through
  the first or through the second index; exactly when one of these bytes has no block the code stops at an assertion.
\<close>

theorem inode_read_exact:
  assumes "can_read i s" and "n = min (unat len) (unat (d_size i s) - unat offset)" and "n \<le> length ubuf"
  shows "case inode_read i ubuf len offset s of
      Inl e \<Rightarrow> e = Assertion \<and> offset < d_size i s \<and> \<not> no_hole i s (unat offset) n
    | Inr (r, buf, t) \<Rightarrow>
        if offset \<ge> d_size i s then r = EOF \<and> buf = ubuf \<and> t = s
        else no_hole i s (unat offset) n \<and> r = of_nat n \<and> buf = file_bytes i s (unat offset) n @ drop n ubuf
          \<and> cache_sound t \<and> blk t = blk s \<and> buf_refs t = buf_refs s"
proof (cases "offset \<ge> d_size i s")
  case True
  then show ?thesis using inode_read_ok(1) [OF assms] by simp
next
  case False
  then have o: "offset < d_size i s" by (simp only: linorder_not_le)
  show ?thesis
  proof (cases "no_hole i s (unat offset) n")
    case True
    then obtain u where "calm s u" "inode_read i ubuf len offset s
        = Inr (of_nat n, file_bytes i s (unat offset) n @ drop n ubuf, upd_inode i (\<lambda>t. t\<lparr>i_atime := time s\<rparr>) u)"
      using inode_read_ok(2) [OF assms o] by blast
    then show ?thesis using True False seesD [of s "blk s" u] by simp
  next
    case nh: False
    then show ?thesis using inode_read_ok(3) [OF assms o nh] o by simp
  qed
qed

theorem inode_read_exact_witness:
  "\<exists>(s :: fs_state) t. inode_read 0 (replicate 12 0) 100 1020 s = Inr (10, [65, 65, 65, 65, 1, 2, 3, 4, 5, 6, 0, 0], t)"
proof -
  obtain s0 bs bz bi where e: "example_open s0 bs bz bi" using example_opened by blast
  define s where "s = example_mount s0 bs bz bi"
  note x = example_inode [OF e, folded s_def]
  have sl: "slack s 1" using slack_less [of s0 8 1] e x(5) by (simp add: example_open_def)
  have b: "blk s (3, 5) = replicate 1024 65" "blk s (3, 6) = [1, 2, 3, 4, 5, 6] @ replicate 1018 0"
    using e x(2) by (simp_all add: example_open_def example_block_def)
  have cr: "can_read 0 s" using x sl by (simp add: can_read_def ISFILE_def IFMT_def IFREG_def)
  have r: "[1020..<1020 + 10] = [1020, 1021, 1022, 1023, 1024, 1025, 1026, 1027, 1028, 1029 :: nat]" by (simp add: upt_rec)
  have "no_hole 0 s 1020 10"
  proof -
    have "k div 1024 = 0 \<or> k div 1024 = 1" if "k \<in> {1020..<1020 + 10}" for k :: nat using that by auto
    then show ?thesis using x(13,14) by (force simp: no_hole_def)
  qed
  moreover have "file_bytes 0 s 1020 10 = [65, 65, 65, 65, 1, 2, 3, 4, 5, 6]"
    using x(7,13,14) b unfolding file_bytes_def r by (simp add: file_byte_def)
  ultimately have f: "no_hole 0 s 1020 10" "file_bytes 0 s 1020 10 = [65, 65, 65, 65, 1, 2, 3, 4, 5, 6]" by blast+
  have n: "10 = min (unat (100 :: u32)) (unat (d_size 0 s) - unat (1020 :: u32))" unfolding x(11) by simp
  have d: "\<not> (1020 :: u32) \<ge> d_size 0 s" "unat (1020 :: u32) = 1020" unfolding x(11) by simp_all
  have r2: "drop 10 (replicate 12 0) = [0, 0 :: u8]" by (simp add: numeral_2_eq_2)
  have "10 \<le> length (replicate 12 (0 :: u8))" by simp
  then have "case inode_read 0 (replicate 12 0) 100 1020 s of Inl e \<Rightarrow> False | Inr (r, buf, t) \<Rightarrow> r = 10 \<and> buf = [65, 65, 65, 65, 1, 2, 3, 4, 5, 6] @ [0, 0]"
    using inode_read_exact [OF cr n, of "replicate 12 0", unfolded d(2)] f unfolding if_not_P [OF d(1)] d(2) r2
    by (auto split: sum.splits prod.splits)
  then show ?thesis by (auto split: sum.splits)
qed

end
