(* ===== verification/Alloc.thy ===== *)
theory Alloc
  imports Fileio
begin

text \<open>
  The blocks in use of a mounted file system, as the map of blocks has them: \<open>balloc\<close> takes the lowest free
  one, \<open>bfree\<close> gives one back, and neither touches a block of a file. The statements are about a file system
  with one block of map, 8192 blocks of data.
\<close>

section \<open>The map of blocks\<close>

definition zone_first :: "nat \<Rightarrow> 'a fs_state_scheme \<Rightarrow> u16" where
  "zone_first sb s = get16 (blk s (key s (the (s_buf (super_table s ! sb))))) 8"

definition zone_end :: "nat \<Rightarrow> 'a fs_state_scheme \<Rightarrow> u16" where
  "zone_end sb s = get16 (blk s (key s (the (s_buf (super_table s ! sb))))) 2"

definition zone_map :: "nat \<Rightarrow> 'a fs_state_scheme \<Rightarrow> bitmap_t" where
  "zone_map sb s = bitmap_make (blk s (key s (the (s_zmaps (super_table s ! sb) ! 0)))) 1024 (ucast (zone_first sb s) - 1)"

definition zones_used :: "nat \<Rightarrow> 'a fs_state_scheme \<Rightarrow> nat set" where "zones_used sb s = bm_used (zone_map sb s)"

definition zones_all :: "nat \<Rightarrow> 'a fs_state_scheme \<Rightarrow> nat set" where
  "zones_all sb s = {unat (zone_first sb s) - 1 ..< unat (zone_first sb s) + 8191}"

text \<open>The super block and the only block of the map of blocks are in buffers, which are held.\<close>

definition mounted :: "u32 \<Rightarrow> nat \<Rightarrow> u32 \<Rightarrow> u32 \<Rightarrow> 'a fs_state_scheme \<Rightarrow> bool" where
  "mounted dev sb bs bz s \<longleftrightarrow> cache_sound s \<and> get_super dev s = Some sb
     \<and> s_buf (super_table s ! sb) = Some bs \<and> s_zmaps (super_table s ! sb) ! 0 = Some bz \<and> s_zmaps (super_table s ! sb) ! 1 = None
     \<and> 0 < buf_refs s bs \<and> 0 < buf_refs s bz \<and> key s bs \<noteq> key s bz \<and> 0 < zone_first sb s"

lemma mountedD:
  assumes "mounted dev sb bs bz s"
  shows "cache_sound s" "get_super dev s = Some sb" "s_buf (super_table s ! sb) = Some bs" "s_zmaps (super_table s ! sb) ! 0 = Some bz"
    "s_zmaps (super_table s ! sb) ! 1 = None" "0 < buf_refs s bs" "0 < buf_refs s bz" "key s bs \<noteq> key s bz" "0 < zone_first sb s"
    "bdata bs s = blk s (key s bs)" "bdata bz s = blk s (key s bz)" "length (blk s (key s bz)) = 1024"
    "zone_map sb s = bitmap_make (blk s (key s bz)) 1024 (ucast (zone_first sb s) - 1)"
    "zone_first sb s = get16 (blk s (key s bs)) 8" "zone_end sb s = get16 (blk s (key s bs)) 2"
proof -
  show m: "cache_sound s" "get_super dev s = Some sb" "s_buf (super_table s ! sb) = Some bs" "s_zmaps (super_table s ! sb) ! 0 = Some bz"
    "s_zmaps (super_table s ! sb) ! 1 = None" "0 < buf_refs s bs" "0 < buf_refs s bz" "key s bs \<noteq> key s bz" "0 < zone_first sb s"
    using assms unfolding mounted_def by blast+
  show "bdata bs s = blk s (key s bs)" "bdata bz s = blk s (key s bz)" "length (blk s (key s bz)) = 1024"
    using m(1,6,7) by (simp_all add: bdata_blk blk_length)
  show "zone_map sb s = bitmap_make (blk s (key s bz)) 1024 (ucast (zone_first sb s) - 1)" by (simp add: zone_map_def m(4))
  show "zone_first sb s = get16 (blk s (key s bs)) 8" "zone_end sb s = get16 (blk s (key s bs)) 2"
    by (simp_all add: zone_first_def zone_end_def m(3))
qed

text \<open>A change of other blocks, or of the map, leaves it mounted.\<close>

lemma mounted_sees:
  assumes "mounted dev sb bs bz s" and "sees s v t" and "v (key s bs) = blk s (key s bs)"
  shows "mounted dev sb bs bz t" "zone_first sb t = zone_first sb s" "zone_end sb t = zone_end sb s" "key t bz = key s bz" "key t bs = key s bs"
    "zones_all sb t = zones_all sb s" "v (key s bz) = blk s (key s bz) \<Longrightarrow> zones_used sb t = zones_used sb s"
proof -
  note m = mountedD [OF assms(1)] and u = seesD [OF assms(2)]
  have t: "super_table t = super_table s" "get_super dev t = get_super dev s" using same_kernel_fs [OF u(4)] by blast+
  show k: "key t bz = key s bz" "key t bs = key s bs" using u(5) m(6,7) by blast+
  show f: "zone_first sb t = zone_first sb s" "zone_end sb t = zone_end sb s" unfolding zone_first_def zone_end_def t m(3)
    by (simp_all add: k u(2) assms(3))
  show "mounted dev sb bs bz t" using m u(1,3) k f(1) t by (simp add: mounted_def)
  show "zones_all sb t = zones_all sb s" by (simp add: zones_all_def f)
  show "zones_used sb t = zones_used sb s" if "v (key s bz) = blk s (key s bz)"
    unfolding zones_used_def zone_map_def t m(4) f(1) using that by (simp add: k u(2))
qed

lemma first_word:
  assumes "0 < (z :: u16)"
  shows "unat (ucast z - 1 :: u32) = unat z - 1" "unat z < 65536" "0 < unat z"
proof -
  have "unat z < 2 ^ LENGTH(16)" by (rule unsigned_less)
  then show "unat z < 65536" by simp
  show p: "0 < unat z" using assms by (simp add: word_less_nat_alt)
  then have "(1 :: u32) \<le> ucast z" by (simp add: word_le_nat_alt unat_ucast_zone)
  then show "unat (ucast z - 1 :: u32) = unat z - 1" by (simp add: unat_sub_le unat_ucast_zone)
qed

lemma map_facts:
  assumes "mounted dev sb bs bz s"
  shows "bm_inv (zone_map sb s)" "bm_univ (zone_map sb s) = zones_all sb s" "zones_used sb s \<subseteq> zones_all sb s"
    "i \<in> zones_all sb s \<Longrightarrow> i < 73728" "bm_bits (zone_map sb s) = blk s (key s bz)"
proof -
  note m = mountedD [OF assms] and f = first_word [OF mountedD(9) [OF assms]]
  show "bm_inv (zone_map sb s)" using m(12) f by (simp add: m(13) bm_inv_def bitmap_make_def)
  show u: "bm_univ (zone_map sb s) = zones_all sb s"
    using f by (auto simp: m(13) bm_univ_def bm_first_def bm_size_def bitmap_make_def zones_all_def)
  show "zones_used sb s \<subseteq> zones_all sb s" unfolding u [symmetric] by (auto simp: zones_used_def bm_univ_def mem_bm_used)
  show "i \<in> zones_all sb s \<Longrightarrow> i < 73728" using f(2) by (auto simp: zones_all_def)
  show "bm_bits (zone_map sb s) = blk s (key s bz)" by (simp add: m(13) bitmap_make_def)
qed

text \<open>The operations on a map keep its shape, and the bits are those the used numbers say.\<close>

lemma bitmap_set_shape: "bitmap_set m i v = Inr m' \<Longrightarrow> length (bm_bits m') = length (bm_bits m) \<and> bm_length m' = bm_length m \<and> bm_offset m' = bm_offset m"
  by (auto simp: bitmap_set_def Let_def bindE_eq_Inr kassert_eq_Inr wr_eq_Inr)

lemma mark_loop_shape:
  "mark_loop n b m = Inr m' \<Longrightarrow> length (bm_bits m') = length (bm_bits m) \<and> bm_length m' = bm_length m \<and> bm_offset m' = bm_offset m"
proof (induction n arbitrary: b m)
  case (Suc n)
  then obtain m1 where "bitmap_set m (bm_offset m + b) True = Inr m1" "mark_loop n (b + 1) m1 = Inr m'"
    by (auto simp: bindE_eq_Inr)
  then show ?case using Suc.IH bitmap_set_shape by metis
qed simp

lemma bitmap_scan_shape:
  assumes "bitmap_scan m c = Inr (r, m')"
  shows "length (bm_bits m') = length (bm_bits m)" "bm_length m' = bm_length m" "bm_offset m' = bm_offset m"
  using assms mark_loop_shape by (auto simp: bitmap_scan_def bindE_eq_Inr split: if_splits prod.splits)

lemma bits_of_used:
  assumes "bm_used m = bm_used m'" and "bm_length m = bm_length m'" and "bm_offset m = bm_offset m'"
    and "length (bm_bits m) = unat (bm_length m)" and "length (bm_bits m') = unat (bm_length m)"
  shows "m = m'"
proof -
  have "bm_bits m = bm_bits m'"
  proof (rule nth_equalityI)
    show "length (bm_bits m) = length (bm_bits m')" using assms(4,5) by simp
    fix j
    assume j: "j < length (bm_bits m)"
    show "bm_bits m ! j = bm_bits m' ! j"
    proof (rule bit_word_eqI)
      fix k
      assume "k < LENGTH(8)"
      then have k: "k < 8" by simp
      then have i: "8 * j + k < bm_size m" "(8 * j + k) div 8 = j" "(8 * j + k) mod 8 = k" using j assms(4) by (simp_all add: bm_size_def)
      have f: "bm_first m' = bm_first m" "bm_size m' = bm_size m" using assms(2,3) by (simp_all add: bm_first_def bm_size_def)
      have "bm_first m + (8 * j + k) \<in> bm_used m \<longleftrightarrow> bit (bm_bits m ! j) k" using i by (simp add: mem_bm_used bm_bit_def)
      moreover have "bm_first m + (8 * j + k) \<in> bm_used m' \<longleftrightarrow> bit (bm_bits m' ! j) k" using i f by (simp add: mem_bm_used bm_bit_def)
      ultimately show "bit (bm_bits m ! j) k = bit (bm_bits m' ! j) k" using assms(1) by simp
    qed
  qed
  then show ?thesis using assms(2,3) by (simp add: bitmap_t.equality)
qed

section \<open>Taking and giving back a block\<close>

lemma small_not_EOF: "a < 73728 \<Longrightarrow> (of_nat a :: u32) \<noteq> EOF" "a < 73728 \<Longrightarrow> unat (of_nat a :: u32) = a"
proof -
  show u: "unat (of_nat a :: u32) = a" if "a < 73728" using that by (intro unat_of_nat_small) simp
  show "(of_nat a :: u32) \<noteq> EOF" if "a < 73728"
  proof
    assume "(of_nat a :: u32) = EOF"
    then have "a = unat EOF" using u [OF that] by simp
    then show False using that by (simp add: EOF_def unsigned_minus_1_eq_mask mask_eq_exp_minus_1)
  qed
qed

text \<open>Storing new bits in the map's buffer, marked dirty and written.\<close>

lemma store_map:
  assumes m: "mounted dev sb bs bz s" and b: "bm_length m' = bm_length (zone_map sb s)" "bm_offset m' = bm_offset (zone_map sb s)"
    "length (bm_bits m') = 1024"
  shows "mounted dev sb bs bz (bstore bz (\<lambda>_. bm_bits m') s)"
    and "\<exists>t. bwrite bz (bdirty bz (bstore bz (\<lambda>_. bm_bits m') s)) = t \<and> sees s ((blk s)(key s bz := bm_bits m')) t
      \<and> mounted dev sb bs bz t \<and> zones_used sb t = bm_used m' \<and> zones_all sb t = zones_all sb s \<and> key t bz = key s bz \<and> zone_end sb t = zone_end sb s"
proof -
  note M = mountedD [OF m]
  let ?v = "(blk s)(key s bz := bm_bits m')"
  let ?s1 = "bstore bz (\<lambda>_. bm_bits m') s"
  have s1: "sees s ?v ?s1" using bstore_sees [OF M(1,7), of "\<lambda>_. bm_bits m'"] b(3) by simp
  have vb: "?v (key s bs) = blk s (key s bs)" using M(8) by simp
  show "mounted dev sb bs bz ?s1" by (rule mounted_sees(1) [OF m s1 vb])
  note S1 = seesD [OF s1]
  have r1: "0 < buf_refs ?s1 bz" using S1(3) M(7) by simp
  note c2 = bdirty_sees [OF S1(1) r1]
  note S2 = seesD [OF c2]
  have "0 < buf_refs (bdirty bz ?s1) bz" using S2(3) r1 by simp
  note c3 = bwrite_sees [OF S2(1) this]
  have "sees s ?v (bwrite bz (bdirty bz ?s1))"
    using sees_trans [OF s1 sees_trans [OF c2 c3]] S1(2) S2(2) by simp
  note t = this mounted_sees [OF m this vb]
  have "bm_first m' = bm_first (zone_map sb s)" using b(2) by (simp add: bm_first_def)
  have "zone_map sb (bwrite bz (bdirty bz ?s1)) = m'"
    using mountedD(13) [OF t(2)] t(3,5) M(13) b(1,2) seesD(2) [OF t(1)]
    by (simp add: bitmap_make_def bitmap_t.equality)
  then show "\<exists>t. bwrite bz (bdirty bz ?s1) = t \<and> sees s ?v t
      \<and> mounted dev sb bs bz t \<and> zones_used sb t = bm_used m' \<and> zones_all sb t = zones_all sb s \<and> key t bz = key s bz \<and> zone_end sb t = zone_end sb s"
    using t by (simp add: zones_used_def)
qed

lemma balloc_ok:
  assumes m: "mounted dev sb bs bz s"
  shows "zones_all sb s = zones_used sb s \<Longrightarrow> balloc dev s = Inl Assertion"
    and "zones_all sb s \<noteq> zones_used sb s \<Longrightarrow> a = Min (zones_all sb s - zones_used sb s) \<Longrightarrow> unat (zone_end sb s) \<le> a \<Longrightarrow> balloc dev s = Inl Assertion"
    and "zones_all sb s \<noteq> zones_used sb s \<Longrightarrow> a = Min (zones_all sb s - zones_used sb s) \<Longrightarrow> a < unat (zone_end sb s) \<Longrightarrow>
      \<exists>t xs. balloc dev s = Inr (of_nat a, t) \<and> sees s ((blk s)(key s bz := xs)) t \<and> mounted dev sb bs bz t
        \<and> zones_used sb t = insert a (zones_used sb s) \<and> zones_all sb t = zones_all sb s \<and> key t bz = key s bz \<and> zone_end sb t = zone_end sb s"
proof -
  note M = mountedD [OF m] and f = map_facts [OF m]
  define bm where "bm = zone_map sb s"
  have bm: "bm = bitmap_make (bdata bz s) BLOCK_SIZE (of_nat 0 * BLOCK_SIZE + ucast (zone_first sb s) - 1)"
    by (simp add: bm_def M(11,13) BLOCK_SIZE_def)
  obtain ms where l: "[0..<ZMAP_NR] = 0 # 1 # ms" by (simp add: ZMAP_NR_def upt_rec)
  have fd: "sd_firstdatazone sb s = Inr (zone_first sb s)" using M(3,10,14) by (simp add: super_field_def)
  have rec: "balloc dev s = bindE (bindE (scan_buffer bz BLOCK_SIZE (of_nat 0 * BLOCK_SIZE + ucast (zone_first sb s) - 1) s) (\<lambda>(bit, s).
          if bit \<noteq> EOF then
            bindE (sd_zones sb s) (\<lambda>zones.
            kassert (bit < ucast zones) (
            Inr (bit, Some bz, bdirty bz s)))
          else balloc_loop (Suc 0 # ms) sb (Some bz) s)) (\<lambda>(bit, buf, s).
          bindE (bwrite_ptr buf s) (\<lambda>s. Inr (bit, s)))"
    unfolding balloc_def M(2) l One_nat_def by (simp add: M(4) fd)
  have run: "bm_run bm b 1 \<longleftrightarrow> b \<in> zones_all sb s - zones_used sb s" for b
    using bm_run_univ [of 1 bm b] f(2) by (auto simp: bm_def zones_used_def)
  have fin: "finite (zones_all sb s - zones_used sb s)" by (simp add: zones_all_def)
  show "balloc dev s = Inl Assertion" if "zones_all sb s = zones_used sb s"
  proof -
    have "bitmap_scan bm 1 = Inr (EOF, bm)" using bitmap_scan_cases [OF f(1) , of 1] run that unfolding bm_def by auto
    then have "scan_buffer bz BLOCK_SIZE (of_nat 0 * BLOCK_SIZE + ucast (zone_first sb s) - 1) s = Inr (EOF, bstore bz (\<lambda>_. bm_bits bm) s)"
      unfolding scan_buffer_def bm [symmetric] by simp
    moreover have "super_table (bstore bz (\<lambda>_. bm_bits bm) s) = super_table s" by (simp add: bstore_def upd_buf_def)
    ultimately show ?thesis unfolding rec using M(5) by simp
  qed
  assume ne: "zones_all sb s \<noteq> zones_used sb s" and a: "a = Min (zones_all sb s - zones_used sb s)"
  have nonempty: "zones_all sb s - zones_used sb s \<noteq> {}" using ne f(3) by blast
  have ain: "a \<in> zones_all sb s - zones_used sb s" and amin: "\<And>b. b \<in> zones_all sb s - zones_used sb s \<Longrightarrow> a \<le> b"
    using Min_in [OF fin nonempty] Min_le [OF fin] unfolding a by blast+
  have small: "a < 73728" using f(4) ain by blast
  obtain m' where sc: "bitmap_scan bm 1 = Inr (of_nat a, m')" "bm_used m' = insert a (bm_used bm)"
  proof -
    obtain b m1 where b: "bitmap_scan bm 1 = Inr (of_nat b, m1)" "bm_run bm b 1" "\<forall>c. c < b \<longrightarrow> \<not> bm_run bm c 1"
      "bm_used m1 = bm_used bm \<union> {b ..< b + unat (1 :: u32)}"
      using bitmap_scan_cases [OF f(1), of 1] run ain unfolding bm_def by auto
    have "b = a" using b(2,3) run ain amin by (metis linorder_neqE_nat not_less)
    moreover have "{a ..< a + unat (1 :: u32)} = {a}" by auto
    ultimately show ?thesis using that b by simp
  qed
  note sh = bitmap_scan_shape [OF sc(1)]
  have b: "bm_length m' = bm_length (zone_map sb s)" "bm_offset m' = bm_offset (zone_map sb s)" "length (bm_bits m') = 1024"
    using sh M(12) f(5) by (simp_all add: bm_def)
  note st = store_map [OF m b]
  let ?s1 = "bstore bz (\<lambda>_. bm_bits m') s"
  have sb: "scan_buffer bz BLOCK_SIZE (of_nat 0 * BLOCK_SIZE + ucast (zone_first sb s) - 1) s = Inr (of_nat a, ?s1)"
    unfolding scan_buffer_def bm [symmetric] by (simp add: sc(1))
  have s1: "sees s ((blk s)(key s bz := bm_bits m')) ?s1" using bstore_sees [OF M(1,7), of "\<lambda>_. bm_bits m'"] b(3) by simp
  have "zone_end sb ?s1 = zone_end sb s" using mounted_sees(3) [OF m s1] M(8) by simp
  then have ze: "sd_zones sb ?s1 = Inr (zone_end sb s)" using mountedD(3,10,15) [OF st(1)] by (simp add: super_field_def)
  have cmp: "(of_nat a :: u32) < ucast (zone_end sb s) \<longleftrightarrow> a < unat (zone_end sb s)"
    by (simp add: word_less_nat_alt small_not_EOF(2) [OF small] unat_ucast_zone)
  show "balloc dev s = Inl Assertion" if "unat (zone_end sb s) \<le> a"
    unfolding rec sb using that cmp small_not_EOF(1) [OF small] by (simp add: ze)
  assume "a < unat (zone_end sb s)"
  then have "balloc dev s = Inr (of_nat a, bwrite bz (bdirty bz ?s1))"
    unfolding rec sb using cmp small_not_EOF(1) [OF small] by (simp add: ze bwrite_ptr_def)
  then show "\<exists>t xs. balloc dev s = Inr (of_nat a, t) \<and> sees s ((blk s)(key s bz := xs)) t \<and> mounted dev sb bs bz t
        \<and> zones_used sb t = insert a (zones_used sb s) \<and> zones_all sb t = zones_all sb s \<and> key t bz = key s bz \<and> zone_end sb t = zone_end sb s"
    using st(2) sc(2) by (auto simp: bm_def zones_used_def)
qed

text \<open>The only block of the map is chosen for numbers up to 8192.\<close>

lemma map_index_low: "i \<le> 8192 \<Longrightarrow> map_index (of_nat i) ZMAP_NR = Inr 0"
proof -
  assume "i \<le> 8192"
  then have "unat (of_nat i :: u32) = i" by (intro unat_of_nat_small) simp
  then have "\<not> (of_nat i :: u32) > 8192" using \<open>i \<le> 8192\<close> by (simp add: word_less_nat_alt)
  moreover obtain ms where "[0..<ZMAP_NR] = 0 # ms" by (simp add: ZMAP_NR_def upt_rec)
  ultimately show ?thesis by (simp add: map_index_def BLOCK_BITS_def BLOCK_SIZE_def)
qed

lemma bfree_ok:
  assumes m: "mounted dev sb bs bz s" and i: "i \<in> zones_all sb s" "i \<le> 8192" "i < unat (zone_end sb s)"
  shows "i \<notin> zones_used sb s \<Longrightarrow> bfree dev (of_nat i) s = Inl Assertion"
    and "i \<in> zones_used sb s \<Longrightarrow> \<exists>t xs. bfree dev (of_nat i) s = Inr t \<and> sees s ((blk s)(key s bz := xs)) t \<and> mounted dev sb bs bz t
        \<and> zones_used sb t = zones_used sb s - {i} \<and> zones_all sb t = zones_all sb s \<and> key t bz = key s bz \<and> zone_end sb t = zone_end sb s"
proof -
  note M = mountedD [OF m] and f = map_facts [OF m]
  define bm where "bm = zone_map sb s"
  have bm: "bm = bitmap_make (bdata bz s) BLOCK_SIZE (BLOCK_BITS * of_nat 0 + ucast (zone_first sb s) - 1)"
    by (simp add: bm_def M(11,13) BLOCK_SIZE_def)
  have fd: "sd_firstdatazone sb s = Inr (zone_first sb s)" "sd_zones sb s = Inr (zone_end sb s)"
    using M(3,10,14,15) by (simp_all add: super_field_def)
  have u: "unat (of_nat i :: u32) = i" using small_not_EOF(2) f(4) i(1) by blast
  have cmp: "(of_nat i :: u32) < ucast (zone_end sb s)" using i(3) by (simp add: word_less_nat_alt u unat_ucast_zone)
  have rec: "bfree dev (of_nat i) s = bindE (clear_buffer bz BLOCK_SIZE (BLOCK_BITS * of_nat 0 + ucast (zone_first sb s) - 1) (of_nat i) s) (\<lambda>s. Inr (bwrite bz s))"
    unfolding bfree_def M(2) using cmp by (simp add: fd map_index_low [OF i(2)] M(4))
  have iu: "i \<in> bm_univ bm" using i(1) f(2) by (simp add: bm_def)
  have "bm_offset bm + of_nat (i - bm_first bm) = of_nat i" "i - bm_first bm < bm_size bm"
    using iu by (auto simp: bm_univ_def bm_first_def of_nat_diff)
  then have tst: "bitmap_test bm (of_nat i) = Inr (i \<in> zones_used sb s)"
    using bitmap_test_bit [OF f(1) [folded bm_def], of "i - bm_first bm"] iu
    by (auto simp: zones_used_def bm_def [symmetric] mem_bm_used bm_univ_def)
  show "bfree dev (of_nat i) s = Inl Assertion" if "i \<notin> zones_used sb s"
    unfolding rec clear_buffer_def bm [symmetric] using that by (simp add: tst)
  assume used: "i \<in> zones_used sb s"
  obtain m' where m': "bitmap_set bm (of_nat i) False = Inr m'" "bm_used m' = bm_used bm - {i}"
    using bitmap_set_ok [OF f(1) [folded bm_def] iu, of False] by auto
  have b: "bm_length m' = bm_length (zone_map sb s)" "bm_offset m' = bm_offset (zone_map sb s)" "length (bm_bits m') = 1024"
    using bitmap_set_shape [OF m'(1)] M(12) f(5) by (simp_all add: bm_def)
  have "bfree dev (of_nat i) s = Inr (bwrite bz (bdirty bz (bstore bz (\<lambda>_. bm_bits m') s)))"
    unfolding rec clear_buffer_def bm [symmetric] using used by (simp add: tst m'(1))
  then show "\<exists>t xs. bfree dev (of_nat i) s = Inr t \<and> sees s ((blk s)(key s bz := xs)) t \<and> mounted dev sb bs bz t
        \<and> zones_used sb t = zones_used sb s - {i} \<and> zones_all sb t = zones_all sb s \<and> key t bz = key s bz \<and> zone_end sb t = zone_end sb s"
    using store_map(2) [OF m b] m'(2) by (auto simp: bm_def zones_used_def)
qed

section \<open>The example\<close>

lemma example_zones:
  assumes e: "example_open s0 bs bz bi"
  defines "s \<equiv> example_mount s0 bs bz bi"
  shows "mounted 3 0 bs bz s" "zone_first 0 s = 5" "zone_end 0 s = 16" "zones_all 0 s = {4..<8196}"
    "i \<in> {4..<9} \<Longrightarrow> i \<in> zones_used 0 s \<longleftrightarrow> i \<in> {4, 5, 6}" "key s bs = (3, 1)" "key s bz = (3, 3)"
proof -
  note x = example_inode [OF e, folded s_def]
  have b: "blk s (3, 1) = example_block 1" "blk s (3, 3) = example_block 3" using e x(2) by (simp_all add: example_open_def)
  have t: "super_table s ! 0 = \<lparr>s_buf = Some bs, s_imaps = replicate 8 None, s_zmaps = Some bz # replicate 7 None, s_dev = 3,
      s_iroot = None, s_imount = None\<rparr>" by (simp add: s_def example_mount_def upd_inode_def)
  obtain ms where "[0..<SUPER_NR] = 0 # ms" by (simp add: SUPER_NR_def upt_rec)
  then have g: "get_super 3 s = Some 0" by (simp add: get_super_def t)
  show k12: "key s bs = (3, 1)" "key s bz = (3, 3)" using e x(3) by (simp_all add: example_open_def)
  have k: "key s bs = (3, 1)" "key s bz = (3, 3)" "0 < buf_refs s bs" "0 < buf_refs s bz" using e x(3,4) by (simp_all add: example_open_def)
  show z: "zone_first 0 s = 5" "zone_end 0 s = 16" by (simp_all add: zone_first_def zone_end_def t k b example_block_def get16_def)
  show m: "mounted 3 0 bs bz s" using x(1) g k z by (simp add: mounted_def t)
  have mp: "zone_map 0 s = bitmap_make (example_block 3) 1024 4" by (simp add: zone_map_def t k b z)
  show all: "zones_all 0 s = {4..<8196}" by (simp add: zones_all_def z)
  show "i \<in> zones_used 0 s \<longleftrightarrow> i \<in> {4, 5, 6}" if "i \<in> {4..<9}" for i
  proof -
    have c: "i = 4 \<or> i = 5 \<or> i = 6 \<or> i = 7 \<or> i = 8" using that by auto
    then have "i < 8196" "4 \<le> i" by auto
    then have "i \<in> zones_used 0 s \<longleftrightarrow> bit (example_block 3 ! ((i - 4) div 8)) ((i - 4) mod 8)"
      by (simp add: zones_used_def mp mem_bm_used bitmap_make_def bm_first_def bm_size_def bm_bit_def)
    then show ?thesis using c by (auto simp: example_block_def bit_numeral_rec)
  qed
qed

section \<open>Properties\<close>



end
