(* ===== verification/Filewrite.thy ===== *)
theory Filewrite
  imports Alloc
begin

text \<open>
  Writing to the first seven blocks of a file, with the blocks the file gets on the way: the bytes written are
  those a later read gives, and no other file, block or byte changes.
\<close>

section \<open>Fields of an inode in its block\<close>

lemma put16_length [simp]: "length (put16 p v xs) = length xs" by (simp add: put16_def)

lemma put32_length [simp]: "length (put32 p v xs) = length xs" by (simp add: put32_def)

lemma put16_other: "j \<noteq> p \<Longrightarrow> j \<noteq> Suc p \<Longrightarrow> put16 p v xs ! j = xs ! j" by (simp add: put16_def)

lemma put32_other: "j < p \<or> p + 4 \<le> j \<Longrightarrow> put32 p v xs ! j = xs ! j" by (auto simp: put32_def put16_other)

lemma get16_put16_other: "q + 2 \<le> p \<or> p + 2 \<le> q \<Longrightarrow> get16 (put16 p v xs) q = get16 xs q"
  unfolding get16_def by (auto simp: put16_other)

lemma get16_put32_other: "q + 2 \<le> p \<or> p + 4 \<le> q \<Longrightarrow> get16 (put32 p v xs) q = get16 xs q"
  unfolding get16_def by (auto simp: put32_other)

lemma get32_put16_other: "q + 4 \<le> p \<or> p + 2 \<le> q \<Longrightarrow> get32 (put16 p v xs) q = get32 xs q"
  unfolding get32_def by (auto simp: get16_put16_other)

lemma get32_put32_other: "q + 4 \<le> p \<or> p + 4 \<le> q \<Longrightarrow> get32 (put32 p v xs) q = get32 xs q"
  unfolding get32_def by (auto simp: get16_put32_other)

lemma get16_put16: "p + 2 \<le> length xs \<Longrightarrow> get16 (put16 p v xs) p = v"
  by (simp add: get16_def put16_def) (rule bit_word_eqI; auto simp: bit_or_iff bit_push_bit_iff bit_ucast_iff bit_drop_bit_eq; force)

lemma get32_put32: "p + 4 \<le> length xs \<Longrightarrow> get32 (put32 p v xs) p = v"
  unfolding get32_def put32_def
  by (simp add: get16_put16 get16_put16_other) (rule bit_word_eqI; auto simp: bit_or_iff bit_push_bit_iff bit_ucast_iff bit_drop_bit_eq; force)

section \<open>A change of a block that is in use\<close>

text \<open>Between \<open>bread\<close> and \<open>brelse\<close>: the blocks read as \<open>v\<close> and the buffer is used once more.\<close>

definition edits :: "'a buf_state_scheme \<Rightarrow> u32 \<Rightarrow> (u32 \<times> u32 \<Rightarrow> u8 list) \<Rightarrow> 'a buf_state_scheme \<Rightarrow> bool" where
  "edits s b v t \<longleftrightarrow> cache_sound t \<and> blk t = v \<and> buf_refs t = (buf_refs s)(b := buf_refs s b + 1) \<and> same_kernel s t
     \<and> (\<forall>c. 0 < buf_refs s c \<longrightarrow> key t c = key s c)"

lemma editsD:
  assumes "edits s b v t"
  shows "cache_sound t" "blk t = v" "buf_refs t = (buf_refs s)(b := buf_refs s b + 1)" "same_kernel s t"
    "0 < buf_refs s c \<Longrightarrow> key t c = key s c" "0 < buf_refs t b" "0 < buf_refs s c \<Longrightarrow> 0 < buf_refs t c"
  using assms by (auto simp: edits_def)

lemma opened_edits: "opened s k b t \<Longrightarrow> edits s b (blk s) t"
  using openedD [of s k b t] by (auto simp: edits_def)

lemma edits_sees:
  assumes "edits s b v t" and "sees t w u"
  shows "edits s b w u" "0 < buf_refs t c \<Longrightarrow> key u c = key t c"
proof -
  note e = editsD [OF assms(1)] and u = seesD [OF assms(2)]
  show "edits s b w u" using e(3,5,7) u same_kernel_trans [OF e(4) u(4)] by (auto simp: edits_def)
  show "0 < buf_refs t c \<Longrightarrow> key u c = key t c" by (rule u(5))
qed

lemma edits_close:
  assumes "edits s b v t" and "slack s 1" and "b_dirty (buffers t b) \<or> 0 < buf_refs s b"
  shows "\<exists>u. brelse b t = Inr u \<and> sees s v u \<and> bdata b u = bdata b t"
  using edited_close [of t s b] editsD [OF assms(1)] assms(2,3) by simp

text \<open>What stays mounted.\<close>

lemma mounted_edits:
  assumes "mounted dev sb bs bz s" and "edits s b v t" and "v (key s bs) = blk s (key s bs)"
  shows "mounted dev sb bs bz t" "zone_first sb t = zone_first sb s" "zone_end sb t = zone_end sb s" "key t bz = key s bz" "key t bs = key s bs"
    "zones_all sb t = zones_all sb s" "v (key s bz) = blk s (key s bz) \<Longrightarrow> zones_used sb t = zones_used sb s"
proof -
  note m = mountedD [OF assms(1)] and u = editsD [OF assms(2)]
  have t: "super_table t = super_table s" "get_super dev t = get_super dev s" using same_kernel_fs [OF u(4)] by blast+
  show k: "key t bz = key s bz" "key t bs = key s bs" using u(5) m(6,7) by blast+
  show f: "zone_first sb t = zone_first sb s" "zone_end sb t = zone_end sb s" unfolding zone_first_def zone_end_def t m(3)
    by (simp_all add: k u(2) assms(3))
  show "mounted dev sb bs bz t" using m u(1) u(7) k f(1) t by (simp add: mounted_def)
  show "zones_all sb t = zones_all sb s" by (simp add: zones_all_def f)
  show "zones_used sb t = zones_used sb s" if "v (key s bz) = blk s (key s bz)"
    unfolding zones_used_def zone_map_def t m(4) f(1) using that by (simp add: k u(2))
qed

section \<open>A file system with an open file\<close>

text \<open>The number of the file's \<open>j\<close>-th direct block in the bytes of the inode's block, whose descriptor starts at \<open>p\<close>.\<close>

abbreviation "zone_at p j xs \<equiv> get16 xs (p + 14 + 2 * j)"

lemma zone_of_direct: "j < 7 \<Longrightarrow> zone_of i j s = zone_at (i_off (inode_table s i)) j (inode_blk i s)"
  by (simp add: zone_of_def file_zone_def ZONE_def)

text \<open>Inode \<open>i\<close> is in use; super block, map and inode lie before the first block of data in blocks of their own, and
  the direct blocks of the file are in use and different.\<close>

definition files_ok :: "u32 \<Rightarrow> nat \<Rightarrow> u32 \<Rightarrow> u32 \<Rightarrow> u32 \<Rightarrow> 'a fs_state_scheme \<Rightarrow> bool" where
  "files_ok dev sb bs bz i s \<longleftrightarrow> mounted dev sb bs bz s \<and> inode_held i s \<and> i_dev (inode_table s i) = dev
     \<and> i_off (inode_table s i) + 32 \<le> 1024
     \<and> key s (i_buf (inode_table s i)) \<noteq> key s bs \<and> key s (i_buf (inode_table s i)) \<noteq> key s bz
     \<and> (\<forall>b \<in> {i_buf (inode_table s i), bs, bz}. snd (key s b) < ucast (zone_first sb s))
     \<and> unat (zone_first sb s) - 1 \<in> zones_used sb s
     \<and> (\<forall>j < 7. zone_of i j s \<noteq> 0 \<longrightarrow> unat (zone_of i j s) \<in> zones_used sb s \<and> zone_first sb s \<le> zone_of i j s)
     \<and> (\<forall>j < 7. \<forall>l < 7. zone_of i j s \<noteq> 0 \<longrightarrow> zone_of i j s = zone_of i l s \<longrightarrow> j = l)"

abbreviation "ikey i s \<equiv> key s (i_buf (inode_table s i))"

lemma files_okD:
  assumes "files_ok dev sb bs bz i s"
  shows "mounted dev sb bs bz s" "inode_held i s" "i_dev (inode_table s i) = dev" "i_off (inode_table s i) + 32 \<le> 1024"
    "ikey i s \<noteq> key s bs" "ikey i s \<noteq> key s bz"
    "snd (ikey i s) < ucast (zone_first sb s)" "snd (key s bs) < ucast (zone_first sb s)" "snd (key s bz) < ucast (zone_first sb s)"
    "unat (zone_first sb s) - 1 \<in> zones_used sb s"
    "j < 7 \<Longrightarrow> zone_of i j s \<noteq> 0 \<Longrightarrow> unat (zone_of i j s) \<in> zones_used sb s"
    "j < 7 \<Longrightarrow> zone_of i j s \<noteq> 0 \<Longrightarrow> zone_first sb s \<le> zone_of i j s"
    "j < 7 \<Longrightarrow> l < 7 \<Longrightarrow> zone_of i j s \<noteq> 0 \<Longrightarrow> zone_of i j s = zone_of i l s \<Longrightarrow> j = l"
    "cache_sound s" "0 < buf_refs s (i_buf (inode_table s i))" "bdata (i_buf (inode_table s i)) s = inode_blk i s"
    "length (inode_blk i s) = 1024"
proof -
  show d: "mounted dev sb bs bz s" "inode_held i s" "i_dev (inode_table s i) = dev" "i_off (inode_table s i) + 32 \<le> 1024"
    "ikey i s \<noteq> key s bs" "ikey i s \<noteq> key s bz"
    "snd (ikey i s) < ucast (zone_first sb s)" "snd (key s bs) < ucast (zone_first sb s)" "snd (key s bz) < ucast (zone_first sb s)"
    "unat (zone_first sb s) - 1 \<in> zones_used sb s"
    "j < 7 \<Longrightarrow> zone_of i j s \<noteq> 0 \<Longrightarrow> unat (zone_of i j s) \<in> zones_used sb s"
    "j < 7 \<Longrightarrow> zone_of i j s \<noteq> 0 \<Longrightarrow> zone_first sb s \<le> zone_of i j s"
    "j < 7 \<Longrightarrow> l < 7 \<Longrightarrow> zone_of i j s \<noteq> 0 \<Longrightarrow> zone_of i j s = zone_of i l s \<Longrightarrow> j = l"
    using assms unfolding files_ok_def by blast+
  show c: "cache_sound s" "0 < buf_refs s (i_buf (inode_table s i))" using d(2) by (simp_all add: inode_held_def)
  show "bdata (i_buf (inode_table s i)) s = inode_blk i s" "length (inode_blk i s) = 1024"
    unfolding inode_blk_def by (simp_all add: bdata_blk [OF c] blk_length [OF c])
qed

lemma zone_le_word: "(ucast (f :: u16) :: u32) \<le> ucast z \<longleftrightarrow> f \<le> z"
  by (simp add: word_le_nat_alt unat_ucast_zone)

text \<open>A block of data is none of the three.\<close>

lemma data_block_apart:
  assumes "files_ok dev sb bs bz i s" and "zone_first sb s \<le> z"
  shows "(d, ucast z) \<noteq> ikey i s" "(d, ucast z) \<noteq> key s bs" "(d, ucast z) \<noteq> key s bz"
proof -
  have "k \<noteq> (d, ucast z)" if "snd k < (ucast (zone_first sb s) :: u32)" for k
    using that assms(2) zone_le_word [of "zone_first sb s" z] by auto
  then show "(d, ucast z) \<noteq> ikey i s" "(d, ucast z) \<noteq> key s bs" "(d, ucast z) \<noteq> key s bz"
    using files_okD(7,8,9) [OF assms(1)] by metis+
qed

section \<open>Finding or making a block\<close>

text \<open>The free blocks, as far as the file system reaches.\<close>

definition zones_free :: "nat \<Rightarrow> 'a fs_state_scheme \<Rightarrow> nat set" where
  "zones_free sb s = {a \<in> zones_all sb s - zones_used sb s. a < unat (zone_end sb s)}"

lemma free_min:
  assumes "zones_free sb s \<noteq> {}"
  defines "a \<equiv> Min (zones_all sb s - zones_used sb s)"
  shows "a \<in> zones_free sb s" "zones_all sb s \<noteq> zones_used sb s" "finite (zones_free sb s)"
proof -
  obtain b where b: "b \<in> zones_all sb s - zones_used sb s" "b < unat (zone_end sb s)" using assms(1) by (auto simp: zones_free_def)
  have fin: "finite (zones_all sb s - zones_used sb s)" by (simp add: zones_all_def)
  have "a \<le> b" unfolding a_def by (rule Min_le [OF fin b(1)])
  moreover have "a \<in> zones_all sb s - zones_used sb s" unfolding a_def using Min_in [OF fin] b(1) by blast
  ultimately show "a \<in> zones_free sb s" using b(2) by (auto simp: zones_free_def)
  show "zones_all sb s \<noteq> zones_used sb s" using b(1) by blast
  show "finite (zones_free sb s)" using fin by (auto simp: zones_free_def intro: finite_subset)
qed

lemma bmap_direct:
  assumes "inode_held i s" and "slack s 1" and j: "j < 7"
  defines "b \<equiv> i_buf (inode_table s i)" and "p \<equiv> i_off (inode_table s i)"
  shows "\<exists>t. opened s (key s b) b t \<and> inode_table t = inode_table s \<and>
    bmap i (of_nat j) c s = bindE (bmap_slot (i_dev (inode_table s i)) b (p + ZONE) j c t) (\<lambda>u.
      bindE (brelse b u) (\<lambda>u. Inr (ucast (zone_at p j (bdata b u)), u)))"
proof -
  have s: "cache_sound s" "0 < buf_refs s b" using assms(1) by (simp_all add: inode_held_def b_def)
  note o = count_opens [OF s assms(2)]
  have u: "unat (of_nat j :: u32) = j" by (rule unat_of_nat_small) (use j in simp)
  have lt: "(of_nat j :: u32) < 7" "(of_nat j :: u32) < TOTAL_BLOCK" using j by (simp_all add: word_less_nat_alt u index_consts)
  show ?thesis
  proof (intro exI conjI)
    show "opened s (key s b) b (upd_buf b (\<lambda>t. t\<lparr>b_count := b_count (buffers s b) + 1\<rparr>) s)" by (rule o(2))
    show "inode_table (upd_buf b (\<lambda>t. t\<lparr>b_count := b_count (buffers s b) + 1\<rparr>) s) = inode_table s" by (simp add: upd_buf_def)
    show "bmap i (of_nat j) c s = bindE (bmap_slot (i_dev (inode_table s i)) b (p + ZONE) j c
        (upd_buf b (\<lambda>t. t\<lparr>b_count := b_count (buffers s b) + 1\<rparr>) s)) (\<lambda>u.
        bindE (brelse b u) (\<lambda>u. Inr (ucast (zone_at p j (bdata b u)), u)))"
      using o(1) lt(2) bmap_level_cases(1) [OF lt(1)]
      by (simp add: bmap_def Let_def b_def [symmetric] p_def [symmetric] u bmap_loop.simps ZONE_def)
  qed
qed

text \<open>A new block: the lowest free one, entered in the inode.\<close>

lemma bmap_makes:
  assumes f: "files_ok dev sb bs bz i s" and sl: "slack s 1" and j: "j < 7" and z0: "zone_of i j s = 0" and fr: "zones_free sb s \<noteq> {}"
  defines "p \<equiv> i_off (inode_table s i)" and "a \<equiv> Min (zones_all sb s - zones_used sb s)"
  shows "\<exists>u z xs. bmap i (of_nat j) True s = Inr (ucast z, u) \<and> unat z = a
    \<and> sees s ((blk s)(key s bz := xs, ikey i s := put16 (p + 14 + 2 * j) z (inode_blk i s))) u
    \<and> mounted dev sb bs bz u \<and> zones_used sb u = insert a (zones_used sb s) \<and> zones_all sb u = zones_all sb s
    \<and> zone_end sb u = zone_end sb s \<and> zone_first sb u = zone_first sb s"
proof -
  note F = files_okD [OF f]
  define b where "b = i_buf (inode_table s i)"
  obtain t where t: "opened s (key s b) b t" "inode_table t = inode_table s"
    "bmap i (of_nat j) True s = bindE (bmap_slot dev b (p + ZONE) j True t) (\<lambda>u.
      bindE (brelse b u) (\<lambda>u. Inr (ucast (zone_at p j (bdata b u)), u)))"
    using bmap_direct [OF F(2) sl j, of True] unfolding F(3) b_def p_def by blast
  note e = opened_edits [OF t(1)]
  note m = mounted_edits [OF F(1) e]
  have zu: "zones_used sb t = zones_used sb s" "zones_all sb t = zones_all sb s" using m(6,7) by simp_all
  have "zone_at p j (bdata b t) = 0" using openedD(7) [OF t(1)] z0 zone_of_direct [OF j, of i s]
    by (simp add: p_def b_def inode_blk_def)
  then have slot: "bmap_slot dev b (p + ZONE) j True t = bindE (balloc dev t) (\<lambda>(z, s). Inr (bdirty b (bstore b (put16 (p + ZONE + 2 * j) (ucast z)) s)))"
    by (simp add: bmap_slot_def ZONE_def)
  have free: "zones_free sb t = zones_free sb s" unfolding zones_free_def zu using m(3) by simp
  note fm = free_min [OF fr, folded a_def]
  have mt: "mounted dev sb bs bz t" using m(1) by simp
  have "zones_all sb t \<noteq> zones_used sb t" using fm(2) zu by simp
  moreover have at: "a = Min (zones_all sb t - zones_used sb t)" unfolding a_def zu ..
  moreover have "a < unat (zone_end sb t)" using fm(1) m(3) by (simp add: zones_free_def)
  ultimately obtain u xs where u: "balloc dev t = Inr (of_nat a, u)" "sees t ((blk t)(key t bz := xs)) u" "mounted dev sb bs bz u"
    "zones_used sb u = insert a (zones_used sb t)" "zones_all sb u = zones_all sb t" "key u bz = key t bz" "zone_end sb u = zone_end sb t"
    using balloc_ok(3) [OF mt] by blast
  have aend: "a < unat (zone_end sb s)" using fm(1) by (simp add: zones_free_def)
  have "unat (zone_end sb s) < 2 ^ LENGTH(16)" by (rule unsigned_less)
  then have a16: "a < 65536" using aend by simp
  define z :: u16 where "z = of_nat a"
  have z: "unat z = a" unfolding z_def by (rule unat_of_nat_small) (use a16 in simp)
  have uz: "ucast (of_nat a :: u32) = z"
  proof -
    have "unat (ucast (of_nat a :: u32) :: u16) = a" using a16 by (simp add: unat_of_nat unsigned_ucast_eq take_bit_nat_eq_self)
    then show ?thesis using z by (simp add: word_unat_eq_iff)
  qed
  note e2 = edits_sees [OF e u(2)]
  note E2 = editsD [OF e2(1)]
  have kb: "key u b = ikey i s" using E2(5) F(15) by (simp add: b_def)
  let ?f = "put16 (p + ZONE + 2 * j) z"
  have ib: "blk u (key u b) = inode_blk i s" using E2(2) kb F(6) m(4) openedD(2) [OF t(1)] by (simp add: inode_blk_def)
  have "length (?f (blk u (key u b))) = 1024" using F(17) ib by simp
  then have s3: "sees u ((blk u)(key u b := ?f (blk u (key u b)))) (bstore b ?f u)" by (rule bstore_sees [OF E2(1,6), where f = ?f])
  note e3 = edits_sees [OF e2(1) s3]
  note E3 = editsD [OF e3(1)]
  have d: "calm (bstore b ?f u) (bdirty b (bstore b ?f u))" by (rule bdirty_sees [OF E3(1,6)])
  have s4: "sees u ((blk u)(key u b := ?f (blk u (key u b)))) (bdirty b (bstore b ?f u))"
    using sees_trans [OF s3 d] seesD(2) [OF s3] by simp
  have e4: "edits s b ((blk u)(key u b := ?f (blk u (key u b)))) (bdirty b (bstore b ?f u))" by (rule edits_sees(1) [OF e2(1) s4])
  obtain w where w: "brelse b (bdirty b (bstore b ?f u)) = Inr w" "sees s ((blk u)(key u b := ?f (blk u (key u b)))) w"
    "bdata b w = bdata b (bdirty b (bstore b ?f u))"
    using edits_close [OF e4 sl] by auto
  have "bdata b (bdirty b (bstore b ?f u)) = ?f (blk u (key u b))"
    using bdata_blk [OF editsD(1,6) [OF e4]] editsD(2) [OF e4] edits_sees(2) [OF e2(1) s4, of b] E2(6) by simp
  moreover have "p + 14 + 2 * j + 2 \<le> length (inode_blk i s)" using F(4,17) j by (simp add: p_def)
  ultimately have "zone_at p j (bdata b w) = z" using w(3) ib by (simp add: ZONE_def get16_put16)
  then have bm: "bmap i (of_nat j) True s = Inr (ucast z, w)" using t(3) slot u(1) w(1) uz by simp
  have v: "(blk u)(key u b := ?f (blk u (key u b))) = (blk s)(key s bz := xs, ikey i s := put16 (p + 14 + 2 * j) z (inode_blk i s))"
    unfolding ib unfolding kb using E2(2) openedD(2) [OF t(1)] m(4) by (simp add: ZONE_def fun_eq_iff)
  note sw = w(2) [unfolded v]
  have vb: "((blk s)(key s bz := xs, ikey i s := put16 (p + 14 + 2 * j) z (inode_blk i s))) (key s bs) = blk s (key s bs)"
    using F(5) mountedD(8) [OF F(1)] by simp
  note mw = mounted_sees [OF F(1) sw vb]
  have "zone_map sb w = zone_map sb u"
  proof -
    have "zone_first sb u = zone_first sb s"
      using mountedD(14) [OF u(3)] mountedD(14) [OF F(1)] E2(2,5) mountedD(6,8) [OF F(1)] openedD(2) [OF t(1)] m(4) by simp
    moreover have "blk w (key w bz) = blk u (key u bz)"
      using mw(4) u(6) m(4) seesD(2) [OF sw] E2(2) openedD(2) [OF t(1)] F(6) by simp
    ultimately show ?thesis using mountedD(13) [OF u(3)] mountedD(13) [OF mw(1)] mw(2) by simp
  qed
  then have "zones_used sb w = insert a (zones_used sb s)" using u(4) zu(1) by (simp add: zones_used_def)
  then show ?thesis using bm z sw mw by blast
qed

text \<open>A step on blocks that leaves the super block alone keeps all this, given what holds of the new map and inode.\<close>

lemma files_ok_sees:
  assumes f: "files_ok dev sb bs bz i s" and u: "sees s v u" and vb: "v (key s bs) = blk s (key s bs)"
    and zf: "zones_used sb s \<subseteq> zones_used sb u"
    and z: "\<And>j. j < 7 \<Longrightarrow> zone_at (i_off (inode_table s i)) j (v (ikey i s)) \<noteq> 0 \<Longrightarrow>
      unat (zone_at (i_off (inode_table s i)) j (v (ikey i s))) \<in> zones_used sb u
      \<and> zone_first sb s \<le> zone_at (i_off (inode_table s i)) j (v (ikey i s))"
    and inj: "\<And>j l. j < 7 \<Longrightarrow> l < 7 \<Longrightarrow> zone_at (i_off (inode_table s i)) j (v (ikey i s)) \<noteq> 0 \<Longrightarrow>
      zone_at (i_off (inode_table s i)) j (v (ikey i s)) = zone_at (i_off (inode_table s i)) l (v (ikey i s)) \<Longrightarrow> j = l"
  shows "files_ok dev sb bs bz i u" "ikey i u = ikey i s" "inode_table u = inode_table s" "inode_blk i u = v (ikey i s)"
    "j < 7 \<Longrightarrow> zone_of i j u = zone_at (i_off (inode_table s i)) j (v (ikey i s))"
proof -
  note F = files_okD [OF f] and U = seesD [OF u] and m = mounted_sees [OF F(1) u vb]
  show it: "inode_table u = inode_table s" using same_kernel_fs(3) [OF U(4)] .
  show k: "ikey i u = ikey i s" using U(5) F(15) by (simp add: it)
  show ib: "inode_blk i u = v (ikey i s)" unfolding inode_blk_def k U(2) ..
  show zo: "zone_of i j u = zone_at (i_off (inode_table s i)) j (v (ikey i s))" if "j < 7" for j
    using zone_of_direct [OF that, of i u] by (simp add: it ib)
  have h: "inode_held i u" using U(1,3) F(15) by (simp add: inode_held_def it)
  have "\<forall>b \<in> {i_buf (inode_table u i), bs, bz}. snd (key u b) < ucast (zone_first sb u)"
    using F(7,8,9) m(2,4,5) k by (simp add: it)
  moreover have "\<forall>j < 7. zone_of i j u \<noteq> 0 \<longrightarrow> unat (zone_of i j u) \<in> zones_used sb u \<and> zone_first sb u \<le> zone_of i j u"
    using z zo m(2) by simp
  moreover have "\<forall>j < 7. \<forall>l < 7. zone_of i j u \<noteq> 0 \<longrightarrow> zone_of i j u = zone_of i l u \<longrightarrow> j = l"
    using inj zo by simp
  moreover have "unat (zone_first sb u) - 1 \<in> zones_used sb u" using F(10) zf m(2) by auto
  moreover have "ikey i u \<noteq> key u bs" "ikey i u \<noteq> key u bz" using F(5,6) k m(4,5) by simp_all
  ultimately show "files_ok dev sb bs bz i u" using m(1) h F(3,4) unfolding files_ok_def it by blast
qed

text \<open>What every step of a write keeps.\<close>

definition kept :: "u32 \<Rightarrow> nat \<Rightarrow> u32 \<Rightarrow> u32 \<Rightarrow> u32 \<Rightarrow> 'a fs_state_scheme \<Rightarrow> 'a fs_state_scheme \<Rightarrow> bool" where
  "kept dev sb bs bz i s u \<longleftrightarrow> files_ok dev sb bs bz i u \<and> same_kernel s u \<and> buf_refs u = buf_refs s \<and> ikey i u = ikey i s
     \<and> key u bz = key s bz \<and> key u bs = key s bs \<and> blk u (key s bs) = blk s (key s bs) \<and> d_mode i u = d_mode i s
     \<and> zone_first sb u = zone_first sb s \<and> zone_end sb u = zone_end sb s \<and> zones_all sb u = zones_all sb s"

lemma keptD:
  assumes "kept dev sb bs bz i s u"
  shows "files_ok dev sb bs bz i u" "same_kernel s u" "buf_refs u = buf_refs s" "ikey i u = ikey i s"
    "key u bz = key s bz" "key u bs = key s bs" "blk u (key s bs) = blk s (key s bs)" "d_mode i u = d_mode i s"
    "zone_first sb u = zone_first sb s" "zone_end sb u = zone_end sb s" "zones_all sb u = zones_all sb s"
    "inode_table u = inode_table s" "slack u n = slack s n"
proof -
  show k: "files_ok dev sb bs bz i u" "same_kernel s u" "buf_refs u = buf_refs s" "ikey i u = ikey i s"
    "key u bz = key s bz" "key u bs = key s bs" "blk u (key s bs) = blk s (key s bs)" "d_mode i u = d_mode i s"
    "zone_first sb u = zone_first sb s" "zone_end sb u = zone_end sb s" "zones_all sb u = zones_all sb s"
    using assms unfolding kept_def by blast+
  show "inode_table u = inode_table s" using same_kernel_fs(3) [OF k(2)] .
  show "slack u n = slack s n" by (rule slack_refs [OF k(3)])
qed

lemma file_kept_trans: "kept dev sb bs bz i s t \<Longrightarrow> kept dev sb bs bz i t u \<Longrightarrow> kept dev sb bs bz i s u"
  unfolding kept_def using same_kernel_trans by metis

lemma d_mode_blk: "inode_held i s \<Longrightarrow> d_mode i s = get16 (inode_blk i s) (i_off (inode_table s i))"
  by (simp add: d_mode_def inode_blk_def inode_held_def bdata_blk)

lemma d_size_blk: "inode_held i s \<Longrightarrow> d_size i s = get32 (inode_blk i s) (i_off (inode_table s i) + 4)"
  by (simp add: d_size_def inode_blk_def inode_held_def bdata_blk)

lemma kept_sees:
  assumes f: "files_ok dev sb bs bz i s" and u: "sees s v u" and vb: "v (key s bs) = blk s (key s bs)" and o: "files_ok dev sb bs bz i u"
    and md: "get16 (v (ikey i s)) (i_off (inode_table s i)) = get16 (inode_blk i s) (i_off (inode_table s i))"
  shows "kept dev sb bs bz i s u"
proof -
  note F = files_okD [OF f] and U = seesD [OF u] and m = mounted_sees [OF F(1) u vb] and O = files_okD [OF o]
  have it: "inode_table u = inode_table s" using same_kernel_fs(3) [OF U(4)] .
  have k: "ikey i u = ikey i s" using U(5) F(15) by (simp add: it)
  have "inode_blk i u = v (ikey i s)" unfolding inode_blk_def k U(2) ..
  then have "d_mode i u = d_mode i s" using md d_mode_blk [OF F(2)] d_mode_blk [OF O(2)] by (simp add: it)
  then show ?thesis using o U k m by (simp add: kept_def vb)
qed

text \<open>The block of a place of the file, there before or made.\<close>

lemma bmap_block:
  assumes f: "files_ok dev sb bs bz i s" and sl: "slack s 1" and j: "j < 7" and fr: "zone_of i j s \<noteq> 0 \<or> zones_free sb s \<noteq> {}"
  shows "\<exists>u z. bmap i (of_nat j) True s = Inr (ucast z, u) \<and> z \<noteq> 0 \<and> kept dev sb bs bz i s u \<and> zone_of i j u = z
    \<and> (\<forall>l < 7. l \<noteq> j \<longrightarrow> zone_of i l u = zone_of i l s) \<and> (zone_of i j s \<noteq> 0 \<longrightarrow> z = zone_of i j s)
    \<and> (\<forall>k. k \<noteq> ikey i s \<longrightarrow> k \<noteq> key s bz \<longrightarrow> blk u k = blk s k) \<and> d_size i u = d_size i s
    \<and> card (zones_free sb s) \<le> card (zones_free sb u) + (if zone_of i j s = 0 then 1 else 0)
    \<and> zones_used sb s \<subseteq> zones_used sb u \<and> (zone_of i j s = 0 \<longrightarrow> unat z \<notin> zones_used sb s)"
proof (cases "zone_of i j s = 0")
  case False
  note F = files_okD [OF f]
  define b where "b = i_buf (inode_table s i)"
  define p where "p = i_off (inode_table s i)"
  obtain t where t: "opened s (key s b) b t" "bmap i (of_nat j) True s = bindE (bmap_slot dev b (p + ZONE) j True t) (\<lambda>u.
      bindE (brelse b u) (\<lambda>u. Inr (ucast (zone_at p j (bdata b u)), u)))"
    using bmap_direct [OF F(2) sl j, of True] unfolding F(3) b_def p_def by blast
  obtain u where u: "brelse b t = Inr u" "calm s u" "bdata b u = blk s (key s b)" using opened_close [OF F(14) sl t(1)] by blast
  have zo: "zone_at p j (blk s (key s b)) = zone_of i j s" using zone_of_direct [OF j, of i s] by (simp add: p_def b_def inode_blk_def)
  have "bdata b t = blk s (key s b)" using openedD(7) [OF t(1)] .
  then have "bmap_slot dev b (p + ZONE) j True t = Inr t" using zo False by (simp add: bmap_slot_def ZONE_def)
  then have bm: "bmap i (of_nat j) True s = Inr (ucast (zone_of i j s), u)" using t(2) u zo by simp
  note ci = calm_inode [OF u(2) F(2)]
  note zu = mounted_sees(6,7) [OF F(1) u(2)] mounted_sees(3) [OF F(1) u(2)]
  have "zone_at (i_off (inode_table s i)) l (blk s (ikey i s)) = zone_of i l s" if "l < 7" for l
    using zone_of_direct [OF that, of i s] by (simp add: inode_blk_def)
  then have o: "files_ok dev sb bs bz i u"
    using files_ok_sees(1) [OF f u(2)] F(11,12,13) zu by simp
  have kp: "kept dev sb bs bz i s u" by (rule kept_sees [OF f u(2) _ o]) (simp_all add: inode_blk_def)
  have "zones_free sb u = zones_free sb s" using zu by (simp add: zones_free_def)
  then show ?thesis using bm False kp ci seesD(2) [OF u(2)] zu by auto
next
  case True
  note F = files_okD [OF f]
  define p where "p = i_off (inode_table s i)"
  define a where "a = Min (zones_all sb s - zones_used sb s)"
  have fr: "zones_free sb s \<noteq> {}" using fr True by blast
  note fm = free_min [OF fr, folded a_def]
  obtain u z xs where u: "bmap i (of_nat j) True s = Inr (ucast z, u)" "unat z = a"
    "sees s ((blk s)(key s bz := xs, ikey i s := put16 (p + 14 + 2 * j) z (inode_blk i s))) u"
    "mounted dev sb bs bz u" "zones_used sb u = insert a (zones_used sb s)" "zones_all sb u = zones_all sb s"
    "zone_end sb u = zone_end sb s" "zone_first sb u = zone_first sb s"
    using bmap_makes [OF f sl j True fr] unfolding p_def a_def by blast
  let ?v = "(blk s)(key s bz := xs, ikey i s := put16 (p + 14 + 2 * j) z (inode_blk i s))"
  have len: "p + 14 + 2 * j + 2 \<le> length (inode_blk i s)" using F(4,17) j by (simp add: p_def)
  have zn: "zone_at p l (?v (ikey i s)) = (if l = j then z else zone_of i l s)" if "l < 7" for l
  proof -
    have "zone_at p l (put16 (p + 14 + 2 * j) z (inode_blk i s)) = zone_at p l (inode_blk i s)" if "l \<noteq> j"
      by (rule get16_put16_other) (use that in arith)
    then show ?thesis using zone_of_direct [OF that, of i s] len by (simp add: p_def get16_put16)
  qed
  have vb: "?v (key s bs) = blk s (key s bs)" using F(5) mountedD(8) [OF F(1)] by simp
  have ain: "a \<in> zones_all sb s" "a \<notin> zones_used sb s" "a < unat (zone_end sb s)" using fm(1) by (auto simp: zones_free_def)
  then have "a \<noteq> unat (zone_first sb s) - 1" using F(10) by auto
  then have fz: "unat (zone_first sb s) \<le> a" using ain(1) by (auto simp: zones_all_def)
  then have first: "zone_first sb s \<le> z" by (simp add: word_le_nat_alt u(2))
  have "0 < unat (zone_first sb s)" using first_word(3) mountedD(9) [OF F(1)] by blast
  then have z0: "z \<noteq> 0" using fz u(2) by auto
  have new: "zone_of i l s \<noteq> z" if "l < 7" for l using F(11) [OF that] ain(2) u(2) z0 by auto
  have hz: "unat (zone_at p l (?v (ikey i s))) \<in> zones_used sb u \<and> zone_first sb s \<le> zone_at p l (?v (ikey i s))"
    if "l < 7" "zone_at p l (?v (ikey i s)) \<noteq> 0" for l
    using that F(11,12) [of l] u(2,5) first unfolding zn [OF that(1)] by (cases "l = j") simp_all
  have hi: "l = m" if "l < 7" "m < 7" "zone_at p l (?v (ikey i s)) \<noteq> 0" "zone_at p l (?v (ikey i s)) = zone_at p m (?v (ikey i s))" for l m
  proof -
    have e: "(if l = j then z else zone_of i l s) \<noteq> 0" "(if l = j then z else zone_of i l s) = (if m = j then z else zone_of i m s)"
      using that(3,4) unfolding zn [OF that(1)] zn [OF that(2)] by blast+
    show ?thesis
    proof (cases "l = j \<or> m = j")
      case True
      then show ?thesis using e(2) new [OF that(1)] new [OF that(2)] by (auto split: if_splits)
    next
      case False
      then show ?thesis using e F(13) [OF that(1,2)] by simp
    qed
  qed
  have zf: "zones_used sb s \<subseteq> zones_used sb u" using u(5) by blast
  note o = files_ok_sees [OF f u(3) vb zf, folded p_def, OF hz hi]
  have kp: "kept dev sb bs bz i s u"
  proof (rule kept_sees [OF f u(3) vb o(1)])
    have "get16 (put16 (p + 14 + 2 * j) z (inode_blk i s)) p = get16 (inode_blk i s) p" by (rule get16_put16_other) simp
    then show "get16 (?v (ikey i s)) (i_off (inode_table s i)) = get16 (inode_blk i s) (i_off (inode_table s i))"
      unfolding p_def by (simp only: fun_upd_same)
  qed
  have sz: "d_size i u = d_size i s"
    using d_size_blk [OF F(2)] d_size_blk [OF files_okD(2) [OF o(1)]] o(3,4) get32_put16_other [of "p + 4" "p + 14 + 2 * j"]
    by (simp add: p_def)
  have "zones_free sb u = zones_free sb s - {a}" unfolding zones_free_def u(5,6,7) by auto
  then have cd: "card (zones_free sb s) = Suc (card (zones_free sb u))" using card_Suc_Diff1 [OF fm(3,1)] by simp
  have bl: "\<forall>k. k \<noteq> ikey i s \<longrightarrow> k \<noteq> key s bz \<longrightarrow> blk u k = blk s k" using seesD(2) [OF u(3)] by simp
  show ?thesis using u(1,2) z0 kp o(5) zn bl sz cd True j zf ain(2) by auto
qed

section \<open>Writing into a block\<close>

text \<open>The bytes of the block after the write.\<close>

definition patched :: "u8 list \<Rightarrow> nat \<Rightarrow> u8 list \<Rightarrow> nat \<Rightarrow> u8 list" where
  "patched old st data c = take st old @ take c data @ drop (st + c) old"

lemma patched_length: "st + c \<le> length old \<Longrightarrow> c \<le> length data \<Longrightarrow> length (patched old st data c) = length old"
  by (simp add: patched_def)

lemma patched_nth:
  assumes "st + c \<le> length old" and "c \<le> length data" and "m < length old"
  shows "patched old st data c ! m = (if st \<le> m \<and> m < st + c then data ! (m - st) else old ! m)"
  using assms by (auto simp: patched_def nth_append)

definition grown :: "u32 \<Rightarrow> 'a fs_state_scheme \<Rightarrow> u32 \<Rightarrow> 'a fs_state_scheme" where
  "grown i s fin = (if fin > d_size i s then inode_dirty i (set_size i fin s) else s)"

lemma bstore_table [simp]: "inode_table (bstore b f s) = inode_table s" "inode_table (bdirty b s) = inode_table s"
  by (simp_all add: bstore_def bdirty_def upd_buf_def)

text \<open>The new size goes into the inode's block.\<close>

lemma grown_edits:
  fixes fin :: u32
  assumes f: "files_ok dev sb bs bz i u" and e: "edits u b v t" and vi: "v (ikey i u) = inode_blk i u"
  defines "w \<equiv> (if d_size i u < fin then v(ikey i u := put32 (i_off (inode_table u i) + 4) fin (inode_blk i u)) else v)"
  shows "edits u b w (grown i t fin)" "0 < buf_refs t c \<Longrightarrow> key (grown i t fin) c = key t c"
    "b_dirty (buffers t c) \<Longrightarrow> b_dirty (buffers (grown i t fin) c)"
proof -
  note F = files_okD [OF f] and E = editsD [OF e]
  define bi where "bi = i_buf (inode_table u i)"
  have it: "inode_table t = inode_table u" using same_kernel_fs(3) [OF E(4)] .
  have ki: "key t bi = ikey i u" "0 < buf_refs t bi" using E(5,7) F(15) by (simp_all add: bi_def)
  have bd: "bdata bi t = inode_blk i u" using bdata_blk [OF E(1) ki(2)] ki(1) E(2) vi by simp
  have ds: "d_size i t = d_size i u" using bd F(16) by (simp add: d_size_def it bi_def)
  show "b_dirty (buffers t c) \<Longrightarrow> b_dirty (buffers (grown i t fin) c)" by (simp add: grown_def inode_dirty_def set_desc_def)
  have "edits u b w (grown i t fin) \<and> (0 < buf_refs t c \<longrightarrow> key (grown i t fin) c = key t c)"
  proof (cases "d_size i u < fin")
    case False
    then show ?thesis using e by (simp add: grown_def ds w_def)
  next
    case True
    let ?f = "put32 (i_off (inode_table u i) + 4) fin"
    have bb: "blk t (key t bi) = inode_blk i u" using ki(1) E(2) vi by simp
    have s1: "sees t ((blk t)(key t bi := ?f (blk t (key t bi)))) (bstore bi ?f t)"
      by (rule bstore_sees [OF E(1) ki(2), where f = ?f]) (simp add: bb F(17))
    note S1 = seesD [OF s1]
    have "0 < buf_refs (bstore bi ?f t) bi" using S1(3) ki(2) by simp
    from bdirty_sees [OF S1(1) this] have s2: "sees t ((blk t)(key t bi := ?f (blk t (key t bi)))) (bdirty bi (bstore bi ?f t))"
      using sees_trans [OF s1] S1(2) by simp
    have g: "grown i t fin = bdirty bi (bstore bi ?f t)"
      using True by (simp add: grown_def ds inode_dirty_def set_desc_def it bi_def)
    have v: "(blk t)(key t bi := ?f (blk t (key t bi))) = w" unfolding bb unfolding ki(1) E(2) using True by (simp add: w_def)
    show ?thesis using edits_sees [OF e s2] unfolding v g by blast
  qed
  then show "edits u b w (grown i t fin)" "0 < buf_refs t c \<Longrightarrow> key (grown i t fin) c = key t c" by blast+
qed

lemma write_block:
  fixes fin :: u32
  assumes f: "files_ok dev sb bs bz i u" and sl: "slack u 1" and j: "j < 7" and z: "zone_of i j u = z" "z \<noteq> 0"
    and c: "st + c \<le> 1024" "c \<le> length data" and u: "unat n = c"
  defines "v \<equiv> (if d_size i u < fin then (blk u)(ikey i u := put32 (i_off (inode_table u i) + 4) fin (inode_blk i u)) else blk u)
      ((dev, ucast z) := patched (blk u (dev, ucast z)) st data c)"
  shows "\<exists>b t xs w. bread dev (ucast z) u = Inr (b, t) \<and> copy_at st data n (bdata b (grown i (bdirty b t) fin)) = Inr xs
    \<and> brelse b (bstore b (\<lambda>_. xs) (grown i (bdirty b t) fin)) = Inr w \<and> sees u v w"
proof -
  note F = files_okD [OF f]
  obtain b t where t: "bread dev (ucast z) u = Inr (b, t)" "opened u (dev, ucast z) b t" using bread_opens [OF F(14) zone_small sl] by blast
  note e0 = opened_edits [OF t(2)]
  note E0 = editsD [OF e0]
  have ap: "(dev, ucast z) \<noteq> ikey i u" using data_block_apart(1) [OF f] F(12) [OF j] z by simp
  have d: "calm t (bdirty b t)" by (rule bdirty_sees [OF E0(1,6)])
  have e1: "edits u b (blk u) (bdirty b t)" using edits_sees(1) [OF e0 d] E0(2) by simp
  have k1: "key (bdirty b t) b = (dev, ucast z)" using edits_sees(2) [OF e0 d E0(6)] openedD(3) [OF t(2)] by simp
  define g where "g = grown i (bdirty b t) fin"
  define w1 where "w1 = (if d_size i u < fin then (blk u)(ikey i u := put32 (i_off (inode_table u i) + 4) fin (inode_blk i u)) else blk u)"
  have vi: "blk u (ikey i u) = inode_blk i u" by (simp add: inode_blk_def)
  have G: "edits u b w1 g" unfolding w1_def g_def by (rule grown_edits(1) [OF f e1 vi])
  note E2 = editsD [OF G]
  have kg: "key g b = (dev, ucast z)" unfolding g_def using grown_edits(2) [OF f e1 vi editsD(6) [OF e1]] k1 by simp
  have wz: "w1 (dev, ucast z) = blk u (dev, ucast z)" using ap by (simp add: w1_def)
  have bd: "bdata b g = blk u (dev, ucast z)" using bdata_blk [OF E2(1,6)] kg E2(2) wz by simp
  have len: "length (blk u (dev, ucast z)) = 1024" by (rule file_block_length [OF F(14)])
  have cp: "copy_at st data n (bdata b g) = Inr (patched (blk u (dev, ucast z)) st data c)"
    unfolding bd using copy_at_eq [of n st "blk u (dev, ucast z)" data] c u len by (simp add: patched_def)
  let ?xs = "patched (blk u (dev, ucast z)) st data c"
  have lx: "length ?xs = 1024" using patched_length [of st c] c len by simp
  have s3: "sees g ((blk g)(key g b := ?xs)) (bstore b (\<lambda>_. ?xs) g)" by (rule bstore_sees [OF E2(1,6), where f = "\<lambda>_. ?xs"]) (rule lx)
  have v: "(blk g)(key g b := ?xs) = v" unfolding kg E2(2) v_def w1_def ..
  note e3 = edits_sees(1) [OF G s3, unfolded v]
  have "b_dirty (buffers (bstore b (\<lambda>_. ?xs) g) b)" using grown_edits(3) [OF f e1 vi, of b] by (simp add: g_def)
  then obtain w where "brelse b (bstore b (\<lambda>_. ?xs) g) = Inr w" "sees u v w" using edits_close [OF e3 sl] by blast
  then show ?thesis using t(1) cp unfolding g_def by blast
qed

text \<open>What the write of a block leaves: the file system, the other blocks, and the file with the bytes written.\<close>

lemma written_block:
  assumes f: "files_ok dev sb bs bz i u" and j: "j < 7" and z: "zone_of i j u = z" "z \<noteq> 0"
    and c: "st + c \<le> 1024" "c \<le> length data" and w: "sees u v w"
    and v: "v = (if d_size i u < fin then (blk u)(ikey i u := put32 (i_off (inode_table u i) + 4) fin (inode_blk i u)) else blk u)
      ((dev, ucast z) := patched (blk u (dev, ucast z)) st data c)"
  shows "kept dev sb bs bz i u w" "\<And>l. l < 7 \<Longrightarrow> zone_of i l w = zone_of i l u" "d_size i w = max (d_size i u) fin"
    "zones_free sb w = zones_free sb u" "zones_used sb w = zones_used sb u"
    "\<And>k. k \<noteq> ikey i u \<Longrightarrow> k \<noteq> (dev, ucast z) \<Longrightarrow> blk w k = blk u k" "blk w (dev, ucast z) = patched (blk u (dev, ucast z)) st data c"
proof -
  note F = files_okD [OF f]
  define p where "p = i_off (inode_table u i)"
  have ap: "(dev, ucast z) \<noteq> ikey i u" "(dev, ucast z) \<noteq> key u bs" "(dev, ucast z) \<noteq> key u bz"
    using data_block_apart [OF f] F(12) [OF j] z by simp_all
  have vk: "v (key u bs) = blk u (key u bs)" "v (key u bz) = blk u (key u bz)" using ap F(5,6) unfolding v by simp_all
  have vi: "v (ikey i u) = (if d_size i u < fin then put32 (p + 4) fin (inode_blk i u) else inode_blk i u)"
    using ap by (simp add: v p_def inode_blk_def)
  have zl: "zone_at p l (v (ikey i u)) = zone_of i l u" if "l < 7" for l
  proof -
    have "zone_at p l (put32 (p + 4) fin (inode_blk i u)) = zone_at p l (inode_blk i u)" by (rule get16_put32_other) simp
    then show ?thesis using zone_of_direct [OF that, of i u] vi by (simp add: p_def)
  qed
  note zu = mounted_sees(6,7) [OF F(1) w vk(1)] mounted_sees(3) [OF F(1) w vk(1)]
  show zs: "zones_used sb w = zones_used sb u" by (rule zu(2) [OF vk(2)])
  have hz: "unat (zone_at p l (v (ikey i u))) \<in> zones_used sb w \<and> zone_first sb u \<le> zone_at p l (v (ikey i u))"
    if "l < 7" "zone_at p l (v (ikey i u)) \<noteq> 0" for l
    using that F(11,12) [of l] unfolding zl [OF that(1)] zs by blast
  have hi: "l = m" if "l < 7" "m < 7" "zone_at p l (v (ikey i u)) \<noteq> 0" "zone_at p l (v (ikey i u)) = zone_at p m (v (ikey i u))" for l m
    using that(3,4) F(13) [OF that(1,2)] unfolding zl [OF that(1)] zl [OF that(2)] by blast
  note o = files_ok_sees [OF f w vk(1) _ , folded p_def, OF _ hz hi, unfolded zs, OF subset_refl]
  show kp: "kept dev sb bs bz i u w"
  proof (rule kept_sees [OF f w vk(1) o(1)])
    have "get16 (put32 (p + 4) fin (inode_blk i u)) p = get16 (inode_blk i u) p" by (rule get16_put32_other) simp
    then show "get16 (v (ikey i u)) (i_off (inode_table u i)) = get16 (inode_blk i u) (i_off (inode_table u i))"
      unfolding vi unfolding p_def by simp
  qed
  show "\<And>l. l < 7 \<Longrightarrow> zone_of i l w = zone_of i l u" using o(5) zl by simp
  have "p + 4 + 4 \<le> length (inode_blk i u)" using F(4,17) by (simp add: p_def)
  then have "get32 (v (ikey i u)) (p + 4) = (if d_size i u < fin then fin else get32 (inode_blk i u) (p + 4))"
    unfolding vi by (simp add: get32_put32)
  then show "d_size i w = max (d_size i u) fin"
    using d_size_blk [OF F(2)] d_size_blk [OF files_okD(2) [OF o(1)]] o(3,4) by (auto simp: p_def max_def dest: less_imp_le)
  show "zones_free sb w = zones_free sb u" unfolding zones_free_def zs zu(1,3) ..
  show "blk w k = blk u k" if "k \<noteq> ikey i u" "k \<noteq> (dev, ucast z)" for k using that unfolding seesD(2) [OF w] v by simp
  show "blk w (dev, ucast z) = patched (blk u (dev, ucast z)) st data c" unfolding seesD(2) [OF w] v by simp
qed

section \<open>The loop\<close>

definition holes :: "u32 \<Rightarrow> 'a fs_state_scheme \<Rightarrow> nat \<Rightarrow> nat \<Rightarrow> nat set" where
  "holes i s a n = {j \<in> (\<lambda>k. k div 1024) ` {a..<a + n}. zone_of i j s = 0}"

text \<open>The file after bytes from \<open>a\<close> on have been written.\<close>

definition wrote :: "u32 \<Rightarrow> nat \<Rightarrow> u32 \<Rightarrow> u32 \<Rightarrow> u32 \<Rightarrow> nat \<Rightarrow> u8 list \<Rightarrow> 'a fs_state_scheme \<Rightarrow> 'a fs_state_scheme \<Rightarrow> bool" where
  "wrote dev sb bs bz i a bytes s t \<longleftrightarrow> kept dev sb bs bz i s t \<and> no_hole i t a (length bytes) \<and> file_bytes i t a (length bytes) = bytes
     \<and> (\<forall>j < 7. zone_of i j t = zone_of i j s \<or> zone_of i j s = 0 \<and> unat (zone_of i j t) \<notin> zones_used sb s)
     \<and> (\<forall>k < 7168. k \<notin> {a..<a + length bytes} \<longrightarrow> zone_of i (k div 1024) s \<noteq> 0 \<longrightarrow> file_byte i t k = file_byte i s k)
     \<and> d_size i t = (if bytes = [] then d_size i s else max (d_size i s) (of_nat (a + length bytes)))
     \<and> (\<forall>k. k \<noteq> ikey i s \<longrightarrow> k \<noteq> key s bz \<longrightarrow> (\<forall>j < 7. zone_of i j t \<noteq> 0 \<longrightarrow> k \<noteq> (dev, ucast (zone_of i j t))) \<longrightarrow> blk t k = blk s k)
     \<and> zones_used sb s \<subseteq> zones_used sb t"

lemma write_step:
  assumes f: "files_ok dev sb bs bz i s" and sl: "slack s 1" and a: "a + n \<le> 7168" "0 < n" and room: "pos + n \<le> length ubuf"
    and fr: "card (holes i s a n) \<le> card (zones_free sb s)"
  defines "c \<equiv> chunk a n"
  shows "\<exists>w. write_loop i ubuf (of_nat n) (of_nat a) pos s = write_loop i ubuf (of_nat (n - c)) (of_nat (a + c)) (pos + c) w
    \<and> wrote dev sb bs bz i a (take c (drop pos ubuf)) s w \<and> card (holes i w (a + c) (n - c)) \<le> card (zones_free sb w)"
proof -
  note F = files_okD [OF f] and cb = chunk_bounds [of a n, folded c_def] and cw = chunk_word [of n a, folded c_def]
  define j where "j = a div 1024"
  have j: "j < 7" using a by (simp add: j_def div_less_iff_less_mult)
  have jin: "j \<in> (\<lambda>k. k div 1024) ` {a..<a + n}" using a(2) by (auto simp: j_def)
  have fin: "finite (holes i s a n)" by (simp add: holes_def)
  have "zones_free sb s \<noteq> {}" if "zone_of i j s = 0"
  proof -
    have "j \<in> holes i s a n" using jin that by (simp add: holes_def)
    then have "card (holes i s a n) \<noteq> 0" using fin by auto
    then show ?thesis using fr by auto
  qed
  then obtain u z where u: "bmap i (of_nat j) True s = Inr (ucast z, u)" "z \<noteq> 0" "kept dev sb bs bz i s u" "zone_of i j u = z"
    "\<forall>l < 7. l \<noteq> j \<longrightarrow> zone_of i l u = zone_of i l s" "zone_of i j s \<noteq> 0 \<longrightarrow> z = zone_of i j s"
    "\<forall>k. k \<noteq> ikey i s \<longrightarrow> k \<noteq> key s bz \<longrightarrow> blk u k = blk s k" "d_size i u = d_size i s"
    "card (zones_free sb s) \<le> card (zones_free sb u) + (if zone_of i j s = 0 then 1 else 0)"
    "zones_used sb s \<subseteq> zones_used sb u" "zone_of i j s = 0 \<longrightarrow> unat z \<notin> zones_used sb s"
    using bmap_block [OF f sl j] by blast
  note U = keptD [OF u(3)]
  have n32: "n < 2 ^ 32" "n < 2 ^ 31" "a < 2 ^ 31" using a(1) by simp_all
  have len: "c \<le> length (drop pos ubuf)" using room cb(1) by simp
  have slu: "slack u 1" using U(13) sl by simp
  define fin' where "fin' = (of_nat (a + c) :: u32)"
  obtain b t xs w where w: "bread dev (ucast z) u = Inr (b, t)"
    "copy_at (a mod 1024) (drop pos ubuf) (of_nat c) (bdata b (grown i (bdirty b t) fin')) = Inr xs"
    "brelse b (bstore b (\<lambda>_. xs) (grown i (bdirty b t) fin')) = Inr w"
    "sees u ((if d_size i u < fin' then (blk u)(ikey i u := put32 (i_off (inode_table u i) + 4) fin' (inode_blk i u)) else blk u)
      ((dev, ucast z) := patched (blk u (dev, ucast z)) (a mod 1024) (drop pos ubuf) c)) w"
    using write_block [OF U(1) slu j u(4,2) cb(2) len cw(3) [OF n32(1)], of fin'] by blast
  note W = written_block [OF U(1) j u(4,2) cb(2) len w(4) refl]
  note o = off_parts [OF n32(3)]
  have am: "unat (of_nat (a mod 1024) :: u32) = a mod 1024"
  proof (rule unat_of_nat_small)
    have "a mod 1024 < 1024" by simp
    then show "a mod 1024 < 2 ^ LENGTH(32)" by simp
  qed
  have n0: "(of_nat n :: u32) \<noteq> 0" using a(2) n32 unat_of_nat_small [where 'a = 32, of n] by (auto simp: unat_eq_0 [symmetric])
  have z0: "(ucast z :: u32) \<noteq> 0" using unat_ucast_zone [of z] u(2) by (metis unat_0 unat_eq_0)
  have dv: "i_dev (inode_table u i) = dev" using F(3) U(12) by simp
  have step: "write_loop i ubuf (of_nat n) (of_nat a) pos s = write_loop i ubuf (of_nat (n - c)) (of_nat (a + c)) (pos + c) w"
    by (subst write_loop.simps)
       (simp only: if_not_P [OF n0] o(1) j_def [symmetric] u(1) bindO_Inr prod.case if_not_P [OF z0] dv w(1) Let_def o(2) am
          cw(1) [OF n32(1)] cw(2) [OF n32(1)] cw(3) [OF n32(1)] grown_def [symmetric] of_nat_add [symmetric] w(2,3) [unfolded fin'_def])
  have kp: "kept dev sb bs bz i s w" by (rule file_kept_trans [OF u(3) W(1)])
  have zj: "zone_of i j w = z" using W(2) [OF j] u(4) by simp
  have zl: "zone_of i l w = zone_of i l s" if "l < 7" "l \<noteq> j" for l using W(2) [OF that(1)] u(5) that by simp
  have apz: "zone_first sb s \<le> z" using files_okD(12) [OF U(1) j] u(2,4) U(9) by simp
  have old: "blk u (dev, ucast y) = blk s (dev, ucast y)" if "zone_first sb s \<le> y" for y
    using u(7) data_block_apart(1,3) [OF f that] by simp
  have L: "length (blk s (dev, ucast y)) = 1024" for y :: u16 by (rule file_block_length [OF F(14)])
  have di: "i_dev (inode_table w i) = dev" using F(3) keptD(12) [OF kp] by simp
  have new: "file_byte i w k = (if k \<in> {a..<a + c} then take c (drop pos ubuf) ! (k - a) else blk s (dev, ucast z) ! (k mod 1024))"
    if "k div 1024 = j" for k
  proof -
    have "k = 1024 * (k div 1024) + k mod 1024" "a = 1024 * (a div 1024) + a mod 1024" by simp_all
    then have m: "k mod 1024 < 1024" "k = 1024 * j + k mod 1024" "a = 1024 * j + a mod 1024" unfolding that unfolding j_def by simp_all
    have "file_byte i w k = patched (blk s (dev, ucast z)) (a mod 1024) (drop pos ubuf) c ! (k mod 1024)"
      by (simp add: file_byte_def that zj di W(7) old [OF apz])
    also have "... = (if a mod 1024 \<le> k mod 1024 \<and> k mod 1024 < a mod 1024 + c then drop pos ubuf ! (k mod 1024 - a mod 1024) else blk s (dev, ucast z) ! (k mod 1024))"
      using patched_nth [of "a mod 1024" c] cb(2) L len m(1) by simp
    also have "... = (if k \<in> {a..<a + c} then take c (drop pos ubuf) ! (k - a) else blk s (dev, ucast z) ! (k mod 1024))"
    proof -
      have "a mod 1024 \<le> k mod 1024 \<longleftrightarrow> a \<le> k" "k mod 1024 < a mod 1024 + c \<longleftrightarrow> k < a + c" "k mod 1024 - a mod 1024 = k - a" using m by linarith+
      then show ?thesis by auto
    qed
    finally show ?thesis .
  qed
  have others: "file_byte i w k = file_byte i s k" if "k < 7168" "k \<notin> {a..<a + c}" "zone_of i (k div 1024) s \<noteq> 0" for k
  proof (cases "k div 1024 = j")
    case True
    then have "z = zone_of i j s" using u(6) that(3) by simp
    have "file_byte i w k = blk s (dev, ucast z) ! (k mod 1024)" unfolding new [OF True] using that(2) by (rule if_not_P)
    then show ?thesis unfolding file_byte_def [of i s] F(3) True \<open>z = zone_of i j s\<close> .
  next
    case False
    have l7: "k div 1024 < 7" using that(1) by (simp add: div_less_iff_less_mult)
    have y: "zone_of i (k div 1024) w = zone_of i (k div 1024) s" by (rule zl [OF l7 False])
    have "zone_first sb s \<le> zone_of i (k div 1024) s" by (rule F(12) [OF l7 that(3)])
    note q = data_block_apart(1) [OF f this, of dev] old [OF this]
    have "zone_of i (k div 1024) s \<noteq> z"
    proof
      assume e: "zone_of i (k div 1024) s = z"
      have "zone_of i (k div 1024) w = zone_of i j w" using y e zj by simp
      then have "k div 1024 = j" using files_okD(13) [OF keptD(1) [OF kp] l7 j] y that(3) by simp
      then show False using False by blast
    qed
    then have "(ucast (zone_of i (k div 1024) s) :: u32) \<noteq> ucast z" using unat_ucast_zone by (metis word_unat_eq_iff)
    then have "blk w (dev, ucast (zone_of i (k div 1024) s)) = blk s (dev, ucast (zone_of i (k div 1024) s))"
      using W(6) q U(4) by simp
    then show ?thesis using F(3) di y by (simp add: file_byte_def)
  qed
  have bytes: "file_bytes i w a c = take c (drop pos ubuf)"
  proof (rule nth_equalityI)
    show "length (file_bytes i w a c) = length (take c (drop pos ubuf))" using len by simp
    fix m
    assume "m < length (file_bytes i w a c)"
    then have m: "m < c" by simp
    then have "(a + m) div 1024 = j" using same_block(1) [of a m] cb(2) by (simp add: j_def)
    from new [OF this] show "file_bytes i w a c ! m = take c (drop pos ubuf) ! m" using m by (simp add: file_bytes_def)
  qed
  have c0: "0 < c" using cb(3) a(2) by simp
  have nh: "no_hole i w a c" using no_hole_block [OF cb(2) c0, of i w] zj u(2) by (simp add: j_def)
  have wr: "wrote dev sb bs bz i a (take c (drop pos ubuf)) s w"
  proof -
    have l: "length (take c (drop pos ubuf)) = c" "take c (drop pos ubuf) \<noteq> []" using len c0 by (auto simp: min_def)
    have "zone_of i l w = zone_of i l s \<or> zone_of i l s = 0 \<and> unat (zone_of i l w) \<notin> zones_used sb s" if "l < 7" for l
      using zl [OF that] zj u(6,11) by (cases "l = j") auto
    moreover have "blk w k = blk s k" if "k \<noteq> ikey i s" "k \<noteq> key s bz" "\<forall>j < 7. zone_of i j w \<noteq> 0 \<longrightarrow> k \<noteq> (dev, ucast (zone_of i j w))" for k
      using that u(2,7) W(6) [of k] zj j U(4) by metis
    moreover have "d_size i w = max (d_size i s) (of_nat (a + c))" using W(3) u(8) by (simp add: fin'_def)
    moreover have "zones_used sb s \<subseteq> zones_used sb w" using u(10) W(5) by simp
    ultimately show ?thesis unfolding wrote_def l(1) using l(2) kp nh bytes others by auto
  qed
  have sub: "holes i w (a + c) (n - c) \<subseteq> holes i s a n - {j}"
  proof
    fix l
    assume l: "l \<in> holes i w (a + c) (n - c)"
    then have z: "zone_of i l w = 0" by (simp add: holes_def)
    then have lj: "l \<noteq> j" using zj u(2) by auto
    obtain k where k: "l = k div 1024" "a + c \<le> k" "k < a + n" using l cb(1) by (auto simp: holes_def)
    then have "l < 7" using a(1) by (simp add: div_less_iff_less_mult)
    then have "zone_of i l s = 0" using zl lj z by simp
    then show "l \<in> holes i s a n - {j}" using lj k by (auto simp: holes_def)
  qed
  have "card (holes i w (a + c) (n - c)) \<le> card (zones_free sb w)"
  proof (cases "zone_of i j s = 0")
    case True
    then have "j \<in> holes i s a n" using jin by (simp add: holes_def)
    then have "card (holes i s a n - {j}) = card (holes i s a n) - 1" using fin by simp
    then show ?thesis using card_mono [OF _ sub] fin fr u(9) True W(4) by simp
  next
    case False
    have "card (holes i s a n - {j}) \<le> card (holes i s a n)" by (rule card_Diff1_le)
    then show ?thesis using card_mono [OF _ sub] fin fr u(9) False W(4) by simp
  qed
  then show ?thesis using step wr by blast
qed

lemma of_nat_max: "a \<le> b \<Longrightarrow> b < 7169 \<Longrightarrow> max (of_nat a) (of_nat b) = (of_nat b :: u32)"
  using unat_of_nat_small [where 'a = 32, of a] unat_of_nat_small [where 'a = 32, of b] by (simp add: max_def word_le_nat_alt)

lemma wrote_append:
  assumes 1: "wrote dev sb bs bz i a xs s w" and 2: "wrote dev sb bs bz i (a + length xs) ys w t"
    and le: "a + length xs + length ys \<le> 7168" and ne: "xs \<noteq> []"
  shows "wrote dev sb bs bz i a (xs @ ys) s t"
proof -
  let ?c = "length xs" and ?m = "length ys"
  have A: "kept dev sb bs bz i s w" "no_hole i w a ?c" "file_bytes i w a ?c = xs"
    "\<And>j. j < 7 \<Longrightarrow> zone_of i j w = zone_of i j s \<or> zone_of i j s = 0 \<and> unat (zone_of i j w) \<notin> zones_used sb s"
    "\<And>k. k < 7168 \<Longrightarrow> k \<notin> {a..<a + ?c} \<Longrightarrow> zone_of i (k div 1024) s \<noteq> 0 \<Longrightarrow> file_byte i w k = file_byte i s k"
    "d_size i w = max (d_size i s) (of_nat (a + ?c))"
    "\<And>k. k \<noteq> ikey i s \<Longrightarrow> k \<noteq> key s bz \<Longrightarrow> \<forall>j < 7. zone_of i j w \<noteq> 0 \<longrightarrow> k \<noteq> (dev, ucast (zone_of i j w)) \<Longrightarrow> blk w k = blk s k"
    "zones_used sb s \<subseteq> zones_used sb w"
    using 1 ne unfolding wrote_def by auto
  have B: "kept dev sb bs bz i w t" "no_hole i t (a + ?c) ?m" "file_bytes i t (a + ?c) ?m = ys"
    "\<And>j. j < 7 \<Longrightarrow> zone_of i j t = zone_of i j w \<or> zone_of i j w = 0 \<and> unat (zone_of i j t) \<notin> zones_used sb w"
    "\<And>k. k < 7168 \<Longrightarrow> k \<notin> {a + ?c..<a + ?c + ?m} \<Longrightarrow> zone_of i (k div 1024) w \<noteq> 0 \<Longrightarrow> file_byte i t k = file_byte i w k"
    "d_size i t = (if ys = [] then d_size i w else max (d_size i w) (of_nat (a + ?c + ?m)))"
    "\<And>k. k \<noteq> ikey i w \<Longrightarrow> k \<noteq> key w bz \<Longrightarrow> \<forall>j < 7. zone_of i j t \<noteq> 0 \<longrightarrow> k \<noteq> (dev, ucast (zone_of i j t)) \<Longrightarrow> blk t k = blk w k"
    "zones_used sb w \<subseteq> zones_used sb t"
    using 2 unfolding wrote_def by auto
  note KA = keptD [OF A(1)]
  have d7: "k div 1024 < 7" if "k < 7168" for k :: nat using that by (simp add: div_less_iff_less_mult)
  have zt: "zone_of i j t = zone_of i j w" if "j < 7" "zone_of i j w \<noteq> 0" for j using B(4) that by auto
  have zw: "zone_of i j w = zone_of i j s" if "j < 7" "zone_of i j s \<noteq> 0" for j using A(4) that by auto
  have low: "zone_of i (k div 1024) w \<noteq> 0 \<and> k < 7168 \<and> k \<notin> {a + ?c..<a + ?c + ?m}" if "k \<in> {a..<a + ?c}" for k
    using A(2) that le by (auto simp: no_hole_def)
  have nh: "no_hole i t a ?c" unfolding no_hole_def using low zt d7 by simp
  have "file_bytes i t a ?c = file_bytes i w a ?c" unfolding file_bytes_def using low B(5) by auto
  then have bt: "file_bytes i t a (?c + ?m) = xs @ ys" using file_bytes_split [of ?c "?c + ?m" i t a] A(3) B(3) by simp
  have nh2: "no_hole i t a (?c + ?m)" using no_hole_split [of ?c "?c + ?m" i t a] nh B(2) by simp
  have zz: "zone_of i j t = zone_of i j s \<or> zone_of i j s = 0 \<and> unat (zone_of i j t) \<notin> zones_used sb s" if "j < 7" for j
    using A(4,8) B(4) that by fastforce
  have rest: "file_byte i t k = file_byte i s k" if "k < 7168" "k \<notin> {a..<a + (?c + ?m)}" "zone_of i (k div 1024) s \<noteq> 0" for k
  proof -
    have "k \<notin> {a..<a + ?c}" "k \<notin> {a + ?c..<a + ?c + ?m}" using that(2) by auto
    moreover have "zone_of i (k div 1024) w \<noteq> 0" using zw [OF d7 [OF that(1)] that(3)] that(3) by simp
    ultimately show ?thesis using A(5) B(5) that(1,3) by metis
  qed
  have sz: "d_size i t = max (d_size i s) (of_nat (a + (?c + ?m)))"
    unfolding B(6) A(6) using of_nat_max [of "a + ?c" "a + ?c + ?m"] le by (cases "ys = []") (simp_all add: max.assoc add.assoc)
  have bl: "blk t k = blk s k" if "k \<noteq> ikey i s" "k \<noteq> key s bz" "\<forall>j < 7. zone_of i j t \<noteq> 0 \<longrightarrow> k \<noteq> (dev, ucast (zone_of i j t))" for k
  proof -
    have "\<forall>j < 7. zone_of i j w \<noteq> 0 \<longrightarrow> k \<noteq> (dev, ucast (zone_of i j w))" using that(3) zt by metis
    then show ?thesis using A(7) B(7) that KA(4,5) by simp
  qed
  show ?thesis unfolding wrote_def length_append
    using file_kept_trans [OF A(1) B(1)] nh2 bt zz rest sz bl A(8) B(8) ne by auto
qed

lemma wrote_nothing: "files_ok dev sb bs bz i s \<Longrightarrow> wrote dev sb bs bz i a [] s s"
  using files_okD(2) [of dev sb bs bz i s] by (simp add: wrote_def kept_def no_hole_def)

lemma file_write_loop_ok:
  assumes "files_ok dev sb bs bz i s" and "slack s 1" and "a + n \<le> 7168" and "pos + n \<le> length ubuf"
    and "card (holes i s a n) \<le> card (zones_free sb s)"
  shows "\<exists>t. write_loop i ubuf (of_nat n) (of_nat a) pos s = Some (Inr (of_nat (a + n), t))
    \<and> wrote dev sb bs bz i a (take n (drop pos ubuf)) s t"
  using assms
proof (induction n arbitrary: a pos s rule: less_induct)
  case (less n)
  show ?case
  proof (cases "n = 0")
    case True
    then show ?thesis using wrote_nothing [OF less.prems(1)] by (simp add: write_loop.simps)
  next
    case False
    define c where "c = chunk a n"
    note cb = chunk_bounds [of a n, folded c_def]
    have lt: "n - c < n" using cb(3) False by linarith
    have e: "a + c + (n - c) = a + n" "pos + c + (n - c) = pos + n" using cb(1) by simp_all
    obtain w where w: "write_loop i ubuf (of_nat n) (of_nat a) pos s = write_loop i ubuf (of_nat (n - c)) (of_nat (a + c)) (pos + c) w"
      "wrote dev sb bs bz i a (take c (drop pos ubuf)) s w" "card (holes i w (a + c) (n - c)) \<le> card (zones_free sb w)"
      using write_step [OF less.prems(1,2,3) _ less.prems(4,5)] False unfolding c_def by blast
    have k: "kept dev sb bs bz i s w" using w(2) by (simp add: wrote_def)
    note K = keptD [OF k]
    have sl: "slack w 1" using K(13) less.prems(2) by simp
    obtain t where t: "write_loop i ubuf (of_nat (n - c)) (of_nat (a + c)) (pos + c) w = Some (Inr (of_nat (a + n), t))"
      "wrote dev sb bs bz i (a + c) (take (n - c) (drop (pos + c) ubuf)) w t"
      using less.IH [OF lt K(1) sl, of "a + c" "pos + c", unfolded e, OF less.prems(3,4) w(3)] by blast
    have l: "length (take c (drop pos ubuf)) = c" "length (take (n - c) (drop (pos + c) ubuf)) = n - c"
      using less.prems(4) cb(1) by simp_all
    have c0: "take c (drop pos ubuf) \<noteq> []" using l(1) cb(3) False by auto
    have ap: "take c (drop pos ubuf) @ take (n - c) (drop (pos + c) ubuf) = take n (drop pos ubuf)"
      using take_add [of c "n - c" "drop pos ubuf"] cb(1) by (simp add: add.commute)
    have "wrote dev sb bs bz i a (take n (drop pos ubuf)) s t"
      using wrote_append [OF w(2), unfolded l(1), OF t(2), unfolded l(2) e, OF less.prems(3) c0] unfolding ap .
    then show ?thesis using w(1) t(1) by simp
  qed
qed

section \<open>The whole call\<close>

text \<open>The access time is kept in the table only.\<close>

lemma atime_files [simp]:
  "files_ok dev sb bs bz i (upd_inode i (\<lambda>t. t\<lparr>i_atime := v\<rparr>) s) = files_ok dev sb bs bz i s"
  "zone_of i j (upd_inode i (\<lambda>t. t\<lparr>i_atime := v\<rparr>) s) = zone_of i j s"
  "d_size i (upd_inode i (\<lambda>t. t\<lparr>i_atime := v\<rparr>) s) = d_size i s" "d_mode i (upd_inode i (\<lambda>t. t\<lparr>i_atime := v\<rparr>) s) = d_mode i s"
  "zones_used sb (upd_inode i (\<lambda>t. t\<lparr>i_atime := v\<rparr>) s) = zones_used sb s"
  "file_byte i (upd_inode i (\<lambda>t. t\<lparr>i_atime := v\<rparr>) s) = file_byte i s"
  "inode_blk i (upd_inode i (\<lambda>t. t\<lparr>i_atime := v\<rparr>) s) = inode_blk i s"
proof -
  let ?u = "upd_inode i (\<lambda>t. t\<lparr>i_atime := v\<rparr>) s"
  have t: "i_buf (inode_table ?u i) = i_buf (inode_table s i)" "i_off (inode_table ?u i) = i_off (inode_table s i)"
    "i_dev (inode_table ?u i) = i_dev (inode_table s i)" "super_table ?u = super_table s" by (simp_all add: upd_inode_def)
  show ib: "inode_blk i ?u = inode_blk i s" by (simp add: inode_blk_def t)
  show "d_size i ?u = d_size i s" "d_mode i ?u = d_mode i s" by (simp_all add: d_size_def d_mode_def t)
  show z: "zone_of i j ?u = zone_of i j s" for j by (simp add: zone_of_def ib t)
  show "file_byte i ?u = file_byte i s" by (simp add: file_byte_def z t fun_eq_iff)
  have f: "zone_first sb ?u = zone_first sb s" by (simp add: zone_first_def t)
  then show u: "zones_used sb ?u = zones_used sb s" by (simp add: zones_used_def zone_map_def t)
  have "get_super dev ?u = get_super dev s" by (simp add: get_super_def t)
  then have "mounted dev sb bs bz ?u = mounted dev sb bs bz s" unfolding mounted_def t f by simp
  moreover have "inode_held i ?u = inode_held i s" by (simp add: inode_held_def t)
  ultimately show "files_ok dev sb bs bz i ?u = files_ok dev sb bs bz i s" unfolding files_ok_def t f u z by simp
qed

text \<open>The time of the change goes into the inode's buffer, which is written when it is dirty.\<close>

lemma mtime_ok:
  fixes v :: u32
  assumes f: "files_ok dev sb bs bz i s"
  defines "t \<equiv> bwrite (i_buf (inode_table s i)) (set_mtime i v s)"
  shows "kept dev sb bs bz i s t" "j < 7 \<Longrightarrow> zone_of i j t = zone_of i j s" "d_size i t = d_size i s"
    "k \<noteq> ikey i s \<Longrightarrow> blk t k = blk s k" "m < 7168 \<Longrightarrow> zone_of i (m div 1024) s \<noteq> 0 \<Longrightarrow> file_byte i t m = file_byte i s m"
proof -
  note F = files_okD [OF f]
  define p where "p = i_off (inode_table s i)"
  define bi where "bi = i_buf (inode_table s i)"
  let ?f = "put32 (p + 8) v"
  have b: "0 < buf_refs s bi" "blk s (key s bi) = inode_blk i s" using F(15) by (simp_all add: bi_def inode_blk_def)
  have s1: "sees s ((blk s)(key s bi := ?f (blk s (key s bi)))) (bstore bi ?f s)"
    by (rule bstore_sees [OF F(14) b(1), where f = ?f]) (simp add: b(2) F(17))
  note S1 = seesD [OF s1]
  have "0 < buf_refs (bstore bi ?f s) bi" using S1(3) b(1) by simp
  from sees_trans [OF s1 bwrite_sees [OF S1(1) this]] have "sees s ((blk s)(key s bi := ?f (blk s (key s bi)))) t"
    using S1(2) by (simp add: t_def set_desc_def p_def bi_def)
  then have w: "sees s ((blk s)(ikey i s := ?f (inode_blk i s))) t" unfolding b(2) unfolding bi_def .
  let ?v = "(blk s)(ikey i s := ?f (inode_blk i s))"
  have vk: "?v (key s bs) = blk s (key s bs)" "?v (key s bz) = blk s (key s bz)" using F(5,6) by simp_all
  have zl: "zone_at p l (?v (ikey i s)) = zone_of i l s" if "l < 7" for l
  proof -
    have "zone_at p l (?f (inode_blk i s)) = zone_at p l (inode_blk i s)" by (rule get16_put32_other) simp
    then show ?thesis using zone_of_direct [OF that, of i s] by (simp add: p_def)
  qed
  have zs: "zones_used sb t = zones_used sb s" by (rule mounted_sees(7) [OF F(1) w vk])
  have hz: "unat (zone_at p l (?v (ikey i s))) \<in> zones_used sb t \<and> zone_first sb s \<le> zone_at p l (?v (ikey i s))"
    if "l < 7" "zone_at p l (?v (ikey i s)) \<noteq> 0" for l
    using that F(11,12) [of l] unfolding zl [OF that(1)] zs by blast
  have hi: "l = m" if "l < 7" "m < 7" "zone_at p l (?v (ikey i s)) \<noteq> 0" "zone_at p l (?v (ikey i s)) = zone_at p m (?v (ikey i s))" for l m
    using that(3,4) F(13) [OF that(1,2)] unfolding zl [OF that(1)] zl [OF that(2)] by blast
  note o = files_ok_sees [OF f w vk(1) _ , folded p_def, OF _ hz hi, unfolded zs, OF subset_refl]
  show kp: "kept dev sb bs bz i s t"
  proof (rule kept_sees [OF f w vk(1) o(1)])
    have "get16 (?f (inode_blk i s)) p = get16 (inode_blk i s) p" by (rule get16_put32_other) simp
    then show "get16 (?v (ikey i s)) (i_off (inode_table s i)) = get16 (inode_blk i s) (i_off (inode_table s i))"
      unfolding p_def by (simp only: fun_upd_same)
  qed
  show z: "zone_of i j t = zone_of i j s" if "j < 7" for j using o(5) zl that by simp
  have "get32 (?f (inode_blk i s)) (p + 4) = get32 (inode_blk i s) (p + 4)" by (rule get32_put32_other) simp
  then show "d_size i t = d_size i s"
    using d_size_blk [OF F(2)] d_size_blk [OF files_okD(2) [OF o(1)]] o(3,4) by (simp add: p_def)
  show bl: "blk t k = blk s k" if "k \<noteq> ikey i s" for k using that seesD(2) [OF w] by simp
  show "file_byte i t m = file_byte i s m" if m: "m < 7168" "zone_of i (m div 1024) s \<noteq> 0"
  proof -
    have m7: "m div 1024 < 7" using m(1) by (simp add: div_less_iff_less_mult)
    have "(i_dev (inode_table s i), ucast (zone_of i (m div 1024) s)) \<noteq> ikey i s"
      by (rule data_block_apart(1) [OF f F(12) [OF m7 m(2)]])
    then show ?thesis using bl using keptD(12) [OF kp] by (simp add: file_byte_def z [OF m7])
  qed
qed

text \<open>Files with at most 262663 blocks.\<close>

abbreviation "MAX_FILE_BYTES \<equiv> (262663 :: nat) * 1024"

lemma inode_write_ok:
  assumes f: "files_ok dev sb bs bz i s" and sl: "slack s 1" and md: "d_mode i s \<noteq> 0" and n: "0 < len"
    and le: "unat offset + unat len \<le> 7168" and room: "unat len \<le> length ubuf"
    and fr: "card (holes i s (unat offset) (unat len)) \<le> card (zones_free sb s)"
  shows "\<exists>t u. inode_write i ubuf len offset s = Inr (len, u) \<and> wrote dev sb bs bz i (unat offset) (take (unat len) ubuf) s t
    \<and> kept dev sb bs bz i (upd_inode i (\<lambda>x. x\<lparr>i_atime := time t\<rparr>) t) u \<and> d_size i u = d_size i t
    \<and> (\<forall>j < 7. zone_of i j u = zone_of i j t) \<and> (\<forall>k. k \<noteq> ikey i s \<longrightarrow> blk u k = blk t k)
    \<and> (\<forall>m < 7168. zone_of i (m div 1024) t \<noteq> 0 \<longrightarrow> file_byte i u m = file_byte i t m)"
proof -
  obtain t where t: "write_loop i ubuf len offset 0 s = Some (Inr (offset + len, t))"
    "wrote dev sb bs bz i (unat offset) (take (unat len) ubuf) s t"
    using file_write_loop_ok [OF f sl le _ fr, of 0 ubuf] room by auto
  have k: "kept dev sb bs bz i s t" using t(2) by (simp add: wrote_def)
  note K = keptD [OF k]
  let ?t1 = "upd_inode i (\<lambda>x. x\<lparr>i_atime := time t\<rparr>) t"
  have f1: "files_ok dev sb bs bz i ?t1" using K(1) by simp
  define u where "u = bwrite (i_buf (inode_table ?t1 i)) (set_mtime i (time ?t1) ?t1)"
  note M = mtime_ok [OF f1, where v = "time ?t1", folded u_def]
  have ik: "ikey i ?t1 = ikey i s" using K(4,12) by (simp add: upd_inode_def [of i _ t] key_def)
  have "inode_table (set_mtime i (time ?t1) ?t1) = inode_table ?t1" by (simp add: set_desc_def)
  then have "inode_write i ubuf len offset s = Inr (len, u)"
    using md by (simp add: inode_write_def t(1) u_def Let_def)
  then show ?thesis using t(2) M ik by auto
qed

section \<open>Properties\<close>



end
