(* ===== verification/Dirs.thy ===== *)
theory Dirs
  imports Fileio Namei
begin

text \<open>
  What \<open>find_entry\<close> finds: the first entry of a directory with the name of the path's first component.
\<close>

section \<open>Comparing names\<close>

text \<open>The first component of a path, the name of an entry, and how far the path goes on behind the component.\<close>

definition component :: "u8 list \<Rightarrow> u8 list" where "component name = takeWhile (\<lambda>c. c \<noteq> 0 \<and> \<not> IS_SEPARATOR c) name"

definition cname :: "u8 list \<Rightarrow> u8 list" where "cname es = takeWhile (\<lambda>c. c \<noteq> 0) es"

definition match_end :: "u8 list \<Rightarrow> nat" where
  "match_end name = length (component name) + (if IS_SEPARATOR (name ! length (component name)) then 1 else 0)"

lemma separator_nonzero [simp]: "\<not> IS_SEPARATOR 0" by (simp add: IS_SEPARATOR_def)

lemma match_name_ok:
  assumes "0 \<in> set name" and "0 \<in> set es" and "\<forall>c \<in> set (cname es). \<not> IS_SEPARATOR c"
  shows "match_name name es = Inr (if component name = cname es then Some (match_end name) else None)"
  using assms
proof (induction name arbitrary: es)
  case (Cons l ls)
  obtain r rs where es: "es = r # rs" using Cons.prems(2) by (cases es) auto
  show ?case
  proof (cases "l = r \<and> l \<noteq> 0")
    case True
    then have ns: "\<not> IS_SEPARATOR l" using Cons.prems(3) by (auto simp: es cname_def)
    have "match_name ls rs = Inr (if component ls = cname rs then Some (match_end ls) else None)"
      using Cons.IH [of rs] Cons.prems True by (auto simp: es cname_def)
    then show ?thesis using True ns by (simp add: es component_def cname_def match_end_def)
  next
    case False
    show ?thesis
    proof (cases "r = 0")
      case True
      then show ?thesis using False by (auto simp: es component_def cname_def match_end_def)
    next
      case r: False
      then have "component (l # ls) \<noteq> cname (r # rs)" using False by (auto simp: component_def cname_def)
      then show ?thesis using False r by (auto simp: es)
    qed
  qed
qed simp

section \<open>The entries of a directory\<close>

text \<open>The memory from the name of entry \<open>e\<close> on; an entry lies within its block.\<close>

definition entry_block :: "u32 \<Rightarrow> 'a fs_state_scheme \<Rightarrow> nat \<Rightarrow> u32 \<times> u32" where
  "entry_block i s e = (i_dev (inode_table s i), ucast (zone_of i (e div 64) s))"

definition entry_name :: "u32 \<Rightarrow> 'a fs_state_scheme \<Rightarrow> nat \<Rightarrow> u8 list" where
  "entry_name i s e = drop (16 * (e mod 64) + 2) (blk s (entry_block i s e))"

definition dir_entries :: "u32 \<Rightarrow> 'a fs_state_scheme \<Rightarrow> nat" where "dir_entries i s = unat (d_size i s) div 16"

text \<open>A directory whose entries have blocks and names that end and hold no separator.\<close>

definition good_dir :: "u32 \<Rightarrow> 'a fs_state_scheme \<Rightarrow> bool" where
  "good_dir i s \<longleftrightarrow> inode_held i s \<and> slack s 1 \<and> ISDIR (d_mode i s) \<and> unat (d_size i s) \<le> 262663 * 1024
     \<and> (\<forall>e < dir_entries i s. zone_of i (e div 64) s \<noteq> 0 \<and> 0 \<in> set (entry_name i s e) \<and> (\<forall>c \<in> set (cname (entry_name i s e)). \<not> IS_SEPARATOR c))"

definition entry_matches :: "u32 \<Rightarrow> 'a fs_state_scheme \<Rightarrow> u8 list \<Rightarrow> nat \<Rightarrow> bool" where
  "entry_matches i s name e \<longleftrightarrow> component name = cname (entry_name i s e)"

lemma opened_calm:
  assumes "calm s t" and "opened t k b u"
  shows "opened s k b u"
proof -
  note T = seesD [OF assms(1)] and U = openedD [OF assms(2)]
  have "buf_refs s b = 0 \<longrightarrow> blk u k = disk_block u k" using assms(2) unfolding opened_def T(3) by blast
  then show ?thesis using U T same_kernel_trans [OF T(4) U(5)] by (auto simp: opened_def)
qed

lemma entry_numbers:
  assumes "e < 67108864"
  shows "(of_nat e :: u32) div BLOCK_DENTRIES = of_nat (e div 64)"
proof -
  have "unat (of_nat e :: u32) = e" "unat (of_nat (e div 64) :: u32) = e div 64" using assms by (intro unat_of_nat_small; simp)+
  moreover have "BLOCK_DENTRIES = 64" by (simp add: BLOCK_DENTRIES_def BLOCK_SIZE_def DENTRY_BYTES_def)
  ultimately show ?thesis by (simp add: word_unat_eq_iff unat_div)
qed

text \<open>The block of an entry, read anew.\<close>

lemma enter_block:
  assumes "good_dir i s" and "calm s t" and e: "e < dir_entries i s"
  shows "\<exists>b u. bindE (bmap i (of_nat e div BLOCK_DENTRIES) False t) (\<lambda>(block, s).
          kassert (block \<noteq> 0) (
          bindE (bread (i_dev (inode_table s i)) block s) (\<lambda>(b, s). Inr (b, 0 :: nat, s)))) = Inr (b, 0, u)
    \<and> opened s (entry_block i s e) b u"
proof -
  have g: "inode_held i s" "slack s 1" "unat (d_size i s) \<le> 262663 * 1024" "zone_of i (e div 64) s \<noteq> 0"
    using assms(1) e by (auto simp: good_dir_def)
  note C = calm_inode [OF assms(2) g(1)] and T = seesD [OF assms(2)]
  have "16 * dir_entries i s \<le> unat (d_size i s)" by (simp add: dir_entries_def)
  then have lt: "e div 64 < 262663" "e < 67108864" using e g(3) by linarith+
  have sl: "slack t 1" using C(7) g(2) by simp
  obtain v where v: "bmap i (of_nat (e div 64)) False t = Inr (ucast (zone_of i (e div 64) t), v)" "calm t v"
    using bmap_lookup [OF C(1) sl lt(1)] by blast
  note V = seesD [OF v(2)]
  have slv: "slack v 1" using slack_refs [OF V(3)] sl by simp
  obtain b u where u: "bread (i_dev (inode_table s i)) (ucast (zone_of i (e div 64) s)) v = Inr (b, u)" "opened v (entry_block i s e) b u"
    using bread_opens [OF V(1) zone_small slv] unfolding entry_block_def by blast
  have it: "inode_table v = inode_table s" using calm_inode(4) [OF v(2) C(1)] C(4) by simp
  have z0: "(ucast (zone_of i (e div 64) s) :: u32) \<noteq> 0" using unat_ucast_zone [of "zone_of i (e div 64) s"] g(4) by (metis unat_0 unat_eq_0)
  have "opened s (entry_block i s e) b u" by (rule opened_calm [OF calm_trans [OF assms(2) v(2)] u(2)])
  then show ?thesis using v(1) u(1) z0 by (auto simp: entry_numbers [OF lt(2)] C(3) it)
qed

lemma find_from:
  assumes g: "good_dir i s" and nm: "0 \<in> set name" and le: "load_entry i (of_nat e) False buf p t = Inr (b, 16 * (e mod 64), u)"
    and o: "opened s (entry_block i s e) b u" and n: "e + Suc n = dir_entries i s"
  shows "if \<exists>x. e \<le> x \<and> x < dir_entries i s \<and> entry_matches i s name x
    then \<exists>x b v. e \<le> x \<and> x < dir_entries i s \<and> entry_matches i s name x \<and> (\<forall>y. e \<le> y \<longrightarrow> y < x \<longrightarrow> \<not> entry_matches i s name y)
      \<and> find_loop (Suc n) (of_nat e) buf p i name t = Inr (Some (b, 16 * (x mod 64), match_end name), v) \<and> opened s (entry_block i s x) b v
    else \<exists>v. find_loop (Suc n) (of_nat e) buf p i name t = Inr (None, v) \<and> calm s v"
  using le o n
proof (induction n arbitrary: e buf p t b u)
  case (0 e)
  have e: "e < dir_entries i s" "\<And>x. e \<le> x \<and> x < dir_entries i s \<longleftrightarrow> x = e" using 0(3) by auto
  have q: "0 \<in> set (entry_name i s e)" "\<forall>c \<in> set (cname (entry_name i s e)). \<not> IS_SEPARATOR c" using g e(1) by (auto simp: good_dir_def)
  have "drop (16 * (e mod 64) + 2) (bdata b u) = entry_name i s e" using openedD(7) [OF 0(2)] by (simp add: entry_name_def)
  then have m: "match_name name (drop (16 * (e mod 64) + 2) (bdata b u)) = Inr (if entry_matches i s name e then Some (match_end name) else None)"
    using match_name_ok [OF nm q] by (simp add: entry_matches_def)
  have "cache_sound s" "slack s 1" using g by (simp_all add: good_dir_def inode_held_def)
  then obtain v where v: "brelse b u = Inr v" "calm s v" using opened_close [OF _ _ 0(2)] by blast
  show ?case
  proof (cases "entry_matches i s name e")
    case True
    then have "\<exists>x b v. e \<le> x \<and> x < dir_entries i s \<and> entry_matches i s name x \<and> (\<forall>y. e \<le> y \<longrightarrow> y < x \<longrightarrow> \<not> entry_matches i s name y)
      \<and> find_loop (Suc 0) (of_nat e) buf p i name t = Inr (Some (b, 16 * (x mod 64), match_end name), v) \<and> opened s (entry_block i s x) b v"
      using 0(1,2) m e(1) by (intro exI [of _ e] exI [of _ b] exI [of _ u]) simp
    moreover have "\<exists>x. e \<le> x \<and> x < dir_entries i s \<and> entry_matches i s name x" using True e(1) by blast
    ultimately show ?thesis by (simp only: if_True)
  next
    case False
    have "find_loop (Suc 0) (of_nat e) buf p i name t = Inr (None, v)" using 0(1) m False v(1) by (simp add: brelse_ptr_def)
    moreover have "\<not> (\<exists>x. e \<le> x \<and> x < dir_entries i s \<and> entry_matches i s name x)"
    proof
      assume "\<exists>x. e \<le> x \<and> x < dir_entries i s \<and> entry_matches i s name x"
      then obtain x where "e \<le> x \<and> x < dir_entries i s" "entry_matches i s name x" by blast
      then show False using False e(2) [of x] by simp
    qed
    ultimately show ?thesis using v(2) by (simp only: if_False) blast
  qed
next
  case (Suc n e)
  have e: "e < dir_entries i s" "Suc e < dir_entries i s" using Suc.prems(3) by simp_all
  have q: "0 \<in> set (entry_name i s e)" "\<forall>c \<in> set (cname (entry_name i s e)). \<not> IS_SEPARATOR c" using g e(1) by (auto simp: good_dir_def)
  have "drop (16 * (e mod 64) + 2) (bdata b u) = entry_name i s e" using openedD(7) [OF Suc.prems(2)] by (simp add: entry_name_def)
  then have m: "match_name name (drop (16 * (e mod 64) + 2) (bdata b u)) = Inr (if entry_matches i s name e then Some (match_end name) else None)"
    using match_name_ok [OF nm q] by (simp add: entry_matches_def)
  show ?case
  proof (cases "entry_matches i s name e")
    case True
    then have "\<exists>x b v. e \<le> x \<and> x < dir_entries i s \<and> entry_matches i s name x \<and> (\<forall>y. e \<le> y \<longrightarrow> y < x \<longrightarrow> \<not> entry_matches i s name y)
      \<and> find_loop (Suc (Suc n)) (of_nat e) buf p i name t = Inr (Some (b, 16 * (x mod 64), match_end name), v) \<and> opened s (entry_block i s x) b v"
      using Suc.prems(1,2) m e(1) by (intro exI [of _ e] exI [of _ b] exI [of _ u]) simp
    moreover have "\<exists>x. e \<le> x \<and> x < dir_entries i s \<and> entry_matches i s name x" using True e(1) by blast
    ultimately show ?thesis by (simp only: if_True)
  next
    case False
    obtain c v where c: "load_entry i (of_nat (Suc e)) False (Some b) (16 * (e mod 64) + 16) u = Inr (c, 16 * (Suc e mod 64), v)"
      "opened s (entry_block i s (Suc e)) c v"
    proof (cases "Suc (e mod 64) = 64")
      case True
      have "cache_sound s" "slack s 1" using g by (simp_all add: good_dir_def inode_held_def)
      then obtain w where w: "brelse b u = Inr w" "calm s w" using opened_close [OF _ _ Suc.prems(2)] by blast
      obtain c v where c: "bindE (bmap i (of_nat (Suc e) div BLOCK_DENTRIES) False w) (\<lambda>(block, s).
          kassert (block \<noteq> 0) (
          bindE (bread (i_dev (inode_table s i)) block s) (\<lambda>(b, s). Inr (b, 0 :: nat, s)))) = Inr (c, 0, v)"
        "opened s (entry_block i s (Suc e)) c v" using enter_block [OF g w(2) e(2)] by blast
      have p: "16 * (e mod 64) + 16 \<ge> unat BLOCK_SIZE" "Suc e mod 64 = 0" using True by (simp_all add: BLOCK_SIZE_def mod_Suc)
      have "load_entry i (of_nat (Suc e)) False (Some b) (16 * (e mod 64) + 16) u = Inr (c, 16 * (Suc e mod 64), v)"
        unfolding load_entry_def using p w(1) c(1) by simp
      then show ?thesis using that c(2) by blast
    next
      case False
      have "e mod 64 < 64" by simp
      then have p: "\<not> 16 * (e mod 64) + 16 \<ge> unat BLOCK_SIZE" "Suc e mod 64 = Suc (e mod 64)" "Suc e div 64 = e div 64"
        using False by (simp_all add: BLOCK_SIZE_def mod_Suc div_Suc)
      have "load_entry i (of_nat (Suc e)) False (Some b) (16 * (e mod 64) + 16) u = Inr (b, 16 * (Suc e mod 64), u)"
        unfolding load_entry_def using p by simp
      moreover have "entry_block i s (Suc e) = entry_block i s e" using p by (simp add: entry_block_def)
      ultimately show ?thesis using that Suc.prems(2) by simp
    qed
    have step: "find_loop (Suc (Suc n)) (of_nat e) buf p i name t = find_loop (Suc n) (of_nat (Suc e)) (Some b) (16 * (e mod 64) + 16) i name u"
      using Suc.prems(1) m False by (simp add: DENTRY_BYTES_def add.commute)
    have "Suc e + Suc n = dir_entries i s" using Suc.prems(3) by simp
    note IH = Suc.IH [OF c this]
    have ex: "(\<exists>x. e \<le> x \<and> x < dir_entries i s \<and> entry_matches i s name x) = (\<exists>x. Suc e \<le> x \<and> x < dir_entries i s \<and> entry_matches i s name x)"
      using False by (metis Suc_leD Suc_leI le_neq_implies_less)
    have fst: "(\<forall>y. e \<le> y \<longrightarrow> y < x \<longrightarrow> \<not> entry_matches i s name y) = (\<forall>y. Suc e \<le> y \<longrightarrow> y < x \<longrightarrow> \<not> entry_matches i s name y)" for x
      using False by (metis Suc_leD Suc_leI le_neq_implies_less)
    show ?thesis
    proof (cases "\<exists>x. Suc e \<le> x \<and> x < dir_entries i s \<and> entry_matches i s name x")
      case True
      then show ?thesis using IH unfolding ex step fst by (simp only: if_True) (meson Suc_leD)
    next
      case no: False
      then show ?thesis using IH unfolding ex step by (simp only: if_False)
    qed
  qed
qed

section \<open>Properties\<close>



end
