(* ===== verification/Process.thy ===== *)
theory Process
  imports File Arena AddressSpace
begin

text \<open>
  The life of a process (\<^verbatim>\<open>kernel/task.c\<close>, with \<^verbatim>\<open>sys_umask\<close> of \<^verbatim>\<open>kernel/system.c\<close>): creation, the
  step to user mode, fork, exit and waiting for a child, over the scheduler, the file system, the kernel heap and
  the page tables.

  \<open>pmem\<close> is the state of physical memory, which the page tables and the kernel heap share; \<open>kheap\<close> holds
  the heap's own data, \<open>vmaps\<close> the maps of user pages, by the address \<^verbatim>\<open>kmalloc\<close> gave them, and
  \<open>vmap_bits\<close> the page each keeps its bits in. A kernel stack is known by the frames the code puts on it:
  \<open>task_frames\<close> for \<^verbatim>\<open>task_switch\<close> and \<open>intr_frames\<close> for the return to user mode.
\<close>

section \<open>Data\<close>

record task_frame_t =
  tf_edi :: u32
  tf_esi :: u32
  tf_ebx :: u32
  tf_ebp :: u32
  tf_eip :: u32

definition TASK_FRAME_BYTES :: u32 where "TASK_FRAME_BYTES = 20"

record intr_frame_t =
  if_vector :: u32
  if_edi :: u32
  if_esi :: u32
  if_ebp :: u32
  if_esp_dummy :: u32
  if_ebx :: u32
  if_edx :: u32
  if_ecx :: u32
  if_eax :: u32
  if_gs :: u32
  if_fs :: u32
  if_es :: u32
  if_ds :: u32
  if_vector0 :: u32
  if_error :: u32
  if_eip :: u32
  if_cs :: u32
  if_eflags :: u32
  if_esp :: u32
  if_ss :: u32

definition INTR_FRAME_BYTES :: u32 where "INTR_FRAME_BYTES = 80"

record proc_state = fs_state +
  pmem :: mem_t
  frames :: "u32 \<Rightarrow> u32 list"
  kheap :: arena_state
  vmaps :: "u32 \<Rightarrow> bitmap_t"
  vmap_bits :: "u32 \<Rightarrow> u32"
  task_frames :: "u32 \<Rightarrow> task_frame_t"
  intr_frames :: "u32 \<Rightarrow> intr_frame_t"

definition BITMAP_BYTES :: u32 where "BITMAP_BYTES = 12"
definition TASK_NAME_LEN :: nat where "TASK_NAME_LEN = 16"
definition USER_CODE_SELECTOR :: u32 where "USER_CODE_SELECTOR = push_bit 3 (of_nat USER_CODE_IDX) OR 3"
definition USER_DATA_SELECTOR :: u32 where "USER_DATA_SELECTOR = push_bit 3 (of_nat USER_DATA_IDX) OR 3"

text \<open>The calls into physical memory and the kernel heap.\<close>

definition k_alloc :: "u32 \<Rightarrow> 'a proc_state_scheme \<Rightarrow> (u32 \<times> 'a proc_state_scheme) res" where
  "k_alloc n s = bindE (alloc_kpage n (pmem s)) (\<lambda>(p, m). Inr (p, s\<lparr>pmem := m\<rparr>))"

definition k_free :: "u32 \<Rightarrow> u32 \<Rightarrow> 'a proc_state_scheme \<Rightarrow> 'a proc_state_scheme res" where
  "k_free p n s = bindE (free_kpage p n (pmem s)) (\<lambda>m. Inr (s\<lparr>pmem := m\<rparr>))"

definition p_kmalloc :: "u32 \<Rightarrow> 'a proc_state_scheme \<Rightarrow> (u32 \<times> 'a proc_state_scheme) res" where
  "p_kmalloc n s =
     bindE (kmalloc n ((kheap s)\<lparr>heap_mem := pmem s\<rparr>)) (\<lambda>(p, h). Inr (p, s\<lparr>kheap := h, pmem := heap_mem h\<rparr>))"

definition p_kfree :: "u32 \<Rightarrow> 'a proc_state_scheme \<Rightarrow> 'a proc_state_scheme res" where
  "p_kfree p s = bindE (kfree p ((kheap s)\<lparr>heap_mem := pmem s\<rparr>)) (\<lambda>h. Inr (s\<lparr>kheap := h, pmem := heap_mem h\<rparr>))"

text \<open>The virtual memory of the running task, and what a change of it leaves in the state.\<close>

definition vm_of :: "'a proc_state_scheme \<Rightarrow> vm_t" where
  "vm_of s =
     (let t = tasks s (running_task s) in
      \<lparr>vm_mem = pmem s, vm_frames = frames s, vm_cr3 = cr3 s, vm_uid = t_uid t, vm_pde = t_pde t, vm_brk = t_brk t,
       vm_vmap = (case t_vmap t of None \<Rightarrow> kernel_map (pmem s) | Some a \<Rightarrow> vmaps s a)\<rparr>)"

definition put_vm :: "vm_t \<Rightarrow> 'a proc_state_scheme \<Rightarrow> 'a proc_state_scheme" where
  "put_vm v s = s\<lparr>pmem := vm_mem v, frames := vm_frames v, cr3 := vm_cr3 v\<rparr>"

definition p_copy_pde :: "'a proc_state_scheme \<Rightarrow> (u32 \<times> 'a proc_state_scheme) res" where
  "p_copy_pde s = bindE (copy_pde (vm_of s)) (\<lambda>(pde, v). Inr (pde, put_vm v s))"

section \<open>Creation\<close>

text \<open>A control block and its list node with every byte zero.\<close>

definition zero_task :: task_t where
  "zero_task = \<lparr>t_stack = 0, t_state = TASK_INIT, t_priority = 0, t_ticks = 0, t_jiffies = 0,
     t_name = replicate TASK_NAME_LEN 0, t_uid = 0, t_gid = 0, t_pid = 0, t_ppid = 0, t_pde = 0, t_vmap = None,
     t_brk = 0, t_status = 0, t_waitpid = 0, t_pwd = 0, t_ipwd = None, t_iroot = None, t_umask = 0,
     t_files = replicate TASK_FILE_NR None, t_magic = 0\<rparr>"

definition zero_node :: "u32 \<Rightarrow> 'a kernel_t_scheme \<Rightarrow> 'a kernel_t_scheme" where
  "zero_node p s = s\<lparr>nodes := (nodes s)(Node p := \<lparr>node_prev = None, node_next = None\<rparr>)\<rparr>"

definition get_free_task :: "'a proc_state_scheme \<Rightarrow> (u32 \<times> 'a proc_state_scheme) res" where
  "get_free_task s =
     (case find (\<lambda>i. task_table s ! i = None) [0..<NR_TASKS] of
        None \<Rightarrow> Inl (Panic ''No more tasks'')
      | Some i \<Rightarrow>
          bindE (k_alloc 1 s) (\<lambda>(p, s).
          let s = zero_node p (upd_task p (\<lambda>_. zero_task\<lparr>t_pid := of_nat i\<rparr>) s)
          in Inr (p, s\<lparr>task_table := (task_table s)[i := Some p]\<rparr>)))"

definition root_name :: "u8 list" where "root_name = [0x2f, 0]"

definition task_create :: "u32 \<Rightarrow> u8 list \<Rightarrow> u32 \<Rightarrow> u32 \<Rightarrow> 'a proc_state_scheme \<Rightarrow> (u32 \<times> 'a proc_state_scheme) res" where
  "task_create target name priority uid s =
     bindE (get_free_task s) (\<lambda>(p, s).
     let stack = p + PAGE_SIZE - TASK_FRAME_BYTES;
         s = s\<lparr>task_frames := (task_frames s)(stack := \<lparr>tf_edi = 0x33333333, tf_esi = 0x22222222, tf_ebx = 0x11111111,
               tf_ebp = 0x44444444, tf_eip = target\<rparr>)\<rparr> in
     bindE (strcpy (t_name (tasks s p)) name) (\<lambda>nm.
     let s = upd_task p (\<lambda>t. t\<lparr>t_name := nm, t_stack := stack, t_priority := priority, t_ticks := priority,
               t_state := TASK_READY, t_uid := uid, t_gid := 0, t_vmap := None, t_pde := KERNEL_PAGE_DIR,
               t_brk := KERNEL_MEMORY_SIZE, t_magic := ONIX_MAGIC, t_iroot := Some get_root_inode,
               t_ipwd := Some get_root_inode\<rparr>) s;
         s = upd_inode get_root_inode (\<lambda>t. t\<lparr>i_count := i_count t + 2\<rparr>) s in
     bindE (k_alloc 1 s) (\<lambda>(page, s).
     let s = upd_task p (\<lambda>t. t\<lparr>t_pwd := page\<rparr>) s in
     bindE (strcpy (pwd_page s page) root_name) (\<lambda>pwd.
     let s = s\<lparr>pwd_page := (pwd_page s)(page := pwd)\<rparr>
     in Inr (p, upd_task p (\<lambda>t. t\<lparr>t_umask := 18\<rparr>) s)))))"

text \<open>\<open>bits\<close> are the bytes of the page the map gets; the code jumps to \<^verbatim>\<open>interrupt_exit\<close> with the frame it has built.\<close>

definition user_frame :: "u32 \<Rightarrow> intr_frame_t \<Rightarrow> intr_frame_t" where
  "user_frame target f = f\<lparr>if_vector0 := 0x20, if_edi := 1, if_esi := 2, if_ebp := 3, if_esp_dummy := 4, if_ebx := 5,
     if_edx := 6, if_ecx := 7, if_eax := 8, if_gs := 0, if_ds := USER_DATA_SELECTOR, if_es := USER_DATA_SELECTOR,
     if_fs := USER_DATA_SELECTOR, if_ss := USER_DATA_SELECTOR, if_cs := USER_CODE_SELECTOR, if_error := ONIX_MAGIC,
     if_eip := target, if_eflags := 2 OR push_bit 9 1, if_esp := USER_STACK_TOP\<rparr>"

definition task_to_user_mode :: "u8 list \<Rightarrow> u32 \<Rightarrow> 'a proc_state_scheme \<Rightarrow> 'a proc_state_scheme res" where
  "task_to_user_mode bits target s =
     (let p = running_task s in
      bindE (p_kmalloc BITMAP_BYTES s) (\<lambda>(vmap, s).
      let s = upd_task p (\<lambda>t. t\<lparr>t_vmap := Some vmap\<rparr>) s in
      bindE (k_alloc 1 s) (\<lambda>(page, s).
      bindE (bitmap_init bits PAGE_SIZE (KERNEL_MEMORY_SIZE div PAGE_SIZE)) (\<lambda>bm.
      let s = s\<lparr>vmaps := (vmaps s)(vmap := bm), vmap_bits := (vmap_bits s)(vmap := page)\<rparr> in
      bindE (p_copy_pde s) (\<lambda>(pde, s).
      let s = upd_task p (\<lambda>t. t\<lparr>t_pde := pde\<rparr>) s in
      bindE (set_cr3 pde (vm_of s)) (\<lambda>v.
      let s = put_vm v s; addr = p + PAGE_SIZE - INTR_FRAME_BYTES
      in Inr (s\<lparr>intr_frames := (intr_frames s)(addr := user_frame target (intr_frames s addr))\<rparr>)))))))"

section \<open>Fork\<close>

text \<open>\<open>exit_addr\<close> is the address of \<^verbatim>\<open>interrupt_exit\<close>.\<close>

definition task_build_stack :: "u32 \<Rightarrow> u32 \<Rightarrow> 'a proc_state_scheme \<Rightarrow> 'a proc_state_scheme" where
  "task_build_stack exit_addr p s =
     (let addr = p + PAGE_SIZE - INTR_FRAME_BYTES;
          s = s\<lparr>intr_frames := (intr_frames s)(addr := (intr_frames s addr)\<lparr>if_eax := 0\<rparr>)\<rparr>;
          addr = addr - TASK_FRAME_BYTES;
          s = s\<lparr>task_frames := (task_frames s)(addr := \<lparr>tf_edi = 0xaa55aa55, tf_esi = 0xaa55aa55, tf_ebx = 0xaa55aa55,
                tf_ebp = 0xaa55aa55, tf_eip = exit_addr\<rparr>)\<rparr>
      in upd_task p (\<lambda>t. t\<lparr>t_stack := addr\<rparr>) s)"

text \<open>The copy of a task's page: its control block, its node and the frame at the top of its stack.\<close>

definition copy_task :: "u32 \<Rightarrow> u32 \<Rightarrow> 'a proc_state_scheme \<Rightarrow> 'a proc_state_scheme" where
  "copy_task child p s =
     (let s = upd_task child (\<lambda>_. tasks s p) s;
          s = s\<lparr>nodes := (nodes s)(Node child := nodes s (Node p))\<rparr>
      in s\<lparr>intr_frames := (intr_frames s)(child + PAGE_SIZE - INTR_FRAME_BYTES := intr_frames s (p + PAGE_SIZE - INTR_FRAME_BYTES))\<rparr>)"

definition may_run :: "u32 \<Rightarrow> 'a kernel_t_scheme \<Rightarrow> bool" where
  "may_run p s \<longleftrightarrow> node_next (nodes s (Node p)) = None \<and> node_prev (nodes s (Node p)) = None
     \<and> t_state (tasks s p) = TASK_RUNNING"

definition share_file :: "u32 \<Rightarrow> nat \<Rightarrow> 'a proc_state_scheme \<Rightarrow> 'a proc_state_scheme" where
  "share_file child i s =
     (case t_files (tasks s child) ! i of
        None \<Rightarrow> s | Some f \<Rightarrow> upd_file f (\<lambda>t. t\<lparr>f_count := f_count t + 1\<rparr>) s)"

definition use_inode :: "u32 option \<Rightarrow> 'a proc_state_scheme \<Rightarrow> 'a proc_state_scheme res" where
  "use_inode i s = (case i of None \<Rightarrow> Inl NullDeref | Some i \<Rightarrow> Inr (upd_inode i (\<lambda>t. t\<lparr>i_count := i_count t + 1\<rparr>) s))"

definition task_fork :: "u32 \<Rightarrow> 'a proc_state_scheme \<Rightarrow> (u32 \<times> 'a proc_state_scheme) res" where
  "task_fork exit_addr s =
     (let p = running_task s in
      kassert (may_run p s) (
      bindE (get_free_task s) (\<lambda>(child, s).
      let pid = t_pid (tasks s child);
          s = copy_task child p s;
          s = upd_task child (\<lambda>t. t\<lparr>t_pid := pid, t_ppid := t_pid (tasks s p), t_ticks := t_priority t, t_state := TASK_READY\<rparr>) s in
      case t_vmap (tasks s p) of
        None \<Rightarrow> Inl OutOfBounds
      | Some vmap \<Rightarrow>
          bindE (p_kmalloc BITMAP_BYTES s) (\<lambda>(new, s).
          let s = upd_task child (\<lambda>t. t\<lparr>t_vmap := Some new\<rparr>) s in
          bindE (k_alloc 1 s) (\<lambda>(page, s).
          let s = s\<lparr>vmaps := (vmaps s)(new := vmaps s vmap), vmap_bits := (vmap_bits s)(new := page)\<rparr> in
          bindE (p_copy_pde s) (\<lambda>(pde, s).
          let s = upd_task child (\<lambda>t. t\<lparr>t_pde := pde\<rparr>) s in
          bindE (k_alloc 1 s) (\<lambda>(page, s).
          let s = upd_task child (\<lambda>t. t\<lparr>t_pwd := page\<rparr>) s in
          bindE (strncpy (pwd_page s page) (pwd_page s (t_pwd (tasks s p))) PAGE_SIZE) (\<lambda>pwd.
          let s = s\<lparr>pwd_page := (pwd_page s)(page := pwd)\<rparr> in
          bindE (use_inode (t_ipwd (tasks s p)) s) (\<lambda>s.
          bindE (use_inode (t_iroot (tasks s p)) s) (\<lambda>s.
          let s = fold (share_file child) [0..<TASK_FILE_NR] s;
              s = task_build_stack exit_addr child s
          in Inr (t_pid (tasks s child), s)))))))))))"

section \<open>Exit and wait\<close>

definition close_file :: "u32 \<Rightarrow> nat \<Rightarrow> 'a proc_state_scheme \<Rightarrow> 'a proc_state_scheme res" where
  "close_file p i s = (case t_files (tasks s p) ! i of None \<Rightarrow> Inr s | Some f \<Rightarrow> sys_close (of_nat i) s)"

text \<open>The children of an exiting task become those of its parent.\<close>

definition adopt :: "u32 \<Rightarrow> u32 option \<Rightarrow> 'a proc_state_scheme \<Rightarrow> 'a proc_state_scheme" where
  "adopt p entry s =
     (case entry of
        None \<Rightarrow> s
      | Some c \<Rightarrow>
          if t_ppid (tasks s c) \<noteq> t_pid (tasks s p) then s
          else upd_task c (\<lambda>t. t\<lparr>t_ppid := t_ppid (tasks s p)\<rparr>) s)"

definition adopt_children :: "u32 \<Rightarrow> 'a proc_state_scheme \<Rightarrow> 'a proc_state_scheme" where
  "adopt_children p s = fold (\<lambda>i s. adopt p (task_table s ! i) s) [2..<NR_TASKS] s"

definition waits_for :: "task_t \<Rightarrow> u32 \<Rightarrow> bool" where
  "waits_for t pid \<longleftrightarrow> t_state t = TASK_WAITING \<and> (t_waitpid t = - 1 \<or> t_waitpid t = pid)"

definition task_exit :: "u32 \<Rightarrow> 'a proc_state_scheme \<Rightarrow> 'a proc_state_scheme res" where
  "task_exit status s =
     (let p = running_task s in
      kassert (may_run p s) (
      let s = upd_task p (\<lambda>t. t\<lparr>t_state := TASK_DIED, t_status := status\<rparr>) s in
      bindE (free_pde (vm_of s)) (\<lambda>v.
      let s = put_vm v s in
      case t_vmap (tasks s p) of
        None \<Rightarrow> Inl OutOfBounds
      | Some vmap \<Rightarrow>
          bindE (k_free (vmap_bits s vmap) 1 s) (\<lambda>s.
          bindE (p_kfree vmap s) (\<lambda>s.
          bindE (k_free (t_pwd (tasks s p)) 1 s) (\<lambda>s.
          bindE (iput (t_ipwd (tasks s p)) s) (\<lambda>s.
          bindE (iput (t_iroot (tasks s p)) s) (\<lambda>s.
          bindE (foldE (close_file p) [0..<TASK_FILE_NR] s) (\<lambda>s.
          let s = adopt_children p s in
          bindE (rd (task_table s) (unat (t_ppid (tasks s p)))) (\<lambda>entry.
          case entry of
            None \<Rightarrow> Inl NullDeref
          | Some parent \<Rightarrow>
              bindE (if waits_for (tasks s parent) (t_pid (tasks s p)) then task_unblock parent s else Inr s) schedule))))))))))"

text \<open>One pass of the loop of \<open>task_waitpid\<close>: the table from entry \<open>i\<close> on, and whether a child that lives was met.\<close>

datatype wait_scan = Dead nat u32 | Alive | Childless

fun wait_loop :: "nat list \<Rightarrow> u32 \<Rightarrow> u32 \<Rightarrow> wait_scan \<Rightarrow> 'a proc_state_scheme \<Rightarrow> wait_scan" where
  "wait_loop [] me pid acc s = acc"
| "wait_loop (i # is) me pid acc s =
     (case task_table s ! i of
        None \<Rightarrow> wait_loop is me pid acc s
      | Some c \<Rightarrow>
          if t_ppid (tasks s c) \<noteq> t_pid (tasks s me) then wait_loop is me pid acc s
          else if pid \<noteq> t_pid (tasks s c) \<and> pid \<noteq> - 1 then wait_loop is me pid acc s
          else if t_state (tasks s c) = TASK_DIED then Dead i c
          else wait_loop is me pid Alive s)"

text \<open>What \<open>task_waitpid\<close> comes to: the child's number and status, no child, or a block, after which the
  loop starts again.\<close>

datatype waited = Reaped u32 u32 | No_child | Blocked

definition task_waitpid :: "u32 \<Rightarrow> 'a proc_state_scheme \<Rightarrow> (waited \<times> 'a proc_state_scheme) res" where
  "task_waitpid pid s =
     (let me = running_task s in
      case wait_loop [2..<NR_TASKS] me pid Childless s of
        Dead i c \<Rightarrow>
          (let s = s\<lparr>task_table := (task_table s)[i := None]\<rparr>;
               status = t_status (tasks s c); ret = t_pid (tasks s c) in
           bindE (k_free c 1 s) (\<lambda>s. Inr (Reaped ret status, s)))
      | Alive \<Rightarrow>
          (let s = upd_task me (\<lambda>t. t\<lparr>t_waitpid := pid\<rparr>) s in
           bindE (task_block me None TASK_WAITING s) (\<lambda>s. Inr (Blocked, s)))
      | Childless \<Rightarrow> Inr (No_child, s))"

section \<open>The start\<close>

definition task_setup :: "'a proc_state_scheme \<Rightarrow> 'a proc_state_scheme" where
  "task_setup s =
     (upd_task (running_task s) (\<lambda>t. t\<lparr>t_magic := ONIX_MAGIC, t_ticks := 1\<rparr>) s)\<lparr>task_table := replicate NR_TASKS None\<rparr>"

definition idle_name :: "u8 list" where "idle_name = [0x69, 0x64, 0x6c, 0x65, 0]"
definition init_name :: "u8 list" where "init_name = [0x69, 0x6e, 0x69, 0x74, 0]"
definition test_name :: "u8 list" where "test_name = [0x74, 0x65, 0x73, 0x74, 0]"

text \<open>The three threads are given by the addresses of their functions.\<close>

definition task_init :: "u32 \<Rightarrow> u32 \<Rightarrow> u32 \<Rightarrow> 'a proc_state_scheme \<Rightarrow> 'a proc_state_scheme res" where
  "task_init idle_thread init_thread test_thread s =
     (let s = s\<lparr>nodes := list_init SleepList (list_init BlockList (nodes s))\<rparr>; s = task_setup s in
      bindE (task_create idle_thread idle_name 1 KERNEL_USER s) (\<lambda>(idle, s).
      let s = s\<lparr>idle_task := Some idle\<rparr> in
      bindE (task_create init_thread init_name 5 NORMAL_USER s) (\<lambda>(i, s).
      bindE (task_create test_thread test_name 5 NORMAL_USER s) (\<lambda>(t, s). Inr s))))"

definition sys_umask :: "u16 \<Rightarrow> 'a kernel_t_scheme \<Rightarrow> u16 \<times> 'a kernel_t_scheme" where
  "sys_umask msk s =
     (let p = running_task s in (t_umask (tasks s p), upd_task p (\<lambda>t. t\<lparr>t_umask := msk AND 0x1FF\<rparr>) s))"

end
