(* ===== verification/Proctable.thy ===== *)
theory Proctable
  imports Process Fileio
begin

text \<open>
  What the process table keeps (\<^verbatim>\<open>kernel/task.c\<close>): which operations leave it alone (\<open>steady\<close>, \<open>keeps_table\<close>),
  what creation, fork and waiting make of it, and its invariant \<open>table_ok\<close> in every state the kernel reaches.
\<close>

section \<open>The table\<close>

text \<open>Every entry of the table is a task whose number is its place, on a kernel page of its own that is in use.\<close>

definition task_page :: "mem_t \<Rightarrow> u32 \<Rightarrow> bool" where
  "task_page m p \<longleftrightarrow> (\<exists>a. p = PAGE (of_nat a) \<and> 256 \<le> a \<and> a < 4096 \<and> a \<in> bm_used (kernel_map m))"

definition table_ok :: "'a proc_state_scheme \<Rightarrow> bool" where
  "table_ok s \<longleftrightarrow> length (task_table s) = NR_TASKS \<and> kernel_inv (pmem s)
     \<and> (\<forall>i p. i < NR_TASKS \<longrightarrow> task_table s ! i = Some p \<longrightarrow> t_pid (tasks s p) = of_nat i \<and> task_page (pmem s) p)"

lemma table_okD:
  "table_ok s \<Longrightarrow> length (task_table s) = NR_TASKS" "table_ok s \<Longrightarrow> kernel_inv (pmem s)"
  "table_ok s \<Longrightarrow> i < NR_TASKS \<Longrightarrow> task_table s ! i = Some p \<Longrightarrow> t_pid (tasks s p) = of_nat i"
  "table_ok s \<Longrightarrow> i < NR_TASKS \<Longrightarrow> task_table s ! i = Some p \<Longrightarrow> task_page (pmem s) p"
  by (simp_all add: table_ok_def)

text \<open>So no two entries hold the same task.\<close>

lemma table_inj:
  assumes "table_ok s" and "i < NR_TASKS" "j < NR_TASKS" and "task_table s ! i = Some p" "task_table s ! j = Some p"
  shows "i = j"
proof -
  have "(of_nat i :: u32) = of_nat j"
    using table_okD(3) [OF assms(1,2,4)] table_okD(3) [OF assms(1,3,5)] by simp
  then have "unat (of_nat i :: u32) = unat (of_nat j :: u32)" by simp
  then show ?thesis using assms(2,3) by (simp add: unat_of_nat NR_TASKS_def)
qed

text \<open>What leaves the table alone: it keeps the entries and the numbers, and takes no kernel page away.\<close>

definition grows :: "mem_t \<Rightarrow> mem_t \<Rightarrow> bool" where
  "grows m n \<longleftrightarrow> (kernel_inv m \<longrightarrow> kernel_inv n \<and> bm_used (kernel_map m) \<subseteq> bm_used (kernel_map n))"

lemma grows_refl [simp]: "grows m m" by (simp add: grows_def)

lemma grows_trans [trans]: "grows a b \<Longrightarrow> grows b c \<Longrightarrow> grows a c" by (auto simp: grows_def)

lemma grows_map: "kernel_map n = kernel_map m \<Longrightarrow> grows m n" by (simp add: grows_def kernel_inv_def)

definition steady :: "'a proc_state_scheme \<Rightarrow> 'a proc_state_scheme \<Rightarrow> bool" where
  "steady s t \<longleftrightarrow> task_table t = task_table s \<and> (\<forall>p. t_pid (tasks t p) = t_pid (tasks s p)) \<and> grows (pmem s) (pmem t)"

lemma steadyI:
  "task_table t = task_table s \<Longrightarrow> (\<And>p. t_pid (tasks t p) = t_pid (tasks s p)) \<Longrightarrow> grows (pmem s) (pmem t) \<Longrightarrow> steady s t"
  by (simp add: steady_def)

lemma steady_refl [simp]: "steady s s" by (simp add: steady_def)

lemma steady_trans [trans]: "steady a b \<Longrightarrow> steady b c \<Longrightarrow> steady a c"
  using grows_trans by (fastforce simp: steady_def)

lemma table_ok_steady:
  assumes "table_ok s" and "steady s t"
  shows "table_ok t"
  using assms by (fastforce simp: table_ok_def steady_def grows_def task_page_def)

section \<open>Memory\<close>

lemma grows_alloc: "alloc_kpage n m = Inr (p, m') \<Longrightarrow> grows m m'"
proof -
  assume a: "alloc_kpage n m = Inr (p, m')"
  then have n: "0 < n" by (simp add: alloc_kpage_def res_simps)
  show ?thesis unfolding grows_def
  proof
    assume "kernel_inv m"
    from alloc_kpage_cases [OF this n] a show "kernel_inv m' \<and> bm_used (kernel_map m) \<subseteq> bm_used (kernel_map m')" by auto
  qed
qed

lemma steady_k_alloc: "k_alloc n s = Inr (p, t) \<Longrightarrow> steady s t"
  by (auto simp: k_alloc_def res_simps intro!: steadyI grows_alloc)

lemma alloc_arena_mem: "alloc_arena n st = Inr (p, t) \<Longrightarrow> grows (heap_mem st) (heap_mem t)"
  by (auto simp: alloc_arena_def clear_pages_def res_simps intro!: grows_alloc)

lemma set_arena_mem [simp]: "heap_mem (set_arena p h st) = heap_mem st"
  by (simp add: set_arena_def)

lemma carve_mem: "carve_block p i st = Inr t \<Longrightarrow> heap_mem t = heap_mem st"
  by (auto simp: carve_block_def res_simps)

lemma new_arena_mem: 
  assumes "new_arena d st = Inr t" shows "grows (heap_mem st) (heap_mem t)"
proof -
  from assms obtain x and desc :: arena_descriptor_t where x: "alloc_arena 1 st = Inr x"
      and f: "foldE (carve_block (fst x)) [0 ..< unat (total_block desc)] (set_arena (fst x)
       \<lparr>a_desc = Some d, a_count = total_block desc, a_large = 0, a_magic = ONIX_MAGIC\<rparr> (snd x)) = Inr t"
    unfolding new_arena_def bindE_eq_Inr case_prod_beta by blast
  have "heap_mem t = heap_mem (snd x)" by (rule foldE_keeps [OF f]) (auto dest: carve_mem)
  then show ?thesis using alloc_arena_mem [of 1 st "fst x" "snd x"] x by simp
qed

lemma kmalloc_mem:
  assumes "kmalloc n st = Inr (p, t)" shows "grows (heap_mem st) (heap_mem t)"
proof (cases "n > 1024")
  case True
  then show ?thesis using assms by (auto simp: kmalloc_def kmalloc_large_def res_simps dest!: alloc_arena_mem)
next
  case False
  then obtain u a h where u: "(if list_empty (pick_desc n st) (blocks st) then new_arena (pick_desc n st) st else Inr st) = Inr u"
      and "heap_mem t = heap_mem u"
    using assms by (auto simp: kmalloc_def kmalloc_small_def Let_def res_simps simp del: split_paired_Ex split: addr.splits)
  then show ?thesis using new_arena_mem by (auto split: if_splits)
qed

lemma steady_kmalloc: "p_kmalloc n s = Inr (p, t) \<Longrightarrow> steady s t"
  by (auto simp: p_kmalloc_def res_simps dest!: kmalloc_mem intro!: steadyI)

lemma get_page_map: "get_page_from i m = Inr (p, n) \<Longrightarrow> kernel_map n = kernel_map m"
  by (induction i m rule: get_page_from.induct) (subst (asm) get_page_from.simps, auto simp: Let_def res_simps split: if_splits)

lemma vm_get_page_map: "vm_get_page s = Inr (p, t) \<Longrightarrow> kernel_map (vm_mem t) = kernel_map (vm_mem s)"
  by (auto simp: vm_get_page_def get_one_page_def res_simps simp del: get_page_from.simps dest!: get_page_map)

lemma frames_only:
  "store_entry table i e s = Inr t \<Longrightarrow> vm_mem t = vm_mem s"
  "copy_words d c s = Inr t \<Longrightarrow> vm_mem t = vm_mem s"
  "clear_page a s = Inr t \<Longrightarrow> vm_mem t = vm_mem s"
  "set_cr3 pde s = Inr t \<Longrightarrow> vm_mem t = vm_mem s"
  by (auto simp: store_entry_def copy_words_def clear_page_def set_cr3_def res_simps)

lemma get_pte_map: "get_pte a c s = Inr (p, t) \<Longrightarrow> kernel_map (vm_mem t) = kernel_map (vm_mem s)"
  by (auto simp: get_pte_def Let_def res_simps split: if_splits dest!: vm_get_page_map frames_only)

lemma copy_page_map: "copy_page a s = Inr (p, t) \<Longrightarrow> kernel_map (vm_mem t) = kernel_map (vm_mem s)"
  by (auto simp: copy_page_def res_simps dest!: vm_get_page_map frames_only get_pte_map)

lemma share_entry_map: "share_entry p i s = Inr t \<Longrightarrow> kernel_map (vm_mem t) = kernel_map (vm_mem s)"
  by (auto simp: share_entry_def set_frame_count_def frame_count_def res_simps split: if_splits dest!: frames_only)

lemma share_table_map: 
  assumes "share_table p i s = Inr t" shows "kernel_map (vm_mem t) = kernel_map (vm_mem s)"
proof -
  have loop: "kernel_map (vm_mem u) = kernel_map (vm_mem s)" if "foldE (share_entry a) [0 ..< 1024] s = Inr u" for a u
    by (rule foldE_keeps [OF that]) (auto dest: share_entry_map)
  show ?thesis
    using assms by (auto simp: share_table_def Let_def res_simps simp del: upt_rec_numeral split: if_splits
      dest!: loop copy_page_map frames_only)
qed

lemma copy_pde_grows:
  assumes "copy_pde s = Inr (p, t)" shows "grows (vm_mem s) (vm_mem t)"
proof -
  have loop: "kernel_map (vm_mem u) = kernel_map (vm_mem v)"
    if "foldE (share_table a) [length KERNEL_PAGE_TABLE ..< 1023] v = Inr u" for a u v
    by (rule foldE_keeps [OF that]) (auto dest: share_table_map)
  from assms obtain m u where "alloc_kpage 1 (vm_mem s) = Inr (p, m)" and "kernel_map (vm_mem t) = kernel_map m"
    by (auto simp: copy_pde_def Let_def res_simps simp del: upt_rec_numeral dest!: loop frames_only)
  then show ?thesis using grows_alloc grows_map grows_trans by blast
qed

lemma steady_copy_pde: "p_copy_pde s = Inr (p, t) \<Longrightarrow> steady s t"
  by (auto simp: p_copy_pde_def put_vm_def vm_of_def Let_def res_simps dest!: copy_pde_grows intro!: steadyI)

section \<open>The scheduler\<close>

text \<open>A change of a task's block that keeps its number, and a change of what the table does not depend on.\<close>

lemma steady_upd [intro]: "t_pid (f (tasks s p)) = t_pid (tasks s p) \<Longrightarrow> steady s (upd_task p f s)"
  by (simp add: steady_def upd_task_def)

lemma steady_schedule: "schedule s = Inr t \<Longrightarrow> steady s t"
  by (auto simp: schedule_def task_activate_def task_switch_def upd_task_def Let_def res_simps
    intro!: steadyI split: option.splits if_splits)

lemma steady_task_block:
  assumes "task_block p q st s = Inr t" shows "steady s t"
proof -
  from assms obtain h where h: "(if running_task s = p then schedule (upd_task p (\<lambda>t. t\<lparr>t_state := st\<rparr>) (s\<lparr>nodes := h\<rparr>))
      else Inr (upd_task p (\<lambda>t. t\<lparr>t_state := st\<rparr>) (s\<lparr>nodes := h\<rparr>))) = Inr t"
    by (auto simp: task_block_def Let_def res_simps)
  have "steady s (upd_task p (\<lambda>t. t\<lparr>t_state := st\<rparr>) (s\<lparr>nodes := h\<rparr>))" by (simp add: steady_def upd_task_def)
  then show ?thesis using h steady_trans steady_schedule by (fastforce split: if_splits)
qed

lemma steady_task_unblock: "task_unblock p s = Inr t \<Longrightarrow> steady s t"
  by (auto simp: task_unblock_def Let_def res_simps upd_task_def steady_def)

lemma steady_task_sleep:
  assumes "task_sleep ms s = Inr t" shows "steady s t"
proof -
  from assms obtain k h where h: "schedule (upd_task (running_task s) (\<lambda>t. t\<lparr>t_state := TASK_SLEEPING\<rparr>)
      ((upd_task (running_task s) (\<lambda>t. t\<lparr>t_ticks := k\<rparr>) s)\<lparr>nodes := h\<rparr>)) = Inr t"
    by (auto simp: task_sleep_def Let_def res_simps)
  have "steady s (upd_task (running_task s) (\<lambda>t. t\<lparr>t_state := TASK_SLEEPING\<rparr>)
      ((upd_task (running_task s) (\<lambda>t. t\<lparr>t_ticks := k\<rparr>) s)\<lparr>nodes := h\<rparr>))" by (simp add: steady_def upd_task_def)
  then show ?thesis using steady_schedule [OF h] by (rule steady_trans)
qed

section \<open>Creation and fork\<close>

text \<open>\<open>get_free_task\<close> takes the first free entry and a fresh page.\<close>

lemma get_free_task_ok:
  assumes "table_ok s" and "get_free_task s = Inr (p, t)"
  obtains i where "i < NR_TASKS" "task_table s ! i = None" "\<forall>j<i. task_table s ! j \<noteq> None"
    "task_table t = (task_table s)[i := Some p]" "\<not> task_page (pmem s) p" "tasks t = (tasks s)(p := zero_task\<lparr>t_pid := of_nat i\<rparr>)"
    "current t = current s" "table_ok t"
proof -
  from assms(2) obtain i where i: "find (\<lambda>i. task_table s ! i = None) [0..<NR_TASKS] = Some i"
    by (auto simp: get_free_task_def split: option.splits)
  then have fi: "i < NR_TASKS" "task_table s ! i = None" "\<forall>j<i. task_table s ! j \<noteq> None"
    by (auto simp: find_Some_iff)
  from assms(2) i obtain m where m: "alloc_kpage 1 (pmem s) = Inr (p, m)"
      and t: "t = (zero_node p (upd_task p (\<lambda>_. zero_task\<lparr>t_pid := of_nat i\<rparr>) (s\<lparr>pmem := m\<rparr>)))
        \<lparr>task_table := (task_table s)[i := Some p]\<rparr>"
    by (auto simp: get_free_task_def k_alloc_def Let_def res_simps zero_node_def upd_task_def)
  have inv: "kernel_inv (pmem s)" by (rule table_okD(2) [OF assms(1)])
  from alloc_kpage_cases [OF inv, of 1] m obtain a km where a: "p = PAGE (of_nat a)" "m = (pmem s)\<lparr>kernel_map := km\<rparr>"
      "bm_run (kernel_map (pmem s)) a 1" "kernel_inv m" "bm_used km = bm_used (kernel_map (pmem s)) \<union> {a ..< a + 1}" by auto
  have au: "256 \<le> a" "a < 4096" "a \<notin> bm_used (kernel_map (pmem s))"
    using bm_run_univ [of 1 "kernel_map (pmem s)" a] a(3) inv by (auto simp: kernel_inv_def bm_run_def)
  have new: "\<not> task_page (pmem s) p"
  proof
    assume "task_page (pmem s) p"
    then obtain b where b: "p = PAGE (of_nat b)" "b < 4096" "b \<in> bm_used (kernel_map (pmem s))" by (auto simp: task_page_def)
    have "a = b" using page_number(1) [of a] page_number(1) [of b] a(1) b(1,2) au(2) by simp
    then show False using b(3) au(3) by simp
  qed
  have mine: "task_page m p" using a au by (auto simp: task_page_def)
  have other: "task_page (pmem s) q \<Longrightarrow> task_page m q" for q using a by (auto simp: task_page_def)
  have "t_pid (tasks t q) = of_nat j \<and> task_page (pmem t) q" if "j < NR_TASKS" "task_table t ! j = Some q" for j q
  proof (cases "j = i")
    case True
    then show ?thesis using that fi(1) mine table_okD(1) [OF assms(1)] by (simp add: t zero_node_def upd_task_def)
  next
    case False
    then have j: "task_table s ! j = Some q" using that(2) by (simp add: t zero_node_def upd_task_def)
    then have "q \<noteq> p" using new table_okD(4) [OF assms(1) that(1) j] by auto
    then show ?thesis
      using table_okD(3,4) [OF assms(1) that(1) j] other by (simp add: t zero_node_def upd_task_def)
  qed
  moreover have "length (task_table t) = NR_TASKS" "pmem t = m"
    using table_okD(1) [OF assms(1)] by (simp_all add: t zero_node_def upd_task_def)
  ultimately have "table_ok t" using a(4) by (auto simp: table_ok_def)
  then show thesis using that fi new t by (simp add: zero_node_def upd_task_def)
qed

lemma steady_more:
  "tasks t = tasks s \<Longrightarrow> task_table t = task_table s \<Longrightarrow> pmem t = pmem s \<Longrightarrow> steady s t"
  by (simp add: steady_def)

lemma task_create_ok:
  assumes "table_ok s" and "task_create target name priority uid s = Inr (p, t)"
  shows "table_ok t"
proof -
  from assms(2) obtain u where u: "get_free_task s = Inr (p, u)"
    by (auto simp: task_create_def Let_def res_simps)
  have ok: "table_ok u" using get_free_task_ok [OF assms(1) u] by blast
  have "steady u t"
    using assms(2) u
    by (auto simp: task_create_def Let_def res_simps k_alloc_def upd_task_def upd_inode_def intro!: steadyI grows_alloc)
  then show ?thesis by (rule table_ok_steady [OF ok])
qed

lemma steady_share: "steady s (share_file c i s)"
  by (auto simp: share_file_def upd_file_def steady_def split: option.splits)

lemma steady_fold: "(\<And>x s. steady s (f x s)) \<Longrightarrow> steady s (fold f xs s)"
  by (induction xs arbitrary: s) (auto intro: steady_trans)

lemma steady_build: "steady s (task_build_stack e p s)"
  by (simp add: task_build_stack_def Let_def upd_task_def steady_def)

lemma steady_use: "use_inode i s = Inr t \<Longrightarrow> steady s t"
  by (auto simp: use_inode_def upd_inode_def steady_def split: option.splits)

lemma steady_copy_task:
  "steady s (upd_task c (\<lambda>t. t\<lparr>t_pid := t_pid (tasks s c), t_ppid := a, t_ticks := t_priority t, t_state := TASK_READY\<rparr>) (copy_task c p s))"
  by (simp add: copy_task_def Let_def upd_task_def steady_def)

text \<open>A computation that goes on from a state with the table of \<open>u\<close> and keeps it.\<close>

definition keeps_table :: "'a proc_state_scheme \<Rightarrow> ('b \<times> 'a proc_state_scheme) res \<Rightarrow> bool" where
  "keeps_table u = all_res (\<lambda>r. steady u (snd r))"

lemma keeps_bind:
  "keeps_table u m \<Longrightarrow> (\<And>x t. steady u t \<Longrightarrow> keeps_table u (f (x, t))) \<Longrightarrow> keeps_table u (bindE m f)"
  unfolding keeps_table_def by (cases m) auto

lemma keeps_bind_state:
  "all_res (steady u) m \<Longrightarrow> (\<And>t. steady u t \<Longrightarrow> keeps_table u (f t)) \<Longrightarrow> keeps_table u (bindE m f)"
  unfolding keeps_table_def by (cases m) auto

lemma keeps_bind_value: "(\<And>x. keeps_table u (f x)) \<Longrightarrow> keeps_table u (bindE m f)"
  unfolding keeps_table_def by (cases m) auto

lemma keeps_assert: "keeps_table u m \<Longrightarrow> keeps_table u (kassert b m)"
  by (simp add: kassert_def keeps_table_def)

lemma keeps_option: "keeps_table u m \<Longrightarrow> (\<And>x. keeps_table u (f x)) \<Longrightarrow> keeps_table u (case p of None \<Rightarrow> m | Some x \<Rightarrow> f x)"
  by (cases p) auto

lemma keeps_Inr: "steady u t \<Longrightarrow> keeps_table u (Inr (x, t))"
  by (simp add: keeps_table_def)

lemma keeps_Inl: "keeps_table u (Inl e)"
  by (simp add: keeps_table_def)

lemma keeps_calls:
  "steady u s \<Longrightarrow> keeps_table u (k_alloc n s)" "steady u s \<Longrightarrow> keeps_table u (p_kmalloc n s)"
  "steady u s \<Longrightarrow> keeps_table u (p_copy_pde s)" "steady u s \<Longrightarrow> all_res (steady u) (use_inode i s)"
  by (auto simp: keeps_table_def all_res_def dest: steady_k_alloc steady_kmalloc steady_copy_pde steady_use intro: steady_trans)

lemma steady_upds:
  "steady u s \<Longrightarrow> (\<And>t. t_pid (f t) = t_pid t) \<Longrightarrow> steady u (upd_task c f s)"
  "steady u s \<Longrightarrow> steady u (s\<lparr>vmaps := a, vmap_bits := b\<rparr>)" "steady u s \<Longrightarrow> steady u (s\<lparr>pwd_page := d\<rparr>)"
  "steady u s \<Longrightarrow> steady u (s\<lparr>intr_frames := h\<rparr>)"
  "steady u s \<Longrightarrow> steady u (fold (share_file c) xs s)" "steady u s \<Longrightarrow> steady u (task_build_stack e p s)"
  subgoal by (rule steady_trans) (auto intro: steady_upd)
  subgoal by (simp add: steady_def)
  subgoal by (simp add: steady_def)
  subgoal by (simp add: steady_def)
  subgoal by (erule steady_trans) (intro steady_fold steady_share)
  subgoal by (erule steady_trans) (rule steady_build)
  done

lemmas keeps_rules = keeps_assert keeps_option keeps_Inr keeps_Inl keeps_calls steady_upds

lemma task_fork_ok:
  assumes "table_ok s" and "task_fork e s = Inr (pid, t)"
  shows "table_ok t"
proof -
  let ?p = "running_task s"
  from assms(2) obtain c u where u: "get_free_task s = Inr (c, u)"
    by (auto simp: task_fork_def Let_def res_simps)
  have ok: "table_ok u" using get_free_task_ok [OF assms(1) u] by blast
  have start: "keeps_table u (kassert (may_run ?p s) (bindE (get_free_task s) f))" if "keeps_table u (f (c, u))"
    for f :: "_ \<Rightarrow> (u32 \<times> _) res" using that u by (auto simp: kassert_def keeps_Inl)
  have "keeps_table u (task_fork e s)"
    unfolding task_fork_def Let_def
    by (rule start)
       (simp only: prod.case | assumption | rule steady_copy_task keeps_rules keeps_bind keeps_bind_state keeps_bind_value | simp; fail)+
  then show ?thesis using assms(2) table_ok_steady [OF ok] by (simp add: keeps_table_def)
qed

lemma task_to_user_mode_steady:
  assumes "task_to_user_mode bits target s = Inr t"
  shows "steady s t"
proof -
  have bind: "all_res (steady s) (bindE m f)"
    if "keeps_table s m" "\<And>x t. steady s t \<Longrightarrow> all_res (steady s) (f (x, t))" for m :: "(u32 \<times> _) res" and f
    using that unfolding keeps_table_def by (cases m) auto
  have cr3: "all_res (steady s) (bindE (set_cr3 pde (vm_of t)) (\<lambda>v. Inr (put_vm v t\<lparr>intr_frames := h v\<rparr>)))" if "steady s t" for pde t h
    using that by (auto simp: set_cr3_def kassert_def put_vm_def vm_of_def Let_def steady_def)
  have plain: "all_res (steady s) (bindE m f)" if "\<And>x. all_res (steady s) (f x)" for m :: "bitmap_t res" and f
    using that by (cases m) auto
  have "all_res (steady s) (task_to_user_mode bits target s)"
    unfolding task_to_user_mode_def Let_def
    by (simp only: prod.case | assumption | rule steady_refl cr3 bind plain keeps_calls steady_upds | simp; fail)+
  then show ?thesis using assms by (simp add: all_res_def)
qed

section \<open>Waiting\<close>

text \<open>The children the call asks for.\<close>

definition awaited :: "u32 \<Rightarrow> 'a proc_state_scheme \<Rightarrow> nat \<Rightarrow> bool" where
  "awaited pid s i \<longleftrightarrow> (\<exists>c. task_table s ! i = Some c \<and> t_ppid (tasks s c) = t_pid (tasks s (current s))
     \<and> (pid = - 1 \<or> pid = t_pid (tasks s c)))"

definition dead_child :: "u32 \<Rightarrow> 'a proc_state_scheme \<Rightarrow> nat \<Rightarrow> bool" where
  "dead_child pid s i \<longleftrightarrow> awaited pid s i \<and> state_of s (the (task_table s ! i)) = TASK_DIED"

lemma wait_loop_find:
  assumes "acc \<in> {Alive, Childless}"
  shows "wait_loop xs (current s) pid acc s =
    (case find (dead_child pid s) xs of
       Some i \<Rightarrow> Dead i (the (task_table s ! i))
     | None \<Rightarrow> if acc = Alive \<or> (\<exists>i\<in>set xs. awaited pid s i) then Alive else Childless)"
  using assms
proof (induction xs arbitrary: acc)
  case Nil
  then show ?case by auto
next
  case (Cons i xs)
  show ?case
  proof (cases "task_table s ! i")
    case None
    then have "\<not> awaited pid s i" "\<not> dead_child pid s i" by (simp_all add: dead_child_def awaited_def)
    then show ?thesis using Cons None by (cases "find (dead_child pid s) xs") auto
  next
    case (Some c)
    have aw: "awaited pid s i \<longleftrightarrow> t_ppid (tasks s c) = t_pid (tasks s (current s)) \<and> \<not> (pid \<noteq> t_pid (tasks s c) \<and> pid \<noteq> - 1)"
      using Some by (auto simp: awaited_def)
    have dc: "dead_child pid s i \<longleftrightarrow> awaited pid s i \<and> t_state (tasks s c) = TASK_DIED" by (simp add: dead_child_def Some state_of_def)
    consider "\<not> awaited pid s i" | "awaited pid s i" "\<not> dead_child pid s i" | "dead_child pid s i" by blast
    then show ?thesis
    proof cases
      case 1
      have "wait_loop (i # xs) (current s) pid acc s = wait_loop xs (current s) pid acc s" using 1 aw Some by auto
      then show ?thesis using Cons 1 dc by (cases "find (dead_child pid s) xs") auto
    next
      case 2
      have "wait_loop (i # xs) (current s) pid acc s = wait_loop xs (current s) pid Alive s" using 2 aw dc Some by auto
      then show ?thesis using Cons.IH [of Alive] 2 by (cases "find (dead_child pid s) xs") auto
    next
      case 3
      then show ?thesis using aw dc Some by auto
    qed
  qed
qed

lemma free_task_page:
  assumes "table_ok s" and "i < NR_TASKS" and "task_table s ! i = Some c"
  obtains m where "free_kpage c 1 (pmem s) = Inr m" "table_ok (s\<lparr>task_table := (task_table s)[i := None], pmem := m\<rparr>)"
    "bm_used (kernel_map m) = bm_used (kernel_map (pmem s)) - {unat c div 4096}"
proof -
  from table_okD(4) [OF assms] obtain a where a: "c = PAGE (of_nat a)" "256 \<le> a" "a < 4096" "a \<in> bm_used (kernel_map (pmem s))"
    by (auto simp: task_page_def)
  have n: "a + unat (1 :: u32) \<le> 4096" "{a ..< a + unat (1 :: u32)} \<subseteq> bm_used (kernel_map (pmem s))" using a(3,4) by auto
  from free_kpage_run(1) [OF table_okD(2) [OF assms(1)] a(2) n(1) _ n(2)] obtain km where
      km: "free_kpage c 1 (pmem s) = Inr ((pmem s)\<lparr>kernel_map := km\<rparr>)" "kernel_inv ((pmem s)\<lparr>kernel_map := km\<rparr>)"
      "bm_used km = bm_used (kernel_map (pmem s)) - {a}" by (auto simp: a(1))
  have num: "unat c div 4096 = a" using page_number(1) [of a] a(1,3) by simp
  have "t_pid (tasks s q) = of_nat j \<and> task_page ((pmem s)\<lparr>kernel_map := km\<rparr>) q"
    if j: "j < NR_TASKS" "(task_table s)[i := None] ! j = Some q" for j q
  proof -
    have "j \<noteq> i" using j assms(2) table_okD(1) [OF assms(1)] by auto
    then have q: "task_table s ! j = Some q" using j by simp
    then have "q \<noteq> c" using table_inj [OF assms(1) j(1) assms(2) q] assms(3) \<open>j \<noteq> i\<close> by auto
    then show ?thesis using table_okD(3,4) [OF assms(1) j(1) q] km(3) a(1) by (auto simp: task_page_def)
  qed
  then have "table_ok (s\<lparr>task_table := (task_table s)[i := None], pmem := (pmem s)\<lparr>kernel_map := km\<rparr>\<rparr>)"
    using table_okD(1) [OF assms(1)] km(2) by (simp add: table_ok_def)
  then show thesis using that km num by simp
qed

lemma task_waitpid_ok:
  assumes "table_ok s" and "task_waitpid pid s = Inr (w, t)"
  shows "table_ok t"
proof (cases "find (dead_child pid s) [2..<NR_TASKS]")
  case None
  define u where "u = upd_task (current s) (\<lambda>t. t\<lparr>t_waitpid := pid\<rparr>) s"
  have "t = s \<or> task_block (current s) None TASK_WAITING u = Inr t"
    using assms(2) None
    by (auto simp: task_waitpid_def wait_loop_find running_task_def Let_def u_def res_simps split: if_splits)
  moreover have "steady s u" unfolding u_def by auto
  ultimately have "steady s t" using steady_trans [OF _ steady_task_block, of s u "current s" None TASK_WAITING t] by auto
  then show ?thesis by (rule table_ok_steady [OF assms(1)])
next
  case (Some i)
  then have i: "i < NR_TASKS" "dead_child pid s i" by (auto simp: find_Some_iff)
  then obtain c where c: "task_table s ! i = Some c" by (auto simp: dead_child_def awaited_def)
  from free_task_page [OF assms(1) i(1) c] obtain m where m: "free_kpage c 1 (pmem s) = Inr m"
      "table_ok (s\<lparr>task_table := (task_table s)[i := None], pmem := m\<rparr>)" by blast
  have "t = s\<lparr>task_table := (task_table s)[i := None], pmem := m\<rparr>"
    using assms(2) Some c m(1) by (simp add: task_waitpid_def wait_loop_find running_task_def Let_def k_free_def)
  then show ?thesis using m(2) by simp
qed

section \<open>The table in every state\<close>

text \<open>What the kernel does to processes: creation, the step to user mode, fork, waiting, the mask of \<open>sys_umask\<close>,
  the children an exit gives away, and the calls of the scheduler. The rest of \<open>task_exit\<close> never runs: the
  release of the page tables stops the kernel (\<open>task_exit_stops\<close>).\<close>

inductive proc_step :: "'a proc_state_scheme \<Rightarrow> 'a proc_state_scheme \<Rightarrow> bool" where
  creates: "task_create target name priority uid s = Inr (p, t) \<Longrightarrow> proc_step s t"
| to_user: "task_to_user_mode bits target s = Inr t \<Longrightarrow> proc_step s t"
| forks: "task_fork e s = Inr (pid, t) \<Longrightarrow> proc_step s t"
| waits: "task_waitpid pid s = Inr (w, t) \<Longrightarrow> proc_step s t"
| masks: "proc_step s (snd (sys_umask msk s))"
| adopts: "proc_step s (adopt_children p s)"
| yields: "schedule s = Inr t \<Longrightarrow> proc_step s t"
| sleeps: "task_sleep ms s = Inr t \<Longrightarrow> proc_step s t"
| blocks: "task_block p q st s = Inr t \<Longrightarrow> proc_step s t"
| unblocks: "task_unblock p s = Inr t \<Longrightarrow> proc_step s t"

inductive proc_reachable :: "'a proc_state_scheme \<Rightarrow> bool" where
  start: "kernel_inv (pmem s) \<Longrightarrow> task_init idle init test s = Inr t \<Longrightarrow> proc_reachable t"
| step: "proc_reachable s \<Longrightarrow> proc_step s t \<Longrightarrow> proc_reachable t"

lemma steady_adopt: "steady s (adopt_children p s)"
  unfolding adopt_children_def by (intro steady_fold) (auto simp: adopt_def split: option.splits)

lemma proc_step_ok:
  assumes "proc_step s t" and "table_ok s"
  shows "table_ok t"
  using assms
proof cases
  case creates
  then show ?thesis by (rule task_create_ok [OF assms(2)])
next
  case forks
  then show ?thesis by (rule task_fork_ok [OF assms(2)])
next
  case waits
  then show ?thesis by (rule task_waitpid_ok [OF assms(2)])
next
  case (masks msk)
  have "steady s (snd (sys_umask msk s))" by (auto simp: sys_umask_def Let_def)
  then show ?thesis using masks table_ok_steady [OF assms(2)] by simp
next
  case adopts
  then show ?thesis using table_ok_steady [OF assms(2) steady_adopt] by simp
qed (auto intro: table_ok_steady [OF assms(2)] task_to_user_mode_steady steady_schedule steady_task_sleep
    steady_task_block steady_task_unblock)

lemma task_setup_ok: "kernel_inv (pmem s) \<Longrightarrow> table_ok (task_setup s)"
  by (simp add: table_ok_def task_setup_def Let_def upd_task_def)

lemma task_init_ok:
  assumes "kernel_inv (pmem s)" and "task_init idle init test s = Inr t"
  shows "table_ok t"
proof -
  let ?s = "task_setup (s\<lparr>nodes := list_init SleepList (list_init BlockList (nodes s))\<rparr>)"
  obtain p u q v r where u: "task_create idle idle_name 1 KERNEL_USER ?s = Inr (p, u)"
      and v: "task_create init init_name 5 NORMAL_USER (u\<lparr>idle_task := Some p\<rparr>) = Inr (q, v)"
      and t: "task_create test test_name 5 NORMAL_USER v = Inr (r, t)"
    using assms(2) by (auto simp: task_init_def Let_def res_simps)
  have "table_ok ?s" using assms(1) by (intro task_setup_ok) simp
  then have "table_ok u" by (rule task_create_ok [OF _ u])
  then have "table_ok (u\<lparr>idle_task := Some p\<rparr>)" by (simp add: table_ok_def)
  then have "table_ok v" by (rule task_create_ok [OF _ v])
  then show ?thesis by (rule task_create_ok [OF _ t])
qed

lemma proc_reachable_ok: "proc_reachable s \<Longrightarrow> table_ok s"
  by (induction rule: proc_reachable.induct) (auto intro: task_init_ok proc_step_ok)

text \<open>An exit stops in \<open>free_pde\<close>.\<close>

lemma task_exit_stops:
  assumes "Paging.load_entry (vm_of s) get_pde 2 = Inr (entry_init 4)" and "4 < start_page (pmem s)"
  shows "\<exists>e. task_exit status s = Inl e"
proof -
  let ?s = "vm_of (upd_task (running_task s) (\<lambda>t. t\<lparr>t_state := TASK_DIED, t_status := status\<rparr>) s)"
  have "?s = vm_of s"
    by (cases "t_vmap (tasks s (current s))") (simp_all add: vm_of_def upd_task_def running_task_def Let_def)
  moreover have "[2 ..< length KERNEL_PAGE_TABLE] = [2, 3]" by (simp add: KERNEL_PAGE_TABLE_def upt_conv_Cons)
  moreover have "vm_mem (vm_of s) = pmem s" by (simp add: vm_of_def Let_def)
  ultimately have "\<exists>e. free_pde ?s = Inl e"
    using free_table_stops [OF assms(1)] assms(2) by (auto simp: free_pde_def kassert_def)
  then show ?thesis by (auto simp: task_exit_def Let_def kassert_def)
qed

section \<open>A start that succeeds\<close>

definition free_kpages :: "mem_t \<Rightarrow> nat set" where
  "free_kpages m = {256 ..< 4096} - bm_used (kernel_map m)"

lemma alloc_one:
  assumes "kernel_inv m" and "Suc n \<le> card (free_kpages m)"
  obtains p m' where "alloc_kpage 1 m = Inr (p, m')" "kernel_inv m'" "n \<le> card (free_kpages m')"
proof -
  have "free_kpages m \<noteq> {}" using assms(2) by auto
  then obtain a where "a \<in> free_kpages m" by blast
  then have "a \<in> bm_univ (kernel_map m) - bm_used (kernel_map m)"
    using assms(1) by (simp add: free_kpages_def kernel_inv_def)
  then have "bm_run (kernel_map m) a (unat (1 :: u32))" by (intro bm_run_univ [THEN iffD2]) auto
  with alloc_kpage_cases [OF assms(1), of 1] obtain b km where b:
      "alloc_kpage 1 m = Inr (PAGE (of_nat b), m\<lparr>kernel_map := km\<rparr>)" "bm_run (kernel_map m) b 1"
      "kernel_inv (m\<lparr>kernel_map := km\<rparr>)" "bm_used km = bm_used (kernel_map m) \<union> {b ..< b + 1}" by auto
  have "b \<in> free_kpages m"
    using b(2) bm_run_univ [of 1 "kernel_map m" b] assms(1) by (auto simp: free_kpages_def kernel_inv_def)
  moreover have "free_kpages (m\<lparr>kernel_map := km\<rparr>) = free_kpages m - {b}" using b(4) by (auto simp: free_kpages_def)
  moreover have "finite (free_kpages m)" by (simp add: free_kpages_def)
  ultimately have "n \<le> card (free_kpages (m\<lparr>kernel_map := km\<rparr>))" using assms(2) by simp
  then show thesis using that b(1,3) by blast
qed

text \<open>Room for \<open>k\<close> more tasks.\<close>

definition task_room :: "nat \<Rightarrow> 'a proc_state_scheme \<Rightarrow> bool" where
  "task_room k s \<longleftrightarrow> table_ok s \<and> 2 * k \<le> card (free_kpages (pmem s)) \<and> (\<forall>q. 2 \<le> length (pwd_page s q))
     \<and> (\<forall>j. NR_TASKS - k \<le> j \<longrightarrow> j < NR_TASKS \<longrightarrow> task_table s ! j = None)"

lemma task_create_room:
  assumes r: "task_room (Suc k) s" and k: "k < NR_TASKS" and nm: "strcpy (replicate TASK_NAME_LEN 0) name = Inr nm"
  obtains p t where "task_create target name priority uid s = Inr (p, t)" "task_room k t" "\<exists>i < NR_TASKS. task_table t ! i = Some p"
proof -
  have ok: "table_ok s" and pw: "\<And>q. 2 \<le> length (pwd_page s q)" 
    and free: "Suc (2 * k + 1) \<le> card (free_kpages (pmem s))"
    and none: "\<And>j. NR_TASKS - Suc k \<le> j \<Longrightarrow> j < NR_TASKS \<Longrightarrow> task_table s ! j = None"
    using r by (auto simp: task_room_def)
  from alloc_one [OF table_okD(2) [OF ok] free] obtain p m where m: "alloc_kpage 1 (pmem s) = Inr (p, m)" "kernel_inv m"
      "Suc (2 * k) \<le> card (free_kpages m)" by auto
  from alloc_one [OF m(2,3)] obtain q n where n: "alloc_kpage 1 m = Inr (q, n)" "2 * k \<le> card (free_kpages n)" by blast
  have "find (\<lambda>i. task_table s ! i = None) [0..<NR_TASKS] \<noteq> None"
    using none [of "NR_TASKS - 1"] by (auto simp: find_None_iff NR_TASKS_def intro!: exI [of _ 63])
  then obtain i where i: "find (\<lambda>i. task_table s ! i = None) [0..<NR_TASKS] = Some i" by blast
  have lo: "i \<le> NR_TASKS - Suc k"
  proof (rule ccontr)
    assume "\<not> ?thesis"
    then have "NR_TASKS - Suc k < i" by simp
    then have "task_table s ! (NR_TASKS - Suc k) \<noteq> None" using i unfolding find_Some_iff by (metis add_0 diff_zero length_upt nth_upt order.strict_trans)
    moreover have "task_table s ! (NR_TASKS - Suc k) = None" using k by (intro none) auto
    ultimately show False by simp
  qed
  obtain a b w where w: "pwd_page s q = a # b # w" using pw [of q] by (cases "pwd_page s q"; cases "tl (pwd_page s q)") auto
  obtain t where t: "task_create target name priority uid s = Inr (p, t)" "pmem t = n"
      "task_table t = (task_table s)[i := Some p]" "pwd_page t = (pwd_page s)(q := 0x2f # 0 # w)"
    using i m(1) n(1) nm w
    by (simp add: task_create_def get_free_task_def k_alloc_def Let_def zero_task_def zero_node_def upd_task_def
      upd_inode_def root_name_def)
  have "table_ok t" by (rule task_create_ok [OF ok t(1)])
  moreover have "task_table t ! j = None" if "NR_TASKS - k \<le> j" "j < NR_TASKS" for j
    using none [of j] that lo k by (simp add: t(3))
  ultimately have "task_room k t" using pw n(2) by (simp add: task_room_def t)
  moreover have "i < NR_TASKS" using i by (auto simp: find_Some_iff)
  then have "\<exists>i < NR_TASKS. task_table t ! i = Some p" using table_okD(1) [OF ok] by (auto simp: t(3))
  ultimately show thesis using that t(1) by blast
qed

lemma replicate_16: "replicate 16 (0 :: u8) = [0, 0, 0, 0, 0, 0, 0, 0, 0, 0, 0, 0, 0, 0, 0, 0]" "replicate 11 (0 :: u8) = [0, 0, 0, 0, 0, 0, 0, 0, 0, 0, 0]"
  by (simp_all add: numeral_eq_Suc)

lemma task_init_room:
  assumes "kernel_inv (pmem s)" and "128 \<le> card (free_kpages (pmem s))" and "\<And>q. 2 \<le> length (pwd_page s q)"
  shows "\<exists>t. task_init idle init test s = Inr t \<and> task_room 61 t"
proof -
  let ?s = "task_setup (s\<lparr>nodes := list_init SleepList (list_init BlockList (nodes s))\<rparr>)"
  have names: "strcpy (replicate TASK_NAME_LEN 0) n = Inr (n @ replicate 11 0)" if "n \<in> {idle_name, init_name, test_name}" for n
    using that by (auto simp: TASK_NAME_LEN_def idle_name_def init_name_def test_name_def replicate_16)
  have "table_ok ?s" using assms(1) by (intro task_setup_ok) simp
  then have r: "task_room (Suc 63) ?s"
    using assms(2,3) by (simp add: task_room_def task_setup_def Let_def upd_task_def)
  obtain p u where u: "task_create idle idle_name 1 KERNEL_USER ?s = Inr (p, u)" "task_room 63 u"
    by (rule task_create_room [OF r _ names [of idle_name]]) (auto simp: NR_TASKS_def)
  have r: "task_room (Suc 62) (u\<lparr>idle_task := Some p\<rparr>)" using u(2) by (simp add: task_room_def table_ok_def)
  obtain q v where v: "task_create init init_name 5 NORMAL_USER (u\<lparr>idle_task := Some p\<rparr>) = Inr (q, v)" "task_room 62 v"
    by (rule task_create_room [OF r _ names [of init_name]]) (auto simp: NR_TASKS_def)
  have r: "task_room (Suc 61) v" using v(2) by simp
  obtain r t where t: "task_create test test_name 5 NORMAL_USER v = Inr (r, t)" "task_room 61 t"
    by (rule task_create_room [OF r _ names [of test_name]]) (auto simp: NR_TASKS_def)
  have "task_init idle init test s = Inr t" using u(1) v(1) t(1) by (simp add: task_init_def Let_def)
  then show ?thesis using t(2) by blast
qed

section \<open>What waiting does\<close>

lemma task_waitpid_reaps:
  assumes "table_ok s" and "find (dead_child pid s) [2..<NR_TASKS] = Some i"
  shows "\<exists>m. task_waitpid pid s = Inr (Reaped (of_nat i) (t_status (tasks s (the (task_table s ! i)))),
        s\<lparr>task_table := (task_table s)[i := None], pmem := m\<rparr>)
    \<and> free_kpages m = insert (unat (the (task_table s ! i)) div 4096) (free_kpages (pmem s))"
proof -
  have i: "i < NR_TASKS" "dead_child pid s i" using assms(2) by (auto simp: find_Some_iff)
  then obtain c where c: "task_table s ! i = Some c" by (auto simp: dead_child_def awaited_def)
  from free_task_page [OF assms(1) i(1) c] obtain m where m: "free_kpage c 1 (pmem s) = Inr m"
      "bm_used (kernel_map m) = bm_used (kernel_map (pmem s)) - {unat c div 4096}" by blast
  from table_okD(4) [OF assms(1) i(1) c] obtain a where a: "c = PAGE (of_nat a)" "256 \<le> a" "a < 4096" by (auto simp: task_page_def)
  have num: "unat c div 4096 = a" using page_number(1) [of a] a(1,3) by simp
  have "free_kpages m = insert (unat c div 4096) (free_kpages (pmem s))"
    unfolding free_kpages_def m(2) num using a(2,3) by auto
  moreover have "t_pid (tasks s c) = of_nat i" by (rule table_okD(3) [OF assms(1) i(1) c])
  ultimately show ?thesis
    using assms(2) c m(1) by (intro exI [of _ m]) (simp add: task_waitpid_def wait_loop_find running_task_def Let_def k_free_def)
qed

text \<open>The caller's number in its block is nothing the scheduler's lists depend on.\<close>

lemma sched_inv_waitpid:
  assumes "sched_inv s c"
  shows "sched_inv (upd_task p (\<lambda>t. t\<lparr>t_waitpid := pid\<rparr>) s) c"
proof -
  let ?s = "upd_task p (\<lambda>t. t\<lparr>t_waitpid := pid\<rparr>) s"
  have "live ?s = live s" "current ?s = current s" "idle_task ?s = idle_task s" "nodes ?s = nodes s"
    by (simp_all add: live_def upd_task_def)
  moreover have "state_of ?s = state_of s" "wake_time ?s = wake_time s"
    by (auto simp: state_of_def wake_time_def upd_task_def)
  moreover have "t_magic (tasks ?s x) = t_magic (tasks s x)" "t_pde (tasks ?s x) = t_pde (tasks s x)" for x
    by (simp_all add: upd_task_def)
  ultimately show ?thesis using assms by (simp add: sched_inv_def sched_core_def)
qed

lemma schedule_waitpid: "schedule s = Inr t \<Longrightarrow> t_waitpid (tasks t p) = t_waitpid (tasks s p)"
  by (auto simp: schedule_def task_activate_def task_switch_def upd_task_def Let_def res_simps split: option.splits if_splits)

lemma task_block_waitpid:
  assumes "task_block p q st s = Inr t"
  shows "t_waitpid (tasks t x) = t_waitpid (tasks s x)"
proof -
  from assms obtain h where h: "(if running_task s = p then schedule (upd_task p (\<lambda>t. t\<lparr>t_state := st\<rparr>) (s\<lparr>nodes := h\<rparr>))
      else Inr (upd_task p (\<lambda>t. t\<lparr>t_state := st\<rparr>) (s\<lparr>nodes := h\<rparr>))) = Inr t"
    by (auto simp: task_block_def Let_def res_simps)
  have "t_waitpid (tasks (upd_task p (\<lambda>t. t\<lparr>t_state := st\<rparr>) (s\<lparr>nodes := h\<rparr>)) x) = t_waitpid (tasks s x)" by simp
  then show ?thesis using h schedule_waitpid by (fastforce split: if_splits)
qed

lemma task_waitpid_blocks:
  assumes "sched_inv s c" and "\<not> intr s" and "idle_task s \<noteq> Some (current s)" and "c BlockList = Some xs"
    and "find (dead_child pid s) [2..<NR_TASKS] = None" and "\<exists>i\<in>{2..<NR_TASKS}. awaited pid s i"
  shows "\<exists>t. task_waitpid pid s = Inr (Blocked, t) \<and> sched_inv t (c(BlockList \<mapsto> current s # xs))
    \<and> state_of t (current s) = TASK_WAITING \<and> t_waitpid (tasks t (current s)) = pid \<and> task_table t = task_table s"
proof -
  define u where "u = upd_task (current s) (\<lambda>t. t\<lparr>t_waitpid := pid\<rparr>) s"
  have u: "current u = current s" "intr u = intr s" "idle_task u = idle_task s" "task_table u = task_table s" by (simp_all add: u_def)
  have inv: "sched_inv u c" unfolding u_def by (rule sched_inv_waitpid [OF assms(1)])
  have "\<not> intr u" "idle_task u \<noteq> Some (current u)" using assms(2,3) u by simp_all
  from task_block_current [OF inv this, of BlockList None xs TASK_WAITING] assms(4) obtain v t where
      t: "task_block (current s) None TASK_WAITING u = Inr t" "switched v t" "state_of v (current s) = TASK_WAITING"
      "task_table v = task_table u" "sched_inv t (c(BlockList \<mapsto> current s # xs))" by (auto simp: u)
  have "task_waitpid pid s = Inr (Blocked, t)"
    using assms(5,6) t(1) by (simp add: task_waitpid_def wait_loop_find Let_def u_def)
  moreover have "state_of t (current s) = TASK_WAITING"
  proof -
    have "current s \<noteq> current t"
    proof
      assume "current s = current t"
      moreover have "current t \<notin> set (current s # xs)"
        using current_unlinked [OF t(5)] unfolding unlinked_def by (metis fun_upd_same)
      ultimately show False by simp
    qed
    then show ?thesis using t(2,3) by (simp add: switched_def)
  qed
  moreover have "t_waitpid (tasks t (current s)) = pid" using task_block_waitpid [OF t(1), of "current s"] by (simp add: u_def)
  moreover have "task_table t = task_table s" using t(2,4) u(4) by (simp add: switched_def)
  ultimately show ?thesis using t(5) by blast
qed

lemma k_alloc_apart:
  assumes "table_ok s" and "task_page (pmem s) p" and "k_alloc n s = Inr (q, t)"
  shows "unat p \<notin> {unat q ..< unat q + 4096 * unat n}"
proof -
  from assms(3) obtain m where m: "alloc_kpage n (pmem s) = Inr (q, m)" by (auto simp: k_alloc_def res_simps)
  then have n: "0 < n" by (simp add: alloc_kpage_def res_simps)
  then have n': "0 < unat n" by (simp add: word_less_nat_alt)
  from alloc_kpage_cases [OF table_okD(2) [OF assms(1)] n] m obtain a where a: "q = PAGE (of_nat a)"
      "bm_run (kernel_map (pmem s)) a (unat n)" by auto
  have sub: "{a ..< a + unat n} \<subseteq> {256 ..< 4096} - bm_used (kernel_map (pmem s))"
    using a(2) bm_run_univ [OF n', of "kernel_map (pmem s)" a] table_okD(2) [OF assms(1)] by (simp add: kernel_inv_def)
  have "a \<in> {a ..< a + unat n}" using n' by simp
  then have "a \<in> {256 ..< 4096}" using sub by blast
  then have al: "a < 4096" by simp
  from assms(2) obtain b where b: "p = PAGE (of_nat b)" "b < 4096" "b \<in> bm_used (kernel_map (pmem s))"
    by (auto simp: task_page_def)
  have "unat p = 4096 * b" "unat q = 4096 * a" using page_number(1) [of a] page_number(1) [of b] a(1) b(1,2) al by simp_all
  moreover have "b \<notin> {a ..< a + unat n}" using sub b(3) by blast
  ultimately show ?thesis by auto
qed

section \<open>Examples\<close>

definition example_proc :: proc_state where
  "example_proc = fs_state.extend (example_files\<lparr>pwd_page := \<lambda>_. replicate 4096 0\<rparr>)
     \<lparr>pmem = example_mem, frames = \<lambda>_. [],
      kheap = \<lparr>heap_mem = example_mem, descriptors = [], arenas = \<lambda>_. \<lparr>a_desc = None, a_count = 0, a_large = 0, a_magic = 0\<rparr>,
        blocks = \<lambda>_. \<lparr>node_prev = None, node_next = None\<rparr>\<rparr>,
      vmaps = \<lambda>_. bitmap_make [] 0 0, vmap_bits = \<lambda>_. 0,
      task_frames = \<lambda>_. \<lparr>tf_edi = 0, tf_esi = 0, tf_ebx = 0, tf_ebp = 0, tf_eip = 0\<rparr>,
      intr_frames = \<lambda>_. \<lparr>if_vector = 0, if_edi = 0, if_esi = 0, if_ebp = 0, if_esp_dummy = 0, if_ebx = 0, if_edx = 0,
        if_ecx = 0, if_eax = 0, if_gs = 0, if_fs = 0, if_es = 0, if_ds = 0, if_vector0 = 0, if_error = 0, if_eip = 0,
        if_cs = 0, if_eflags = 0, if_esp = 0, if_ss = 0\<rparr>\<rparr>"

text \<open>Its pages 256 to 258 are control blocks: the idle task, a running task and a dead child of it.\<close>

definition example_family :: proc_state where
  "example_family = example_proc\<lparr>
     pmem := example_mem\<lparr>kernel_map := bitmap_make (7 # replicate 479 0) 480 256\<rparr>,
     task_table := [Some 0x100000, Some 0x101000, Some 0x102000] @ replicate 61 None,
     tasks := (\<lambda>p. if p = 0x100000 then (example_task TASK_READY)\<lparr>t_pid := 0\<rparr>
       else if p = 0x101000 then (example_task TASK_RUNNING)\<lparr>t_pid := 1\<rparr>
       else (example_task TASK_DIED)\<lparr>t_pid := 2, t_ppid := 1, t_status := 9\<rparr>),
     nodes := no_nodes, idle_task := Some 0x100000, current := 0x101000, intr := False\<rparr>"

lemma example_proc_mem: "pmem example_proc = example_mem" "pwd_page example_proc q = replicate 4096 0"
  by (simp_all add: example_proc_def fs_state.defs)

lemma example_kernel_map:
  assumes "bs = x # replicate 479 0"
  shows "bm_inv (bitmap_make bs 480 256)" "bm_univ (bitmap_make bs 480 256) = {256 ..< 4096}"
    "bm_used (bitmap_make bs 480 256) = {256 + i |i. i < 8 \<and> bit x i}"
proof -
  show "bm_inv (bitmap_make bs 480 256)" "bm_univ (bitmap_make bs 480 256) = {256 ..< 4096}"
    by (simp_all add: assms bitmap_make_def bm_inv_def bm_univ_def bm_first_def bm_size_def)
  have "bm_bit (bitmap_make bs 480 256) i \<longleftrightarrow> i < 8 \<and> bit x i" if "i < 3840" for i
  proof (cases "i < 8")
    case True
    then show ?thesis by (simp add: bm_bit_def bitmap_make_def assms)
  next
    case False
    then have "i div 8 = Suc (i div 8 - 1)" "i div 8 - 1 < 479" using that by auto
    then have "bs ! (i div 8) = 0" unfolding assms by (metis nth_Cons_Suc nth_replicate)
    then show ?thesis using False by (simp add: bm_bit_def bitmap_make_def)
  qed
  then show "bm_used (bitmap_make bs 480 256) = {256 + i |i. i < 8 \<and> bit x i}"
    by (auto simp: bm_used_def bm_first_def bm_size_def bitmap_make_def)
qed

lemma example_proc_free: "kernel_inv example_mem" "free_kpages example_mem = {256 ..< 4096}"
proof -
  have e: "kernel_map example_mem = bitmap_make (0 # replicate 479 0) 480 256"
    by (simp add: example_mem_def replicate_Suc [symmetric] del: replicate_Suc)
  then show "kernel_inv example_mem" "free_kpages example_mem = {256 ..< 4096}"
    using example_kernel_map [OF refl, of 0] by (auto simp: kernel_inv_def free_kpages_def)
qed

lemma example_family_ok: "table_ok example_family" "sched_inv example_family (\<lambda>_. Some [])"
proof -
  have t: "task_table example_family = [Some 0x100000, Some 0x101000, Some 0x102000] @ replicate 61 None"
    "pmem example_family = example_mem\<lparr>kernel_map := bitmap_make (7 # replicate 479 0) 480 256\<rparr>"
    "nodes example_family = no_nodes" "current example_family = 0x101000" "idle_task example_family = Some 0x100000"
    by (simp_all add: example_family_def)
  have seven: "{256 + i |i. i < 8 \<and> bit (7 :: u8) i} = {256, 257, 258}"
  proof -
    have m: "(7 :: u8) = mask 3" by (simp add: mask_eq_exp_minus_1)
    have "bit (7 :: u8) i \<longleftrightarrow> i < 3" for i unfolding m bit_mask_iff by auto
    then show ?thesis by (auto simp: numeral_eq_Suc less_Suc_eq)
  qed
  note km = example_kernel_map [OF refl, of 7, unfolded seven]
  have pg: "task_page (pmem example_family) (PAGE (of_nat a))" if "a \<in> {256, 257, 258}" for a
    using that km(3) by (auto simp: t(2) task_page_def)
  have pages: "(0x100000 :: u32) = PAGE (of_nat 256)" "(0x101000 :: u32) = PAGE (of_nat 257)" "(0x102000 :: u32) = PAGE (of_nat 258)"
    by (simp_all add: PAGE_def)
  have "t_pid (tasks example_family p) = of_nat i \<and> task_page (pmem example_family) p"
    if i: "i < NR_TASKS" and e: "task_table example_family ! i = Some p" for i p
  proof -
    have "i < 3"
    proof (rule ccontr)
      assume "\<not> i < 3"
      then have j: "i = Suc (Suc (Suc (i - 3)))" "i - 3 < 61" using i by (simp_all add: NR_TASKS_def)
      have "task_table example_family ! i = replicate 61 None ! (i - 3)" unfolding t(1) by (subst j(1)) simp
      then show False using e j(2) by simp
    qed
    then consider "i = 0" "p = 0x100000" | "i = 1" "p = 0x101000" | "i = 2" "p = 0x102000"
      using e by (fastforce simp: t(1) nth_append less_Suc_eq numeral_eq_Suc)
    then show ?thesis using pg [of 256] pg [of 257] pg [of 258] unfolding pages [symmetric]
      by cases (simp_all add: example_family_def)
  qed
  then show "table_ok example_family"
    using km(1,2) by (simp add: table_ok_def t(1,2) kernel_inv_def NR_TASKS_def)
  have pde: "page_aligned KERNEL_PAGE_DIR" by code_simp
  have l: "live example_family = {0x100000, 0x101000, 0x102000}" by (auto simp: live_def t(1))
  have st: "state_of example_family p = (if p = 0x100000 then TASK_READY else if p = 0x101000 then TASK_RUNNING else TASK_DIED)" for p
    by (simp add: state_of_def example_family_def example_task_def)
  have m: "t_magic (tasks example_family p) = ONIX_MAGIC" "t_pde (tasks example_family p) = KERNEL_PAGE_DIR" for p
    by (simp_all add: example_family_def example_task_def)
  have "sched_core example_family (\<lambda>_. Some [])"
    by (rule sched_coreI) (simp_all add: l waiting_cases no_nodes_rel unlinked_def st t m pde split: if_splits)
  then show "sched_inv example_family (\<lambda>_. Some [])" by (simp add: sched_inv_def st t)
qed

section \<open>Properties\<close>

text \<open>
  C37. The process table. After \<open>task_init\<close>, whatever is created, forked, waited for, scheduled and given away, the
  table has its 64 entries, the task in entry \<open>i\<close> has the number \<open>i\<close>, so no two tasks share a number or a control
  block, and no allocation of kernel pages hands out the control block of a task.
\<close>

theorem process_table:
  assumes "proc_reachable s"
  shows "length (task_table s) = NR_TASKS \<and>
    (\<forall>i p. i < NR_TASKS \<longrightarrow> task_table s ! i = Some p \<longrightarrow>
       sys_getpid (s\<lparr>current := p\<rparr>) = of_nat i
       \<and> (\<forall>j < NR_TASKS. task_table s ! j = Some p \<longrightarrow> j = i)
       \<and> (\<forall>n q t. k_alloc n s = Inr (q, t) \<longrightarrow> unat p \<notin> {unat q ..< unat q + 4096 * unat n}))"
proof -
  have ok: "table_ok s" by (rule proc_reachable_ok [OF assms])
  have "sys_getpid (s\<lparr>current := p\<rparr>) = of_nat i" if "i < NR_TASKS" "task_table s ! i = Some p" for i p
    using table_okD(3) [OF ok that] by (simp add: sys_getpid_def)
  then show ?thesis
    using table_okD(1) [OF ok] table_inj [OF ok] k_alloc_apart [OF ok] table_okD(4) [OF ok] by blast
qed

theorem process_table_witness:
  "\<exists>(t :: proc_state) i p q u. proc_reachable t \<and> i < NR_TASKS \<and> task_table t ! i = Some p
     \<and> k_alloc 1 t = Inr (q, u) \<and> p \<noteq> q \<and> sys_getpid (t\<lparr>current := p\<rparr>) = of_nat i"
proof -
  have "128 \<le> card (free_kpages (pmem example_proc))" by (simp add: example_proc_free example_proc_mem)
  from task_init_room [OF _ this, of "0x10000" "0x20000" "0x30000"] obtain s where s: "task_init 0x10000 0x20000 0x30000 example_proc = Inr s" "task_room (Suc 60) s"
    by (auto simp: example_proc_free example_proc_mem)
  have names: "strcpy (replicate TASK_NAME_LEN 0) [0] = Inr (replicate 16 0)"
    by (simp add: TASK_NAME_LEN_def replicate_16)
  obtain p t where t: "task_create 0x40000 [0] 1 0 s = Inr (p, t)" "task_room 60 t" "\<exists>i < NR_TASKS. task_table t ! i = Some p"
    by (rule task_create_room [OF s(2) _ names]) (auto simp: NR_TASKS_def)
  then obtain i where i: "i < NR_TASKS" "task_table t ! i = Some p" by blast
  have "kernel_inv (pmem t)" "Suc 0 \<le> card (free_kpages (pmem t))" using t(2) by (simp_all add: task_room_def table_ok_def)
  from alloc_one [OF this] obtain q m where "alloc_kpage 1 (pmem t) = Inr (q, m)" by blast
  then have q: "k_alloc 1 t = Inr (q, t\<lparr>pmem := m\<rparr>)" by (simp add: k_alloc_def)
  have "proc_reachable s" by (rule proc_reachable.start [OF _ s(1)]) (simp add: example_proc_free example_proc_mem)
  then have r: "proc_reachable t" by (rule proc_reachable.step [OF _ proc_step.creates [OF t(1)]])
  have "sys_getpid (t\<lparr>current := p\<rparr>) = of_nat i" "unat p \<notin> {unat q ..< unat q + 4096 * unat (1 :: u32)}"
    using process_table [OF r] i q by blast+
  then show ?thesis using r i q by (intro exI [of _ t] exI [of _ i] exI [of _ p] exI [of _ q] exI) auto
qed

text \<open>
  C38. Waiting for a child. \<open>task_waitpid\<close> takes the first dead child that fits, at any place of the table from the
  third on: it returns the child's number and status, frees its entry and its page, and changes nothing else. With
  no dead child but a live one the caller is queued and another task runs; with none of its children in the table
  the call fails and changes nothing.
\<close>

theorem waitpid_cases:
  assumes "table_ok s" and "sched_inv s c" and "\<not> intr s" and "idle_task s \<noteq> Some (current s)"
  shows "case find (dead_child pid s) [2..<NR_TASKS] of
      Some i \<Rightarrow> (\<exists>m. task_waitpid pid s = Inr (Reaped (of_nat i) (t_status (tasks s (the (task_table s ! i)))),
            s\<lparr>task_table := (task_table s)[i := None], pmem := m\<rparr>)
          \<and> free_kpages m = insert (unat (the (task_table s ! i)) div 4096) (free_kpages (pmem s)))
    | None \<Rightarrow>
        if \<exists>i\<in>{2..<NR_TASKS}. awaited pid s i
        then \<exists>t. task_waitpid pid s = Inr (Blocked, t) \<and> sched_inv t (c(BlockList \<mapsto> current s # the (c BlockList)))
          \<and> state_of t (current s) = TASK_WAITING \<and> t_waitpid (tasks t (current s)) = pid \<and> task_table t = task_table s
        else task_waitpid pid s = Inr (No_child, s)"
proof (cases "find (dead_child pid s) [2..<NR_TASKS]")
  case (Some i)
  then show ?thesis using task_waitpid_reaps [OF assms(1) Some] by simp
next
  case None
  show ?thesis
  proof (cases "\<exists>i\<in>{2..<NR_TASKS}. awaited pid s i")
    case True
    obtain xs where "c BlockList = Some xs"
      using assms(2) sched_coreD(2) unfolding sched_inv_def by blast
    then show ?thesis using task_waitpid_blocks [OF assms(2-4) _ None True] None True by simp
  next
    case False
    then show ?thesis using None by (simp add: task_waitpid_def wait_loop_find)
  qed
qed

theorem waitpid_cases_witness:
  "\<exists>t. task_waitpid (- 1) example_family = Inr (Reaped 2 9, t) \<and> task_table t ! 2 = None
    \<and> task_waitpid 5 example_family = Inr (No_child, example_family)"
proof -
  have e: "task_table example_family = [Some 0x100000, Some 0x101000, Some 0x102000] @ replicate 61 None"
    "current example_family = 0x101000" by (simp_all add: example_family_def)
  have u: "[2 ..< NR_TASKS] = 2 # [3 ..< NR_TASKS]" by (simp add: NR_TASKS_def upt_rec)
  have dead: "dead_child (- 1) example_family 2"
    by (simp add: dead_child_def awaited_def e example_family_def example_task_def state_of_def)
  have none: "\<not> awaited 5 example_family i" if "2 \<le> i" "i < NR_TASKS" for i
    using that by (cases "i = 2") (auto simp: awaited_def e example_family_def example_task_def nth_append NR_TASKS_def nth_Cons' split: if_splits)
  then have f5: "find (dead_child 5 example_family) [2..<NR_TASKS] = None" by (auto simp: find_None_iff dead_child_def)
  show ?thesis
    using waitpid_cases [OF example_family_ok(1,2), of "- 1"] waitpid_cases [OF example_family_ok(1,2), of 5] dead none f5
    by (auto simp: u e example_family_def example_task_def)
qed

end
