(* ===== verification/Ide.thy ===== *)
theory Ide
  imports Mutex Device Format
begin

text \<open>
  The disk driver (\<^verbatim>\<open>kernel/ide.c\<close>): the registers of the two controllers, reading and writing of
  sectors by programmed input and output, identification of the disks, the partition table, and the devices installed.

  The hardware is a parameter: its state \<open>hw\<close> and what a read or a write of a port does to it
  (\<open>in8\<close>, \<open>in16\<close>, \<open>out8\<close>, \<open>out16\<close>). A controller is named by its index, a disk by its controller's index
  and its own. Where a task waits for the disk's interrupt it blocks, and the function \<open>wait\<close> stands for all that runs until
  it is chosen again. The lock of a controller is \<open>c_lock\<close>.
\<close>

section \<open>Registers\<close>

definition IDE_IOBASE_PRIMARY :: u16 where "IDE_IOBASE_PRIMARY = 0x1F0"
definition IDE_IOBASE_SECONDARY :: u16 where "IDE_IOBASE_SECONDARY = 0x170"
definition IDE_DATA :: u16 where "IDE_DATA = 0"
definition IDE_ERR :: u16 where "IDE_ERR = 1"
definition IDE_FEATURE :: u16 where "IDE_FEATURE = 1"
definition IDE_SECTOR :: u16 where "IDE_SECTOR = 2"
definition IDE_LBA_LOW :: u16 where "IDE_LBA_LOW = 3"
definition IDE_LBA_MID :: u16 where "IDE_LBA_MID = 4"
definition IDE_LBA_HIGH :: u16 where "IDE_LBA_HIGH = 5"
definition IDE_HDDEVSEL :: u16 where "IDE_HDDEVSEL = 6"
definition IDE_STATUS :: u16 where "IDE_STATUS = 7"
definition IDE_COMMAND :: u16 where "IDE_COMMAND = 7"
definition IDE_ALT_STATUS :: u16 where "IDE_ALT_STATUS = 0x206"
definition IDE_CONTROL :: u16 where "IDE_CONTROL = 0x206"
definition IDE_CMD_READ :: u8 where "IDE_CMD_READ = 0x20"
definition IDE_CMD_WRITE :: u8 where "IDE_CMD_WRITE = 0x30"
definition IDE_CMD_IDENTIFY :: u8 where "IDE_CMD_IDENTIFY = 0xEC"
definition IDE_SR_NULL :: u8 where "IDE_SR_NULL = 0"
definition IDE_SR_ERR :: u8 where "IDE_SR_ERR = 1"
definition IDE_SR_DRQ :: u8 where "IDE_SR_DRQ = 8"
definition IDE_SR_DRDY :: u8 where "IDE_SR_DRDY = 0x40"
definition IDE_SR_BSY :: u8 where "IDE_SR_BSY = 0x80"
definition IDE_CTRL_SRST :: u8 where "IDE_CTRL_SRST = 4"
definition IDE_LBA_MASTER :: u8 where "IDE_LBA_MASTER = 0xE0"
definition IDE_LBA_SLAVE :: u8 where "IDE_LBA_SLAVE = 0xF0"
definition PART_FS_EXTENDED :: u32 where "PART_FS_EXTENDED = 5"
definition IDE_CTRL_NR :: nat where "IDE_CTRL_NR = 2"
definition IDE_DISK_NR :: nat where "IDE_DISK_NR = 2"
definition IDE_PART_NR :: nat where "IDE_PART_NR = 4"
definition SECTOR_SIZE :: nat where "SECTOR_SIZE = 512"
definition IRQ_HARDDISK :: u32 where "IRQ_HARDDISK = 14"
definition IRQ_HARDDISK2 :: u32 where "IRQ_HARDDISK2 = 15"
definition IRQ_CASCADE :: u32 where "IRQ_CASCADE = 2"

section \<open>Data\<close>

record ide_part_t =
  p_name :: "u8 list"
  p_disk :: "(nat \<times> nat) option"
  p_system :: u32
  p_start :: u32
  p_count :: u32

record ide_disk_t =
  k_name :: "u8 list"
  k_selector :: u8
  k_master :: bool
  k_total_lba :: u32
  k_cylinders :: u32
  k_heads :: u32
  k_sectors :: u32
  k_parts :: "ide_part_t list"

record ide_ctrl_t =
  c_name :: "u8 list"
  c_lock :: nat
  c_iobase :: u16
  c_disks :: "ide_disk_t list"
  c_active :: "(nat \<times> nat) option"
  c_control :: u8
  c_waiter :: "u32 option"

record 'h ide_state = lock_state +
  controllers :: "ide_ctrl_t list"
  hw :: 'h
  in8 :: "u16 \<Rightarrow> 'h \<Rightarrow> u8 \<times> 'h"
  in16 :: "u16 \<Rightarrow> 'h \<Rightarrow> u16 \<times> 'h"
  out8 :: "u16 \<Rightarrow> u8 \<Rightarrow> 'h \<Rightarrow> 'h"
  out16 :: "u16 \<Rightarrow> u16 \<Rightarrow> 'h \<Rightarrow> 'h"

definition io_inb :: "u16 \<Rightarrow> ('h, 'a) ide_state_scheme \<Rightarrow> u8 \<times> ('h, 'a) ide_state_scheme" where
  "io_inb port s = (let (v, h) = in8 s port (hw s) in (v, s\<lparr>hw := h\<rparr>))"

definition io_inw :: "u16 \<Rightarrow> ('h, 'a) ide_state_scheme \<Rightarrow> u16 \<times> ('h, 'a) ide_state_scheme" where
  "io_inw port s = (let (v, h) = in16 s port (hw s) in (v, s\<lparr>hw := h\<rparr>))"

definition io_outb :: "u16 \<Rightarrow> u8 \<Rightarrow> ('h, 'a) ide_state_scheme \<Rightarrow> ('h, 'a) ide_state_scheme" where
  "io_outb port v s = s\<lparr>hw := out8 s port v (hw s)\<rparr>"

definition io_outw :: "u16 \<Rightarrow> u16 \<Rightarrow> ('h, 'a) ide_state_scheme \<Rightarrow> ('h, 'a) ide_state_scheme" where
  "io_outw port v s = s\<lparr>hw := out16 s port v (hw s)\<rparr>"

definition upd_ctrl :: "nat \<Rightarrow> (ide_ctrl_t \<Rightarrow> ide_ctrl_t) \<Rightarrow> ('h, 'a) ide_state_scheme \<Rightarrow> ('h, 'a) ide_state_scheme" where
  "upd_ctrl c f s = s\<lparr>controllers := (controllers s)[c := f (controllers s ! c)]\<rparr>"

definition the_disk :: "nat \<times> nat \<Rightarrow> ('h, 'a) ide_state_scheme \<Rightarrow> ide_disk_t" where
  "the_disk d s = c_disks (controllers s ! fst d) ! snd d"

definition upd_disk :: "nat \<times> nat \<Rightarrow> (ide_disk_t \<Rightarrow> ide_disk_t) \<Rightarrow> ('h, 'a) ide_state_scheme \<Rightarrow> ('h, 'a) ide_state_scheme" where
  "upd_disk d f s = upd_ctrl (fst d) (\<lambda>c. c\<lparr>c_disks := (c_disks c)[snd d := f (c_disks c ! snd d)]\<rparr>) s"

definition iobase :: "nat \<Rightarrow> ('h, 'a) ide_state_scheme \<Rightarrow> u16" where
  "iobase c s = c_iobase (controllers s ! c)"

section \<open>Controller\<close>

definition ide_handler :: "int \<Rightarrow> ('h, 'a) ide_state_scheme \<Rightarrow> ('h, 'a) ide_state_scheme res" where
  "ide_handler vector s =
     (let s = send_eoi vector s in
      bindE (if vector < 14 + 0x20 then Inl OutOfBounds else rd (controllers s) (nat (vector - 14 - 0x20))) (\<lambda>ctrl.
      let c = nat (vector - 14 - 0x20); (state, s) = io_inb (c_iobase ctrl + IDE_STATUS) s in
      case c_waiter (controllers s ! c) of
        None \<Rightarrow> Inr s
      | Some p \<Rightarrow> bindE (task_unblock p s) (\<lambda>s. Inr (upd_ctrl c (\<lambda>t. t\<lparr>c_waiter := None\<rparr>) s))))"

text \<open>The error bits are only logged. The address is a product, not a sum: it is that of the data register.\<close>

definition ide_error :: "nat \<Rightarrow> ('h, 'a) ide_state_scheme \<Rightarrow> ('h, 'a) ide_state_scheme" where
  "ide_error c s = snd (io_inb (iobase c s * IDE_ERR) s)"

partial_function (option) ide_busy_wait :: "nat \<Rightarrow> u8 \<Rightarrow> ('h, 'a) ide_state_scheme \<Rightarrow> ('h, 'a) ide_state_scheme res option" where
  "ide_busy_wait c bits s =
     (let (state, s) = io_inb (iobase c s + IDE_ALT_STATUS) s;
          s = (if state AND IDE_SR_ERR \<noteq> 0 then ide_error c s else s)
      in if state AND IDE_SR_BSY \<noteq> 0 then ide_busy_wait c bits s
         else if state AND bits = bits then Some (Inr s)
         else ide_busy_wait c bits s)"

declare ide_busy_wait.simps [code]

definition ide_reset_controller :: "nat \<Rightarrow> ('h, 'a) ide_state_scheme \<Rightarrow> ('h, 'a) ide_state_scheme res" where
  "ide_reset_controller c s =
     bindE (returns (ide_busy_wait c IDE_SR_NULL (io_outb (iobase c s + IDE_CONTROL) IDE_CTRL_SRST s))) (\<lambda>s.
     returns (ide_busy_wait c IDE_SR_NULL (io_outb (iobase c s + IDE_CONTROL) (c_control (controllers s ! c)) s)))"

definition ide_select_drive :: "nat \<times> nat \<Rightarrow> ('h, 'a) ide_state_scheme \<Rightarrow> ('h, 'a) ide_state_scheme" where
  "ide_select_drive d s =
     upd_ctrl (fst d) (\<lambda>c. c\<lparr>c_active := Some d\<rparr>) (io_outb (iobase (fst d) s + IDE_HDDEVSEL) (k_selector (the_disk d s)) s)"

definition ide_select_sector :: "nat \<times> nat \<Rightarrow> u32 \<Rightarrow> u8 \<Rightarrow> ('h, 'a) ide_state_scheme \<Rightarrow> ('h, 'a) ide_state_scheme" where
  "ide_select_sector d lba count s =
     (let base = iobase (fst d) s;
          s = io_outb (base + IDE_FEATURE) 0 s;
          s = io_outb (base + IDE_SECTOR) count s;
          s = io_outb (base + IDE_LBA_LOW) (ucast (lba AND 0xff)) s;
          s = io_outb (base + IDE_LBA_MID) (ucast (drop_bit 8 lba AND 0xff)) s;
          s = io_outb (base + IDE_LBA_HIGH) (ucast (drop_bit 16 lba AND 0xff)) s;
          s = io_outb (base + IDE_HDDEVSEL) (ucast (drop_bit 24 lba AND 0xf) OR k_selector (the_disk d s)) s
      in upd_ctrl (fst d) (\<lambda>c. c\<lparr>c_active := Some d\<rparr>) s)"

section \<open>Sectors\<close>

text \<open>A sector is 256 words of two bytes.\<close>

fun read_words :: "nat \<Rightarrow> nat \<times> nat \<Rightarrow> ('h, 'a) ide_state_scheme \<Rightarrow> u16 list \<times> ('h, 'a) ide_state_scheme" where
  "read_words 0 d s = ([], s)"
| "read_words (Suc n) d s =
     (let (v, s) = io_inw (iobase (fst d) s + IDE_DATA) s; (vs, s) = read_words n d s in (v # vs, s))"

definition ide_pio_read_sector :: "nat \<times> nat \<Rightarrow> ('h, 'a) ide_state_scheme \<Rightarrow> u16 list \<times> ('h, 'a) ide_state_scheme" where
  "ide_pio_read_sector d s = read_words (SECTOR_SIZE div 2) d s"

definition ide_pio_write_sector :: "nat \<times> nat \<Rightarrow> u16 list \<Rightarrow> ('h, 'a) ide_state_scheme \<Rightarrow> ('h, 'a) ide_state_scheme" where
  "ide_pio_write_sector d vs s = fold (\<lambda>v s. io_outw (iobase (fst d) s + IDE_DATA) v s) (take (SECTOR_SIZE div 2) vs) s"

text \<open>The running task waits for the interrupt, unless the system is only being set up.\<close>

definition ide_pause :: "(('h, 'a) ide_state_scheme \<Rightarrow> ('h, 'a) ide_state_scheme res) \<Rightarrow> nat
    \<Rightarrow> ('h, 'a) ide_state_scheme \<Rightarrow> ('h, 'a) ide_state_scheme res" where
  "ide_pause wait c s =
     (let p = running_task s in
      if t_state (tasks s p) = TASK_RUNNING then
        bindE (task_block p None TASK_BLOCKED (upd_ctrl c (\<lambda>t. t\<lparr>c_waiter := Some p\<rparr>) s)) wait
      else Inr s)"

fun read_sectors :: "nat \<Rightarrow> (('h, 'a) ide_state_scheme \<Rightarrow> ('h, 'a) ide_state_scheme res) \<Rightarrow> nat \<times> nat
    \<Rightarrow> ('h, 'a) ide_state_scheme \<Rightarrow> (u16 list \<times> ('h, 'a) ide_state_scheme) res" where
  "read_sectors 0 wait d s = Inr ([], s)"
| "read_sectors (Suc n) wait d s =
     bindE (ide_pause wait (fst d) s) (\<lambda>s.
     bindE (returns (ide_busy_wait (fst d) IDE_SR_DRQ s)) (\<lambda>s.
     let (vs, s) = ide_pio_read_sector d s in
     bindE (read_sectors n wait d s) (\<lambda>(ws, s). Inr (vs @ ws, s))))"

definition ide_pio_read :: "(('h, 'a) ide_state_scheme \<Rightarrow> ('h, 'a) ide_state_scheme res) \<Rightarrow> nat \<times> nat \<Rightarrow> u8 \<Rightarrow> u32
    \<Rightarrow> ('h, 'a) ide_state_scheme \<Rightarrow> (u16 list \<times> ('h, 'a) ide_state_scheme) res" where
  "ide_pio_read wait d count lba s =
     kassert (count > 0) (
     kassert (\<not> get_interrupt_state s) (
     let lock = c_lock (controllers s ! fst d) in
     bindE (lock_acquire lock s) (\<lambda>(got, s).
     if \<not> got then Inl NoReturn
     else
       bindE (returns (ide_busy_wait (fst d) IDE_SR_DRDY (ide_select_drive d s))) (\<lambda>s.
       let s = ide_select_sector d lba count s;
           s = io_outb (iobase (fst d) s + IDE_COMMAND) IDE_CMD_READ s in
       bindE (read_sectors (unat count) wait d s) (\<lambda>(ws, s).
       bindE (lock_release lock s) (\<lambda>s. Inr (ws, s)))))))"

fun write_sectors :: "nat \<Rightarrow> (('h, 'a) ide_state_scheme \<Rightarrow> ('h, 'a) ide_state_scheme res) \<Rightarrow> nat \<times> nat \<Rightarrow> u16 list
    \<Rightarrow> ('h, 'a) ide_state_scheme \<Rightarrow> ('h, 'a) ide_state_scheme res" where
  "write_sectors 0 wait d ws s = Inr s"
| "write_sectors (Suc n) wait d ws s =
     bindE (ide_pause wait (fst d) (ide_pio_write_sector d ws s)) (\<lambda>s.
     bindE (returns (ide_busy_wait (fst d) IDE_SR_NULL s)) (\<lambda>s.
     write_sectors n wait d (drop (SECTOR_SIZE div 2) ws) s))"

definition ide_pio_write :: "(('h, 'a) ide_state_scheme \<Rightarrow> ('h, 'a) ide_state_scheme res) \<Rightarrow> nat \<times> nat \<Rightarrow> u16 list \<Rightarrow> u8 \<Rightarrow> u32
    \<Rightarrow> ('h, 'a) ide_state_scheme \<Rightarrow> ('h, 'a) ide_state_scheme res" where
  "ide_pio_write wait d ws count lba s =
     kassert (count > 0) (
     kassert (\<not> get_interrupt_state s) (
     let lock = c_lock (controllers s ! fst d) in
     bindE (lock_acquire lock s) (\<lambda>(got, s).
     if \<not> got then Inl NoReturn
     else
       bindE (returns (ide_busy_wait (fst d) IDE_SR_DRDY (ide_select_drive d s))) (\<lambda>s.
       let s = ide_select_sector d lba count s;
           s = io_outb (iobase (fst d) s + IDE_COMMAND) IDE_CMD_WRITE s in
       bindE (write_sectors (unat count) wait d ws s) (lock_release lock)))))"

section \<open>What the devices offer\<close>

definition ide_pio_ioctl :: "nat \<times> nat \<Rightarrow> u32 \<Rightarrow> ('h, 'a) ide_state_scheme \<Rightarrow> u32 res" where
  "ide_pio_ioctl d cmd s =
     (if cmd = DEV_CMD_SECTOR_START then Inr 0
      else if cmd = DEV_CMD_SECTOR_COUNT then Inr (k_total_lba (the_disk d s))
      else Inl (Panic ''device command can't recognize!!!''))"

definition ide_pio_part_ioctl :: "ide_part_t \<Rightarrow> u32 \<Rightarrow> u32 res" where
  "ide_pio_part_ioctl part cmd =
     (if cmd = DEV_CMD_SECTOR_START then Inr (p_start part)
      else if cmd = DEV_CMD_SECTOR_COUNT then Inr (p_count part)
      else Inl (Panic ''device command can't recognize!!!''))"

definition ide_pio_part_read :: "(('h, 'a) ide_state_scheme \<Rightarrow> ('h, 'a) ide_state_scheme res) \<Rightarrow> ide_part_t \<Rightarrow> u8 \<Rightarrow> u32
    \<Rightarrow> ('h, 'a) ide_state_scheme \<Rightarrow> (u16 list \<times> ('h, 'a) ide_state_scheme) res" where
  "ide_pio_part_read wait part count lba s =
     (case p_disk part of None \<Rightarrow> Inl NullDeref | Some d \<Rightarrow> ide_pio_read wait d count (p_start part + lba) s)"

definition ide_pio_part_write :: "(('h, 'a) ide_state_scheme \<Rightarrow> ('h, 'a) ide_state_scheme res) \<Rightarrow> ide_part_t \<Rightarrow> u16 list \<Rightarrow> u8 \<Rightarrow> u32
    \<Rightarrow> ('h, 'a) ide_state_scheme \<Rightarrow> ('h, 'a) ide_state_scheme res" where
  "ide_pio_part_write wait part ws count lba s =
     (case p_disk part of None \<Rightarrow> Inl NullDeref | Some d \<Rightarrow> ide_pio_write wait d ws count (p_start part + lba) s)"

section \<open>Identification and partitions\<close>

fun swap_loop :: "nat \<Rightarrow> nat \<Rightarrow> u8 list \<Rightarrow> u8 list res" where
  "swap_loop 0 i xs = Inr xs"
| "swap_loop (Suc n) i xs =
     bindE (rd xs i) (\<lambda>a. bindE (rd xs (i + 1)) (\<lambda>b. swap_loop n (i + 2) (xs[i := b, i + 1 := a])))"

definition ide_swap_pairs :: "u8 list \<Rightarrow> u32 \<Rightarrow> u8 list res" where
  "ide_swap_pairs buf len =
     bindE (swap_loop ((unat len + 1) div 2) 0 buf) (\<lambda>buf. wr buf (unat (len - 1)) 0)"

text \<open>Words of the parameter block; the strings in it are put in order for the log only.\<close>

definition param_word :: "u16 list \<Rightarrow> nat \<Rightarrow> u32" where "param_word ws i = ucast (ws ! i)"

definition ide_identify :: "nat \<times> nat \<Rightarrow> ('h, 'a) ide_state_scheme \<Rightarrow> (u32 \<times> ('h, 'a) ide_state_scheme) res" where
  "ide_identify d s =
     (let lock = c_lock (controllers s ! fst d) in
      bindE (lock_acquire lock s) (\<lambda>(got, s).
      if \<not> got then Inl NoReturn
      else
        let s = ide_select_drive d s;
            s = io_outb (iobase (fst d) s + IDE_COMMAND) IDE_CMD_IDENTIFY s in
        bindE (returns (ide_busy_wait (fst d) IDE_SR_NULL s)) (\<lambda>s.
        let (ws, s) = ide_pio_read_sector d s;
            total = param_word ws 60 OR push_bit 16 (param_word ws 61) in
        if total = 0 then bindE (lock_release lock s) (\<lambda>s. Inr (EOF, s))
        else
          let s = upd_disk d (\<lambda>k. k\<lparr>k_total_lba := total, k_cylinders := param_word ws 1, k_heads := param_word ws 3,
                k_sectors := param_word ws 6\<rparr>) s in
          bindE (lock_release lock s) (\<lambda>s. Inr (0, s)))))"

text \<open>The bytes of the words of a sector.\<close>

definition word_bytes :: "u16 list \<Rightarrow> u8 list" where
  "word_bytes ws = concat (map (\<lambda>w. [ucast w, ucast (drop_bit 8 w)]) ws)"

definition byte_word32 :: "u8 list \<Rightarrow> nat \<Rightarrow> u32" where
  "byte_word32 xs i = ucast (xs ! i) OR push_bit 8 (ucast (xs ! (i + 1))) OR push_bit 16 (ucast (xs ! (i + 2)))
     OR push_bit 24 (ucast (xs ! (i + 3)))"

text \<open>An entry of the partition table is 16 bytes, from byte 446 on.\<close>

definition entry_system :: "u8 list \<Rightarrow> nat \<Rightarrow> u32" where "entry_system xs i = ucast (xs ! (446 + 16 * i + 4))"
definition entry_start :: "u8 list \<Rightarrow> nat \<Rightarrow> u32" where "entry_start xs i = byte_word32 xs (446 + 16 * i + 8)"
definition entry_count :: "u8 list \<Rightarrow> nat \<Rightarrow> u32" where "entry_count xs i = byte_word32 xs (446 + 16 * i + 12)"

text \<open>\<^verbatim>\<open>%s%d\<close> with its terminator.\<close>

definition part_format :: "u8 list" where "part_format = [0x25, 0x73, 0x25, 0x64, 0]"

definition init_part :: "(('h, 'a) ide_state_scheme \<Rightarrow> ('h, 'a) ide_state_scheme res) \<Rightarrow> nat \<times> nat \<Rightarrow> u8 list \<Rightarrow> nat
    \<Rightarrow> ('h, 'a) ide_state_scheme \<Rightarrow> ('h, 'a) ide_state_scheme res" where
  "init_part wait d xs i s =
     (if entry_count xs i = 0 then Inr s
      else
        let k = the_disk d s; part = k_parts k ! i in
        bindE (sprintf (p_name part) part_format [AStr (k_name k), ANum (of_nat i + 1)]) (\<lambda>(n, name, u).
        let s = upd_disk d (\<lambda>k. k\<lparr>k_parts := (k_parts k)[i := part\<lparr>p_name := name, p_disk := Some d,
              p_count := entry_count xs i, p_system := entry_system xs i, p_start := entry_start xs i\<rparr>]\<rparr>) s in
        if entry_system xs i = PART_FS_EXTENDED then
          bindE (ide_pio_read wait d 1 (entry_start xs i) s) (\<lambda>(ws, s). Inr s)
        else Inr s))"

definition ide_part_init :: "(('h, 'a) ide_state_scheme \<Rightarrow> ('h, 'a) ide_state_scheme res) \<Rightarrow> nat \<times> nat
    \<Rightarrow> ('h, 'a) ide_state_scheme \<Rightarrow> ('h, 'a) ide_state_scheme res" where
  "ide_part_init wait d s =
     (if k_total_lba (the_disk d s) = 0 then Inr s
      else
        bindE (ide_pio_read wait d 1 0 s) (\<lambda>(ws, s).
        foldE (init_part wait d (word_bytes ws)) [0..<IDE_PART_NR] s))"

text \<open>\<^verbatim>\<open>ide%u\<close> and \<^verbatim>\<open>hd%c\<close>.\<close>

definition ctrl_format :: "u8 list" where "ctrl_format = [0x69, 0x64, 0x65, 0x25, 0x75, 0]"
definition disk_format :: "u8 list" where "disk_format = [0x68, 0x64, 0x25, 0x63, 0]"

definition init_disk :: "(('h, 'a) ide_state_scheme \<Rightarrow> ('h, 'a) ide_state_scheme res) \<Rightarrow> nat \<Rightarrow> nat
    \<Rightarrow> ('h, 'a) ide_state_scheme \<Rightarrow> ('h, 'a) ide_state_scheme res" where
  "init_disk wait c i s =
     (let d = (c, i) in
      bindE (sprintf (k_name (the_disk d s)) disk_format [ANum (0x61 + of_nat c * 2 + of_nat i)]) (\<lambda>(n, name, u).
      let s = upd_disk d (\<lambda>k. k\<lparr>k_name := name, k_master := (i = 0),
            k_selector := (if i = 0 then IDE_LBA_MASTER else IDE_LBA_SLAVE)\<rparr>) s in
      bindE (ide_identify d s) (\<lambda>(r, s). ide_part_init wait d s)))"

definition init_ctrl :: "(('h, 'a) ide_state_scheme \<Rightarrow> ('h, 'a) ide_state_scheme res) \<Rightarrow> nat
    \<Rightarrow> ('h, 'a) ide_state_scheme \<Rightarrow> ('h, 'a) ide_state_scheme res" where
  "init_ctrl wait c s =
     bindE (sprintf (c_name (controllers s ! c)) ctrl_format [ANum (of_nat c)]) (\<lambda>(n, name, u).
     let s = upd_ctrl c (\<lambda>t. t\<lparr>c_name := name\<rparr>) s;
         s = lock_init (c_lock (controllers s ! c)) s;
         s = upd_ctrl c (\<lambda>t. t\<lparr>c_active := None, c_waiter := None,
               c_iobase := (if c \<noteq> 0 then IDE_IOBASE_SECONDARY else IDE_IOBASE_PRIMARY)\<rparr>) s;
         (v, s) = io_inb (iobase c s + IDE_CONTROL) s;
         s = upd_ctrl c (\<lambda>t. t\<lparr>c_control := v\<rparr>) s
     in foldE (init_disk wait c) [0..<IDE_DISK_NR] s)"

definition ide_ctrl_init :: "(('h, 'a) ide_state_scheme \<Rightarrow> ('h, 'a) ide_state_scheme res)
    \<Rightarrow> ('h, 'a) ide_state_scheme \<Rightarrow> ('h, 'a) ide_state_scheme res" where
  "ide_ctrl_init wait s = foldE (init_ctrl wait) [0..<IDE_CTRL_NR] s"

text \<open>The devices get the driver's functions, given as \<open>disk_ops\<close> and \<open>part_ops\<close>, and the address of the disk or
  partition they are for (\<open>ptr\<close>).\<close>

type_synonym 'w ops_t = "'w ioctl_t \<times> 'w transfer_t \<times> 'w transfer_t"

definition install_part :: "'w ops_t \<Rightarrow> (nat \<times> nat \<times> nat \<Rightarrow> u32) \<Rightarrow> nat \<times> nat \<Rightarrow> u32 \<Rightarrow> ('h, 'a) ide_state_scheme \<Rightarrow> nat
    \<Rightarrow> ('w, 'b) dev_state_scheme \<Rightarrow> ('w, 'b) dev_state_scheme res" where
  "install_part ops ptr d dev s i ds =
     (let part = k_parts (the_disk d s) ! i; (ioctl, rdf, wrf) = ops in
      if p_count part = 0 then Inr ds
      else
        bindE (device_install DEV_BLOCK DEV_IDE_PART (ptr (fst d, snd d, Suc i)) (p_name part) dev
                 (Some ioctl) (Some rdf) (Some wrf) ds) (\<lambda>(r, ds). Inr ds))"

definition install_disk :: "'w ops_t \<Rightarrow> 'w ops_t \<Rightarrow> (nat \<times> nat \<times> nat \<Rightarrow> u32) \<Rightarrow> ('h, 'a) ide_state_scheme \<Rightarrow> nat \<times> nat
    \<Rightarrow> ('w, 'b) dev_state_scheme \<Rightarrow> ('w, 'b) dev_state_scheme res" where
  "install_disk disk_ops part_ops ptr s d ds =
     (let k = the_disk d s; (ioctl, rdf, wrf) = disk_ops in
      if k_total_lba k = 0 then Inr ds
      else
        bindE (device_install DEV_BLOCK DEV_IDE_DISK (ptr (fst d, snd d, 0)) (k_name k) 0
                 (Some ioctl) (Some rdf) (Some wrf) ds) (\<lambda>(dev, ds).
        foldE (install_part part_ops ptr d dev s) [0..<IDE_PART_NR] ds))"

definition ide_install :: "'w ops_t \<Rightarrow> 'w ops_t \<Rightarrow> (nat \<times> nat \<times> nat \<Rightarrow> u32) \<Rightarrow> ('h, 'a) ide_state_scheme
    \<Rightarrow> ('w, 'b) dev_state_scheme \<Rightarrow> ('w, 'b) dev_state_scheme res" where
  "ide_install disk_ops part_ops ptr s ds =
     foldE (install_disk disk_ops part_ops ptr s)
       (concat (map (\<lambda>c. map (\<lambda>i. (c, i)) [0..<IDE_DISK_NR]) [0..<IDE_CTRL_NR])) ds"

text \<open>\<open>handler\<close> is the address of \<open>ide_handler\<close>.\<close>

definition ide_init :: "(('h, 'a) ide_state_scheme \<Rightarrow> ('h, 'a) ide_state_scheme res) \<Rightarrow> 'w ops_t \<Rightarrow> 'w ops_t
    \<Rightarrow> (nat \<times> nat \<times> nat \<Rightarrow> u32) \<Rightarrow> u32 \<Rightarrow> idt_state \<Rightarrow> ('w, 'b) dev_state_scheme \<Rightarrow> ('h, 'a) ide_state_scheme
    \<Rightarrow> (idt_state \<times> ('w, 'b) dev_state_scheme \<times> ('h, 'a) ide_state_scheme) res" where
  "ide_init wait disk_ops part_ops ptr handler t ds s =
     bindE (ide_ctrl_init wait s) (\<lambda>s.
     bindE (ide_install disk_ops part_ops ptr s ds) (\<lambda>ds.
     bindE (set_interrupt_handler IRQ_HARDDISK (Handler handler) t) (\<lambda>t.
     bindE (set_interrupt_handler IRQ_HARDDISK2 (Handler handler) t) (\<lambda>t.
     bindE (set_interrupt_mask IRQ_HARDDISK True s) (\<lambda>s.
     bindE (set_interrupt_mask IRQ_HARDDISK2 True s) (\<lambda>s.
     bindE (set_interrupt_mask IRQ_CASCADE True s) (\<lambda>s.
     Inr (t, ds, s))))))))"

end
