(* ===== verification/Ata.thy ===== *)
theory Ata
  imports Ide Buffer
begin

text \<open>
  The disk driver against a disk. The device is the one the driver's commands are documented for (28-bit addresses,
  programmed input and output): registers that keep the bytes written to them, a queue of words for each command, and
  two drives of words, 256 to a sector. The kernel is taken while it is being set up, when no task runs yet and the
  driver only polls.
\<close>

section \<open>The device\<close>

record ata_t =
  a_count_reg :: u8
  a_low :: u8
  a_mid :: u8
  a_high :: u8
  a_dev :: u8
  a_data :: "u16 list"
  a_left :: nat
  a_next :: nat
  a_words :: "bool \<Rightarrow> nat \<Rightarrow> u16"

definition ata_lba :: "ata_t \<Rightarrow> nat" where
  "ata_lba a = unat (a_low a) + 2 ^ 8 * unat (a_mid a) + 2 ^ 16 * unat (a_high a) + 2 ^ 24 * unat (a_dev a AND 0xf)"

definition ata_slave :: "ata_t \<Rightarrow> bool" where "ata_slave a = bit (a_dev a) 4"

text \<open>The number of sectors; 0 stands for 256.\<close>

definition ata_sectors :: "ata_t \<Rightarrow> nat" where
  "ata_sectors a = (if a_count_reg a = 0 then 256 else unat (a_count_reg a))"

definition ata_command :: "u8 \<Rightarrow> ata_t \<Rightarrow> ata_t" where
  "ata_command v a =
     (if v = 0x20 then
        a\<lparr>a_data := map (a_words a (ata_slave a)) [256 * ata_lba a ..< 256 * (ata_lba a + ata_sectors a)], a_left := 0\<rparr>
      else if v = 0x30 then a\<lparr>a_data := [], a_left := 256 * ata_sectors a, a_next := 256 * ata_lba a\<rparr>
      else a)"

definition ata_out8 :: "u16 \<Rightarrow> u16 \<Rightarrow> u8 \<Rightarrow> ata_t \<Rightarrow> ata_t" where
  "ata_out8 base p v a =
     (let r = p - base in
      if r = 2 then a\<lparr>a_count_reg := v\<rparr> else if r = 3 then a\<lparr>a_low := v\<rparr> else if r = 4 then a\<lparr>a_mid := v\<rparr>
      else if r = 5 then a\<lparr>a_high := v\<rparr> else if r = 6 then a\<lparr>a_dev := v\<rparr> else if r = 7 then ata_command v a else a)"

text \<open>Ready at once; a request for data as long as words are to be moved.\<close>

definition ata_in8 :: "u16 \<Rightarrow> u16 \<Rightarrow> ata_t \<Rightarrow> u8 \<times> ata_t" where
  "ata_in8 base p a =
     (if p - base \<in> {7, 0x206} then (if a_data a = [] \<and> a_left a = 0 then 0x40 else 0x48, a) else (0, a))"

definition ata_in16 :: "u16 \<Rightarrow> u16 \<Rightarrow> ata_t \<Rightarrow> u16 \<times> ata_t" where
  "ata_in16 base p a =
     (case a_data a of [] \<Rightarrow> (0, a) | w # ws \<Rightarrow> if p = base then (w, a\<lparr>a_data := ws\<rparr>) else (0, a))"

definition ata_out16 :: "u16 \<Rightarrow> u16 \<Rightarrow> u16 \<Rightarrow> ata_t \<Rightarrow> ata_t" where
  "ata_out16 base p v a =
     (if p = base \<and> a_left a > 0 then
        a\<lparr>a_words := (a_words a)(ata_slave a := (a_words a (ata_slave a))(a_next a := v)),
          a_next := a_next a + 1, a_left := a_left a - 1\<rparr>
      else a)"

section \<open>The driver's state\<close>

text \<open>The controller of \<open>d\<close> has the device behind its ports, its lock is free, and no task runs yet.\<close>

definition ata_ready :: "nat \<times> nat \<Rightarrow> (ata_t, 'a) ide_state_scheme \<Rightarrow> bool" where
  "ata_ready d s \<longleftrightarrow> fst d < length (controllers s)
     \<and> in8 s = ata_in8 (iobase (fst d) s) \<and> in16 s = ata_in16 (iobase (fst d) s)
     \<and> out8 s = ata_out8 (iobase (fst d) s) \<and> out16 s = ata_out16 (iobase (fst d) s)
     \<and> k_selector (the_disk d s) \<in> {IDE_LBA_MASTER, IDE_LBA_SLAVE}
     \<and> free_lock s (c_lock (controllers s ! fst d)) \<and> list_empty (Waiters (c_lock (controllers s ! fst d))) (nodes s)
     \<and> \<not> intr s \<and> t_state (tasks s (current s)) \<noteq> TASK_RUNNING"

text \<open>Words of a disk.\<close>

definition disk_words :: "nat \<times> nat \<Rightarrow> (ata_t, 'a) ide_state_scheme \<Rightarrow> nat \<Rightarrow> u16" where
  "disk_words d s = a_words (hw s) (k_selector (the_disk d s) = IDE_LBA_SLAVE)"

text \<open>A state in which only the device and the active disk of the controller differ from \<open>s\<close>.\<close>

definition on_hw :: "nat \<Rightarrow> ata_t \<Rightarrow> (nat \<times> nat) option \<Rightarrow> (ata_t, 'a) ide_state_scheme \<Rightarrow> (ata_t, 'a) ide_state_scheme" where
  "on_hw c a act s = s\<lparr>hw := a, controllers := (controllers s)[c := (controllers s ! c)\<lparr>c_active := act\<rparr>]\<rparr>"

lemma on_hw_simps [simp]:
  "hw (on_hw c a act s) = a" "in8 (on_hw c a act s) = in8 s" "in16 (on_hw c a act s) = in16 s"
  "out8 (on_hw c a act s) = out8 s" "out16 (on_hw c a act s) = out16 s" "current (on_hw c a act s) = current s"
  "tasks (on_hw c a act s) = tasks s" "nodes (on_hw c a act s) = nodes s" "intr (on_hw c a act s) = intr s"
  "mutex_value (on_hw c a act s) = mutex_value s" "lock_holder (on_hw c a act s) = lock_holder s"
  "lock_repeat (on_hw c a act s) = lock_repeat s" "length (controllers (on_hw c a act s)) = length (controllers s)"
  by (simp_all add: on_hw_def)

lemma on_hw_ctrl [simp]:
  assumes "c < length (controllers s)"
  shows "c_iobase (controllers (on_hw c a act s) ! c) = c_iobase (controllers s ! c)"
    "c_disks (controllers (on_hw c a act s) ! c) = c_disks (controllers s ! c)"
    "c_lock (controllers (on_hw c a act s) ! c) = c_lock (controllers s ! c)"
    "iobase c (on_hw c a act s) = iobase c s"
  using assms by (simp_all add: on_hw_def iobase_def)

lemma on_hw_disk [simp]: "fst d < length (controllers s) \<Longrightarrow> the_disk d (on_hw (fst d) a act s) = the_disk d s"
  by (simp add: the_disk_def)

lemma on_hw_again [simp]:
  "c < length (controllers s) \<Longrightarrow> upd_ctrl c (\<lambda>t. t\<lparr>c_active := act'\<rparr>) (on_hw c a act s) = on_hw c a act' s"
  by (simp add: on_hw_def upd_ctrl_def)

lemma on_hw_self: "c < length (controllers s) \<Longrightarrow> on_hw c (hw s) (c_active (controllers s ! c)) s = s"
  by (simp add: on_hw_def)

lemma on_hw_io [simp]:
  "io_outb p v (on_hw c a act s) = on_hw c (out8 s p v a) act s"
  "io_outw p w (on_hw c a act s) = on_hw c (out16 s p w a) act s"
  "io_inb p (on_hw c a act s) = (fst (in8 s p a), on_hw c (snd (in8 s p a)) act s)"
  "io_inw p (on_hw c a act s) = (fst (in16 s p a), on_hw c (snd (in16 s p a)) act s)"
  by (simp_all add: io_outb_def io_outw_def io_inb_def io_inw_def on_hw_def case_prod_beta)

text \<open>The ports of a controller with the device.\<close>

definition attached :: "nat \<Rightarrow> (ata_t, 'a) ide_state_scheme \<Rightarrow> bool" where
  "attached c s \<longleftrightarrow> c < length (controllers s)
     \<and> in8 s = ata_in8 (iobase c s) \<and> in16 s = ata_in16 (iobase c s)
     \<and> out8 s = ata_out8 (iobase c s) \<and> out16 s = ata_out16 (iobase c s)"

lemma attachedD:
  "attached c s \<Longrightarrow> c < length (controllers s)" "attached c s \<Longrightarrow> in8 s = ata_in8 (iobase c s)"
  "attached c s \<Longrightarrow> in16 s = ata_in16 (iobase c s)" "attached c s \<Longrightarrow> out8 s = ata_out8 (iobase c s)"
  "attached c s \<Longrightarrow> out16 s = ata_out16 (iobase c s)"
  by (simp_all add: attached_def)

lemma ata_regs:
  "ata_out8 b (b + 1) v a = a" "ata_out8 b (b + 2) v a = a\<lparr>a_count_reg := v\<rparr>" "ata_out8 b (b + 3) v a = a\<lparr>a_low := v\<rparr>"
  "ata_out8 b (b + 4) v a = a\<lparr>a_mid := v\<rparr>" "ata_out8 b (b + 5) v a = a\<lparr>a_high := v\<rparr>"
  "ata_out8 b (b + 6) v a = a\<lparr>a_dev := v\<rparr>" "ata_out8 b (b + 7) v a = ata_command v a"
  "ata_in8 b (b + 0x206) a = (if a_data a = [] \<and> a_left a = 0 then 0x40 else 0x48, a)"
  by (simp_all add: ata_out8_def ata_in8_def)

section \<open>Waiting and selecting\<close>

lemma busy_wait_ready:
  assumes at: "attached c s"
    and "bits \<in> {IDE_SR_NULL, IDE_SR_DRDY} \<or> bits = IDE_SR_DRQ \<and> (a_data a \<noteq> [] \<or> 0 < a_left a)"
  shows "ide_busy_wait c bits (on_hw c a act s) = Some (Inr (on_hw c a act s))"
proof -
  note A = attachedD [OF at]
  have "io_inb (iobase c (on_hw c a act s) + IDE_ALT_STATUS) (on_hw c a act s)
      = (if a_data a = [] \<and> a_left a = 0 then 0x40 else 0x48, on_hw c a act s)"
    using A(1) by (simp add: A(2) IDE_ALT_STATUS_def ata_regs)
  then show ?thesis
    using assms(2) by (subst ide_busy_wait.simps) (auto simp: IDE_SR_ERR_def IDE_SR_BSY_def IDE_SR_NULL_def IDE_SR_DRDY_def IDE_SR_DRQ_def)
qed

text \<open>The registers after an address has been selected: they give it back.\<close>

definition selected :: "nat \<times> nat \<Rightarrow> u32 \<Rightarrow> u8 \<Rightarrow> (ata_t, 'a) ide_state_scheme \<Rightarrow> ata_t \<Rightarrow> ata_t" where
  "selected d lba count s a = a\<lparr>a_count_reg := count, a_low := ucast (lba AND 0xff), a_mid := ucast (drop_bit 8 lba AND 0xff),
     a_high := ucast (drop_bit 16 lba AND 0xff), a_dev := ucast (drop_bit 24 lba AND 0xf) OR k_selector (the_disk d s)\<rparr>"

lemma select_drive_hw:
  assumes "attached (fst d) s"
  shows "ide_select_drive d (on_hw (fst d) a act s) = on_hw (fst d) (a\<lparr>a_dev := k_selector (the_disk d s)\<rparr>) (Some d) s"
  using attachedD [OF assms] by (simp add: ide_select_drive_def IDE_HDDEVSEL_def ata_regs)

lemma select_sector_hw:
  assumes "attached (fst d) s"
  shows "ide_select_sector d lba count (on_hw (fst d) a act s) = on_hw (fst d) (selected d lba count s a) (Some d) s"
  using attachedD [OF assms]
  by (simp add: ide_select_sector_def Let_def IDE_FEATURE_def IDE_SECTOR_def IDE_LBA_LOW_def IDE_LBA_MID_def IDE_LBA_HIGH_def
    IDE_HDDEVSEL_def ata_regs selected_def)

lemma ucast_byte: "unat (ucast (drop_bit k (lba :: u32) AND 0xff) :: u8) = unat lba div 2 ^ k mod 256"
proof -
  have "drop_bit k lba AND 0xff = take_bit 8 (drop_bit k lba)" by (simp add: take_bit_eq_mask mask_eq_exp_minus_1)
  moreover have "unat lba mod 4294967296 = unat lba" using u32_bound [of lba] by simp
  ultimately show ?thesis
    by (simp only: unsigned_ucast_eq unsigned_take_bit_eq unsigned_drop_bit_eq) (simp add: take_bit_eq_mod drop_bit_eq_div)
qed

lemma ucast_nibble: "unat (ucast (drop_bit 24 (lba :: u32) AND 0xf) :: u8) = unat lba div 2 ^ 24 mod 16"
proof -
  have "drop_bit 24 lba AND 0xf = take_bit 4 (drop_bit 24 lba)" by (simp add: take_bit_eq_mask mask_eq_exp_minus_1)
  moreover have "unat lba mod 4294967296 = unat lba" using u32_bound [of lba] by simp
  ultimately show ?thesis
    by (simp only: unsigned_ucast_eq unsigned_take_bit_eq unsigned_drop_bit_eq) (simp add: take_bit_eq_mod drop_bit_eq_div)
qed

lemma nibble_bits: "bit (ucast (w AND 0xf :: u32) :: u8) i \<Longrightarrow> i < 4"
proof -
  have "w AND 0xf = take_bit 4 w" by (simp add: take_bit_eq_mask mask_eq_exp_minus_1)
  then show "bit (ucast (w AND 0xf :: u32) :: u8) i \<Longrightarrow> i < 4" by (auto simp: bit_simps)
qed

lemma byte_parts: "n < 2 ^ 28 \<Longrightarrow> n mod 256 + 2 ^ 8 * (n div 2 ^ 8 mod 256) + 2 ^ 16 * (n div 2 ^ 16 mod 256)
    + 2 ^ 24 * (n div 2 ^ 24 mod 16) = (n :: nat)"
proof -
  assume n: "n < 2 ^ 28"
  have "n mod 65536 = 256 * (n div 256 mod 256) + n mod 256" using mod_mult2_eq [of n 256 256] by simp
  moreover have "n mod 16777216 = 65536 * (n div 65536 mod 256) + n mod 65536" using mod_mult2_eq [of n 65536 256] by simp
  moreover have "n div 16777216 mod 16 = n div 16777216" using n by (intro mod_less) simp
  moreover have "16777216 * (n div 16777216) + n mod 16777216 = n" by simp
  ultimately show ?thesis by simp
qed

lemma selected_lba:
  assumes "unat lba < 2 ^ 28" and "k_selector (the_disk d s) \<in> {IDE_LBA_MASTER, IDE_LBA_SLAVE}"
  shows "ata_lba (selected d lba count s a) = unat lba"
    and "ata_slave (selected d lba count s a) \<longleftrightarrow> k_selector (the_disk d s) = IDE_LBA_SLAVE"
proof -
  let ?x = "ucast (drop_bit 24 lba AND 0xf) :: u8" and ?k = "k_selector (the_disk d s)"
  have "?k AND 0xf = 0" using assms(2) by (auto simp: IDE_LBA_MASTER_def IDE_LBA_SLAVE_def)
  moreover have "?x AND 0xf = ?x"
  proof (rule bit_word_eqI)
    fix n assume "n < LENGTH(8)"
    have m: "(0xf :: u8) = mask 4" by (simp add: mask_eq_exp_minus_1)
    show "bit (?x AND 0xf) n = bit ?x n" using nibble_bits [of "drop_bit 24 lba" n] unfolding m by (auto simp: bit_and_iff bit_mask_iff)
  qed
  ultimately have "(?x OR ?k) AND 0xf = ?x" by (simp add: bit.conj_disj_distrib2)
  then have "unat (a_dev (selected d lba count s a) AND 0xf) = unat lba div 2 ^ 24 mod 16"
    using ucast_nibble [of lba] by (simp add: selected_def)
  then show "ata_lba (selected d lba count s a) = unat lba"
    using ucast_byte [of 0 lba] ucast_byte [of 8 lba] ucast_byte [of 16 lba] byte_parts [OF assms(1)]
    by (simp add: ata_lba_def selected_def)
  have "\<not> bit ?x 4" using nibble_bits by blast
  moreover have "bit ?k 4 \<longleftrightarrow> ?k = IDE_LBA_SLAVE"
    using assms(2) by (auto simp: IDE_LBA_MASTER_def IDE_LBA_SLAVE_def bit_numeral_rec)
  ultimately show "ata_slave (selected d lba count s a) \<longleftrightarrow> ?k = IDE_LBA_SLAVE"
    by (simp add: ata_slave_def selected_def bit_or_iff)
qed

section \<open>Sectors\<close>

lemma read_words_queue:
  assumes "attached (fst d) s" and "n \<le> length (a_data a)"
  shows "read_words n d (on_hw (fst d) a act s) = (take n (a_data a), on_hw (fst d) (a\<lparr>a_data := drop n (a_data a)\<rparr>) act s)"
  using assms(2)
proof (induction n arbitrary: a)
  case 0
  then show ?case by simp
next
  case (Suc n)
  note A = attachedD [OF assms(1)]
  from Suc.prems obtain w ws where a: "a_data a = w # ws" by (cases "a_data a") auto
  have "io_inw (iobase (fst d) (on_hw (fst d) a act s) + IDE_DATA) (on_hw (fst d) a act s)
      = (w, on_hw (fst d) (a\<lparr>a_data := ws\<rparr>) act s)"
    using A(1) by (simp add: A(3) ata_in16_def a IDE_DATA_def)
  then show ?case using Suc.IH [of "a\<lparr>a_data := ws\<rparr>"] Suc.prems by (simp add: a)
qed

lemma read_sectors_queue:
  assumes at: "attached (fst d) s" and run: "t_state (tasks s (current s)) \<noteq> TASK_RUNNING"
    and "256 * n \<le> length (a_data a)"
  shows "read_sectors n wait d (on_hw (fst d) a act s)
    = Inr (take (256 * n) (a_data a), on_hw (fst d) (a\<lparr>a_data := drop (256 * n) (a_data a)\<rparr>) act s)"
  using assms(3)
proof (induction n arbitrary: a)
  case 0
  then show ?case by simp
next
  case (Suc n)
  have "a_data a \<noteq> []" using Suc.prems by auto
  then have b: "ide_busy_wait (fst d) IDE_SR_DRQ (on_hw (fst d) a act s) = Some (Inr (on_hw (fst d) a act s))"
    by (intro busy_wait_ready [OF at]) simp
  have p: "ide_pause wait (fst d) (on_hw (fst d) a act s) = Inr (on_hw (fst d) a act s)"
    using run by (simp add: ide_pause_def Let_def)
  have r: "ide_pio_read_sector d (on_hw (fst d) a act s)
      = (take 256 (a_data a), on_hw (fst d) (a\<lparr>a_data := drop 256 (a_data a)\<rparr>) act s)"
    using read_words_queue [OF at, of 256 a] Suc.prems by (simp add: ide_pio_read_sector_def Ide.SECTOR_SIZE_def)
  have "take (256 * Suc n) (a_data a) = take 256 (a_data a) @ take (256 * n) (drop 256 (a_data a))"
    using take_add [of 256 "256 * n" "a_data a"] by simp
  then show ?case using Suc.IH [of "a\<lparr>a_data := drop 256 (a_data a)\<rparr>"] Suc.prems by (simp add: b p r add.commute)
qed

text \<open>The device after the words \<open>ws\<close> of a write have been given to it.\<close>

definition stored :: "u16 list \<Rightarrow> ata_t \<Rightarrow> ata_t" where
  "stored ws a = a\<lparr>a_words := (a_words a)(ata_slave a := (\<lambda>i. if a_next a \<le> i \<and> i < a_next a + length ws
       then ws ! (i - a_next a) else a_words a (ata_slave a) i)),
     a_next := a_next a + length ws, a_left := a_left a - length ws\<rparr>"

lemma stored_Nil: "stored [] a = a"
proof -
  have "(a_words a)(ata_slave a := (\<lambda>i. if a_next a \<le> i \<and> i < a_next a then [] ! (i - a_next a) else a_words a (ata_slave a) i))
      = a_words a" by (auto simp: fun_eq_iff)
  then show ?thesis by (simp add: stored_def)
qed

lemma stored_slave [simp]: "ata_slave (stored ws a) = ata_slave a"
  by (simp add: stored_def ata_slave_def)

lemma stored_Cons: "stored ws (stored [v] a) = stored (v # ws) a"
  by (simp add: stored_def ata_slave_def fun_eq_iff nth_Cons')

lemma stored_append: "stored ws (stored vs a) = stored (vs @ ws) a"
proof (induction vs arbitrary: a)
  case Nil
  then show ?case by (simp add: stored_Nil)
next
  case (Cons v vs)
  show ?case using Cons.IH [of "stored [v] a"] by (simp add: stored_Cons)
qed

lemma write_words_stored:
  assumes "attached (fst d) s" and "length ws \<le> a_left a"
  shows "fold (\<lambda>v s. io_outw (iobase (fst d) s + IDE_DATA) v s) ws (on_hw (fst d) a act s) = on_hw (fst d) (stored ws a) act s"
  using assms(2)
proof (induction ws arbitrary: a)
  case Nil
  then show ?case by (simp add: stored_Nil)
next
  case (Cons v ws)
  note A = attachedD [OF assms(1)]
  have one: "ata_out16 (iobase (fst d) s) (iobase (fst d) s + IDE_DATA) v a = stored [v] a"
    using Cons.prems by (simp add: ata_out16_def IDE_DATA_def stored_def ata_slave_def fun_eq_iff)
  have "length ws \<le> a_left (stored [v] a)" using Cons.prems by (simp add: stored_def)
  from Cons.IH [OF this] show ?case using A(1) by (simp add: A(5) one stored_Cons)
qed

lemma write_sectors_stored:
  assumes at: "attached (fst d) s" and run: "t_state (tasks s (current s)) \<noteq> TASK_RUNNING"
    and "256 * n \<le> a_left a" and "256 * n \<le> length ws"
  shows "write_sectors n wait d ws (on_hw (fst d) a act s) = Inr (on_hw (fst d) (stored (take (256 * n) ws) a) act s)"
  using assms(3,4)
proof (induction n arbitrary: a ws)
  case 0
  then show ?case by (simp add: stored_Nil)
next
  case (Suc n)
  let ?b = "stored (take 256 ws) a"
  have "ide_pio_write_sector d ws (on_hw (fst d) a act s) = on_hw (fst d) ?b act s"
    unfolding ide_pio_write_sector_def using write_words_stored [OF at, of "take 256 ws" a] Suc.prems by (simp add: Ide.SECTOR_SIZE_def)
  moreover have "ide_pause wait (fst d) (on_hw (fst d) ?b act s) = Inr (on_hw (fst d) ?b act s)"
    using run by (simp add: ide_pause_def Let_def)
  moreover have "ide_busy_wait (fst d) IDE_SR_NULL (on_hw (fst d) ?b act s) = Some (Inr (on_hw (fst d) ?b act s))"
    by (intro busy_wait_ready [OF at]) simp
  moreover have "write_sectors n wait d (drop 256 ws) (on_hw (fst d) ?b act s)
      = Inr (on_hw (fst d) (stored (take (256 * n) (drop 256 ws)) ?b) act s)"
    by (rule Suc.IH) (use Suc.prems in \<open>simp_all add: stored_def\<close>)
  moreover have "take (256 * Suc n) ws = take 256 ws @ take (256 * n) (drop 256 ws)"
    using take_add [of 256 "256 * n" ws] by simp
  ultimately show ?case by (simp add: stored_append Ide.SECTOR_SIZE_def)
qed

section \<open>Whole requests\<close>

lemma locked_simps [simp]:
  "hw (locked l s) = hw s" "in8 (locked l s) = in8 s" "in16 (locked l s) = in16 s" "out8 (locked l s) = out8 s"
  "out16 (locked l s) = out16 s" "controllers (locked l s) = controllers s" "current (locked l s) = current s"
  "tasks (locked l s) = tasks s" "iobase c (locked l s) = iobase c s" "the_disk d (locked l s) = the_disk d s"
  by (simp_all add: locked_def iobase_def the_disk_def)

lemma release_hw:
  assumes "free_lock s l"
  shows "lock_release l (on_hw c a act (locked l s)) = Inr (on_hw c a act s)"
proof -
  let ?t = "on_hw c a act (locked l s)"
  have "lock_release l ?t = Inr (?t\<lparr>mutex_value := (mutex_value ?t)(l := False),
    lock_holder := (lock_holder ?t)(l := None), lock_repeat := (lock_repeat ?t)(l := 0)\<rparr>)"
    by (rule release_held) (use assms in \<open>simp_all add: locked_def free_lock_def\<close>)
  moreover have "mutex_value s l = False" "lock_holder s l = None" "lock_repeat s l = 0"
    using assms by (auto simp: free_lock_def)
  then have "(mutex_value s)(l := False) = mutex_value s" "(lock_holder s)(l := None) = lock_holder s"
    "(lock_repeat s)(l := 0) = lock_repeat s" by (auto simp: fun_eq_iff)
  ultimately show ?thesis by (cases s) (simp add: on_hw_def locked_def)
qed

lemma ata_readyD:
  assumes "ata_ready d s"
  shows "attached (fst d) s" "attached (fst d) (locked l s)" "k_selector (the_disk d s) \<in> {IDE_LBA_MASTER, IDE_LBA_SLAVE}"
    "free_lock s (c_lock (controllers s ! fst d))" "\<not> intr s" "t_state (tasks s (current s)) \<noteq> TASK_RUNNING"
    "fst d < length (controllers s)"
  using assms by (auto simp: ata_ready_def attached_def)

lemma ata_ready_hw: "ata_ready d s \<Longrightarrow> ata_ready d (on_hw (fst d) a act s)"
  by (simp add: ata_ready_def free_lock_def)

text \<open>The device when the command is out.\<close>

definition commanded :: "nat \<times> nat \<Rightarrow> u32 \<Rightarrow> u8 \<Rightarrow> u8 \<Rightarrow> (ata_t, 'a) ide_state_scheme \<Rightarrow> ata_t" where
  "commanded d lba count cmd s = ata_command cmd (selected d lba count s (hw s))"

lemma command_hw:
  assumes r: "ata_ready d s"
  shows "returns (ide_busy_wait (fst d) IDE_SR_DRDY (ide_select_drive d (locked l s)))
      = Inr (on_hw (fst d) ((hw s)\<lparr>a_dev := k_selector (the_disk d s)\<rparr>) (Some d) (locked l s))"
    and "out8 s (iobase (fst d) s + IDE_COMMAND) v (selected d lba count (locked l s) ((hw s)\<lparr>a_dev := x\<rparr>))
      = commanded d lba count v s"
proof -
  note at = ata_readyD(2) [OF r, of l] and A = attachedD [OF ata_readyD(2) [OF r, of l]]
  have self: "locked l s = on_hw (fst d) (hw s) (c_active (controllers s ! fst d)) (locked l s)"
    using on_hw_self [of "fst d" "locked l s"] A(1) by simp
  have "ide_select_drive d (locked l s) = on_hw (fst d) ((hw s)\<lparr>a_dev := k_selector (the_disk d s)\<rparr>) (Some d) (locked l s)"
    using select_drive_hw [OF at, of "hw s" "c_active (controllers s ! fst d)"] self by simp
  then show "returns (ide_busy_wait (fst d) IDE_SR_DRDY (ide_select_drive d (locked l s)))
      = Inr (on_hw (fst d) ((hw s)\<lparr>a_dev := k_selector (the_disk d s)\<rparr>) (Some d) (locked l s))"
    using busy_wait_ready [OF at] by simp
  show "out8 s (iobase (fst d) s + IDE_COMMAND) v (selected d lba count (locked l s) ((hw s)\<lparr>a_dev := x\<rparr>))
      = commanded d lba count v s"
    using attachedD(4) [OF ata_readyD(1) [OF r]] by (simp add: IDE_COMMAND_def ata_regs commanded_def selected_def)
qed

lemma commanded_words:
  assumes r: "ata_ready d s" and lba: "unat lba < 2 ^ 28" and "0 < count"
  shows "a_words (commanded d lba count cmd s) = a_words (hw s)"
    and "ata_slave (commanded d lba count cmd s) \<longleftrightarrow> k_selector (the_disk d s) = IDE_LBA_SLAVE"
    and "a_data (commanded d lba count IDE_CMD_READ s)
      = map (disk_words d s) [256 * unat lba ..< 256 * (unat lba + unat count)]"
    and "a_left (commanded d lba count IDE_CMD_WRITE s) = 256 * unat count"
    and "a_next (commanded d lba count IDE_CMD_WRITE s) = 256 * unat lba"
proof -
  note S = selected_lba [OF lba ata_readyD(3) [OF r]]
  have n: "ata_sectors (selected d lba count s (hw s)) = unat count" using assms(3) by (auto simp: ata_sectors_def selected_def)
  have w: "a_words (selected d lba count s (hw s)) = a_words (hw s)" by (simp add: selected_def)
  show "a_words (commanded d lba count cmd s) = a_words (hw s)" by (simp add: commanded_def ata_command_def w)
  have "ata_slave (commanded d lba count cmd s) = ata_slave (selected d lba count s (hw s))"
    by (simp add: commanded_def ata_command_def ata_slave_def)
  then show "ata_slave (commanded d lba count cmd s) \<longleftrightarrow> k_selector (the_disk d s) = IDE_LBA_SLAVE" by (simp add: S)
  show "a_data (commanded d lba count IDE_CMD_READ s)
      = map (disk_words d s) [256 * unat lba ..< 256 * (unat lba + unat count)]"
    by (simp add: commanded_def ata_command_def IDE_CMD_READ_def S n w disk_words_def)
  show "a_left (commanded d lba count IDE_CMD_WRITE s) = 256 * unat count"
    "a_next (commanded d lba count IDE_CMD_WRITE s) = 256 * unat lba"
    by (simp_all add: commanded_def ata_command_def IDE_CMD_WRITE_def S n)
qed

lemma pio_read_ok:
  assumes r: "ata_ready d s" and lba: "unat lba < 2 ^ 28" and n: "0 < count"
  shows "\<exists>a. ide_pio_read wait d count lba s
      = Inr (map (disk_words d s) [256 * unat lba ..< 256 * (unat lba + unat count)], on_hw (fst d) a (Some d) s)
    \<and> a_words a = a_words (hw s)"
proof -
  let ?l = "c_lock (controllers s ! fst d)"
  note R = ata_readyD [OF r] and C = commanded_words [OF r lba n]
  have len: "256 * unat count \<le> length (a_data (commanded d lba count IDE_CMD_READ s))" by (simp add: C(3) algebra_simps)
  have "read_sectors (unat count) wait d (on_hw (fst d) (commanded d lba count IDE_CMD_READ s) (Some d) (locked ?l s))
      = Inr (take (256 * unat count) (a_data (commanded d lba count IDE_CMD_READ s)), on_hw (fst d)
        ((commanded d lba count IDE_CMD_READ s)\<lparr>a_data := drop (256 * unat count) (a_data (commanded d lba count IDE_CMD_READ s))\<rparr>)
        (Some d) (locked ?l s))"
    by (rule read_sectors_queue [OF R(2) _ len]) (use R(6) in simp)
  then have "ide_pio_read wait d count lba s = Inr (take (256 * unat count) (a_data (commanded d lba count IDE_CMD_READ s)), on_hw (fst d)
        ((commanded d lba count IDE_CMD_READ s)\<lparr>a_data := drop (256 * unat count) (a_data (commanded d lba count IDE_CMD_READ s))\<rparr>)
        (Some d) s)"
    using n R(5,7) by (simp add: ide_pio_read_def Let_def acquire_free [OF R(4)] command_hw [OF r] select_sector_hw [OF R(2)]
      release_hw [OF R(4)])
  moreover have "take (256 * unat count) (a_data (commanded d lba count IDE_CMD_READ s))
      = map (disk_words d s) [256 * unat lba ..< 256 * (unat lba + unat count)]"
    unfolding C(3) by (rule take_all) (simp add: algebra_simps)
  moreover have "a_words ((commanded d lba count IDE_CMD_READ s)\<lparr>a_data := drop (256 * unat count)
      (a_data (commanded d lba count IDE_CMD_READ s))\<rparr>) = a_words (hw s)" using C(1) by simp
  ultimately show ?thesis by (metis (no_types))
qed

lemma pio_write_ok:
  assumes r: "ata_ready d s" and lba: "unat lba < 2 ^ 28" and n: "0 < count" and "256 * unat count \<le> length ws"
  shows "ide_pio_write wait d ws count lba s
    = Inr (on_hw (fst d) (stored (take (256 * unat count) ws) (commanded d lba count IDE_CMD_WRITE s)) (Some d) s)"
proof -
  let ?l = "c_lock (controllers s ! fst d)"
  note R = ata_readyD [OF r] and C = commanded_words [OF r lba n]
  have "write_sectors (unat count) wait d ws (on_hw (fst d) (commanded d lba count IDE_CMD_WRITE s) (Some d) (locked ?l s))
      = Inr (on_hw (fst d) (stored (take (256 * unat count) ws) (commanded d lba count IDE_CMD_WRITE s)) (Some d) (locked ?l s))"
    by (rule write_sectors_stored [OF R(2)]) (use R(6) C(4) assms(4) in simp_all)
  then show ?thesis
    using n R(5,7) by (simp add: ide_pio_write_def Let_def acquire_free [OF R(4)] command_hw [OF r] select_sector_hw [OF R(2)]
      release_hw [OF R(4)])
qed

section \<open>An example\<close>

text \<open>Two drives on the first controller, both with words that name their place, and no task.\<close>

definition example_drive :: "u8 \<Rightarrow> bool \<Rightarrow> ide_disk_t" where
  "example_drive sel m = \<lparr>k_name = [], k_selector = sel, k_master = m, k_total_lba = 1000, k_cylinders = 0, k_heads = 0,
     k_sectors = 0, k_parts = []\<rparr>"

definition example_ide :: "ata_t ide_state" where
  "example_ide = lock_state.extend (example_lock\<lparr>tasks := \<lambda>_. example_task TASK_INIT, intr := False\<rparr>)
     \<lparr>controllers = [\<lparr>c_name = [], c_lock = 3, c_iobase = IDE_IOBASE_PRIMARY,
        c_disks = [example_drive IDE_LBA_MASTER True, example_drive IDE_LBA_SLAVE False],
        c_active = None, c_control = 0, c_waiter = None\<rparr>],
      hw = \<lparr>a_count_reg = 0, a_low = 0, a_mid = 0, a_high = 0, a_dev = 0, a_data = [], a_left = 0, a_next = 0,
        a_words = \<lambda>m i. of_nat i\<rparr>,
      in8 = ata_in8 IDE_IOBASE_PRIMARY, in16 = ata_in16 IDE_IOBASE_PRIMARY, out8 = ata_out8 IDE_IOBASE_PRIMARY,
      out16 = ata_out16 IDE_IOBASE_PRIMARY\<rparr>"

lemma example_ide_ready: "ata_ready (0, 1) example_ide"
  by (simp add: ata_ready_def example_ide_def lock_state.defs iobase_def the_disk_def example_drive_def free_lock_def
    example_lock_def example_task_def list_empty_def kernel_t.defs example_sched_def no_nodes_def)

section \<open>Properties\<close>



end
