(* ===== verification/Shell.thy ===== *)
theory Shell
  imports File Format
begin

text \<open>
  The shell (\<^verbatim>\<open>builtin/osh.c\<close>) with \<^verbatim>\<open>printf\<close> (\<^verbatim>\<open>lib/printf.c\<close>) and the system calls as
  \<^verbatim>\<open>lib/syscall.c\<close> offers them. The shell runs in user mode: what the calls do is a parameter, a record of
  functions on the kernel's state; \<open>kernel_calls\<close> gives those of the file system model. Static buffers of the program are lists of
  their bytes, \<open>argv\<close> the positions in the command line.
\<close>

section \<open>System calls\<close>

text \<open>The functions of \<^verbatim>\<open>lib/syscall.c\<close>: the kernel's function each is for, the number it loads and how many arguments.\<close>

definition wrappers :: "(syscall_t \<times> u32 \<times> nat) list" where
  "wrappers = [(Sys_test, 0, 0), (Task_yield, 158, 0), (Task_sleep, 162, 1), (Sys_brk, 45, 1), (Sys_open, 5, 3),
     (Sys_creat, 8, 2), (Sys_close, 6, 1), (Sys_read, 3, 3), (Sys_write, 4, 3), (Sys_lseek, 19, 3),
     (Sys_readdir, 89, 3), (Sys_getcwd, 183, 2), (Sys_chdir, 12, 1), (Sys_chroot, 61, 1), (Sys_mkdir, 39,
     2), (Sys_rmdir, 40, 1), (Sys_getpid, 20, 0), (Sys_getppid, 64, 0), (Task_fork, 2, 0), (Task_exit, 1,
     1), (Task_waitpid, 7, 2), (Sys_link, 9, 2), (Sys_unlink, 10, 1), (Sys_time, 13, 0), (Sys_umask, 60,
     1), (Console_clear, 200, 0)]"

definition syscall :: "u32 \<Rightarrow> syscall_t res" where "syscall nr = syscall_target nr"

text \<open>The calls the shell makes. A path is the bytes from its pointer on.\<close>

record 'k calls =
  c_open :: "u8 list \<Rightarrow> u32 \<Rightarrow> u32 \<Rightarrow> 'k \<Rightarrow> (u32 \<times> 'k) res"
  c_close :: "u32 \<Rightarrow> 'k \<Rightarrow> 'k res"
  c_read :: "u32 \<Rightarrow> u8 list \<Rightarrow> u32 \<Rightarrow> 'k \<Rightarrow> (u32 \<times> u8 list \<times> 'k) res"
  c_write :: "u32 \<Rightarrow> u8 list \<Rightarrow> u32 \<Rightarrow> 'k \<Rightarrow> (u32 \<times> 'k) res"
  c_lseek :: "u32 \<Rightarrow> u32 \<Rightarrow> u32 \<Rightarrow> 'k \<Rightarrow> (u32 \<times> 'k) res"
  c_readdir :: "u32 \<Rightarrow> u8 list \<Rightarrow> u32 \<Rightarrow> 'k \<Rightarrow> (u32 \<times> u8 list \<times> 'k) res"
  c_getcwd :: "u8 list \<Rightarrow> u32 \<Rightarrow> 'k \<Rightarrow> u8 list res"
  c_chdir :: "u8 list \<Rightarrow> 'k \<Rightarrow> (u32 \<times> 'k) res"
  c_mkdir :: "u8 list \<Rightarrow> u32 \<Rightarrow> 'k \<Rightarrow> (u32 \<times> 'k) res"
  c_rmdir :: "u8 list \<Rightarrow> 'k \<Rightarrow> (u32 \<times> 'k) res"
  c_unlink :: "u8 list \<Rightarrow> 'k \<Rightarrow> (u32 \<times> 'k) res"
  c_clear :: "'k \<Rightarrow> 'k res"
  c_test :: "'k \<Rightarrow> 'k res"
  c_exit :: "u32 \<Rightarrow> 'k \<Rightarrow> 'k res"

text \<open>Those of the file system; \<open>uptr\<close> is the address of the shell's buffer and \<open>peek\<close> reads what a driver has put there.\<close>

definition kernel_calls :: "u32 \<Rightarrow> (('w, 'b) dev_state_scheme \<Rightarrow> u8 list) \<Rightarrow>
    (('w, 'b) dev_state_scheme \<times> 'a fs_state_scheme \<Rightarrow> (('w, 'b) dev_state_scheme \<times> 'a fs_state_scheme) res) \<Rightarrow>
    (('w, 'b) dev_state_scheme \<times> 'a fs_state_scheme \<Rightarrow> (('w, 'b) dev_state_scheme \<times> 'a fs_state_scheme) res) \<Rightarrow>
    (u32 \<Rightarrow> ('w, 'b) dev_state_scheme \<times> 'a fs_state_scheme \<Rightarrow> (('w, 'b) dev_state_scheme \<times> 'a fs_state_scheme) res) \<Rightarrow>
    (('w, 'b) dev_state_scheme \<times> 'a fs_state_scheme) calls" where
  "kernel_calls uptr peek clear_screen test exit_task =
     \<lparr>c_open = (\<lambda>path flags mode (ds, s). bindE (sys_open path flags mode s) (\<lambda>(r, s). Inr (r, ds, s))),
      c_close = (\<lambda>fd (ds, s). bindE (sys_close fd s) (\<lambda>s. Inr (ds, s))),
      c_read = (\<lambda>fd buf n (ds, s). bindE (sys_read fd uptr buf n ds s) (\<lambda>(r, buf, ds, s).
                  Inr (r, if fd = 0 then peek ds else buf, ds, s))),
      c_write = (\<lambda>fd buf n (ds, s). sys_write fd uptr buf n ds s),
      c_lseek = (\<lambda>fd off wh (ds, s). bindE (sys_lseek fd off wh s) (\<lambda>(r, s). Inr (r, ds, s))),
      c_readdir = (\<lambda>fd buf n (ds, s). sys_readdir fd uptr buf n ds s),
      c_getcwd = (\<lambda>buf n (ds, s). sys_getcwd buf n s),
      c_chdir = (\<lambda>path (ds, s). bindE (sys_chdir path s) (\<lambda>(r, s). Inr (r, ds, s))),
      c_mkdir = (\<lambda>path mode (ds, s). bindE (sys_mkdir path mode s) (\<lambda>(r, s). Inr (r, ds, s))),
      c_rmdir = (\<lambda>path (ds, s). bindE (sys_rmdir path s) (\<lambda>(r, s). Inr (r, ds, s))),
      c_unlink = (\<lambda>path (ds, s). bindE (sys_unlink path s) (\<lambda>(r, s). Inr (r, ds, s))),
      c_clear = clear_screen, c_test = test, c_exit = exit_task\<rparr>"

section \<open>The program\<close>

definition MAX_CMD_LEN :: nat where "MAX_CMD_LEN = 256"
definition MAX_ARG_NR :: nat where "MAX_ARG_NR = 16"
definition MAX_PATH_LEN :: nat where "MAX_PATH_LEN = 1024"
definition BUFLEN :: nat where "BUFLEN = 1024"

text \<open>The bytes of a string constant.\<close>

definition bytes :: "string \<Rightarrow> u8 list" where "bytes cs = map of_char cs @ [0]"

record 'k osh =
  cwd :: "u8 list"
  cmd :: "u8 list"
  argv :: "nat option list"
  rbuf :: "u8 list"
  kern :: 'k

definition on_kern :: "('k \<Rightarrow> 'k res) \<Rightarrow> ('k, 'a) osh_scheme \<Rightarrow> ('k, 'a) osh_scheme res" where
  "on_kern f s = bindE (f (kern s)) (\<lambda>k. Inr (s\<lparr>kern := k\<rparr>))"

definition put_out :: "'k calls \<Rightarrow> u8 list \<Rightarrow> u32 \<Rightarrow> ('k, 'a) osh_scheme \<Rightarrow> ('k, 'a) osh_scheme res" where
  "put_out C buf n = on_kern (\<lambda>k. bindE (c_write C 1 buf n k) (\<lambda>(r, k). Inr k))"

text \<open>\<open>printf\<close>, whose buffer has 1024 bytes; a \<^verbatim>\<open>%n\<close> would write to the program's memory and does not occur.\<close>

definition printf :: "'k calls \<Rightarrow> u8 list \<Rightarrow> fmt_arg list \<Rightarrow> ('k, 'a) osh_scheme \<Rightarrow> ('k, 'a) osh_scheme res" where
  "printf C fmt args s =
     bindE (vsprintf (replicate 1024 0) fmt args) (\<lambda>(i, out, u). put_out C out (of_nat i) s)"

definition basename :: "u8 list \<Rightarrow> u8 list res" where
  "basename name =
     bindE (strrsep name) (\<lambda>p.
     case p of
       None \<Rightarrow> Inl NullDeref
     | Some i \<Rightarrow> bindE (rd name (i + 1)) (\<lambda>c. Inr (drop (if c = 0 then i else i + 1) name)))"

definition print_prompt :: "'k calls \<Rightarrow> ('k, 'a) osh_scheme \<Rightarrow> ('k, 'a) osh_scheme res" where
  "print_prompt C s =
     bindE (c_getcwd C (cwd s) (of_nat MAX_PATH_LEN) (kern s)) (\<lambda>xs.
     bindE (strrsep xs) (\<lambda>p.
     case p of
       None \<Rightarrow> Inl NullDeref
     | Some i \<Rightarrow>
         let s = s\<lparr>cwd := (if i \<noteq> 0 then xs[i := 0] else xs)\<rparr> in
         bindE (basename (cwd s)) (\<lambda>base. printf C (bytes ''[root %s]# '') [AStr base] s)))"

definition onix_logo :: "u8 list" where
  "onix_logo =
     butlast (bytes ''                                ____       _      '') @ [10, 9]
   @ butlast (bytes ''                               / __ '') @ [0x5c] @ butlast (bytes ''___  (_)_ __ '') @ [10, 9]
   @ butlast (bytes ''                              / /_/ / _ '') @ [0x5c] @ butlast (bytes ''/ /'') @ [0x5c]
       @ butlast (bytes '' '') @ [0x5c] @ butlast (bytes '' / '') @ [10, 9]
   @ butlast (bytes ''                              '') @ [0x5c] @ butlast (bytes ''____/_//_/_//_/_'') @ [0x5c, 0x5f, 0x5c]
       @ butlast (bytes ''  '') @ [10, 0]"

definition builtin_logo :: "'k calls \<Rightarrow> ('k, 'a) osh_scheme \<Rightarrow> ('k, 'a) osh_scheme res" where
  "builtin_logo C s = bindE (on_kern (c_clear C) s) (printf C onix_logo [])"

definition builtin_test :: "'k calls \<Rightarrow> ('k, 'a) osh_scheme \<Rightarrow> ('k, 'a) osh_scheme res" where
  "builtin_test C s = on_kern (c_test C) s"

definition builtin_pwd :: "'k calls \<Rightarrow> ('k, 'a) osh_scheme \<Rightarrow> ('k, 'a) osh_scheme res" where
  "builtin_pwd C s =
     bindE (c_getcwd C (cwd s) (of_nat MAX_PATH_LEN) (kern s)) (\<lambda>xs.
     printf C [0x25, 0x73, 10, 0] [AStr xs] (s\<lparr>cwd := xs\<rparr>))"

definition builtin_clear :: "'k calls \<Rightarrow> ('k, 'a) osh_scheme \<Rightarrow> ('k, 'a) osh_scheme res" where
  "builtin_clear C s = on_kern (c_clear C) s"

text \<open>The loop of \<open>ls\<close>, with the entry last read.\<close>

partial_function (option) ls_loop :: "'k calls \<Rightarrow> u32 \<Rightarrow> u8 list \<Rightarrow> 'k osh \<Rightarrow> 'k osh res option" where
  "ls_loop C fd entry s =
     bindO (c_readdir C fd entry 1 (kern s)) (\<lambda>(len, entry, k).
     let s = s\<lparr>kern := k\<rparr> in
     if len = EOF then Some (Inr s)
     else if get16 entry 0 = 0 then ls_loop C fd entry s
     else
       bindO (strcmp (drop 2 entry) dot_name) (\<lambda>d1.
       bindO (if d1 = 0 then Inr 0 else strcmp (drop 2 entry) dotdot_name) (\<lambda>d2.
       if d1 = 0 \<or> d2 = 0 then ls_loop C fd entry s
       else bindO (printf C (bytes ''%s '') [AStr (drop 2 entry)] s) (ls_loop C fd entry))))"

declare ls_loop.simps [code]

definition builtin_ls :: "'k calls \<Rightarrow> 'k osh \<Rightarrow> 'k osh res" where
  "builtin_ls C s =
     bindE (c_open C (cwd s) O_RDONLY 0 (kern s)) (\<lambda>(fd, k).
     let s = s\<lparr>kern := k\<rparr> in
     if fd = EOF then Inr s
     else
       bindE (on_kern (\<lambda>k. bindE (c_lseek C fd 0 SEEK_SET k) (\<lambda>(r, k). Inr k)) s) (\<lambda>s.
       bindE (returns (ls_loop C fd (replicate 16 0) s)) (\<lambda>s.
       bindE (printf C [10, 0] [] s) (on_kern (c_close C fd)))))"

text \<open>An argument; behind the last one is the null pointer, which the kernel cannot read through.\<close>

definition arg :: "nat \<Rightarrow> ('k, 'a) osh_scheme \<Rightarrow> u8 list res" where
  "arg i s = bindE (rd (argv s) i) (\<lambda>p. case p of None \<Rightarrow> Inl NullDeref | Some n \<Rightarrow> Inr (drop n (cmd s)))"

definition call_path :: "(u8 list \<Rightarrow> 'k \<Rightarrow> (u32 \<times> 'k) res) \<Rightarrow> ('k, 'a) osh_scheme \<Rightarrow> ('k, 'a) osh_scheme res" where
  "call_path f s = bindE (arg 1 s) (\<lambda>path. on_kern (\<lambda>k. bindE (f path k) (\<lambda>(r, k). Inr k)) s)"

definition builtin_cd :: "'k calls \<Rightarrow> ('k, 'a) osh_scheme \<Rightarrow> ('k, 'a) osh_scheme res" where
  "builtin_cd C s = call_path (c_chdir C) s"

partial_function (option) cat_loop :: "'k calls \<Rightarrow> u32 \<Rightarrow> 'k osh \<Rightarrow> 'k osh res option" where
  "cat_loop C fd s =
     bindO (c_read C fd (rbuf s) (of_nat BUFLEN) (kern s)) (\<lambda>(len, buf, k).
     let s = s\<lparr>rbuf := buf, kern := k\<rparr> in
     if len = EOF then Some (Inr s)
     else bindO (put_out C buf len s) (cat_loop C fd))"

declare cat_loop.simps [code]

definition builtin_cat :: "'k calls \<Rightarrow> 'k osh \<Rightarrow> 'k osh res" where
  "builtin_cat C s =
     bindE (arg 1 s) (\<lambda>path.
     bindE (c_open C path O_RDONLY 0 (kern s)) (\<lambda>(fd, k).
     let s = s\<lparr>kern := k\<rparr> in
     if fd = EOF then printf C (butlast (bytes ''file %s not exists.'') @ [10, 0]) [AStr path] s
     else bindE (returns (cat_loop C fd s)) (on_kern (c_close C fd))))"

definition builtin_mkdir :: "'k calls \<Rightarrow> nat \<Rightarrow> ('k, 'a) osh_scheme \<Rightarrow> ('k, 'a) osh_scheme res" where
  "builtin_mkdir C argc s = (if argc < 2 then Inr s else call_path (\<lambda>path. c_mkdir C path 493) s)"

definition builtin_rmdir :: "'k calls \<Rightarrow> nat \<Rightarrow> ('k, 'a) osh_scheme \<Rightarrow> ('k, 'a) osh_scheme res" where
  "builtin_rmdir C argc s = (if argc < 2 then Inr s else call_path (c_rmdir C) s)"

definition builtin_rm :: "'k calls \<Rightarrow> nat \<Rightarrow> ('k, 'a) osh_scheme \<Rightarrow> ('k, 'a) osh_scheme res" where
  "builtin_rm C argc s = (if argc < 2 then Inr s else call_path (c_unlink C) s)"

text \<open>The commands, tried in this order. After \<open>exit\<close> nothing of the shell runs.\<close>

definition exit_code :: "nat \<Rightarrow> ('k, 'a) osh_scheme \<Rightarrow> u32 res" where
  "exit_code argc s =
     (if argc = 2 then bindE (arg 1 s) (\<lambda>a. bindE (atoi (Some a)) (\<lambda>v. Inr (word_of_int v))) else Inr 0)"

definition command_table :: "'k calls \<Rightarrow> nat \<Rightarrow> (u8 list \<times> ('k osh \<Rightarrow> 'k osh res)) list" where
  "command_table C argc =
     [(bytes ''test'', builtin_test C), (bytes ''logo'', builtin_logo C), (bytes ''pwd'', builtin_pwd C),
      (bytes ''clear'', builtin_clear C),
      (bytes ''exit'', \<lambda>s. bindE (exit_code argc s) (\<lambda>v. on_kern (c_exit C v) s)),
      (bytes ''ls'', builtin_ls C), (bytes ''cd'', builtin_cd C), (bytes ''cat'', builtin_cat C),
      (bytes ''mkdir'', builtin_mkdir C argc), (bytes ''rmdir'', builtin_rmdir C argc), (bytes ''rm'', builtin_rm C argc)]"

fun try_commands :: "(u8 list \<times> ('k osh \<Rightarrow> 'k osh res)) list \<Rightarrow> 'k calls \<Rightarrow> u8 list \<Rightarrow> 'k osh \<Rightarrow> 'k osh res" where
  "try_commands [] C line s = printf C (butlast (bytes ''osh: command not found: %s'') @ [10, 0]) [AStr line] s"
| "try_commands ((name, f) # cs) C line s =
     bindE (strcmp line name) (\<lambda>d. if d = 0 then f s else try_commands cs C line s)"

definition execute :: "'k calls \<Rightarrow> nat \<Rightarrow> 'k osh \<Rightarrow> 'k osh res" where
  "execute C argc s = bindE (arg 0 s) (\<lambda>line. try_commands (command_table C argc) C line s)"

text \<open>A line is read character by character into \<open>buf\<close>; \<open>\<^verbatim>\<open>buf[idx]\<close>\<close> after the loop is behind a full buffer.\<close>

partial_function (option) readline_loop :: "'k calls \<Rightarrow> nat \<Rightarrow> u8 list \<Rightarrow> nat \<Rightarrow> 'k osh \<Rightarrow> (u8 list \<times> 'k osh) res option" where
  "readline_loop C count buf idx s =
     (if idx \<ge> count then bindO (wr buf idx 0) (\<lambda>buf. Some (Inr (buf, s)))
      else
        bindO (c_read C 0 (drop idx buf) 1 (kern s)) (\<lambda>(ret, rest, k).
        let s = s\<lparr>kern := k\<rparr>; buf = take idx buf @ rest in
        if ret = - 1 then bindO (wr buf idx 0) (\<lambda>buf. Some (Inr (buf, s)))
        else
          bindO (rd buf idx) (\<lambda>ch.
          if ch = 10 \<or> ch = 13 then
            bindO (wr buf idx 0) (\<lambda>buf. bindO (put_out C [10] 1 s) (\<lambda>s. Some (Inr (buf, s))))
          else if ch = 8 then
            bindO (rd buf 0) (\<lambda>c0.
            if c0 \<noteq> 8 then bindO (put_out C [8] 1 s) (readline_loop C count buf (idx - 1))
            else readline_loop C count buf idx s)
          else if ch = 9 then readline_loop C count buf idx s
          else bindO (put_out C (drop idx buf) 1 s) (readline_loop C count buf (idx + 1)))))"

declare readline_loop.simps [code]

definition readline :: "'k calls \<Rightarrow> u32 \<Rightarrow> 'k osh \<Rightarrow> 'k osh res" where
  "readline C count s =
     bindE (returns (readline_loop C (unat count) (cmd s) 0 s)) (\<lambda>(buf, s). Inr (s\<lparr>cmd := buf\<rparr>))"

text \<open>Splitting the line at a character: past separators, past an argument, and the arguments of a line.\<close>

fun skip_token :: "u8 \<Rightarrow> nat \<Rightarrow> u8 list \<Rightarrow> nat res" where
  "skip_token tok i [] = Inl OutOfBounds"
| "skip_token tok i (c # cs) = (if c = tok then skip_token tok (i + 1) cs else Inr i)"

fun skip_word :: "u8 \<Rightarrow> nat \<Rightarrow> u8 list \<Rightarrow> nat res" where
  "skip_word tok i [] = Inl OutOfBounds"
| "skip_word tok i (c # cs) = (if c \<noteq> 0 \<and> c \<noteq> tok then skip_word tok (i + 1) cs else Inr i)"

partial_function (option) parse_loop :: "u8 \<Rightarrow> u8 list \<Rightarrow> nat option list \<Rightarrow> nat \<Rightarrow> nat
    \<Rightarrow> (nat \<times> u8 list \<times> nat option list) res option" where
  "parse_loop tok line av nxt argc =
     bindO (rd line nxt) (\<lambda>c.
     if c = 0 \<or> argc \<ge> MAX_ARG_NR then Some (Inr (argc, line, av))
     else
       bindO (skip_token tok nxt (drop nxt line)) (\<lambda>nxt.
       bindO (rd line nxt) (\<lambda>c.
       if c = 0 then Some (Inr (argc, line, av))
       else
         bindO (wr av argc (Some nxt)) (\<lambda>av.
         bindO (skip_word tok nxt (drop nxt line)) (\<lambda>nxt.
         bindO (rd line nxt) (\<lambda>c.
         if c \<noteq> 0 then parse_loop tok (line[nxt := 0]) av (nxt + 1) (argc + 1)
         else parse_loop tok line av nxt (argc + 1)))))))"

declare parse_loop.simps [code]

definition cmd_parse :: "u8 list \<Rightarrow> nat option list \<Rightarrow> u8 \<Rightarrow> (nat \<times> u8 list \<times> nat option list) res" where
  "cmd_parse line av tok =
     bindE (returns (parse_loop tok line av 0 0)) (\<lambda>(argc, line, av).
     bindE (wr av argc None) (\<lambda>av. Inr (argc, line, av)))"

text \<open>One round of the shell's loop, and its start.\<close>

definition osh_round :: "'k calls \<Rightarrow> 'k osh \<Rightarrow> 'k osh res" where
  "osh_round C s =
     bindE (print_prompt C s) (\<lambda>s.
     bindE (readline C (of_nat MAX_CMD_LEN) s) (\<lambda>s.
     bindE (rd (cmd s) 0) (\<lambda>c.
     if c = 0 then Inr s
     else
       bindE (cmd_parse (cmd s) (argv s) 0x20) (\<lambda>(argc, line, av).
       let s = s\<lparr>cmd := line, argv := av\<rparr> in
       if argc \<ge> MAX_ARG_NR then Inr s else execute C argc s))))"

definition osh_start :: "'k calls \<Rightarrow> 'k osh \<Rightarrow> 'k osh res" where
  "osh_start C s = builtin_logo C (s\<lparr>cmd := replicate MAX_CMD_LEN 0, cwd := replicate MAX_PATH_LEN 0\<rparr>)"

partial_function (option) osh_loop :: "'k calls \<Rightarrow> 'k osh \<Rightarrow> 'k osh res option" where
  "osh_loop C s = bindO (osh_round C s) (osh_loop C)"

definition osh_main :: "'k calls \<Rightarrow> 'k osh \<Rightarrow> 'k osh res" where
  "osh_main C s = bindE (osh_start C s) (\<lambda>s. returns (osh_loop C s))"

end
