(* ===== verification/Cmdline.thy ===== *)
theory Cmdline
  imports Shell
begin

text \<open>
  How the shell splits a line (\<open>cmd_parse\<close> of \<^verbatim>\<open>builtin/osh.c\<close>), against the words of the line.
\<close>

section \<open>The words of a line\<close>

text \<open>The longest pieces without a separator, each with its place; the line starts at place \<open>i\<close>.\<close>

function cmd_words :: "u8 \<Rightarrow> nat \<Rightarrow> u8 list \<Rightarrow> (nat \<times> u8 list) list" where
  "cmd_words tok i xs =
     (let ys = dropWhile (\<lambda>c. c = tok) xs; p = i + (length xs - length ys); w = takeWhile (\<lambda>c. c \<noteq> tok) ys in
      if ys = [] then [] else (p, w) # cmd_words tok (p + length w + 1) (drop (length w + 1) ys))"
  by pat_completeness auto
termination
proof (relation "measure (\<lambda>(tok, i, xs). length xs)", goal_cases)
  case 1
  then show ?case by simp
next
  case (2 tok i xs ys p w)
  have "length ys \<le> length xs" unfolding 2(1) by (rule length_dropWhile_le)
  moreover have "0 < length ys" using 2(4) by simp
  ultimately have "length ys - Suc (length w) < length xs" by linarith
  then show ?case by simp
qed

declare cmd_words.simps [simp del]

lemma cmd_words_Nil [simp]: "cmd_words tok i [] = []"
  by (simp add: cmd_words.simps)

lemma cmd_words_skip: "cmd_words tok i (tok # xs) = cmd_words tok (i + 1) xs"
proof -
  have "length (dropWhile (\<lambda>c. c = tok) xs) \<le> length xs" by (rule length_dropWhile_le)
  then have p: "i + (length (tok # xs) - length (dropWhile (\<lambda>c. c = tok) (tok # xs)))
      = i + 1 + (length xs - length (dropWhile (\<lambda>c. c = tok) xs))" by simp
  show ?thesis
    unfolding cmd_words.simps [of tok i "tok # xs"] cmd_words.simps [of tok "i + 1" xs] Let_def p by simp
qed

lemma cmd_words_replicate: "cmd_words tok i (replicate n tok @ xs) = cmd_words tok (i + n) xs"
  by (induction n arbitrary: i) (simp_all add: cmd_words_skip)

lemma cmd_words_word:
  assumes "w \<noteq> []" and "tok \<notin> set w"
  shows "cmd_words tok i (w @ tok # xs) = (i, w) # cmd_words tok (i + length w + 1) xs"
    and "cmd_words tok i w = [(i, w)]"
proof -
  obtain c cs where w: "w = c # cs" "c \<noteq> tok" using assms by (cases w) auto
  have t: "takeWhile (\<lambda>c. c \<noteq> tok) w = w" "takeWhile (\<lambda>c. c \<noteq> tok) (w @ tok # xs) = w"
    using assms(2) by (induction w) auto
  have d: "dropWhile (\<lambda>c. c = tok) w = w" "dropWhile (\<lambda>c. c = tok) (w @ tok # xs) = w @ tok # xs" using w by simp_all
  show "cmd_words tok i (w @ tok # xs) = (i, w) # cmd_words tok (i + length w + 1) xs"
    unfolding cmd_words.simps [of tok i "w @ tok # xs"] Let_def d t by simp
  show "cmd_words tok i w = [(i, w)]"
    unfolding cmd_words.simps [of tok i w] Let_def d t using assms(1) by simp
qed

section \<open>The loops\<close>

lemma skip_token_ok: "tok \<noteq> 0 \<Longrightarrow> c \<noteq> tok \<Longrightarrow> skip_token tok i (replicate n tok @ c # cs) = Inr (i + n)"
  by (induction n arbitrary: i) simp_all

lemma skip_word_ok: "tok \<notin> set w \<Longrightarrow> 0 \<notin> set w \<Longrightarrow> c = 0 \<or> c = tok \<Longrightarrow> skip_word tok i (w @ c # cs) = Inr (i + length w)"
  by (induction w arbitrary: i) auto

text \<open>Where a line stands: separators, then its end, or a word and its end, or a word and a separator.\<close>

lemma line_cases:
  fixes xs :: "u8 list"
  obtains (blank) n where "xs = replicate n tok"
  | (last) n w where "xs = replicate n tok @ w" "w \<noteq> []" "tok \<notin> set w"
  | (more) n w ys where "xs = replicate n tok @ w @ tok # ys" "w \<noteq> []" "tok \<notin> set w"
proof -
  let ?ys = "dropWhile (\<lambda>c. c = tok) xs"
  let ?w = "takeWhile (\<lambda>c. c \<noteq> tok) ?ys"
  have rep: "takeWhile (\<lambda>c. c = tok) xs = replicate (length (takeWhile (\<lambda>c. c = tok) xs)) tok"
    by (rule replicate_length_same [symmetric]) (auto dest: set_takeWhileD)
  have xs: "xs = replicate (length (takeWhile (\<lambda>c. c = tok) xs)) tok @ ?ys" using rep by (metis takeWhile_dropWhile_id)
  have nt: "tok \<notin> set ?w" by (auto dest: set_takeWhileD)
  show thesis
  proof (cases ?ys)
    case Nil
    have "xs = replicate (length (takeWhile (\<lambda>c. c = tok) xs)) tok" by (rule trans [OF xs]) (simp only: Nil append_Nil2)
    then show ?thesis by (rule blank)
  next
    case (Cons c cs)
    have "c \<noteq> tok" using hd_dropWhile [of "\<lambda>c. c = tok" xs] Cons by auto
    then have w: "?w \<noteq> []" using Cons by simp
    show ?thesis
    proof (cases "dropWhile (\<lambda>c. c \<noteq> tok) ?ys")
      case Nil
      then have "?w = ?ys" by (metis append_Nil2 takeWhile_dropWhile_id)
      then have "xs = replicate (length (takeWhile (\<lambda>c. c = tok) xs)) tok @ ?w"
        by (intro trans [OF xs]) (rule arg_cong, rule sym)
      then show ?thesis by (rule last [OF _ w nt])
    next
      case (Cons e es)
      then have "e = tok" using hd_dropWhile [of "\<lambda>c. c \<noteq> tok" ?ys] by auto
      then have "?ys = ?w @ tok # es" using Cons by (metis takeWhile_dropWhile_id)
      then have "xs = replicate (length (takeWhile (\<lambda>c. c = tok) xs)) tok @ ?w @ tok # es"
        by (intro trans [OF xs]) (rule arg_cong)
      then show ?thesis by (rule more [OF _ w nt])
    qed
  qed
qed

section \<open>The whole line\<close>

text \<open>The bytes of a line at the places of the words are the words, each with a zero byte after it.\<close>

definition words_at :: "u8 list \<Rightarrow> (nat \<times> u8 list) list \<Rightarrow> bool" where
  "words_at line ws \<longleftrightarrow> (\<forall>(p, w) \<in> set ws. take (length w + 1) (drop p line) = w @ [0])"

lemma parse_step:
  assumes "rd line k = Inr a" "a \<noteq> 0" "argc < MAX_ARG_NR" "skip_token tok k (drop k line) = Inr p" "rd line p = Inr x"
  shows "x = 0 \<Longrightarrow> parse_loop tok line av k argc = Some (Inr (argc, line, av))"
    and "x \<noteq> 0 \<Longrightarrow> length av = MAX_ARG_NR \<Longrightarrow> skip_word tok p (drop p line) = Inr q \<Longrightarrow> rd line q = Inr c \<Longrightarrow>
      parse_loop tok line av k argc = (if c \<noteq> 0 then parse_loop tok (line[q := 0]) (av[argc := Some p]) (q + 1) (argc + 1)
        else parse_loop tok line (av[argc := Some p]) q (argc + 1))"
  using assms by (subst parse_loop.simps; simp)+

lemma parse_blank:
  assumes "tok \<noteq> 0" and "argc < MAX_ARG_NR" and "0 < n"
  shows "parse_loop tok (pre @ replicate n tok @ 0 # rest) av (length pre) argc
    = Some (Inr (argc, pre @ replicate n tok @ 0 # rest, av))"
proof -
  let ?line = "pre @ replicate n tok @ 0 # rest"
  have r: "rd ?line (length pre) = Inr tok" using assms(3) by (cases n) (simp_all add: rd_def)
  have k: "skip_token tok (length pre) (drop (length pre) ?line) = Inr (length pre + n)"
    using skip_token_ok [OF assms(1), of 0] assms(1) by simp
  have z: "rd ?line (length pre + n) = Inr 0" by (simp add: rd_def nth_append)
  show ?thesis by (rule parse_step(1) [OF r assms(1,2) k z refl])
qed

lemma parse_word:
  assumes "tok \<noteq> 0" and "argc < MAX_ARG_NR" and "length av = MAX_ARG_NR" and "c = 0 \<or> c = tok"
    and w: "w \<noteq> []" "tok \<notin> set w" "0 \<notin> set w"
  shows "parse_loop tok (pre @ replicate n tok @ w @ c # r) av (length pre) argc =
    (let p = length pre + n; av = av[argc := Some p] in
     if c \<noteq> 0 then parse_loop tok (pre @ replicate n tok @ w @ 0 # r) av (p + length w + 1) (argc + 1)
     else parse_loop tok (pre @ replicate n tok @ w @ c # r) av (p + length w) (argc + 1))"
proof -
  let ?line = "pre @ replicate n tok @ w @ c # r"
  obtain x xs where x: "w = x # xs" "x \<noteq> tok" "x \<noteq> 0" using w by (cases w) auto
  have "rd ?line (length pre) = Inr (if n = 0 then x else tok)" using x by (cases n) (simp_all add: rd_def nth_append)
  moreover have "skip_token tok (length pre) (drop (length pre) ?line) = Inr (length pre + n)"
    using skip_token_ok [OF assms(1) x(2)] x(1) by simp
  moreover have "rd ?line (length pre + n) = Inr x" using x(1) by (simp add: rd_def nth_append)
  moreover have "skip_word tok (length pre + n) (drop (length pre + n) ?line) = Inr (length pre + n + length w)"
    using skip_word_ok [OF w(2,3), of c "length pre + n" r] assms(4) by auto
  moreover have "rd ?line (length pre + n + length w) = Inr c" by (simp add: rd_def nth_append)
  moreover have "?line[length pre + n + length w := 0] = pre @ replicate n tok @ w @ 0 # r" by (simp add: list_update_append)
  moreover have "(if n = 0 then x else tok) \<noteq> 0" using x(3) assms(1) by simp
  ultimately show ?thesis
    using parse_step(2) [OF _ _ assms(2) _ _ x(3) assms(3), of ?line "length pre" "if n = 0 then x else tok" tok
      "length pre + n" "length pre + n + length w" c] assms(4)
    by (simp only: Let_def) (auto split: if_splits)
qed

lemma parse_loop_ok:
  assumes "tok \<noteq> 0" and "0 \<notin> set xs" and "length av = MAX_ARG_NR" and "argc \<le> MAX_ARG_NR"
  shows "\<exists>ys. length ys = length xs \<and>
    (let ws = take (MAX_ARG_NR - argc) (cmd_words tok (length pre) xs) in
     parse_loop tok (pre @ xs @ 0 # rest) av (length pre) argc =
       Some (Inr (argc + length ws, pre @ ys @ 0 # rest,
         take argc av @ map (\<lambda>w. Some (fst w)) ws @ drop (argc + length ws) av))
     \<and> words_at (pre @ ys @ 0 # rest) ws)"
  using assms
proof (induction "length xs" arbitrary: xs pre av argc rule: less_induct)
  case less
  let ?line = "pre @ xs @ 0 # rest"
  show ?case
  proof (cases "xs = [] \<or> argc = MAX_ARG_NR")
    case True
    moreover have "rd ?line (length pre) = Inr (if xs = [] then 0 else hd xs)" by (cases xs) (simp_all add: rd_def)
    ultimately have "parse_loop tok ?line av (length pre) argc = Some (Inr (argc, ?line, av))"
      by (subst parse_loop.simps) auto
    then show ?thesis using True by (intro exI [of _ xs]) (auto simp: words_at_def)
  next
    case False
    then have argc: "argc < MAX_ARG_NR" and ne: "xs \<noteq> []" using less.prems(4) by auto
    show ?thesis
    proof (cases rule: line_cases [of xs tok])
      case (blank n)
      then have "cmd_words tok (length pre) xs = []" "0 < n" using ne cmd_words_replicate [of tok "length pre" n "[]"] by auto
      then show ?thesis
        using parse_blank [OF less.prems(1) argc] blank by (intro exI [of _ xs]) (simp add: words_at_def)
    next
      case (last n w)
      let ?p = "length pre + n"
      have z: "0 \<notin> set w" using less.prems(2) last(1) by auto
      have ws: "cmd_words tok (length pre) xs = [(?p, w)]" unfolding last(1) by (simp add: cmd_words_replicate cmd_words_word(2) [OF last(2,3)])
      have "parse_loop tok ?line av (length pre) argc = parse_loop tok ?line (av[argc := Some ?p]) (?p + length w) (argc + 1)"
        using parse_word [OF less.prems(1) argc less.prems(3) _ last(2,3) z, of 0 pre n rest] by (simp add: last(1) Let_def)
      also have "\<dots> = Some (Inr (argc + 1, ?line, av[argc := Some ?p]))"
        by (subst parse_loop.simps) (simp add: last(1) rd_def nth_append)
      finally have run: "parse_loop tok ?line av (length pre) argc = Some (Inr (argc + 1, ?line, av[argc := Some ?p]))" .
      have tk: "take (MAX_ARG_NR - argc) (cmd_words tok (length pre) xs) = [(?p, w)]" unfolding ws using argc by (simp add: take_Cons')
      have "words_at ?line [(?p, w)]" by (simp add: words_at_def last(1))
      then show ?thesis
        unfolding tk run Let_def using argc less.prems(3) by (intro exI [of _ xs]) (simp add: upd_conv_take_nth_drop)
    next
      case (more n w ys)
      let ?p = "length pre + n" and ?pre = "pre @ replicate n tok @ w @ [0]"
      have z: "0 \<notin> set w" "0 \<notin> set ys" using less.prems(2) more(1) by auto
      have ws: "cmd_words tok (length pre) xs = (?p, w) # cmd_words tok (length ?pre) ys"
        unfolding more(1) by (simp add: cmd_words_replicate cmd_words_word(1) [OF more(2,3)] add.assoc)
      have step: "parse_loop tok ?line av (length pre) argc = parse_loop tok (?pre @ ys @ 0 # rest) (av[argc := Some ?p]) (length ?pre) (argc + 1)"
        using parse_word [OF less.prems(1) argc less.prems(3) _ more(2,3) z(1), of tok pre n "ys @ 0 # rest"] less.prems(1)
        by (simp add: more(1) Let_def add.assoc)
      define vs where "vs = take (MAX_ARG_NR - (argc + 1)) (cmd_words tok (length ?pre) ys)"
      have tk: "take (MAX_ARG_NR - argc) (cmd_words tok (length pre) xs) = (?p, w) # vs"
        unfolding ws vs_def using argc by (simp add: take_Cons')
      have "length ys < length xs" "length (av[argc := Some ?p]) = MAX_ARG_NR" "argc + 1 \<le> MAX_ARG_NR"
        using more(1) less.prems(3) argc by simp_all
      from less.hyps [OF this(1) less.prems(1) z(2) this(2,3), of ?pre] obtain zs where zs: "length zs = length ys"
          "parse_loop tok (?pre @ ys @ 0 # rest) (av[argc := Some ?p]) (length ?pre) (argc + 1) =
           Some (Inr (argc + 1 + length vs, ?pre @ zs @ 0 # rest, take (argc + 1) (av[argc := Some ?p])
             @ map (\<lambda>w. Some (fst w)) vs @ drop (argc + 1 + length vs) (av[argc := Some ?p])))"
          "words_at (?pre @ zs @ 0 # rest) vs" unfolding Let_def vs_def by blast
      have "take (argc + 1) (av[argc := Some ?p]) = take argc av @ [Some ?p]"
        using argc less.prems(3) by (simp add: take_Suc_conv_app_nth)
      moreover have "words_at (?pre @ zs @ 0 # rest) ((?p, w) # vs)" using zs(3) by (simp add: words_at_def)
      ultimately show ?thesis
        using zs(1,2) step more(1) unfolding tk Let_def by (intro exI [of _ "replicate n tok @ w @ 0 # zs"]) simp
    qed
  qed
qed

section \<open>Properties\<close>

text \<open>
  C40. Splitting a command line. On a line of fewer than 16 words \<open>cmd_parse\<close> returns their number, points the
  arguments at the words, which it ends with a zero byte each, closes the list with a null pointer and leaves the
  bytes behind the line alone. On a line of 16 words or more it writes the null pointer behind the array.
\<close>

theorem cmd_parse_words:
  assumes "tok \<noteq> 0" and "0 \<notin> set xs" and "length av = MAX_ARG_NR"
  shows "let ws = cmd_words tok 0 xs in
    if length ws < MAX_ARG_NR
    then \<exists>line av'. cmd_parse (xs @ 0 # rest) av tok = Inr (length ws, line, av') \<and> words_at line ws
      \<and> take (length ws) av' = map (\<lambda>w. Some (fst w)) ws \<and> av' ! length ws = None
      \<and> length line = length (xs @ 0 # rest) \<and> drop (length xs) line = 0 # rest
    else cmd_parse (xs @ 0 # rest) av tok = Inl OutOfBounds"
proof -
  let ?ws = "take MAX_ARG_NR (cmd_words tok 0 xs)"
  obtain ys where ys: "length ys = length xs" "words_at (ys @ 0 # rest) ?ws" "parse_loop tok (xs @ 0 # rest) av 0 0 =
      Some (Inr (length ?ws, ys @ 0 # rest, map (\<lambda>w. Some (fst w)) ?ws @ drop (length ?ws) av))"
    using parse_loop_ok [OF assms, of 0 "[]" rest] by (auto simp: Let_def)
  show ?thesis
  proof (cases "length (cmd_words tok 0 xs) < MAX_ARG_NR")
    case True
    then have ws: "?ws = cmd_words tok 0 xs" by simp
    obtain x zs where "drop (length (cmd_words tok 0 xs)) av = x # zs"
      using True assms(3) by (cases "drop (length (cmd_words tok 0 xs)) av") auto
    then have "cmd_parse (xs @ 0 # rest) av tok = Inr (length (cmd_words tok 0 xs), ys @ 0 # rest,
        map (\<lambda>w. Some (fst w)) (cmd_words tok 0 xs) @ None # zs)"
      using ys(3) unfolding ws by (simp add: cmd_parse_def wr_def list_update_append)
    then show ?thesis
      unfolding Let_def if_P [OF True] using ys(1,2) unfolding ws
      by (intro exI [of _ "ys @ 0 # rest"] exI [of _ "map (\<lambda>w. Some (fst w)) (cmd_words tok 0 xs) @ None # zs"])
         (simp add: nth_append)
  next
    case False
    then have "length ?ws = MAX_ARG_NR" by simp
    then have "cmd_parse (xs @ 0 # rest) av tok = Inl OutOfBounds"
      using ys(3) assms(3) by (simp add: cmd_parse_def wr_def)
    then show ?thesis using False by (simp add: Let_def)
  qed
qed

theorem cmd_parse_words_witness:
  "\<exists>line av'. cmd_parse [0x20, 0x6c, 0x73, 0x20, 0x20, 0x2f, 0, 9] (replicate 16 None) 0x20 = Inr (2, line, av')
      \<and> take 2 av' = [Some 1, Some 5] \<and> drop 6 line = [0, 9]"
proof -
  have w: "cmd_words 0x20 0 [0x20, 0x6c, 0x73, 0x20, 0x20, 0x2f] = [(1, [0x6c, 0x73]), (5, [0x2f])]"
    by (simp add: cmd_words.simps)
  have "length (replicate 16 (None :: nat option)) = MAX_ARG_NR" by (simp add: MAX_ARG_NR_def)
  from cmd_parse_words [OF _ _ this, of "0x20" "[0x20, 0x6c, 0x73, 0x20, 0x20, 0x2f]" "[9]"]
  obtain line av' where "cmd_parse [0x20, 0x6c, 0x73, 0x20, 0x20, 0x2f, 0, 9] (replicate 16 None) 0x20 = Inr (Suc (Suc 0), line, av')"
    "take (Suc (Suc 0)) av' = [Some 1, Some 5]" "drop (Suc (Suc (Suc (Suc (Suc (Suc 0)))))) line = [0, 9]"
    unfolding w Let_def by (auto simp: MAX_ARG_NR_def)
  then show ?thesis by (auto simp: numeral_eq_Suc)
qed

end
