(* ===== verification/Spec2Isabelle.thy ===== *)
theory Spec2Isabelle
  imports Lists Fifo Bitmap Cstring Format Memory Paging AddressSpace Boot Interrupt Task Sched Mutex Heap Elevator Time Keyboard Console Buffer File Fsview Fileio Alloc Filewrite Dirs Process Proctable Ide Ata Shell Cmdline
begin

text \<open>
  A model of onix, a teaching kernel for the 32-bit x86 in C: memory, tasks, drivers, a Minix file system and a shell.
  Every theory opens with a text that says what it holds. This one says how they fit together.

  \<^bold>\<open>The program.\<close> The boot code hands over a map of memory. \<^verbatim>\<open>kernel/memory.c\<close> counts the physical pages
  and builds the page tables; \<^verbatim>\<open>kernel/arena.c\<close> cuts kernel pages into blocks for \<^verbatim>\<open>kmalloc\<close>. Tasks
  (\<^verbatim>\<open>kernel/task.c\<close>) share one processor: the clock counts their ticks down, \<^verbatim>\<open>schedule\<close> picks the next, and a
  task waits on a list for a time, a mutex (\<^verbatim>\<open>kernel/mutex.c\<close>), a device or a child. Block devices queue their
  requests (\<^verbatim>\<open>kernel/device.c\<close>), \<^verbatim>\<open>kernel/ide.c\<close> carries them out, and the buffer cache
  (\<^verbatim>\<open>kernel/buffer.c\<close>) keeps the blocks that \<^verbatim>\<open>fs/\<close> reads and writes. The shell
  \<^verbatim>\<open>builtin/osh.c\<close> reaches all of this through the numbered calls of \<^verbatim>\<open>lib/syscall.c\<close>.

  \<^bold>\<open>The way it is modelled.\<close> A C function is a function from its arguments and the state it touches to
  \<open>'a res\<close>: the new state and the returned value, or the fault that stops the kernel (Prelude.thy). A failed assertion
  and a panic are such faults, so are a null pointer, an access outside of an object, a division by zero, an undefined
  value and a loop that never ends. Integers keep their width (\<open>u8\<close>, \<open>u16\<close>, \<open>u32\<close>); a signed comparison is written
  \<open><s\<close>. Pointers to control blocks, buffers and list nodes are addresses, and a heap of nodes or a map from
  addresses keeps what they point to, so aliasing is as in the code. The states extend one another in the order of the
  calls: \<open>machine_t\<close> (ports and the interrupt flag), \<open>kernel_t\<close> (tasks), \<open>lock_state\<close>, then \<open>buf_state\<close>, \<open>fs_state\<close>
  and \<open>proc_state\<close>, or \<open>ide_state\<close>; the keyboard, the console and the devices have records of their own.

  \<^bold>\<open>Theories and sources.\<close>
  \<^item> Data structures: Lists (\<^verbatim>\<open>lib/list.c\<close>), Fifo (\<^verbatim>\<open>lib/fifo.c\<close>), Bitmap (\<^verbatim>\<open>kernel/bitmap.c\<close>), Cstring
    (\<^verbatim>\<open>lib/string.c\<close>, \<^verbatim>\<open>lib/stdlib.c\<close>), Format (\<^verbatim>\<open>lib/vsprintf.c\<close>).
  \<^item> Memory: Memory, Paging, AddressSpace and Boot (\<^verbatim>\<open>kernel/memory.c\<close>), Arena and Heap (\<^verbatim>\<open>kernel/arena.c\<close>).
  \<^item> The machine: Interrupt (\<^verbatim>\<open>kernel/interrupt.c\<close>, \<^verbatim>\<open>global.c\<close>, \<^verbatim>\<open>gate.c\<close>).
  \<^item> Tasks: Task and Sched (\<^verbatim>\<open>kernel/task.c\<close>, \<^verbatim>\<open>clock.c\<close>), Mutex (\<^verbatim>\<open>kernel/mutex.c\<close>), Process and
    Proctable (creation, fork, exit and wait of \<^verbatim>\<open>kernel/task.c\<close>, \<^verbatim>\<open>system.c\<close>).
  \<^item> Drivers: Device and Elevator (\<^verbatim>\<open>kernel/device.c\<close>), Time (\<^verbatim>\<open>kernel/time.c\<close>, \<^verbatim>\<open>rtc.c\<close>), Keyboard,
    Console (the files of these names), Ide and Ata (\<^verbatim>\<open>kernel/ide.c\<close>).
  \<^item> Files: Buffer (\<^verbatim>\<open>kernel/buffer.c\<close>); Super, Bmap, Inode, Namei and File are the files of \<^verbatim>\<open>fs/\<close>;
    Fsview, Fileio, Alloc, Filewrite and Dirs hold their properties.
  \<^item> User side: Shell and Cmdline (\<^verbatim>\<open>builtin/osh.c\<close>, \<^verbatim>\<open>lib/syscall.c\<close>, \<^verbatim>\<open>lib/printf.c\<close>).

  The definitions of a theory come in the order of the code and carry its names. Names that mean something else in the
  library are changed: \<open>read_loop\<close> and the like are the loops inside a function, \<open>io_inb\<close> a port of the disk driver.
\<close>

text \<open>
  \<^bold>\<open>Interfaces.\<close> The contract of a component that others call is a locale, with the lemmas its clients use, and
  an interpretation on the component's definitions: \<open>intrusive_list\<close> (Lists), \<open>bounded_queue\<close> (Fifo), \<open>run_allocator\<close>
  (Bitmap), \<open>page_allocator\<close> (Memory), \<open>heap_allocator\<close> (Heap) and \<open>block_cache\<close> (Buffer).

  \<^bold>\<open>What is shown.\<close>
  \<^item> C1 to C9: lists are sequences and the ring a bounded queue that forgets its oldest byte; bitmaps give the first run
    that fits; the string functions and \<open>number\<close> compute what they should; \<open>memcmp\<close> and \<open>%d\<close> do not.
  \<^item> C10 to C16: the counts of physical pages, kernel pages, the identity mapping after the start, linking and unlinking,
    copy on write; \<open>brk\<close> to a lower address never returns and \<open>free_pde\<close> always stops the kernel.
  \<^item> C17 and C18: gates, masks and the system call table; segment descriptors read back as they were built.
  \<^item> C19 to C23: no order of interrupts, sleeps, blocks and wake-ups breaks the queues; who wakes and who runs; a woken
    task keeps the processor; mutual exclusion and reentrant locks under any interleaving.
  \<^item> C24 to C27: blocks of the heap are new, large enough and apart, and \<open>kfree\<close> takes back exactly one; one request
    of a device at a time, in the order of a lift.
  \<^item> C28 to C31: \<open>mktime\<close> against the Gregorian calendar; the alarm; the keyboard refines an abstract keyboard;
    the console shows an abstract terminal and stays in the video memory, but for the 96 bytes behind it.
  \<^item> C32 to C36: the cache is transparent; reading gives the bytes of the file; blocks are allocated from the lowest;
    what is written is read back and nothing else changes; the search in a directory.
  \<^item> C37 and C38: in every reachable state the process table numbers its tasks and no page of a task is handed out;
    what waiting for a child does.
  \<^item> C39 and C40: sectors written are read back at their address; the words of a command line.

  \<^bold>\<open>Loops and bounds.\<close> Loops over given data are structural, those with a bound have a measure. A loop
  whose end depends on the hardware or on other tasks is a \<open>partial_function\<close> in the option monad, with the fault
  \<open>NoReturn\<close> for no result; properties about such a loop prove that it returns, or, for \<open>brk\<close>, that it does not. There is no fuel. Some
  properties bound their input, and the bound is in the statement: dates from 1970 to 2038; buffers below the capacity of the
  cache (3855); files of at most 262663 blocks for reading and the first 7168 bytes (the direct blocks) for writing; one
  block of bitmap for allocation; 28-bit sector numbers.

  \<^bold>\<open>Assumptions.\<close> The code of the drivers is what \<open>device_install\<close> was given. Ports are functions of the
  state: for the clock chip a steady reading, for the keyboard controller one that answers, for the disk the device of
  Ata.thy. The disk is shown to work while the system is set up and the driver polls; with tasks running, what happens
  between a block and the interrupt is the parameter \<open>wait\<close> of Ide.thy. The file system and the cache are followed for
  one task at a time: where the code would wait for another task the model stops with \<open>NoReturn\<close>, and no property covers
  two tasks in \<^verbatim>\<open>fs/\<close> at once.

  \<^bold>\<open>Not modelled.\<close> The assembly files (boot sector, loader, interrupt entry, port instructions, the switch of
  stacks), of which the effect is stated where it is used; the translation look-aside buffer; \<^verbatim>\<open>main.c\<close>, which calls
  the initialisations in turn, and \<^verbatim>\<open>thread.c\<close>, endless loops of system calls; printing of messages in
  \<^verbatim>\<open>printk.c\<close>, \<^verbatim>\<open>debug.c\<close>, \<^verbatim>\<open>assert.c\<close>; \<^verbatim>\<open>delay\<close>, \<^verbatim>\<open>hang\<close> and \<^verbatim>\<open>memory_test\<close>, which have no
  effect on the state. In \<open>vsprintf\<close> the conversion \<^verbatim>\<open>%n\<close> is a fault.
\<close>

end
